(* ===== verification/Prelude.thy ===== *)
theory Prelude
  imports Main "HOL-Library.Multiset" "HOL-Library.Word"
begin

text \<open>
  Shared material of the development: the C integer types as words, C's truncating division,
  the lemma collections of the components, generic facts on lists updated by index (C arrays),
  and the comparator contract (the laws a C comparison callback has to satisfy) as a locale.
\<close>

unbundle bit_operations_syntax

section \<open>Types and collections\<close>

type_synonym u8 = "8 word"
type_synonym u16 = "16 word"
type_synonym u32 = "32 word"

named_theorems heap_simps \<open>field equations of the array heap operations\<close>
named_theorems tab_simps \<open>field equations of the hash table operations\<close>
named_theorems jb_simps \<open>field equations of the jitter buffer operations\<close>

section \<open>C integer division\<close>

text \<open>C's \<open>/\<close> and \<open>%\<close> truncate towards zero; HOL's \<open>div\<close> and \<open>mod\<close> round down.\<close>

definition cdiv :: "int \<Rightarrow> int \<Rightarrow> int" where
  "cdiv a b = sgn a * sgn b * (\<bar>a\<bar> div \<bar>b\<bar>)"

definition cmod :: "int \<Rightarrow> int \<Rightarrow> int" where
  "cmod a b = a - b * cdiv a b"

lemma cdiv_nonneg [simp]: "0 \<le> a \<Longrightarrow> 0 < b \<Longrightarrow> cdiv a b = a div b"
  by (cases "a = 0") (simp_all add: cdiv_def sgn_if)

lemma cmod_nonneg [simp]: "0 \<le> a \<Longrightarrow> 0 < b \<Longrightarrow> cmod a b = a mod b"
  by (simp add: cmod_def minus_mult_div_eq_mod)

section \<open>Lists updated by index\<close>

text \<open>A swap of two array slots permutes the array's contents.\<close>

definition swap_at :: "'a list \<Rightarrow> nat \<Rightarrow> nat \<Rightarrow> 'a list" where
  "swap_at xs i j = xs[i := xs ! j, j := xs ! i]"

lemma length_swap_at [simp]: "length (swap_at xs i j) = length xs"
  by (simp add: swap_at_def)

lemma mset_swap_at [simp]:
  "i < length xs \<Longrightarrow> j < length xs \<Longrightarrow> mset (swap_at xs i j) = mset xs"
  unfolding swap_at_def by (rule mset_swap)

lemma nth_swap_at:
  "i < length xs \<Longrightarrow> j < length xs \<Longrightarrow> k < length xs \<Longrightarrow>
   swap_at xs i j ! k = (if k = j then xs ! i else if k = i then xs ! j else xs ! k)"
  by (auto simp: swap_at_def nth_list_update)

lemma take_swap_at:
  "i < n \<Longrightarrow> j < n \<Longrightarrow> n \<le> length xs \<Longrightarrow> take n (swap_at xs i j) = swap_at (take n xs) i j"
  by (simp add: swap_at_def take_update_swap)

lemma take_Suc_update:
  "n < length xs \<Longrightarrow> take (Suc n) (xs[n := x]) = take n xs @ [x]"
  by (simp add: take_Suc_conv_app_nth)

lemma ex_less_Suc_conv: "(\<exists>j < n. P (Suc j)) \<longleftrightarrow> (\<exists>j. 1 \<le> j \<and> j \<le> n \<and> P j)"
proof
  assume "\<exists>j. 1 \<le> j \<and> j \<le> n \<and> P j"
  then obtain j where "1 \<le> j" "j \<le> n" "P j" by blast
  then have "j - 1 < n" "P (Suc (j - 1))" by auto
  then show "\<exists>j < n. P (Suc j)" by blast
qed (force simp: Suc_le_eq)

lemma ex_set_nth: "(\<exists>x \<in> set xs. P x) \<longleftrightarrow> (\<exists>j < length xs. P (xs ! j))"
  by (metis in_set_conv_nth nth_mem)

section \<open>The comparator contract\<close>

text \<open>
  A C comparison callback returns a negative, zero or positive number. Containers that order
  their elements by it (\<open>main/heap.c\<close>) rely on two laws: swapping the arguments flips the
  sign, and the induced relation is transitive.
\<close>

locale comparator =
  fixes cmp :: "'e \<Rightarrow> 'e \<Rightarrow> int"
  assumes cmp_flip: "cmp a b < 0 \<longleftrightarrow> 0 < cmp b a"
    and cmp_trans: "cmp a b \<le> 0 \<Longrightarrow> cmp b c \<le> 0 \<Longrightarrow> cmp a c \<le> 0"
begin

lemma cmp_flip_le: "cmp a b \<le> 0 \<longleftrightarrow> 0 \<le> cmp b a"
  using cmp_flip [of b a] by linarith

lemma cmp_refl: "cmp a a = 0"
  using cmp_flip [of a a] by linarith

lemma cmp_total: "cmp a b \<le> 0 \<or> cmp b a \<le> 0"
  using cmp_flip [of b a] by linarith

lemma cmp_ge_trans: "0 \<le> cmp a b \<Longrightarrow> 0 \<le> cmp b c \<Longrightarrow> 0 \<le> cmp a c"
  using cmp_trans [of c b a] cmp_flip_le by blast

end

section \<open>The priority-queue contract\<close>

text \<open>
  What a scheduler needs of its queue: a successful push adds the element, \<open>pop\<close> and \<open>peek\<close>
  yield a greatest element of the comparator, and a queued element can be removed by itself.
  \<open>elems\<close> is the abstract content and \<open>inv\<close> the provider's invariant.
\<close>

locale prio_queue =
  fixes cmp :: "'e \<Rightarrow> 'e \<Rightarrow> int"
    and push :: "'q \<Rightarrow> 'e \<Rightarrow> bool \<Rightarrow> int \<times> 'q"
    and pop :: "'q \<Rightarrow> 'e option \<times> 'q"
    and peek :: "'q \<Rightarrow> nat \<Rightarrow> 'e option"
    and remove :: "'q \<Rightarrow> 'e \<Rightarrow> 'e option \<times> 'q"
    and elems :: "'q \<Rightarrow> 'e multiset"
    and inv :: "'q \<Rightarrow> bool"
  assumes q_push: "inv q \<Longrightarrow> e \<notin># elems q \<Longrightarrow> push q e ok = (0, q') \<Longrightarrow>
      inv q' \<and> elems q' = add_mset e (elems q)"
    and q_empty: "inv q \<Longrightarrow> elems q = {#} \<Longrightarrow> pop q = (None, q) \<and> peek q 1 = None"
    and q_pop: "inv q \<Longrightarrow> elems q \<noteq> {#} \<Longrightarrow>
      \<exists>e q'. peek q 1 = Some e \<and> pop q = (Some e, q') \<and> inv q' \<and> e \<in># elems q \<and>
        elems q' = elems q - {#e#} \<and> (\<forall>x. x \<in># elems q \<longrightarrow> 0 \<le> cmp e x)"
    and q_remove: "inv q \<Longrightarrow> e \<in># elems q \<Longrightarrow> size (elems q) < 2 ^ 32 \<Longrightarrow>
      \<exists>q'. remove q e = (Some e, q') \<and> inv q' \<and> elems q' = elems q - {#e#}"

text \<open>Popping until the queue is empty (at most \<open>n\<close> times).\<close>

fun drain :: "('q \<Rightarrow> 'e option \<times> 'q) \<Rightarrow> nat \<Rightarrow> 'q \<Rightarrow> 'e list" where
  "drain pop 0 q = []"
| "drain pop (Suc n) q =
     (case pop q of (None, _) \<Rightarrow> [] | (Some e, q') \<Rightarrow> e # drain pop n q')"

context prio_queue
begin

lemma q_pop_None: "inv q \<Longrightarrow> pop q = (None, q') \<Longrightarrow> elems q = {#}"
  using q_pop [of q] by fastforce

lemma q_pop_Some:
  assumes "inv q" "pop q = (Some e, q')"
  shows "inv q'" "e \<in># elems q" "elems q' = elems q - {#e#}" "x \<in># elems q \<Longrightarrow> 0 \<le> cmp e x"
    and "peek q 1 = Some e"
  using assms q_pop [of q] q_empty [of q] by fastforce+

lemma q_drain:
  "inv q \<Longrightarrow> size (elems q) \<le> n \<Longrightarrow>
   mset (drain pop n q) = elems q \<and> sorted_wrt (\<lambda>a b. 0 \<le> cmp a b) (drain pop n q)"
proof (induction n arbitrary: q)
  case 0
  then show ?case by simp
next
  case (Suc n)
  show ?case
  proof (cases "elems q = {#}")
    case True
    with Suc.prems q_empty show ?thesis by simp
  next
    case False
    then obtain e q' where e: "pop q = (Some e, q')" "inv q'" "e \<in># elems q"
        "elems q' = elems q - {#e#}" "\<And>x. x \<in># elems q \<Longrightarrow> 0 \<le> cmp e x"
      using q_pop [OF Suc.prems(1)] by blast
    have m: "elems q = add_mset e (elems q')" using e(3,4) by simp
    have "size (elems q') \<le> n" using Suc.prems(2) m by simp
    then have ih: "mset (drain pop n q') = elems q'"
        "sorted_wrt (\<lambda>a b. 0 \<le> cmp a b) (drain pop n q')"
      using Suc.IH [OF e(2)] by auto
    moreover have "\<forall>x \<in> set (drain pop n q'). 0 \<le> cmp e x"
      using e(5) m ih(1) by (metis insertCI set_mset_add_mset_insert set_mset_mset)
    ultimately show ?thesis using e(1) m by simp
  qed
qed

end

section \<open>The object-table contract\<close>

text \<open>
  What a client needs of a table of objects compared by a key: at most one object per key,
  lookup by key, insertion unless the key is taken, and removal of an object that is in the table.
\<close>

datatype 'o tab_op = Tab_insert 'o | Tab_remove 'o

text \<open>A history of insertions and removals, on a table and on a plain set of objects.\<close>

fun tab_run :: "('t \<Rightarrow> 'o \<Rightarrow> bool \<Rightarrow> bool \<Rightarrow> int \<times> 't) \<Rightarrow> ('t \<Rightarrow> 'o \<Rightarrow> 'o option \<times> 't) \<Rightarrow>
    'o tab_op list \<Rightarrow> 't \<Rightarrow> 't" where
  "tab_run ins rem [] t = t"
| "tab_run ins rem (Tab_insert x # ops) t = tab_run ins rem ops (snd (ins t x True True))"
| "tab_run ins rem (Tab_remove x # ops) t = tab_run ins rem ops (snd (rem t x))"

fun set_run :: "('o \<Rightarrow> 'o \<Rightarrow> bool) \<Rightarrow> 'o tab_op list \<Rightarrow> 'o set \<Rightarrow> 'o set" where
  "set_run same [] S = S"
| "set_run same (Tab_insert x # ops) S =
     set_run same ops (if \<exists>y \<in> S. same x y then S else insert x S)"
| "set_run same (Tab_remove x # ops) S = set_run same ops (S - {x})"

locale object_table =
  fixes same_key :: "'o \<Rightarrow> 'o \<Rightarrow> bool"
    and ins :: "'t \<Rightarrow> 'o \<Rightarrow> bool \<Rightarrow> bool \<Rightarrow> int \<times> 't"
    and look :: "'t \<Rightarrow> 'o \<Rightarrow> 'o option"
    and rem :: "'t \<Rightarrow> 'o \<Rightarrow> 'o option \<times> 't"
    and objs :: "'t \<Rightarrow> 'o set"
    and inv :: "'t \<Rightarrow> bool"
  assumes t_finite: "inv t \<Longrightarrow> finite (objs t)"
    and t_lookup: "inv t \<Longrightarrow> look t k = Some x \<longleftrightarrow> x \<in> objs t \<and> same_key k x"
    and t_insert: "inv t \<Longrightarrow> \<forall>y \<in> objs t. \<not> same_key x y \<Longrightarrow>
      \<exists>t'. ins t x True True = (1, t') \<and> inv t' \<and> objs t' = insert x (objs t)"
    and t_insert_taken: "inv t \<Longrightarrow> y \<in> objs t \<Longrightarrow> same_key x y \<Longrightarrow> ins t x oc oa = (0, t)"
    and t_remove: "inv t \<Longrightarrow> x \<in> objs t \<Longrightarrow>
      \<exists>t'. rem t x = (Some x, t') \<and> inv t' \<and> objs t' = objs t - {x}"
    and t_remove_absent: "inv t \<Longrightarrow> x \<notin> objs t \<Longrightarrow> rem t x = (None, t)"
begin

lemma t_run: "inv t \<Longrightarrow> inv (tab_run ins rem ops t) \<and>
    objs (tab_run ins rem ops t) = set_run same_key ops (objs t)"
proof (induction ops arbitrary: t)
  case (Cons a ops)
  show ?case
  proof (cases a)
    case (Tab_insert x)
    show ?thesis
    proof (cases "\<exists>y \<in> objs t. same_key x y")
      case True
      then show ?thesis using Cons t_insert_taken [OF Cons.prems, of _ x True True] Tab_insert by auto
    next
      case False
      then obtain t' where "ins t x True True = (1, t')" "inv t'" "objs t' = insert x (objs t)"
        using t_insert [OF Cons.prems, of x] by blast
      then show ?thesis using Cons.IH [of t'] Tab_insert False by auto
    qed
  next
    case (Tab_remove x)
    show ?thesis
    proof (cases "x \<in> objs t")
      case True
      then show ?thesis using Cons.IH t_remove [OF Cons.prems True] Tab_remove by auto
    next
      case False
      then show ?thesis using Cons t_remove_absent [OF Cons.prems False] Tab_remove by simp
    qed
  qed
qed simp

lemma t_lookup_None: "inv t \<Longrightarrow> look t k = None \<longleftrightarrow> (\<forall>x \<in> objs t. \<not> same_key k x)"
  using t_lookup by (metis not_None_eq)

lemma t_lookup_after_insert:
  assumes "inv t" "\<forall>y \<in> objs t. \<not> same_key x y" "ins t x True True = (r, t')"
  shows "inv t'" "look t' k = (if same_key k x then Some x else look t k)"
proof -
  have i: "inv t'" "objs t' = insert x (objs t)" using t_insert [OF assms(1,2)] assms(3) by auto
  then show "inv t'" by simp
  show "look t' k = (if same_key k x then Some x else look t k)"
  proof (cases "look t' k")
    case None
    then have "\<forall>y \<in> insert x (objs t). \<not> same_key k y"
      using t_lookup_None [OF i(1), of k] i(2) by simp
    then show ?thesis using None t_lookup_None [OF assms(1), of k] by simp
  next
    case (Some y)
    then have "y \<in> insert x (objs t)" "same_key k y" using t_lookup [OF i(1)] i(2) by auto
    then show ?thesis using t_lookup [OF i(1), of k x] t_lookup [OF assms(1), of k y] Some i(2) by auto
  qed
qed

end

end
