(* ===== verification/Heap.thy ===== *)
theory Heap
  imports Prelude
begin

text \<open>
  The array max heap of \<open>main/heap.c\<close>.

  \<open>tris_heap\<close> is the C structure: the comparison callback, the offset of the index field
  (negative: elements carry no index), the current and the allocated length and the array. The
  list \<open>heap\<close> holds the array slots written so far; the slots between \<open>length (heap h)\<close> and
  \<open>avail_len h\<close> are allocated but never written, and the code never reads them
  (\<open>heap_wf\<close>). The index that the heap writes into every element at \<open>index_offset\<close> is the
  map \<open>index_of\<close>. Node numbers start at 1, as in the code. The boolean argument of
  \<open>tris_heap_push\<close> and \<open>tris_heap_create\<close> says whether the allocator succeeds.
  The read-write lock and the allocation diagnostics are not modelled.
\<close>

section \<open>State and operations\<close>

record 'e tris_heap =
  cmp_fn :: "'e \<Rightarrow> 'e \<Rightarrow> int"
  index_offset :: int
  cur_len :: nat
  avail_len :: nat
  heap :: "'e list"
  index_of :: "'e \<Rightarrow> int"

definition left_node :: "nat \<Rightarrow> nat" where
  "left_node i = 2 * i"

definition right_node :: "nat \<Rightarrow> nat" where
  "right_node i = 2 * i + 1"

definition parent_node :: "nat \<Rightarrow> nat" where
  "parent_node i = i div 2"

definition heap_get :: "'e tris_heap \<Rightarrow> nat \<Rightarrow> 'e" where
  "heap_get h i = heap h ! (i - 1)"

definition get_index :: "'e tris_heap \<Rightarrow> 'e \<Rightarrow> int" where
  "get_index h elm = (if index_offset h < 0 then - 1 else index_of h elm)"

text \<open>Writing slot \<open>i\<close>; the first write to the slot after the written ones extends the list.\<close>

definition heap_set :: "'e tris_heap \<Rightarrow> nat \<Rightarrow> 'e \<Rightarrow> 'e tris_heap" where
  "heap_set h i elm =
     h\<lparr>heap := (if i - 1 < length (heap h) then (heap h)[i - 1 := elm] else heap h @ [elm]),
       index_of := (if 0 \<le> index_offset h then (index_of h)(elm := int i) else index_of h)\<rparr>"

definition verify_node :: "'e tris_heap \<Rightarrow> nat \<Rightarrow> bool" where
  "verify_node h i =
     (let l = left_node i; r = right_node i in
      (l \<le> cur_len h \<longrightarrow> \<not> cmp_fn h (heap_get h i) (heap_get h l) < 0) \<and>
      (r \<le> cur_len h \<longrightarrow> \<not> cmp_fn h (heap_get h i) (heap_get h r) < 0))"

definition tris_heap_verify :: "'e tris_heap \<Rightarrow> int" where
  "tris_heap_verify h = (if list_all (verify_node h) [1..<cur_len h div 2 + 1] then 0 else - 1)"

definition tris_heap_create ::
  "nat \<Rightarrow> ('e \<Rightarrow> 'e \<Rightarrow> int) option \<Rightarrow> int \<Rightarrow> bool \<Rightarrow> 'e tris_heap option" where
  "tris_heap_create init_height cmp off ok =
     (case cmp of
        None \<Rightarrow> None
      | Some c \<Rightarrow>
          (let init_height = (if init_height = 0 then 8 else init_height) in
           if \<not> ok then None
           else Some \<lparr>cmp_fn = c, index_offset = off, cur_len = 0,
                      avail_len = 2 ^ init_height - 1, heap = [], index_of = (\<lambda>_. 0)\<rparr>))"

text \<open>When \<open>realloc\<close> fails the heap is left empty with no storage at all.\<close>

definition grow_heap :: "'e tris_heap \<Rightarrow> bool \<Rightarrow> int \<times> 'e tris_heap" where
  "grow_heap h ok =
     (if ok then (0, h\<lparr>avail_len := avail_len h * 2 + 1\<rparr>)
      else (- 1, h\<lparr>heap := [], cur_len := 0, avail_len := 0\<rparr>))"

definition heap_swap :: "'e tris_heap \<Rightarrow> nat \<Rightarrow> nat \<Rightarrow> 'e tris_heap" where
  "heap_swap h i j =
     (let tmp = heap_get h i; h1 = heap_set h i (heap_get h j) in heap_set h1 j tmp)"

definition heapify_max :: "'e tris_heap \<Rightarrow> nat \<Rightarrow> nat" where
  "heapify_max h i =
     (let l = left_node i; r = right_node i;
          m = (if l \<le> cur_len h \<and> 0 < cmp_fn h (heap_get h l) (heap_get h i) then l else i)
      in if r \<le> cur_len h \<and> 0 < cmp_fn h (heap_get h r) (heap_get h m) then r else m)"

lemma heap_set_fields [simp, heap_simps]:
  "cmp_fn (heap_set h i e) = cmp_fn h"
  "index_offset (heap_set h i e) = index_offset h"
  "cur_len (heap_set h i e) = cur_len h"
  "avail_len (heap_set h i e) = avail_len h"
  by (simp_all add: heap_set_def)

lemma heap_swap_fields [simp, heap_simps]:
  "cmp_fn (heap_swap h i j) = cmp_fn h"
  "index_offset (heap_swap h i j) = index_offset h"
  "cur_len (heap_swap h i j) = cur_len h"
  "avail_len (heap_swap h i j) = avail_len h"
  by (simp_all add: heap_swap_def Let_def)

lemma heapify_max_bounds:
  "heapify_max h i \<noteq> i \<Longrightarrow> i < heapify_max h i \<and> heapify_max h i \<le> cur_len h"
  by (auto simp: heapify_max_def left_node_def right_node_def Let_def split: if_splits)

function max_heapify :: "'e tris_heap \<Rightarrow> nat \<Rightarrow> 'e tris_heap" where
  "max_heapify h i =
     (let m = heapify_max h i in if m = i then h else max_heapify (heap_swap h i m) m)"
  by pat_completeness auto
termination
proof (relation "measure (\<lambda>(h, i). Suc (cur_len h) - i)", goal_cases)
  case (2 h i m)
  with heapify_max_bounds [of h i] show ?case by auto
qed simp

function bubble_up :: "'e tris_heap \<Rightarrow> nat \<Rightarrow> 'e tris_heap \<times> nat" where
  "bubble_up h i =
     (if 1 < i \<and> cmp_fn h (heap_get h (parent_node i)) (heap_get h i) < 0
      then bubble_up (heap_swap h i (parent_node i)) (parent_node i)
      else (h, i))"
  by pat_completeness auto
termination
  by (relation "measure snd") (auto simp: parent_node_def)

declare max_heapify.simps [simp del] bubble_up.simps [simp del]

definition tris_heap_push :: "'e tris_heap \<Rightarrow> 'e \<Rightarrow> bool \<Rightarrow> int \<times> 'e tris_heap" where
  "tris_heap_push h elm ok =
     (let (res, h) = (if cur_len h = avail_len h then grow_heap h ok else (0, h)) in
      if res \<noteq> 0 then (- 1, h)
      else (let h = h\<lparr>cur_len := cur_len h + 1\<rparr>;
                h = heap_set h (cur_len h) elm
            in (0, fst (bubble_up h (cur_len h)))))"

definition heap_remove_at :: "'e tris_heap \<Rightarrow> nat \<Rightarrow> 'e option \<times> 'e tris_heap" where
  "heap_remove_at h index =
     (if index = 0 \<or> cur_len h < index then (None, h)
      else (let ret = heap_get h index;
                lst = heap_get h (cur_len h);
                h = heap_set (h\<lparr>cur_len := cur_len h - 1\<rparr>) index lst;
                (h, index) = bubble_up h index
            in (Some ret, max_heapify h index)))"

text \<open>The \<open>ssize_t\<close> index is passed as an \<open>unsigned int\<close>: it is reduced modulo \<open>2 ^ 32\<close>.\<close>

definition tris_heap_remove :: "'e tris_heap \<Rightarrow> 'e \<Rightarrow> 'e option \<times> 'e tris_heap" where
  "tris_heap_remove h elm =
     (let i = get_index h elm in
      if i = - 1 then (None, h) else heap_remove_at h (nat (i mod 2 ^ 32)))"

definition tris_heap_pop :: "'e tris_heap \<Rightarrow> 'e option \<times> 'e tris_heap" where
  "tris_heap_pop h = heap_remove_at h 1"

definition tris_heap_peek :: "'e tris_heap \<Rightarrow> nat \<Rightarrow> 'e option" where
  "tris_heap_peek h index =
     (if cur_len h = 0 \<or> index = 0 \<or> cur_len h < index then None else Some (heap_get h index))"

definition tris_heap_size :: "'e tris_heap \<Rightarrow> nat" where
  "tris_heap_size h = cur_len h"

section \<open>Well-formedness and the order invariant\<close>

definition heap_wf :: "'e tris_heap \<Rightarrow> bool" where
  "heap_wf h \<longleftrightarrow> cur_len h \<le> length (heap h) \<and> length (heap h) \<le> avail_len h"

definition heap_elems :: "'e tris_heap \<Rightarrow> 'e list" where
  "heap_elems h = take (cur_len h) (heap h)"

definition edge_ok :: "'e tris_heap \<Rightarrow> nat \<Rightarrow> bool" where
  "edge_ok h j \<longleftrightarrow> 0 \<le> cmp_fn h (heap_get h (parent_node j)) (heap_get h j)"

definition heap_order :: "'e tris_heap \<Rightarrow> bool" where
  "heap_order h \<longleftrightarrow> (\<forall>j. 2 \<le> j \<and> j \<le> cur_len h \<longrightarrow> edge_ok h j)"

text \<open>The order holds but for the edges at node \<open>k\<close>, whose children are below its parent.\<close>

definition heap_order_except :: "'e tris_heap \<Rightarrow> nat \<Rightarrow> bool" where
  "heap_order_except h k \<longleftrightarrow>
     (\<forall>j. 2 \<le> j \<and> j \<le> cur_len h \<and> j \<noteq> k \<and> parent_node j \<noteq> k \<longrightarrow> edge_ok h j) \<and>
     (\<forall>j. 2 \<le> k \<and> j \<le> cur_len h \<and> parent_node j = k \<longrightarrow>
        0 \<le> cmp_fn h (heap_get h (parent_node k)) (heap_get h j))"

definition children_ok :: "'e tris_heap \<Rightarrow> nat \<Rightarrow> bool" where
  "children_ok h k \<longleftrightarrow> (\<forall>j. 2 \<le> j \<and> j \<le> cur_len h \<and> parent_node j = k \<longrightarrow> edge_ok h j)"

definition parent_ok :: "'e tris_heap \<Rightarrow> nat \<Rightarrow> bool" where
  "parent_ok h k \<longleftrightarrow> (2 \<le> k \<and> k \<le> cur_len h \<longrightarrow> edge_ok h k)"

text \<open>Every element carries its own node number, when the heap keeps indices.\<close>

definition heap_index_ok :: "'e tris_heap \<Rightarrow> bool" where
  "heap_index_ok h \<longleftrightarrow>
     (0 \<le> index_offset h \<longrightarrow>
        distinct (heap_elems h) \<and>
        (\<forall>i. 1 \<le> i \<and> i \<le> cur_len h \<longrightarrow> index_of h (heap_get h i) = int i))"

lemma length_heap_elems [simp]: "heap_wf h \<Longrightarrow> length (heap_elems h) = cur_len h"
  by (simp add: heap_elems_def heap_wf_def)

lemma heap_get_elems:
  "heap_wf h \<Longrightarrow> 1 \<le> i \<Longrightarrow> i \<le> cur_len h \<Longrightarrow> heap_get h i = heap_elems h ! (i - 1)"
  by (simp add: heap_elems_def heap_get_def)


lemma heap_order_split:
  "heap_order_except h k \<Longrightarrow> parent_ok h k \<Longrightarrow> children_ok h k \<Longrightarrow> heap_order h"
  unfolding heap_order_def heap_order_except_def parent_ok_def children_ok_def by blast

lemma heap_set_heap:
  "i - 1 < length (heap h) \<Longrightarrow> heap (heap_set h i e) = (heap h)[i - 1 := e]"
  by (simp add: heap_set_def)

lemma heap_swap_heap:
  "i - 1 < length (heap h) \<Longrightarrow> j - 1 < length (heap h) \<Longrightarrow>
   heap (heap_swap h i j) = swap_at (heap h) (i - 1) (j - 1)"
  by (simp add: heap_swap_def heap_set_def heap_get_def swap_at_def Let_def)

lemma heap_swap_wf [simp]:
  "heap_wf h \<Longrightarrow> i \<le> cur_len h \<Longrightarrow> 1 \<le> i \<Longrightarrow> j \<le> cur_len h \<Longrightarrow> 1 \<le> j \<Longrightarrow> heap_wf (heap_swap h i j)"
  by (auto simp: heap_wf_def heap_swap_heap)

lemma heap_swap_get:
  assumes "heap_wf h" "1 \<le> i" "i \<le> cur_len h" "1 \<le> j" "j \<le> cur_len h" "1 \<le> k" "k \<le> cur_len h"
  shows "heap_get (heap_swap h i j) k =
           (if k = j then heap_get h i else if k = i then heap_get h j else heap_get h k)"
  using assms by (auto simp: heap_wf_def heap_get_def heap_swap_heap nth_swap_at)

lemma heap_swap_elems:
  assumes "heap_wf h" "1 \<le> i" "i \<le> cur_len h" "1 \<le> j" "j \<le> cur_len h"
  shows "mset (heap_elems (heap_swap h i j)) = mset (heap_elems h)"
  using assms by (auto simp: heap_wf_def heap_elems_def heap_swap_heap take_swap_at)

lemma heap_elems_nth_neq:
  assumes "heap_wf h" "distinct (heap_elems h)" "1 \<le> i" "i \<le> cur_len h" "1 \<le> j" "j \<le> cur_len h"
    and "i \<noteq> j"
  shows "heap_get h i \<noteq> heap_get h j"
  using assms by (auto simp: heap_get_elems nth_eq_iff_index_eq)

lemma heap_swap_index_of:
  "0 \<le> index_offset h \<Longrightarrow>
   index_of (heap_swap h i j) = (index_of h)(heap_get h j := int i, heap_get h i := int j)"
  by (simp add: heap_swap_def heap_set_def Let_def heap_get_def)

lemma heap_swap_index_ok:
  assumes wf: "heap_wf h" and ij: "1 \<le> i" "i \<le> cur_len h" "1 \<le> j" "j \<le> cur_len h" "i \<noteq> j"
    and ok: "heap_index_ok h"
  shows "heap_index_ok (heap_swap h i j)"
proof -
  { assume off: "0 \<le> index_offset h"
    have d: "distinct (heap_elems h)"
      and ix: "\<And>k. 1 \<le> k \<Longrightarrow> k \<le> cur_len h \<Longrightarrow> index_of h (heap_get h k) = int k"
      using ok off by (auto simp: heap_index_ok_def)
    have "distinct (heap_elems (heap_swap h i j))"
      using d heap_swap_elems [OF wf ij(1-4)] mset_eq_imp_distinct_iff by blast
    moreover have "index_of (heap_swap h i j) (heap_get (heap_swap h i j) k) = int k"
      if k: "1 \<le> k" "k \<le> cur_len h" for k
      using ij(5) k ix heap_elems_nth_neq [OF wf d] ij
      by (simp add: heap_swap_get [OF wf ij(1-4) k] heap_swap_index_of [OF off])
    ultimately have "distinct (heap_elems (heap_swap h i j)) \<and>
        (\<forall>k. 1 \<le> k \<and> k \<le> cur_len (heap_swap h i j) \<longrightarrow>
           index_of (heap_swap h i j) (heap_get (heap_swap h i j) k) = int k)" by simp }
  then show ?thesis unfolding heap_index_ok_def by simp
qed

text \<open>What the loops keep: the structure's fields, the elements and the indices.\<close>

definition heap_frame :: "'e tris_heap \<Rightarrow> 'e tris_heap \<Rightarrow> bool" where
  "heap_frame h h' \<longleftrightarrow>
     cmp_fn h' = cmp_fn h \<and> index_offset h' = index_offset h \<and> cur_len h' = cur_len h \<and>
     avail_len h' = avail_len h \<and> heap_wf h' \<and>
     mset (heap_elems h') = mset (heap_elems h) \<and> (heap_index_ok h \<longrightarrow> heap_index_ok h')"

lemma heap_frame_refl: "heap_wf h \<Longrightarrow> heap_frame h h"
  by (simp add: heap_frame_def)

lemma heap_frame_trans: "heap_frame h h1 \<Longrightarrow> heap_frame h1 h2 \<Longrightarrow> heap_frame h h2"
  by (simp add: heap_frame_def)

lemma heap_swap_frame:
  "heap_wf h \<Longrightarrow> 1 \<le> i \<Longrightarrow> i \<le> cur_len h \<Longrightarrow> 1 \<le> j \<Longrightarrow> j \<le> cur_len h \<Longrightarrow> i \<noteq> j \<Longrightarrow>
   heap_frame h (heap_swap h i j)"
  by (simp add: heap_frame_def heap_swap_elems heap_swap_index_ok)

lemma bubble_up_frame:
  "heap_wf h \<Longrightarrow> 1 \<le> i \<Longrightarrow> i \<le> cur_len h \<Longrightarrow> bubble_up h i = (h', k) \<Longrightarrow>
   heap_frame h h' \<and> 1 \<le> k \<and> k \<le> i"
proof (induction h i rule: bubble_up.induct)
  case (1 h i)
  show ?case
  proof (cases "1 < i \<and> cmp_fn h (heap_get h (parent_node i)) (heap_get h i) < 0")
    case True
    let ?p = "parent_node i" and ?h = "heap_swap h i (parent_node i)"
    have p: "1 \<le> ?p" "?p < i" using True by (auto simp: parent_node_def)
    have f: "heap_frame h ?h" using "1.prems" p by (intro heap_swap_frame) auto
    have "heap_wf ?h" "?p \<le> cur_len ?h" using f p "1.prems" by (auto simp: heap_frame_def)
    moreover have "bubble_up ?h ?p = (h', k)" using "1.prems"(4) True by (subst (asm) bubble_up.simps) simp
    ultimately have "heap_frame ?h h' \<and> 1 \<le> k \<and> k \<le> ?p"
      using "1.IH" True p(1) by blast
    with f p show ?thesis using heap_frame_trans by fastforce
  next
    case False
    with "1.prems" show ?thesis by (auto simp: heap_frame_refl bubble_up.simps [of h i])
  qed
qed

lemma max_heapify_frame:
  "heap_wf h \<Longrightarrow> 1 \<le> i \<Longrightarrow> i \<le> cur_len h \<Longrightarrow> heap_frame h (max_heapify h i)"
proof (induction h i rule: max_heapify.induct)
  case (1 h i)
  let ?m = "heapify_max h i"
  show ?case
  proof (cases "?m = i")
    case False
    have f: "heap_frame h (heap_swap h i ?m)"
      using "1.prems" heapify_max_bounds [OF False] by (intro heap_swap_frame) auto
    have "heap_frame (heap_swap h i ?m) (max_heapify (heap_swap h i ?m) ?m)"
      using "1.IH" [OF refl False] "1.prems" heapify_max_bounds [OF False] f
      by (simp add: heap_frame_def)
    with f False show ?thesis
      by (subst max_heapify.simps) (simp add: Let_def heap_frame_trans [OF f])
  next
    case True
    with "1.prems" show ?thesis by (subst max_heapify.simps) (simp add: Let_def heap_frame_refl)
  qed
qed

context comparator
begin

text \<open>One swap towards the root repairs the edge at \<open>i\<close> and moves the hole to the parent.\<close>

lemma heap_swap_up:
  assumes cmp: "cmp_fn h = cmp" and wf: "heap_wf h" and i: "2 \<le> i" "i \<le> cur_len h"
    and ex: "heap_order_except h i" and lt: "cmp (heap_get h (parent_node i)) (heap_get h i) < 0"
  shows "heap_order_except (heap_swap h i (parent_node i)) (parent_node i)"
    and "children_ok (heap_swap h i (parent_node i)) (parent_node i)"
proof -
  let ?p = "parent_node i" and ?h = "heap_swap h i (parent_node i)"
  have p: "1 \<le> ?p" "?p < i" "?p \<le> cur_len h" using i by (auto simp: parent_node_def)
  have get: "heap_get ?h k = (if k = ?p then heap_get h i else if k = i then heap_get h ?p
      else heap_get h k)" if "1 \<le> k" "k \<le> cur_len h" for k
    using heap_swap_get [OF wf _ i(2) p(1,3) that] i by simp
  have par: "1 \<le> parent_node j" "parent_node j < j" if "2 \<le> j" for j
    using that by (auto simp: parent_node_def)
  have edge: "0 \<le> cmp (heap_get h (parent_node j)) (heap_get h j)"
    if "2 \<le> j" "j \<le> cur_len h" "j \<noteq> i" "parent_node j \<noteq> i" for j
    using ex that cmp by (auto simp: heap_order_except_def edge_ok_def)
  have grand: "0 \<le> cmp (heap_get h ?p) (heap_get h j)"
    if "j \<le> cur_len h" "parent_node j = i" for j
    using ex that cmp i by (auto simp: heap_order_except_def edge_ok_def)
  have up: "0 \<le> cmp (heap_get h i) (heap_get h ?p)"
    using lt cmp_flip [of "heap_get h ?p" "heap_get h i"] by simp
  have ok: "edge_ok ?h j" if j: "2 \<le> j" "j \<le> cur_len h" "j \<noteq> ?p" for j
  proof -
    have ji: "parent_node j \<le> cur_len h" using par [OF j(1)] j(2) by simp
    consider "j = i" | "j \<noteq> i" "parent_node j = ?p" | "parent_node j = i"
      | "j \<noteq> i" "parent_node j \<noteq> ?p" "parent_node j \<noteq> i" by blast
    then show ?thesis
    proof cases
      case 1
      then show ?thesis using up p i cmp by (simp add: edge_ok_def get)
    next
      case 2
      have "0 \<le> cmp (heap_get h ?p) (heap_get h j)"
        using edge [OF j(1,2)] 2 p by simp
      with up have "0 \<le> cmp (heap_get h i) (heap_get h j)" by (rule cmp_ge_trans)
      then show ?thesis using 2 p i j cmp by (simp add: edge_ok_def get)
    next
      case 3
      have "j \<noteq> i" using 3 par [OF j(1)] by auto
      then show ?thesis using grand [OF j(2)] 3 p i j cmp by (simp add: edge_ok_def get)
    next
      case 4
      then show ?thesis using edge [OF j(1,2)] par [OF j(1)] ji j cmp
        by (simp add: edge_ok_def get)
    qed
  qed
  then show "children_ok ?h ?p" using p par by (force simp: children_ok_def)
  have gp: "0 \<le> cmp_fn ?h (heap_get ?h (parent_node ?p)) (heap_get ?h j)"
    if j: "2 \<le> ?p" "j \<le> cur_len h" "parent_node j = ?p" for j
  proof -
    have pp: "1 \<le> parent_node ?p" "parent_node ?p < ?p" using par [OF j(1)] by auto
    have e1: "0 \<le> cmp (heap_get h (parent_node ?p)) (heap_get h ?p)"
      using edge [OF j(1)] p pp by simp
    have j2: "2 \<le> j" using j by (auto simp: parent_node_def)
    show ?thesis
    proof (cases "j = i")
      case True
      then show ?thesis using e1 pp p i cmp by (simp add: get)
    next
      case False
      have "0 \<le> cmp (heap_get h ?p) (heap_get h j)"
        using edge [OF j2 j(2) False] j p by simp
      with e1 have "0 \<le> cmp (heap_get h (parent_node ?p)) (heap_get h j)" by (rule cmp_ge_trans)
      then show ?thesis using False pp p i j j2 par [OF j2] cmp by (simp add: get)
    qed
  qed
  show "heap_order_except ?h ?p" using ok gp by (auto simp: heap_order_except_def)
qed

lemma bubble_up_order:
  "cmp_fn h = cmp \<Longrightarrow> heap_wf h \<Longrightarrow> 1 \<le> i \<Longrightarrow> i \<le> cur_len h \<Longrightarrow> heap_order_except h i \<Longrightarrow>
   bubble_up h i = (h', k) \<Longrightarrow>
   heap_order_except h' k \<and> parent_ok h' k \<and> (children_ok h i \<longrightarrow> children_ok h' k)"
proof (induction h i rule: bubble_up.induct)
  case (1 h i)
  show ?case
  proof (cases "1 < i \<and> cmp_fn h (heap_get h (parent_node i)) (heap_get h i) < 0")
    case True
    let ?p = "parent_node i" and ?h = "heap_swap h i (parent_node i)"
    have p: "1 \<le> ?p" "?p < i" using True by (auto simp: parent_node_def)
    have s: "heap_order_except ?h ?p" "children_ok ?h ?p"
      using heap_swap_up [of h i] "1.prems" True by auto
    have "heap_wf ?h" using "1.prems" p by simp
    then have "heap_order_except h' k \<and> parent_ok h' k \<and> (children_ok ?h ?p \<longrightarrow> children_ok h' k)"
      using "1.IH" True p(1) "1.prems" s(1) p(2) by (simp add: bubble_up.simps [of h i])
    with s(2) show ?thesis by blast
  next
    case False
    with "1.prems" show ?thesis
      by (auto simp: bubble_up.simps [of h i] parent_ok_def edge_ok_def)
  qed
qed

lemma heapify_max_greatest:
  assumes cmp: "cmp_fn h = cmp" and j: "2 \<le> j" "j \<le> cur_len h" "parent_node j = i"
  shows "0 \<le> cmp (heap_get h (heapify_max h i)) (heap_get h j)"
    and "0 \<le> cmp (heap_get h (heapify_max h i)) (heap_get h i)"
proof -
  let ?g = "heap_get h"
  define m where "m = (if 2 * i \<le> cur_len h \<and> 0 < cmp (?g (2 * i)) (?g i) then 2 * i else i)"
  have m: "heapify_max h i =
      (if 2 * i + 1 \<le> cur_len h \<and> 0 < cmp (?g (2 * i + 1)) (?g m) then 2 * i + 1 else m)"
    by (simp add: heapify_max_def left_node_def right_node_def m_def cmp Let_def)
  have mi: "0 \<le> cmp (?g m) (?g i)" using cmp_refl by (simp add: m_def)
  have ml: "0 \<le> cmp (?g m) (?g (2 * i))" if "2 * i \<le> cur_len h"
    using that cmp_refl cmp_flip_le [of "?g (2 * i)" "?g i"] by (auto simp: m_def)
  have gm: "0 \<le> cmp (?g (heapify_max h i)) (?g m)" using cmp_refl by (simp add: m)
  have gr: "0 \<le> cmp (?g (heapify_max h i)) (?g (2 * i + 1))" if "2 * i + 1 \<le> cur_len h"
    using that cmp_refl cmp_flip_le [of "?g (2 * i + 1)" "?g m"] by (auto simp: m)
  show "0 \<le> cmp (?g (heapify_max h i)) (?g i)" using cmp_ge_trans [OF gm mi] .
  have "j = 2 * i \<or> j = 2 * i + 1" using j by (auto simp: parent_node_def)
  then show "0 \<le> cmp (?g (heapify_max h i)) (?g j)"
    using j gr cmp_ge_trans [OF gm ml] by auto
qed

lemma heapify_max_parent: "heapify_max h i \<noteq> i \<Longrightarrow> parent_node (heapify_max h i) = i"
  by (auto simp: heapify_max_def left_node_def right_node_def parent_node_def Let_def)

text \<open>One swap towards the leaves repairs the edges below \<open>i\<close> and moves the hole to the child.\<close>

lemma heap_swap_down:
  assumes cmp: "cmp_fn h = cmp" and wf: "heap_wf h" and i: "1 \<le> i" "i \<le> cur_len h"
    and ex: "heap_order_except h i" and po: "parent_ok h i"
    and m: "m = heapify_max h i" "m \<noteq> i"
  shows "heap_order_except (heap_swap h i m) m" and "parent_ok (heap_swap h i m) m"
proof -
  let ?h = "heap_swap h i m"
  have pm: "parent_node m = i" using heapify_max_parent m by metis
  have im: "i < m" "m \<le> cur_len h" using heapify_max_bounds m by metis+
  have get: "heap_get ?h k = (if k = m then heap_get h i else if k = i then heap_get h m
      else heap_get h k)" if "1 \<le> k" "k \<le> cur_len h" for k
    using heap_swap_get [OF wf i _ im(2) that] im by simp
  have par: "1 \<le> parent_node j" "parent_node j < j" if "2 \<le> j" for j
    using that by (auto simp: parent_node_def)
  have edge: "0 \<le> cmp (heap_get h (parent_node j)) (heap_get h j)"
    if "2 \<le> j" "j \<le> cur_len h" "j \<noteq> i" "parent_node j \<noteq> i" for j
    using ex that cmp by (auto simp: heap_order_except_def edge_ok_def)
  have grand: "0 \<le> cmp (heap_get h (parent_node i)) (heap_get h j)"
    if "2 \<le> i" "j \<le> cur_len h" "parent_node j = i" for j
    using ex that cmp by (auto simp: heap_order_except_def edge_ok_def)
  have top: "0 \<le> cmp (heap_get h m) (heap_get h j)"
    if "2 \<le> j" "j \<le> cur_len h" "parent_node j = i" for j
    using heapify_max_greatest(1) [OF cmp that] m by simp
  have topi: "0 \<le> cmp (heap_get h m) (heap_get h i)"
    using heapify_max_greatest(2) [OF cmp _ im(2) pm] m i im by simp
  show "parent_ok ?h m" using im i topi pm cmp by (simp add: parent_ok_def edge_ok_def get)
  have ok: "edge_ok ?h j" if j: "2 \<le> j" "j \<le> cur_len h" "j \<noteq> m" "parent_node j \<noteq> m" for j
  proof -
    have ji: "parent_node j \<le> cur_len h" using par [OF j(1)] j(2) by simp
    consider "j = i" | "j \<noteq> i" "parent_node j = i" | "j \<noteq> i" "parent_node j \<noteq> i" by blast
    then show ?thesis
    proof cases
      case 1
      then have "2 \<le> i" using j by simp
      with grand [OF this im(2) pm] 1 par [OF this] i j ji cmp show ?thesis
        by (simp add: edge_ok_def get)
    next
      case 2
      then show ?thesis using top [OF j(1,2)] i j ji cmp by (simp add: edge_ok_def get)
    next
      case 3
      then show ?thesis using edge [OF j(1,2)] par [OF j(1)] j ji cmp by (simp add: edge_ok_def get)
    qed
  qed
  have gp: "0 \<le> cmp_fn ?h (heap_get ?h (parent_node m)) (heap_get ?h j)"
    if j: "j \<le> cur_len h" "parent_node j = m" for j
  proof -
    have j2: "2 \<le> j" using j im by (auto simp: parent_node_def)
    have jm: "j \<noteq> m" "j \<noteq> i" using par [OF j2] j im by auto
    then show ?thesis using edge [OF j2 j(1)] j im i j2 pm cmp by (simp add: get)
  qed
  show "heap_order_except ?h m" using ok gp by (auto simp: heap_order_except_def)
qed

lemma max_heapify_order:
  "cmp_fn h = cmp \<Longrightarrow> heap_wf h \<Longrightarrow> 1 \<le> i \<Longrightarrow> i \<le> cur_len h \<Longrightarrow> heap_order_except h i \<Longrightarrow>
   parent_ok h i \<Longrightarrow> heap_order (max_heapify h i)"
proof (induction h i rule: max_heapify.induct)
  case (1 h i)
  let ?m = "heapify_max h i"
  show ?case
  proof (cases "?m = i")
    case False
    have s: "heap_order_except (heap_swap h i ?m) ?m" "parent_ok (heap_swap h i ?m) ?m"
      using heap_swap_down [of h i ?m] "1.prems" False by auto
    have b: "i < ?m" "?m \<le> cur_len h" using heapify_max_bounds [OF False] by auto
    have "heap_wf (heap_swap h i ?m)" using "1.prems" b by simp
    then have "heap_order (max_heapify (heap_swap h i ?m) ?m)"
      using "1.IH" [OF refl False] "1.prems" b s by simp
    with False show ?thesis by (simp add: max_heapify.simps [of h i] Let_def)
  next
    case True
    have "children_ok h i"
      unfolding children_ok_def edge_ok_def
      using heapify_max_greatest(1) [OF "1.prems"(1)] True "1.prems"(1) by metis
    with "1.prems" True show ?thesis
      by (simp add: max_heapify.simps [of h i] Let_def heap_order_split)
  qed
qed

lemma heap_order_top:
  assumes cmp: "cmp_fn h = cmp" and ord: "heap_order h" and "1 \<le> j" "j \<le> cur_len h"
  shows "0 \<le> cmp (heap_get h 1) (heap_get h j)"
  using assms(3,4)
proof (induction j rule: less_induct)
  case (less j)
  show ?case
  proof (cases "j = 1")
    case False
    then have p: "1 \<le> parent_node j" "parent_node j < j" "2 \<le> j"
      using less.prems by (auto simp: parent_node_def)
    then have "0 \<le> cmp (heap_get h 1) (heap_get h (parent_node j))"
      using less.IH less.prems by simp
    moreover have "0 \<le> cmp (heap_get h (parent_node j)) (heap_get h j)"
      using ord p less.prems cmp by (auto simp: heap_order_def edge_ok_def)
    ultimately show ?thesis by (rule cmp_ge_trans)
  qed (simp add: cmp_refl)
qed

end

section \<open>Push\<close>

text \<open>The storage step of a push: one more slot, holding the new element.\<close>

definition heap_append :: "'e tris_heap \<Rightarrow> 'e \<Rightarrow> 'e tris_heap" where
  "heap_append h e = heap_set (h\<lparr>cur_len := cur_len h + 1\<rparr>) (cur_len h + 1) e"

lemma heap_append_heap:
  "heap_wf h \<Longrightarrow> heap (heap_append h e) = take (cur_len h) (heap h) @ e # drop (Suc (cur_len h)) (heap h)"
  by (auto simp: heap_append_def heap_set_def heap_wf_def upd_conv_take_nth_drop)

lemma heap_append_props:
  assumes wf: "heap_wf h" and room: "cur_len h < avail_len h"
  shows "heap_wf (heap_append h e)"
    and "heap_elems (heap_append h e) = heap_elems h @ [e]"
    and "1 \<le> k \<Longrightarrow> k \<le> cur_len h \<Longrightarrow> heap_get (heap_append h e) k = heap_get h k"
    and "heap_get (heap_append h e) (Suc (cur_len h)) = e"
    and "cur_len (heap_append h e) = Suc (cur_len h)" "cmp_fn (heap_append h e) = cmp_fn h"
    and "index_offset (heap_append h e) = index_offset h" "avail_len (heap_append h e) = avail_len h"
  using wf room
  by (auto simp: heap_append_heap heap_wf_def heap_elems_def heap_get_def nth_append)
     (auto simp: heap_append_def heap_set_def)

lemma heap_append_index_ok:
  assumes wf: "heap_wf h" and room: "cur_len h < avail_len h" and ok: "heap_index_ok h"
    and new: "e \<notin> set (heap_elems h)"
  shows "heap_index_ok (heap_append h e)"
proof -
  { assume off: "0 \<le> index_offset h"
    have "index_of (heap_append h e) (heap_get (heap_append h e) i) = int i"
      if i: "1 \<le> i" "i \<le> Suc (cur_len h)" for i
    proof (cases "i = Suc (cur_len h)")
      case True
      then show ?thesis using off heap_append_props(4) [OF wf room]
        by (simp add: heap_append_def heap_set_def)
    next
      case False
      then have "heap_get h i \<in> set (heap_elems h)"
        using wf i by (simp add: heap_get_elems)
      then have "heap_get h i \<noteq> e" using new by auto
      then show ?thesis using False i ok off heap_append_props(3) [OF wf room, where k = i]
        by (simp add: heap_append_def heap_set_def heap_index_ok_def)
    qed
    then have "distinct (heap_elems (heap_append h e)) \<and> (\<forall>i. 1 \<le> i \<and> i \<le> cur_len (heap_append h e) \<longrightarrow>
        index_of (heap_append h e) (heap_get (heap_append h e) i) = int i)"
      using ok off new heap_append_props [OF wf room] by (simp add: heap_index_ok_def) }
  then show ?thesis using heap_append_props [OF wf room] unfolding heap_index_ok_def by simp
qed

lemma push_cases:
  "tris_heap_push h e ok =
     (if cur_len h = avail_len h \<and> \<not> ok
      then (- 1, h\<lparr>heap := [], cur_len := 0, avail_len := 0\<rparr>)
      else (let g = (if cur_len h = avail_len h then h\<lparr>avail_len := avail_len h * 2 + 1\<rparr> else h)
            in (0, fst (bubble_up (heap_append g e) (Suc (cur_len h))))))"
  by (auto simp: tris_heap_push_def grow_heap_def heap_append_def Let_def)

text \<open>A comparator's heap that satisfies all of its invariants.\<close>

definition heap_inv :: "('e \<Rightarrow> 'e \<Rightarrow> int) \<Rightarrow> 'e tris_heap \<Rightarrow> bool" where
  "heap_inv cmp h \<longleftrightarrow> cmp_fn h = cmp \<and> heap_wf h \<and> heap_order h \<and> heap_index_ok h"

lemma heap_inv_grow:
  "heap_inv cmp h \<Longrightarrow> heap_inv cmp (h\<lparr>avail_len := avail_len h * 2 + 1\<rparr>)"
  by (auto simp: heap_inv_def heap_wf_def heap_order_def edge_ok_def heap_get_def
      heap_index_ok_def heap_elems_def)

context comparator
begin

lemma push_room:
  assumes inv: "heap_inv cmp h" and room: "cur_len h < avail_len h"
    and new: "0 \<le> index_offset h \<Longrightarrow> e \<notin> set (heap_elems h)"
  defines "h' \<equiv> fst (bubble_up (heap_append h e) (Suc (cur_len h)))"
  shows "heap_inv cmp h'" and "mset (heap_elems h') = add_mset e (mset (heap_elems h))"
    and "index_offset h' = index_offset h"
proof -
  let ?a = "heap_append h e" and ?n = "Suc (cur_len h)"
  have wf: "heap_wf h" and cmp: "cmp_fn h = cmp" using inv by (auto simp: heap_inv_def)
  note a = heap_append_props [OF wf room, where e = e]
  have lt: "parent_node j < j" if "2 \<le> j" for j using that by (auto simp: parent_node_def)
  have par: "1 \<le> parent_node j" if "2 \<le> j" for j using that by (auto simp: parent_node_def)
  have ex: "heap_order_except ?a ?n"
    unfolding heap_order_except_def edge_ok_def a(5,6)
  proof (intro conjI allI impI, goal_cases)
    case (1 j)
    then show ?case using inv a(3) [where k = j] a(3) [where k = "parent_node j"] lt [of j] par [of j]
      by (auto simp: heap_inv_def heap_order_def edge_ok_def)
  next
    case (2 j)
    then have "2 \<le> j" by (auto simp: parent_node_def)
    with lt [OF this] 2 show ?case by simp
  qed
  have ch: "children_ok ?a ?n" using lt by (fastforce simp: children_ok_def a(5))
  obtain k where b: "bubble_up ?a ?n = (h', k)" unfolding h'_def by (metis surjective_pairing)
  have f: "heap_frame ?a h'" using bubble_up_frame [OF a(1) _ _ b] a(5) by simp
  have "heap_order h'"
    using bubble_up_order [OF _ a(1) _ _ ex b] ch a(5,6) cmp heap_order_split by fastforce
  moreover have "heap_index_ok ?a"
  proof (cases "0 \<le> index_offset h")
    case True
    then show ?thesis using heap_append_index_ok [OF wf room _ new [OF True]] inv
      by (simp add: heap_inv_def)
  next
    case False
    then show ?thesis using a(7) by (simp add: heap_index_ok_def)
  qed
  ultimately show "heap_inv cmp h'" using f a(6) cmp by (simp add: heap_inv_def heap_frame_def)
  show "mset (heap_elems h') = add_mset e (mset (heap_elems h))" "index_offset h' = index_offset h"
    using f a(2,7) by (simp_all add: heap_frame_def)
qed

lemma push_ok:
  assumes inv: "heap_inv cmp h" and res: "tris_heap_push h e ok = (0, h')"
    and new: "0 \<le> index_offset h \<Longrightarrow> e \<notin> set (heap_elems h)"
  shows "heap_inv cmp h'" and "mset (heap_elems h') = add_mset e (mset (heap_elems h))"
    and "index_offset h' = index_offset h"
proof -
  define g where "g = (if cur_len h = avail_len h then h\<lparr>avail_len := avail_len h * 2 + 1\<rparr> else h)"
  have wf: "heap_wf h" using inv by (simp add: heap_inv_def)
  have g: "heap_inv cmp g" "cur_len g < avail_len g" "heap_elems g = heap_elems h"
    "index_offset g = index_offset h" "cur_len g = cur_len h"
    using inv heap_inv_grow [OF inv] wf by (auto simp: g_def heap_elems_def heap_wf_def)
  have h': "h' = fst (bubble_up (heap_append g e) (Suc (cur_len g)))"
    using res g(5) by (auto simp: push_cases Let_def g_def split: if_splits)
  show "heap_inv cmp h'" "mset (heap_elems h') = add_mset e (mset (heap_elems h))"
    "index_offset h' = index_offset h"
    using push_room [OF g(1,2), of e] new g(3,4) h' by auto
qed

end

section \<open>Remove, pop and peek\<close>

text \<open>The storage step of a removal: the last element takes the place of the removed one.\<close>

definition heap_fill :: "'e tris_heap \<Rightarrow> nat \<Rightarrow> 'e tris_heap" where
  "heap_fill h i = heap_set (h\<lparr>cur_len := cur_len h - 1\<rparr>) i (heap_get h (cur_len h))"

lemma remove_at_cases:
  "heap_remove_at h i =
     (if i = 0 \<or> cur_len h < i then (None, h)
      else (case bubble_up (heap_fill h i) i of (h', k) \<Rightarrow> (Some (heap_get h i), max_heapify h' k)))"
  by (simp add: heap_remove_at_def heap_fill_def Let_def)

lemma heap_fill_props:
  assumes wf: "heap_wf h" and i: "1 \<le> i" "i \<le> cur_len h"
  shows "heap_wf (heap_fill h i)"
    and "cur_len (heap_fill h i) = cur_len h - 1" "cmp_fn (heap_fill h i) = cmp_fn h"
    and "index_offset (heap_fill h i) = index_offset h"
    and "heap (heap_fill h i) = (heap h)[i - 1 := heap h ! (cur_len h - 1)]"
    and "\<lbrakk>1 \<le> k; k \<le> cur_len h; k \<noteq> i\<rbrakk> \<Longrightarrow> heap_get (heap_fill h i) k = heap_get h k"
    and "heap_get (heap_fill h i) i = heap_get h (cur_len h)"
  using wf i by (auto simp: heap_fill_def heap_set_def heap_wf_def heap_get_def)

lemma heap_fill_elems:
  assumes wf: "heap_wf h" and i: "1 \<le> i" "i \<le> cur_len h"
  shows "add_mset (heap_get h i) (mset (heap_elems (heap_fill h i))) = mset (heap_elems h)"
proof -
  let ?xs = "heap h" and ?n = "cur_len h"
  let ?sw = "swap_at ?xs (i - 1) (?n - 1)"
  have b: "i - 1 < length ?xs" "?n - 1 < length ?xs" "?n - 1 < ?n" "i - 1 < ?n" "?n \<le> length ?xs"
    using wf i by (auto simp: heap_wf_def)
  have "take (?n - 1) (?xs[i - 1 := ?xs ! (?n - 1)]) = take (?n - 1) ?sw"
    by (simp add: swap_at_def)
  moreover have "take ?n ?sw = take (?n - 1) ?sw @ [?xs ! (i - 1)]"
    using b take_Suc_conv_app_nth [of "?n - 1" ?sw] nth_swap_at [OF b(1,2,2)] by simp
  moreover have "mset (take ?n ?sw) = mset (take ?n ?xs)"
    using b by (simp add: take_swap_at)
  ultimately show ?thesis
    using heap_fill_props(2,5) [OF wf i] by (simp add: heap_elems_def heap_get_def)
qed

lemma heap_fill_index_ok:
  assumes wf: "heap_wf h" and i: "1 \<le> i" "i \<le> cur_len h" and ok: "heap_index_ok h"
  shows "heap_index_ok (heap_fill h i)"
proof -
  let ?n = "cur_len h"
  { assume off: "0 \<le> index_offset h"
    have ix: "index_of h (heap_get h k) = int k" if "1 \<le> k" "k \<le> ?n" for k
      using ok off that by (simp add: heap_index_ok_def)
    have d: "distinct (heap_elems h)" using ok off by (simp add: heap_index_ok_def)
    have nn: "1 \<le> ?n" using i by simp
    have "distinct (heap_elems (heap_fill h i))"
      using d heap_fill_elems [OF wf i]
        mset_eq_imp_distinct_iff [of "heap_get h i # heap_elems (heap_fill h i)" "heap_elems h"] by simp
    moreover have "index_of (heap_fill h i) (heap_get (heap_fill h i) k) = int k"
      if k: "1 \<le> k" "k \<le> ?n - 1" for k
    proof (cases "k = i")
      case True
      then show ?thesis using off heap_fill_props(7) [OF wf i]
        by (simp add: heap_fill_def heap_set_def)
    next
      case False
      have "heap_get h k \<noteq> heap_get h ?n"
        using heap_elems_nth_neq [OF wf d k(1) _ nn le_refl] k by simp
      then show ?thesis
        using False k ix [of k] heap_fill_props(6) [OF wf i, where k = k]
        by (simp add: heap_fill_def heap_set_def)
    qed
    ultimately have "distinct (heap_elems (heap_fill h i)) \<and>
        (\<forall>k. 1 \<le> k \<and> k \<le> cur_len (heap_fill h i) \<longrightarrow>
           index_of (heap_fill h i) (heap_get (heap_fill h i) k) = int k)"
      using heap_fill_props(2) [OF wf i] by simp }
  then show ?thesis using heap_fill_props(4) [OF wf i] unfolding heap_index_ok_def by simp
qed

context comparator
begin

lemma heap_fill_order:
  assumes inv: "heap_inv cmp h" and i: "1 \<le> i" "i \<le> cur_len h"
  shows "heap_order_except (heap_fill h i) i"
proof -
  have wf: "heap_wf h" and cmp: "cmp_fn h = cmp" and ord: "heap_order h"
    using inv by (auto simp: heap_inv_def)
  note f = heap_fill_props [OF wf i]
  have par: "1 \<le> parent_node j" "parent_node j < j" if "2 \<le> j" for j
    using that by (auto simp: parent_node_def)
  have edge: "0 \<le> cmp (heap_get h (parent_node j)) (heap_get h j)" if "2 \<le> j" "j \<le> cur_len h" for j
    using ord that cmp by (auto simp: heap_order_def edge_ok_def)
  have get: "heap_get (heap_fill h i) k = heap_get h k" if "1 \<le> k" "k \<le> cur_len h" "k \<noteq> i" for k
    using f(6) that .
  have ok: "edge_ok (heap_fill h i) j" if j: "2 \<le> j" "j \<le> cur_len h - 1" "j \<noteq> i" "parent_node j \<noteq> i" for j
    using edge [OF j(1)] j par [OF j(1)] f(3) cmp by (simp add: edge_ok_def get)
  have gp: "0 \<le> cmp (heap_get (heap_fill h i) (parent_node i)) (heap_get (heap_fill h i) j)"
    if j: "2 \<le> i" "j \<le> cur_len h - 1" "parent_node j = i" for j
  proof -
    have j2: "2 \<le> j" "j \<noteq> i" using j by (auto simp: parent_node_def)
    have jn: "j \<le> cur_len h" using j(2) by simp
    have "0 \<le> cmp (heap_get h (parent_node i)) (heap_get h j)"
      using cmp_ge_trans [OF edge [OF j(1) i(2)]] edge [OF j2(1) jn] j(3) by simp
    then show ?thesis using j2 jn j par [OF j(1)] i by (simp add: get)
  qed
  show ?thesis using ok gp f(2,3) cmp by (simp add: heap_order_except_def)
qed

text \<open>Filling the last node with itself changes nothing else: both loops stop at once.\<close>

lemma remove_last:
  assumes inv: "heap_inv cmp h" and i: "1 \<le> i" "i = cur_len h"
  shows "bubble_up (heap_fill h i) i = (heap_fill h i, i)"
    and "max_heapify (heap_fill h i) i = heap_fill h i"
proof -
  have wf: "heap_wf h" and cmp: "cmp_fn h = cmp" and ord: "heap_order h"
    using inv by (auto simp: heap_inv_def)
  note f = heap_fill_props [OF wf i(1) eq_refl [OF i(2)]]
  have "\<not> cmp (heap_get (heap_fill h i) (parent_node i)) (heap_get (heap_fill h i) i) < 0" if "1 < i"
  proof -
    have p: "1 \<le> parent_node i" "parent_node i < i" "2 \<le> i"
      using that by (auto simp: parent_node_def)
    have "0 \<le> cmp (heap_get h (parent_node i)) (heap_get h i)"
      using ord p(3) i cmp by (auto simp: heap_order_def edge_ok_def)
    then show ?thesis using f(6) [where k = "parent_node i"] f(7) p i(2) by simp
  qed
  then show "bubble_up (heap_fill h i) i = (heap_fill h i, i)"
    using f(3) cmp by (auto simp: bubble_up.simps [of "heap_fill h i" i])
  have "\<not> 2 * i \<le> cur_len (heap_fill h i)" "\<not> 2 * i + 1 \<le> cur_len (heap_fill h i)"
    using f(2) i by auto
  then have "heapify_max (heap_fill h i) i = i"
    by (simp add: heapify_max_def left_node_def right_node_def Let_def)
  then show "max_heapify (heap_fill h i) i = heap_fill h i"
    by (subst max_heapify.simps) (simp add: Let_def)
qed

lemma remove_at_ok:
  assumes inv: "heap_inv cmp h" and i: "1 \<le> i" "i \<le> cur_len h"
    and res: "heap_remove_at h i = (r, h')"
  shows "r = Some (heap_get h i)" and "heap_inv cmp h'"
    and "add_mset (heap_get h i) (mset (heap_elems h')) = mset (heap_elems h)"
    and "index_offset h' = index_offset h"
proof -
  let ?f = "heap_fill h i"
  have wf: "heap_wf h" and cmp: "cmp_fn h = cmp" and ord: "heap_order h" and ix: "heap_index_ok h"
    using inv by (auto simp: heap_inv_def)
  note f = heap_fill_props [OF wf i]
  obtain h1 k where b: "bubble_up ?f i = (h1, k)" by (metis surjective_pairing)
  have r: "r = Some (heap_get h i)" and h': "h' = max_heapify h1 k"
    using res i by (auto simp: remove_at_cases b)
  have "heap_frame ?f h' \<and> heap_order h'"
  proof (cases "i = cur_len h")
    case True
    have "h' = ?f" using remove_last [OF inv i(1) True] b h' by simp
    moreover have "heap_order ?f"
    proof -
      have "edge_ok ?f j" if "2 \<le> j" "j \<le> cur_len h - 1" for j
      proof -
        have "parent_node j < j" using that by (auto simp: parent_node_def)
        then have "j \<noteq> i" "parent_node j \<noteq> i" using that True i by auto
        then show ?thesis using heap_fill_order [OF inv i] that f(2)
          by (simp add: heap_order_except_def)
      qed
      then show ?thesis by (simp add: heap_order_def f(2))
    qed
    ultimately show ?thesis using heap_frame_refl [OF f(1)] by simp
  next
    case False
    then have il: "i \<le> cur_len ?f" using f(2) i by simp
    have fr: "heap_frame ?f h1" "1 \<le> k" "k \<le> i" using bubble_up_frame [OF f(1) i(1) il b] by auto
    have o: "heap_order_except h1 k" "parent_ok h1 k"
      using bubble_up_order [OF _ f(1) i(1) il heap_fill_order [OF inv i] b] f(3) cmp by auto
    have h1: "cmp_fn h1 = cmp" "heap_wf h1" "k \<le> cur_len h1"
      using fr il f(3) cmp by (auto simp: heap_frame_def)
    show ?thesis
      using max_heapify_order [OF h1(1,2) fr(2) h1(3) o]
        heap_frame_trans [OF fr(1) max_heapify_frame [OF h1(2) fr(2) h1(3)]] h' by simp
  qed
  then show "heap_inv cmp h'" "index_offset h' = index_offset h"
    and "add_mset (heap_get h i) (mset (heap_elems h')) = mset (heap_elems h)"
    using heap_fill_elems [OF wf i] heap_fill_index_ok [OF wf i ix] f(3,4) cmp
    by (auto simp: heap_frame_def heap_inv_def)
  show "r = Some (heap_get h i)" by (rule r)
qed

lemma remove_elem_ok:
  assumes inv: "heap_inv cmp h" and off: "0 \<le> index_offset h" and mem: "e \<in> set (heap_elems h)"
    and len: "cur_len h < 2 ^ 32" and res: "tris_heap_remove h e = (r, h')"
  shows "r = Some e" and "heap_inv cmp h'"
    and "add_mset e (mset (heap_elems h')) = mset (heap_elems h)"
    and "index_offset h' = index_offset h"
proof -
  have wf: "heap_wf h" and ix: "heap_index_ok h" using inv by (auto simp: heap_inv_def)
  obtain j where "j < cur_len h" "heap_elems h ! j = e"
    using mem wf by (auto simp: in_set_conv_nth)
  then have i: "1 \<le> Suc j" "Suc j \<le> cur_len h" "heap_get h (Suc j) = e"
    using heap_get_elems [OF wf, of "Suc j"] by auto
  have "get_index h e = int (Suc j)"
    using ix off i by (auto simp: get_index_def heap_index_ok_def)
  moreover have "nat (int (Suc j) mod 2 ^ 32) = Suc j" using i(2) len by simp
  ultimately have "heap_remove_at h (Suc j) = (r, h')"
    using res by (simp add: tris_heap_remove_def nat_add_distrib)
  from remove_at_ok [OF inv i(1,2) this] i(3)
  show "r = Some e" "heap_inv cmp h'" "add_mset e (mset (heap_elems h')) = mset (heap_elems h)"
    "index_offset h' = index_offset h" by simp_all
qed

end

section \<open>The heap as a priority queue\<close>

text \<open>An indexed heap provides the priority-queue contract for every comparator.\<close>

definition heap_queue_inv :: "('e \<Rightarrow> 'e \<Rightarrow> int) \<Rightarrow> 'e tris_heap \<Rightarrow> bool" where
  "heap_queue_inv cmp h \<longleftrightarrow> heap_inv cmp h \<and> 0 \<le> index_offset h"

definition heap_mset :: "'e tris_heap \<Rightarrow> 'e multiset" where
  "heap_mset h = mset (heap_elems h)"

lemma heap_mset_empty: "heap_wf h \<Longrightarrow> heap_mset h = {#} \<longleftrightarrow> cur_len h = 0"
  by (auto simp: heap_mset_def heap_elems_def heap_wf_def)

lemma heap_mset_member:
  "heap_wf h \<Longrightarrow> x \<in># heap_mset h \<longleftrightarrow> (\<exists>j. 1 \<le> j \<and> j \<le> cur_len h \<and> heap_get h j = x)"
proof -
  assume wf: "heap_wf h"
  have "x \<in> set (heap_elems h) \<longleftrightarrow> (\<exists>j < cur_len h. heap_elems h ! j = x)"
    using wf by (simp add: in_set_conv_nth)
  also have "\<dots> \<longleftrightarrow> (\<exists>j < cur_len h. heap_get h (Suc j) = x)"
    using wf by (auto simp: heap_get_elems)
  also have "\<dots> \<longleftrightarrow> (\<exists>j. 1 \<le> j \<and> j \<le> cur_len h \<and> heap_get h j = x)"
    by (rule ex_less_Suc_conv)
  finally show ?thesis by (simp add: heap_mset_def)
qed

context comparator
begin

lemma peek_top:
  assumes inv: "heap_inv cmp h" and ne: "heap_mset h \<noteq> {#}"
  shows "tris_heap_peek h 1 = Some (heap_get h 1)" and "heap_get h 1 \<in># heap_mset h"
    and "x \<in># heap_mset h \<Longrightarrow> 0 \<le> cmp (heap_get h 1) x"
proof -
  have wf: "heap_wf h" "cmp_fn h = cmp" "heap_order h" using inv by (auto simp: heap_inv_def)
  have n: "1 \<le> cur_len h" using ne heap_mset_empty [OF wf(1)] by simp
  then show "tris_heap_peek h 1 = Some (heap_get h 1)" by (simp add: tris_heap_peek_def)
  show "heap_get h 1 \<in># heap_mset h" 
    using n by (auto simp: heap_mset_member [OF wf(1)])
  show "x \<in># heap_mset h \<Longrightarrow> 0 \<le> cmp (heap_get h 1) x"
    using heap_order_top [OF wf(2,3)] by (auto simp: heap_mset_member [OF wf(1)])
qed

lemma pop_top:
  assumes inv: "heap_inv cmp h" and ne: "heap_mset h \<noteq> {#}"
  shows "\<exists>h'. tris_heap_pop h = (Some (heap_get h 1), h') \<and> heap_inv cmp h' \<and>
           heap_mset h' = heap_mset h - {#heap_get h 1#} \<and> index_offset h' = index_offset h"
proof -
  obtain r h' where r: "heap_remove_at h 1 = (r, h')" by (metis surjective_pairing)
  have "1 \<le> cur_len h" using ne heap_mset_empty [of h] inv by (simp add: heap_inv_def)
  note rm = remove_at_ok [OF inv le_refl this r]
  have "heap_mset h' = heap_mset h - {#heap_get h 1#}"
    using rm(3) unfolding heap_mset_def by (metis add_mset_remove_trivial)
  then show ?thesis using rm(1,2,4) r by (simp add: tris_heap_pop_def)
qed

sublocale heap_queue: prio_queue cmp tris_heap_push tris_heap_pop tris_heap_peek
  tris_heap_remove heap_mset "heap_queue_inv cmp"
proof (unfold_locales, goal_cases)
  case (1 q e ok q')
  then show ?case using push_ok [of q e ok q'] by (auto simp: heap_queue_inv_def heap_mset_def)
next
  case (2 q)
  then have "cur_len q = 0" using heap_mset_empty by (auto simp: heap_queue_inv_def heap_inv_def)
  then show ?case by (simp add: tris_heap_pop_def tris_heap_peek_def heap_remove_at_def)
next
  case (3 q)
  then have "heap_inv cmp q" by (simp add: heap_queue_inv_def)
  from peek_top [OF this 3(2)] pop_top [OF this 3(2)] 3(1)
  show ?case by (auto simp: heap_queue_inv_def)
next
  case (4 q e)
  have wf: "heap_wf q" using 4 by (simp add: heap_queue_inv_def heap_inv_def)
  have "cur_len q < 2 ^ 32" using 4(3) wf by (simp add: heap_mset_def)
  moreover obtain r q' where r: "tris_heap_remove q e = (r, q')" by (metis surjective_pairing)
  ultimately have rm: "r = Some e" "heap_inv cmp q'" "index_offset q' = index_offset q"
      "add_mset e (mset (heap_elems q')) = mset (heap_elems q)"
    using remove_elem_ok [of q e r q'] 4 by (auto simp: heap_queue_inv_def heap_mset_def)
  have "heap_mset q' = heap_mset q - {#e#}"
    using rm(4) unfolding heap_mset_def by (metis add_mset_remove_trivial)
  then show ?case using rm(1-3) r 4(1) by (simp add: heap_queue_inv_def)
qed

end

section \<open>Verification routine, creation\<close>

lemma create_inv:
  "tris_heap_create n (Some cmp) off ok = Some h \<Longrightarrow> heap_inv cmp h \<and> heap_mset h = {#}"
  by (auto simp: tris_heap_create_def heap_inv_def heap_wf_def heap_order_def heap_index_ok_def
      heap_mset_def heap_elems_def split: if_splits)

lemma verify_node_edges:
  "1 \<le> i \<Longrightarrow> verify_node h i \<longleftrightarrow>
     (\<forall>j. 2 \<le> j \<and> j \<le> cur_len h \<and> parent_node j = i \<longrightarrow> edge_ok h j)"
proof -
  assume i: "1 \<le> i"
  have ch: "2 \<le> j \<and> parent_node j = i \<longleftrightarrow> j = 2 * i \<or> j = 2 * i + 1" for j
    using i by (auto simp: parent_node_def)
  have "(\<forall>j. 2 \<le> j \<and> j \<le> cur_len h \<and> parent_node j = i \<longrightarrow> edge_ok h j) \<longleftrightarrow>
      (\<forall>j. j = 2 * i \<or> j = 2 * i + 1 \<longrightarrow> j \<le> cur_len h \<longrightarrow> edge_ok h j)"
    using ch by blast
  also have "\<dots> \<longleftrightarrow> (2 * i \<le> cur_len h \<longrightarrow> edge_ok h (2 * i)) \<and>
      (2 * i + 1 \<le> cur_len h \<longrightarrow> edge_ok h (2 * i + 1))" by auto
  finally show ?thesis
    by (auto simp: verify_node_def left_node_def right_node_def edge_ok_def parent_node_def Let_def)
qed

text \<open>The heap's own check, \<open>tris_heap_verify\<close>, is exact: it returns 0 on precisely
  the arrays in which every element is at least as great as both of its children, although it
  only walks the first half of the nodes.\<close>

theorem heap_verify_iff: "tris_heap_verify h = 0 \<longleftrightarrow> heap_order h"
proof -
  have "tris_heap_verify h = 0 \<longleftrightarrow> (\<forall>i. 1 \<le> i \<and> i \<le> cur_len h div 2 \<longrightarrow> verify_node h i)"
    by (auto simp: tris_heap_verify_def list_all_iff)
  also have "\<dots> \<longleftrightarrow> (\<forall>j. 2 \<le> j \<and> j \<le> cur_len h \<longrightarrow> edge_ok h j)"
  proof (intro iffI allI impI)
    fix j assume a: "\<forall>i. 1 \<le> i \<and> i \<le> cur_len h div 2 \<longrightarrow> verify_node h i"
      and j: "2 \<le> j \<and> j \<le> cur_len h"
    have "1 \<le> parent_node j" "parent_node j \<le> cur_len h div 2"
      using j by (auto simp: parent_node_def div_le_mono)
    then show "edge_ok h j" using a j verify_node_edges by blast
  next
    fix i assume a: "\<forall>j. 2 \<le> j \<and> j \<le> cur_len h \<longrightarrow> edge_ok h j" and i: "1 \<le> i \<and> i \<le> cur_len h div 2"
    then show "verify_node h i" using verify_node_edges by blast
  qed
  finally show ?thesis by (simp add: heap_order_def)
qed

section \<open>Properties\<close>

text \<open>The integers compared by subtraction, as sample elements of the witnesses.\<close>

definition int_cmp :: "int \<Rightarrow> int \<Rightarrow> int" where
  "int_cmp a b = a - b"

interpretation int_cmp: comparator int_cmp
  by unfold_locales (auto simp: int_cmp_def)

definition heap_of_ints :: "int list \<Rightarrow> int tris_heap" where
  "heap_of_ints xs =
     fold (\<lambda>x h. snd (tris_heap_push h x True)) xs (the (tris_heap_create 1 (Some int_cmp) 0 True))"

lemma heap_of_ints_inv:
  "distinct xs \<Longrightarrow> heap_queue_inv int_cmp (heap_of_ints xs) \<and> heap_mset (heap_of_ints xs) = mset xs"
proof (induction xs rule: rev_induct)
  case Nil
  have "tris_heap_create 1 (Some int_cmp) 0 True = Some (heap_of_ints [])"
    by (simp add: heap_of_ints_def tris_heap_create_def)
  moreover have "index_offset (heap_of_ints []) = 0"
    by (simp add: heap_of_ints_def tris_heap_create_def)
  ultimately show ?case using create_inv [of 1 int_cmp 0 True] by (simp add: heap_queue_inv_def)
next
  case (snoc x xs)
  have "tris_heap_push (heap_of_ints xs) x True = (0, heap_of_ints (xs @ [x]))"
    by (simp add: heap_of_ints_def) (simp add: push_cases Let_def)
  with snoc show ?case
    using int_cmp.heap_queue.q_push [of "heap_of_ints xs" x True "heap_of_ints (xs @ [x])"] by simp
qed

text \<open>A successful push keeps the heap order, the array bounds and the element indices,
  and adds exactly the pushed element.\<close>

theorem heap_push_correct:
  assumes "comparator cmp" and "heap_inv cmp h" and "tris_heap_push h e ok = (0, h')"
    and "0 \<le> index_offset h \<Longrightarrow> e \<notin> set (heap_elems h)"
  shows "heap_inv cmp h' \<and> heap_mset h' = add_mset e (heap_mset h)"
  using comparator.push_ok [OF assms(1,2,3)] assms(4) by (simp add: heap_mset_def)

theorem heap_push_correct_witness:
  "heap_mset (heap_of_ints [3, 9, 4, 7]) = add_mset 7 {#3, 9, 4#}"
proof -
  have i: "heap_inv int_cmp (heap_of_ints [3, 9, 4])" "heap_mset (heap_of_ints [3, 9, 4]) = {#3, 9, 4#}"
    using heap_of_ints_inv [of "[3, 9, 4]"] by (auto simp: heap_queue_inv_def)
  have p: "tris_heap_push (heap_of_ints [3, 9, 4]) 7 True = (0, heap_of_ints [3, 9, 4, 7])"
    by (simp add: heap_of_ints_def) (simp add: push_cases Let_def)
  have "7 \<notin># heap_mset (heap_of_ints [3, 9, 4])" by (simp add: i(2))
  then have n: "7 \<notin> set (heap_elems (heap_of_ints [3, 9, 4]))" by (simp add: heap_mset_def)
  from heap_push_correct [OF int_cmp.comparator_axioms i(1) p n] i(2) show ?thesis by simp
qed

text \<open>Claim C10. Pop returns a greatest element and removes exactly that one; it returns \<open>NULL\<close>
  only from an empty heap.\<close>

theorem heap_pop_max:
  assumes "comparator cmp" and "heap_inv cmp h" and "tris_heap_pop h = (r, h')"
  shows "case r of
           None \<Rightarrow> heap_mset h = {#} \<and> h' = h
         | Some e \<Rightarrow> heap_inv cmp h' \<and> add_mset e (heap_mset h') = heap_mset h \<and>
             (\<forall>x \<in># heap_mset h. 0 \<le> cmp e x)"
proof (cases "heap_mset h = {#}")
  case True
  then have "cur_len h = 0" using assms(2) heap_mset_empty by (auto simp: heap_inv_def)
  with True assms(3) show ?thesis by (auto simp: tris_heap_pop_def heap_remove_at_def)
next
  case False
  from comparator.pop_top [OF assms(1,2) False] comparator.peek_top [OF assms(1,2) False] assms(3)
  show ?thesis by auto
qed

theorem heap_pop_max_witness:
  "\<exists>h'. tris_heap_pop (heap_of_ints [3, 9, 4]) = (Some 9, h') \<and> heap_mset h' = {#3, 4#}"
proof -
  have i: "heap_inv int_cmp (heap_of_ints [3, 9, 4])" "heap_mset (heap_of_ints [3, 9, 4]) = {#3, 9, 4#}"
    using heap_of_ints_inv [of "[3, 9, 4]"] by (auto simp: heap_queue_inv_def)
  obtain r h' where p: "tris_heap_pop (heap_of_ints [3, 9, 4]) = (r, h')" by (metis surjective_pairing)
  have "fst (tris_heap_pop (heap_of_ints [3, 9, 4])) = Some 9" by code_simp
  with p have "r = Some 9" by simp
  with heap_pop_max [OF int_cmp.comparator_axioms i(1) p] i(2) p show ?thesis by auto
qed

text \<open>Removing an element that is in the heap returns that element and takes exactly it
  out, wherever it stands in the array, as long as the heap holds fewer than \<open>2 ^ 32\<close>
  elements (the index is passed as an \<open>unsigned int\<close>).\<close>

theorem heap_remove_exact:
  assumes "comparator cmp" and "heap_inv cmp h" and "0 \<le> index_offset h"
    and "e \<in># heap_mset h" and "cur_len h < 2 ^ 32"
  shows "\<exists>h'. tris_heap_remove h e = (Some e, h') \<and> heap_inv cmp h' \<and>
           add_mset e (heap_mset h') = heap_mset h"
proof -
  obtain r h' where r: "tris_heap_remove h e = (r, h')" by (metis surjective_pairing)
  from comparator.remove_elem_ok [OF assms(1-3) _ assms(5) r] assms(4) r show ?thesis
    by (simp add: heap_mset_def)
qed

theorem heap_remove_exact_witness:
  "\<exists>h'. tris_heap_remove (heap_of_ints [3, 9, 4]) 3 = (Some 3, h') \<and> heap_mset h' = {#9, 4#}"
proof -
  let ?h = "heap_of_ints [3, 9, 4]"
  have i: "heap_inv int_cmp ?h" "0 \<le> index_offset ?h" "heap_mset ?h = {#3, 9, 4#}"
    using heap_of_ints_inv [of "[3, 9, 4]"] by (auto simp: heap_queue_inv_def)
  have "cur_len ?h = 3" by code_simp
  with heap_remove_exact [OF int_cmp.comparator_axioms i(1,2), of 3] i(3) show ?thesis by auto
qed

text \<open>The heap cannot tell that an element has left it: the index inside a popped
  element is never cleared, so a second removal of the same element returns, and takes out,
  another element that meanwhile stands at that place. (The interface promises \<open>elm\<close>, or
  \<open>NULL\<close> on failure.)\<close>

theorem heap_remove_stale_index:
  "\<exists>h x. heap_queue_inv int_cmp h \<and> x \<notin># heap_mset h \<and>
     (\<exists>y h'. tris_heap_remove h x = (Some y, h') \<and> y \<noteq> x \<and> heap_mset h' \<noteq> heap_mset h)"
proof -
  define h where "h = snd (tris_heap_pop (heap_of_ints [3, 9, 4]))"
  have i: "heap_queue_inv int_cmp (heap_of_ints [3, 9, 4])" "heap_mset (heap_of_ints [3, 9, 4]) = {#3, 9, 4#}"
    using heap_of_ints_inv [of "[3, 9, 4]"] by auto
  have "fst (tris_heap_pop (heap_of_ints [3, 9, 4])) = Some 9" by code_simp
  then have p: "tris_heap_pop (heap_of_ints [3, 9, 4]) = (Some 9, h)"
    by (simp add: h_def prod_eq_iff)
  have h: "heap_queue_inv int_cmp h" "heap_mset h = {#3, 4#}"
    using int_cmp.heap_queue.q_pop_Some [OF i(1) p] i(2) by auto
  have "fst (tris_heap_remove h 9) = Some 4" and "heap_elems (snd (tris_heap_remove h 9)) = [3]"
    unfolding h_def by code_simp+
  then have "tris_heap_remove h 9 = (Some 4, snd (tris_heap_remove h 9))"
    and "heap_mset (snd (tris_heap_remove h 9)) = {#3#}"
    by (simp_all add: heap_mset_def prod_eq_iff)
  moreover from this(2) h have "9 \<notin># heap_mset h" "(4::int) \<noteq> 9"
    "heap_mset (snd (tris_heap_remove h 9)) \<noteq> heap_mset h" by auto
  ultimately show ?thesis using h(1) by blast
qed

context comparator
begin

lemma drain_heap:
  assumes "heap_queue_inv cmp h"
  shows "mset (drain tris_heap_pop (cur_len h) h) = heap_mset h \<and>
         sorted_wrt (\<lambda>a b. 0 \<le> cmp a b) (drain tris_heap_pop (cur_len h) h)"
proof -
  have "size (heap_mset h) \<le> cur_len h"
    using assms by (simp add: heap_mset_def heap_queue_inv_def heap_inv_def)
  from heap_queue.q_drain [OF assms this] show ?thesis .
qed

end

text \<open>Popping a heap of \<open>n\<close> elements \<open>n\<close> times yields all of them, sorted by the
  comparator, greatest first: the loop in which a container is emptied visits every element once.\<close>

theorem heap_drain_sorted:
  assumes "comparator cmp" and "heap_queue_inv cmp h"
  shows "mset (drain tris_heap_pop (cur_len h) h) = heap_mset h \<and>
         sorted_wrt (\<lambda>a b. 0 \<le> cmp a b) (drain tris_heap_pop (cur_len h) h)"
  by (rule comparator.drain_heap [OF assms])

theorem heap_drain_sorted_witness:
  "drain tris_heap_pop 4 (heap_of_ints [3, 9, 4, 7]) = [9, 7, 4, 3]"
proof -
  let ?h = "heap_of_ints [3, 9, 4, 7]"
  have i: "heap_queue_inv int_cmp ?h" "heap_mset ?h = mset [3, 9, 4, 7]"
    using heap_of_ints_inv [of "[3, 9, 4, 7]"] by auto
  have n: "cur_len ?h = 4" by code_simp
  let ?d = "drain tris_heap_pop 4 ?h"
  have d: "mset ?d = mset [3, 9, 4, 7]" "sorted_wrt (\<lambda>a b. b \<le> a) ?d"
    using heap_drain_sorted [OF int_cmp.comparator_axioms i(1)] n i(2) by (auto simp: int_cmp_def)
  have "sorted (rev ?d)" using d(2) by (simp add: sorted_wrt_rev)
  moreover have "mset (rev ?d) = mset [3, 4, 7, 9]" using d(1) by simp
  ultimately have "sort [3, 4, 7, 9] = rev ?d" using properties_for_sort by metis
  then have "rev ?d = [3, 4, 7, 9]" by simp
  then show ?thesis by (metis rev_rev_ident rev.simps append.simps)
qed

end
