(* ===== verification/Hashtab.thy ===== *)
theory Hashtab
  imports Prelude
begin

text \<open>
  The chained hash table of \<open>main/hashtab.c\<close>.

  A bucket cell is a pair of the cell's identity (its address: a number never used before in
  this table) and the object pointer it holds; a chain (\<open>next\<close>/\<open>prev\<close>) is the list of its
  cells, newest first, and \<open>tlist\<close> the list of all cells, newest first. The \<open>resize\<close> and
  \<open>newsize\<close> callbacks are the routines the file provides, named by a datatype. Locks and the
  allocation diagnostics are not modelled. A boolean says for each allocation whether it succeeds;
  after a failed allocation of the new bucket array the table has no array any more.
\<close>

section \<open>Prime table sizes\<close>

function prime_loop :: "nat \<Rightarrow> nat \<Rightarrow> nat \<Rightarrow> bool" where
  "prime_loop num tnum limit =
     (if tnum < limit
      then (if num mod tnum = 0 then False else prime_loop num (tnum + 2) (num div tnum))
      else True)"
  by pat_completeness auto
termination
proof (relation "measure (\<lambda>(num, tnum, limit). max num limit - tnum)", goal_cases)
  case (2 num tnum limit)
  have "num div tnum \<le> num" by simp
  with 2 show ?case by auto
qed simp

declare prime_loop.simps [simp del]

text \<open>A negative odd number passes: the loop is not entered.\<close>

definition tris_is_prime :: "int \<Rightarrow> bool" where
  "tris_is_prime num = (if even num then False else prime_loop (nat num) 3 (nat num))"

definition prime_nat :: "nat \<Rightarrow> bool" where
  "prime_nat p \<longleftrightarrow> 1 < p \<and> (\<forall>d. d dvd p \<longrightarrow> d = 1 \<or> d = p)"

definition prime_inv :: "nat \<Rightarrow> nat \<Rightarrow> bool" where
  "prime_inv num t \<longleftrightarrow> odd num \<and> odd t \<and> 3 \<le> t \<and> (\<forall>d. 2 \<le> d \<and> d < t \<and> d < num \<longrightarrow> \<not> d dvd num)"

lemma prime_inv_stop:
  assumes inv: "prime_inv num t" and stop: "num div (t - 2) \<le> t" and d: "2 \<le> d" "d < num"
  shows "\<not> d dvd num"
proof
  assume "d dvd num"
  then obtain e where e: "num = d * e" by blast
  have "e \<noteq> 0" "e \<noteq> 1" using e d by auto
  then have e2: "2 \<le> e" "e < num" using e d by auto
  have "t \<le> d" "t \<le> e"
    using inv d e2 e by (auto simp: prime_inv_def not_le [symmetric])
  then have "t * t \<le> num" using e mult_le_mono by blast
  moreover have "(t - 2) * (t + 1) < t * t"
    using inv by (auto simp: prime_inv_def algebra_simps diff_mult_distrib)
  ultimately have "(t - 2) * (t + 1) \<le> num" by linarith
  moreover have "0 < t - 2" using inv by (simp add: prime_inv_def)
  ultimately have "t + 1 \<le> num div (t - 2)" by (simp add: less_eq_div_iff_mult_less_eq mult.commute)
  with stop show False by simp
qed

lemma prime_loop_iff:
  "prime_inv num t \<Longrightarrow>
   prime_loop num t (num div (t - 2)) \<longleftrightarrow> (\<forall>d. 2 \<le> d \<and> d < num \<longrightarrow> \<not> d dvd num)"
proof (induction "num - t" arbitrary: t rule: less_induct)
  case less
  have t: "3 \<le> t" "odd t" "odd num" using less.prems by (auto simp: prime_inv_def)
  show ?case
  proof (cases "t < num div (t - 2)")
    case True
    then have tn: "t < num" using div_le_dividend [of num "t - 2"] by linarith
    show ?thesis
    proof (cases "t dvd num")
      case dvd: True
      then show ?thesis using True tn t
        by (subst prime_loop.simps) (auto simp: mod_eq_0_iff_dvd intro!: exI [of _ t])
    next
      case False
      have "\<not> d dvd num" if "2 \<le> d" "d < t + 2" "d < num" for d
      proof -
        have "d < t \<or> d = t \<or> d = t + 1" using that by linarith
        moreover have "\<not> t + 1 dvd num" using t dvd_trans [of 2 "t + 1" num] by auto
        ultimately show ?thesis using less.prems that False t by (auto simp: prime_inv_def)
      qed
      then have "prime_inv num (t + 2)" using t by (auto simp: prime_inv_def)
      then show ?thesis using less.hyps [of "t + 2"] tn True False
        by (subst prime_loop.simps) (auto simp: mod_eq_0_iff_dvd)
    qed
  next
    case False
    then show ?thesis using prime_inv_stop [OF less.prems]
      by (subst prime_loop.simps) auto
  qed
qed

lemma tris_is_prime_nat:
  assumes "1 \<le> n"
  shows "tris_is_prime (int n) \<longleftrightarrow> n = 1 \<or> (prime_nat n \<and> n \<noteq> 2)"
proof (cases "even n")
  case True
  then have "2 dvd n" by simp
  with True show ?thesis by (auto simp: tris_is_prime_def prime_nat_def)
next
  case False
  then have "prime_inv n 3"
    by (auto simp: prime_inv_def) (metis One_nat_def Suc_1 le_antisym less_Suc_eq_le numeral_3_eq_3)
  from prime_loop_iff [OF this]
  have "tris_is_prime (int n) \<longleftrightarrow> (\<forall>d. 2 \<le> d \<and> d < n \<longrightarrow> \<not> d dvd n)"
    using False by (simp add: tris_is_prime_def)
  also have "\<dots> \<longleftrightarrow> n = 1 \<or> prime_nat n"
  proof
    assume a: "\<forall>d. 2 \<le> d \<and> d < n \<longrightarrow> \<not> d dvd n"
    have "d = 1 \<or> d = n" if "d dvd n" for d
    proof -
      have "d \<noteq> 0" "d \<le> n" using that assms by (auto intro: dvd_imp_le ccontr)
      then show ?thesis using a that by (metis One_nat_def le_neq_implies_less less_2_cases not_le)
    qed
    then show "n = 1 \<or> prime_nat n" using assms by (cases "n = 1") (auto simp: prime_nat_def)
  qed (use False in \<open>auto simp: prime_nat_def\<close>)
  finally show ?thesis using False by auto
qed

text \<open>There is always a further size to grow to (Euclid), so the search loops end.\<close>

lemma prime_above: "\<exists>p. n < p \<and> 2 < p \<and> prime_nat p"
proof -
  define m where "m = fact (n + 2) + (1::nat)"
  have m: "1 < m" by (simp add: m_def)
  define p where "p = (LEAST d. 1 < d \<and> d dvd m)"
  have p: "1 < p" "p dvd m" unfolding p_def using LeastI [of "\<lambda>d. 1 < d \<and> d dvd m" m] m by auto
  have "d = 1 \<or> d = p" if "d dvd p" for d
  proof -
    have "d \<le> p" "d \<noteq> 0" using that p by (auto intro: dvd_imp_le ccontr)
    moreover have "\<not> (1 < d \<and> d < p)"
      unfolding p_def using that p dvd_trans not_less_Least [of d "\<lambda>d. 1 < d \<and> d dvd m"]
      by (auto simp: p_def)
    ultimately show ?thesis by linarith
  qed
  then have pr: "prime_nat p" using p by (simp add: prime_nat_def)
  have "n + 2 < p"
  proof (rule ccontr)
    assume "\<not> n + 2 < p"
    then have "p dvd fact (n + 2)" using p(1) by (intro dvd_fact) auto
    then have "p dvd 1" using p(2) unfolding m_def by (metis dvd_add_right_iff)
    with p(1) show False by simp
  qed
  with pr show ?thesis by (intro exI [of _ p]) auto
qed

text \<open>The loop \<open>while (!tris_is_prime(i)) i++;\<close>\<close>

function next_prime :: "nat \<Rightarrow> nat" where
  "next_prime i = (if tris_is_prime (int i) then i else next_prime (i + 1))"
  by pat_completeness auto
termination
proof (relation "measure (\<lambda>i. (LEAST p. i \<le> p \<and> tris_is_prime (int p)) - i)", goal_cases)
  case (2 i)
  let ?P = "\<lambda>i p. i \<le> p \<and> tris_is_prime (int p)"
  obtain q where "i < q" "2 < q" "prime_nat q" using prime_above by blast
  then have q: "?P i q" "?P (i + 1) q" using tris_is_prime_nat [of q] by auto
  have "?P (i + 1) p \<longleftrightarrow> ?P i p" for p using 2 by (cases "p = i") auto
  then have "(LEAST p. ?P (i + 1) p) = (LEAST p. ?P i p)" by presburger
  moreover have "i + 1 \<le> (LEAST p. ?P (i + 1) p)"
    using LeastI [of "?P (i + 1)", OF q(2)] by blast
  ultimately show ?case by simp
qed simp

declare next_prime.simps [simp del]

lemma next_prime_props: "i \<le> next_prime i \<and> tris_is_prime (int (next_prime i))"
proof (induction i rule: next_prime.induct)
  case (1 i)
  then show ?case by (cases "tris_is_prime (int i)") (auto simp: next_prime.simps [of i])
qed

lemma next_prime_pos [simp]: "0 < next_prime i"
proof (rule ccontr)
  assume "\<not> 0 < next_prime i"
  then show False using next_prime_props [of i] by (simp add: tris_is_prime_def)
qed

section \<open>Hash functions of the library\<close>

text \<open>A C string is the list of its bytes up to the terminating zero; sums wrap at 32 bits.\<close>

fun hash_string_loop :: "u32 \<Rightarrow> u8 list \<Rightarrow> u32" where
  "hash_string_loop tot [] = tot"
| "hash_string_loop tot (c # str) =
     (let tmp = tot;
          tot = push_bit 1 tot;
          tot = tot + tmp;
          tot = push_bit 2 tot;
          tot = tot + tmp
      in hash_string_loop (tot + ucast c) str)"

definition tris_hashtab_hash_string :: "u8 list \<Rightarrow> u32" where
  "tris_hashtab_hash_string str = hash_string_loop 0 str"

fun hash_string_sax_loop :: "u32 \<Rightarrow> u8 list \<Rightarrow> u32" where
  "hash_string_sax_loop tot [] = tot"
| "hash_string_sax_loop tot (c # str) =
     hash_string_sax_loop
       (tot XOR (push_bit 5 tot + drop_bit 2 tot + push_bit 10 tot + ucast c)) str"

definition tris_hashtab_hash_string_sax :: "u8 list \<Rightarrow> u32" where
  "tris_hashtab_hash_string_sax str = hash_string_sax_loop 0 str"

text \<open>\<open>toupper\<close> of the C locale.\<close>

definition toupper_byte :: "u8 \<Rightarrow> u8" where
  "toupper_byte c = (if 97 \<le> c \<and> c \<le> 122 then c - 32 else c)"

definition tris_hashtab_hash_string_nocase :: "u8 list \<Rightarrow> u32" where
  "tris_hashtab_hash_string_nocase str = hash_string_loop 0 (map toupper_byte str)"

text \<open>The shifts and additions of the loop multiply by 13.\<close>

lemma hash_string_loop_13: "hash_string_loop t str = foldl (\<lambda>t c. 13 * t + ucast c) t str"
proof (induction str arbitrary: t)
  case (Cons c str)
  have "push_bit 2 (push_bit 1 t + t) + t = 13 * t"
    by (simp add: push_bit_eq_mult)
  then show ?case by (simp add: Cons Let_def)
qed simp

section \<open>State and operations\<close>

datatype resize_fn = Resize_java | Resize_tight | Resize_none
datatype newsize_fn = Newsize_java | Newsize_tight | Newsize_none

type_synonym 'o bucket = "nat \<times> 'o"

record 'o tris_hashtab =
  array :: "'o bucket list list"
  tlist :: "'o bucket list"
  compare :: "'o \<Rightarrow> 'o \<Rightarrow> int"
  newsize :: newsize_fn
  resize :: resize_fn
  hash :: "'o \<Rightarrow> u32"
  hash_tab_size :: nat
  hash_tab_elements :: nat
  largest_bucket_size :: nat
  resize_count :: nat
  next_cell :: nat

abbreviation object :: "'o bucket \<Rightarrow> 'o" where "object \<equiv> snd"

text \<open>The double quotient exceeds 0.75 exactly when \<open>4 e > 3 s\<close>: table sizes are far below
  the precision of a double.\<close>

definition tris_hashtab_resize_java :: "'o tris_hashtab \<Rightarrow> bool" where
  "tris_hashtab_resize_java tab \<longleftrightarrow> 3 * hash_tab_size tab < 4 * hash_tab_elements tab"

definition tris_hashtab_resize_tight :: "'o tris_hashtab \<Rightarrow> bool" where
  "tris_hashtab_resize_tight tab \<longleftrightarrow> hash_tab_size tab < hash_tab_elements tab"

definition tris_hashtab_resize_none :: "'o tris_hashtab \<Rightarrow> bool" where
  "tris_hashtab_resize_none tab \<longleftrightarrow> False"

definition call_resize :: "'o tris_hashtab \<Rightarrow> bool" where
  "call_resize tab = (case resize tab of
     Resize_java \<Rightarrow> tris_hashtab_resize_java tab
   | Resize_tight \<Rightarrow> tris_hashtab_resize_tight tab
   | Resize_none \<Rightarrow> tris_hashtab_resize_none tab)"

definition tris_hashtab_newsize_java :: "'o tris_hashtab \<Rightarrow> nat" where
  "tris_hashtab_newsize_java tab = next_prime (hash_tab_size tab * 2)"

definition tris_hashtab_newsize_tight :: "'o tris_hashtab \<Rightarrow> nat" where
  "tris_hashtab_newsize_tight tab =
     (let x = hash_tab_size tab * 2 in next_prime (hash_tab_size tab + x))"

definition tris_hashtab_newsize_none :: "'o tris_hashtab \<Rightarrow> nat" where
  "tris_hashtab_newsize_none tab = hash_tab_size tab"

definition call_newsize :: "'o tris_hashtab \<Rightarrow> nat" where
  "call_newsize tab = (case newsize tab of
     Newsize_java \<Rightarrow> tris_hashtab_newsize_java tab
   | Newsize_tight \<Rightarrow> tris_hashtab_newsize_tight tab
   | Newsize_none \<Rightarrow> tris_hashtab_newsize_none tab)"

definition tris_hashtab_create ::
  "nat \<Rightarrow> ('o \<Rightarrow> 'o \<Rightarrow> int) \<Rightarrow> resize_fn option \<Rightarrow> newsize_fn option \<Rightarrow> ('o \<Rightarrow> u32) \<Rightarrow> bool \<Rightarrow>
   'o tris_hashtab option" where
  "tris_hashtab_create initial_buckets cmp rs ns hf ok =
     (let n = next_prime initial_buckets in
      if \<not> ok then None
      else Some \<lparr>array = replicate n [], tlist = [], compare = cmp,
                 newsize = (case ns of None \<Rightarrow> Newsize_java | Some f \<Rightarrow> f),
                 resize = (case rs of None \<Rightarrow> Resize_java | Some f \<Rightarrow> f),
                 hash = hf, hash_tab_size = n, hash_tab_elements = 0,
                 largest_bucket_size = 0, resize_count = 0, next_cell = 0\<rparr>)"

definition bucket_of :: "'o tris_hashtab \<Rightarrow> 'o \<Rightarrow> nat" where
  "bucket_of tab obj = unat (hash tab obj) mod hash_tab_size tab"

text \<open>Re-threading every cell of \<open>tlist\<close>, in its order, into the new array.\<close>

fun rethread :: "('o \<Rightarrow> u32) \<Rightarrow> nat \<Rightarrow> 'o bucket list \<Rightarrow> 'o bucket list list \<Rightarrow> 'o bucket list list" where
  "rethread hf n [] arr = arr"
| "rethread hf n (b # bs) arr =
     (let h = unat (hf (object b)) mod n in rethread hf n bs (arr[h := b # arr ! h]))"

definition tris_hashtab_resize :: "'o tris_hashtab \<Rightarrow> bool \<Rightarrow> 'o tris_hashtab" where
  "tris_hashtab_resize tab ok =
     (let n = call_newsize tab in
      if \<not> ok then tab\<lparr>array := []\<rparr>
      else (let arr = rethread (hash tab) n (tlist tab) (replicate n []) in
            tab\<lparr>resize_count := resize_count tab + 1, hash_tab_size := n, array := arr,
                largest_bucket_size := foldl (\<lambda>m b. if m < length b then length b else m) 0 arr\<rparr>))"

definition tlist_add_head :: "'o bucket list \<Rightarrow> 'o bucket \<Rightarrow> 'o bucket list" where
  "tlist_add_head head item = item # head"

definition tlist_del_item :: "'o bucket list \<Rightarrow> 'o bucket \<Rightarrow> 'o bucket list" where
  "tlist_del_item head item = remove1 item head"

definition tris_hashtab_insert_immediate_bucket ::
  "'o tris_hashtab \<Rightarrow> 'o \<Rightarrow> nat \<Rightarrow> bool \<Rightarrow> bool \<Rightarrow> int \<times> 'o tris_hashtab" where
  "tris_hashtab_insert_immediate_bucket tab obj h ok_cell ok_array =
     (let c = length (array tab ! h);
          tab = (if largest_bucket_size tab < c + 1 then tab\<lparr>largest_bucket_size := c + 1\<rparr> else tab)
      in if \<not> ok_cell then (0, tab)
         else (let b = (next_cell tab, obj);
                   tab = tab\<lparr>next_cell := next_cell tab + 1,
                             array := (array tab)[h := b # array tab ! h],
                             tlist := tlist_add_head (tlist tab) b,
                             hash_tab_elements := hash_tab_elements tab + 1\<rparr>
               in (1, if call_resize tab then tris_hashtab_resize tab ok_array else tab)))"

definition tris_hashtab_insert_immediate ::
  "'o tris_hashtab \<Rightarrow> 'o \<Rightarrow> bool \<Rightarrow> bool \<Rightarrow> int \<times> 'o tris_hashtab" where
  "tris_hashtab_insert_immediate tab obj ok_cell ok_array =
     tris_hashtab_insert_immediate_bucket tab obj (bucket_of tab obj) ok_cell ok_array"

definition tris_hashtab_lookup_internal :: "'o tris_hashtab \<Rightarrow> 'o \<Rightarrow> nat \<Rightarrow> 'o option" where
  "tris_hashtab_lookup_internal tab obj h =
     map_option object (find (\<lambda>b. compare tab obj (object b) = 0) (array tab ! h))"

definition tris_hashtab_lookup :: "'o tris_hashtab \<Rightarrow> 'o \<Rightarrow> 'o option" where
  "tris_hashtab_lookup tab obj = tris_hashtab_lookup_internal tab obj (bucket_of tab obj)"

definition tris_hashtab_lookup_with_hash :: "'o tris_hashtab \<Rightarrow> 'o \<Rightarrow> u32 \<Rightarrow> 'o option" where
  "tris_hashtab_lookup_with_hash tab obj hashval =
     tris_hashtab_lookup_internal tab obj (unat hashval mod hash_tab_size tab)"

definition tris_hashtab_lookup_bucket :: "'o tris_hashtab \<Rightarrow> 'o \<Rightarrow> 'o option \<times> nat" where
  "tris_hashtab_lookup_bucket tab obj =
     (let h = bucket_of tab obj in (tris_hashtab_lookup_internal tab obj h, h))"

definition tris_hashtab_insert_safe ::
  "'o tris_hashtab \<Rightarrow> 'o \<Rightarrow> bool \<Rightarrow> bool \<Rightarrow> int \<times> 'o tris_hashtab" where
  "tris_hashtab_insert_safe tab obj ok_cell ok_array =
     (case tris_hashtab_lookup_bucket tab obj of
        (None, bucket) \<Rightarrow> tris_hashtab_insert_immediate_bucket tab obj bucket ok_cell ok_array
      | (Some _, _) \<Rightarrow> (0, tab))"

definition tris_hashtab_remove_object_internal ::
  "'o tris_hashtab \<Rightarrow> 'o bucket \<Rightarrow> nat \<Rightarrow> 'o \<times> 'o tris_hashtab" where
  "tris_hashtab_remove_object_internal tab b h =
     (object b, tab\<lparr>array := (array tab)[h := remove1 b (array tab ! h)],
                    tlist := tlist_del_item (tlist tab) b,
                    hash_tab_elements := hash_tab_elements tab - 1\<rparr>)"

definition remove_first :: "('o bucket \<Rightarrow> bool) \<Rightarrow> 'o tris_hashtab \<Rightarrow> nat \<Rightarrow> 'o option \<times> 'o tris_hashtab" where
  "remove_first p tab h =
     (case find p (array tab ! h) of
        None \<Rightarrow> (None, tab)
      | Some b \<Rightarrow> (case tris_hashtab_remove_object_internal tab b h of
                    (obj2, tab') \<Rightarrow> (Some obj2, tab')))"

definition tris_hashtab_remove_object_via_lookup :: "'o tris_hashtab \<Rightarrow> 'o \<Rightarrow> 'o option \<times> 'o tris_hashtab" where
  "tris_hashtab_remove_object_via_lookup tab obj =
     remove_first (\<lambda>b. compare tab obj (object b) = 0) tab (bucket_of tab obj)"

definition tris_hashtab_remove_this_object :: "'o tris_hashtab \<Rightarrow> 'o \<Rightarrow> 'o option \<times> 'o tris_hashtab" where
  "tris_hashtab_remove_this_object tab obj =
     remove_first (\<lambda>b. obj = object b) tab (bucket_of tab obj)"

definition tris_hashtab_get_stats :: "'o tris_hashtab \<Rightarrow> nat \<times> nat \<times> nat \<times> nat" where
  "tris_hashtab_get_stats tab =
     (largest_bucket_size tab, resize_count tab, hash_tab_elements tab, hash_tab_size tab)"

definition tris_hashtab_size :: "'o tris_hashtab \<Rightarrow> nat" where
  "tris_hashtab_size tab = hash_tab_elements tab"

definition tris_hashtab_capacity :: "'o tris_hashtab \<Rightarrow> nat" where
  "tris_hashtab_capacity tab = hash_tab_size tab"

text \<open>The traversal follows \<open>tlist\<close>; an iterator is the list of the cells still to visit.\<close>

definition tris_hashtab_start_traversal :: "'o tris_hashtab \<Rightarrow> 'o bucket list" where
  "tris_hashtab_start_traversal tab = tlist tab"

fun tris_hashtab_next :: "'o bucket list \<Rightarrow> 'o option \<times> 'o bucket list" where
  "tris_hashtab_next [] = (None, [])"
| "tris_hashtab_next (b # bs) = (Some (object b), bs)"

section \<open>Invariant\<close>

definition tab_inv :: "'o tris_hashtab \<Rightarrow> bool" where
  "tab_inv tab \<longleftrightarrow>
     0 < hash_tab_size tab \<and> length (array tab) = hash_tab_size tab \<and>
     (\<forall>i < hash_tab_size tab. \<forall>b \<in> set (array tab ! i). bucket_of tab (object b) = i) \<and>
     mset (concat (array tab)) = mset (tlist tab) \<and>
     distinct (map fst (tlist tab)) \<and> (\<forall>b \<in> set (tlist tab). fst b < next_cell tab) \<and>
     hash_tab_elements tab = length (tlist tab) \<and>
     (\<forall>ch \<in> set (array tab). length ch \<le> largest_bucket_size tab)"

definition tab_objs :: "'o tris_hashtab \<Rightarrow> 'o list" where
  "tab_objs tab = map object (tlist tab)"

lemma mset_concat_update:
  "i < length xs \<Longrightarrow> mset (concat (xs[i := ys])) + mset (xs ! i) = mset (concat xs) + mset ys"
proof (induction xs arbitrary: i)
  case (Cons x xs)
  then show ?case by (cases i) (auto simp: union_ac)
qed simp

lemma mset_concat_cons:
  "i < length xs \<Longrightarrow> mset (concat (xs[i := y # xs ! i])) = add_mset y (mset (concat xs))"
  using mset_concat_update [of i xs "y # xs ! i"] by simp

lemma mset_concat_remove1:
  assumes "i < length xs" "y \<in> set (xs ! i)"
  shows "mset (concat (xs[i := remove1 y (xs ! i)])) = mset (concat xs) - {#y#}"
proof -
  let ?A = "mset (concat (xs[i := remove1 y (xs ! i)]))" and ?M = "mset (remove1 y (xs ! i))"
  have "mset (xs ! i) = add_mset y ?M" using assms(2) by simp
  then have "add_mset y ?A + ?M = mset (concat xs) + ?M"
    using mset_concat_update [OF assms(1), of "remove1 y (xs ! i)"]
    by (metis union_mset_add_mset_left union_mset_add_mset_right)
  then have "add_mset y ?A = mset (concat xs)" by (rule add_right_imp_eq)
  then show ?thesis by (metis add_mset_remove_trivial)
qed

lemma rethread_props:
  "0 < n \<Longrightarrow> length arr = n \<Longrightarrow> \<forall>i < n. \<forall>b \<in> set (arr ! i). unat (hf (object b)) mod n = i \<Longrightarrow>
   length (rethread hf n bs arr) = n \<and>
   mset (concat (rethread hf n bs arr)) = mset bs + mset (concat arr) \<and>
   (\<forall>i < n. \<forall>b \<in> set (rethread hf n bs arr ! i). unat (hf (object b)) mod n = i)"
proof (induction bs arbitrary: arr)
  case (Cons b bs)
  let ?h = "unat (hf (object b)) mod n"
  let ?a = "arr[?h := b # arr ! ?h]"
  have h: "?h < length arr" using Cons.prems by simp
  have p: "\<forall>i < n. \<forall>b \<in> set (?a ! i). unat (hf (object b)) mod n = i"
    using Cons.prems by (auto simp: nth_list_update)
  have l: "length ?a = n" using Cons.prems(2) by simp
  have e: "rethread hf n (b # bs) arr = rethread hf n bs ?a" by (simp add: Let_def)
  have m: "mset bs + mset (concat ?a) = mset (b # bs) + mset (concat arr)"
    using mset_concat_cons [OF h, of b] by simp
  show ?case unfolding e using Cons.IH [OF Cons.prems(1) l p] unfolding m .
qed simp

lemma foldl_longest:
  "m \<le> foldl (\<lambda>m b. if m < length b then length b else m) m arr \<and>
   (\<forall>ch \<in> set arr. length ch \<le> foldl (\<lambda>m b. if m < length b then length b else m) m arr)"
proof (induction arr arbitrary: m)
  case (Cons a arr)
  from Cons.IH [of "if m < length a then length a else m"] show ?case
    by (auto split: if_splits)
qed simp

lemma concat_replicate_Nil: "concat (replicate n []) = []"
  by (induction n) auto

lemma create_tab_inv:
  "tris_hashtab_create n cmp rs ns hf True = Some tab \<Longrightarrow> tab_inv tab \<and> tab_objs tab = []"
  by (auto simp: tris_hashtab_create_def tab_inv_def tab_objs_def Let_def concat_replicate_Nil)

lemma call_newsize_pos: "0 < hash_tab_size tab \<Longrightarrow> 0 < call_newsize tab"
  by (auto simp: call_newsize_def tris_hashtab_newsize_java_def tris_hashtab_newsize_tight_def
      tris_hashtab_newsize_none_def Let_def split: newsize_fn.split)

lemma resize_fields [simp, tab_simps]:
  "tlist (tris_hashtab_resize tab ok) = tlist tab" "compare (tris_hashtab_resize tab ok) = compare tab"
  "hash (tris_hashtab_resize tab ok) = hash tab"
  "hash_tab_elements (tris_hashtab_resize tab ok) = hash_tab_elements tab"
  "next_cell (tris_hashtab_resize tab ok) = next_cell tab"
  "resize (tris_hashtab_resize tab ok) = resize tab" "newsize (tris_hashtab_resize tab ok) = newsize tab"
  by (simp_all add: tris_hashtab_resize_def Let_def)

lemma resize_tab_inv:
  assumes "tab_inv tab"
  shows "tab_inv (tris_hashtab_resize tab True)"
proof -
  let ?n = "call_newsize tab" and ?r = "rethread (hash tab) (call_newsize tab) (tlist tab)
      (replicate (call_newsize tab) [])"
  have n: "0 < ?n" using assms by (intro call_newsize_pos) (simp add: tab_inv_def)
  note r = rethread_props [OF n, of "replicate ?n []" "hash tab" "tlist tab"]
  show ?thesis
    using assms n r foldl_longest [of 0 ?r]
    by (simp add: tab_inv_def tris_hashtab_resize_def Let_def bucket_of_def concat_replicate_Nil)
qed

text \<open>The table after a new cell has been linked in, before any resizing.\<close>

definition tab_link :: "'o tris_hashtab \<Rightarrow> 'o \<Rightarrow> 'o tris_hashtab" where
  "tab_link tab obj =
     (let h = bucket_of tab obj; b = (next_cell tab, obj) in
      tab\<lparr>largest_bucket_size := max (largest_bucket_size tab) (length (array tab ! h) + 1),
          next_cell := next_cell tab + 1, array := (array tab)[h := b # array tab ! h],
          tlist := b # tlist tab, hash_tab_elements := hash_tab_elements tab + 1\<rparr>)"

lemma insert_bucket_link:
  "tris_hashtab_insert_immediate_bucket tab obj (bucket_of tab obj) True oa =
     (1, if call_resize (tab_link tab obj) then tris_hashtab_resize (tab_link tab obj) oa
         else tab_link tab obj)"
  by (simp add: tris_hashtab_insert_immediate_bucket_def tab_link_def tlist_add_head_def Let_def
      max_def call_resize_def tris_hashtab_resize_java_def tris_hashtab_resize_tight_def
      tris_hashtab_resize_none_def split: resize_fn.split)

lemma tab_link_inv:
  assumes "tab_inv tab"
  shows "tab_inv (tab_link tab obj)"
proof -
  let ?h = "bucket_of tab obj"
  have h: "?h < length (array tab)" using assms by (simp add: tab_inv_def bucket_of_def)
  have "\<forall>ch \<in> set ((array tab)[?h := (next_cell tab, obj) # array tab ! ?h]).
      length ch \<le> max (largest_bucket_size tab) (length (array tab ! ?h) + 1)"
    using assms set_update_subset_insert [of "array tab" ?h] by (fastforce simp: tab_inv_def)
  moreover have "bucket_of (tab_link tab obj) = bucket_of tab"
    by (simp add: fun_eq_iff bucket_of_def tab_link_def Let_def)
  ultimately show ?thesis
    using assms h unfolding tab_inv_def
    by (auto simp: tab_link_def Let_def mset_concat_cons nth_list_update bucket_of_def)
qed

lemma insert_immediate_inv:
  assumes "tab_inv tab" "tris_hashtab_insert_immediate tab obj True True = (r, tab')"
  shows "r = 1" "tab_inv tab'" "tab_objs tab' = obj # tab_objs tab"
    "compare tab' = compare tab" "hash tab' = hash tab"
  using assms tab_link_inv [OF assms(1)] resize_tab_inv [OF tab_link_inv [OF assms(1)]]
  by (auto simp: tris_hashtab_insert_immediate_def insert_bucket_link tab_objs_def
      split: if_splits) (auto simp: tab_link_def Let_def)

section \<open>The table as an object table\<close>

text \<open>What the code asks of the callbacks: \<open>compare\<close> is zero on an equivalence, and equal
  keys have equal hashes.\<close>

locale hash_key =
  fixes cmp :: "'o \<Rightarrow> 'o \<Rightarrow> int" and hf :: "'o \<Rightarrow> u32"
  assumes key_refl: "cmp a a = 0"
    and key_sym: "cmp a b = 0 \<Longrightarrow> cmp b a = 0"
    and key_trans: "cmp a b = 0 \<Longrightarrow> cmp b c = 0 \<Longrightarrow> cmp a c = 0"
    and key_hash: "cmp a b = 0 \<Longrightarrow> hf a = hf b"

text \<open>A table filled by \<open>insert_safe\<close> only: no two cells hold objects of the same key.\<close>

definition tab_uniq :: "'o tris_hashtab \<Rightarrow> bool" where
  "tab_uniq tab \<longleftrightarrow> (\<forall>b \<in> set (tlist tab). \<forall>c \<in> set (tlist tab).
     compare tab (object b) (object c) = 0 \<longrightarrow> b = c)"

definition key_table_inv :: "('o \<Rightarrow> 'o \<Rightarrow> int) \<Rightarrow> ('o \<Rightarrow> u32) \<Rightarrow> 'o tris_hashtab \<Rightarrow> bool" where
  "key_table_inv cmp hf tab \<longleftrightarrow>
     compare tab = cmp \<and> hash tab = hf \<and> tab_inv tab \<and> tab_uniq tab"

lemma chain_cells:
  assumes "tab_inv tab"
  shows "set (array tab ! bucket_of tab k) =
           {b \<in> set (tlist tab). bucket_of tab (object b) = bucket_of tab k}"
proof -
  let ?i = "bucket_of tab k"
  have i: "?i < length (array tab)" using assms by (simp add: tab_inv_def bucket_of_def)
  have "set (tlist tab) = set (concat (array tab))"
    using assms unfolding tab_inv_def by (metis set_mset_mset)
  then have "b \<in> set (tlist tab) \<longleftrightarrow> (\<exists>ch \<in> set (array tab). b \<in> set ch)" for b by simp
  then have "b \<in> set (tlist tab) \<longleftrightarrow> (\<exists>j < length (array tab). b \<in> set (array tab ! j))" for b
    unfolding ex_set_nth .
  moreover have "bucket_of tab (object b) = j" if "j < length (array tab)" "b \<in> set (array tab ! j)" for b j
    using assms that by (simp add: tab_inv_def)
  ultimately show ?thesis using i by (intro set_eqI) (metis (mono_tags, lifting) mem_Collect_eq)
qed

lemma distinct_tlist: "tab_inv tab \<Longrightarrow> distinct (tlist tab)"
  by (simp add: tab_inv_def distinct_map)

lemma find_unique:
  assumes "x \<in> set xs" "P x" "\<forall>y \<in> set xs. P y \<longrightarrow> y = x"
  shows "find P xs = Some x"
proof (cases "find P xs")
  case None
  then show ?thesis using assms(1,2) by (simp add: find_None_iff)
next
  case (Some y)
  then have "y \<in> set xs" "P y" by (auto simp: find_Some_iff)
  then show ?thesis using assms(3) Some by blast
qed

context hash_key
begin

lemma lookup_iff:
  assumes inv: "key_table_inv cmp hf tab"
  shows "tris_hashtab_lookup tab k = Some x \<longleftrightarrow> x \<in> set (tab_objs tab) \<and> cmp k x = 0"
proof
  let ?ch = "array tab ! bucket_of tab k"
  have ti: "tab_inv tab" and c: "compare tab = cmp" "hash tab = hf" and u: "tab_uniq tab"
    using inv by (auto simp: key_table_inv_def)
  { assume "tris_hashtab_lookup tab k = Some x"
    then obtain b where "find (\<lambda>b. cmp k (object b) = 0) ?ch = Some b" "x = object b"
      by (auto simp: tris_hashtab_lookup_def tris_hashtab_lookup_internal_def c)
    then show "x \<in> set (tab_objs tab) \<and> cmp k x = 0"
      using chain_cells [OF ti, of k] by (auto simp: find_Some_iff tab_objs_def) }
  { assume "x \<in> set (tab_objs tab) \<and> cmp k x = 0"
    then obtain b where b: "b \<in> set (tlist tab)" "object b = x" "cmp k x = 0"
      by (auto simp: tab_objs_def)
    have "bucket_of tab x = bucket_of tab k" using key_hash [OF b(3)] by (simp add: bucket_of_def c)
    then have "b \<in> set ?ch" using chain_cells [OF ti, of k] b by simp
    moreover have "\<forall>y \<in> set ?ch. cmp k (object y) = 0 \<longrightarrow> y = b"
    proof (intro ballI impI)
      fix y assume that: "y \<in> set ?ch" "cmp k (object y) = 0"
      have "y \<in> set (tlist tab)" using that chain_cells [OF ti, of k] by simp
      moreover have "cmp (object y) (object b) = 0"
        using that(2) b(2,3) key_trans [OF key_sym] by blast
      ultimately show "y = b" using u b(1) by (auto simp: tab_uniq_def c)
    qed
    moreover have "cmp k (object b) = 0" using b(2,3) by simp
    ultimately have "find (\<lambda>b. cmp k (object b) = 0) ?ch = Some b"
      using find_unique [of b ?ch "\<lambda>b. cmp k (object b) = 0"] by blast
    then show "tris_hashtab_lookup tab k = Some x"
      by (simp add: tris_hashtab_lookup_def tris_hashtab_lookup_internal_def c b(2)) }
qed

lemma lookup_None_iff:
  "key_table_inv cmp hf tab \<Longrightarrow>
   tris_hashtab_lookup tab k = None \<longleftrightarrow> (\<forall>x \<in> set (tab_objs tab). cmp k x \<noteq> 0)"
  using lookup_iff by (metis not_None_eq)

lemma insert_safe_cases:
  "tris_hashtab_insert_safe tab x oc oa =
     (if tris_hashtab_lookup tab x = None
      then tris_hashtab_insert_immediate tab x oc oa else (0, tab))"
  by (auto simp: tris_hashtab_insert_safe_def tris_hashtab_lookup_bucket_def tris_hashtab_lookup_def
      tris_hashtab_insert_immediate_def Let_def split: option.split)

lemma insert_safe_ok:
  assumes inv: "key_table_inv cmp hf tab" and new: "\<forall>y \<in> set (tab_objs tab). cmp x y \<noteq> 0"
  obtains tab' where "tris_hashtab_insert_safe tab x True True = (1, tab')"
    "key_table_inv cmp hf tab'" "tab_objs tab' = x # tab_objs tab"
proof -
  have ti: "tab_inv tab" and c: "compare tab = cmp" "hash tab = hf" and u: "tab_uniq tab"
    using inv by (auto simp: key_table_inv_def)
  obtain r tab' where r: "tris_hashtab_insert_immediate tab x True True = (r, tab')"
    by (metis surjective_pairing)
  note i = insert_immediate_inv [OF ti r]
  have safe: "tris_hashtab_insert_safe tab x True True = (1, tab')"
    using new lookup_None_iff [OF inv] r i(1) by (simp add: insert_safe_cases)
  have tl: "tlist tab' = (next_cell tab, x) # tlist tab"
    using r by (auto simp: tris_hashtab_insert_immediate_def insert_bucket_link tab_link_def
        Let_def split: if_splits)
  have "cmp x (object b) \<noteq> 0 \<and> cmp (object b) x \<noteq> 0" if "b \<in> set (tlist tab)" for b
    using new that key_sym by (auto simp: tab_objs_def)
  then have "tab_uniq tab'"
    using u unfolding tab_uniq_def tl i(4) c by auto
  then have "key_table_inv cmp hf tab'" using i c by (simp add: key_table_inv_def)
  then show thesis using that safe i(3) by blast
qed

lemma remove_this_ok:
  assumes inv: "key_table_inv cmp hf tab" and x: "x \<in> set (tab_objs tab)"
  obtains tab' where "tris_hashtab_remove_this_object tab x = (Some x, tab')"
    "key_table_inv cmp hf tab'" "set (tab_objs tab') = set (tab_objs tab) - {x}"
proof -
  have ti: "tab_inv tab" and c: "compare tab = cmp" "hash tab = hf" and u: "tab_uniq tab"
    using inv by (auto simp: key_table_inv_def)
  obtain b where b: "b \<in> set (tlist tab)" "object b = x" using x by (auto simp: tab_objs_def)
  let ?h = "bucket_of tab x"
  let ?t = "tab\<lparr>array := (array tab)[?h := remove1 b (array tab ! ?h)],
      tlist := remove1 b (tlist tab), hash_tab_elements := hash_tab_elements tab - 1\<rparr>"
  have h: "?h < length (array tab)" using ti by (simp add: tab_inv_def bucket_of_def)
  have bc: "b \<in> set (array tab ! ?h)" using chain_cells [OF ti, of x] b by simp
  have same: "y = b" if "y \<in> set (tlist tab)" "object y = x" for y
    using u b that key_refl by (auto simp: tab_uniq_def c)
  have "\<forall>y \<in> set (array tab ! ?h). x = object y \<longrightarrow> y = b"
    using same chain_cells [OF ti, of x] by blast
  then have "find (\<lambda>b. x = object b) (array tab ! ?h) = Some b"
    using find_unique [OF bc, of "\<lambda>b. x = object b"] b(2) by blast
  then have r: "tris_hashtab_remove_this_object tab x = (Some x, ?t)"
    by (simp add: tris_hashtab_remove_this_object_def remove_first_def b(2)
        tris_hashtab_remove_object_internal_def tlist_del_item_def)
  have d: "distinct (tlist tab)" by (rule distinct_tlist [OF ti])
  have "set (tab_objs ?t) = set (tab_objs tab) - {x}"
  proof -
    have "object ` (set (tlist tab) - {b}) = object ` set (tlist tab) - {x}"
      using same b by blast
    then show ?thesis using d by (simp add: tab_objs_def)
  qed
  moreover have "tab_inv ?t"
  proof -
    have "mset (concat ((array tab)[?h := remove1 b (array tab ! ?h)])) = mset (remove1 b (tlist tab))"
      using mset_concat_remove1 [OF h bc] ti by (simp add: tab_inv_def)
    moreover have "length ch \<le> largest_bucket_size tab"
      if "ch \<in> set ((array tab)[?h := remove1 b (array tab ! ?h)])" for ch
    proof -
      have "ch \<in> set (array tab) \<or> ch = remove1 b (array tab ! ?h)"
        using that set_update_subset_insert by fastforce
      moreover have "length (remove1 b (array tab ! ?h)) \<le> length (array tab ! ?h)"
        by (simp add: length_remove1)
      moreover have "array tab ! ?h \<in> set (array tab)" using h by simp
      ultimately show ?thesis using ti by (fastforce simp: tab_inv_def)
    qed
    moreover have "distinct (map fst (remove1 b (tlist tab)))"
      using ti d by (auto simp: tab_inv_def distinct_map inj_on_def)
    moreover have "hash_tab_elements tab - 1 = length (remove1 b (tlist tab))"
      using ti b by (simp add: tab_inv_def length_remove1)
    moreover have "y \<in> set (array tab ! ?h)" if "y \<in> set (remove1 b (array tab ! ?h))" for y
      using that set_remove1_subset by fastforce
    ultimately show ?thesis
      using ti h set_remove1_subset [of b "tlist tab"]
      by (auto simp: tab_inv_def nth_list_update bucket_of_def split: if_splits)
  qed
  moreover have "tab_uniq ?t"
    using u set_remove1_subset [of b "tlist tab"] by (auto simp: tab_uniq_def)
  ultimately have "key_table_inv cmp hf ?t" "set (tab_objs ?t) = set (tab_objs tab) - {x}"
    using c by (auto simp: key_table_inv_def)
  with r that show thesis by blast
qed

sublocale hash_table: object_table "\<lambda>a b. cmp a b = 0" tris_hashtab_insert_safe
  tris_hashtab_lookup tris_hashtab_remove_this_object "\<lambda>tab. set (tab_objs tab)"
  "key_table_inv cmp hf"
proof (unfold_locales, goal_cases)
  case (2 t k x)
  then show ?case by (rule lookup_iff)
next
  case (3 t x)
  then obtain t' where "tris_hashtab_insert_safe t x True True = (1, t')"
    "key_table_inv cmp hf t'" "tab_objs t' = x # tab_objs t" by (rule insert_safe_ok)
  then show ?case by auto
next
  case (4 t y x oc oa)
  then show ?case using lookup_None_iff [of t x] by (auto simp: insert_safe_cases)
next
  case (5 t x)
  then obtain t' where "tris_hashtab_remove_this_object t x = (Some x, t')"
    "key_table_inv cmp hf t'" "set (tab_objs t') = set (tab_objs t) - {x}" by (rule remove_this_ok)
  then show ?case by blast
next
  case (6 t x)
  then have "\<not> (\<exists>b \<in> set (array t ! bucket_of t x). x = object b)"
    using chain_cells [of t x] by (force simp: key_table_inv_def tab_objs_def)
  then have "find (\<lambda>b. x = object b) (array t ! bucket_of t x) = None"
    by (auto simp: find_None_iff)
  then show ?case by (simp add: tris_hashtab_remove_this_object_def remove_first_def)
qed simp

lemma table_run_lookup:
  assumes "key_table_inv cmp hf tab" "tab_objs tab = []"
  shows "tris_hashtab_lookup (tab_run tris_hashtab_insert_safe tris_hashtab_remove_this_object ops tab) k
      = Some x \<longleftrightarrow> x \<in> set_run (\<lambda>a b. cmp a b = 0) ops {} \<and> cmp k x = 0"
  using hash_table.t_run [OF assms(1), of ops] assms(2) hash_table.t_lookup by simp

end

section \<open>Properties\<close>

text \<open>The primality test used for table sizes accepts exactly the odd primes and 1: its
  shrinking limit never stops before the square root.\<close>

theorem tris_is_prime_iff: "tris_is_prime (int n) \<longleftrightarrow> odd n \<and> (n = 1 \<or> prime_nat n)"
proof (cases "n = 0")
  case True
  then show ?thesis by (simp add: tris_is_prime_def)
next
  case False
  have "even n \<Longrightarrow> \<not> tris_is_prime (int n)" by (simp add: tris_is_prime_def)
  then show ?thesis using tris_is_prime_nat [of n] False by auto
qed

text \<open>Claim C11. A fresh table that goes through any history of safe insertions and removals
  answers every lookup as the set of objects held by the history does, through all the resizes:
  insertion is refused when the key is taken, lookup finds the one object of the key.\<close>

theorem hashtab_refines_set:
  assumes "hash_key cmp hf" and "tris_hashtab_create n cmp rs ns hf True = Some tab"
  shows "tris_hashtab_lookup
           (tab_run tris_hashtab_insert_safe tris_hashtab_remove_this_object ops tab) k = Some x \<longleftrightarrow>
         x \<in> set_run (\<lambda>a b. cmp a b = 0) ops {} \<and> cmp k x = 0"
proof -
  have "compare tab = cmp" "hash tab = hf" using assms(2) by (auto simp: tris_hashtab_create_def Let_def)
  with create_tab_inv [OF assms(2)] have "key_table_inv cmp hf tab" "tab_objs tab = []"
    by (auto simp: key_table_inv_def tab_uniq_def tab_objs_def)
  then show ?thesis by (rule hash_key.table_run_lookup [OF assms(1)])
qed

text \<open>The library's integer comparison and hash, as sample callbacks.\<close>

definition tris_hashtab_compare_ints :: "int \<Rightarrow> int \<Rightarrow> int" where
  "tris_hashtab_compare_ints ai bi = (if ai < bi then - 1 else if ai = bi then 0 else 1)"

definition tris_hashtab_hash_int :: "int \<Rightarrow> u32" where
  "tris_hashtab_hash_int x = of_int x"

interpretation int_key: hash_key tris_hashtab_compare_ints tris_hashtab_hash_int
  by unfold_locales (auto simp: tris_hashtab_compare_ints_def split: if_splits)

definition int_table :: "nat \<Rightarrow> int tris_hashtab" where
  "int_table n = the (tris_hashtab_create n tris_hashtab_compare_ints None None tris_hashtab_hash_int True)"

lemma int_table_create:
  "tris_hashtab_create n tris_hashtab_compare_ints None None tris_hashtab_hash_int True = Some (int_table n)"
  by (simp add: int_table_def tris_hashtab_create_def Let_def)

theorem hashtab_refines_set_witness:
  "tris_hashtab_lookup
     (tab_run tris_hashtab_insert_safe tris_hashtab_remove_this_object
        [Tab_insert 5, Tab_insert 12, Tab_insert 5, Tab_remove 5] (int_table 1)) 12 = Some 12"
  using hashtab_refines_set [OF int_key.hash_key_axioms int_table_create [of 1],
      of "[Tab_insert 5, Tab_insert 12, Tab_insert 5, Tab_remove 5]" 12 12]
  by (simp add: tris_hashtab_compare_ints_def)

text \<open>With the Java policies the load never exceeds three quarters: every insertion
  (its allocations succeeding) leaves \<open>4 e \<le> 3 s\<close>, growing the array when it has to.\<close>

theorem hashtab_load_bounded:
  assumes "tab_inv tab" and "resize tab = Resize_java" and "newsize tab = Newsize_java"
    and "4 * hash_tab_elements tab \<le> 3 * hash_tab_size tab"
    and "tris_hashtab_insert_immediate tab obj True True = (r, tab')"
  shows "4 * hash_tab_elements tab' \<le> 3 * hash_tab_size tab' \<and>
         hash_tab_elements tab' = hash_tab_elements tab + 1"
proof -
  let ?s = "hash_tab_size tab" and ?e = "hash_tab_elements tab"
  let ?l = "tab_link tab obj"
  have l: "hash_tab_size ?l = ?s" "hash_tab_elements ?l = ?e + 1" "resize ?l = Resize_java"
    "newsize ?l = Newsize_java"
    using assms(2,3) by (simp_all add: tab_link_def Let_def)
  have s: "0 < ?s" using assms(1) by (simp add: tab_inv_def)
  have big: "2 * ?s \<le> next_prime (?s * 2)" "next_prime (?s * 2) \<noteq> 2"
    using next_prime_props [of "?s * 2"] by (auto simp: tris_is_prime_def)
  have "4 * (?e + 1) \<le> 3 * next_prime (?s * 2)"
  proof (cases "?s = 1")
    case True
    then have "?e = 0" using assms(4) by simp
    moreover have "3 \<le> next_prime (?s * 2)" using big True by simp
    ultimately show ?thesis by simp
  next
    case False
    then have "2 \<le> ?s" using s by simp
    then show ?thesis using big(1) assms(4) by simp
  qed
  moreover have "hash_tab_size (tris_hashtab_resize ?l True) = next_prime (?s * 2)"
    using l by (simp add: tris_hashtab_resize_def call_newsize_def tris_hashtab_newsize_java_def Let_def)
  ultimately show ?thesis
    using assms(5) l
    by (auto simp: tris_hashtab_insert_immediate_def insert_bucket_link call_resize_def
        tris_hashtab_resize_java_def split: if_splits)
qed

theorem hashtab_load_bounded_witness:
  "let tab' = snd (tris_hashtab_insert_immediate (int_table 3) 7 True True)
   in 4 * hash_tab_elements tab' \<le> 3 * hash_tab_size tab'"
proof -
  have t: "tab_inv (int_table 3)" using create_tab_inv [OF int_table_create] by blast
  have f: "resize (int_table 3) = Resize_java" "newsize (int_table 3) = Newsize_java"
    "hash_tab_elements (int_table 3) = 0"
    by (simp_all add: int_table_def tris_hashtab_create_def Let_def)
  obtain r tab' where i: "tris_hashtab_insert_immediate (int_table 3) 7 True True = (r, tab')"
    by (metis surjective_pairing)
  from hashtab_load_bounded [OF t f(1,2) _ i] f(3) i show ?thesis by simp
qed

end
