(* ===== verification/Timeval.thy ===== *)
theory Timeval
  imports Prelude
begin

text \<open>
  Time arithmetic: \<open>struct timeval\<close> with \<open>tris_tvadd\<close> and \<open>tris_tvsub\<close> of
  \<open>main/utils.c\<close> and the inline helpers of \<open>include/trismedia/time.h\<close>. Seconds and
  microseconds are unbounded integers here (\<open>long\<close> in the code, whose overflow is undefined).
\<close>

section \<open>Operations\<close>

record timeval =
  tv_sec :: int
  tv_usec :: int

definition tris_tv :: "int \<Rightarrow> int \<Rightarrow> timeval" where
  "tris_tv sec usec = \<lparr>tv_sec = sec, tv_usec = usec\<rparr>"

definition tvfix :: "timeval \<Rightarrow> timeval" where
  "tvfix a =
     (if 1000000 \<le> tv_usec a
      then a\<lparr>tv_sec := tv_sec a + tv_usec a div 1000000, tv_usec := tv_usec a mod 1000000\<rparr>
      else if tv_usec a < 0 then a\<lparr>tv_usec := 0\<rparr>
      else a)"

definition tris_tvadd :: "timeval \<Rightarrow> timeval \<Rightarrow> timeval" where
  "tris_tvadd a b =
     (let a = tvfix a; b = tvfix b;
          a = a\<lparr>tv_sec := tv_sec a + tv_sec b, tv_usec := tv_usec a + tv_usec b\<rparr>
      in if 1000000 \<le> tv_usec a
         then a\<lparr>tv_sec := tv_sec a + 1, tv_usec := tv_usec a - 1000000\<rparr> else a)"

definition tris_tvsub :: "timeval \<Rightarrow> timeval \<Rightarrow> timeval" where
  "tris_tvsub a b =
     (let a = tvfix a; b = tvfix b;
          a = a\<lparr>tv_sec := tv_sec a - tv_sec b, tv_usec := tv_usec a - tv_usec b\<rparr>
      in if tv_usec a < 0
         then a\<lparr>tv_sec := tv_sec a - 1, tv_usec := tv_usec a + 1000000\<rparr> else a)"

definition tris_tvdiff_ms :: "timeval \<Rightarrow> timeval \<Rightarrow> int" where
  "tris_tvdiff_ms end start =
     (tv_sec end - tv_sec start) * 1000 +
     (cdiv (1000000 + tv_usec end - tv_usec start) 1000 - 1000)"

definition tris_tvzero :: "timeval \<Rightarrow> bool" where
  "tris_tvzero t \<longleftrightarrow> tv_sec t = 0 \<and> tv_usec t = 0"

definition tris_tvcmp :: "timeval \<Rightarrow> timeval \<Rightarrow> int" where
  "tris_tvcmp a b =
     (if tv_sec a < tv_sec b then - 1
      else if tv_sec b < tv_sec a then 1
      else if tv_usec a < tv_usec b then - 1
      else if tv_usec b < tv_usec a then 1
      else 0)"

text \<open>The arguments are \<open>unsigned int\<close>.\<close>

definition tris_samp2tv :: "nat \<Rightarrow> nat \<Rightarrow> timeval" where
  "tris_samp2tv nsamp rate =
     tris_tv (int (nsamp div rate)) (int ((nsamp mod rate) * (4000000 div rate) div 4))"

section \<open>Meaning in microseconds\<close>

definition tv_us :: "timeval \<Rightarrow> int" where
  "tv_us t = tv_sec t * 1000000 + tv_usec t"

definition tv_valid :: "timeval \<Rightarrow> bool" where
  "tv_valid t \<longleftrightarrow> 0 \<le> tv_usec t \<and> tv_usec t < 1000000"

lemma tvfix_valid: "tv_valid t \<Longrightarrow> tvfix t = t"
  by (simp add: tvfix_def tv_valid_def)

lemma tv_us_div: "tv_valid t \<Longrightarrow> tv_us t div 1000000 = tv_sec t \<and> tv_us t mod 1000000 = tv_usec t"
  by (simp add: tv_us_def tv_valid_def)

lemma tv_us_inject: "tv_valid a \<Longrightarrow> tv_valid b \<Longrightarrow> tv_us a = tv_us b \<longleftrightarrow> a = b"
  using tv_us_div [of a] tv_us_div [of b] by (auto intro: timeval.equality)

lemma tvadd_us:
  "tv_valid a \<Longrightarrow> tv_valid b \<Longrightarrow> tv_valid (tris_tvadd a b) \<and> tv_us (tris_tvadd a b) = tv_us a + tv_us b"
  by (auto simp: tris_tvadd_def tvfix_valid Let_def) (auto simp: tv_valid_def tv_us_def)

lemma tvsub_us:
  "tv_valid a \<Longrightarrow> tv_valid b \<Longrightarrow> tv_valid (tris_tvsub a b) \<and> tv_us (tris_tvsub a b) = tv_us a - tv_us b"
  by (auto simp: tris_tvsub_def tvfix_valid Let_def) (auto simp: tv_valid_def tv_us_def)

lemma tvcmp_us: "tv_valid a \<Longrightarrow> tv_valid b \<Longrightarrow> tris_tvcmp a b = sgn (tv_us a - tv_us b)"
  by (auto simp: tris_tvcmp_def tv_valid_def tv_us_def sgn_if)

lemma tvcmp_zero_iff [simp]: "tris_tvcmp a b = 0 \<longleftrightarrow> a = b"
  by (auto simp: tris_tvcmp_def)

lemma samp2tv_ms:
  "tv_valid (tris_samp2tv n 1000) \<and> tv_us (tris_samp2tv n 1000) = 1000 * int n"
proof -
  have "n mod 1000 * 4000 div 4 = n mod 1000 * 1000" by simp
  moreover have "int n = 1000 * int (n div 1000) + int (n mod 1000)"
    by (metis mult_div_mod_eq of_nat_add of_nat_mult of_nat_numeral)
  ultimately show ?thesis
    by (simp add: tris_samp2tv_def tris_tv_def tv_valid_def tv_us_def)
qed

text \<open>Adding and then subtracting an interval gives the time back, and the comparison
  of two times is the comparison of their microseconds: on normalised times the operations are
  exact integer arithmetic.\<close>

theorem tvadd_tvsub_roundtrip:
  assumes "tv_valid a" and "tv_valid b"
  shows "tris_tvsub (tris_tvadd a b) b = a \<and> tris_tvadd (tris_tvsub a b) b = a \<and>
         (tris_tvcmp a b = - 1 \<longleftrightarrow> tv_us a < tv_us b)"
  using assms tvadd_us tvsub_us tvcmp_us [OF assms]
  by (auto simp: tv_us_inject [symmetric] sgn_if)

theorem tvadd_tvsub_roundtrip_witness:
  "tris_tvsub (tris_tvadd (tris_tv 7 999999) (tris_tv 1 2)) (tris_tv 1 2) = tris_tv 7 999999"
  using tvadd_tvsub_roundtrip [of "tris_tv 7 999999" "tris_tv 1 2"]
  by (simp add: tv_valid_def tris_tv_def)

end
