(* ===== verification/Sched.thy ===== *)
theory Sched
  imports Heap Hashtab Timeval
begin

text \<open>
  The event scheduler of \<open>main/sched.c\<close>: a heap ordered by due time (\<open>Heap\<close>) and a hash
  table keyed by event number (\<open>Hashtab\<close>) that hold the same events.

  \<open>sched\<close> is the event structure; its \<open>__heap_index\<close> field is the heap's \<open>index_of\<close>.
  The current time is an argument (\<open>now\<close>) wherever the code reads the clock, and \<open>allocs\<close>
  says which of the allocations of a call succeed. Pointers and callbacks are numbers, 0 is
  \<open>NULL\<close>. A callback is an environment function: given
  the callback, its data, the context and the state of the rest of the program, both of which it may change, it
  yields the code's return value, the changed context and state, and the time after it. Mutexes, logging and the
  scheduler thread are not modelled.
\<close>

section \<open>State and operations\<close>

type_synonym ptr = nat
type_synonym sched_cb = nat

record sched =
  sched_id :: int
  sched_when :: timeval
  resched :: int
  variable :: bool
  sched_data :: ptr
  callback :: sched_cb

record sched_context =
  eventcnt :: u32
  schedcnt :: nat
  highwater :: nat
  schedq_ht :: "sched tris_hashtab"
  sched_heap :: "sched tris_heap"
  schedc :: "sched list"
  schedccnt :: nat

record allocs =
  al_sched :: bool
  al_heap :: bool
  al_cell :: bool
  al_array :: bool

definition SCHED_MAX_CACHE :: nat where
  "SCHED_MAX_CACHE = 128"

definition sched_cmp :: "sched \<Rightarrow> sched \<Rightarrow> int" where
  "sched_cmp a b = (if sched_id a \<noteq> sched_id b then 1 else 0)"

definition sched_hash :: "sched \<Rightarrow> u32" where
  "sched_hash s = word_of_int (sched_id s)"

definition sched_time_cmp :: "sched \<Rightarrow> sched \<Rightarrow> int" where
  "sched_time_cmp a b = tris_tvcmp (sched_when b) (sched_when a)"

text \<open>The boolean says whether the three allocations (context, hash table, heap) succeed.\<close>

definition sched_context_create :: "bool \<Rightarrow> sched_context option" where
  "sched_context_create ok =
     (case (tris_hashtab_create 23 sched_cmp (Some Resize_java) (Some Newsize_java) sched_hash ok,
            tris_heap_create 8 (Some sched_time_cmp) 0 ok) of
        (Some ht, Some hp) \<Rightarrow>
          Some \<lparr>eventcnt = 1, schedcnt = 0, highwater = 0, schedq_ht = ht, sched_heap = hp,
                schedc = [], schedccnt = 0\<rparr>
      | _ \<Rightarrow> None)"

definition sched_alloc :: "sched_context \<Rightarrow> bool \<Rightarrow> bool \<times> sched_context" where
  "sched_alloc con ok =
     (case schedc con of
        tmp # cs \<Rightarrow> (True, con\<lparr>schedc := cs, schedccnt := schedccnt con - 1\<rparr>)
      | [] \<Rightarrow> (ok, con))"

definition sched_release :: "sched_context \<Rightarrow> sched \<Rightarrow> sched_context" where
  "sched_release con tmp =
     (if schedccnt con < SCHED_MAX_CACHE
      then con\<lparr>schedc := tmp # schedc con, schedccnt := schedccnt con + 1\<rparr>
      else con)"

definition tris_sched_wait :: "sched_context \<Rightarrow> timeval \<Rightarrow> int" where
  "tris_sched_wait con now =
     (case tris_heap_peek (sched_heap con) 1 of
        Some s \<Rightarrow> (let ms = tris_tvdiff_ms (sched_when s) now in if ms < 0 then 0 else ms)
      | None \<Rightarrow> - 1)"

text \<open>The results of the push and of the insertion only produce a log line.\<close>

definition schedule :: "sched_context \<Rightarrow> sched \<Rightarrow> allocs \<Rightarrow> sched_context" where
  "schedule con s al =
     (let con = con\<lparr>sched_heap := snd (tris_heap_push (sched_heap con) s (al_heap al))\<rparr>;
          con = con\<lparr>schedq_ht :=
                  snd (tris_hashtab_insert_safe (schedq_ht con) s (al_cell al) (al_array al))\<rparr>;
          con = con\<lparr>schedcnt := schedcnt con + 1\<rparr>
      in if highwater con < schedcnt con then con\<lparr>highwater := schedcnt con\<rparr> else con)"

text \<open>\<open>when\<close> is passed to an \<open>unsigned int\<close> parameter.\<close>

definition sched_settime :: "timeval \<Rightarrow> int \<Rightarrow> timeval \<Rightarrow> timeval" where
  "sched_settime t when_ms now =
     (let t = (if tris_tvzero t then now else t);
          t = tris_tvadd t (tris_samp2tv (nat (when_ms mod 2 ^ 32)) 1000)
      in if tris_tvcmp t now < 0 then now else t)"

definition tris_sched_add_variable ::
  "sched_context \<Rightarrow> int \<Rightarrow> sched_cb \<Rightarrow> ptr \<Rightarrow> bool \<Rightarrow> timeval \<Rightarrow> allocs \<Rightarrow>
   int \<times> sched_context" where
  "tris_sched_add_variable con when_ms cb dat vari now al =
     (case sched_alloc con (al_sched al) of
        (False, con) \<Rightarrow> (- 1, con)
      | (True, con) \<Rightarrow>
          (let tmp = \<lparr>sched_id = sint (eventcnt con),
                      sched_when = sched_settime (tris_tv 0 0) when_ms now,
                      resched = when_ms, variable = vari, sched_data = dat, callback = cb\<rparr>;
               con = con\<lparr>eventcnt := eventcnt con + 1\<rparr>
           in (sched_id tmp, schedule con tmp al)))"

definition tris_sched_add ::
  "sched_context \<Rightarrow> int \<Rightarrow> sched_cb \<Rightarrow> ptr \<Rightarrow> timeval \<Rightarrow> allocs \<Rightarrow> int \<times> sched_context" where
  "tris_sched_add con when_ms cb dat now al = tris_sched_add_variable con when_ms cb dat False now al"

text \<open>The key structure of a lookup: only its \<open>id\<close> is set, and only it is read.\<close>

definition key_sched :: "int \<Rightarrow> sched" where
  "key_sched i = \<lparr>sched_id = i, sched_when = tris_tv 0 0, resched = 0, variable = False,
                  sched_data = 0, callback = 0\<rparr>"

definition sched_lookup :: "sched_context \<Rightarrow> int \<Rightarrow> sched option" where
  "sched_lookup con i = tris_hashtab_lookup (schedq_ht con) (key_sched i)"

text \<open>\<open>NULL\<close> (0) for an unknown event.\<close>

definition tris_sched_find_data :: "sched_context \<Rightarrow> int \<Rightarrow> ptr" where
  "tris_sched_find_data con i = (case sched_lookup con i of Some s \<Rightarrow> sched_data s | None \<Rightarrow> 0)"

definition tris_sched_del :: "sched_context \<Rightarrow> int \<Rightarrow> int \<times> sched_context" where
  "tris_sched_del con i =
     (case sched_lookup con i of
        Some s \<Rightarrow>
          (let con = con\<lparr>sched_heap := snd (tris_heap_remove (sched_heap con) s)\<rparr>;
               con = con\<lparr>schedq_ht := snd (tris_hashtab_remove_this_object (schedq_ht con) s)\<rparr>;
               con = con\<lparr>schedcnt := schedcnt con - 1\<rparr>
           in (0, sched_release con s))
      | None \<Rightarrow> (- 1, con))"

text \<open>The macro \<open>TRIS_SCHED_DEL\<close>: up to ten attempts at deleting a non-negative id.\<close>

fun sched_del_loop :: "nat \<Rightarrow> sched_context \<Rightarrow> int \<Rightarrow> int \<times> sched_context" where
  "sched_del_loop 0 con i = (- 1, con)"
| "sched_del_loop (Suc n) con i =
     (if - 1 < i
      then (case tris_sched_del con i of
              (res, con) \<Rightarrow> if res \<noteq> 0 \<and> 0 < n then sched_del_loop n con i else (res, con))
      else (- 1, con))"

definition TRIS_SCHED_DEL :: "sched_context \<Rightarrow> int \<Rightarrow> int \<times> sched_context" where
  "TRIS_SCHED_DEL con i = sched_del_loop 10 con i"

definition tris_sched_replace_variable ::
  "int \<Rightarrow> sched_context \<Rightarrow> int \<Rightarrow> sched_cb \<Rightarrow> ptr \<Rightarrow> bool \<Rightarrow> timeval \<Rightarrow> allocs \<Rightarrow>
   int \<times> sched_context" where
  "tris_sched_replace_variable old_id con when_ms cb dat vari now al =
     (let con = (if 0 < old_id then snd (TRIS_SCHED_DEL con old_id) else con)
      in tris_sched_add_variable con when_ms cb dat vari now al)"

definition tris_sched_replace ::
  "int \<Rightarrow> sched_context \<Rightarrow> int \<Rightarrow> sched_cb \<Rightarrow> ptr \<Rightarrow> timeval \<Rightarrow> allocs \<Rightarrow>
   int \<times> sched_context" where
  "tris_sched_replace old_id con when_ms cb dat now al =
     (let con = (if - 1 < old_id then snd (TRIS_SCHED_DEL con old_id) else con)
      in tris_sched_add con when_ms cb dat now al)"

definition tris_sched_when :: "sched_context \<Rightarrow> int \<Rightarrow> timeval \<Rightarrow> int" where
  "tris_sched_when con i now =
     (case sched_lookup con i of Some s \<Rightarrow> tv_sec (sched_when s) - tv_sec now | None \<Rightarrow> - 1)"

text \<open>The callbacks; \<open>'w\<close> is the state of the rest of the program.\<close>

type_synonym 'w sched_env = "sched_cb \<Rightarrow> ptr \<Rightarrow> sched_context \<Rightarrow> 'w \<Rightarrow> int \<times> sched_context \<times> 'w \<times> timeval"

text \<open>One round of the loop of \<open>tris_sched_runq\<close>: \<open>None\<close> when the loop is left.\<close>

definition runq_step ::
  "'w sched_env \<Rightarrow> allocs \<Rightarrow> timeval \<Rightarrow> sched_context \<Rightarrow> 'w \<Rightarrow> (sched_context \<times> 'w) option" where
  "runq_step env al limit con w =
     (case tris_heap_peek (sched_heap con) 1 of
        None \<Rightarrow> None
      | Some cur \<Rightarrow>
          if tris_tvcmp (sched_when cur) limit \<noteq> - 1 then None
          else (let con = con\<lparr>sched_heap := snd (tris_heap_pop (sched_heap con))\<rparr>;
                    con = con\<lparr>schedq_ht := snd (tris_hashtab_remove_this_object (schedq_ht con) cur)\<rparr>;
                    con = con\<lparr>schedcnt := schedcnt con - 1\<rparr>
                in case env (callback cur) (sched_data cur) con w of
                     (res, con, w, now) \<Rightarrow>
                       Some (if res \<noteq> 0
                             then schedule con (cur\<lparr>sched_when := sched_settime (sched_when cur)
                                    (if variable cur then res else resched cur) now\<rparr>) al
                             else sched_release con cur, w)))"

partial_function (option) runq_loop ::
  "'w sched_env \<Rightarrow> allocs \<Rightarrow> timeval \<Rightarrow> nat \<Rightarrow> sched_context \<Rightarrow> 'w \<Rightarrow> (nat \<times> sched_context \<times> 'w) option" where
  "runq_loop env al limit numevents con w =
     (case runq_step env al limit con w of
        None \<Rightarrow> Some (numevents, con, w)
      | Some (con', w') \<Rightarrow> runq_loop env al limit (numevents + 1) con' w')"

definition tris_sched_runq ::
  "'w sched_env \<Rightarrow> allocs \<Rightarrow> timeval \<Rightarrow> sched_context \<Rightarrow> 'w \<Rightarrow> (nat \<times> sched_context \<times> 'w) option" where
  "tris_sched_runq env al now con w =
     runq_loop env al (tris_tvadd now (tris_tv 0 1000)) 0 con w"

text \<open>Destruction pops and frees every event; the list is the order in which they are freed.\<close>

definition sched_context_destroy :: "sched_context \<Rightarrow> sched list" where
  "sched_context_destroy con =
     schedc con @ drain tris_heap_pop (Suc (cur_len (sched_heap con))) (sched_heap con)"

section \<open>The two containers' contracts, for events\<close>

interpretation sched_time: comparator sched_time_cmp
  by unfold_locales (auto simp: sched_time_cmp_def tris_tvcmp_def split: if_splits)

interpretation sched_key: hash_key sched_cmp sched_hash
  by unfold_locales (auto simp: sched_cmp_def sched_hash_def split: if_splits)

lemma sched_cmp_zero [simp]: "sched_cmp a b = 0 \<longleftrightarrow> sched_id a = sched_id b"
  by (simp add: sched_cmp_def)

lemma key_sched_id [simp]: "sched_id (key_sched i) = i"
  by (simp add: key_sched_def)

section \<open>Invariant\<close>

definition queue :: "sched_context \<Rightarrow> sched set" where
  "queue con = set (tab_objs (schedq_ht con))"

text \<open>Both containers hold the same events, the counters count them, and the numbers in use lie
  between 1 and the next number. A context is young while fewer than \<open>2 ^ 31\<close> numbers have
  been given out: after that the \<open>int\<close> ids would repeat.\<close>

definition sched_inv :: "sched_context \<Rightarrow> bool" where
  "sched_inv con \<longleftrightarrow>
     heap_queue_inv sched_time_cmp (sched_heap con) \<and>
     key_table_inv sched_cmp sched_hash (schedq_ht con) \<and>
     heap_mset (sched_heap con) = mset_set (queue con) \<and>
     schedcnt con = card (queue con) \<and> schedcnt con \<le> highwater con \<and>
     (\<forall>s \<in> queue con. 1 \<le> sched_id s \<and> sched_id s < uint (eventcnt con)) \<and>
     1 \<le> uint (eventcnt con) \<and> uint (eventcnt con) \<le> 2 ^ 31"

definition all_ok :: allocs where
  "all_ok = \<lparr>al_sched = True, al_heap = True, al_cell = True, al_array = True\<rparr>"

text \<open>The two containers can grow; an event's own memory may still be refused.\<close>

definition containers_ok :: "allocs \<Rightarrow> bool" where
  "containers_ok al \<longleftrightarrow> al_heap al \<and> al_cell al \<and> al_array al"

lemma all_ok_simps [simp]: "containers_ok all_ok" "al_sched all_ok"
  by (simp_all add: containers_ok_def all_ok_def)

lemma finite_queue [simp]: "finite (queue con)"
  by (simp add: queue_def)

lemma queue_unique:
  assumes "sched_inv con" "s \<in> queue con" "t \<in> queue con" "sched_id s = sched_id t"
  shows "s = t"
  using assms unfolding sched_inv_def key_table_inv_def tab_uniq_def queue_def tab_objs_def by fastforce

lemma lookup_queue:
  assumes "sched_inv con"
  shows "sched_lookup con i = Some s \<longleftrightarrow> s \<in> queue con \<and> sched_id s = i"
  using sched_key.hash_table.t_lookup [of "schedq_ht con" "key_sched i" s] assms
  by (auto simp: sched_lookup_def sched_inv_def queue_def)

lemma lookup_queue_None:
  assumes "sched_inv con"
  shows "sched_lookup con i = None \<longleftrightarrow> (\<forall>s \<in> queue con. sched_id s \<noteq> i)"
  using lookup_queue [OF assms] by (metis not_None_eq)

lemma card_queue:
  assumes "sched_inv con"
  shows "card (queue con) < 2 ^ 31"
proof -
  have "inj_on sched_id (queue con)" using queue_unique [OF assms] by (auto simp: inj_on_def)
  moreover have "sched_id ` queue con \<subseteq> {1..<2 ^ 31}" using assms by (fastforce simp: sched_inv_def)
  ultimately have "card (queue con) \<le> card {1..<(2::int) ^ 31}"
    using card_inj_on_le [of sched_id "queue con"] by blast
  then show ?thesis by simp
qed

lemma push_True: "\<exists>h'. tris_heap_push h e True = (0, h')"
  by (simp add: push_cases Let_def)

text \<open>Adding an event of an unused number below the next one.\<close>

lemma schedule_inv:
  assumes al: "containers_ok al" and inv: "sched_inv con" and new: "\<forall>t \<in> queue con. sched_id t \<noteq> sched_id s"
    and rng: "1 \<le> sched_id s" "sched_id s < uint (eventcnt con)"
  shows "sched_inv (schedule con s al)" "queue (schedule con s al) = insert s (queue con)"
    "eventcnt (schedule con s al) = eventcnt con"
proof -
  let ?h = "sched_heap con" and ?t = "schedq_ht con"
  have hq: "heap_queue_inv sched_time_cmp ?h" and ht: "key_table_inv sched_cmp sched_hash ?t"
    and hm: "heap_mset ?h = mset_set (queue con)" using inv by (auto simp: sched_inv_def)
  obtain h' where h': "tris_heap_push ?h s True = (0, h')"
    using push_True [of ?h s] by (elim exE)
  have sn: "s \<notin> queue con" using new by auto
  have "s \<notin># heap_mset ?h" using sn hm by simp
  then have a: "heap_queue_inv sched_time_cmp h'" "heap_mset h' = add_mset s (heap_mset ?h)"
    using sched_time.heap_queue.q_push [OF hq _ h'] by auto
  have "\<forall>y \<in> set (tab_objs ?t). sched_cmp s y \<noteq> 0"
    unfolding sched_cmp_zero using new by (metis queue_def)
  from sched_key.hash_table.t_insert [OF ht this]
  obtain t' where t': "tris_hashtab_insert_safe ?t s True True = (1, t')"
    "key_table_inv sched_cmp sched_hash t'" "set (tab_objs t') = insert s (set (tab_objs ?t))" by blast
  have e: "schedule con s al =
      con\<lparr>sched_heap := h', schedq_ht := t', schedcnt := schedcnt con + 1,
          highwater := max (highwater con) (schedcnt con + 1)\<rparr>"
    by (simp add: schedule_def al [unfolded containers_ok_def] h' t'(1) Let_def max_def)
  show q: "queue (schedule con s al) = insert s (queue con)"
    by (simp add: e queue_def t'(3))
  show "eventcnt (schedule con s al) = eventcnt con" by (simp add: e)
  show "sched_inv (schedule con s al)"
    using inv a t'(2) hm sn rng unfolding sched_inv_def q by (auto simp: e)
qed

lemma release_fields [simp]:
  "sched_heap (sched_release con s) = sched_heap con" "schedq_ht (sched_release con s) = schedq_ht con"
  "schedcnt (sched_release con s) = schedcnt con" "highwater (sched_release con s) = highwater con"
  "eventcnt (sched_release con s) = eventcnt con"
  by (simp_all add: sched_release_def)

lemma release_inv [simp]:
  "sched_inv (sched_release con s) = sched_inv con" "queue (sched_release con s) = queue con"
  by (simp_all add: sched_inv_def queue_def)

text \<open>Taking an event out of both containers.\<close>

definition unqueue :: "sched_context \<Rightarrow> sched \<Rightarrow> sched tris_heap \<Rightarrow> sched_context" where
  "unqueue con s h' =
     con\<lparr>sched_heap := h', schedq_ht := snd (tris_hashtab_remove_this_object (schedq_ht con) s),
         schedcnt := schedcnt con - 1\<rparr>"

lemma unqueue_inv:
  assumes inv: "sched_inv con" and s: "s \<in> queue con"
    and h': "heap_queue_inv sched_time_cmp h'" "heap_mset h' = heap_mset (sched_heap con) - {#s#}"
  shows "sched_inv (unqueue con s h')" "queue (unqueue con s h') = queue con - {s}"
    "eventcnt (unqueue con s h') = eventcnt con"
proof -
  let ?t = "schedq_ht con"
  have ht: "key_table_inv sched_cmp sched_hash ?t" using inv by (simp add: sched_inv_def)
  obtain t' where t': "tris_hashtab_remove_this_object ?t s = (Some s, t')"
    "key_table_inv sched_cmp sched_hash t'" "set (tab_objs t') = set (tab_objs ?t) - {s}"
    using sched_key.hash_table.t_remove [OF ht] s by (auto simp: queue_def)
  show q: "queue (unqueue con s h') = queue con - {s}"
    by (simp add: unqueue_def queue_def t')
  show "eventcnt (unqueue con s h') = eventcnt con" by (simp add: unqueue_def)
  have "mset_set (queue con) - {#s#} = mset_set (queue con - {s})"
    using s by (simp add: mset_set_Diff)
  then show "sched_inv (unqueue con s h')"
    using inv h' t'(2) s unfolding sched_inv_def q by (auto simp: unqueue_def t'(1))
qed

section \<open>The operations keep the invariant\<close>

lemma create_inv_sched:
  assumes "sched_context_create True = Some con"
  shows "sched_inv con" "queue con = {}"
proof -
  obtain ht hp where t: "tris_hashtab_create 23 sched_cmp (Some Resize_java) (Some Newsize_java) sched_hash True = Some ht"
    and h: "tris_heap_create 8 (Some sched_time_cmp) 0 True = Some hp"
    and con: "con = \<lparr>eventcnt = 1, schedcnt = 0, highwater = 0, schedq_ht = ht, sched_heap = hp,
                schedc = [], schedccnt = 0\<rparr>"
    using assms by (auto simp: sched_context_create_def split: option.splits)
  have "tab_inv ht" "tab_objs ht = []" using create_tab_inv [OF t] by auto
  moreover from t have "compare ht = sched_cmp" "hash ht = sched_hash"
    by (auto simp: tris_hashtab_create_def Let_def)
  moreover have "heap_inv sched_time_cmp hp" "heap_mset hp = {#}" using create_inv [OF h] by auto
  moreover from h have "index_offset hp = 0" by (auto simp: tris_heap_create_def Let_def)
  ultimately show "sched_inv con" "queue con = {}"
    by (auto simp: sched_inv_def con queue_def key_table_inv_def tab_uniq_def tab_objs_def heap_queue_inv_def)
qed

lemma alloc_fields:
  assumes "sched_alloc con ok = (r, con')"
  shows "sched_heap con' = sched_heap con" "schedq_ht con' = schedq_ht con" "eventcnt con' = eventcnt con"
    "schedcnt con' = schedcnt con" "highwater con' = highwater con" "ok \<Longrightarrow> r"
  using assms by (auto simp: sched_alloc_def split: list.splits)

lemma add_inv:
  assumes al: "containers_ok al" "al_sched al" and inv: "sched_inv con" and young: "uint (eventcnt con) < 2 ^ 31"
    and add: "tris_sched_add_variable con when_ms cb dat vari now al = (i, con')"
  shows "sched_inv con'" "i = uint (eventcnt con)" "uint (eventcnt con') = uint (eventcnt con) + 1"
    "queue con' = insert \<lparr>sched_id = i, sched_when = sched_settime (tris_tv 0 0) when_ms now,
        resched = when_ms, variable = vari, sched_data = dat, callback = cb\<rparr> (queue con)"
proof -
  obtain r con1 where a: "sched_alloc con (al_sched al) = (r, con1)" by (metis surjective_pairing)
  note f = alloc_fields [OF a]
  define con2 where "con2 = con1\<lparr>eventcnt := eventcnt con1 + 1\<rparr>"
  let ?i = "sint (eventcnt con)"
  let ?s = "\<lparr>sched_id = ?i, sched_when = sched_settime (tris_tv 0 0) when_ms now,
        resched = when_ms, variable = vari, sched_data = dat, callback = cb\<rparr>"
  have si: "?i = uint (eventcnt con)"
    using young signed_take_bit_int_eq_self [of 31 "uint (eventcnt con)"]
      order_trans [OF _ uint_ge_0 [of "eventcnt con"], of "- (2 ^ 31)"] by (simp add: sint_uint)
  have ev: "uint (eventcnt con + 1) = uint (eventcnt con) + 1"
    using young by (simp add: uint_word_ariths)
  have c: "i = ?i" "con' = schedule con2 ?s al"
    using add f(3) f(6) a al(2) by (auto simp: tris_sched_add_variable_def con2_def Let_def split: if_splits)
  have q: "queue con2 = queue con" by (simp add: queue_def con2_def f)
  have i2: "sched_inv con2"
    using inv ev young q by (auto simp: sched_inv_def con2_def f)
  have new: "\<forall>t \<in> queue con2. sched_id t \<noteq> sched_id ?s"
    using inv q si by (fastforce simp: sched_inv_def)
  have rng: "1 \<le> sched_id ?s" "sched_id ?s < uint (eventcnt con2)"
    using inv ev si by (auto simp: sched_inv_def con2_def f)
  note s = schedule_inv [OF al(1) i2 new rng]
  show "sched_inv con'" using s(1) c by simp
  show "i = uint (eventcnt con)" using c si by simp
  show "uint (eventcnt con') = uint (eventcnt con) + 1"
    using s(3) c ev f(3) by (simp add: con2_def)
  show "queue con' = insert \<lparr>sched_id = i, sched_when = sched_settime (tris_tv 0 0) when_ms now,
        resched = when_ms, variable = vari, sched_data = dat, callback = cb\<rparr> (queue con)"
    using s(2) c q by simp
qed

text \<open>Without memory for the event nothing happens; a structure from the cache makes up for it.\<close>

lemma add_refused:
  assumes "tris_sched_add_variable con when_ms cb dat vari now al = (i, con')"
  shows "i = - 1 \<and> con' = con \<or> tris_sched_add_variable con when_ms cb dat vari now (al\<lparr>al_sched := True\<rparr>) = (i, con')"
proof -
  have "schedule c s (al\<lparr>al_sched := True\<rparr>) = schedule c s al" for c s by (simp add: schedule_def)
  then show ?thesis
    using assms by (cases "schedc con"; cases "al_sched al") (auto simp: tris_sched_add_variable_def sched_alloc_def Let_def)
qed

lemma add_any:
  assumes al: "containers_ok al" and inv: "sched_inv con" and young: "uint (eventcnt con) < 2 ^ 31"
    and add: "tris_sched_add_variable con when_ms cb dat vari now al = (i, con')"
  shows "sched_inv con'" "uint (eventcnt con) \<le> uint (eventcnt con')" "uint (eventcnt con') \<le> uint (eventcnt con) + 1"
    "\<forall>s \<in> queue con'. s \<in> queue con \<or> sched_id s = uint (eventcnt con)"
proof -
  consider (refused) "con' = con"
    | (added) "tris_sched_add_variable con when_ms cb dat vari now (al\<lparr>al_sched := True\<rparr>) = (i, con')"
    using add_refused [OF add] by blast
  note c = this
  have ok: "containers_ok (al\<lparr>al_sched := True\<rparr>)" "al_sched (al\<lparr>al_sched := True\<rparr>)"
    using al by (simp_all add: containers_ok_def)
  show "sched_inv con'" by (cases rule: c) (use inv add_inv(1) [OF ok inv young] in auto)
  show "uint (eventcnt con) \<le> uint (eventcnt con')" "uint (eventcnt con') \<le> uint (eventcnt con) + 1"
    by (cases rule: c; use add_inv(3) [OF ok inv young] in fastforce)+
  show "\<forall>s \<in> queue con'. s \<in> queue con \<or> sched_id s = uint (eventcnt con)"
    by (cases rule: c) (use add_inv(2,4) [OF ok inv young] in auto)
qed

lemma del_cases:
  assumes inv: "sched_inv con"
  shows "case tris_sched_del con i of
      (res, con') \<Rightarrow> sched_inv con' \<and> eventcnt con' = eventcnt con \<and>
        (res = 0 \<and> (\<exists>s. s \<in> queue con \<and> sched_id s = i \<and> queue con' = queue con - {s}) \<or>
         res = - 1 \<and> con' = con \<and> (\<forall>s \<in> queue con. sched_id s \<noteq> i))"
proof (cases "sched_lookup con i")
  case None
  then have "\<forall>s \<in> queue con. sched_id s \<noteq> i" using lookup_queue_None [OF inv] by blast
  then show ?thesis using None inv by (simp add: tris_sched_del_def)
next
  case (Some s)
  then have s: "s \<in> queue con" "sched_id s = i" using lookup_queue [OF inv] by auto
  have hq: "heap_queue_inv sched_time_cmp (sched_heap con)" "s \<in># heap_mset (sched_heap con)"
    using inv s by (auto simp: sched_inv_def)
  have sz: "size (heap_mset (sched_heap con)) < 2 ^ 32"
    using inv card_queue [OF inv] by (auto simp: sched_inv_def)
  from sched_time.heap_queue.q_remove [OF hq sz]
  obtain h' where h': "tris_heap_remove (sched_heap con) s = (Some s, h')"
    "heap_queue_inv sched_time_cmp h'" "heap_mset h' = heap_mset (sched_heap con) - {#s#}" by blast
  note u = unqueue_inv [OF inv s(1) h'(2,3)]
  have "tris_sched_del con i = (0, sched_release (unqueue con s h') s)"
    using Some h'(1) by (simp add: tris_sched_del_def unqueue_def Let_def)
  then show ?thesis using u s by auto
qed

lemma runq_step_cases:
  assumes inv: "sched_inv con"
  shows "case tris_heap_peek (sched_heap con) 1 of
      None \<Rightarrow> queue con = {} \<and> runq_step env al limit con w = None
    | Some cur \<Rightarrow> cur \<in> queue con \<and> (\<forall>s \<in> queue con. tris_tvcmp (sched_when cur) (sched_when s) \<le> 0) \<and>
        (\<exists>h'. sched_inv (unqueue con cur h') \<and> queue (unqueue con cur h') = queue con - {cur} \<and>
          eventcnt (unqueue con cur h') = eventcnt con \<and>
          runq_step env al limit con w =
            (if tris_tvcmp (sched_when cur) limit \<noteq> - 1 then None
             else case env (callback cur) (sched_data cur) (unqueue con cur h') w of
               (res, con1, w1, now) \<Rightarrow>
                 Some (if res \<noteq> 0
                       then schedule con1 (cur\<lparr>sched_when := sched_settime (sched_when cur)
                              (if variable cur then res else resched cur) now\<rparr>) al
                       else sched_release con1 cur, w1)))"
proof (cases "queue con = {}")
  case True
  have "heap_queue_inv sched_time_cmp (sched_heap con)" "heap_mset (sched_heap con) = {#}"
    using inv True by (auto simp: sched_inv_def)
  from sched_time.heap_queue.q_empty [OF this] show ?thesis using True by (simp add: runq_step_def)
next
  case False
  have hq: "heap_queue_inv sched_time_cmp (sched_heap con)" "heap_mset (sched_heap con) \<noteq> {#}"
    and hm: "heap_mset (sched_heap con) = mset_set (queue con)"
    using inv False by (auto simp: sched_inv_def mset_set_empty_iff)
  from sched_time.heap_queue.q_pop [OF hq] obtain cur h' where
    p: "tris_heap_peek (sched_heap con) 1 = Some cur" "tris_heap_pop (sched_heap con) = (Some cur, h')"
    "heap_queue_inv sched_time_cmp h'" "cur \<in># heap_mset (sched_heap con)"
    "heap_mset h' = heap_mset (sched_heap con) - {#cur#}"
    "\<forall>x. x \<in># heap_mset (sched_heap con) \<longrightarrow> 0 \<le> sched_time_cmp cur x" by blast
  have cq: "cur \<in> queue con" using p(4) hm by simp
  have "0 \<le> sched_time_cmp cur s \<Longrightarrow> tris_tvcmp (sched_when cur) (sched_when s) \<le> 0" for s
    by (auto simp: sched_time_cmp_def tris_tvcmp_def split: if_splits)
  then have "\<forall>s \<in> queue con. tris_tvcmp (sched_when cur) (sched_when s) \<le> 0"
    using p(6) hm by simp
  moreover note unqueue_inv [OF inv cq p(3,5)]
  ultimately show ?thesis
    using p(1,2) cq by (auto simp: runq_step_def unqueue_def Let_def intro!: exI [of _ h'])
qed

section \<open>Callbacks that use the scheduler\<close>

text \<open>A callback may schedule and delete events; here is what it did, as a list of calls.\<close>

datatype sched_call =
    Call_add int sched_cb ptr bool timeval allocs
  | Call_del int

fun run_calls :: "sched_call list \<Rightarrow> sched_context \<Rightarrow> sched_context" where
  "run_calls [] con = con"
| "run_calls (Call_add when_ms cb dat vari now al # cs) con =
     run_calls cs (snd (tris_sched_add_variable con when_ms cb dat vari now al))"
| "run_calls (Call_del i # cs) con = run_calls cs (snd (tris_sched_del con i))"

fun adds :: "sched_call list \<Rightarrow> nat" where
  "adds [] = 0"
| "adds (Call_add _ _ _ _ _ _ # cs) = Suc (adds cs)"
| "adds (Call_del _ # cs) = adds cs"

fun calls_ok :: "sched_call list \<Rightarrow> bool" where
  "calls_ok [] \<longleftrightarrow> True"
| "calls_ok (Call_add _ _ _ _ _ al # cs) \<longleftrightarrow> containers_ok al \<and> calls_ok cs"
| "calls_ok (Call_del _ # cs) \<longleftrightarrow> calls_ok cs"

text \<open>The environment in which callback \<open>cb\<close> with data \<open>d\<close> makes the calls \<open>beh cb d\<close>, then
  returns its result at the given time.\<close>

definition env_of :: "(sched_cb \<Rightarrow> ptr \<Rightarrow> sched_call list \<times> int \<times> timeval) \<Rightarrow> unit sched_env" where
  "env_of beh cb d con w = (case beh cb d of (cs, res, now) \<Rightarrow> (res, run_calls cs con, w, now))"

lemma run_calls_inv:
  "sched_inv con \<Longrightarrow> uint (eventcnt con) + int (adds cs) \<le> 2 ^ 31 \<Longrightarrow> calls_ok cs \<Longrightarrow>
   (\<forall>t \<in> queue con. sched_id t \<noteq> i) \<Longrightarrow> i < uint (eventcnt con) \<Longrightarrow>
   sched_inv (run_calls cs con) \<and> (\<forall>t \<in> queue (run_calls cs con). sched_id t \<noteq> i) \<and>
   uint (eventcnt con) \<le> uint (eventcnt (run_calls cs con))"
proof (induction cs arbitrary: con)
  case (Cons c cs)
  show ?case
  proof (cases c)
    case (Call_add when_ms cb dat vari now al)
    obtain j con' where a: "tris_sched_add_variable con when_ms cb dat vari now al = (j, con')"
      by (metis surjective_pairing)
    have y: "uint (eventcnt con) < 2 ^ 31" and al: "containers_ok al" "calls_ok cs" using Cons.prems Call_add by simp_all
    note s = add_any [OF al(1) Cons.prems(1) y a]
    have "\<forall>t \<in> queue con'. sched_id t \<noteq> i" using s(4) Cons.prems(4,5) by fastforce
    then have "sched_inv (run_calls cs con') \<and> (\<forall>t \<in> queue (run_calls cs con'). sched_id t \<noteq> i) \<and>
        uint (eventcnt con') \<le> uint (eventcnt (run_calls cs con'))"
      using Cons.prems s al(2) Call_add by (intro Cons.IH) auto
    then show ?thesis using s(2) Call_add a by simp
  next
    case (Call_del j)
    obtain r con' where d: "tris_sched_del con j = (r, con')" by (metis surjective_pairing)
    have s: "sched_inv con'" "eventcnt con' = eventcnt con" "queue con' \<subseteq> queue con"
      using del_cases [OF Cons.prems(1), of j] d by auto
    have "sched_inv (run_calls cs con') \<and> (\<forall>t \<in> queue (run_calls cs con'). sched_id t \<noteq> i) \<and>
        uint (eventcnt con') \<le> uint (eventcnt (run_calls cs con'))"
      using Cons.prems s Call_del by (intro Cons.IH) auto
    then show ?thesis using s(2) Call_del d by simp
  qed
qed simp

lemma runq_step_inv:
  assumes al: "containers_ok al" and inv: "sched_inv con"
    and step: "runq_step (env_of beh) al limit con () = Some (con', w')"
    and young: "\<And>cb d. uint (eventcnt con) + int (adds (fst (beh cb d))) \<le> 2 ^ 31"
    and calls: "\<And>cb d. calls_ok (fst (beh cb d))"
  shows "sched_inv con'"
proof -
  obtain cur h' where p: "tris_heap_peek (sched_heap con) 1 = Some cur" and c: "cur \<in> queue con"
    and u: "sched_inv (unqueue con cur h')" "queue (unqueue con cur h') = queue con - {cur}"
      "eventcnt (unqueue con cur h') = eventcnt con"
    and st: "Some (con', w') = (case env_of beh (callback cur) (sched_data cur) (unqueue con cur h') () of
               (res, con1, w1, now) \<Rightarrow>
                 Some (if res \<noteq> 0
                       then schedule con1 (cur\<lparr>sched_when := sched_settime (sched_when cur)
                              (if variable cur then res else resched cur) now\<rparr>) al
                       else sched_release con1 cur, w1))"
    using runq_step_cases [OF inv, of "env_of beh" al limit "()"] step
    by (auto split: option.splits if_splits)
  obtain cs res now where b: "beh (callback cur) (sched_data cur) = (cs, res, now)" by (metis prod_cases3)
  have new: "\<forall>t \<in> queue (unqueue con cur h'). sched_id t \<noteq> sched_id cur"
    using u(2) queue_unique [OF inv _ c] by auto
  have rng: "1 \<le> sched_id cur" "sched_id cur < uint (eventcnt con)" using inv c by (auto simp: sched_inv_def)
  let ?con1 = "run_calls cs (unqueue con cur h')"
  have r: "sched_inv ?con1" "\<forall>t \<in> queue ?con1. sched_id t \<noteq> sched_id cur"
      "uint (eventcnt con) \<le> uint (eventcnt ?con1)"
    using run_calls_inv [OF u(1) _ _ new, of cs] young [of "callback cur" "sched_data cur"]
      calls [of "callback cur" "sched_data cur"] b rng u(3) by auto
  let ?s = "cur\<lparr>sched_when := sched_settime (sched_when cur) (if variable cur then res else resched cur) now\<rparr>"
  have "sched_inv (schedule ?con1 ?s al)"
    using r rng by (intro schedule_inv(1) [OF al]) auto
  then show ?thesis using st r(1) by (simp add: env_of_def b split: if_splits)
qed

section \<open>Properties\<close>

text \<open>The contexts a program can reach while fewer than \<open>2 ^ 31\<close> events have been created and the two
  containers can always grow: creation, scheduling, deletion, replacement, and the rounds of \<open>tris_sched_runq\<close> with
  callbacks that themselves schedule and delete. The memory for an event may be refused.\<close>

inductive sched_reach :: "sched_context \<Rightarrow> bool" where
  reach_create: "sched_context_create True = Some con \<Longrightarrow> sched_reach con"
| reach_add: "sched_reach con \<Longrightarrow> uint (eventcnt con) < 2 ^ 31 \<Longrightarrow> containers_ok al \<Longrightarrow>
    sched_reach (snd (tris_sched_add_variable con when_ms cb dat vari now al))"
| reach_del: "sched_reach con \<Longrightarrow> sched_reach (snd (tris_sched_del con i))"
| reach_macro: "sched_reach con \<Longrightarrow> sched_reach (snd (TRIS_SCHED_DEL con i))"
| reach_replace: "sched_reach con \<Longrightarrow> uint (eventcnt con) < 2 ^ 31 \<Longrightarrow> containers_ok al \<Longrightarrow>
    sched_reach (snd (tris_sched_replace old con when_ms cb dat now al))"
| reach_round: "sched_reach con \<Longrightarrow> containers_ok al \<Longrightarrow> runq_step (env_of beh) al limit con () = Some (con', w) \<Longrightarrow>
    (\<And>cb d. uint (eventcnt con) + int (adds (fst (beh cb d))) \<le> 2 ^ 31) \<Longrightarrow> (\<And>cb d. calls_ok (fst (beh cb d))) \<Longrightarrow>
    sched_reach con'"

lemma del_inv: "sched_inv con \<Longrightarrow> sched_inv (snd (tris_sched_del con i)) \<and>
    eventcnt (snd (tris_sched_del con i)) = eventcnt con"
  using del_cases [of con i] by (auto split: prod.splits)

lemma del_loop_inv: "sched_inv con \<Longrightarrow> sched_inv (snd (sched_del_loop n con i)) \<and>
    eventcnt (snd (sched_del_loop n con i)) = eventcnt con"
proof (induction n arbitrary: con)
  case (Suc n)
  obtain r con' where d: "tris_sched_del con i = (r, con')" by (metis surjective_pairing)
  then have "sched_inv con'" "eventcnt con' = eventcnt con" using del_inv [OF Suc.prems, of i] by auto
  then show ?case using Suc d by simp
qed simp

lemma add_variable_inv:
  "containers_ok al \<Longrightarrow> sched_inv con \<Longrightarrow> uint (eventcnt con) < 2 ^ 31 \<Longrightarrow>
   sched_inv (snd (tris_sched_add_variable con when_ms cb dat vari now al))"
  using add_any(1) by (metis surjective_pairing)

text \<open>When the heap cannot grow the push empties it and says so, but \<open>schedule\<close> goes on: the event
  is in the table, and no event is in the heap any more, so that none of them ever becomes due.\<close>

lemma push_failure_loses_heap:
  assumes inv: "sched_inv con" and new: "\<forall>t \<in> queue con. sched_id t \<noteq> sched_id s"
    and full: "cur_len (sched_heap con) = avail_len (sched_heap con)"
    and al: "\<not> al_heap al" "al_cell al" "al_array al"
  shows "queue (schedule con s al) = insert s (queue con) \<and> heap_mset (sched_heap (schedule con s al)) = {#}"
proof -
  let ?t = "schedq_ht con"
  have "key_table_inv sched_cmp sched_hash ?t" using inv by (simp add: sched_inv_def)
  moreover have "\<forall>y \<in> set (tab_objs ?t). sched_cmp s y \<noteq> 0" unfolding sched_cmp_zero using new by (metis queue_def)
  ultimately obtain t' where t': "tris_hashtab_insert_safe ?t s True True = (1, t')"
    "set (tab_objs t') = insert s (set (tab_objs ?t))" using sched_key.hash_table.t_insert by blast
  have p: "snd (tris_heap_push (sched_heap con) s False) = (sched_heap con)\<lparr>heap := [], cur_len := 0, avail_len := 0\<rparr>"
    using full by (simp add: push_cases)
  show ?thesis using al by (auto simp: schedule_def p t'(1) queue_def t'(2) heap_mset_def heap_elems_def Let_def)
qed

text \<open>Claim C14. In every context that is reachable while the two containers can grow and fewer than \<open>2 ^ 31\<close> events
  have been created, the heap and the hash table hold the same events, no two of them share a number, the counters
  are exact and the heap is ordered by due time. The allocation of an event may fail. (The one of the heap
  must not: \<open>push_failure_loses_heap\<close>.)\<close>

theorem sched_reach_inv: "sched_reach con \<Longrightarrow> sched_inv con"
proof (induction rule: sched_reach.induct)
  case (reach_create con)
  then show ?case by (rule create_inv_sched)
next
  case (reach_add con al when_ms cb dat vari now)
  show ?case by (rule add_variable_inv [OF reach_add.hyps(3) reach_add.IH reach_add.hyps(2)])
next
  case (reach_del con i)
  show ?case by (rule del_inv [OF reach_del.IH, THEN conjunct1])
next
  case (reach_macro con i)
  show ?case
    unfolding TRIS_SCHED_DEL_def by (rule del_loop_inv [OF reach_macro.IH, THEN conjunct1])
next
  case (reach_replace con al old when_ms cb dat now)
  note d = del_loop_inv [OF reach_replace.IH, of 10 old]
  have "uint (eventcnt (snd (sched_del_loop 10 con old))) < 2 ^ 31"
    using d reach_replace.hyps(2) by simp
  then show ?case
    unfolding tris_sched_replace_def tris_sched_add_def TRIS_SCHED_DEL_def Let_def
    using add_variable_inv [OF reach_replace.hyps(3) d [THEN conjunct1]]
      add_variable_inv [OF reach_replace.hyps(3) reach_replace.IH reach_replace.hyps(2)]
    by (cases "- 1 < old") (simp_all only: if_True if_False)
next
  case (reach_round con al beh limit con' w)
  show ?case by (rule runq_step_inv [OF reach_round.hyps(2) reach_round.IH reach_round.hyps(3-5)])
qed

definition fresh_context :: sched_context where
  "fresh_context = the (sched_context_create True)"

lemma fresh_context: "sched_context_create True = Some fresh_context"
  by (simp add: fresh_context_def sched_context_create_def tris_hashtab_create_def
      tris_heap_create_def Let_def)

lemma fresh_eventcnt [simp]: "eventcnt fresh_context = 1"
  by (simp add: fresh_context_def sched_context_create_def tris_hashtab_create_def
      tris_heap_create_def Let_def)

theorem sched_reach_inv_witness:
  "sched_inv (snd (tris_sched_add_variable fresh_context 20 1 7 False (tris_tv 100 0) all_ok))"
  by (intro sched_reach_inv reach_add reach_create fresh_context) simp_all

text \<open>Scheduling hands out a fresh number under which the data is found, leaves every
  other event as it was, and deleting that number succeeds once, restores the previous set of
  events, and fails the second time.\<close>

theorem sched_add_find_del:
  assumes "sched_inv con" and "uint (eventcnt con) < 2 ^ 31"
    and "tris_sched_add_variable con when_ms cb dat vari now all_ok = (i, con1)"
    and "tris_sched_del con1 i = (r, con2)"
  shows "tris_sched_find_data con1 i = dat \<and>
         (\<forall>j. j \<noteq> i \<longrightarrow> tris_sched_find_data con1 j = tris_sched_find_data con j) \<and>
         r = 0 \<and> queue con2 = queue con \<and> fst (tris_sched_del con2 i) = - 1"
proof -
  note a = add_inv [OF all_ok_simps assms(1-3)]
  let ?s = "\<lparr>sched_id = i, sched_when = sched_settime (tris_tv 0 0) when_ms now,
        resched = when_ms, variable = vari, sched_data = dat, callback = cb\<rparr>"
  have new: "\<forall>t \<in> queue con. sched_id t \<noteq> i" using assms(1) a(2) by (fastforce simp: sched_inv_def)
  have "sched_lookup con1 i = Some ?s" using lookup_queue [OF a(1)] a(4) by simp
  then have f: "tris_sched_find_data con1 i = dat" by (simp add: tris_sched_find_data_def)
  have g: "sched_lookup con1 j = sched_lookup con j" if "j \<noteq> i" for j
  proof (cases "sched_lookup con j")
    case None
    then have "\<forall>t \<in> queue con1. sched_id t \<noteq> j"
      using lookup_queue_None [OF assms(1), of j] a(4) that by auto
    then show ?thesis using lookup_queue_None [OF a(1), of j] None by simp
  next
    case (Some t)
    then have "t \<in> queue con1" "sched_id t = j" using lookup_queue [OF assms(1)] a(4) by auto
    then show ?thesis using lookup_queue [OF a(1), of j t] Some by simp
  qed
  have d: "r = 0" "queue con2 = queue con" "sched_inv con2"
    using del_cases [OF a(1), of i] assms(4) a(4) new by (auto 0 4)
  have "fst (tris_sched_del con2 i) = - 1"
    using del_cases [OF d(3), of i] new d(2) by (auto split: prod.splits)
  with f g d show ?thesis by (simp add: tris_sched_find_data_def)
qed

theorem sched_add_find_del_witness:
  "\<exists>i con1. tris_sched_add_variable fresh_context 20 1 7 False (tris_tv 100 0) all_ok = (i, con1) \<and>
     tris_sched_find_data con1 i = 7"
proof -
  obtain i con1 where a: "tris_sched_add_variable fresh_context 20 1 7 False (tris_tv 100 0) all_ok = (i, con1)"
    by (metis surjective_pairing)
  obtain r con2 where d: "tris_sched_del con1 i = (r, con2)" by (metis surjective_pairing)
  have "uint (eventcnt fresh_context) < 2 ^ 31" by simp
  from sched_add_find_del [OF create_inv_sched(1) [OF fresh_context] this a d] a show ?thesis by blast
qed

text \<open>\<open>tris_sched_wait\<close> returns \<open>-1\<close> exactly when nothing is scheduled; otherwise
  the milliseconds to an event that no other event precedes, or 0 when it is already due.\<close>

theorem sched_wait_next:
  assumes "sched_inv con"
  shows "if queue con = {} then tris_sched_wait con now = - 1
         else \<exists>s \<in> queue con. (\<forall>t \<in> queue con. tris_tvcmp (sched_when s) (sched_when t) \<le> 0) \<and>
                tris_sched_wait con now = max 0 (tris_tvdiff_ms (sched_when s) now)"
  using runq_step_cases [OF assms, of undefined undefined undefined undefined]
  by (auto simp: tris_sched_wait_def Let_def split: option.splits)

theorem sched_wait_next_witness: "tris_sched_wait fresh_context (tris_tv 5 0) = - 1"
  using sched_wait_next [OF create_inv_sched(1) [OF fresh_context]] create_inv_sched(2) [OF fresh_context]
  by simp


section \<open>Running the queue\<close>

text \<open>Callbacks that leave the scheduler alone and do not ask to be called again; \<open>f\<close> is what they do to
  the rest of the program.\<close>

definition one_shot :: "(sched_cb \<Rightarrow> ptr \<Rightarrow> 'w \<Rightarrow> 'w) \<Rightarrow> timeval \<Rightarrow> 'w sched_env" where
  "one_shot f later cb d con w = (0, con, f cb d w, later)"

definition due :: "timeval \<Rightarrow> sched \<Rightarrow> bool" where
  "due limit s \<longleftrightarrow> tris_tvcmp (sched_when s) limit = - 1"

definition before :: "sched \<Rightarrow> sched \<Rightarrow> bool" where
  "before s t \<longleftrightarrow> tris_tvcmp (sched_when s) (sched_when t) \<le> 0"

lemma due_mono: "before s t \<Longrightarrow> due limit t \<Longrightarrow> due limit s"
  by (auto simp: due_def before_def tris_tvcmp_def split: if_splits)

lemma one_shot_step:
  assumes "sched_inv con"
  shows "if \<exists>s \<in> queue con. due limit s
     then \<exists>cur con'. runq_step (one_shot f later) al limit con w = Some (con', f (callback cur) (sched_data cur) w) \<and>
            cur \<in> queue con \<and> due limit cur \<and> (\<forall>s \<in> queue con. before cur s) \<and>
            sched_inv con' \<and> queue con' = queue con - {cur}
     else runq_step (one_shot f later) al limit con w = None"
proof (cases "tris_heap_peek (sched_heap con) 1")
  case None
  then show ?thesis using runq_step_cases [OF assms, of "one_shot f later" al limit w] by simp
next
  case (Some cur)
  then obtain h' where c: "cur \<in> queue con" "\<forall>s \<in> queue con. before cur s"
    "sched_inv (unqueue con cur h')" "queue (unqueue con cur h') = queue con - {cur}"
    "runq_step (one_shot f later) al limit con w =
       (if \<not> due limit cur then None
        else Some (sched_release (unqueue con cur h') cur, f (callback cur) (sched_data cur) w))"
    using runq_step_cases [OF assms, of "one_shot f later" al limit w] by (auto simp: one_shot_def due_def before_def)
  show ?thesis
  proof (cases "due limit cur")
    case True
    then show ?thesis using c by auto
  next
    case False
    then have "\<not> (\<exists>s \<in> queue con. due limit s)" using c(2) due_mono by blast
    then show ?thesis using c(5) False by simp
  qed
qed

lemma one_shot_loop:
  assumes "sched_inv con"
  shows "\<exists>con' evs. runq_loop (one_shot f later) al limit n con w =
      Some (n + length evs, con', fold (\<lambda>s. f (callback s) (sched_data s)) evs w) \<and>
    distinct evs \<and> set evs = {s \<in> queue con. due limit s} \<and> sorted_wrt before evs \<and>
    sched_inv con' \<and> queue con' = {s \<in> queue con. \<not> due limit s}"
  using assms
proof (induction "card {s \<in> queue con. due limit s}" arbitrary: n con w)
  case 0
  then have d: "{s \<in> queue con. due limit s} = {}" by simp
  then have e: "\<not> (\<exists>s \<in> queue con. due limit s)" by blast
  then have "runq_loop (one_shot f later) al limit n con w = Some (n, con, w)"
    using one_shot_step [OF "0.prems", of limit f later al w] by (simp add: runq_loop.simps)
  moreover have "queue con = {s \<in> queue con. \<not> due limit s}" using e by blast
  ultimately show ?case using "0.prems" d by (intro exI [of _ con] exI [of _ "[]"]) simp
next
  case (Suc k)
  have "{s \<in> queue con. due limit s} \<noteq> {}" using Suc.hyps(2) by (metis card.empty nat.distinct(1))
  then have "\<exists>s \<in> queue con. due limit s" by blast
  then obtain cur con1 where s: "runq_step (one_shot f later) al limit con w = Some (con1, f (callback cur) (sched_data cur) w)"
    "cur \<in> queue con" "due limit cur" "\<forall>s \<in> queue con. before cur s" "sched_inv con1" "queue con1 = queue con - {cur}"
    using one_shot_step [OF Suc.prems, of limit f later al w] by auto
  have d: "{s \<in> queue con1. due limit s} = {s \<in> queue con. due limit s} - {cur}" using s(6) by blast
  have "card {s \<in> queue con1. due limit s} = k" using s(2,3) Suc.hyps(2) unfolding d by simp
  from Suc.hyps(1) [OF this [symmetric] s(5), of "n + 1" "f (callback cur) (sched_data cur) w"]
  obtain con' evs where l: "runq_loop (one_shot f later) al limit (n + 1) con1 (f (callback cur) (sched_data cur) w) =
      Some (n + 1 + length evs, con', fold (\<lambda>s. f (callback s) (sched_data s)) evs (f (callback cur) (sched_data cur) w))"
    "distinct evs" "set evs = {s \<in> queue con1. due limit s}" "sorted_wrt before evs"
    "sched_inv con'" "queue con' = {s \<in> queue con1. \<not> due limit s}" by blast
  have "runq_loop (one_shot f later) al limit n con w =
      Some (n + length (cur # evs), con', fold (\<lambda>s. f (callback s) (sched_data s)) (cur # evs) w)"
    using l(1) s(1) by (simp add: runq_loop.simps [of _ _ _ n])
  moreover have "distinct (cur # evs)" using l(2,3) s(6) by simp
  moreover have "set (cur # evs) = {s \<in> queue con. due limit s}" using l(3) s(2,3) d by auto
  moreover have "sorted_wrt before (cur # evs)" using l(3,4) s(4,6) by simp
  moreover have "queue con' = {s \<in> queue con. \<not> due limit s}" using l(6) s(3,6) by blast
  ultimately show ?case using l(5) by blast
qed

text \<open>Claim C15. With callbacks that leave the scheduler alone and ask for no other call, whatever they do to the
  rest of the program (\<open>f\<close>), \<open>tris_sched_runq\<close> terminates: it has called the callback of every event that is due
  within the next millisecond, and of no other, once and with the event's data, in the order of their due times,
  says how many, and leaves the other events.\<close>

theorem sched_runq_one_shot:
  assumes "sched_inv con" and "limit = tris_tvadd now (tris_tv 0 1000)"
  shows "\<exists>con' evs. tris_sched_runq (one_shot f later) al now con w =
      Some (length evs, con', fold (\<lambda>s. f (callback s) (sched_data s)) evs w) \<and>
    distinct evs \<and> set evs = {s \<in> queue con. tris_tvcmp (sched_when s) limit = - 1} \<and>
    sorted_wrt (\<lambda>s t. tris_tvcmp (sched_when s) (sched_when t) \<le> 0) evs \<and>
    sched_inv con' \<and> queue con' = {s \<in> queue con. tris_tvcmp (sched_when s) limit \<noteq> - 1}"
  using one_shot_loop [OF assms(1), of f later al limit 0 w]
  by (simp add: tris_sched_runq_def assms(2) due_def before_def [abs_def])

text \<open>An event for callback 1 with data 7 that is due at once, and callbacks that are recorded.\<close>

theorem sched_runq_one_shot_witness:
  "\<exists>con'. tris_sched_runq (one_shot (\<lambda>cb d w. w @ [(cb, d)]) (tris_tv 100 0)) all_ok (tris_tv 100 0)
     (snd (tris_sched_add_variable fresh_context 0 1 7 False (tris_tv 100 0) all_ok)) [] = Some (1, con', [(1, 7)])"
proof -
  let ?now = "tris_tv 100 0" and ?limit = "tris_tvadd (tris_tv 100 0) (tris_tv 0 1000)"
  obtain i con where a: "tris_sched_add_variable fresh_context 0 1 7 False ?now all_ok = (i, con)" by (metis surjective_pairing)
  have y: "uint (eventcnt fresh_context) < 2 ^ 31" by simp
  note c = add_inv [OF all_ok_simps create_inv_sched(1) [OF fresh_context] y a]
  let ?s = "\<lparr>sched_id = i, sched_when = sched_settime (tris_tv 0 0) 0 ?now, resched = 0, variable = False,
      sched_data = 7, callback = 1\<rparr>"
  have q: "queue con = {?s}" using c(4) create_inv_sched(2) [OF fresh_context] by simp
  have z: "tris_samp2tv 0 1000 = tris_tv 0 0" by (simp add: tris_samp2tv_def)
  have w: "sched_settime (tris_tv 0 0) 0 ?now = ?now"
    by (simp add: sched_settime_def z tris_tvzero_def tris_tvadd_def tvfix_def tris_tv_def tris_tvcmp_def)
  have l: "?limit = tris_tv 100 1000" by (simp add: tris_tvadd_def tvfix_def tris_tv_def)
  have "tris_tvcmp (sched_when ?s) ?limit = - 1" unfolding w l by (simp add: tris_tvcmp_def tris_tv_def)
  then have due: "{s \<in> queue con. tris_tvcmp (sched_when s) ?limit = - 1} = {?s}" unfolding q by blast
  obtain con' evs where r: "tris_sched_runq (one_shot (\<lambda>cb d w. w @ [(cb, d)]) ?now) all_ok ?now con [] =
      Some (length evs, con', fold (\<lambda>s. (\<lambda>w. w @ [(callback s, sched_data s)])) evs [])" "distinct evs" "set evs = {?s}"
    using sched_runq_one_shot [OF c(1) refl, of "\<lambda>cb d w. w @ [(cb, d)]" ?now all_ok ?now "[]"] due by auto
  have "length evs = 1" using r(2,3) distinct_card [of evs] by simp
  then obtain s where "evs = [s]" by (cases evs) auto
  then have "evs = [?s]" using r(3) by simp
  then show ?thesis using r(1) a by simp
qed

text \<open>The due time of a new event: \<open>when\<close> milliseconds from now for a delay that is
  not negative; but a negative delay is converted to \<open>unsigned int\<close> and puts the event
  nearly \<open>2 ^ 32\<close> milliseconds (49 days) into the future instead of making it due at once.\<close>

theorem sched_settime_new:
  assumes "tv_valid now" and "- (2 ^ 31) \<le> when_ms" and "when_ms < 2 ^ 31"
  shows "tv_us (sched_settime (tris_tv 0 0) when_ms now) =
    tv_us now + 1000 * (if 0 \<le> when_ms then when_ms else 2 ^ 32 + when_ms)"
proof -
  let ?n = "nat (when_ms mod 2 ^ 32)" and ?t = "tris_samp2tv (nat (when_ms mod 2 ^ 32)) 1000"
  have n: "int ?n = (if 0 \<le> when_ms then when_ms else 2 ^ 32 + when_ms)"
  proof (cases "0 \<le> when_ms")
    case True
    then show ?thesis using assms by simp
  next
    case False
    have "when_ms mod 2 ^ 32 = (when_ms + 2 ^ 32) mod 2 ^ 32" by simp
    also have "\<dots> = when_ms + 2 ^ 32" using False assms by (intro mod_pos_pos_trivial) auto
    finally show ?thesis using False assms by simp
  qed
  have s: "tv_valid ?t" "tv_us ?t = 1000 * int ?n" using samp2tv_ms [of ?n] by auto
  have a: "tv_valid (tris_tvadd now ?t)" "tv_us (tris_tvadd now ?t) = tv_us now + 1000 * int ?n"
    using tvadd_us [OF assms(1) s(1)] s(2) by auto
  have "\<not> tris_tvcmp (tris_tvadd now ?t) now < 0"
    using tvcmp_us [OF a(1) assms(1)] a(2) pos_mod_sign [of "2 ^ 32" when_ms] by (auto simp: sgn_if)
  then show ?thesis
    using a(2) n by (simp add: sched_settime_def tris_tvzero_def tris_tv_def Let_def)
qed

theorem sched_settime_new_witness:
  "tv_us (sched_settime (tris_tv 0 0) (- 1) (tris_tv 7 0)) = 7000000 + 1000 * (2 ^ 32 - 1)"
  using sched_settime_new [of "tris_tv 7 0" "- 1"] by (simp add: tv_valid_def tris_tv_def tv_us_def)


end
