(* ===== verification/FixedJB.thy ===== *)
theory FixedJB
  imports Prelude
begin

text \<open>
  The fixed-delay jitter buffer of \<open>main/fixedjitterbuf.c\<close>.

  The doubly linked frame list from \<open>frames\<close> to \<open>tail\<close> is a list of records in
  order; \<open>long\<close> values are unbounded integers (their overflow is undefined in C); a data
  pointer is a number, 0 is \<open>NULL\<close>. \<open>fixed_jb_put\<close>, \<open>resynch_jb\<close> and
  \<open>fixed_jb_put_first\<close> call one another: the model gives them fuel and makes running out of
  it, and failing an \<open>ASSERT\<close>, results of their own; the theorems show that two nested puts
  always suffice and that no assertion fails on valid arguments.
\<close>

section \<open>State and operations\<close>

definition FIXED_JB_SIZE_DEFAULT :: int where "FIXED_JB_SIZE_DEFAULT = 200"

definition FIXED_JB_RESYNCH_THRESHOLD_DEFAULT :: int where
  "FIXED_JB_RESYNCH_THRESHOLD_DEFAULT = 1000"

datatype fixed_jb_code = FIXED_JB_OK | FIXED_JB_DROP | FIXED_JB_INTERP | FIXED_JB_NOFRAME

record fixed_jb_conf =
  jbsize :: int
  resync_threshold :: int

record fixed_jb_frame =
  fr_data :: nat
  fr_ts :: int
  fr_ms :: int
  fr_delivery :: int

record fixed_jb =
  frames :: "fixed_jb_frame list"
  conf :: fixed_jb_conf
  rxcore :: int
  delay :: int
  next_delivery :: int
  force_resynch :: bool

text \<open>\<open>Put_null\<close>: the frame that \<open>alloc_jb_frame\<close> could not allocate is written through \<open>NULL\<close>.\<close>

datatype put_result = Put_ret fixed_jb_code fixed_jb | Put_abort | Put_null | Put_fuel

definition fixed_jb_new :: "fixed_jb_conf \<Rightarrow> fixed_jb" where
  "fixed_jb_new cf =
     (let cf = (if jbsize cf < 1 then cf\<lparr>jbsize := FIXED_JB_SIZE_DEFAULT\<rparr> else cf);
          cf = (if resync_threshold cf < 1
                then cf\<lparr>resync_threshold := FIXED_JB_RESYNCH_THRESHOLD_DEFAULT\<rparr> else cf)
      in \<lparr>frames = [], conf = cf, rxcore = 0, delay = jbsize cf, next_delivery = 0,
          force_resynch = False\<rparr>)"

text \<open>\<open>False\<close> when the assertion that the buffer is empty fails.\<close>

definition fixed_jb_destroy :: "fixed_jb \<Rightarrow> bool" where
  "fixed_jb_destroy jb \<longleftrightarrow> frames jb = []"

text \<open>Takes the head off a non-empty list.\<close>

definition get_jb_head :: "fixed_jb \<Rightarrow> fixed_jb_frame \<times> fixed_jb" where
  "get_jb_head jb =
     (let fr = hd (frames jb)
      in (fr, jb\<lparr>frames := tl (frames jb), next_delivery := fr_delivery fr + fr_ms fr\<rparr>))"

text \<open>
  The backward search from the tail for the last frame not delivered later than \<open>d\<close>. It runs
  over the reversed list; the result is the frames up to that frame, still reversed, and the
  frames after it.
\<close>

fun find_place :: "int \<Rightarrow> fixed_jb_frame list \<Rightarrow> fixed_jb_frame list \<Rightarrow>
    fixed_jb_frame list \<times> fixed_jb_frame list" where
  "find_place d [] after = ([], after)"
| "find_place d (fr # before) after =
     (if d < fr_delivery fr then find_place d before (fr # after) else (fr # before, after))"

definition covered :: "int \<Rightarrow> int \<Rightarrow> fixed_jb_frame list \<Rightarrow> fixed_jb_frame list \<Rightarrow> bool" where
  "covered d ms before after =
     (case before of
        [] \<Rightarrow> False
      | fr # _ \<Rightarrow>
          fr_delivery fr = d \<or> d < fr_delivery fr + fr_ms fr \<or>
          (case after of [] \<Rightarrow> False | nx # _ \<Rightarrow> fr_delivery nx < d + ms))"

text \<open>\<open>mem\<close> says whether a new frame can be allocated.\<close>

type_synonym put_fun = "fixed_jb \<Rightarrow> nat \<Rightarrow> int \<Rightarrow> int \<Rightarrow> int \<Rightarrow> put_result"

definition fixed_jb_put_body :: "bool \<Rightarrow> put_fun \<Rightarrow> put_fun" where
  "fixed_jb_put_body mem resynch jb dat ms ts now =
     (if dat = 0 \<or> ms < 2 \<or> ts < 0 \<or> now < 0 then Put_abort
      else
        (let d = rxcore jb + delay jb + ts
         in if d < next_delivery jb then resynch jb dat ms ts now
            else if next_delivery jb + delay jb + resync_threshold (conf jb) < d
            then resynch jb dat ms ts now
            else
              (case find_place d (rev (frames jb)) [] of
                 (before, after) \<Rightarrow>
                   if covered d ms before after then resynch jb dat ms ts now
                   else if \<not> mem then Put_null
                   else
                     (let newframe = \<lparr>fr_data = dat, fr_ts = ts, fr_ms = ms, fr_delivery = d\<rparr>
                      in Put_ret FIXED_JB_OK
                           (jb\<lparr>force_resynch := False,
                              frames := rev before @ newframe # after\<rparr>)))))"

definition fixed_jb_put_first_body :: "put_fun \<Rightarrow> put_fun" where
  "fixed_jb_put_first_body put jb dat ms ts now =
     (let jb = jb\<lparr>rxcore := now - ts\<rparr>;
          jb = jb\<lparr>next_delivery := now + delay jb\<rparr>
      in put jb dat ms ts now)"

definition resynch_jb_body :: "put_fun \<Rightarrow> put_fun" where
  "resynch_jb_body put jb dat ms ts now =
     (if frames jb = [] then fixed_jb_put_first_body put jb dat ms ts now
      else
        (let tl_fr = last (frames jb);
             diff = ts - fr_ts tl_fr;
             offset = diff - fr_ms tl_fr
         in if \<not> force_resynch jb \<and> offset < resync_threshold (conf jb) \<and>
               - resync_threshold (conf jb) < offset
            then Put_ret FIXED_JB_DROP jb
            else
              (let jb = jb\<lparr>force_resynch := False\<rparr>;
                   jb = jb\<lparr>rxcore := rxcore jb - offset\<rparr>;
                   jb = jb\<lparr>frames := map (\<lambda>fr. fr\<lparr>fr_ts := fr_ts fr + offset\<rparr>) (frames jb)\<rparr>
               in put jb dat ms ts now)))"

text \<open>The fuel of \<open>fixed_jb_put\<close> bounds how deep its calls nest.\<close>

primrec fixed_jb_put :: "bool \<Rightarrow> nat \<Rightarrow> put_fun" where
  "fixed_jb_put mem 0 = (\<lambda>jb dat ms ts now. Put_fuel)"
| "fixed_jb_put mem (Suc n) = fixed_jb_put_body mem (resynch_jb_body (fixed_jb_put mem n))"

definition fixed_jb_put_first :: "bool \<Rightarrow> nat \<Rightarrow> put_fun" where
  "fixed_jb_put_first mem n = fixed_jb_put_first_body (fixed_jb_put mem n)"

definition resynch_jb :: "bool \<Rightarrow> nat \<Rightarrow> put_fun" where
  "resynch_jb mem n = resynch_jb_body (fixed_jb_put mem n)"

definition fixed_jb_set_force_resynch :: "fixed_jb \<Rightarrow> fixed_jb" where
  "fixed_jb_set_force_resynch jb = jb\<lparr>force_resynch := True\<rparr>"

text \<open>\<open>None\<close> when an assertion fails. The frame is what is copied to the caller's frame.\<close>

definition fixed_jb_get :: "fixed_jb \<Rightarrow> int \<Rightarrow> int \<Rightarrow>
    (fixed_jb_code \<times> fixed_jb_frame option \<times> fixed_jb) option" where
  "fixed_jb_get jb now interpl =
     (if now < 0 \<or> interpl < 2 then None
      else Some
        (if now < next_delivery jb then (FIXED_JB_NOFRAME, None, jb)
         else if frames jb = []
         then (FIXED_JB_INTERP, None, jb\<lparr>next_delivery := next_delivery jb + interpl\<rparr>)
         else if fr_delivery (hd (frames jb)) + fr_ms (hd (frames jb)) < now
         then (case get_jb_head jb of (fr, jb) \<Rightarrow> (FIXED_JB_DROP, Some fr, jb))
         else if now < fr_delivery (hd (frames jb))
         then (FIXED_JB_INTERP, None, jb\<lparr>next_delivery := next_delivery jb + interpl\<rparr>)
         else (case get_jb_head jb of (fr, jb) \<Rightarrow> (FIXED_JB_OK, Some fr, jb))))"

definition fixed_jb_next :: "fixed_jb \<Rightarrow> int" where
  "fixed_jb_next jb = next_delivery jb"

definition fixed_jb_remove :: "fixed_jb \<Rightarrow> fixed_jb_code \<times> fixed_jb_frame option \<times> fixed_jb" where
  "fixed_jb_remove jb =
     (if frames jb = [] then (FIXED_JB_NOFRAME, None, jb)
      else (case get_jb_head jb of (fr, jb) \<Rightarrow> (FIXED_JB_OK, Some fr, jb)))"

section \<open>Invariant\<close>

text \<open>Frames are in strict order of delivery, each at least 2 ms long; each is due at
  \<open>rxcore + delay + ts\<close>; every frame but the first ends before the next one starts (a frame
  put before the first one is not compared with it); delay and threshold are positive.\<close>

definition strict_deliv :: "fixed_jb_frame list \<Rightarrow> bool" where
  "strict_deliv = sorted_wrt (\<lambda>a b. fr_delivery a < fr_delivery b)"

definition fixed_jb_inv :: "fixed_jb \<Rightarrow> bool" where
  "fixed_jb_inv jb \<longleftrightarrow>
     strict_deliv (frames jb) \<and>
     (\<forall>fr \<in> set (frames jb). 2 \<le> fr_ms fr \<and> fr_data fr \<noteq> 0 \<and>
        fr_delivery fr = rxcore jb + delay jb + fr_ts fr) \<and>
     1 \<le> delay jb \<and> 1 \<le> resync_threshold (conf jb)"

lemma find_place_split:
  "find_place d before after = (b, a) \<Longrightarrow> rev before @ after = rev b @ a"
proof (induction d before after rule: find_place.induct)
  case (2 d fr before after)
  show ?case
  proof (cases "d < fr_delivery fr")
    case True
    then have "rev before @ fr # after = rev b @ a" using 2 by simp
    then show ?thesis by simp
  next
    case False
    then show ?thesis using "2.prems" by auto
  qed
qed simp

lemma find_place_bounds:
  "find_place d before after = (b, a) \<Longrightarrow> \<forall>fr \<in> set after. d < fr_delivery fr \<Longrightarrow>
   (\<forall>fr \<in> set a. d < fr_delivery fr) \<and> (b = [] \<or> fr_delivery (hd b) \<le> d)"
proof (induction d before after rule: find_place.induct)
  case (2 d fr before after)
  show ?case
  proof (cases "d < fr_delivery fr")
    case True
    then show ?thesis using 2 by simp
  next
    case False
    then show ?thesis using "2.prems" by auto
  qed
qed simp

lemma insert_strict:
  assumes "strict_deliv fs" and "find_place d (rev fs) [] = (b, a)" and "\<not> covered d ms b a"
    and "fr_delivery f = d"
  shows "strict_deliv (rev b @ f # a)" "mset (rev b @ f # a) = add_mset f (mset fs)"
    "set (rev b @ f # a) = insert f (set fs)"
proof -
  have fs: "fs = rev b @ a" using find_place_split [OF assms(2)] by simp
  then show "mset (rev b @ f # a) = add_mset f (mset fs)" "set (rev b @ f # a) = insert f (set fs)"
    by auto
  have bd: "\<forall>fr \<in> set a. d < fr_delivery fr" "b = [] \<or> fr_delivery (hd b) \<le> d"
    using find_place_bounds [OF assms(2)] by auto
  have "\<forall>fr \<in> set b. fr_delivery fr < d"
  proof (cases b)
    case (Cons x b')
    have "fr_delivery x < d" using assms(3) bd(2) Cons by (auto simp: covered_def)
    moreover have "\<forall>fr \<in> set b'. fr_delivery fr < fr_delivery x"
      using assms(1) Cons fs by (simp add: strict_deliv_def sorted_wrt_append)
    ultimately show ?thesis using Cons by fastforce
  qed simp
  then show "strict_deliv (rev b @ f # a)"
    using assms(1,4) bd(1) fs by (auto simp: strict_deliv_def sorted_wrt_append)
qed

definition valid_args :: "nat \<Rightarrow> int \<Rightarrow> int \<Rightarrow> int \<Rightarrow> bool" where
  "valid_args dat ms ts now \<longleftrightarrow> dat \<noteq> 0 \<and> 2 \<le> ms \<and> 0 \<le> ts \<and> 0 \<le> now"

text \<open>What a put does: it either drops the frame or inserts it, and the other frames keep their
  data, length and delivery time, whatever happens to their timestamps.\<close>

definition sig :: "fixed_jb_frame \<Rightarrow> nat \<times> int \<times> int" where
  "sig fr = (fr_data fr, fr_ms fr, fr_delivery fr)"

definition put_ok :: "fixed_jb \<Rightarrow> nat \<Rightarrow> int \<Rightarrow> put_result \<Rightarrow> bool" where
  "put_ok jb dat ms r \<longleftrightarrow>
     (\<exists>jb'. r = Put_ret FIXED_JB_DROP jb' \<and> fixed_jb_inv jb' \<and> map sig (frames jb') = map sig (frames jb) \<and>
        conf jb' = conf jb \<and> delay jb' = delay jb) \<or>
     (\<exists>jb' d. r = Put_ret FIXED_JB_OK jb' \<and> fixed_jb_inv jb' \<and> next_delivery jb' \<le> d \<and>
        image_mset sig (mset (frames jb')) = add_mset (dat, ms, d) (image_mset sig (mset (frames jb))) \<and>
        conf jb' = conf jb \<and> delay jb' = delay jb)"

definition put_good :: "bool \<Rightarrow> fixed_jb \<Rightarrow> nat \<Rightarrow> int \<Rightarrow> put_result \<Rightarrow> bool" where
  "put_good mem jb dat ms r \<longleftrightarrow> put_ok jb dat ms r \<or> \<not> mem \<and> r = Put_null"

text \<open>One put: it inserts the frame, for which it needs memory, or hands over to \<open>resynch_jb\<close>.\<close>

lemma put_step:
  assumes inv: "fixed_jb_inv jb" and args: "valid_args dat ms ts now"
  shows "fixed_jb_put mem (Suc n) jb dat ms ts now = resynch_jb mem n jb dat ms ts now \<or>
         put_good mem jb dat ms (fixed_jb_put mem (Suc n) jb dat ms ts now)"
proof -
  let ?d = "rxcore jb + delay jb + ts"
  obtain b a where f: "find_place ?d (rev (frames jb)) [] = (b, a)" by (metis surjective_pairing)
  let ?fr = "\<lparr>fr_data = dat, fr_ts = ts, fr_ms = ms, fr_delivery = ?d\<rparr>"
  let ?jb = "jb\<lparr>force_resynch := False, frames := rev b @ ?fr # a\<rparr>"
  have g: "\<not> (dat = 0 \<or> ms < 2 \<or> ts < 0 \<or> now < 0)" using args by (auto simp: valid_args_def)
  show ?thesis
  proof (cases "?d < next_delivery jb \<or> next_delivery jb + delay jb + resync_threshold (conf jb) < ?d \<or>
      covered ?d ms b a")
    case True
    then have "fixed_jb_put mem (Suc n) jb dat ms ts now = resynch_jb mem n jb dat ms ts now"
      using g f by (auto simp: fixed_jb_put_body_def resynch_jb_def Let_def)
    then show ?thesis by simp
  next
    case False
    have p: "fixed_jb_put mem (Suc n) jb dat ms ts now = (if mem then Put_ret FIXED_JB_OK ?jb else Put_null)"
      using g f False by (simp add: fixed_jb_put_body_def Let_def)
    have st: "strict_deliv (frames jb)" using inv by (simp add: fixed_jb_inv_def)
    have nc: "\<not> covered ?d ms b a" using False by simp
    note i = insert_strict [OF st f nc, of ?fr, simplified]
    have "fixed_jb_inv ?jb"
      using inv i(1) i(3) args by (auto simp: fixed_jb_inv_def valid_args_def)
    moreover have "image_mset sig (mset (frames ?jb)) = add_mset (dat, ms, ?d) (image_mset sig (mset (frames jb)))"
      using i(2) by (simp add: sig_def)
    ultimately have "put_ok jb dat ms (Put_ret FIXED_JB_OK ?jb)"
      using False unfolding put_ok_def by (intro disjI2 exI [of _ ?jb] exI [of _ ?d]) simp
    then show ?thesis using p by (simp add: put_good_def)
  qed
qed

lemma put_empty:
  assumes inv: "fixed_jb_inv jb" and args: "valid_args dat ms ts now" and e: "frames jb = []"
  shows "put_good mem jb dat ms (fixed_jb_put_first mem (Suc n) jb dat ms ts now)"
proof -
  let ?j = "jb\<lparr>rxcore := now - ts, next_delivery := now + delay jb\<rparr>"
  have "fixed_jb_put_first mem (Suc n) jb dat ms ts now =
      (if mem
       then Put_ret FIXED_JB_OK (?j\<lparr>force_resynch := False,
        frames := [\<lparr>fr_data = dat, fr_ts = ts, fr_ms = ms, fr_delivery = now + delay jb\<rparr>]\<rparr>)
       else Put_null)"
    using inv args e
    by (auto simp: fixed_jb_inv_def valid_args_def Let_def covered_def fixed_jb_put_first_def
        fixed_jb_put_first_body_def fixed_jb_put_body_def)
  then show ?thesis
    using inv args e
    by (auto simp: put_good_def put_ok_def fixed_jb_inv_def valid_args_def sig_def strict_deliv_def)
qed

text \<open>After the shift the new frame follows the last one without a gap, so that a second call of
  \<open>resynch_jb\<close> finds the offset 0 and drops the frame.\<close>

lemma resynch_shift:
  assumes inv: "fixed_jb_inv jb" and args: "valid_args dat ms ts now" and ne: "frames jb \<noteq> []"
  shows "put_good mem jb dat ms (resynch_jb mem (Suc n) jb dat ms ts now)"
proof -
  let ?l = "last (frames jb)"
  define off where "off = ts - fr_ts ?l - fr_ms ?l"
  define jb' where "jb' = jb\<lparr>force_resynch := False, rxcore := rxcore jb - off,
      frames := map (\<lambda>fr. fr\<lparr>fr_ts := fr_ts fr + off\<rparr>) (frames jb)\<rparr>"
  have inv': "fixed_jb_inv jb'"
    using inv by (simp add: fixed_jb_inv_def jb'_def strict_deliv_def sorted_wrt_map)
  have sg: "map sig (frames jb') = map sig (frames jb)" by (simp add: jb'_def sig_def)
  have ne': "frames jb' \<noteq> []" and nf: "\<not> force_resynch jb'" using ne by (simp_all add: jb'_def)
  have thr: "1 \<le> resync_threshold (conf jb')" using inv' by (simp add: fixed_jb_inv_def)
  have l: "ts - fr_ts (last (frames jb')) - fr_ms (last (frames jb')) = 0"
    using ne by (simp add: jb'_def last_map off_def)
  have drop: "resynch_jb mem n jb' dat ms ts now = Put_ret FIXED_JB_DROP jb'"
    using ne' nf thr by (simp add: resynch_jb_def resynch_jb_body_def Let_def l)
  have cd: "conf jb' = conf jb" "delay jb' = delay jb" by (simp_all add: jb'_def)
  have mm: "image_mset sig (mset (frames jb')) = image_mset sig (mset (frames jb))"
    using sg by (metis mset_map)
  have "put_good mem jb' dat ms (fixed_jb_put mem (Suc n) jb' dat ms ts now)"
    using put_step [OF inv' args, of mem n] drop inv' by (auto simp: put_good_def put_ok_def)
  then have P: "put_good mem jb dat ms (fixed_jb_put mem (Suc n) jb' dat ms ts now)"
    using sg mm unfolding put_good_def put_ok_def by (simp add: cd)
  show ?thesis
  proof (cases "\<not> force_resynch jb \<and> off < resync_threshold (conf jb) \<and> - resync_threshold (conf jb) < off")
    case True
    then have "resynch_jb mem (Suc n) jb dat ms ts now = Put_ret FIXED_JB_DROP jb"
      using ne by (simp add: resynch_jb_def resynch_jb_body_def Let_def off_def)
    then show ?thesis using inv by (simp add: put_good_def put_ok_def)
  next
    case False
    have "resynch_jb mem (Suc n) jb dat ms ts now = fixed_jb_put mem (Suc n) jb' dat ms ts now"
      using ne False
      unfolding resynch_jb_def resynch_jb_body_def Let_def off_def [symmetric] jb'_def
      by (auto simp del: fixed_jb_put.simps)
    then show ?thesis using P by simp
  qed
qed

lemma fixed_jb_put_good:
  assumes "fixed_jb_inv jb" and "valid_args dat ms ts now" and "2 \<le> n"
  shows "put_good mem jb dat ms (fixed_jb_put mem n jb dat ms ts now)"
proof -
  obtain m where m: "n = Suc (Suc m)" using assms(3) by (auto dest!: le_Suc_ex)
  have r: "put_good mem jb dat ms (resynch_jb mem (Suc m) jb dat ms ts now)"
  proof (cases "frames jb = []")
    case True
    then have "resynch_jb mem (Suc m) jb dat ms ts now = fixed_jb_put_first mem (Suc m) jb dat ms ts now"
      by (simp add: resynch_jb_def resynch_jb_body_def fixed_jb_put_first_def)
    then show ?thesis using put_empty [OF assms(1,2) True] by simp
  next
    case False
    then show ?thesis by (rule resynch_shift [OF assms(1,2)])
  qed
  show ?thesis using put_step [OF assms(1,2), of mem "Suc m"] r unfolding m by metis
qed

text \<open>Claim C16. A put with valid arguments returns after at most two nested puts and fails no
  assertion: it drops the frame, or queues it at a time that is not before the next delivery; all
  other frames keep their data and delivery times, and the frame order is kept. Without memory for
  a new frame a put either does the same or ends in the write through \<open>NULL\<close> that
  the unchecked allocation leads to.\<close>

theorem fixed_jb_put_total:
  assumes "fixed_jb_inv jb" and "valid_args dat ms ts now" and "2 \<le> n"
  shows "put_ok jb dat ms (fixed_jb_put True n jb dat ms ts now) \<and>
    (put_ok jb dat ms (fixed_jb_put False n jb dat ms ts now) \<or> fixed_jb_put False n jb dat ms ts now = Put_null)"
  using fixed_jb_put_good [OF assms, of True] fixed_jb_put_good [OF assms, of False] by (simp add: put_good_def)

definition sample_fixed_jb :: fixed_jb where
  "sample_fixed_jb = fixed_jb_new \<lparr>jbsize = 0, resync_threshold = 50\<rparr>"

lemma new_inv: "fixed_jb_inv (fixed_jb_new cf)"
  by (auto simp: fixed_jb_new_def fixed_jb_inv_def strict_deliv_def Let_def
      FIXED_JB_SIZE_DEFAULT_def FIXED_JB_RESYNCH_THRESHOLD_DEFAULT_def)

theorem fixed_jb_put_total_witness:
  "put_ok sample_fixed_jb 1 20 (fixed_jb_put True 2 sample_fixed_jb 1 20 0 0)"
  by (rule fixed_jb_put_total [THEN conjunct1]) (simp_all add: sample_fixed_jb_def new_inv valid_args_def)

lemma fixed_jb_put_no_memory: "fixed_jb_put False 2 sample_fixed_jb 1 20 0 0 = Put_null"
  by (simp add: sample_fixed_jb_def fixed_jb_new_def FIXED_JB_SIZE_DEFAULT_def fixed_jb_put_body_def covered_def
      resynch_jb_body_def fixed_jb_put_first_body_def numeral_2_eq_2 Let_def)

lemma get_head_inv:
  assumes "fixed_jb_inv jb" and "frames jb \<noteq> []" and "get_jb_head jb = (fr, jb')"
  shows "fixed_jb_inv jb'" "mset (frames jb) = add_mset fr (mset (frames jb'))"
    "\<forall>g \<in> set (frames jb'). fr_delivery fr < fr_delivery g"
    "next_delivery jb' = fr_delivery fr + fr_ms fr" "fr \<in> set (frames jb)"
    "delay jb' = delay jb" "conf jb' = conf jb"
  using assms by (cases "frames jb"; auto simp: get_jb_head_def fixed_jb_inv_def strict_deliv_def Let_def)+

text \<open>What is taken out is the frame due first. A frame that is played is played in its
  time slot; one that is dropped is over; nothing is played before its delivery time; and asking
  too early changes nothing.\<close>

theorem fixed_jb_get_due:
  assumes "fixed_jb_inv jb" and "fixed_jb_get jb now interpl = Some (r, out, jb')"
  shows "fixed_jb_inv jb' \<and>
    (case out of
       Some fr \<Rightarrow> mset (frames jb) = add_mset fr (mset (frames jb')) \<and>
         (\<forall>g \<in> set (frames jb'). fr_delivery fr < fr_delivery g) \<and>
         next_delivery jb' = fr_delivery fr + fr_ms fr \<and> fr_delivery fr \<le> now \<and>
         (r = FIXED_JB_OK \<and> now \<le> fr_delivery fr + fr_ms fr \<or>
          r = FIXED_JB_DROP \<and> fr_delivery fr + fr_ms fr < now)
     | None \<Rightarrow> frames jb' = frames jb \<and>
         (r = FIXED_JB_NOFRAME \<and> now < next_delivery jb \<and> jb' = jb \<or>
          r = FIXED_JB_INTERP \<and> (\<forall>fr \<in> set (frames jb). now < fr_delivery fr) \<and>
          next_delivery jb' = next_delivery jb + interpl))"
proof -
  have a: "\<not> (now < 0 \<or> interpl < 2)" using assms(2) by (auto simp: fixed_jb_get_def split: if_splits)
  obtain fr jh where h: "get_jb_head jb = (fr, jh)" by (metis surjective_pairing)
  consider "now < next_delivery jb" | "\<not> now < next_delivery jb" "frames jb = []"
    | "\<not> now < next_delivery jb" "frames jb \<noteq> []" by blast
  then show ?thesis
  proof cases
    case 1
    then show ?thesis using assms a by (auto simp: fixed_jb_get_def)
  next
    case 2
    then show ?thesis using assms a by (auto simp: fixed_jb_get_def fixed_jb_inv_def)
  next
    case 3
    note hi = get_head_inv [OF assms(1) 3(2) h]
    have fr: "fr = hd (frames jb)" using h by (simp add: get_jb_head_def Let_def)
    have ms: "2 \<le> fr_ms fr" using assms(1) hi(5) by (simp add: fixed_jb_inv_def)
    show ?thesis
    proof (cases "now < fr_delivery fr")
      case True
      have "\<forall>g \<in> set (frames jb). fr_delivery fr \<le> fr_delivery g"
        using assms(1) 3(2) unfolding fr fixed_jb_inv_def strict_deliv_def
        by (cases "frames jb") auto
      then have lt: "\<forall>g \<in> set (frames jb). now < fr_delivery g" using True by fastforce
      have "jb' = jb\<lparr>next_delivery := next_delivery jb + interpl\<rparr> \<and> out = None \<and> r = FIXED_JB_INTERP"
        using assms(2) a 3 True ms unfolding fr by (simp add: fixed_jb_get_def)
      then show ?thesis
        using assms(1) lt by (simp add: fixed_jb_inv_def)
    next
      case False
      have e: "jb' = jh \<and> out = Some fr \<and>
          r = (if fr_delivery fr + fr_ms fr < now then FIXED_JB_DROP else FIXED_JB_OK)"
        using assms(2) a 3 False fr h by (auto simp: fixed_jb_get_def split: if_splits)
      then show ?thesis using hi(1-4) False by auto
    qed
  qed
qed

theorem fixed_jb_get_due_witness:
  "case fixed_jb_get sample_fixed_jb 5 20 of
     Some (r, out, jb') \<Rightarrow> r = FIXED_JB_INTERP \<and> fixed_jb_inv jb' | None \<Rightarrow> False"
proof -
  have g: "fixed_jb_get sample_fixed_jb 5 20 =
      Some (FIXED_JB_INTERP, None, sample_fixed_jb\<lparr>next_delivery := 20\<rparr>)"
    by (simp add: fixed_jb_get_def sample_fixed_jb_def fixed_jb_new_def Let_def)
  have "fixed_jb_inv sample_fixed_jb" by (simp add: sample_fixed_jb_def new_inv)
  from fixed_jb_get_due [OF this g] show ?thesis using g by simp
qed

text \<open>A frame that goes before the first one is not compared with it: whatever its length, it is
  queued, also when it overlaps the frame after it.\<close>

lemma find_place_all_later:
  "\<forall>fr \<in> set before. d < fr_delivery fr \<Longrightarrow> find_place d before after = ([], rev before @ after)"
  by (induction d before after rule: find_place.induct) auto

lemma fixed_jb_put_before_head:
  assumes "fixed_jb_inv jb" and "valid_args dat ms ts now" and "frames jb \<noteq> []"
    and "d = rxcore jb + delay jb + ts" and "d < fr_delivery (hd (frames jb))"
    and "next_delivery jb \<le> d" and "d \<le> next_delivery jb + delay jb + resync_threshold (conf jb)"
  shows "fixed_jb_put True (Suc n) jb dat ms ts now =
    Put_ret FIXED_JB_OK (jb\<lparr>force_resynch := False,
      frames := \<lparr>fr_data = dat, fr_ts = ts, fr_ms = ms, fr_delivery = d\<rparr> # frames jb\<rparr>)"
proof -
  obtain f fs where fs: "frames jb = f # fs" using assms(3) by (cases "frames jb") auto
  have "\<forall>fr \<in> set (rev (frames jb)). d < fr_delivery fr"
    using assms(1,5) fs by (auto simp: fixed_jb_inv_def strict_deliv_def)
  from find_place_all_later [OF this, of "[]"]
  show ?thesis
    using assms by (auto simp: fixed_jb_put_body_def valid_args_def covered_def Let_def)
qed


end
