(* ===== verification/JitterBuf.thy ===== *)
theory JitterBuf
  imports Prelude
begin

text \<open>
  The adaptive jitter buffer of \<open>main/jitterbuf.c\<close> and \<open>include/jitterbuf.h\<close>.

  \<open>jitterbuf\<close>, \<open>jb_info\<close>, \<open>jb_conf\<close> and \<open>jb_frame\<close> are records with the source's
  fields. The circular doubly linked queue is a list from \<open>frames\<close> (lowest timestamp) to
  \<open>frames->prev\<close>; the free list is a list of the frames it holds. \<open>long\<close> values are unbounded
  integers, except that \<open>abs\<close> is the \<open>int\<close> function and truncates its argument to 32 bits.
  The count of recorded delays \<open>hist_ptr\<close>, an \<open>int\<close> that the code increments for every frame, is a natural number: the
  model is that of the first \<open>2 ^ 31\<close> delays after a reset or resynchronisation.
  A result with a frame is the frame copied to \<open>frameout\<close>. Logging is not modelled.
\<close>

section \<open>Data\<close>

definition JB_HISTORY_SZ :: nat where "JB_HISTORY_SZ = 500"
definition JB_HISTORY_DROPPCT :: nat where "JB_HISTORY_DROPPCT = 3"
definition JB_HISTORY_DROPPCT_MAX :: nat where "JB_HISTORY_DROPPCT_MAX = 4"
definition JB_HISTORY_MAXBUF_SZ :: nat where
  "JB_HISTORY_MAXBUF_SZ = JB_HISTORY_SZ * JB_HISTORY_DROPPCT_MAX div 100"
definition JB_TARGET_EXTRA :: int where "JB_TARGET_EXTRA = 40"
definition JB_ADJUST_DELAY :: int where "JB_ADJUST_DELAY = 40"
definition JB_LONGMAX :: int where "JB_LONGMAX = 2147483647"
definition JB_LONGMIN :: int where "JB_LONGMIN = - JB_LONGMAX - 1"

datatype jb_return_code = JB_OK | JB_EMPTY | JB_NOFRAME | JB_INTERP | JB_DROP | JB_SCHED

datatype jb_frame_type = JB_TYPE_CONTROL | JB_TYPE_VOICE | JB_TYPE_VIDEO | JB_TYPE_SILENCE

record jb_conf =
  max_jitterbuf :: int
  resync_threshold :: int
  max_contig_interp :: int
  target_extra :: int

record jb_info =
  conf :: jb_conf
  frames_in :: int
  frames_out :: int
  frames_late :: int
  frames_lost :: int
  frames_dropped :: int
  frames_ooo :: int
  frames_cur :: int
  jitter :: int
  jb_min :: int
  current :: int
  target :: int
  losspct :: int
  next_voice_ts :: int
  last_voice_ms :: int
  silence_begin_ts :: int
  last_adjustment :: int
  last_delay :: int
  cnt_delay_discont :: int
  resync_offset :: int
  cnt_contig_interp :: int

record jb_frame =
  fr_data :: nat
  fr_ts :: int
  fr_ms :: int
  fr_type :: jb_frame_type

record jitterbuf =
  info :: jb_info
  history :: "int list"
  hist_ptr :: nat
  hist_maxbuf :: "int list"
  hist_minbuf :: "int list"
  hist_maxbuf_valid :: bool
  dropem :: bool
  frames :: "jb_frame list"
  free :: "jb_frame list"

text \<open>Field updates of the nested \<open>info\<close> structure.\<close>

abbreviation upd_info :: "(jb_info \<Rightarrow> jb_info) \<Rightarrow> jitterbuf \<Rightarrow> jitterbuf" where
  "upd_info f jb \<equiv> jb\<lparr>info := f (info jb)\<rparr>"

section \<open>Creation and statistics\<close>

definition increment_losspct :: "jitterbuf \<Rightarrow> jitterbuf" where
  "increment_losspct jb = upd_info (\<lambda>i. i\<lparr>losspct := cdiv (100000 + 499 * losspct i) 500\<rparr>) jb"

definition decrement_losspct :: "jitterbuf \<Rightarrow> jitterbuf" where
  "decrement_losspct jb = upd_info (\<lambda>i. i\<lparr>losspct := cdiv (499 * losspct i) 500\<rparr>) jb"

text \<open>Everything but the configuration is zeroed.\<close>

definition jb_reset :: "jitterbuf \<Rightarrow> jitterbuf" where
  "jb_reset jb =
     (let s = (conf (info jb))\<lparr>target_extra := JB_TARGET_EXTRA\<rparr>
      in \<lparr>info = \<lparr>conf = s, frames_in = 0, frames_out = 0, frames_late = 0, frames_lost = 0,
            frames_dropped = 0, frames_ooo = 0, frames_cur = 0, jitter = 0, jb_min = 0,
            current = JB_TARGET_EXTRA, target = JB_TARGET_EXTRA, losspct = 0, next_voice_ts = 0,
            last_voice_ms = 0, silence_begin_ts = - 1, last_adjustment = 0, last_delay = 0,
            cnt_delay_discont = 0, resync_offset = 0, cnt_contig_interp = 0\<rparr>,
          history = replicate JB_HISTORY_SZ 0, hist_ptr = 0,
          hist_maxbuf = replicate JB_HISTORY_MAXBUF_SZ 0, hist_minbuf = replicate JB_HISTORY_MAXBUF_SZ 0,
          hist_maxbuf_valid = False, dropem = False, frames = [], free = []\<rparr>)"

text \<open>The argument is the uninitialised memory that the allocation yields, \<open>None\<close> if it fails:
  the configuration in it survives until \<open>jb_setconf\<close>.\<close>

definition jb_new :: "jitterbuf option \<Rightarrow> jitterbuf option" where
  "jb_new mem = (case mem of None \<Rightarrow> None | Some jb \<Rightarrow> Some (jb_reset jb))"

text \<open>The frames that are freed: those on the free list, in its order.\<close>

definition jb_destroy :: "jitterbuf \<Rightarrow> jb_frame list" where
  "jb_destroy jb = free jb"

section \<open>Delay history\<close>

definition abs_int :: "int \<Rightarrow> int" where
  "abs_int x = \<bar>sint (word_of_int x :: 32 word)\<bar>"

text \<open>The part of \<open>history_put\<close> that detects a jump of the delay: \<open>None\<close> when the frame is to be
  dropped, otherwise the delay to record.\<close>

definition history_discont :: "jitterbuf \<Rightarrow> int \<Rightarrow> int \<Rightarrow> (int option) \<times> jitterbuf" where
  "history_discont jb ts now =
     (let dly = now - (ts - resync_offset (info jb));
          threshold = 2 * jitter (info jb) + resync_threshold (conf (info jb))
      in if resync_threshold (conf (info jb)) \<noteq> - 1
         then if threshold < abs_int (dly - last_delay (info jb))
              then (let jb = upd_info (\<lambda>i. i\<lparr>cnt_delay_discont := cnt_delay_discont i + 1\<rparr>) jb
                    in if 3 < cnt_delay_discont (info jb)
                       then (Some 0,
                             upd_info (\<lambda>i. i\<lparr>cnt_delay_discont := 0, resync_offset := ts - now,
                                             last_delay := 0\<rparr>)
                               (jb\<lparr>hist_ptr := 0, hist_maxbuf_valid := False\<rparr>))
                       else (None, jb))
              else (Some dly, upd_info (\<lambda>i. i\<lparr>last_delay := dly, cnt_delay_discont := 0\<rparr>) jb)
         else (Some dly, jb))"

definition history_record :: "jitterbuf \<Rightarrow> int \<Rightarrow> jitterbuf" where
  "history_record jb dly =
     (let kicked = history jb ! (hist_ptr jb mod JB_HISTORY_SZ);
          jb = jb\<lparr>history := (history jb)[hist_ptr jb mod JB_HISTORY_SZ := dly],
                  hist_ptr := hist_ptr jb + 1\<rparr>;
          invalid = jb\<lparr>hist_maxbuf_valid := False\<rparr>
      in if \<not> hist_maxbuf_valid jb then jb
         else if hist_ptr jb < JB_HISTORY_SZ then invalid
         else if dly < hist_minbuf jb ! (JB_HISTORY_MAXBUF_SZ - 1) then invalid
         else if hist_maxbuf jb ! (JB_HISTORY_MAXBUF_SZ - 1) < dly then invalid
         else if kicked \<le> hist_minbuf jb ! (JB_HISTORY_MAXBUF_SZ - 1) then invalid
         else if hist_maxbuf jb ! (JB_HISTORY_MAXBUF_SZ - 1) \<le> kicked then invalid
         else jb)"

definition history_put :: "jitterbuf \<Rightarrow> int \<Rightarrow> int \<Rightarrow> int \<Rightarrow> int \<times> jitterbuf" where
  "history_put jb ts now ms =
     (if ts \<le> 0 then (0, jb)
      else (case history_discont jb ts now of
              (None, jb) \<Rightarrow> (- 1, jb)
            | (Some dly, jb) \<Rightarrow> (0, history_record jb dly)))"

text \<open>The insertion loop over a buffer sorted by \<open>better\<close>: the new value goes before the first one
  it is better than, the others move over and the last one falls off.\<close>

fun move_in :: "('a \<Rightarrow> 'a \<Rightarrow> bool) \<Rightarrow> 'a \<Rightarrow> 'a list \<Rightarrow> 'a list" where
  "move_in better x [] = []"
| "move_in better x (y # ys) = (if better x y then x # butlast (y # ys) else y # move_in better x ys)"

definition buf_insert :: "('a \<Rightarrow> 'a \<Rightarrow> bool) \<Rightarrow> 'a list \<Rightarrow> 'a \<Rightarrow> 'a list" where
  "buf_insert better buf x =
     (if better x (buf ! (JB_HISTORY_MAXBUF_SZ - 1)) then move_in better x buf else buf)"

definition history_calc_maxbuf :: "jitterbuf \<Rightarrow> jitterbuf" where
  "history_calc_maxbuf jb =
     (if hist_ptr jb = 0 then jb
      else
        (let i = (if JB_HISTORY_SZ < hist_ptr jb then hist_ptr jb - JB_HISTORY_SZ else 0);
             toins = map (\<lambda>i. history jb ! (i mod JB_HISTORY_SZ)) [i..<hist_ptr jb]
         in jb\<lparr>hist_maxbuf := foldl (buf_insert (>)) (replicate JB_HISTORY_MAXBUF_SZ JB_LONGMIN) toins,
               hist_minbuf := foldl (buf_insert (<)) (replicate JB_HISTORY_MAXBUF_SZ JB_LONGMAX) toins,
               hist_maxbuf_valid := True\<rparr>))"

definition history_get :: "jitterbuf \<Rightarrow> jitterbuf" where
  "history_get jb =
     (let jb = (if \<not> hist_maxbuf_valid jb then history_calc_maxbuf jb else jb);
          count = (if hist_ptr jb < JB_HISTORY_SZ then hist_ptr jb else JB_HISTORY_SZ);
          idx = count * JB_HISTORY_DROPPCT div 100;
          idx = (if JB_HISTORY_MAXBUF_SZ - 1 < idx then JB_HISTORY_MAXBUF_SZ - 1 else idx);
          mx = hist_maxbuf jb ! idx;
          mn = hist_minbuf jb ! idx
      in upd_info (\<lambda>i. i\<lparr>jb_min := mn, jitter := mx - mn\<rparr>) jb)"

section \<open>Frame queue\<close>

text \<open>The backward walk from the last frame for the last one not later than \<open>ts\<close>.\<close>

fun queue_walk :: "int \<Rightarrow> jb_frame list \<Rightarrow> jb_frame list \<Rightarrow> jb_frame list \<times> jb_frame list" where
  "queue_walk ts [] after = ([], after)"
| "queue_walk ts (p # before) after =
     (if ts < fr_ts p then queue_walk ts before (p # after) else (p # before, after))"

text \<open>\<open>alloc\<close> says whether an allocation succeeds; it is made when the free list is empty.\<close>

definition queue_put ::
  "jitterbuf \<Rightarrow> nat \<Rightarrow> jb_frame_type \<Rightarrow> int \<Rightarrow> int \<Rightarrow> bool \<Rightarrow> bool \<times> jitterbuf" where
  "queue_put jb dat type ms ts alloc =
     (let resync_ts = ts - resync_offset (info jb)
      in if free jb = [] \<and> \<not> alloc then (False, jb)
         else
           (let jb = jb\<lparr>free := tl (free jb)\<rparr>;
                jb = upd_info (\<lambda>i. i\<lparr>frames_cur := frames_cur i + 1\<rparr>) jb;
                fr = \<lparr>fr_data = dat, fr_ts = resync_ts, fr_ms = ms, fr_type = type\<rparr>
            in case frames jb of
                 [] \<Rightarrow> (True, jb\<lparr>frames := [fr]\<rparr>)
               | p # ps \<Rightarrow>
                   if resync_ts < fr_ts p
                   then (True, upd_info (\<lambda>i. i\<lparr>frames_ooo := frames_ooo i + 1\<rparr>)
                                 (jb\<lparr>frames := fr # p # ps\<rparr>))
                   else
                     (let jb = (if resync_ts < fr_ts (last (p # ps))
                                then upd_info (\<lambda>i. i\<lparr>frames_ooo := frames_ooo i + 1\<rparr>) jb else jb)
                      in case queue_walk resync_ts (rev ps) [] of
                           (before, after) \<Rightarrow>
                             (False, jb\<lparr>frames := p # rev before @ fr # after\<rparr>))))"

definition queue_next :: "jitterbuf \<Rightarrow> int" where
  "queue_next jb = (if frames jb \<noteq> [] then fr_ts (hd (frames jb)) else - 1)"

definition queue_last :: "jitterbuf \<Rightarrow> int" where
  "queue_last jb = (if frames jb \<noteq> [] then fr_ts (last (frames jb)) else - 1)"

definition queue_get_gen :: "jitterbuf \<Rightarrow> int \<Rightarrow> bool \<Rightarrow> jb_frame option \<times> jitterbuf" where
  "queue_get_gen jb ts get_all =
     (case frames jb of
        [] \<Rightarrow> (None, jb)
      | fr # frs \<Rightarrow>
          if get_all \<or> fr_ts fr \<le> ts
          then (Some fr, upd_info (\<lambda>i. i\<lparr>frames_cur := frames_cur i - 1\<rparr>)
                           (jb\<lparr>frames := frs, free := fr # free jb\<rparr>))
          else (None, jb))"

definition queue_get :: "jitterbuf \<Rightarrow> int \<Rightarrow> jb_frame option \<times> jitterbuf" where
  "queue_get jb ts = queue_get_gen jb ts False"

definition queue_getall :: "jitterbuf \<Rightarrow> jb_frame option \<times> jitterbuf" where
  "queue_getall jb = queue_get_gen jb 0 True"

section \<open>Putting and getting frames\<close>

definition jb_put ::
  "jitterbuf \<Rightarrow> nat \<Rightarrow> jb_frame_type \<Rightarrow> int \<Rightarrow> int \<Rightarrow> int \<Rightarrow> bool \<Rightarrow> jb_return_code \<times> jitterbuf" where
  "jb_put jb dat type ms ts now alloc =
     (let numts = (if frames jb \<noteq> [] then fr_ts (last (frames jb)) - fr_ts (hd (frames jb)) else 0);
          drop_one = upd_info (\<lambda>i. i\<lparr>frames_dropped := frames_dropped i + 1\<rparr>)
      in if max_jitterbuf (conf (info jb)) \<le> numts
         then (JB_DROP, drop_one (jb\<lparr>dropem := True\<rparr>))
         else
           (let jb = jb\<lparr>dropem := False\<rparr>;
                (r, jb) = (if type = JB_TYPE_VOICE then history_put jb ts now ms else (0, jb))
            in if r \<noteq> 0 then (JB_DROP, drop_one jb)
               else
                 (let jb = upd_info (\<lambda>i. i\<lparr>frames_in := frames_in i + 1\<rparr>) jb
                  in case queue_put jb dat type ms ts alloc of
                       (True, jb) \<Rightarrow> (JB_SCHED, jb)
                     | (False, jb) \<Rightarrow> (JB_OK, jb))))"

definition frame_out :: "jitterbuf \<Rightarrow> jitterbuf" where
  "frame_out jb = upd_info (\<lambda>i. i\<lparr>frames_out := frames_out i + 1\<rparr>) jb"

text \<open>A voice frame that comes too late: it counts as late, and as lost no longer.\<close>

definition frame_late :: "jitterbuf \<Rightarrow> jitterbuf" where
  "frame_late jb =
     upd_info (\<lambda>i. i\<lparr>frames_late := frames_late i + 1, frames_lost := frames_lost i - 1\<rparr>)
       (decrement_losspct (frame_out jb))"

text \<open>One more interpolated frame; after \<open>max_contig_interp\<close> of them silence begins.\<close>

definition interp_more :: "jitterbuf \<Rightarrow> jitterbuf" where
  "interp_more jb =
     (let jb = upd_info (\<lambda>i. i\<lparr>cnt_contig_interp := cnt_contig_interp i + 1\<rparr>) jb;
          i = info jb
      in if max_contig_interp (conf i) \<noteq> 0 \<and> max_contig_interp (conf i) \<le> cnt_contig_interp i
         then jb\<lparr>info := i\<lparr>silence_begin_ts := next_voice_ts i - current i\<rparr>\<rparr> else jb)"

type_synonym jb_result = "jb_return_code \<times> jb_frame option \<times> jitterbuf"

definition jb_target :: "jitterbuf \<Rightarrow> jitterbuf" where
  "jb_target jb =
     (let i = info jb;
          t = jitter i + jb_min i + target_extra (conf i);
          t = (if max_jitterbuf (conf i) \<noteq> 0 \<and> max_jitterbuf (conf i) < t - jb_min i
               then jb_min i + max_jitterbuf (conf i) else t)
      in jb\<lparr>info := i\<lparr>target := t\<rparr>\<rparr>)"

text \<open>The branches after the frame has been looked for, outside silence.\<close>

definition jb_get_voice :: "jitterbuf \<Rightarrow> jb_frame option \<Rightarrow> int \<Rightarrow> int \<Rightarrow> int \<Rightarrow> jb_result" where
  "jb_get_voice jb frame diff now interpl =
     (let i = info jb;
          extra = target_extra (conf i)
      in if diff < - extra \<and>
            (frame = None \<and> last_adjustment i + 80 < now \<or> last_adjustment i + 500 < now)
         then
           (let jb = jb\<lparr>info := i\<lparr>last_adjustment := now, cnt_contig_interp := 0\<rparr>\<rparr>
            in case frame of
                 Some fr \<Rightarrow>
                   (let jb = upd_info (\<lambda>i. i\<lparr>current := current i - fr_ms fr\<rparr>) jb;
                        jb = decrement_losspct (frame_out jb)
                    in (JB_DROP, Some fr, upd_info (\<lambda>i. i\<lparr>frames_dropped := frames_dropped i + 1\<rparr>) jb))
               | None \<Rightarrow>
                   (let jb = upd_info (\<lambda>i. i\<lparr>current := current i - last_voice_ms i,
                                             frames_lost := frames_lost i + 1\<rparr>) jb
                    in (JB_NOFRAME, None, increment_losspct jb)))
         else
           (case frame of
              None \<Rightarrow>
                (let jb = upd_info (\<lambda>i. i\<lparr>frames_lost := frames_lost i + 1\<rparr>) jb;
                     jb = increment_losspct jb;
                     jb = upd_info (\<lambda>i. i\<lparr>next_voice_ts := next_voice_ts i + interpl,
                                          last_voice_ms := interpl\<rparr>) jb
                 in (JB_INTERP, None, interp_more jb))
            | Some fr \<Rightarrow>
                (let jb = upd_info (\<lambda>i. i\<lparr>next_voice_ts := next_voice_ts i + fr_ms fr\<rparr>) jb;
                     jb = upd_info (\<lambda>i. i\<lparr>cnt_contig_interp := 0\<rparr>) (frame_out jb)
                 in (JB_OK, Some fr, decrement_losspct jb))))"

definition jb_get_talk :: "jitterbuf \<Rightarrow> int \<Rightarrow> int \<Rightarrow> int \<Rightarrow> jb_result" where
  "jb_get_talk jb diff now interpl =
     (if 0 < diff \<and>
         (last_adjustment (info jb) + JB_ADJUST_DELAY < now \<or> queue_last jb - queue_next jb < diff)
      then
        (let jb = upd_info (\<lambda>i. i\<lparr>current := current i + interpl, next_voice_ts := next_voice_ts i + interpl,
                                  last_voice_ms := interpl, last_adjustment := now\<rparr>) jb
         in (JB_INTERP, None, interp_more jb))
      else
        (case queue_get jb (next_voice_ts (info jb) - current (info jb)) of
           (None, jb) \<Rightarrow> jb_get_voice jb None diff now interpl
         | (Some fr, jb) \<Rightarrow>
             if fr_type fr \<noteq> JB_TYPE_VOICE
             then
               (let jb = (if fr_type fr = JB_TYPE_SILENCE
                          then upd_info (\<lambda>i. i\<lparr>silence_begin_ts := fr_ts fr, cnt_contig_interp := 0\<rparr>) jb
                          else jb)
                in (JB_OK, Some fr, frame_out jb))
             else if fr_ts fr + current (info jb) < next_voice_ts (info jb)
             then
               if next_voice_ts (info jb) - last_voice_ms (info jb) < fr_ts fr + current (info jb)
               then
                 (let jb = upd_info (\<lambda>i. i\<lparr>next_voice_ts := fr_ts fr + current i + fr_ms fr\<rparr>) jb;
                      jb = decrement_losspct (frame_out jb)
                  in (JB_OK, Some fr, upd_info (\<lambda>i. i\<lparr>cnt_contig_interp := 0\<rparr>) jb))
               else (JB_DROP, Some fr, frame_late jb)
             else
               (let jb = (if 0 < fr_ms fr then upd_info (\<lambda>i. i\<lparr>last_voice_ms := fr_ms fr\<rparr>) jb else jb)
                in jb_get_voice jb (Some fr) diff now interpl)))"

definition jb_get_silent :: "jitterbuf \<Rightarrow> int \<Rightarrow> int \<Rightarrow> int \<Rightarrow> jb_result" where
  "jb_get_silent jb diff now interpl =
     (let i = info jb;
          jb = (if diff < - target_extra (conf i) \<and> last_adjustment i + 10 \<le> now
                then jb\<lparr>info := i\<lparr>current := current i - interpl, last_adjustment := now\<rparr>\<rparr> else jb)
      in case queue_get jb (now - current (info jb)) of
           (None, jb) \<Rightarrow> (JB_NOFRAME, None, jb)
         | (Some fr, jb) \<Rightarrow>
             if fr_type fr \<noteq> JB_TYPE_VOICE then (JB_OK, Some fr, frame_out jb)
             else if fr_ts fr < silence_begin_ts (info jb) then (JB_DROP, Some fr, frame_late jb)
             else
               (let jb = upd_info (\<lambda>i. i\<lparr>current := target i, silence_begin_ts := 0\<rparr>) jb;
                    jb = upd_info (\<lambda>i. i\<lparr>next_voice_ts := fr_ts fr + current i + fr_ms fr,
                                         last_voice_ms := fr_ms fr\<rparr>) jb
                in (JB_OK, Some fr, decrement_losspct (frame_out jb))))"

definition jb_get_inner :: "jitterbuf \<Rightarrow> int \<Rightarrow> int \<Rightarrow> jb_result" where
  "jb_get_inner jb now interpl =
     (let jb = jb_target (history_get jb);
          diff = target (info jb) - current (info jb)
      in if silence_begin_ts (info jb) = 0 then jb_get_talk jb diff now interpl
         else jb_get_silent jb diff now interpl)"

definition jb_next :: "jitterbuf \<Rightarrow> int \<times> jitterbuf" where
  "jb_next jb =
     (if silence_begin_ts (info jb) \<noteq> 0
      then
        if frames jb \<noteq> []
        then
          (let nxt = queue_next jb;
               jb = history_get jb;
               i = info jb
           in if target i - current i < - target_extra (conf i)
              then (last_adjustment i + 10, jb)
              else (nxt + target i, jb))
        else (JB_LONGMAX, jb)
      else (next_voice_ts (info jb), jb))"

text \<open>The last component is the length written to \<open>frameout\<close> for an interpolated frame.\<close>

definition jb_get :: "jitterbuf \<Rightarrow> int \<Rightarrow> int \<Rightarrow> jb_result \<times> int option" where
  "jb_get jb now interpl =
     (case jb_get_inner jb now interpl of
        (r, out, jb) \<Rightarrow>
          ((r, out, jb), if r = JB_INTERP then Some (last_voice_ms (info jb)) else None))"

definition jb_getall :: "jitterbuf \<Rightarrow> jb_result" where
  "jb_getall jb =
     (case queue_getall jb of
        (None, jb) \<Rightarrow> (JB_NOFRAME, None, jb)
      | (Some fr, jb) \<Rightarrow> (JB_OK, Some fr, jb))"

definition jb_getinfo :: "jitterbuf \<Rightarrow> jb_info \<times> jitterbuf" where
  "jb_getinfo jb = (let jb = history_get jb in (info jb, jb))"

definition jb_setconf :: "jitterbuf \<Rightarrow> jb_conf \<Rightarrow> jitterbuf" where
  "jb_setconf jb cf =
     (let te = (if target_extra cf = - 1 then JB_TARGET_EXTRA else target_extra cf)
      in upd_info (\<lambda>i. i\<lparr>conf := (conf i)\<lparr>max_jitterbuf := max_jitterbuf cf,
                                    resync_threshold := resync_threshold cf,
                                    max_contig_interp := max_contig_interp cf,
                                    target_extra := te\<rparr>,
                         current := te, target := te\<rparr>) jb)"

section \<open>The top and bottom delays\<close>

text \<open>The reference: the window of recorded delays as a multiset, and its greatest and smallest
  values in order (padded with the two limits).\<close>

definition window :: "jitterbuf \<Rightarrow> int multiset" where
  "window jb = mset (take (hist_ptr jb) (history jb))"

definition tops :: "int multiset \<Rightarrow> int list" where
  "tops W = take JB_HISTORY_MAXBUF_SZ
     (rev (sorted_list_of_multiset (W + replicate_mset JB_HISTORY_MAXBUF_SZ JB_LONGMIN)))"

definition bottoms :: "int multiset \<Rightarrow> int list" where
  "bottoms W = take JB_HISTORY_MAXBUF_SZ
     (sorted_list_of_multiset (W + replicate_mset JB_HISTORY_MAXBUF_SZ JB_LONGMAX))"

lemma sz [simp]: "JB_HISTORY_SZ = 500" "JB_HISTORY_MAXBUF_SZ = 20"
  by (simp_all add: JB_HISTORY_MAXBUF_SZ_def JB_HISTORY_SZ_def JB_HISTORY_DROPPCT_MAX_def)

lemma move_in_insort:
  fixes x :: "'a::linorder"
  shows "sorted ys \<Longrightarrow> ys \<noteq> [] \<Longrightarrow> x < last ys \<Longrightarrow> move_in (<) x ys = butlast (insort x ys)"
proof (induction ys)
  case (Cons y ys)
  show ?case
  proof (cases "x < y")
    case True
    then show ?thesis by (auto simp: less_imp_le)
  next
    case False
    then have ne: "ys \<noteq> []" using Cons.prems(3) by auto
    then have ih: "move_in (<) x ys = butlast (insort x ys)" using Cons by simp
    show ?thesis
    proof (cases "x = y")
      case True
      have "insort y ys = y # ys" using Cons.prems(1) by (cases ys) auto
      then show ?thesis using ih True ne by simp
    next
      case False
      then show ?thesis using \<open>\<not> x < y\<close> ih by simp
    qed
  qed
qed simp

lemma butlast_insort_ge:
  fixes x :: "'a::linorder"
  assumes "sorted ys" "ys \<noteq> []" "\<not> x < last ys"
  shows "butlast (insort x ys) = ys"
proof -
  have "last ys \<le> x" using assms(3) by simp
  moreover have "\<forall>y \<in> set ys. y \<le> last ys"
    using assms(1,2) by (induction ys) auto
  ultimately have "\<forall>y \<in> set ys. y \<le> x" by fastforce
  then have "sorted (ys @ [x])" using assms(1) by (simp add: sorted_append)
  then have "sort (x # ys) = ys @ [x]" by (intro properties_for_sort) auto
  then show ?thesis using sorted_sort_id [OF assms(1)] by simp
qed

lemma take_insort:
  fixes x :: "'a::linorder"
  shows "k \<le> length ys \<Longrightarrow> take k (insort x ys) = butlast (insort x (take k ys))"
proof (induction ys arbitrary: k)
  case (Cons y ys)
  show ?case
  proof (cases k)
    case (Suc m)
    then have m: "m \<le> length ys" using Cons.prems by simp
    have "take m (y # ys) = butlast (y # take m ys)"
      using m butlast_take [of "Suc m" "y # ys"] by simp
    then show ?thesis using Cons.IH [OF m] Suc by (simp add: insort_not_Nil)
  qed simp
qed simp

lemma length_sorted_list [simp]: "length (sorted_list_of_multiset M) = size M"
  by (metis mset_sorted_list_of_multiset size_mset)

lemma buf_insert_less:
  assumes "length L \<ge> JB_HISTORY_MAXBUF_SZ" "sorted L"
  shows "buf_insert (<) (take JB_HISTORY_MAXBUF_SZ L) x = take JB_HISTORY_MAXBUF_SZ (insort x L)"
proof -
  let ?b = "take JB_HISTORY_MAXBUF_SZ L"
  have b: "sorted ?b" "?b \<noteq> []" using assms by (auto simp: sorted_wrt_take)
  have n: "?b ! (JB_HISTORY_MAXBUF_SZ - 1) = last ?b"
    using last_conv_nth [OF b(2)] assms(1) by (simp add: min_def)
  show ?thesis
    using move_in_insort [OF b(1,2), of x] butlast_insort_ge [OF b(1,2), of x] take_insort [OF assms(1), of x]
    unfolding buf_insert_def n by presburger
qed

text \<open>The maximum side is the minimum side of the negated values.\<close>

lemma move_in_neg:
  fixes x :: int
  shows "map uminus (move_in (>) x ys) = move_in (<) (- x) (map uminus ys)"
  by (induction ys) (auto simp: map_butlast)

lemma buf_insert_neg:
  fixes x :: int
  assumes "length buf = JB_HISTORY_MAXBUF_SZ"
  shows "map uminus (buf_insert (>) buf x) = buf_insert (<) (map uminus buf) (- x)"
  using assms move_in_neg [of x buf] by (simp add: buf_insert_def)

lemma sorted_list_neg:
  "map uminus (rev (sorted_list_of_multiset (M :: int multiset))) = sorted_list_of_multiset (image_mset uminus M)"
proof -
  let ?l = "map uminus (rev (sorted_list_of_multiset M))"
  have "sorted ?l" by (simp add: sorted_wrt_map sorted_wrt_rev)
  moreover have "mset ?l = image_mset uminus M" by (metis mset_map mset_rev mset_sorted_list_of_multiset)
  ultimately show ?thesis by (metis sorted_list_of_multiset_mset sorted_sort_id)
qed

lemma bottoms_insert: "buf_insert (<) (bottoms W) x = bottoms (add_mset x W)"
  using buf_insert_less [of "sorted_list_of_multiset (W + replicate_mset JB_HISTORY_MAXBUF_SZ JB_LONGMAX)" x]
  unfolding bottoms_def by simp

lemma tops_neg:
  "map uminus (tops W) = take JB_HISTORY_MAXBUF_SZ (sorted_list_of_multiset
     (image_mset uminus W + replicate_mset JB_HISTORY_MAXBUF_SZ (- JB_LONGMIN)))"
  unfolding tops_def take_map [symmetric] sorted_list_neg by simp

lemma length_tops [simp]: "length (tops W) = JB_HISTORY_MAXBUF_SZ"
  and length_bottoms [simp]: "length (bottoms W) = JB_HISTORY_MAXBUF_SZ"
  unfolding tops_def bottoms_def by simp_all

lemma map_uminus_inject: "map uminus xs = map uminus ys \<longleftrightarrow> xs = (ys :: int list)"
  by (simp add: inj_map_eq_map)

lemma tops_insert: "buf_insert (>) (tops W) x = tops (add_mset x W)"
proof -
  let ?N = "image_mset uminus W + replicate_mset JB_HISTORY_MAXBUF_SZ (- JB_LONGMIN)"
  have "map uminus (buf_insert (>) (tops W) x) = buf_insert (<) (map uminus (tops W)) (- x)"
    by (simp add: buf_insert_neg)
  also have "\<dots> = take JB_HISTORY_MAXBUF_SZ (insort (- x) (sorted_list_of_multiset ?N))"
    unfolding tops_neg by (rule buf_insert_less) simp_all
  also have "\<dots> = map uminus (tops (add_mset x W))"
    unfolding tops_neg by simp
  finally show ?thesis by (simp only: map_uminus_inject)
qed

lemma foldl_bottoms: "foldl (buf_insert (<)) (bottoms W) xs = bottoms (W + mset xs)"
  by (induction xs arbitrary: W) (simp_all add: bottoms_insert)

lemma foldl_tops: "foldl (buf_insert (>)) (tops W) xs = tops (W + mset xs)"
  by (induction xs arbitrary: W) (simp_all add: tops_insert)

lemma sorted_list_replicate: "sorted_list_of_multiset (replicate_mset n x) = replicate n x"
proof -
  have "sorted_list_of_multiset (mset (replicate n x)) = sort (replicate n x)" by (rule sorted_list_of_multiset_mset)
  moreover have "sorted (replicate n x)" by simp
  ultimately show ?thesis by (simp add: sorted_sort_id)
qed

lemma tops_empty: "tops {#} = replicate JB_HISTORY_MAXBUF_SZ JB_LONGMIN"
  and bottoms_empty: "bottoms {#} = replicate JB_HISTORY_MAXBUF_SZ JB_LONGMAX"
  by (simp_all add: tops_def bottoms_def sorted_list_replicate)

text \<open>The ring buffer: reading the last 500 entries modulo 500 yields the whole buffer.\<close>

lemma ring_mset:
  assumes "0 < n"
  shows "mset (map (\<lambda>i. f (i mod n)) [k..<k + n]) = mset (map f [0..<n])"
proof (induction k)
  case (Suc k)
  have "[k..<k + n] = k # [Suc k..<k + n]" using assms by (simp add: upt_conv_Cons)
  then have "mset (map (\<lambda>i. f (i mod n)) [Suc k..<Suc k + n]) =
      mset (map (\<lambda>i. f (i mod n)) [k..<k + n])" using assms by simp
  then show ?case using Suc by simp
next
  case 0
  have "map (\<lambda>i. f (i mod n)) [0..<0 + n] = map f [0..<n]" by simp
  then show ?case by (simp only:)
qed

definition hist_wf :: "jitterbuf \<Rightarrow> bool" where
  "hist_wf jb \<longleftrightarrow> length (history jb) = JB_HISTORY_SZ \<and>
     (hist_maxbuf_valid jb \<longrightarrow> 0 < hist_ptr jb \<and>
        hist_maxbuf jb = tops (window jb) \<and> hist_minbuf jb = bottoms (window jb))"

lemma calc_toins:
  assumes "length (history jb) = JB_HISTORY_SZ"
  shows "mset (map (\<lambda>i. history jb ! (i mod JB_HISTORY_SZ))
      [if JB_HISTORY_SZ < hist_ptr jb then hist_ptr jb - JB_HISTORY_SZ else 0..<hist_ptr jb]) = window jb"
proof (cases "JB_HISTORY_SZ < hist_ptr jb")
  case True
  then obtain k where k: "hist_ptr jb = k + JB_HISTORY_SZ" by (metis add.commute le_add_diff_inverse less_imp_le)
  have "map ((!) (history jb)) [0..<JB_HISTORY_SZ] = history jb" using assms by (metis map_nth)
  then show ?thesis
    using True ring_mset [of JB_HISTORY_SZ "(!) (history jb)" k] assms by (simp add: k window_def)
next
  case False
  then have "map (\<lambda>i. history jb ! (i mod JB_HISTORY_SZ)) [0..<hist_ptr jb] = take (hist_ptr jb) (history jb)"
    using assms by (intro nth_equalityI) auto
  then show ?thesis using False by (simp add: window_def)
qed

lemma calc_maxbuf_wf:
  assumes "hist_wf jb"
  shows "hist_wf (history_calc_maxbuf jb)" "window (history_calc_maxbuf jb) = window jb"
    "0 < hist_ptr jb \<Longrightarrow> hist_maxbuf_valid (history_calc_maxbuf jb)"
  using assms calc_toins [of jb] foldl_tops [of "{#}"] foldl_bottoms [of "{#}"]
  by (auto simp: history_calc_maxbuf_def hist_wf_def window_def Let_def tops_empty bottoms_empty)

lemma record_window:
  assumes "length (history jb) = JB_HISTORY_SZ"
  shows "window (history_record jb d) =
    (if hist_ptr jb < JB_HISTORY_SZ then add_mset d (window jb)
     else add_mset d (window jb - {#history jb ! (hist_ptr jb mod JB_HISTORY_SZ)#}))"
proof -
  let ?i = "hist_ptr jb mod JB_HISTORY_SZ"
  have w: "window (history_record jb d) = mset (take (Suc (hist_ptr jb)) ((history jb)[?i := d]))"
    by (simp add: history_record_def window_def Let_def)
  show ?thesis
  proof (cases "hist_ptr jb < JB_HISTORY_SZ")
    case True
    then show ?thesis using assms w by (simp add: window_def take_Suc_update)
  next
    case False
    then show ?thesis using assms w by (simp add: window_def mset_update)
  qed
qed

text \<open>A value not below the 20th smallest leaves the 20 smallest as they are, whether it comes or
  goes.\<close>

lemma take_insort_same:
  fixes x :: "'a::linorder"
  assumes "sorted L" "JB_HISTORY_MAXBUF_SZ \<le> length L"
    and "L ! (JB_HISTORY_MAXBUF_SZ - 1) \<le> x"
  shows "take JB_HISTORY_MAXBUF_SZ (insort x L) = take JB_HISTORY_MAXBUF_SZ L"
  using buf_insert_less [OF assms(2,1), of x] assms(2,3) by (simp add: buf_insert_def not_less [symmetric])

lemma insort_split: "\<exists>A B. L = A @ B \<and> insort x L = A @ x # B"
proof (induction L)
  case (Cons y L)
  then obtain A B where i: "L = A @ B" "insort x L = A @ x # B" by blast
  show ?case
  proof (cases "x \<le> y")
    case True
    then show ?thesis by (intro exI [of _ "[]"] exI [of _ "y # L"]) simp
  next
    case False
    then show ?thesis using i by (intro exI [of _ "y # A"] exI [of _ B]) simp
  qed
qed simp

lemma take_insort_drop:
  fixes x :: "'a::linorder"
  assumes "sorted L" "insort x L ! (JB_HISTORY_MAXBUF_SZ - 1) < x" "JB_HISTORY_MAXBUF_SZ \<le> length L"
  shows "take JB_HISTORY_MAXBUF_SZ (insort x L) = take JB_HISTORY_MAXBUF_SZ L"
proof -
  obtain A B where i: "L = A @ B" "insort x L = A @ x # B" using insort_split by blast
  have st: "sorted (A @ x # B)" using sorted_insort [of x L] assms(1) i by simp
  have "20 \<le> length A"
  proof (rule ccontr)
    assume "\<not> 20 \<le> length A"
    then have "(A @ x # B) ! length A \<le> (A @ x # B) ! 19"
      using assms(3) i by (intro sorted_nth_mono [OF st]) auto
    then show False using assms(2) i by simp
  qed
  then show ?thesis using i by simp
qed

lemma bottoms_same:
  assumes "\<not> d < bottoms W ! (JB_HISTORY_MAXBUF_SZ - 1)"
  shows "bottoms (add_mset d W) = bottoms W"
  using bottoms_insert [of W d] assms by (simp add: buf_insert_def)

lemma bottoms_drop:
  assumes "k \<in># W" "bottoms W ! (JB_HISTORY_MAXBUF_SZ - 1) < k"
  shows "bottoms (W - {#k#}) = bottoms W"
proof -
  let ?L = "sorted_list_of_multiset ((W - {#k#}) + replicate_mset JB_HISTORY_MAXBUF_SZ JB_LONGMAX)"
  have "W + replicate_mset JB_HISTORY_MAXBUF_SZ JB_LONGMAX =
      add_mset k ((W - {#k#}) + replicate_mset JB_HISTORY_MAXBUF_SZ JB_LONGMAX)"
    using assms(1) by simp
  then have e: "bottoms W = take JB_HISTORY_MAXBUF_SZ (insort k ?L)"
    unfolding bottoms_def by (metis sorted_list_of_multiset_insert)
  have "take JB_HISTORY_MAXBUF_SZ (insort k ?L) = take JB_HISTORY_MAXBUF_SZ ?L"
    using assms(2) unfolding e by (intro take_insort_drop) simp_all
  then show ?thesis using e by (simp add: bottoms_def)
qed

lemma tops_same:
  assumes "\<not> tops W ! (JB_HISTORY_MAXBUF_SZ - 1) < d"
  shows "tops (add_mset d W) = tops W"
  using tops_insert [of W d] assms by (simp add: buf_insert_def)

lemma tops_drop:
  assumes "k \<in># W" "k < tops W ! (JB_HISTORY_MAXBUF_SZ - 1)"
  shows "tops (W - {#k#}) = tops W"
proof -
  let ?R = "replicate_mset JB_HISTORY_MAXBUF_SZ (- JB_LONGMIN)"
  let ?L = "sorted_list_of_multiset (image_mset uminus (W - {#k#}) + ?R)"
  have "image_mset uminus W + ?R = add_mset (- k) (image_mset uminus (W - {#k#}) + ?R)"
    using assms(1) by (metis add_mset_add_single image_mset_add_mset insert_DiffM union_mset_add_mset_left)
  then have e: "map uminus (tops W) = take JB_HISTORY_MAXBUF_SZ (insort (- k) ?L)"
    unfolding tops_neg by (metis sorted_list_of_multiset_insert)
  have "insort (- k) ?L ! (JB_HISTORY_MAXBUF_SZ - 1) = map uminus (tops W) ! (JB_HISTORY_MAXBUF_SZ - 1)"
    unfolding e by simp
  also have "\<dots> < - k" using assms(2) by simp
  finally have "take JB_HISTORY_MAXBUF_SZ (insort (- k) ?L) = take JB_HISTORY_MAXBUF_SZ ?L"
    by (intro take_insort_drop) simp_all
  then have "map uminus (tops (W - {#k#})) = map uminus (tops W)" using e by (simp add: tops_neg)
  then show ?thesis by (simp only: map_uminus_inject)
qed

lemma record_wf:
  assumes wf: "hist_wf jb"
  shows "hist_wf (history_record jb d)"
proof (cases "hist_maxbuf_valid (history_record jb d)")
  case False
  then show ?thesis using wf by (auto simp: hist_wf_def history_record_def Let_def)
next
  case True
  let ?i = "hist_ptr jb mod JB_HISTORY_SZ"
  let ?k = "history jb ! ?i"
  have v: "hist_maxbuf_valid jb" "JB_HISTORY_SZ \<le> Suc (hist_ptr jb)"
    "\<not> d < hist_minbuf jb ! (JB_HISTORY_MAXBUF_SZ - 1)" "\<not> hist_maxbuf jb ! (JB_HISTORY_MAXBUF_SZ - 1) < d"
    "hist_minbuf jb ! (JB_HISTORY_MAXBUF_SZ - 1) < ?k" "?k < hist_maxbuf jb ! (JB_HISTORY_MAXBUF_SZ - 1)"
    using True by (auto simp: history_record_def Let_def split: if_splits)
  have b: "hist_maxbuf jb = tops (window jb)" "hist_minbuf jb = bottoms (window jb)"
    and l: "length (history jb) = JB_HISTORY_SZ" using wf v(1) by (auto simp: hist_wf_def)
  have f: "hist_maxbuf (history_record jb d) = hist_maxbuf jb" "hist_minbuf (history_record jb d) = hist_minbuf jb"
    "length (history (history_record jb d)) = length (history jb)" "hist_ptr (history_record jb d) = Suc (hist_ptr jb)"
    by (auto simp: history_record_def Let_def)
  define U where "U = (if hist_ptr jb < JB_HISTORY_SZ then window jb else window jb - {#?k#})"
  have "tops U = tops (window jb) \<and> bottoms U = bottoms (window jb)"
  proof (cases "hist_ptr jb < JB_HISTORY_SZ")
    case False
    then have "?k \<in># window jb" using l by (simp add: window_def)
    then show ?thesis using tops_drop bottoms_drop v(5,6) b False by (simp add: U_def)
  qed (simp add: U_def)
  moreover have "window (history_record jb d) = add_mset d U"
    using record_window [OF l, of d] by (simp add: U_def)
  ultimately have "tops (window (history_record jb d)) = tops (window jb)"
    "bottoms (window (history_record jb d)) = bottoms (window jb)"
    using tops_same [where d = d and W = U] bottoms_same [where d = d and W = U] v(3,4) b by simp_all
  then show ?thesis using b f l by (simp add: hist_wf_def)
qed


lemma sorted_list_append_replicate_max:
  assumes "\<forall>d \<in># W. d \<le> (m :: int)"
  shows "sorted_list_of_multiset (W + replicate_mset n m) = sorted_list_of_multiset W @ replicate n m"
proof -
  let ?l = "sorted_list_of_multiset W @ replicate n m"
  have "sorted ?l" using assms by (auto simp: sorted_append)
  moreover have "mset ?l = W + replicate_mset n m" by simp
  ultimately show ?thesis by (metis sorted_list_of_multiset_mset sorted_sort_id)
qed

lemma sorted_list_append_replicate_min:
  assumes "\<forall>d \<in># W. (m :: int) \<le> d"
  shows "sorted_list_of_multiset (W + replicate_mset n m) = replicate n m @ sorted_list_of_multiset W"
proof -
  let ?l = "replicate n m @ sorted_list_of_multiset W"
  have "sorted ?l" using assms by (auto simp: sorted_append)
  moreover have "mset ?l = W + replicate_mset n m" by simp
  ultimately show ?thesis by (metis sorted_list_of_multiset_mset sorted_sort_id)
qed

lemma bottoms_nth:
  assumes "\<forall>d \<in># W. d \<le> JB_LONGMAX" "i < 20" "i < size W"
  shows "bottoms W ! i = sorted_list_of_multiset W ! i"
  using assms by (simp add: bottoms_def sorted_list_append_replicate_max nth_append)

lemma tops_nth:
  assumes "\<forall>d \<in># W. JB_LONGMIN \<le> d" "i < 20" "i < size W"
  shows "tops W ! i = sorted_list_of_multiset W ! (size W - 1 - i)"
  using assms by (simp add: tops_def sorted_list_append_replicate_min nth_append rev_nth)

lemma size_window:
  "length (history jb) = JB_HISTORY_SZ \<Longrightarrow>
   size (window jb) = (if hist_ptr jb < JB_HISTORY_SZ then hist_ptr jb else JB_HISTORY_SZ)"
  by (simp add: window_def)

lemma history_get_info:
  assumes "hist_wf jb"
  defines "jb1 \<equiv> (if hist_maxbuf_valid jb then jb else history_calc_maxbuf jb)"
  shows "history_get jb = jb1\<lparr>info := (info jb)\<lparr>jb_min := hist_minbuf jb1 ! (size (window jb) * 3 div 100),
      jitter := hist_maxbuf jb1 ! (size (window jb) * 3 div 100) - hist_minbuf jb1 ! (size (window jb) * 3 div 100)\<rparr>\<rparr>"
    "hist_wf jb1" "window jb1 = window jb" "0 < hist_ptr jb \<Longrightarrow> hist_maxbuf_valid jb1"
proof -
  have i: "info jb1 = info jb" "hist_ptr jb1 = hist_ptr jb"
    by (auto simp: jb1_def history_calc_maxbuf_def Let_def)
  show "hist_wf jb1" "window jb1 = window jb" "0 < hist_ptr jb \<Longrightarrow> hist_maxbuf_valid jb1"
    using calc_maxbuf_wf [OF assms(1)] assms(1) by (auto simp: jb1_def)
  have w: "size (window jb) = (if hist_ptr jb < 500 then hist_ptr jb else 500)"
    using size_window [of jb] assms(1) by (simp add: hist_wf_def)
  have j: "(if \<not> hist_maxbuf_valid jb then history_calc_maxbuf jb else jb) = jb1"
    by (simp add: jb1_def)
  have s: "(if 20 - 1 < size (window jb) * 3 div 100 then 20 - 1 else size (window jb) * 3 div 100) =
      size (window jb) * 3 div 100"
    using w by (auto split: if_splits)
  show "history_get jb = jb1\<lparr>info := (info jb)\<lparr>jb_min := hist_minbuf jb1 ! (size (window jb) * 3 div 100),
      jitter := hist_maxbuf jb1 ! (size (window jb) * 3 div 100) - hist_minbuf jb1 ! (size (window jb) * 3 div 100)\<rparr>\<rparr>"
    unfolding history_get_def j Let_def i sz JB_HISTORY_DROPPCT_def w [symmetric] s
    by simp
qed

lemma history_get_wf:
  assumes "hist_wf jb"
  shows "hist_wf (history_get jb)"
  using history_get_info(1,2) [OF assms] by (simp add: hist_wf_def window_def)

text \<open>Claim C17. The jitter measured from the history, in spite of the buffers of extreme values
  that are only recomputed when a new delay could change them, is exactly the spread of the delays
  in the window after the 3\% highest and the 3\% lowest are left out.\<close>

theorem history_get_percentiles:
  assumes "hist_wf jb" and "0 < hist_ptr jb"
    and "\<forall>d \<in># window jb. JB_LONGMIN \<le> d \<and> d \<le> JB_LONGMAX"
    and "ds = sorted_list_of_multiset (window jb)" and "drop_n = length ds * 3 div 100"
  shows "jb_min (info (history_get jb)) = ds ! drop_n \<and>
         jitter (info (history_get jb)) = ds ! (length ds - 1 - drop_n) - ds ! drop_n"
proof -
  define jb1 where "jb1 = (if hist_maxbuf_valid jb then jb else history_calc_maxbuf jb)"
  note h = history_get_info [OF assms(1), folded jb1_def]
  have b: "hist_maxbuf jb1 = tops (window jb)" "hist_minbuf jb1 = bottoms (window jb)"
    using h(2,3) h(4) [OF assms(2)] by (auto simp: hist_wf_def)
  have n: "size (window jb) \<le> 500" "0 < size (window jb)" "length ds = size (window jb)"
    using assms(1,2,4) size_window [of jb] by (auto simp: hist_wf_def)
  then have i: "drop_n < 20" "drop_n < size (window jb)" using assms(5) by auto
  have e: "drop_n = size (window jb) * 3 div 100" using assms(5) n(3) by simp
  have lo: "\<forall>d \<in># window jb. d \<le> JB_LONGMAX" and hi: "\<forall>d \<in># window jb. JB_LONGMIN \<le> d"
    using assms(3) by auto
  show ?thesis
    unfolding h(1) e [symmetric] b bottoms_nth [OF lo i] tops_nth [OF hi i]
    using n(3) assms(4) by simp
qed

lemma reset_wf: "hist_wf (jb_reset jb)"
  by (simp add: hist_wf_def jb_reset_def Let_def)

lemma reset_window [simp]: "window (jb_reset jb) = {#}" "hist_ptr (jb_reset jb) = 0"
  "length (history (jb_reset jb)) = JB_HISTORY_SZ"
  by (simp_all add: window_def jb_reset_def Let_def)

lemma record_fields [simp]:
  "hist_ptr (history_record jb d) = Suc (hist_ptr jb)"
  "length (history (history_record jb d)) = length (history jb)"
  "info (history_record jb d) = info jb" "frames (history_record jb d) = frames jb"
  "free (history_record jb d) = free jb"
  by (auto simp: history_record_def Let_def)

theorem history_get_percentiles_witness:
  "jb_min (info (history_get (history_record (history_record (jb_reset undefined) 7) 3))) = 3"
proof -
  let ?jb = "history_record (history_record (jb_reset undefined) 7) 3"
  have wf: "hist_wf ?jb" by (intro record_wf reset_wf)
  have w: "window ?jb = {#3, 7#}" by (simp add: record_window)
  have s: "sorted_list_of_multiset {#3, 7::int#} = [3, 7]" by simp
  have "\<forall>d \<in># window ?jb. JB_LONGMIN \<le> d \<and> d \<le> JB_LONGMAX"
    unfolding w by (simp add: JB_LONGMIN_def JB_LONGMAX_def)
  from history_get_percentiles [OF wf _ this refl refl] show ?thesis unfolding w s by simp
qed

section \<open>Invariant of the buffer\<close>

text \<open>The queue is in order of timestamps and counted, the delay history is well formed, and the
  loss percentage (times 1000) stays within its scale.\<close>

definition jb_inv :: "jitterbuf \<Rightarrow> bool" where
  "jb_inv jb \<longleftrightarrow> hist_wf jb \<and> sorted (map fr_ts (frames jb)) \<and>
     frames_cur (info jb) = int (length (frames jb)) \<and>
     0 \<le> losspct (info jb) \<and> losspct (info jb) \<le> 100000"

text \<open>The parts of the state that the invariant reads; an operation that leaves them alone keeps
  it.\<close>

definition core :: "jitterbuf \<Rightarrow> int list \<times> nat \<times> (int list \<times> int list \<times> bool) \<times> jb_frame list \<times> int" where
  "core jb = (history jb, hist_ptr jb, (hist_maxbuf jb, hist_minbuf jb, hist_maxbuf_valid jb),
     frames jb, frames_cur (info jb))"

lemma core_inv:
  "core jb = core jb' \<Longrightarrow> jb_inv jb \<Longrightarrow> 0 \<le> losspct (info jb') \<Longrightarrow> losspct (info jb') \<le> 100000 \<Longrightarrow> jb_inv jb'"
  by (auto simp: core_def jb_inv_def hist_wf_def window_def)

lemma losspct_steps:
  "core (increment_losspct jb) = core jb" "core (decrement_losspct jb) = core jb"
  by (simp_all add: core_def increment_losspct_def decrement_losspct_def)

lemma increment_inv: "jb_inv jb \<Longrightarrow> jb_inv (increment_losspct jb)"
  by (rule core_inv [OF losspct_steps(1) [symmetric]])
     (auto simp: jb_inv_def increment_losspct_def)

lemma decrement_inv: "jb_inv jb \<Longrightarrow> jb_inv (decrement_losspct jb)"
  by (rule core_inv [OF losspct_steps(2) [symmetric]])
     (auto simp: jb_inv_def decrement_losspct_def)

lemma upd_info_inv:
  "jb_inv jb \<Longrightarrow> (\<And>i. frames_cur (f i) = frames_cur i) \<Longrightarrow> (\<And>i. losspct (f i) = losspct i) \<Longrightarrow>
   jb_inv (upd_info f jb)"
  by (auto simp: jb_inv_def hist_wf_def window_def)

lemma reset_inv: "jb_inv (jb_reset jb)"
  by (simp add: jb_inv_def reset_wf) (simp add: jb_reset_def Let_def)


section \<open>The operations keep the invariant\<close>

lemma queue_walk_split:
  "queue_walk ts before after = (b, a) \<Longrightarrow> rev before @ after = rev b @ a"
proof (induction ts before after rule: queue_walk.induct)
  case (2 ts p before after)
  show ?case
  proof (cases "ts < fr_ts p")
    case True
    then have "rev before @ p # after = rev b @ a" using 2 by simp
    then show ?thesis by simp
  next
    case False
    then show ?thesis using "2.prems" by auto
  qed
qed simp

lemma queue_walk_bounds:
  "queue_walk ts before after = (b, a) \<Longrightarrow> \<forall>p \<in> set after. ts < fr_ts p \<Longrightarrow>
   (\<forall>p \<in> set a. ts < fr_ts p) \<and> (b = [] \<or> fr_ts (hd b) \<le> ts)"
proof (induction ts before after rule: queue_walk.induct)
  case (2 ts p before after)
  show ?case
  proof (cases "ts < fr_ts p")
    case True
    then show ?thesis using 2 by simp
  next
    case False
    then show ?thesis using "2.prems" by auto
  qed
qed simp

lemma queue_insert_sorted:
  assumes "sorted (map fr_ts (p # ps))" "fr_ts p \<le> fr_ts f" "queue_walk (fr_ts f) (rev ps) [] = (b, a)"
  shows "sorted (map fr_ts (p # rev b @ f # a))" "mset (p # rev b @ f # a) = add_mset f (mset (p # ps))"
proof -
  have ps: "ps = rev b @ a" using queue_walk_split [OF assms(3)] by simp
  then show "mset (p # rev b @ f # a) = add_mset f (mset (p # ps))" by simp
  have bd: "\<forall>p \<in> set a. fr_ts f < fr_ts p" "b = [] \<or> fr_ts (hd b) \<le> fr_ts f"
    using queue_walk_bounds [OF assms(3)] by auto
  have "\<forall>x \<in> set b. fr_ts x \<le> fr_ts f"
  proof (cases b)
    case (Cons x b')
    have "\<forall>y \<in> set b'. fr_ts y \<le> fr_ts x"
      using assms(1) Cons ps by (simp add: sorted_append)
    then show ?thesis using bd(2) Cons by fastforce
  qed simp
  then show "sorted (map fr_ts (p # rev b @ f # a))"
    using assms(1,2) bd(1) ps by (auto simp: sorted_append less_imp_le)
qed

definition new_frame :: "jitterbuf \<Rightarrow> nat \<Rightarrow> jb_frame_type \<Rightarrow> int \<Rightarrow> int \<Rightarrow> jb_frame" where
  "new_frame jb dat type ms ts =
     \<lparr>fr_data = dat, fr_ts = ts - resync_offset (info jb), fr_ms = ms, fr_type = type\<rparr>"

lemma queue_put_inv:
  assumes inv: "jb_inv jb" and put: "queue_put jb dat type ms ts True = (h, jb')"
  shows "jb_inv jb'" "mset (frames jb') = add_mset (new_frame jb dat type ms ts) (mset (frames jb))"
    "h \<longleftrightarrow> frames jb = [] \<or> fr_ts (new_frame jb dat type ms ts) < fr_ts (hd (frames jb))"
proof -
  let ?f = "new_frame jb dat type ms ts"
  have st: "sorted (map fr_ts (frames jb))" and wf: "hist_wf jb" using inv by (auto simp: jb_inv_def)
  have "hist_wf jb' \<and> sorted (map fr_ts (frames jb')) \<and>
      mset (frames jb') = add_mset ?f (mset (frames jb)) \<and>
      frames_cur (info jb') = frames_cur (info jb) + 1 \<and> losspct (info jb') = losspct (info jb) \<and>
      (h \<longleftrightarrow> frames jb = [] \<or> fr_ts ?f < fr_ts (hd (frames jb)))"
  proof (cases "frames jb")
    case Nil
    then have "h" "jb' = upd_info (\<lambda>i. i\<lparr>frames_cur := frames_cur i + 1\<rparr>) (jb\<lparr>free := tl (free jb), frames := [?f]\<rparr>)"
      using put by (auto simp: queue_put_def new_frame_def Let_def)
    then show ?thesis using Nil wf by (simp add: hist_wf_def window_def)
  next
    case (Cons p ps)
    show ?thesis
    proof (cases "fr_ts ?f < fr_ts p")
      case True
      then have "h" "jb' = upd_info (\<lambda>i. i\<lparr>frames_cur := frames_cur i + 1, frames_ooo := frames_ooo i + 1\<rparr>)
            (jb\<lparr>free := tl (free jb), frames := ?f # p # ps\<rparr>)"
        using put Cons by (auto simp: queue_put_def new_frame_def Let_def)
      then show ?thesis using Cons wf st True by (auto simp: hist_wf_def window_def)
    next
      case False
      obtain b a where w: "queue_walk (fr_ts ?f) (rev ps) [] = (b, a)" by (metis surjective_pairing)
      note q = queue_insert_sorted [OF st [unfolded Cons] _ w] 
      have "\<not> h" and fr: "frames jb' = p # rev b @ ?f # a" and "hist_wf jb'"
        and "frames_cur (info jb') = frames_cur (info jb) + 1" and "losspct (info jb') = losspct (info jb)"
        using put Cons False w wf
        by (auto simp: queue_put_def new_frame_def Let_def hist_wf_def window_def split: if_splits)
      then show ?thesis using q False Cons by auto
    qed
  qed
  then have r: "hist_wf jb'" "sorted (map fr_ts (frames jb'))"
      "frames_cur (info jb') = frames_cur (info jb) + 1" "losspct (info jb') = losspct (info jb)"
    and m: "mset (frames jb') = add_mset ?f (mset (frames jb))"
    and h: "h \<longleftrightarrow> frames jb = [] \<or> fr_ts ?f < fr_ts (hd (frames jb))" by auto
  have "length (frames jb') = Suc (length (frames jb))" using arg_cong [OF m, of size] by simp
  then show "jb_inv jb'" using inv r by (simp add: jb_inv_def)
  show "mset (frames jb') = add_mset ?f (mset (frames jb))" by (rule m)
  show "h \<longleftrightarrow> frames jb = [] \<or> fr_ts ?f < fr_ts (hd (frames jb))" by (rule h)
qed

lemma queue_get_inv:
  assumes "jb_inv jb" "queue_get_gen jb ts all = (out, jb')"
  shows "jb_inv jb' \<and> frames jb = (case out of Some fr \<Rightarrow> fr # frames jb' | None \<Rightarrow> frames jb') \<and>
    (case out of Some fr \<Rightarrow> all \<or> fr_ts fr \<le> ts | None \<Rightarrow> True)"
proof (cases "frames jb")
  case Nil
  then show ?thesis using assms by (auto simp: queue_get_gen_def)
next
  case (Cons fr frs)
  show ?thesis
  proof (cases "all \<or> fr_ts fr \<le> ts")
    case True
    then have "out = Some fr" "jb' = upd_info (\<lambda>i. i\<lparr>frames_cur := frames_cur i - 1\<rparr>)
        (jb\<lparr>frames := frs, free := fr # free jb\<rparr>)"
      using assms(2) Cons by (auto simp: queue_get_gen_def)
    then show ?thesis using assms(1) Cons True by (auto simp: jb_inv_def hist_wf_def window_def)
  next
    case False
    then show ?thesis using assms Cons by (auto simp: queue_get_gen_def)
  qed
qed

lemma discont_inv:
  assumes "jb_inv jb" "history_discont jb ts now = (r, jb')"
  shows "jb_inv jb' \<and> frames jb' = frames jb"
  using assms by (auto simp: history_discont_def Let_def jb_inv_def hist_wf_def window_def split: if_splits)

lemma record_inv: "jb_inv jb \<Longrightarrow> jb_inv (history_record jb d)"
  by (auto simp: jb_inv_def record_wf)

lemma history_put_inv:
  assumes "jb_inv jb" "history_put jb ts now ms = (r, jb')"
  shows "jb_inv jb' \<and> frames jb' = frames jb"
proof -
  obtain dd jd where d: "history_discont jb ts now = (dd, jd)" by (metis surjective_pairing)
  note i = discont_inv [OF assms(1) d]
  show ?thesis
    using assms d i record_inv [of jd] by (auto simp: history_put_def split: if_splits option.splits)
qed

lemma history_get_inv:
  assumes "jb_inv jb"
  shows "jb_inv (history_get jb)" "frames (history_get jb) = frames jb"
proof -
  have wf: "hist_wf jb" using assms by (simp add: jb_inv_def)
  have f: "frames (history_calc_maxbuf jb) = frames jb" by (simp add: history_calc_maxbuf_def Let_def)
  then show "frames (history_get jb) = frames jb" using history_get_info(1) [OF wf] by simp
  then show "jb_inv (history_get jb)"
    using assms history_get_wf [OF wf] history_get_info(1) [OF wf] by (simp add: jb_inv_def)
qed

section \<open>Putting and getting\<close>

lemma jb_put_inv:
  assumes inv: "jb_inv jb" and put: "jb_put jb dat type ms ts now True = (r, jb')"
  shows "jb_inv jb' \<and>
    (r = JB_DROP \<and> frames jb' = frames jb \<or>
     (r = JB_OK \<or> r = JB_SCHED) \<and>
     (\<exists>f. mset (frames jb') = add_mset f (mset (frames jb)) \<and> fr_data f = dat \<and> fr_ms f = ms \<and> fr_type f = type))"
proof -
  define n where "n = (if frames jb \<noteq> [] then fr_ts (last (frames jb)) - fr_ts (hd (frames jb)) else 0)"
  show ?thesis
  proof (cases "max_jitterbuf (conf (info jb)) \<le> n")
    case True
    have "r = JB_DROP \<and> jb' = upd_info (\<lambda>i. i\<lparr>frames_dropped := frames_dropped i + 1\<rparr>) (jb\<lparr>dropem := True\<rparr>)"
      using put True unfolding jb_put_def Let_def n_def [symmetric] by simp
    then show ?thesis using inv by (simp add: jb_inv_def hist_wf_def window_def)
  next
    case False
    define j0 where "j0 = jb\<lparr>dropem := False\<rparr>"
    have i0: "jb_inv j0" "frames j0 = frames jb"
      using inv by (auto simp: j0_def jb_inv_def hist_wf_def window_def)
    obtain q j1 where h: "(if type = JB_TYPE_VOICE then history_put j0 ts now ms else (0, j0)) = (q, j1)"
      by (metis surjective_pairing)
    have i1: "jb_inv j1" "frames j1 = frames jb"
      using h i0 history_put_inv [OF i0(1), of ts now ms] by (auto split: if_splits)
    define j2 where "j2 = upd_info (\<lambda>i. i\<lparr>frames_in := frames_in i + 1\<rparr>) j1"
    have i2: "jb_inv j2" "frames j2 = frames jb" using i1 by (auto simp: j2_def jb_inv_def hist_wf_def window_def)
    obtain hd' j3 where p: "queue_put j2 dat type ms ts True = (hd', j3)" by (metis surjective_pairing)
    note i3 = queue_put_inv [OF i2(1) p]
    have e: "(r, jb') = (if q \<noteq> 0 then (JB_DROP, upd_info (\<lambda>i. i\<lparr>frames_dropped := frames_dropped i + 1\<rparr>) j1)
        else (if hd' then JB_SCHED else JB_OK, j3))"
      using put False h p [unfolded j2_def] unfolding jb_put_def Let_def n_def [symmetric] j0_def [symmetric]
      by (cases "q = 0"; cases hd') simp_all
    show ?thesis
    proof (cases "q = 0")
      case True
      then have "mset (frames jb') = add_mset (new_frame j2 dat type ms ts) (mset (frames jb))"
        "jb_inv jb'" "r = JB_OK \<or> r = JB_SCHED" using e i3 i2(2) by (auto split: if_splits)
      moreover have "fr_data (new_frame j2 dat type ms ts) = dat \<and> fr_ms (new_frame j2 dat type ms ts) = ms \<and>
          fr_type (new_frame j2 dat type ms ts) = type" by (simp add: new_frame_def)
      ultimately show ?thesis by blast
    next
      case False
      then show ?thesis using e i1 by (simp add: jb_inv_def hist_wf_def window_def)
    qed
  qed
qed

lemma simple_inv [jb_simps]:
  "jb_inv jb \<Longrightarrow> jb_inv (frame_out jb)" "frames (frame_out jb) = frames jb"
  "jb_inv jb \<Longrightarrow> jb_inv (frame_late jb)" "frames (frame_late jb) = frames jb"
  "jb_inv jb \<Longrightarrow> jb_inv (interp_more jb)" "frames (interp_more jb) = frames jb"
  "jb_inv jb \<Longrightarrow> jb_inv (jb_target jb)" "frames (jb_target jb) = frames jb"
  "frames (increment_losspct jb) = frames jb" "frames (decrement_losspct jb) = frames jb"
proof -
  show o: "jb_inv (frame_out j)" if "jb_inv j" for j
    using that by (simp add: jb_inv_def hist_wf_def window_def frame_out_def)
  show "jb_inv jb \<Longrightarrow> jb_inv (frame_late jb)"
    using decrement_inv [OF o, of jb] by (simp add: jb_inv_def hist_wf_def window_def frame_late_def)
  show "jb_inv jb \<Longrightarrow> jb_inv (interp_more jb)"
    by (simp add: jb_inv_def hist_wf_def window_def interp_more_def Let_def)
  show "jb_inv jb \<Longrightarrow> jb_inv (jb_target jb)"
    by (simp add: jb_inv_def hist_wf_def window_def jb_target_def Let_def)
qed (simp_all add: frame_out_def frame_late_def interp_more_def jb_target_def Let_def
       increment_losspct_def decrement_losspct_def)

lemmas jb_inv_defs = jb_inv_def hist_wf_def window_def

text \<open>What a get may yield from a queue: a frame with one of the codes OK and DROP, or none.\<close>

definition get_ok :: "jitterbuf \<Rightarrow> jb_frame option \<Rightarrow> jb_result \<Rightarrow> bool" where
  "get_ok jb out res \<longleftrightarrow>
     (case res of (r, out', jb') \<Rightarrow>
        jb_inv jb' \<and> out' = out \<and> frames jb' = frames jb \<and>
        (if out = None then r = JB_INTERP \<or> r = JB_NOFRAME else r = JB_OK \<or> r = JB_DROP))"

lemma get_voice_ok:
  assumes "jb_inv jb"
  shows "get_ok jb out (jb_get_voice jb out diff now interpl)"
proof -
  have i: "jb_inv (upd_info f jb)" if "\<And>i. frames_cur (f i) = frames_cur i" "\<And>i. losspct (f i) = losspct i" for f
    using that assms by (simp add: jb_inv_defs)
  show ?thesis
    by (cases out)
      (auto simp: get_ok_def jb_get_voice_def Let_def jb_simps intro!: i simple_inv upd_info_inv
        increment_inv decrement_inv)
qed

text \<open>A get from the whole buffer: the frame it yields was the head of the queue.\<close>

definition get_head_ok :: "jitterbuf \<Rightarrow> jb_result \<Rightarrow> bool" where
  "get_head_ok jb res \<longleftrightarrow>
     (case res of (r, out, jb') \<Rightarrow>
        jb_inv jb' \<and>
        (case out of
           Some fr \<Rightarrow> frames jb = fr # frames jb' \<and> (r = JB_OK \<or> r = JB_DROP)
         | None \<Rightarrow> frames jb' = frames jb \<and> (r = JB_INTERP \<or> r = JB_NOFRAME)))"

lemma get_ok_head:
  assumes "get_ok jb1 out res" and "frames jb = (case out of Some fr \<Rightarrow> fr # frames jb1 | None \<Rightarrow> frames jb1)"
  shows "get_head_ok jb res"
  using assms by (auto simp: get_ok_def get_head_ok_def split: option.splits)

lemma get_head_okI:
  "jb_inv jb' \<Longrightarrow> frames jb = fr # frames jb' \<Longrightarrow> r = JB_OK \<or> r = JB_DROP \<Longrightarrow> get_head_ok jb (r, Some fr, jb')"
  by (simp add: get_head_ok_def)

lemma get_talk_ok:
  assumes inv: "jb_inv jb"
  shows "get_head_ok jb (jb_get_talk jb diff now interpl)"
proof (cases "0 < diff \<and>
    (last_adjustment (info jb) + JB_ADJUST_DELAY < now \<or> queue_last jb - queue_next jb < diff)")
  case True
  then show ?thesis
    using inv by (auto simp: jb_get_talk_def get_head_ok_def jb_simps intro!: simple_inv upd_info_inv)
next
  case False
  obtain out j1 where q: "queue_get_gen jb (next_voice_ts (info jb) - current (info jb)) False = (out, j1)"
    by (metis surjective_pairing)
  note i = queue_get_inv [OF inv q]
  note e0 = jb_get_talk_def [of jb diff now interpl, unfolded if_not_P [OF False] queue_get_def q]
  show ?thesis
  proof (cases out)
    case None
    then have j: "jb_inv j1" "frames jb = frames j1" using i by simp_all
    have "get_head_ok jb (jb_get_voice j1 None diff now interpl)"
      by (rule get_ok_head [OF get_voice_ok [OF j(1)]]) (simp add: j(2))
    then show ?thesis using None e0 by simp
  next
    case (Some fr)
    then have j1: "jb_inv j1" "frames jb = fr # frames j1" using i by auto
    have voice: "get_head_ok jb (jb_get_voice (upd_info f j1) (Some fr) diff now interpl)"
      if "\<And>i. frames_cur (f i) = frames_cur i" "\<And>i. losspct (f i) = losspct i" for f
      using j1 that by (intro get_ok_head [OF get_voice_ok] upd_info_inv) auto
    have e: "jb_get_talk jb diff now interpl =
        (if fr_type fr \<noteq> JB_TYPE_VOICE
         then (JB_OK, Some fr, frame_out (if fr_type fr = JB_TYPE_SILENCE
                 then upd_info (\<lambda>i. i\<lparr>silence_begin_ts := fr_ts fr, cnt_contig_interp := 0\<rparr>) j1 else j1))
         else if fr_ts fr + current (info j1) < next_voice_ts (info j1)
         then if next_voice_ts (info j1) - last_voice_ms (info j1) < fr_ts fr + current (info j1)
              then (JB_OK, Some fr, upd_info (\<lambda>i. i\<lparr>cnt_contig_interp := 0\<rparr>) (decrement_losspct (frame_out
                     (upd_info (\<lambda>i. i\<lparr>next_voice_ts := fr_ts fr + current i + fr_ms fr\<rparr>) j1))))
              else (JB_DROP, Some fr, frame_late j1)
         else jb_get_voice (upd_info (\<lambda>i. if 0 < fr_ms fr then i\<lparr>last_voice_ms := fr_ms fr\<rparr> else i) j1)
                (Some fr) diff now interpl)"
      using Some e0 by (simp add: Let_def)
    show ?thesis
      unfolding e using j1 voice voice [of "\<lambda>i. i", simplified]
      by (auto simp: jb_simps intro!: get_head_okI simple_inv upd_info_inv decrement_inv)
  qed
qed

lemma get_silent_ok:
  assumes inv: "jb_inv jb"
  shows "get_head_ok jb (jb_get_silent jb diff now interpl)"
proof -
  define j0 where "j0 = (if diff < - target_extra (conf (info jb)) \<and> last_adjustment (info jb) + 10 \<le> now
      then jb\<lparr>info := (info jb)\<lparr>current := current (info jb) - interpl, last_adjustment := now\<rparr>\<rparr> else jb)"
  have i0: "jb_inv j0" "frames j0 = frames jb" using inv by (auto simp: j0_def jb_inv_defs)
  obtain out j1 where q: "queue_get_gen j0 (now - current (info j0)) False = (out, j1)"
    by (metis surjective_pairing)
  note i = queue_get_inv [OF i0(1) q]
  show ?thesis
  proof (cases out)
    case None
    then show ?thesis
      using i i0 q unfolding jb_get_silent_def Let_def j0_def [symmetric]
      by (simp add: queue_get_def get_head_ok_def)
  next
    case (Some fr)
    then have j1: "jb_inv j1" "frames jb = fr # frames j1" using i i0 by auto
    have e: "jb_get_silent jb diff now interpl =
       (if fr_type fr \<noteq> JB_TYPE_VOICE then (JB_OK, Some fr, frame_out j1)
        else if fr_ts fr < silence_begin_ts (info j1) then (JB_DROP, Some fr, frame_late j1)
        else (JB_OK, Some fr, decrement_losspct (frame_out
               (upd_info (\<lambda>i. i\<lparr>next_voice_ts := fr_ts fr + current i + fr_ms fr, last_voice_ms := fr_ms fr\<rparr>)
                 (upd_info (\<lambda>i. i\<lparr>current := target i, silence_begin_ts := 0\<rparr>) j1)))))"
      using q Some unfolding jb_get_silent_def Let_def j0_def [symmetric] by (simp add: queue_get_def)
    show ?thesis
      unfolding e using j1
      by (auto simp: jb_simps intro!: get_head_okI simple_inv upd_info_inv decrement_inv)
  qed
qed

lemma jb_get_ok:
  assumes inv: "jb_inv jb"
  shows "get_head_ok jb (fst (jb_get jb now interpl))"
proof -
  have i: "jb_inv (jb_target (history_get jb))" "frames (jb_target (history_get jb)) = frames jb"
    using history_get_inv [OF inv] by (simp_all add: jb_simps)
  have "get_head_ok (jb_target (history_get jb)) (jb_get_inner jb now interpl)"
    using get_talk_ok [OF i(1)] get_silent_ok [OF i(1)] by (simp add: jb_get_inner_def Let_def)
  then show ?thesis
    using i(2) by (auto simp: jb_get_def get_head_ok_def split: prod.splits option.splits)
qed

lemma jb_next_inv:
  assumes "jb_inv jb"
  shows "jb_inv (snd (jb_next jb)) \<and> frames (snd (jb_next jb)) = frames jb"
  using history_get_inv [OF assms] assms by (simp add: jb_next_def Let_def)

section \<open>Runs of the buffer\<close>

datatype jb_op =
    Op_put nat jb_frame_type int int int
  | Op_get int int
  | Op_getall
  | Op_next
  | Op_getinfo
  | Op_setconf jb_conf

text \<open>One operation; the frame that it gives back, if any.\<close>

fun jb_do :: "jb_op \<Rightarrow> jitterbuf \<Rightarrow> jb_frame option \<times> jitterbuf" where
  "jb_do (Op_put dat type ms ts now) jb = (None, snd (jb_put jb dat type ms ts now True))"
| "jb_do (Op_get now interpl) jb = snd (fst (jb_get jb now interpl))"
| "jb_do Op_getall jb = snd (jb_getall jb)"
| "jb_do Op_next jb = (None, snd (jb_next jb))"
| "jb_do Op_getinfo jb = (None, snd (jb_getinfo jb))"
| "jb_do (Op_setconf cf) jb = (None, jb_setconf jb cf)"

inductive jb_reach :: "jitterbuf \<Rightarrow> bool" where
  jb_start: "jb_reach (jb_reset mem)"
| jb_step: "jb_reach jb \<Longrightarrow> jb_do op jb = (out, jb') \<Longrightarrow> jb_reach jb'"

lemma jb_do_inv:
  assumes "jb_inv jb" "jb_do op jb = (out, jb')"
  shows "jb_inv jb' \<and> (\<forall>fr. out = Some fr \<longrightarrow> frames jb = fr # frames jb')"
proof (cases op)
  case (Op_put dat type ms ts now)
  obtain r j where "jb_put jb dat type ms ts now True = (r, j)" by (metis surjective_pairing)
  then show ?thesis
    using assms Op_put jb_put_inv [OF assms(1)] by auto
next
  case (Op_get now interpl)
  then show ?thesis
    using assms jb_get_ok [OF assms(1), of now interpl]
    by (auto simp: get_head_ok_def split: prod.splits option.splits)
next
  case Op_getall
  then show ?thesis
    using assms queue_get_inv [OF assms(1), of 0 True]
    by (auto simp: jb_getall_def queue_getall_def split: prod.splits option.splits)
next
  case Op_next
  then show ?thesis using assms jb_next_inv [OF assms(1)] by auto
next
  case Op_getinfo
  then show ?thesis using assms history_get_inv [OF assms(1)] by (auto simp: jb_getinfo_def Let_def)
next
  case (Op_setconf cf)
  then show ?thesis using assms by (auto simp: jb_setconf_def Let_def jb_inv_defs)
qed

text \<open>Claim C18. Whatever sequence of operations is applied to a new buffer: the queue is in order of
  timestamps, its counter is exact, the buffers of extreme delays are up to date whenever they are
  marked valid, and the loss percentage is in range; a frame that is given back is the first one of
  the queue, so that no queued frame is earlier.\<close>

theorem jb_reach_inv:
  assumes "jb_reach jb"
  shows "jb_inv jb \<and>
    (\<forall>op fr jb'. jb_do op jb = (Some fr, jb') \<longrightarrow> (\<forall>g \<in> set (frames jb'). fr_ts fr \<le> fr_ts g))"
proof -
  have i: "jb_inv jb"
    using assms by (induction rule: jb_reach.induct) (use reset_inv jb_do_inv in blast)+
  moreover have "\<forall>g \<in> set (frames jb'). fr_ts fr \<le> fr_ts g" if "jb_do op jb = (Some fr, jb')" for op fr jb'
    using jb_do_inv [OF i that] i by (simp add: jb_inv_def)
  ultimately show ?thesis by blast
qed

theorem jb_reach_inv_witness: "jb_inv (snd (jb_do (Op_put 1 JB_TYPE_VOICE 20 100 120) (jb_reset undefined)))"
  using jb_reach_inv [OF jb_step [OF jb_start surjective_pairing]] by blast

text \<open>With a maximum size of 0, which the target computation takes for no limit,
  \<open>jb_put\<close> drops every frame.\<close>

theorem jb_put_zero_max:
  assumes "jb_inv jb" and "max_jitterbuf (conf (info jb)) = 0"
  shows "\<exists>jb'. jb_put jb dat type ms ts now alloc = (JB_DROP, jb') \<and> frames jb' = frames jb \<and>
    target (info (jb_target jb)) = jitter (info jb) + jb_min (info jb) + target_extra (conf (info jb))"
proof -
  define n where "n = (if frames jb \<noteq> [] then fr_ts (last (frames jb)) - fr_ts (hd (frames jb)) else 0)"
  have "0 \<le> n"
  proof (cases "frames jb")
    case (Cons p ps)
    then show ?thesis using assms(1) by (auto simp: n_def jb_inv_def)
  qed (simp add: n_def)
  then show ?thesis
    using assms(2) unfolding jb_put_def Let_def n_def [symmetric] by (simp add: jb_target_def Let_def)
qed

theorem jb_put_zero_max_witness:
  "\<exists>jb'. jb_put (jb_setconf (jb_reset undefined) \<lparr>max_jitterbuf = 0, resync_threshold = - 1,
      max_contig_interp = 0, target_extra = - 1\<rparr>) 1 JB_TYPE_VOICE 20 100 120 True = (JB_DROP, jb')"
  (is "\<exists>jb'. jb_put ?jb _ _ _ _ _ _ = _")
proof -
  have "jb_inv ?jb" using jb_do_inv [OF reset_inv jb_do.simps(6)] by blast
  moreover have "max_jitterbuf (conf (info ?jb)) = 0" by (simp add: jb_setconf_def Let_def)
  ultimately have i: "jb_inv ?jb" "max_jitterbuf (conf (info ?jb)) = 0" by auto
  from jb_put_zero_max [OF i] show ?thesis by blast
qed


end
