(* ===== verification/CString.thy ===== *)
theory CString
  imports Prelude "HOL-Library.Char_ord"
begin

text \<open>
  The C library's string functions that the components use, on strings as lists of characters
  without the terminating NUL, in the C locale.
\<close>

definition code_of :: "char \<Rightarrow> nat" where
  "code_of c = of_char c"

definition isdigit :: "char \<Rightarrow> bool" where
  "isdigit c \<longleftrightarrow> 48 \<le> code_of c \<and> code_of c \<le> 57"

definition isupper :: "char \<Rightarrow> bool" where
  "isupper c \<longleftrightarrow> 65 \<le> code_of c \<and> code_of c \<le> 90"

definition islower :: "char \<Rightarrow> bool" where
  "islower c \<longleftrightarrow> 97 \<le> code_of c \<and> code_of c \<le> 122"

definition isspace :: "char \<Rightarrow> bool" where
  "isspace c \<longleftrightarrow> code_of c = 32 \<or> 9 \<le> code_of c \<and> code_of c \<le> 13"

definition tolower :: "char \<Rightarrow> char" where
  "tolower c = (if isupper c then char_of (code_of c + 32) else c)"

definition toupper :: "char \<Rightarrow> char" where
  "toupper c = (if islower c then char_of (code_of c - 32) else c)"

text \<open>Whether \<open>strcasecmp\<close> and \<open>strncasecmp\<close> return 0.\<close>

definition strcaseeq :: "string \<Rightarrow> string \<Rightarrow> bool" where
  "strcaseeq a b \<longleftrightarrow> map tolower a = map tolower b"

definition strncaseeq :: "string \<Rightarrow> string \<Rightarrow> nat \<Rightarrow> bool" where
  "strncaseeq a b n \<longleftrightarrow> map tolower (take n a) = map tolower (take n b)"

text \<open>\<open>atoi\<close>: leading white space, a sign, digits. The value is not bounded here (the C function's
  behaviour on overflow is undefined).\<close>

definition digit_val :: "char \<Rightarrow> int" where
  "digit_val c = int (code_of c) - 48"

definition digits_val :: "string \<Rightarrow> int" where
  "digits_val ds = foldl (\<lambda>v c. 10 * v + digit_val c) 0 ds"

definition atoi :: "string \<Rightarrow> int" where
  "atoi s =
     (case dropWhile isspace s of
        [] \<Rightarrow> 0
      | c # cs \<Rightarrow>
          if code_of c = 45 then - digits_val (takeWhile isdigit cs)
          else if code_of c = 43 then digits_val (takeWhile isdigit cs)
          else digits_val (takeWhile isdigit (c # cs)))"

text \<open>The lower case of single characters, for names that are compared without regard to case.\<close>

lemma tolower_chars:
  "tolower CHR ''A'' = CHR ''a''" "tolower CHR ''B'' = CHR ''b''" "tolower CHR ''C'' = CHR ''c''"
  "tolower CHR ''D'' = CHR ''d''" "tolower CHR ''E'' = CHR ''e''" "tolower CHR ''F'' = CHR ''f''"
  "tolower CHR ''G'' = CHR ''g''" "tolower CHR ''H'' = CHR ''h''" "tolower CHR ''I'' = CHR ''i''"
  "tolower CHR ''J'' = CHR ''j''" "tolower CHR ''K'' = CHR ''k''" "tolower CHR ''L'' = CHR ''l''"
  "tolower CHR ''M'' = CHR ''m''" "tolower CHR ''N'' = CHR ''n''" "tolower CHR ''O'' = CHR ''o''"
  "tolower CHR ''P'' = CHR ''p''" "tolower CHR ''Q'' = CHR ''q''" "tolower CHR ''R'' = CHR ''r''"
  "tolower CHR ''S'' = CHR ''s''" "tolower CHR ''T'' = CHR ''t''" "tolower CHR ''U'' = CHR ''u''"
  "tolower CHR ''V'' = CHR ''v''" "tolower CHR ''W'' = CHR ''w''" "tolower CHR ''X'' = CHR ''x''"
  "tolower CHR ''Y'' = CHR ''y''" "tolower CHR ''Z'' = CHR ''z''" "tolower CHR ''a'' = CHR ''a''"
  "tolower CHR ''b'' = CHR ''b''" "tolower CHR ''c'' = CHR ''c''" "tolower CHR ''d'' = CHR ''d''"
  "tolower CHR ''e'' = CHR ''e''" "tolower CHR ''f'' = CHR ''f''" "tolower CHR ''g'' = CHR ''g''"
  "tolower CHR ''h'' = CHR ''h''" "tolower CHR ''i'' = CHR ''i''" "tolower CHR ''j'' = CHR ''j''"
  "tolower CHR ''k'' = CHR ''k''" "tolower CHR ''l'' = CHR ''l''" "tolower CHR ''m'' = CHR ''m''"
  "tolower CHR ''n'' = CHR ''n''" "tolower CHR ''o'' = CHR ''o''" "tolower CHR ''p'' = CHR ''p''"
  "tolower CHR ''q'' = CHR ''q''" "tolower CHR ''r'' = CHR ''r''" "tolower CHR ''s'' = CHR ''s''"
  "tolower CHR ''t'' = CHR ''t''" "tolower CHR ''u'' = CHR ''u''" "tolower CHR ''v'' = CHR ''v''"
  "tolower CHR ''w'' = CHR ''w''" "tolower CHR ''x'' = CHR ''x''" "tolower CHR ''y'' = CHR ''y''"
  "tolower CHR ''z'' = CHR ''z''" "tolower CHR ''0'' = CHR ''0''" "tolower CHR ''1'' = CHR ''1''"
  "tolower CHR ''2'' = CHR ''2''" "tolower CHR ''3'' = CHR ''3''" "tolower CHR ''4'' = CHR ''4''"
  "tolower CHR ''5'' = CHR ''5''" "tolower CHR ''6'' = CHR ''6''" "tolower CHR ''7'' = CHR ''7''"
  "tolower CHR ''8'' = CHR ''8''" "tolower CHR ''9'' = CHR ''9''" "tolower CHR ''_'' = CHR ''_''"
  "tolower CHR '' '' = CHR '' ''" "tolower CHR ''+'' = CHR ''+''"
  by code_simp+

lemma strcaseeq_refl [simp]: "strcaseeq a a"
  by (simp add: strcaseeq_def)

lemma strcaseeq_sym: "strcaseeq a b \<Longrightarrow> strcaseeq b a"
  by (simp add: strcaseeq_def)

lemma strcaseeq_trans: "strcaseeq a b \<Longrightarrow> strcaseeq b c \<Longrightarrow> strcaseeq a c"
  by (simp add: strcaseeq_def)

lemma strcaseeq_length: "strcaseeq a b \<Longrightarrow> length a = length b"
  by (metis strcaseeq_def length_map)

text \<open>\<open>strsep\<close> called until nothing is left: the fields between the separators.\<close>

fun split_on :: "(char \<Rightarrow> bool) \<Rightarrow> string \<Rightarrow> string list" where
  "split_on P [] = [[]]"
| "split_on P (c # cs) =
     (if P c then [] # split_on P cs
      else (case split_on P cs of f # fs \<Rightarrow> (c # f) # fs | [] \<Rightarrow> [[c]]))"

lemma split_on_not_Nil [simp]: "split_on P s \<noteq> []"
  by (induction s) (auto split: list.splits)

lemma split_on_length: "length (split_on P s) = Suc (length (filter P s))"
  by (induction s) (auto split: list.splits)

text \<open>\<open>strchr\<close>: what is before the first such character and after it.\<close>

fun cut_at :: "char \<Rightarrow> string \<Rightarrow> (string \<times> string) option" where
  "cut_at x [] = None"
| "cut_at x (c # cs) =
     (if c = x then Some ([], cs) else map_option (\<lambda>(a, b). (c # a, b)) (cut_at x cs))"

lemma cut_at_length: "cut_at x s = Some (a, b) \<Longrightarrow> length b < length s"
  by (induction s arbitrary: a) (auto split: if_splits)

lemma cut_at_first: "x \<notin> set a \<Longrightarrow> cut_at x (a @ x # b) = Some (a, b)"
  by (induction a) auto

text \<open>The conversion \<open>%<w>d\<close> of \<open>sscanf\<close>: leading white space, then at most \<open>w\<close> characters of sign
  and digits; the number and the rest.\<close>

definition scan_d :: "nat \<Rightarrow> string \<Rightarrow> (int \<times> string) option" where
  "scan_d w s =
     (let s = dropWhile isspace s;
          neg = take 1 s = ''-'';
          signed = neg \<or> take 1 s = ''+'';
          s = (if signed then tl s else s);
          ds = takeWhile isdigit (take (if signed then w - 1 else w) s)
      in if ds = [] then None
         else Some (if neg then - digits_val ds else digits_val ds, drop (length ds) s))"

text \<open>The conversion \<open>%<w>i\<close>: the same with the base from the prefix, \<open>0x\<close> for 16 and \<open>0\<close> for 8.\<close>

definition hex_val :: "char \<Rightarrow> int option" where
  "hex_val c =
     (if isdigit c then Some (digit_val c)
      else if 65 \<le> code_of c \<and> code_of c \<le> 70 then Some (int (code_of c) - 55)
      else if 97 \<le> code_of c \<and> code_of c \<le> 102 then Some (int (code_of c) - 87)
      else None)"

definition base_digit :: "int \<Rightarrow> char \<Rightarrow> bool" where
  "base_digit b c \<longleftrightarrow> (case hex_val c of Some v \<Rightarrow> v < b | None \<Rightarrow> False)"

definition base_val :: "int \<Rightarrow> string \<Rightarrow> int" where
  "base_val b ds = foldl (\<lambda>v c. b * v + the (hex_val c)) 0 ds"

definition scan_i :: "nat \<Rightarrow> string \<Rightarrow> (int \<times> string) option" where
  "scan_i w s =
     (let s = dropWhile isspace s;
          neg = take 1 s = ''-'';
          signed = neg \<or> take 1 s = ''+'';
          s = (if signed then tl s else s);
          w = (if signed then w - 1 else w);
          hex = map tolower (take 2 (take w s)) = ''0x'';
          b = (if hex then 16 else if take 1 s = ''0'' then 8 else 10);
          s = (if hex then drop 2 s else s);
          ds = takeWhile (base_digit b) (take (if hex then w - 2 else w) s)
      in if ds = [] then None
         else Some (if neg then - base_val b ds else base_val b ds, drop (length ds) s))"

definition scan_2d :: "string \<Rightarrow> (int \<times> string) option" where
  "scan_2d = scan_d 2"

text \<open>\<open>%2d:%2d\<close>: the two numbers, when both are there.\<close>

definition scan_2d_2d :: "string \<Rightarrow> (int \<times> int) option" where
  "scan_2d_2d s =
     (case scan_2d s of
        Some (a, c # rest) \<Rightarrow>
          if c = CHR '':'' then map_option (\<lambda>(b, _). (a, b)) (scan_2d rest) else None
      | _ \<Rightarrow> None)"


end
