(* ===== verification/AbstractJB.thy ===== *)
theory AbstractJB
  imports FixedJB JitterBuf Timeval CString
begin

text \<open>
  The generic jitter buffer of \<open>main/abstract_jb.c\<close>: a channel's buffer is driven through a
  table of functions, \<open>struct tris_jb_impl\<close>, of which there are two, the fixed buffer
  (\<open>FixedJB\<close>) and the adaptive one (\<open>JitterBuf\<close>).

  Frames live in an explicit store from pointers to frames: \<open>tris_frdup\<close> allocates at an unused
  pointer (chosen by the environment), \<open>tris_frfree\<close> deletes, and \<open>tris_write\<close> appends to a log.
  The time of a call is its argument. An operation yields \<open>None\<close> where the code aborts
  (a failed assertion of the fixed buffer). The frame log and its file, the channel's name and the
  log messages are not modelled.
\<close>

section \<open>Data\<close>

datatype jb_impl_code = JB_IMPL_OK | JB_IMPL_DROP | JB_IMPL_INTERP | JB_IMPL_NOFRAME

record tris_jb_conf =
  jb_enabled :: bool
  jb_forced :: bool
  jb_log :: bool
  max_size :: int
  jb_resync_threshold :: int
  jb_impl_name :: string
  jb_target_extra :: int

datatype frametype = TRIS_FRAME_VOICE | TRIS_FRAME_DTMF | TRIS_FRAME_OTHER

record tris_frame =
  f_type :: frametype
  f_timing :: bool
  f_len :: int
  f_ts :: int
  f_subclass :: nat

text \<open>The function table. \<open>jput\<close> and \<open>jput_first\<close> take the frame's pointer, its length and
  timestamp; \<open>None\<close> is an abort.\<close>

record 'j tris_jb_impl =
  impl_name :: string
  jcreate :: "tris_jb_conf \<Rightarrow> int \<Rightarrow> 'j"
  jdestroy_ok :: "'j \<Rightarrow> bool"
  jput_first :: "'j \<Rightarrow> nat \<Rightarrow> int \<Rightarrow> int \<Rightarrow> int \<Rightarrow> (jb_impl_code \<times> 'j) option"
  jput :: "'j \<Rightarrow> nat \<Rightarrow> int \<Rightarrow> int \<Rightarrow> int \<Rightarrow> (jb_impl_code \<times> 'j) option"
  jget :: "'j \<Rightarrow> int \<Rightarrow> int \<Rightarrow> (jb_impl_code \<times> nat option \<times> 'j) option"
  jnext :: "'j \<Rightarrow> int \<times> 'j"
  jremove :: "'j \<Rightarrow> jb_impl_code \<times> nat option \<times> 'j"
  jforce_resync :: "'j \<Rightarrow> 'j"

section \<open>The two implementations\<close>

definition fixed_to_abstract_code :: "fixed_jb_code \<Rightarrow> jb_impl_code" where
  "fixed_to_abstract_code r =
     (case r of FIXED_JB_OK \<Rightarrow> JB_IMPL_OK | FIXED_JB_DROP \<Rightarrow> JB_IMPL_DROP
      | FIXED_JB_INTERP \<Rightarrow> JB_IMPL_INTERP | FIXED_JB_NOFRAME \<Rightarrow> JB_IMPL_NOFRAME)"

definition adaptive_to_abstract_code :: "jb_return_code \<Rightarrow> jb_impl_code" where
  "adaptive_to_abstract_code r =
     (case r of JB_OK \<Rightarrow> JB_IMPL_OK | JB_EMPTY \<Rightarrow> JB_IMPL_NOFRAME | JB_NOFRAME \<Rightarrow> JB_IMPL_NOFRAME
      | JB_INTERP \<Rightarrow> JB_IMPL_INTERP | JB_DROP \<Rightarrow> JB_IMPL_DROP | JB_SCHED \<Rightarrow> JB_IMPL_OK)"

text \<open>The depth of nested puts of the fixed buffer never exceeds two. \<open>fmem\<close> tells whether a put can allocate the
  implementation's own record of a frame: without it the fixed buffer writes through \<open>NULL\<close>, and the adaptive one
  reports success.\<close>

definition put_outcome :: "put_result \<Rightarrow> (jb_impl_code \<times> fixed_jb) option" where
  "put_outcome r = (case r of Put_ret c jb \<Rightarrow> Some (fixed_to_abstract_code c, jb) | _ \<Rightarrow> None)"

definition jb_create_fixed :: "tris_jb_conf \<Rightarrow> int \<Rightarrow> fixed_jb" where
  "jb_create_fixed cf resynch_threshold =
     fixed_jb_new \<lparr>jbsize = max_size cf, FixedJB.fixed_jb_conf.resync_threshold = resynch_threshold\<rparr>"

definition jb_put_first_fixed :: "bool \<Rightarrow> fixed_jb \<Rightarrow> nat \<Rightarrow> int \<Rightarrow> int \<Rightarrow> int \<Rightarrow> (jb_impl_code \<times> fixed_jb) option" where
  "jb_put_first_fixed fmem jb dat len ts now = put_outcome (fixed_jb_put_first fmem 2 jb dat len ts now)"

definition jb_put_fixed :: "bool \<Rightarrow> fixed_jb \<Rightarrow> nat \<Rightarrow> int \<Rightarrow> int \<Rightarrow> int \<Rightarrow> (jb_impl_code \<times> fixed_jb) option" where
  "jb_put_fixed fmem jb dat len ts now = put_outcome (fixed_jb_put fmem 2 jb dat len ts now)"

definition jb_get_fixed :: "fixed_jb \<Rightarrow> int \<Rightarrow> int \<Rightarrow> (jb_impl_code \<times> nat option \<times> fixed_jb) option" where
  "jb_get_fixed jb now interpl =
     map_option (\<lambda>(r, out, jb). (fixed_to_abstract_code r, map_option fixed_jb_frame.fr_data out, jb))
       (fixed_jb_get jb now interpl)"

definition jb_next_fixed :: "fixed_jb \<Rightarrow> int \<times> fixed_jb" where
  "jb_next_fixed jb = (fixed_jb_next jb, jb)"

definition jb_remove_fixed :: "fixed_jb \<Rightarrow> jb_impl_code \<times> nat option \<times> fixed_jb" where
  "jb_remove_fixed jb =
     (case fixed_jb_remove jb of
        (r, out, jb) \<Rightarrow> (fixed_to_abstract_code r, map_option fixed_jb_frame.fr_data out, jb))"

text \<open>\<open>mem\<close> is the uninitialised memory of the allocation.\<close>

definition jb_create_adaptive :: "jitterbuf \<Rightarrow> tris_jb_conf \<Rightarrow> int \<Rightarrow> jitterbuf" where
  "jb_create_adaptive mem cf resynch_threshold =
     jb_setconf (jb_reset mem)
       \<lparr>max_jitterbuf = max_size cf, JitterBuf.jb_conf.resync_threshold = jb_resync_threshold cf,
        max_contig_interp = 10, target_extra = jb_target_extra cf\<rparr>"

definition jb_put_adaptive :: "bool \<Rightarrow> jitterbuf \<Rightarrow> nat \<Rightarrow> int \<Rightarrow> int \<Rightarrow> int \<Rightarrow> (jb_impl_code \<times> jitterbuf) option" where
  "jb_put_adaptive fmem jb dat len ts now =
     (case jb_put jb dat JB_TYPE_VOICE len ts now fmem of
        (r, jb) \<Rightarrow> Some (adaptive_to_abstract_code r, jb))"

definition jb_put_first_adaptive ::
  "bool \<Rightarrow> jitterbuf \<Rightarrow> nat \<Rightarrow> int \<Rightarrow> int \<Rightarrow> int \<Rightarrow> (jb_impl_code \<times> jitterbuf) option" where
  "jb_put_first_adaptive fmem jb dat len ts now = jb_put_adaptive fmem jb dat len ts now"

definition jb_get_adaptive :: "jitterbuf \<Rightarrow> int \<Rightarrow> int \<Rightarrow> (jb_impl_code \<times> nat option \<times> jitterbuf) option" where
  "jb_get_adaptive jb now interpl =
     (case fst (jb_get jb now interpl) of
        (r, out, jb) \<Rightarrow> Some (adaptive_to_abstract_code r, map_option fr_data out, jb))"

definition jb_remove_adaptive :: "jitterbuf \<Rightarrow> jb_impl_code \<times> nat option \<times> jitterbuf" where
  "jb_remove_adaptive jb =
     (case jb_getall jb of
        (r, out, jb) \<Rightarrow> (adaptive_to_abstract_code r, map_option fr_data out, jb))"

definition fixed_impl :: "bool \<Rightarrow> fixed_jb tris_jb_impl" where
  "fixed_impl fmem =
     \<lparr>impl_name = ''fixed'', jcreate = jb_create_fixed, jdestroy_ok = fixed_jb_destroy,
      jput_first = jb_put_first_fixed fmem, jput = jb_put_fixed fmem, jget = jb_get_fixed,
      jnext = jb_next_fixed, jremove = jb_remove_fixed, jforce_resync = fixed_jb_set_force_resynch\<rparr>"

definition adaptive_impl :: "bool \<Rightarrow> jitterbuf \<Rightarrow> jitterbuf tris_jb_impl" where
  "adaptive_impl fmem mem =
     \<lparr>impl_name = ''adaptive'', jcreate = jb_create_adaptive mem, jdestroy_ok = (\<lambda>jb. True),
      jput_first = jb_put_first_adaptive fmem, jput = jb_put_adaptive fmem, jget = jb_get_adaptive,
      jnext = jb_next, jremove = jb_remove_adaptive, jforce_resync = (\<lambda>jb. jb)\<rparr>"

section \<open>The channel's buffer\<close>

text \<open>\<open>jbobj\<close> is \<open>None\<close> before creation; \<open>use_jb\<close>, \<open>timebase_set\<close> and \<open>created\<close> are the flags;
  \<open>store\<close> holds the allocated frames and \<open>written\<close> what was given to \<open>tris_write\<close>: a frame's
  pointer, or nothing for an interpolated frame.\<close>

record 'j jb_chan =
  jbconf :: tris_jb_conf
  jbobj :: "'j option"
  timebase :: timeval
  jb_next_time :: int
  last_format :: nat
  use_jb :: bool
  timebase_set :: bool
  created :: bool
  store :: "nat \<Rightarrow> tris_frame option"
  written :: "nat option list"

definition get_now :: "'j jb_chan \<Rightarrow> timeval \<Rightarrow> int" where
  "get_now chan tv = tris_tvdiff_ms tv (timebase chan)"

definition TRIS_FORMAT_ILBC :: nat where "TRIS_FORMAT_ILBC = 2 ^ 10"

definition tris_codec_interp_len :: "nat \<Rightarrow> int" where
  "tris_codec_interp_len format = (if format = TRIS_FORMAT_ILBC then 30 else 20)"

definition tris_frfree :: "'j jb_chan \<Rightarrow> nat \<Rightarrow> 'j jb_chan" where
  "tris_frfree chan p = chan\<lparr>store := (store chan)(p := None)\<rparr>"

text \<open>The name in the configuration selects the implementation; \<open>True\<close> is the fixed one, the
  default.\<close>

definition jb_choose_impl :: "string \<Rightarrow> bool" where
  "jb_choose_impl name =
     (if name = [] then True
      else if strcaseeq name ''fixed'' then True
      else if strcaseeq name ''adaptive'' then False
      else True)"

text \<open>\<open>alloc\<close> says whether the buffer can be allocated. The result is negative when not; \<open>None\<close> is
  an abort.\<close>

definition create_jb ::
  "'j tris_jb_impl \<Rightarrow> 'j jb_chan \<Rightarrow> bool \<Rightarrow> nat \<Rightarrow> tris_frame \<Rightarrow> timeval \<Rightarrow> (int \<times> 'j jb_chan) option" where
  "create_jb impl chan alloc p frr tv =
     (if \<not> alloc then Some (- 1, chan\<lparr>jbobj := None\<rparr>)
      else
        (let obj = jcreate impl (jbconf chan) (jb_resync_threshold (jbconf chan));
             now = get_now chan tv
         in case jput_first impl obj p (f_len frr) (f_ts frr) now of
              None \<Rightarrow> None
            | Some (res, obj) \<Rightarrow>
                (case jnext impl obj of
                   (nxt, obj) \<Rightarrow>
                     (let chan = chan\<lparr>jbobj := Some obj, jb_next_time := nxt, last_format := f_subclass frr\<rparr>
                      in Some (0, if res \<noteq> JB_IMPL_OK then tris_frfree chan p else chan)))))"

text \<open>\<open>p\<close> is the pointer that \<open>tris_frdup\<close> returns, \<open>None\<close> when it fails.\<close>

definition tris_jb_put ::
  "'j tris_jb_impl \<Rightarrow> 'j jb_chan \<Rightarrow> tris_frame \<Rightarrow> nat option \<Rightarrow> bool \<Rightarrow> timeval \<Rightarrow>
   (int \<times> 'j jb_chan) option" where
  "tris_jb_put impl chan f dup alloc tv =
     (if \<not> use_jb chan then Some (- 1, chan)
      else if f_type f \<noteq> TRIS_FRAME_VOICE
      then Some (- 1, if f_type f = TRIS_FRAME_DTMF \<and> created chan
                      then chan\<lparr>jbobj := map_option (jforce_resync impl) (jbobj chan)\<rparr> else chan)
      else if \<not> f_timing f \<or> f_len f < 2 \<or> f_ts f < 0 then Some (- 1, chan)
      else
        (case dup of
           None \<Rightarrow> Some (- 1, chan)
         | Some p \<Rightarrow>
             (let chan = chan\<lparr>store := (store chan)(p := Some f)\<rparr>
              in if \<not> created chan
                 then
                   (case create_jb impl chan alloc p f tv of
                      None \<Rightarrow> None
                    | Some (r, chan) \<Rightarrow>
                        if r \<noteq> 0 then Some (- 1, (tris_frfree chan p)\<lparr>use_jb := False\<rparr>)
                        else Some (0, chan\<lparr>created := True\<rparr>))
                 else
                   (case jbobj chan of
                      None \<Rightarrow> None
                    | Some obj \<Rightarrow>
                        (case jput impl obj p (f_len f) (f_ts f) (get_now chan tv) of
                           None \<Rightarrow> None
                         | Some (res, obj) \<Rightarrow>
                             if res \<noteq> JB_IMPL_OK
                             then Some (0, tris_frfree (chan\<lparr>jbobj := Some obj\<rparr>) p)
                             else
                               (case jnext impl obj of
                                  (nxt, obj) \<Rightarrow>
                                    Some (0, chan\<lparr>jbobj := Some obj, jb_next_time := nxt\<rparr>)))))))"

text \<open>One round of the delivery loop; the boolean tells whether the loop goes on.\<close>

definition deliver_step ::
  "'j tris_jb_impl \<Rightarrow> int \<Rightarrow> 'j jb_chan \<Rightarrow> (bool \<times> 'j jb_chan) option" where
  "deliver_step impl now chan =
     (case jbobj chan of
        None \<Rightarrow> None
      | Some obj \<Rightarrow>
          (case jget impl obj now (tris_codec_interp_len (last_format chan)) of
             None \<Rightarrow> None
           | Some (res, out, obj) \<Rightarrow>
               (let chan = chan\<lparr>jbobj := Some obj\<rparr>;
                    again = (\<lambda>chan. case jnext impl obj of
                               (nxt, obj) \<Rightarrow> Some (True, chan\<lparr>jbobj := Some obj, jb_next_time := nxt\<rparr>))
                in case res of
                     JB_IMPL_NOFRAME \<Rightarrow>
                       (case jnext impl obj of (_, obj) \<Rightarrow> Some (False, chan\<lparr>jbobj := Some obj\<rparr>))
                   | JB_IMPL_INTERP \<Rightarrow> again (chan\<lparr>written := written chan @ [None]\<rparr>)
                   | _ \<Rightarrow>
                       (case out of
                          None \<Rightarrow> None
                        | Some p \<Rightarrow>
                            (case store chan p of
                               None \<Rightarrow> None
                             | Some f \<Rightarrow>
                                 again (tris_frfree
                                   (chan\<lparr>written := written chan @ (if res = JB_IMPL_OK then [Some p] else []),
                                         last_format := f_subclass f\<rparr>) p))))))"

partial_function (option) deliver_loop ::
  "'j tris_jb_impl \<Rightarrow> int \<Rightarrow> 'j jb_chan \<Rightarrow> 'j jb_chan option" where
  "deliver_loop impl now chan =
     (if now < jb_next_time chan then Some chan
      else (case deliver_step impl now chan of
              None \<Rightarrow> None
            | Some (go, chan) \<Rightarrow> if go then deliver_loop impl now chan else Some chan))"

definition jb_get_and_deliver :: "'j tris_jb_impl \<Rightarrow> 'j jb_chan \<Rightarrow> timeval \<Rightarrow> 'j jb_chan option" where
  "jb_get_and_deliver impl chan tv =
     (case jbobj chan of
        None \<Rightarrow> None
      | Some obj \<Rightarrow>
          (case jnext impl obj of
             (nxt, obj) \<Rightarrow> deliver_loop impl (get_now chan tv) (chan\<lparr>jbobj := Some obj, jb_next_time := nxt\<rparr>)))"

definition tris_jb_get_and_deliver_one :: "'j tris_jb_impl \<Rightarrow> 'j jb_chan \<Rightarrow> timeval \<Rightarrow> 'j jb_chan option" where
  "tris_jb_get_and_deliver_one impl chan tv =
     (if use_jb chan \<and> created chan then jb_get_and_deliver impl chan tv else Some chan)"

text \<open>Both channels of a bridge.\<close>

definition tris_jb_get_and_deliver ::
  "'a tris_jb_impl \<Rightarrow> 'b tris_jb_impl \<Rightarrow> 'a jb_chan \<Rightarrow> 'b jb_chan \<Rightarrow> timeval \<Rightarrow>
   ('a jb_chan \<times> 'b jb_chan) option" where
  "tris_jb_get_and_deliver i0 i1 c0 c1 tv =
     (case tris_jb_get_and_deliver_one i0 c0 tv of
        None \<Rightarrow> None
      | Some c0 \<Rightarrow> map_option (\<lambda>c1. (c0, c1)) (tris_jb_get_and_deliver_one i1 c1 tv))"

partial_function (option) remove_all ::
  "'j tris_jb_impl \<Rightarrow> 'j \<Rightarrow> 'j jb_chan \<Rightarrow> ('j \<times> 'j jb_chan) option" where
  "remove_all impl obj chan =
     (case jremove impl obj of
        (r, out, obj) \<Rightarrow>
          if r \<noteq> JB_IMPL_OK then Some (obj, chan)
          else (case out of None \<Rightarrow> None | Some p \<Rightarrow> remove_all impl obj (tris_frfree chan p)))"

definition tris_jb_destroy :: "'j tris_jb_impl \<Rightarrow> 'j jb_chan \<Rightarrow> 'j jb_chan option" where
  "tris_jb_destroy impl chan =
     (if created chan
      then
        (case jbobj chan of
           None \<Rightarrow> None
         | Some obj \<Rightarrow>
             (case remove_all impl obj chan of
                None \<Rightarrow> None
              | Some (obj, chan) \<Rightarrow>
                  if jdestroy_ok impl obj then Some (chan\<lparr>jbobj := None, created := False\<rparr>) else None))
      else Some chan)"

section \<open>Two channels of a bridge\<close>

text \<open>What \<open>tris_jb_do_usecheck\<close> reads of a channel's technology.\<close>

record jb_tech =
  wants_jitter :: bool
  creates_jitter :: bool

definition usecheck_one ::
  "jb_tech \<Rightarrow> jb_tech \<Rightarrow> 'a jb_chan \<Rightarrow> bool \<Rightarrow> timeval \<Rightarrow> timeval \<Rightarrow> bool \<times> 'a jb_chan" where
  "usecheck_one t0 t1 c0 c1_timebase_set c1_timebase tv =
     (if (\<not> wants_jitter t0 \<and> creates_jitter t1 \<or> jb_forced (jbconf c0) \<and> creates_jitter t1) \<and>
         jb_enabled (jbconf c0)
      then (True,
            if timebase_set c0 then c0\<lparr>use_jb := True\<rparr>
            else c0\<lparr>use_jb := True, timebase := (if c1_timebase_set then c1_timebase else tv),
                    timebase_set := True\<rparr>)
      else (False, c0))"

text \<open>The flags of both channels are read before either is changed.\<close>

definition tris_jb_do_usecheck ::
  "jb_tech \<Rightarrow> jb_tech \<Rightarrow> 'a jb_chan \<Rightarrow> 'b jb_chan \<Rightarrow> timeval \<Rightarrow> bool \<times> 'a jb_chan \<times> 'b jb_chan" where
  "tris_jb_do_usecheck t0 t1 c0 c1 tv =
     (let set0 = timebase_set c0;
          set1 = timebase_set c1;
          (inuse0, c0) = usecheck_one t0 t1 c0 set1 (timebase c1) tv;
          (inuse1, c1) = usecheck_one t1 t0 c1 set0 (timebase c0) tv
      in (inuse0 \<or> inuse1, c0, c1))"

definition INT_MAX :: int where "INT_MAX = 2147483647"

definition to_int :: "int \<Rightarrow> int" where
  "to_int x = sint (word_of_int x :: 32 word)"

definition tris_jb_get_when_to_wakeup :: "'a jb_chan \<Rightarrow> 'b jb_chan \<Rightarrow> int \<Rightarrow> timeval \<Rightarrow> int" where
  "tris_jb_get_when_to_wakeup c0 c1 time_left tv =
     (let time_left = (if time_left < 0 then INT_MAX else time_left);
          wait0 = (if use_jb c0 \<and> created c0 then to_int (jb_next_time c0 - get_now c0 tv) else time_left);
          wait1 = (if use_jb c1 \<and> created c1 then to_int (jb_next_time c1 - get_now c1 tv) else time_left);
          wait = (if wait0 < wait1 then wait0 else wait1);
          wait = (if wait < time_left then wait else time_left)
      in if wait = INT_MAX then - 1 else if wait < 1 then 1 else wait)"

section \<open>The contract of an implementation\<close>

text \<open>
  \<open>contents\<close> is what the buffer holds, as frame pointers. A put either takes the frame or leaves
  everything; a get gives back one of the held frames or none; \<open>rank\<close> bounds how many frames can be
  interpolated in a row before the next delivery is in the future.
\<close>

locale jb_provider =
  fixes impl :: "'j tris_jb_impl" and jinv :: "'j \<Rightarrow> bool" and contents :: "'j \<Rightarrow> nat multiset"
    and rank :: "int \<Rightarrow> 'j \<Rightarrow> nat"
  assumes p_create: "jinv (jcreate impl cf thr) \<and> contents (jcreate impl cf thr) = {#}"
    and p_first: "jinv j \<Longrightarrow> contents j = {#} \<Longrightarrow> p \<noteq> 0 \<Longrightarrow> 2 \<le> len \<Longrightarrow> 0 \<le> ts \<Longrightarrow> 0 \<le> now \<Longrightarrow>
      \<exists>r j'. jput_first impl j p len ts now = Some (r, j') \<and> jinv j' \<and>
        contents j' = (if r = JB_IMPL_OK then {#p#} else {#})"
    and p_put: "jinv j \<Longrightarrow> p \<noteq> 0 \<Longrightarrow> 2 \<le> len \<Longrightarrow> 0 \<le> ts \<Longrightarrow> 0 \<le> now \<Longrightarrow>
      \<exists>r j'. jput impl j p len ts now = Some (r, j') \<and> jinv j' \<and>
        contents j' = (if r = JB_IMPL_OK then add_mset p (contents j) else contents j)"
    and p_get: "jinv j \<Longrightarrow> 0 \<le> now \<Longrightarrow> 2 \<le> interpl \<Longrightarrow>
      \<exists>r out j'. jget impl j now interpl = Some (r, out, j') \<and> jinv j' \<and>
        (case out of
           Some p \<Rightarrow> (r = JB_IMPL_OK \<or> r = JB_IMPL_DROP) \<and> contents j = add_mset p (contents j')
         | None \<Rightarrow> (r = JB_IMPL_INTERP \<or> r = JB_IMPL_NOFRAME) \<and> contents j' = contents j)"
    and p_next: "jinv j \<Longrightarrow> jinv (snd (jnext impl j)) \<and> contents (snd (jnext impl j)) = contents j"
    and p_rank: "jinv j0 \<Longrightarrow> jnext impl j0 = (nxt, j) \<Longrightarrow> nxt \<le> now \<Longrightarrow> 2 \<le> interpl \<Longrightarrow>
      jget impl j now interpl = Some (JB_IMPL_INTERP, out, j') \<Longrightarrow>
      rank now (snd (jnext impl j')) < rank now j"
    and p_remove: "jinv j \<Longrightarrow> jremove impl j = (r, out, j') \<Longrightarrow>
      jinv j' \<and>
      (case out of
         Some p \<Rightarrow> r = JB_IMPL_OK \<and> contents j = add_mset p (contents j')
       | None \<Rightarrow> r \<noteq> JB_IMPL_OK \<and> contents j = {#} \<and> contents j' = {#})"
    and p_destroy: "jinv j \<Longrightarrow> contents j = {#} \<Longrightarrow> jdestroy_ok impl j"
    and p_force: "jinv j \<Longrightarrow> jinv (jforce_resync impl j) \<and> contents (jforce_resync impl j) = contents j"

text \<open>The frame store holds exactly the frames of the buffer, each once.\<close>

definition owns :: "('j \<Rightarrow> bool) \<Rightarrow> ('j \<Rightarrow> nat multiset) \<Rightarrow> 'j jb_chan \<Rightarrow> bool" where
  "owns jinv contents chan \<longleftrightarrow>
     finite (dom (store chan)) \<and>
     (if created chan
      then (case jbobj chan of
              None \<Rightarrow> False
            | Some obj \<Rightarrow> jinv obj \<and> contents obj = mset_set (dom (store chan)))
      else dom (store chan) = {})"

lemma mset_set_delete:
  assumes "finite A" "mset_set A = add_mset p M"
  shows "p \<in> A" "M = mset_set (A - {p})"
proof -
  have "p \<in># mset_set A" using assms(2) by simp
  then show p: "p \<in> A" using assms(1) by simp
  have "mset_set (A - {p}) = mset_set A - {#p#}" using p assms(1) by (simp add: mset_set_Diff)
  then show "M = mset_set (A - {p})" using assms(2) by simp
qed

context jb_provider
begin

lemma create_owns:
  assumes "owns jinv contents chan" "\<not> created chan" "p \<noteq> 0" "0 \<le> get_now chan tv"
    and "2 \<le> f_len f" "0 \<le> f_ts f"
  shows "\<exists>r chan'. create_jb impl (chan\<lparr>store := (store chan)(p := Some f)\<rparr>) alloc p f tv = Some (r, chan') \<and>
    (if r = 0 then owns jinv contents (chan'\<lparr>created := True\<rparr>)
     else owns jinv contents (tris_frfree chan' p\<lparr>use_jb := False\<rparr>))"
proof (cases alloc)
  case False
  then show ?thesis using assms by (auto simp: create_jb_def owns_def tris_frfree_def)
next
  case True
  let ?o = "jcreate impl (jbconf chan) (jb_resync_threshold (jbconf chan))"
  obtain r j where f: "jput_first impl ?o p (f_len f) (f_ts f) (get_now chan tv) = Some (r, j)" "jinv j"
    "contents j = (if r = JB_IMPL_OK then {#p#} else {#})"
    using p_first [of ?o p "f_len f" "f_ts f" "get_now chan tv"] p_create assms by blast
  obtain nxt j' where n: "jnext impl j = (nxt, j')" by (metis surjective_pairing)
  have j': "jinv j'" "contents j' = contents j" using p_next [OF f(2)] n by auto
  have "dom (store chan) = {}" using assms(1,2) by (simp add: owns_def)
  then show ?thesis
    using True f n j' by (auto simp: create_jb_def get_now_def owns_def tris_frfree_def Let_def)
qed

lemma put_owns:
  assumes inv: "owns jinv contents chan" and now: "0 \<le> get_now chan tv"
    and fresh: "\<And>p. dup = Some p \<Longrightarrow> p \<noteq> 0 \<and> store chan p = None"
  shows "\<exists>r chan'. tris_jb_put impl chan f dup alloc tv = Some (r, chan') \<and> owns jinv contents chan'"
proof -
  consider "\<not> use_jb chan" | "use_jb chan" "f_type f \<noteq> TRIS_FRAME_VOICE"
    | "use_jb chan" "f_type f = TRIS_FRAME_VOICE" "\<not> f_timing f \<or> f_len f < 2 \<or> f_ts f < 0 \<or> dup = None"
    | p where "use_jb chan" "f_type f = TRIS_FRAME_VOICE" "f_timing f" "2 \<le> f_len f" "0 \<le> f_ts f" "dup = Some p"
    by (cases "f_timing f \<and> 2 \<le> f_len f \<and> 0 \<le> f_ts f"; cases dup) (auto simp: not_less not_le)
  then show ?thesis
  proof cases
    case 1
    then show ?thesis using inv by (simp add: tris_jb_put_def)
  next
    case 2
    then show ?thesis
      using inv p_force by (auto simp: tris_jb_put_def owns_def split: option.splits)
  next
    case 3
    then show ?thesis using inv by (cases dup) (auto simp: tris_jb_put_def)
  next
    case 4
    have p: "p \<noteq> 0" "store chan p = None" using fresh 4 by auto
    let ?c = "chan\<lparr>store := (store chan)(p := Some f)\<rparr>"
    show ?thesis
    proof (cases "created chan")
      case False
      obtain r chan' where "create_jb impl ?c alloc p f tv = Some (r, chan')"
        "if r = 0 then owns jinv contents (chan'\<lparr>created := True\<rparr>)
         else owns jinv contents (tris_frfree chan' p\<lparr>use_jb := False\<rparr>)"
        using create_owns [OF inv False p(1) now 4(4,5)] by blast
      then show ?thesis using 4 False by (simp add: tris_jb_put_def split: if_splits)
    next
      case True
      obtain obj where o: "jbobj chan = Some obj" "jinv obj" "contents obj = mset_set (dom (store chan))"
        and fin: "finite (dom (store chan))"
        using inv True by (auto simp: owns_def split: option.splits)
      obtain r j where j: "jput impl obj p (f_len f) (f_ts f) (get_now chan tv) = Some (r, j)" "jinv j"
        "contents j = (if r = JB_IMPL_OK then add_mset p (contents obj) else contents obj)"
        using p_put [OF o(2) p(1) 4(4,5) now] by blast
      obtain nxt j' where n: "jnext impl j = (nxt, j')" by (metis surjective_pairing)
      have j': "jinv j'" "contents j' = contents j" using p_next [OF j(2)] n by auto
      have "p \<notin> dom (store chan)" using p(2) by auto
      then have c: "add_mset p (contents obj) = mset_set (insert p (dom (store chan)))"
        using o(3) fin by simp
      have u: "(store chan)(p := None) = store chan" using p(2) by auto
      have g: "get_now ?c tv = get_now chan tv" by (simp add: get_now_def)
      show ?thesis
        using 4 True o j n j' c fin u
        by (auto simp: tris_jb_put_def owns_def tris_frfree_def Let_def g)
    qed
  qed
qed

end


context jb_provider
begin

text \<open>One round of the delivery loop: it never aborts, keeps the ownership, and either leaves the
  loop or makes progress.\<close>

lemma deliver_step_owns:
  assumes inv: "owns jinv contents chan" and cr: "created chan" and now: "0 \<le> now"
    and nxt: "jinv j0" "jbobj chan = Some obj" "jnext impl j0 = (jb_next_time chan, obj)"
      "jb_next_time chan \<le> now"
  shows "\<exists>go chan'. deliver_step impl now chan = Some (go, chan') \<and> owns jinv contents chan' \<and> created chan' \<and>
    (go \<longrightarrow> (\<exists>j0' obj'. jinv j0' \<and> jbobj chan' = Some obj' \<and> jnext impl j0' = (jb_next_time chan', obj') \<and>
        (card (dom (store chan')) < card (dom (store chan)) \<or>
         card (dom (store chan')) = card (dom (store chan)) \<and> rank now obj' < rank now obj)))"
proof -
  let ?len = "tris_codec_interp_len (last_format chan)"
  have len: "2 \<le> ?len" by (simp add: tris_codec_interp_len_def)
  have o: "jinv obj" "contents obj = mset_set (dom (store chan))" "finite (dom (store chan))"
    using inv cr nxt(2) by (auto simp: owns_def)
  obtain r out j where g: "jget impl obj now ?len = Some (r, out, j)" "jinv j"
    "case out of
       Some p \<Rightarrow> (r = JB_IMPL_OK \<or> r = JB_IMPL_DROP) \<and> contents obj = add_mset p (contents j)
     | None \<Rightarrow> (r = JB_IMPL_INTERP \<or> r = JB_IMPL_NOFRAME) \<and> contents j = contents obj"
    using p_get [OF o(1) now len] by blast
  obtain t j' where n: "jnext impl j = (t, j')" by (metis surjective_pairing)
  have j': "jinv j'" "contents j' = contents j" using p_next [OF g(2)] n by auto
  show ?thesis
  proof (cases out)
    case None
    then have c: "contents j' = mset_set (dom (store chan))" and r: "r = JB_IMPL_INTERP \<or> r = JB_IMPL_NOFRAME"
      using g(3) j'(2) o(2) by auto
    show ?thesis
    proof (cases "r = JB_IMPL_INTERP")
      case True
      have k: "rank now (snd (jnext impl j)) < rank now obj"
        using p_rank [OF nxt(1,3,4) len] g(1) True by blast
      have e: "deliver_step impl now chan =
          Some (True, chan\<lparr>jbobj := Some j', written := written chan @ [None], jb_next_time := t\<rparr>)"
        using g(1) n True None nxt(2) by (simp add: deliver_step_def Let_def)
      show ?thesis
        unfolding e using inv cr c j' k n g(2) by (auto simp: owns_def)
    next
      case False
      then have e: "deliver_step impl now chan = Some (False, chan\<lparr>jbobj := Some j'\<rparr>)"
        using g(1) n r None nxt(2) by (simp add: deliver_step_def Let_def)
      show ?thesis unfolding e using inv cr c j' by (auto simp: owns_def)
    qed
  next
    case (Some p)
    then have c: "mset_set (dom (store chan)) = add_mset p (contents j)" and r: "r = JB_IMPL_OK \<or> r = JB_IMPL_DROP"
      using g(3) o(2) by auto
    note d = mset_set_delete [OF o(3) c]
    then obtain f where f: "store chan p = Some f" by auto
    let ?w = "written chan @ (if r = JB_IMPL_OK then [Some p] else [])"
    let ?c = "chan\<lparr>jbobj := Some j', written := ?w, last_format := f_subclass f,
        store := (store chan)(p := None), jb_next_time := t\<rparr>"
    have e: "deliver_step impl now chan = Some (True, ?c)"
      using g(1) n r Some f nxt(2) by (auto simp: deliver_step_def tris_frfree_def Let_def)
    have "card (dom (store chan) - {p}) < card (dom (store chan))"
      using d(1) o(3) by (meson card_Diff1_less)
    then show ?thesis
      unfolding e using inv cr d j' n g(2) by (auto simp: owns_def)
  qed
qed

lemma deliver_loop_owns:
  assumes "0 \<le> now"
  shows "owns jinv contents chan \<Longrightarrow> created chan \<Longrightarrow>
    jinv j0 \<Longrightarrow> jbobj chan = Some obj \<Longrightarrow> jnext impl j0 = (jb_next_time chan, obj) \<Longrightarrow>
    \<exists>chan'. deliver_loop impl now chan = Some chan' \<and> owns jinv contents chan' \<and> created chan'"
proof (induction "(card (dom (store chan)), rank now obj)" arbitrary: chan j0 obj
    rule: wf_induct_rule [OF wf_lex_prod [OF wf_less_than wf_less_than]])
  case (1 chan obj j0)
  show ?case
  proof (cases "now < jb_next_time chan")
    case True
    then show ?thesis using "1.prems" by (simp add: deliver_loop.simps)
  next
    case False
    then have nxt: "jb_next_time chan \<le> now" by simp
    from deliver_step_owns [OF "1.prems"(1,2) assms "1.prems"(3-5) nxt]
    obtain go chan' where s: "deliver_step impl now chan = Some (go, chan')" "owns jinv contents chan'" "created chan'"
      and prog: "go \<longrightarrow> (\<exists>j0' obj'. jinv j0' \<and> jbobj chan' = Some obj' \<and>
        jnext impl j0' = (jb_next_time chan', obj') \<and>
        (card (dom (store chan')) < card (dom (store chan)) \<or>
         card (dom (store chan')) = card (dom (store chan)) \<and> rank now obj' < rank now obj))"
      by (elim exE conjE)
    show ?thesis
    proof (cases go)
      case True
      then obtain j0' obj' where n: "jinv j0'" "jbobj chan' = Some obj'" "jnext impl j0' = (jb_next_time chan', obj')"
        "card (dom (store chan')) < card (dom (store chan)) \<or>
         card (dom (store chan')) = card (dom (store chan)) \<and> rank now obj' < rank now obj" using prog by auto
      have "\<exists>c. deliver_loop impl now chan' = Some c \<and> owns jinv contents c \<and> created c"
        by (rule "1.hyps" [OF _ s(2,3) n(1-3)]) (use n(4) in auto)
      then show ?thesis using False s(1) True by (simp add: deliver_loop.simps [of _ _ chan])
    next
      case False
      then show ?thesis
        using s \<open>\<not> now < jb_next_time chan\<close> by (simp add: deliver_loop.simps [of _ _ chan])
    qed
  qed
qed

lemma get_and_deliver_owns:
  assumes inv: "owns jinv contents chan" and cr: "created chan" and now: "0 \<le> get_now chan tv"
  shows "\<exists>chan'. jb_get_and_deliver impl chan tv = Some chan' \<and> owns jinv contents chan' \<and> created chan'"
proof -
  obtain obj where o: "jbobj chan = Some obj" "jinv obj" "contents obj = mset_set (dom (store chan))"
    using inv cr by (auto simp: owns_def split: option.splits)
  obtain t j where n: "jnext impl obj = (t, j)" by (metis surjective_pairing)
  let ?c = "chan\<lparr>jbobj := Some j, jb_next_time := t\<rparr>"
  have j: "jinv j" "contents j = contents obj" using p_next [OF o(2)] n by auto
  then have "owns jinv contents ?c" using inv cr o by (simp add: owns_def)
  then have "\<exists>c. deliver_loop impl (get_now chan tv) ?c = Some c \<and> owns jinv contents c \<and> created c"
    by (rule deliver_loop_owns [OF now _ _ o(2)]) (use cr n in simp_all)
  then show ?thesis using o(1) n by (simp add: jb_get_and_deliver_def)
qed

lemma remove_all_owns:
  assumes "jinv obj" "finite (dom (store chan))" "contents obj = mset_set (dom (store chan))"
  shows "\<exists>obj' chan'. remove_all impl obj chan = Some (obj', chan') \<and> jinv obj' \<and> contents obj' = {#} \<and>
    store chan' = Map.empty \<and> created chan' = created chan"
  using assms
proof (induction "card (dom (store chan))" arbitrary: obj chan rule: less_induct)
  case less
  obtain r out j where r: "jremove impl obj = (r, out, j)" by (metis prod_cases3)
  note p = p_remove [OF less.prems(1) r]
  show ?case
  proof (cases out)
    case None
    then have "mset_set (dom (store chan)) = {#}" "contents j = {#}" "r \<noteq> JB_IMPL_OK" "jinv j"
      using p less.prems(3) by auto
    moreover from this have "store chan = Map.empty"
      using less.prems(2) by (simp add: mset_set_empty_iff dom_eq_empty_conv)
    ultimately show ?thesis using r by (simp add: remove_all.simps)
  next
    case (Some q)
    then have c: "mset_set (dom (store chan)) = add_mset q (contents j)" and j: "r = JB_IMPL_OK" "jinv j"
      using p less.prems(3) by auto
    note d = mset_set_delete [OF less.prems(2) c]
    have "card (dom (store chan) - {q}) < card (dom (store chan))"
      using d(1) less.prems(2) by (meson card_Diff1_less)
    then have "\<exists>obj' chan'. remove_all impl j (tris_frfree chan q) = Some (obj', chan') \<and> jinv obj' \<and>
        contents obj' = {#} \<and> store chan' = Map.empty \<and> created chan' = created (tris_frfree chan q)"
      using less.prems(2) d(2) j by (intro less.hyps) (simp_all add: tris_frfree_def)
    then show ?thesis using r j Some by (simp add: remove_all.simps [of _ obj]) (simp add: tris_frfree_def)
  qed
qed

lemma destroy_owns:
  assumes inv: "owns jinv contents chan"
  shows "\<exists>chan'. tris_jb_destroy impl chan = Some chan' \<and> \<not> created chan' \<and> store chan' = Map.empty"
proof (cases "created chan")
  case False
  then show ?thesis using inv by (auto simp: tris_jb_destroy_def owns_def)
next
  case True
  obtain obj where o: "jbobj chan = Some obj" "jinv obj" "contents obj = mset_set (dom (store chan))"
    "finite (dom (store chan))"
    using inv True by (auto simp: owns_def split: option.splits)
  obtain obj' chan' where r: "remove_all impl obj chan = Some (obj', chan')" "jinv obj'" "contents obj' = {#}"
    "store chan' = Map.empty" using remove_all_owns [OF o(2,4,3)] by blast
  then show ?thesis using True o(1) p_destroy [OF r(2,3)] by (simp add: tris_jb_destroy_def)
qed

end

section \<open>The fixed buffer meets the contract\<close>

definition fixed_contents :: "fixed_jb \<Rightarrow> nat multiset" where
  "fixed_contents jb = image_mset fixed_jb_frame.fr_data (mset (fixed_jb.frames jb))"

definition fixed_rank :: "int \<Rightarrow> fixed_jb \<Rightarrow> nat" where
  "fixed_rank now jb = nat (now + 1 - next_delivery jb)"

lemma fixed_contents_sig:
  "fixed_contents jb = image_mset fst (image_mset sig (mset (fixed_jb.frames jb)))"
proof -
  have "fst \<circ> sig = fixed_jb_frame.fr_data" by (auto simp: sig_def)
  then show ?thesis by (simp add: fixed_contents_def multiset.map_comp)
qed

lemma put_ok_contents:
  assumes "put_ok jb dat ms res"
  shows "\<exists>r jb'. put_outcome res = Some (r, jb') \<and> fixed_jb_inv jb' \<and>
    fixed_contents jb' = (if r = JB_IMPL_OK then add_mset dat (fixed_contents jb) else fixed_contents jb)"
proof -
  consider jb' where "res = Put_ret FIXED_JB_DROP jb'" "fixed_jb_inv jb'"
      "map sig (fixed_jb.frames jb') = map sig (fixed_jb.frames jb)"
    | jb' d where "res = Put_ret FIXED_JB_OK jb'" "fixed_jb_inv jb'"
      "image_mset sig (mset (fixed_jb.frames jb')) = add_mset (dat, ms, d) (image_mset sig (mset (fixed_jb.frames jb)))"
    using assms by (auto simp: put_ok_def)
  then show ?thesis
  proof cases
    case 1
    then have "image_mset sig (mset (fixed_jb.frames jb')) = image_mset sig (mset (fixed_jb.frames jb))"
      by (metis mset_map)
    then show ?thesis
      using 1 by (simp add: put_outcome_def fixed_to_abstract_code_def fixed_contents_sig)
  next
    case 2
    then show ?thesis by (simp add: put_outcome_def fixed_to_abstract_code_def fixed_contents_sig)
  qed
qed

lemma fixed_get_contents:
  assumes inv: "fixed_jb_inv jb" and a: "0 \<le> now" "2 \<le> interpl"
  obtains r out jb' where "jb_get_fixed jb now interpl = Some (r, out, jb')" "fixed_jb_inv jb'"
    "case out of
       Some p \<Rightarrow> (r = JB_IMPL_OK \<or> r = JB_IMPL_DROP) \<and> fixed_contents jb = add_mset p (fixed_contents jb')
     | None \<Rightarrow> (r = JB_IMPL_INTERP \<or> r = JB_IMPL_NOFRAME) \<and> fixed_contents jb' = fixed_contents jb"
    "r = JB_IMPL_INTERP \<Longrightarrow> next_delivery jb' = next_delivery jb + interpl"
proof -
  obtain fr jh where h: "get_jb_head jb = (fr, jh)" by (metis surjective_pairing)
  let ?i = "jb\<lparr>next_delivery := next_delivery jb + interpl\<rparr>"
  have i: "fixed_jb_inv ?i" "fixed_contents ?i = fixed_contents jb"
    using inv by (simp_all add: fixed_jb_inv_def fixed_contents_def)
  have c: "fixed_contents jb = add_mset (fixed_jb_frame.fr_data fr) (fixed_contents jh)" "fixed_jb_inv jh"
    if "fixed_jb.frames jb \<noteq> []"
    using get_head_inv(1,2) [OF inv that h] by (simp_all add: fixed_contents_def)
  note d = jb_get_fixed_def fixed_jb_get_def fixed_to_abstract_code_def
  let ?fr = "hd (fixed_jb.frames jb)"
  have e1: "jb_get_fixed jb now interpl = Some (JB_IMPL_INTERP, None, ?i)"
    if "\<not> now < next_delivery jb" "fixed_jb.frames jb = []"
    using a that by (simp add: d)
  have e2: "jb_get_fixed jb now interpl =
      (if fr_delivery ?fr + fixed_jb_frame.fr_ms ?fr < now then Some (JB_IMPL_DROP, Some (fixed_jb_frame.fr_data fr), jh)
       else if now < fr_delivery ?fr then Some (JB_IMPL_INTERP, None, ?i)
       else Some (JB_IMPL_OK, Some (fixed_jb_frame.fr_data fr), jh))"
    if "\<not> now < next_delivery jb" "fixed_jb.frames jb \<noteq> []"
    using a that h by (simp add: d)
  consider "now < next_delivery jb"
    | "\<not> now < next_delivery jb" "jb_get_fixed jb now interpl = Some (JB_IMPL_INTERP, None, ?i)"
    | r where "fixed_jb.frames jb \<noteq> []" "r = JB_IMPL_OK \<or> r = JB_IMPL_DROP"
        "jb_get_fixed jb now interpl = Some (r, Some (fixed_jb_frame.fr_data fr), jh)"
    using e1 e2 by metis
  then show ?thesis
  proof cases
    case 1
    then show ?thesis using a inv by (intro that [of JB_IMPL_NOFRAME None jb]) (auto simp: d)
  next
    case 2
    then show ?thesis using i by (intro that [of JB_IMPL_INTERP None ?i]) auto
  next
    case 3
    then show ?thesis using c by (intro that [of r "Some (fixed_jb_frame.fr_data fr)" jh]) auto
  qed
qed

interpretation fixed: jb_provider "fixed_impl True" fixed_jb_inv fixed_contents fixed_rank
proof (unfold_locales, goal_cases)
  case (1 cf thr)
  show ?case by (simp add: fixed_impl_def jb_create_fixed_def new_inv) (simp add: fixed_contents_def fixed_jb_new_def Let_def)
next
  case (2 j p len ts now)
  then have e: "fixed_jb.frames j = []" by (simp add: fixed_contents_def)
  have "put_good True j p len (fixed_jb_put_first True (Suc 1) j p len ts now)"
    using 2 by (intro put_empty [OF 2(1) _ e]) (simp add: valid_args_def)
  then have "put_ok j p len (fixed_jb_put_first True (Suc 1) j p len ts now)" by (simp add: put_good_def)
  from put_ok_contents [OF this] show ?case
    unfolding 2(2) fixed_impl_def tris_jb_impl.simps jb_put_first_fixed_def numeral_2_eq_2 One_nat_def .
next
  case (3 j p len ts now)
  then have "put_good True j p len (fixed_jb_put True 2 j p len ts now)"
    by (intro fixed_jb_put_good) (simp_all add: valid_args_def)
  then have "put_ok j p len (fixed_jb_put True 2 j p len ts now)" by (simp add: put_good_def)
  from put_ok_contents [OF this] show ?case by (simp add: fixed_impl_def jb_put_fixed_def)
next
  case (4 j now interpl)
  then show ?case using fixed_get_contents [OF 4] by (simp add: fixed_impl_def) metis
next
  case (5 j)
  then show ?case by (simp add: fixed_impl_def jb_next_fixed_def)
next
  case (6 j0 nxt j now interpl out j')
  have n: "j = j0" "nxt = next_delivery j0" using 6(2) by (auto simp: fixed_impl_def jb_next_fixed_def fixed_jb_next_def)
  have "0 \<le> now" using 6(5) by (auto simp: fixed_impl_def jb_get_fixed_def fixed_jb_get_def split: if_splits)
  from fixed_get_contents [OF 6(1) this 6(4)] 6(5) n
  have "next_delivery j' = next_delivery j + interpl" by (simp add: fixed_impl_def) metis
  then show ?case using 6(3,4) n by (simp add: fixed_rank_def fixed_impl_def jb_next_fixed_def)
next
  case (7 j r out j')
  show ?case
  proof (cases "fixed_jb.frames j = []")
    case True
    then show ?thesis
      using 7 by (auto simp: fixed_impl_def jb_remove_fixed_def fixed_jb_remove_def fixed_to_abstract_code_def fixed_contents_def)
  next
    case False
    obtain fr jh where h: "get_jb_head j = (fr, jh)" by (metis surjective_pairing)
    note hi = get_head_inv [OF 7(1) False h]
    show ?thesis
      using 7 False h hi(1,2)
      by (auto simp: fixed_impl_def jb_remove_fixed_def fixed_jb_remove_def fixed_to_abstract_code_def fixed_contents_def)
  qed
next
  case (8 j)
  then show ?case by (simp add: fixed_impl_def fixed_jb_destroy_def fixed_contents_def)
next
  case (9 j)
  then show ?case
    by (simp add: fixed_impl_def fixed_jb_set_force_resynch_def fixed_jb_inv_def fixed_contents_def)
qed


section \<open>The adaptive buffer meets the contract\<close>

definition adaptive_contents :: "jitterbuf \<Rightarrow> nat multiset" where
  "adaptive_contents jb = image_mset fr_data (mset (frames jb))"

definition adaptive_rank :: "int \<Rightarrow> jitterbuf \<Rightarrow> nat" where
  "adaptive_rank now jb = (if silence_begin_ts (info jb) = 0 then nat (now + 1 - next_voice_ts (info jb)) else 0)"

lemma history_get_fields [simp]:
  "silence_begin_ts (info (history_get jb)) = silence_begin_ts (info jb)"
  "next_voice_ts (info (history_get jb)) = next_voice_ts (info jb)"
  by (simp_all add: history_get_def history_calc_maxbuf_def Let_def)

lemma jb_next_fields [simp]:
  "silence_begin_ts (info (snd (jb_next jb))) = silence_begin_ts (info jb)"
  "next_voice_ts (info (snd (jb_next jb))) = next_voice_ts (info jb)"
  by (simp_all add: jb_next_def Let_def)

lemma jb_target_fields [simp]:
  "silence_begin_ts (info (jb_target jb)) = silence_begin_ts (info jb)"
  "next_voice_ts (info (jb_target jb)) = next_voice_ts (info jb)"
  by (simp_all add: jb_target_def Let_def)

lemma losspct_fields [simp]:
  "silence_begin_ts (info (increment_losspct jb)) = silence_begin_ts (info jb)"
  "next_voice_ts (info (increment_losspct jb)) = next_voice_ts (info jb)"
  by (simp_all add: increment_losspct_def)

lemma interp_more_fields [simp]: "next_voice_ts (info (interp_more jb)) = next_voice_ts (info jb)"
  by (simp add: interp_more_def Let_def)

lemma queue_get_fields:
  "queue_get jb ts = (out, jb') \<Longrightarrow> next_voice_ts (info jb') = next_voice_ts (info jb)"
  by (auto simp: queue_get_def queue_get_gen_def split: list.splits if_splits)

lemma voice_interp:
  assumes "jb_get_voice jb out diff now interpl = (JB_INTERP, out', jb')"
  shows "next_voice_ts (info jb') = next_voice_ts (info jb) + interpl"
  using assms by (auto simp: jb_get_voice_def Let_def split: if_splits option.splits)

lemma talk_interp:
  assumes "jb_get_talk jb diff now interpl = (JB_INTERP, out', jb')"
  shows "next_voice_ts (info jb') = next_voice_ts (info jb) + interpl"
proof (cases "0 < diff \<and>
    (last_adjustment (info jb) + JB_ADJUST_DELAY < now \<or> queue_last jb - queue_next jb < diff)")
  case True
  then show ?thesis using assms by (auto simp: jb_get_talk_def)
next
  case False
  obtain out j1 where q: "queue_get jb (next_voice_ts (info jb) - current (info jb)) = (out, j1)"
    by (metis surjective_pairing)
  note e0 = jb_get_talk_def [of jb diff now interpl, unfolded if_not_P [OF False] q]
  have f: "next_voice_ts (info j1) = next_voice_ts (info jb)" using queue_get_fields [OF q] .
  show ?thesis
  proof (cases out)
    case None
    then have "jb_get_voice j1 None diff now interpl = (JB_INTERP, out', jb')" using e0 assms by simp
    from voice_interp [OF this] show ?thesis using f by simp
  next
    case (Some fr)
    then show ?thesis
      using e0 assms f by (auto simp: Let_def dest!: voice_interp [OF sym] split: if_splits)
  qed
qed

lemma inner_interp:
  assumes "jb_get_inner jb now interpl = (JB_INTERP, out, jb')"
  shows "silence_begin_ts (info jb) = 0" "next_voice_ts (info jb') = next_voice_ts (info jb) + interpl"
proof -
  show s: "silence_begin_ts (info jb) = 0"
  proof (rule ccontr)
    assume "silence_begin_ts (info jb) \<noteq> 0"
    then show False
      using assms by (auto simp: jb_get_inner_def jb_get_silent_def Let_def split: option.splits if_splits prod.splits)
  qed
  show "next_voice_ts (info jb') = next_voice_ts (info jb) + interpl"
    using assms s talk_interp by (fastforce simp: jb_get_inner_def Let_def)
qed

interpretation adaptive: jb_provider "adaptive_impl True mem" jb_inv adaptive_contents adaptive_rank
proof (unfold_locales, goal_cases)
  case (1 cf thr)
  have "jb_inv (jb_create_adaptive mem cf thr)"
    using jb_do_inv [OF reset_inv jb_do.simps(6)] by (auto simp: jb_create_adaptive_def)
  then show ?case
    by (simp add: adaptive_impl_def) (simp add: jb_create_adaptive_def adaptive_contents_def jb_setconf_def
        jb_reset_def Let_def)
next
  case (2 j p len ts now)
  obtain r j' where p: "jb_put j p JB_TYPE_VOICE len ts now True = (r, j')" by (metis surjective_pairing)
  show ?case
    using jb_put_inv [OF 2(1) p] p 2(2)
    by (auto simp: adaptive_impl_def jb_put_first_adaptive_def jb_put_adaptive_def adaptive_to_abstract_code_def
        adaptive_contents_def)
next
  case (3 j p len ts now)
  obtain r j' where p: "jb_put j p JB_TYPE_VOICE len ts now True = (r, j')" by (metis surjective_pairing)
  show ?case
    using jb_put_inv [OF 3(1) p] p
    by (auto simp: adaptive_impl_def jb_put_adaptive_def adaptive_to_abstract_code_def adaptive_contents_def)
next
  case (4 j now interpl)
  obtain r out j' where g: "fst (jb_get j now interpl) = (r, out, j')" by (metis prod_cases3)
  show ?case
    using jb_get_ok [OF 4(1), of now interpl] g
    by (auto simp: get_head_ok_def adaptive_impl_def jb_get_adaptive_def adaptive_to_abstract_code_def
        adaptive_contents_def split: option.splits)
next
  case (5 j)
  then show ?case using jb_next_inv [OF 5] by (simp add: adaptive_impl_def adaptive_contents_def)
next
  case (6 j0 nxt j now interpl out j')
  obtain o' where g: "jb_get_inner j now interpl = (JB_INTERP, o', j')"
    using 6(5) by (auto simp: adaptive_impl_def jb_get_adaptive_def jb_get_def adaptive_to_abstract_code_def
        split: prod.splits jb_return_code.splits)
  note i = inner_interp [OF g]
  have j: "j = snd (jb_next j0)" "nxt = fst (jb_next j0)" using 6(2) by (auto simp: adaptive_impl_def)
  have "silence_begin_ts (info j0) = 0" using i(1) j by simp
  then have "nxt = next_voice_ts (info j)" using j by (simp add: jb_next_def)
  then show ?case using i 6(3,4) by (simp add: adaptive_rank_def adaptive_impl_def)
next
  case (7 j r out j')
  obtain o1 j1 where q: "queue_get_gen j 0 True = (o1, j1)" by (metis surjective_pairing)
  show ?case
  proof (cases "frames j")
    case Nil
    then show ?thesis
      using 7 by (auto simp: adaptive_impl_def jb_remove_adaptive_def jb_getall_def queue_getall_def
          queue_get_gen_def adaptive_to_abstract_code_def adaptive_contents_def)
  next
    case (Cons fr frs)
    then have "o1 = Some fr" "frames j1 = frs" using q by (auto simp: queue_get_gen_def)
    then show ?thesis
      using 7 q Cons queue_get_inv [OF 7(1) q]
      by (auto simp: adaptive_impl_def jb_remove_adaptive_def jb_getall_def queue_getall_def
          adaptive_to_abstract_code_def adaptive_contents_def)
  qed
next
  case (8 j)
  then show ?case by (simp add: adaptive_impl_def)
next
  case (9 j)
  then show ?case by (simp add: adaptive_impl_def)
qed

section \<open>Properties\<close>

text \<open>Claim C19. With either implementation, and memory for the record that the implementation keeps of a
  frame, \<open>tris_jb_put\<close> never aborts and leaks no frame: after it, exactly the frames that the buffer holds are
  allocated, also when the buffer itself cannot be had. The same is true of the delivery, whose loop terminates and frees
  every frame it takes out. (Without that memory the adaptive buffer leaks the frame and the fixed one
  writes through \<open>NULL\<close>: \<open>adaptive_put_leaks\<close> and \<open>fixed_put_null\<close>.)\<close>

theorem jb_put_deliver_no_leak:
  assumes "owns fixed_jb_inv fixed_contents c0" and "owns jb_inv adaptive_contents c1"
    and "0 \<le> get_now c0 tv" and "0 \<le> get_now c1 tv"
    and "p \<noteq> 0" and "store c0 p = None" and "store c1 p = None"
  shows "(\<exists>r c. tris_jb_put (fixed_impl True) c0 f (Some p) alloc tv = Some (r, c) \<and> owns fixed_jb_inv fixed_contents c) \<and>
         (\<exists>r c. tris_jb_put (adaptive_impl True mem) c1 f (Some p) alloc tv = Some (r, c) \<and>
            owns jb_inv adaptive_contents c) \<and>
         (\<exists>c c'. tris_jb_get_and_deliver (fixed_impl True) (adaptive_impl True mem) c0 c1 tv = Some (c, c') \<and>
            owns fixed_jb_inv fixed_contents c \<and> owns jb_inv adaptive_contents c')"
proof -
  have "\<exists>c. tris_jb_get_and_deliver_one (fixed_impl True) c0 tv = Some c \<and> owns fixed_jb_inv fixed_contents c"
    using fixed.get_and_deliver_owns [OF assms(1) _ assms(3)] assms(1)
    by (auto simp: tris_jb_get_and_deliver_one_def)
  moreover have "\<exists>c. tris_jb_get_and_deliver_one (adaptive_impl True mem) c1 tv = Some c \<and> owns jb_inv adaptive_contents c"
    using adaptive.get_and_deliver_owns [OF assms(2) _ assms(4), of mem] assms(2)
    by (auto simp: tris_jb_get_and_deliver_one_def)
  ultimately have "\<exists>c c'. tris_jb_get_and_deliver (fixed_impl True) (adaptive_impl True mem) c0 c1 tv = Some (c, c') \<and>
      owns fixed_jb_inv fixed_contents c \<and> owns jb_inv adaptive_contents c'"
    by (auto simp: tris_jb_get_and_deliver_def)
  then show ?thesis
    using fixed.put_owns [OF assms(1,3), of "Some p" f alloc] adaptive.put_owns [OF assms(2,4), of "Some p" mem f alloc]
      assms(5-7) by auto
qed

definition fresh_chan :: "tris_jb_conf \<Rightarrow> 'j jb_chan" where
  "fresh_chan cf = \<lparr>jbconf = cf, jbobj = None, timebase = tris_tv 0 0, jb_next_time = 0, last_format = 0,
     use_jb = True, timebase_set = True, created = False, store = Map.empty, written = []\<rparr>"

definition sample_jbconf :: tris_jb_conf where
  "sample_jbconf = \<lparr>jb_enabled = True, jb_forced = False, jb_log = False, max_size = 200,
     jb_resync_threshold = 1000, jb_impl_name = [], jb_target_extra = 40\<rparr>"

lemma fresh_owns: "owns i c (fresh_chan cf)"
  by (simp add: owns_def fresh_chan_def)

lemma fresh_now: "get_now (fresh_chan cf) (tris_tv 5 0) = 5000"
  by (simp add: get_now_def fresh_chan_def tris_tv_def tris_tvdiff_ms_def)

lemma fresh_now': "0 \<le> get_now (fresh_chan cf) (tris_tv 5 0)"
  by (simp add: fresh_now)

lemma fresh_store: "store (fresh_chan cf) p = None"
  by (simp add: fresh_chan_def)

theorem jb_put_deliver_no_leak_witness:
  "\<exists>r c. tris_jb_put (fixed_impl True) (fresh_chan sample_jbconf)
     \<lparr>f_type = TRIS_FRAME_VOICE, f_timing = True, f_len = 20, f_ts = 160, f_subclass = 4\<rparr> (Some 1) True
     (tris_tv 5 0) = Some (r, c)"
  using jb_put_deliver_no_leak [OF fresh_owns fresh_owns fresh_now' fresh_now' _ fresh_store fresh_store,
      where p = 1] by force

text \<open>Without memory for the record of the frame: the adaptive buffer's put reports success, and the frame
  stays allocated although the buffer does not hold it; the fixed buffer's put writes through \<open>NULL\<close>.\<close>

definition sample_voice :: tris_frame where
  "sample_voice = \<lparr>f_type = TRIS_FRAME_VOICE, f_timing = True, f_len = 20, f_ts = 0, f_subclass = 4\<rparr>"

lemma adaptive_put_leaks:
  "\<exists>c j. tris_jb_put (adaptive_impl False mem) (fresh_chan sample_jbconf) sample_voice (Some 1) True (tris_tv 5 0) = Some (0, c) \<and>
     store c = [1 \<mapsto> sample_voice] \<and> jbobj c = Some j \<and> adaptive_contents j = {#}"
proof -
  let ?j = "jb_create_adaptive mem sample_jbconf (jb_resync_threshold sample_jbconf)"
  have j: "frames ?j = []" "free ?j = []" "max_jitterbuf (conf (info ?j)) = 200"
    by (simp_all add: jb_create_adaptive_def jb_setconf_def jb_reset_def sample_jbconf_def Let_def)
  define j1 where "j1 = upd_info (\<lambda>i. i\<lparr>frames_in := frames_in i + 1\<rparr>) (?j\<lparr>dropem := False\<rparr>)"
  have "jb_put ?j 1 JB_TYPE_VOICE 20 0 5000 False = (JB_OK, j1)"
    using j by (simp add: jb_put_def history_put_def queue_put_def j1_def Let_def)
  then have p: "jb_put_first_adaptive False ?j 1 20 0 5000 = Some (JB_IMPL_OK, j1)"
    by (simp add: jb_put_first_adaptive_def jb_put_adaptive_def adaptive_to_abstract_code_def)
  have j1: "frames j1 = []" using j by (simp add: j1_def)
  then have f: "adaptive_contents (snd (jb_next j1)) = {#}"
    by (simp add: jb_next_def adaptive_contents_def Let_def history_get_def history_calc_maxbuf_def jb_target_def)
  let ?c = "(fresh_chan sample_jbconf)\<lparr>store := [1 \<mapsto> sample_voice]\<rparr> :: jitterbuf jb_chan"
  have "get_now ?c (tris_tv 5 0) = 5000" by (simp add: get_now_def fresh_chan_def tris_tv_def tris_tvdiff_ms_def)
  then have "create_jb (adaptive_impl False mem) ?c True 1 sample_voice (tris_tv 5 0) =
      Some (0, ?c\<lparr>jbobj := Some (snd (jb_next j1)), jb_next_time := fst (jb_next j1), last_format := f_subclass sample_voice\<rparr>)"
    using p by (simp add: create_jb_def adaptive_impl_def fresh_chan_def sample_voice_def Let_def split: prod.split)
  then show ?thesis
    using f by (simp add: tris_jb_put_def fresh_chan_def sample_voice_def)
qed

lemma fixed_put_null: "tris_jb_put (fixed_impl False) (fresh_chan sample_jbconf) sample_voice (Some 1) True (tris_tv 5 0) = None"
proof -
  let ?j = "jb_create_fixed sample_jbconf (jb_resync_threshold sample_jbconf)"
  have "fixed_jb_put_first False 2 ?j 1 20 0 5000 = Put_null"
    by (simp add: fixed_jb_put_first_def fixed_jb_put_first_body_def fixed_jb_put_body_def numeral_2_eq_2 covered_def
        jb_create_fixed_def fixed_jb_new_def sample_jbconf_def Let_def)
  then have p: "jb_put_first_fixed False ?j 1 20 0 5000 = None" by (simp add: jb_put_first_fixed_def put_outcome_def)
  let ?c = "(fresh_chan sample_jbconf)\<lparr>store := [1 \<mapsto> sample_voice]\<rparr> :: fixed_jb jb_chan"
  have "get_now ?c (tris_tv 5 0) = 5000" by (simp add: get_now_def fresh_chan_def tris_tv_def tris_tvdiff_ms_def)
  then have "create_jb (fixed_impl False) ?c True 1 sample_voice (tris_tv 5 0) = None"
    using p by (simp add: create_jb_def fixed_impl_def fresh_chan_def sample_voice_def Let_def)
  then show ?thesis by (simp add: tris_jb_put_def fresh_chan_def sample_voice_def)
qed

text \<open>Destroying a channel's buffer terminates, passes the assertion that it is empty, and
  frees every frame that was still queued.\<close>

theorem jb_destroy_frees_all:
  assumes "owns fixed_jb_inv fixed_contents c0" and "owns jb_inv adaptive_contents c1"
  shows "(\<exists>c. tris_jb_destroy (fixed_impl True) c0 = Some c \<and> \<not> created c \<and> store c = Map.empty) \<and>
         (\<exists>c. tris_jb_destroy (adaptive_impl True mem) c1 = Some c \<and> \<not> created c \<and> store c = Map.empty)"
  using fixed.destroy_owns [OF assms(1)] adaptive.destroy_owns [OF assms(2)] by blast

theorem jb_destroy_frees_all_witness:
  "\<exists>c. tris_jb_destroy (fixed_impl True) (fresh_chan sample_jbconf) = Some c \<and> store c = Map.empty"
  using jb_destroy_frees_all [OF fresh_owns fresh_owns] by blast

text \<open>The time to wait in a bridge is \<open>-1\<close> (forever) or at least one millisecond, is
  never longer than the caller's limit, and with no buffer in use is that limit.\<close>

theorem jb_wakeup_bounds:
  assumes "- 1 \<le> time_left" and "time_left < INT_MAX"
  shows "tris_jb_get_when_to_wakeup c0 c1 time_left tv = - 1 \<and> time_left = - 1 \<or>
         1 \<le> tris_jb_get_when_to_wakeup c0 c1 time_left tv \<and>
         (1 \<le> time_left \<longrightarrow> tris_jb_get_when_to_wakeup c0 c1 time_left tv \<le> time_left) \<and>
         (\<not> created c0 \<and> \<not> created c1 \<and> 1 \<le> time_left \<longrightarrow>
            tris_jb_get_when_to_wakeup c0 c1 time_left tv = time_left)"
  using assms by (auto simp: tris_jb_get_when_to_wakeup_def Let_def INT_MAX_def)

theorem jb_wakeup_bounds_witness:
  "1 \<le> tris_jb_get_when_to_wakeup (fresh_chan sample_jbconf :: fixed_jb jb_chan)
     (fresh_chan sample_jbconf :: jitterbuf jb_chan) 50 (tris_tv 0 0)"
  using jb_wakeup_bounds [of 50 "fresh_chan sample_jbconf :: fixed_jb jb_chan"
      "fresh_chan sample_jbconf :: jitterbuf jb_chan" "tris_tv 0 0"]
  by (simp add: INT_MAX_def)


end
