(* ===== verification/Udptl.thy ===== *)
theory Udptl
  imports Prelude
begin

text \<open>
  The UDPTL transport of T.38 fax packets, \<open>main/udptl.c\<close>.

  Packets are lists of bytes. A fixed-size array is the list of the bytes written so far: the rest
  of it is zero, as the session is allocated zeroed. Lengths and sequence numbers are natural
  numbers, reduced modulo \<open>2 ^ 32\<close> or \<open>2 ^ 16\<close> where the code's types do so and it matters.
  A write or read outside an array is a result of its own (\<open>oob\<close>), and a loop that never ends is
  \<open>None\<close> of a \<open>partial_function (option)\<close>. Sockets, the debug output, and the configuration file
  are not modelled; the bind call is a parameter.
\<close>

section \<open>Data\<close>

definition LOCAL_FAX_MAX_DATAGRAM :: nat where "LOCAL_FAX_MAX_DATAGRAM = 1400"
definition DEFAULT_FAX_MAX_DATAGRAM :: int where "DEFAULT_FAX_MAX_DATAGRAM = 400"
definition FAX_MAX_DATAGRAM_LIMIT :: nat where "FAX_MAX_DATAGRAM_LIMIT = 1400"
definition MAX_FEC_ENTRIES :: nat where "MAX_FEC_ENTRIES = 5"

text \<open>The buffers are indexed modulo 16, \<open>& UDPTL_BUF_MASK\<close>.\<close>

definition slot :: "int \<Rightarrow> nat" where
  "slot i = nat (i mod 16)"

datatype ec_mode = UDPTL_ERROR_CORRECTION_NONE | UDPTL_ERROR_CORRECTION_FEC
  | UDPTL_ERROR_CORRECTION_REDUNDANCY

record udptl_fec_rx_buffer =
  rx_buf_len :: int
  rx_buf :: "u8 list"
  fec_len :: "nat list"
  fec :: "u8 list list"
  fec_span :: nat
  fec_entries :: nat

text \<open>A frame handed to the application: sequence number and data.\<close>

type_synonym t38_frame = "int \<times> u8 list"

record tris_udptl =
  error_correction_scheme :: ec_mode
  error_correction_entries :: nat
  error_correction_span :: nat
  far_max_datagram :: int
  local_max_datagram :: int
  far_max_ifp :: int
  local_max_ifp :: int
  tx_seq_no :: nat
  rx_seq_no :: nat
  tx :: "u8 list list"
  rx :: "udptl_fec_rx_buffer list"

definition empty_rx :: udptl_fec_rx_buffer where
  "empty_rx = \<lparr>rx_buf_len = - 1, rx_buf = [], fec_len = replicate 5 0, fec = replicate 5 [],
     fec_span = 0, fec_entries = 0\<rparr>"

text \<open>The state after creation, with the configured numbers of entries and span. An empty
  transmission slot has length \<open>-1\<close> in the code; no loop tells it from length 0.\<close>

definition udptl_init :: "nat \<Rightarrow> nat \<Rightarrow> tris_udptl" where
  "udptl_init entries span =
     \<lparr>error_correction_scheme = UDPTL_ERROR_CORRECTION_NONE, error_correction_entries = entries,
      error_correction_span = span, far_max_datagram = - 1, local_max_datagram = - 1,
      far_max_ifp = - 1, local_max_ifp = - 1, tx_seq_no = 0, rx_seq_no = 0,
      tx = replicate 16 [], rx = replicate 16 empty_rx\<rparr>"

text \<open>Array contents: bytes past the written part are zero; \<open>memcpy\<close> to the start of an array.\<close>

definition byte_at :: "u8 list \<Rightarrow> nat \<Rightarrow> u8" where
  "byte_at xs j = (if j < length xs then xs ! j else 0)"

definition overwrite :: "u8 list \<Rightarrow> u8 list \<Rightarrow> u8 list" where
  "overwrite xs new = new @ drop (length new) xs"

section \<open>Lengths and open types\<close>

text \<open>The results \<open>-1\<close>, 0 and 1, the new position and the value, if one is stored.\<close>

definition decode_length :: "u8 list \<Rightarrow> nat \<Rightarrow> int \<times> nat \<times> nat option" where
  "decode_length buf len =
     (if length buf \<le> len then (- 1, len, None)
      else if buf ! len AND 0x80 = 0 then (0, len + 1, Some (unat (buf ! len)))
      else if buf ! len AND 0x40 = 0
      then if len = length buf - 1 then (- 1, len, None)
           else (0, len + 2, Some (unat (buf ! len AND 0x3F) * 2 ^ 8 + unat (buf ! (len + 1))))
      else (1, len + 1, Some (unat (buf ! len AND 0x3F) * 2 ^ 14)))"

text \<open>The outcome of \<open>decode_open_type\<close>: the offset of the object in the buffer (when a pointer
  is stored), its length and the new position; \<open>-1\<close> with the length stored so far; or a pointer
  stored outside the caller's variable.\<close>

datatype open_type = OT_ok "nat option" nat nat | OT_err nat | OT_oob

text \<open>
  The loop. The result of \<open>decode_length\<close> is stored in an \<open>unsigned\<close> variable, so that it is
  never negative: a failed \<open>decode_length\<close> leaves the position where it is and the loop goes on.
\<close>

partial_function (option) open_type_loop ::
  "u8 list \<Rightarrow> nat \<Rightarrow> nat option \<Rightarrow> nat \<Rightarrow> nat \<Rightarrow> open_type option" where
  "open_type_loop buf len obj num octet_idx =
     (case decode_length buf len of
        (r, len, pvalue) \<Rightarrow>
          (let octet_cnt = (case pvalue of None \<Rightarrow> 0 | Some v \<Rightarrow> v)
           in if 0 < octet_cnt
              then
                if length buf < len + octet_cnt then Some (OT_err (num + octet_cnt))
                else if octet_idx \<noteq> 0 then Some OT_oob
                else if r = 0 then Some (OT_ok (Some len) (num + octet_cnt) (len + octet_cnt))
                else open_type_loop buf (len + octet_cnt) (Some len) (num + octet_cnt) (octet_idx + octet_cnt)
              else
                if r = 0 then Some (OT_ok obj num len)
                else open_type_loop buf len obj num octet_idx))"

definition decode_open_type :: "u8 list \<Rightarrow> nat \<Rightarrow> open_type option" where
  "decode_open_type buf len = open_type_loop buf len None 0 0"

definition object_of :: "u8 list \<Rightarrow> nat option \<Rightarrow> nat \<Rightarrow> u8 list" where
  "object_of buf obj num = (case obj of None \<Rightarrow> [] | Some off \<Rightarrow> take num (drop off buf))"

text \<open>The bytes written and the number of octets to follow.\<close>

definition encode_length :: "nat \<Rightarrow> u8 list \<times> nat" where
  "encode_length value =
     (if value < 0x80 then ([of_nat value], value)
      else if value < 0x4000 then ([of_nat (0x80 + value div 2 ^ 8), of_nat (value mod 2 ^ 8)], value)
      else (let multiplier = (if value < 0x10000 then value div 2 ^ 14 else 4)
            in ([0xC0 OR of_nat multiplier], multiplier * 2 ^ 14)))"

text \<open>Writing to the packet: \<open>Out_oob\<close> when a byte falls outside the buffer of \<open>buflen\<close> bytes.\<close>

datatype out_result = Out "u8 list" | Out_err | Out_oob

definition put_bytes :: "nat \<Rightarrow> u8 list \<Rightarrow> u8 list \<Rightarrow> out_result" where
  "put_bytes buflen out bs = (if length out + length bs \<le> buflen then Out (out @ bs) else Out_oob)"

lemma encode_length_pos: "encode_length v = (h, e) \<Longrightarrow> e < v \<Longrightarrow> 0 < e"
  by (auto simp: encode_length_def Let_def div_greater_zero_iff split: if_splits)

function encode_open_loop :: "nat \<Rightarrow> u8 list \<Rightarrow> u8 list \<Rightarrow> out_result" where
  "encode_open_loop buflen out dat =
     (case encode_length (length dat) of
        (hdr, enclen) \<Rightarrow>
          (case put_bytes buflen out hdr of
             Out out \<Rightarrow>
               if buflen < enclen + length out then Out_err
               else (let out = out @ take enclen dat
                     in if length dat \<le> enclen then Out out
                        else encode_open_loop buflen out (drop enclen dat))
           | r \<Rightarrow> r))"
  by pat_completeness auto
termination
  by (relation "measure (\<lambda>(buflen, out, dat). length dat)") (auto simp: not_le dest: encode_length_pos [OF sym])

definition encode_open_type :: "nat \<Rightarrow> u8 list \<Rightarrow> u8 list \<Rightarrow> out_result" where
  "encode_open_type buflen out dat = encode_open_loop buflen out (if dat = [] then [0] else dat)"

section \<open>Receiving\<close>

text \<open>What \<open>udptl_rx_packet\<close> does: it returns a negative number, or frames; or it touches memory
  outside an array. The state is changed in both of the first cases.\<close>

datatype rx_result = Rx_frames "t38_frame list" tris_udptl | Rx_err tris_udptl | Rx_oob

text \<open>The frame array has 16 elements.\<close>

definition add_frame :: "t38_frame list \<Rightarrow> t38_frame \<Rightarrow> t38_frame list option" where
  "add_frame fs fr = (if length fs < 16 then Some (fs @ [fr]) else None)"

text \<open>The redundant packets of secondary mode. \<open>bufs\<close> and \<open>lengths\<close>, arrays of 16 elements, are
  the list of the packets decoded so far; every element is written, also when decoding fails.\<close>

datatype secondary = Sec_ok "u8 list list" nat | Sec_err | Sec_oob

fun secondary_group :: "u8 list \<Rightarrow> nat \<Rightarrow> nat \<Rightarrow> u8 list list \<Rightarrow> secondary option" where
  "secondary_group buf 0 ptr bufs = Some (Sec_ok bufs ptr)"
| "secondary_group buf (Suc n) ptr bufs =
     (if 16 \<le> length bufs then Some Sec_oob
      else
        (case decode_open_type buf ptr of
           None \<Rightarrow> None
         | Some (OT_err _) \<Rightarrow> Some Sec_err
         | Some OT_oob \<Rightarrow> Some Sec_oob
         | Some (OT_ok obj num ptr) \<Rightarrow>
             secondary_group buf n ptr (bufs @ [object_of buf obj num])))"

partial_function (option) secondary_loop :: "u8 list \<Rightarrow> nat \<Rightarrow> u8 list list \<Rightarrow> secondary option" where
  "secondary_loop buf ptr bufs =
     (case decode_length buf ptr of
        (stat2, ptr, pvalue) \<Rightarrow>
          if stat2 < 0 then Some Sec_err
          else
            (case secondary_group buf (case pvalue of None \<Rightarrow> 0 | Some c \<Rightarrow> c) ptr bufs of
               None \<Rightarrow> None
             | Some r \<Rightarrow>
                 (case r of
                    Sec_ok bufs ptr \<Rightarrow> if 0 < stat2 then secondary_loop buf ptr bufs else Some (Sec_ok bufs ptr)
                  | Sec_err \<Rightarrow> Some Sec_err
                  | Sec_oob \<Rightarrow> Some Sec_oob)))"

text \<open>The oldest packet first: \<open>i\<close> counts down from their number, and a packet is used unless
  its number \<open>seq_no - i\<close>, converted to \<open>unsigned\<close>, is before the expected one.\<close>

fun secondary_frames ::
  "nat \<Rightarrow> nat \<Rightarrow> u8 list list \<Rightarrow> nat \<Rightarrow> t38_frame list \<Rightarrow> t38_frame list option" where
  "secondary_frames seq expected bufs 0 fs = Some fs"
| "secondary_frames seq expected bufs (Suc i) fs =
     (if expected \<le> nat ((int seq - int (Suc i)) mod 2 ^ 32)
      then (case add_frame fs (int seq - int (Suc i), bufs ! i) of
              None \<Rightarrow> None
            | Some fs \<Rightarrow> secondary_frames seq expected bufs i fs)
      else secondary_frames seq expected bufs i fs)"

text \<open>Missed slots are emptied: one per sequence number from the expected one to this packet's.\<close>

fun clear_slots :: "nat \<Rightarrow> nat \<Rightarrow> udptl_fec_rx_buffer list \<Rightarrow> udptl_fec_rx_buffer list" where
  "clear_slots 0 from_seq bs = bs"
| "clear_slots (Suc n) from_seq bs =
     clear_slots n (from_seq + 1)
       (bs[slot (int from_seq) :=
             (bs ! slot (int from_seq))\<lparr>rx_buf_len := - 1,
                fec_len := (fec_len (bs ! slot (int from_seq)))[0 := 0], fec_span := 0, fec_entries := 0\<rparr>])"

text \<open>Decoding the FEC elements \<open>i, i + 1, \<dots>\<close> into slot \<open>b\<close>; the arrays have five elements.\<close>

datatype fec_result = Fec_ok udptl_fec_rx_buffer | Fec_err udptl_fec_rx_buffer | Fec_oob

fun decode_fec ::
  "u8 list \<Rightarrow> nat \<Rightarrow> nat \<Rightarrow> nat \<Rightarrow> udptl_fec_rx_buffer \<Rightarrow> fec_result option" where
  "decode_fec buf 0 i ptr b = Some (Fec_ok b)"
| "decode_fec buf (Suc n) i ptr b =
     (if MAX_FEC_ENTRIES \<le> i then Some Fec_oob
      else
        (case decode_open_type buf ptr of
           None \<Rightarrow> None
         | Some (OT_err num) \<Rightarrow> Some (Fec_err (b\<lparr>fec_len := (fec_len b)[i := num]\<rparr>))
         | Some OT_oob \<Rightarrow> Some Fec_oob
         | Some (OT_ok obj num ptr) \<Rightarrow>
             (let b = b\<lparr>fec_len := (fec_len b)[i := num]\<rparr>
              in if LOCAL_FAX_MAX_DATAGRAM < num then Some (Fec_err b)
                 else decode_fec buf n (i + 1) ptr
                        (b\<lparr>fec := (fec b)[i := overwrite (fec b ! i) (object_of buf obj num)]\<rparr>))))"

text \<open>The slots \<open>k\<close> that an FEC element covers: from \<open>limit - span * entries\<close> in steps of
  \<open>entries\<close> until \<open>limit\<close> is met, which is after \<open>span\<close> steps at the latest.\<close>

definition fec_slots :: "nat \<Rightarrow> nat \<Rightarrow> nat \<Rightarrow> nat list" where
  "fec_slots limit span entries =
     takeWhile (\<lambda>k. k \<noteq> limit)
       (map (\<lambda>t. slot (int limit - int (span * entries) + int (t * entries))) [0..<span])"

text \<open>\<open>which\<close>: \<open>-1\<close> when nothing is missing, \<open>-2\<close> when several slots are, else the slot.\<close>

definition missing_slot :: "udptl_fec_rx_buffer list \<Rightarrow> nat list \<Rightarrow> int" where
  "missing_slot bs ks =
     foldl (\<lambda>which k. if rx_buf_len (bs ! k) \<le> 0 then (if which = - 1 then int k else - 2) else which) (- 1) ks"

definition fec_byte :: "udptl_fec_rx_buffer list \<Rightarrow> u8 list \<Rightarrow> nat list \<Rightarrow> nat \<Rightarrow> u8" where
  "fec_byte bs element ks j =
     foldl (\<lambda>v k. v XOR (if int j < rx_buf_len (bs ! k) then byte_at (rx_buf (bs ! k)) j else 0))
       (byte_at element j) ks"

text \<open>Element \<open>m\<close> of slot \<open>l\<close>: the repaired slot, if exactly one of those it covers is missing.\<close>

definition repair_one ::
  "udptl_fec_rx_buffer list \<Rightarrow> nat set \<Rightarrow> nat \<Rightarrow> nat \<Rightarrow> udptl_fec_rx_buffer list \<times> nat set" where
  "repair_one bs repaired l m =
     (let b = bs ! l;
          ks = fec_slots (slot (int (l + m))) (fec_span b) (fec_entries b);
          which = missing_slot bs ks
      in if 0 \<le> which
         then (let w = nat which;
                   dat = map (fec_byte bs (fec b ! m) ks) [0..<fec_len b ! m]
               in (bs[w := (bs ! w)\<lparr>rx_buf := overwrite (rx_buf (bs ! w)) dat,
                                    rx_buf_len := int (fec_len b ! m)\<rparr>],
                   insert w repaired))
         else (bs, repaired))"

text \<open>All elements of slot \<open>l\<close>; \<open>None\<close> when an element beyond the fifth would be read.\<close>

fun repair_elements ::
  "nat \<Rightarrow> nat \<Rightarrow> nat \<Rightarrow> udptl_fec_rx_buffer list \<times> nat set \<Rightarrow> (udptl_fec_rx_buffer list \<times> nat set) option" where
  "repair_elements 0 m l st = Some st"
| "repair_elements (Suc n) m l st =
     (if MAX_FEC_ENTRIES \<le> m then None
      else repair_elements n (m + 1) l (repair_one (fst st) (snd st) l m))"

fun repair_loop ::
  "nat list \<Rightarrow> udptl_fec_rx_buffer list \<times> nat set \<Rightarrow> (udptl_fec_rx_buffer list \<times> nat set) option" where
  "repair_loop [] st = Some st"
| "repair_loop (l # ls) st =
     (if fec_len (fst st ! l) ! 0 = 0 then repair_loop ls st
      else (case repair_elements (fec_entries (fst st ! l)) 0 l st of
              None \<Rightarrow> None
            | Some st \<Rightarrow> repair_loop ls st))"

text \<open>The slots hunted: from \<open>x\<close> backwards, until \<open>x - (16 - span * entries)\<close> is met.\<close>

definition hunt_slots :: "nat \<Rightarrow> nat \<Rightarrow> nat \<Rightarrow> nat list" where
  "hunt_slots x span entries =
     map (\<lambda>i. slot (int x - int i)) [0..<slot (16 - int (span * entries))]"

text \<open>The repaired packets, oldest first, with sequence numbers from \<open>seq_no - 15\<close> on.\<close>

definition repaired_frames :: "udptl_fec_rx_buffer list \<Rightarrow> nat set \<Rightarrow> nat \<Rightarrow> nat \<Rightarrow> t38_frame list" where
  "repaired_frames bs repaired x seq =
     concat (map (\<lambda>i. let l = slot (int (x + i)) in
                       if l \<in> repaired
                       then [(int seq - 16 + int i, map (byte_at (rx_buf (bs ! l))) [0..<nat (rx_buf_len (bs ! l))])]
                       else []) [1..<16])"

text \<open>The last part: the primary packet, unless it was already played, and the expected number.\<close>

definition rx_primary :: "tris_udptl \<Rightarrow> nat \<Rightarrow> u8 list \<Rightarrow> t38_frame list \<Rightarrow> rx_result" where
  "rx_primary s seq ifp fs =
     (if rx_seq_no s \<le> seq
      then (case add_frame fs (int seq, ifp) of
              None \<Rightarrow> Rx_oob
            | Some fs \<Rightarrow> Rx_frames fs (s\<lparr>rx_seq_no := seq + 1\<rparr>))
      else Rx_frames fs (s\<lparr>rx_seq_no := seq + 1\<rparr>))"

definition rx_secondary :: "tris_udptl \<Rightarrow> u8 list \<Rightarrow> nat \<Rightarrow> u8 list \<Rightarrow> nat \<Rightarrow> rx_result option" where
  "rx_secondary s buf seq ifp ptr =
     (if rx_seq_no s < seq
      then
        (case secondary_loop buf ptr [] of
           None \<Rightarrow> None
         | Some Sec_err \<Rightarrow> Some (Rx_err s)
         | Some Sec_oob \<Rightarrow> Some Rx_oob
         | Some (Sec_ok bufs _) \<Rightarrow>
             (case secondary_frames seq (rx_seq_no s) bufs (length bufs) [] of
                None \<Rightarrow> Some Rx_oob
              | Some fs \<Rightarrow> Some (rx_primary s seq ifp fs)))
      else Some (rx_primary s seq ifp []))"

definition rx_fec :: "tris_udptl \<Rightarrow> u8 list \<Rightarrow> nat \<Rightarrow> u8 list \<Rightarrow> nat \<Rightarrow> rx_result option" where
  "rx_fec s buf seq ifp ptr =
     (if LOCAL_FAX_MAX_DATAGRAM < length ifp then Some (Rx_err s)
      else
        (let s = s\<lparr>rx := clear_slots (seq - rx_seq_no s) (rx_seq_no s) (rx s),
                   rx_seq_no := max seq (rx_seq_no s)\<rparr>;
             x = slot (int seq);
             upd = (\<lambda>f s. s\<lparr>rx := (rx s)[x := f (rx s ! x)]\<rparr>);
             s = upd (\<lambda>b. b\<lparr>rx_buf := overwrite (rx_buf b) ifp, rx_buf_len := int (length ifp)\<rparr>) s
         in if length buf < ptr + 2 then Some (Rx_err s)
            else if buf ! ptr \<noteq> 1 then Some (Rx_err s)
            else
              (let span = unat (buf ! (ptr + 1));
                   s = upd (\<lambda>b. b\<lparr>fec_span := span\<rparr>) s
               in if length buf < ptr + 3 then Some (Rx_err s)
                  else
                    (let entries = unat (buf ! (ptr + 2));
                         s = upd (\<lambda>b. b\<lparr>fec_entries := entries\<rparr>) s
                     in case decode_fec buf entries 0 (ptr + 3) (rx s ! x) of
                          None \<Rightarrow> None
                        | Some Fec_oob \<Rightarrow> Some Rx_oob
                        | Some (Fec_err b) \<Rightarrow> Some (Rx_err (upd (\<lambda>_. b) s))
                        | Some (Fec_ok b) \<Rightarrow>
                            (let s = upd (\<lambda>_. b) s
                             in case repair_loop (hunt_slots x span entries) (rx s, {x}) of
                                  None \<Rightarrow> Some Rx_oob
                                | Some (bs, repaired) \<Rightarrow>
                                    Some (rx_primary (s\<lparr>rx := bs\<rparr>) seq ifp
                                            (repaired_frames bs repaired x seq)))))))"

definition udptl_rx_packet :: "tris_udptl \<Rightarrow> u8 list \<Rightarrow> rx_result option" where
  "udptl_rx_packet s buf =
     (if length buf < 2 then Some (Rx_err s)
      else
        (let seq = unat (buf ! 0) * 2 ^ 8 + unat (buf ! 1)
         in case decode_open_type buf 2 of
              None \<Rightarrow> None
            | Some (OT_err _) \<Rightarrow> Some (Rx_err s)
            | Some OT_oob \<Rightarrow> Some Rx_oob
            | Some (OT_ok obj num ptr) \<Rightarrow>
                (let ifp = object_of buf obj num
                 in if length buf < ptr + 1 then Some (Rx_err s)
                    else if buf ! ptr AND 0x80 = 0 then rx_secondary s buf seq ifp (ptr + 1)
                    else rx_fec s buf seq ifp (ptr + 1))))"

section \<open>Sending\<close>

text \<open>One packet XORed into an element that is as long as the longest packet so far.\<close>

fun xor_merge :: "u8 list \<Rightarrow> u8 list \<Rightarrow> u8 list" where
  "xor_merge [] ys = ys"
| "xor_merge (x # xs) [] = x # xs"
| "xor_merge (x # xs) (y # ys) = (x XOR y) # xor_merge xs ys"

datatype build_result = Built "u8 list" tris_udptl | Build_err tris_udptl | Build_oob

text \<open>Continue with the packet built so far.\<close>

definition out_then :: "tris_udptl \<Rightarrow> out_result \<Rightarrow> (u8 list \<Rightarrow> build_result) \<Rightarrow> build_result" where
  "out_then s r k = (case r of Out out \<Rightarrow> k out | Out_err \<Rightarrow> Build_err s | Out_oob \<Rightarrow> Build_oob)"

fun encode_all :: "nat \<Rightarrow> u8 list \<Rightarrow> u8 list list \<Rightarrow> out_result" where
  "encode_all buflen out [] = Out out"
| "encode_all buflen out (d # ds) =
     (case encode_open_type buflen out d of
        Out out \<Rightarrow> encode_all buflen out ds
      | r \<Rightarrow> r)"

text \<open>Redundancy: the previous packets, newest first. FEC: element \<open>m\<close> combines every
  \<open>entries\<close>-th of the packets before.\<close>

definition redundant_data :: "tris_udptl \<Rightarrow> nat \<Rightarrow> nat \<Rightarrow> u8 list list" where
  "redundant_data s entry entries = map (\<lambda>i. tx s ! slot (int entry - int i - 1)) [0..<entries]"

definition fec_element :: "tris_udptl \<Rightarrow> nat \<Rightarrow> nat \<Rightarrow> nat \<Rightarrow> nat \<Rightarrow> u8 list" where
  "fec_element s entry span entries m =
     foldl (\<lambda>e i. xor_merge e (tx s ! i)) [] (fec_slots (slot (int (entry + m))) span entries)"

definition udptl_build_packet :: "tris_udptl \<Rightarrow> nat \<Rightarrow> u8 list \<Rightarrow> build_result" where
  "udptl_build_packet s buflen ifp =
     (let seq = tx_seq_no s mod 2 ^ 16;
          entry = slot (int seq)
      in if LOCAL_FAX_MAX_DATAGRAM < length ifp then Build_oob
         else
           (let s = s\<lparr>tx := (tx s)[entry := ifp]\<rparr>
            in out_then s (put_bytes buflen [] [of_nat (seq div 2 ^ 8), of_nat (seq mod 2 ^ 8)]) (\<lambda>out.
               out_then s (encode_open_type buflen out ifp) (\<lambda>out.
               out_then s
                 (case error_correction_scheme s of
                    UDPTL_ERROR_CORRECTION_NONE \<Rightarrow> put_bytes buflen out (0 # fst (encode_length 0))
                  | UDPTL_ERROR_CORRECTION_REDUNDANCY \<Rightarrow>
                      (let entries = min (tx_seq_no s) (error_correction_entries s)
                       in case put_bytes buflen out (0 # fst (encode_length entries)) of
                            Out out \<Rightarrow> encode_all buflen out (redundant_data s entry entries)
                          | r \<Rightarrow> r)
                  | UDPTL_ERROR_CORRECTION_FEC \<Rightarrow>
                      (let span0 = error_correction_span s;
                           entries0 = error_correction_entries s;
                           entries = (if seq < span0 * entries0 then seq div span0 else entries0);
                           span = (if seq < span0 * entries0 \<and> seq < span0 then 0 else span0)
                       in case put_bytes buflen out [0x80, 1, of_nat span, of_nat entries] of
                            Out out \<Rightarrow>
                              encode_all buflen out (map (fec_element s entry span entries) [0..<entries])
                          | r \<Rightarrow> r))
                 (\<lambda>out. Built out (s\<lparr>tx_seq_no := (tx_seq_no s + 1) mod 2 ^ 32\<rparr>))))))"

text \<open>Results of \<open>int\<close> and \<open>unsigned\<close> arithmetic, and the two percentages: the products by 1.05
  and 0.95 in \<open>double\<close>, truncated, are those of the integers for all sizes below three million.
  Far datagram sizes below 5, 8 or 10, for which the \<open>unsigned\<close> difference wraps, give a value that
  does not fit the \<open>int\<close> it is stored in; its conversion is undefined in C, and the model's value
  for it means nothing.\<close>

definition calculate_local_max_datagram :: "tris_udptl \<Rightarrow> tris_udptl" where
  "calculate_local_max_datagram s =
     (if local_max_ifp s = - 1 then s\<lparr>local_max_datagram := - 1\<rparr>
      else
        (let new_max =
               (case error_correction_scheme s of
                  UDPTL_ERROR_CORRECTION_NONE \<Rightarrow> 5 + local_max_ifp s
                | UDPTL_ERROR_CORRECTION_REDUNDANCY \<Rightarrow> 5 + local_max_ifp s + 2 + 3 * local_max_ifp s
                | UDPTL_ERROR_CORRECTION_FEC \<Rightarrow> 5 + local_max_ifp s + 4 + local_max_ifp s) mod 2 ^ 32
         in s\<lparr>local_max_datagram := min (new_max * 105 div 100) (int LOCAL_FAX_MAX_DATAGRAM)\<rparr>))"

text \<open>The division by \<open>error_correction_entries + 1\<close> is unsigned. The loop gives up entries
  while the result is below 80.\<close>

fun redundancy_ifp :: "int \<Rightarrow> nat \<Rightarrow> int \<times> nat" where
  "redundancy_ifp datagram entries =
     (let new_max = ((datagram - 8) mod 2 ^ 32) div (int entries + 1)
      in if new_max < 80 \<and> 1 < entries then redundancy_ifp datagram (entries - 1)
         else (new_max, entries))"

declare redundancy_ifp.simps [simp del]

definition calculate_far_max_ifp :: "tris_udptl \<Rightarrow> tris_udptl" where
  "calculate_far_max_ifp s =
     (if far_max_datagram s = - 1 then s\<lparr>far_max_ifp := - 1\<rparr>
      else
        (let (new_max, entries) =
               (case error_correction_scheme s of
                  UDPTL_ERROR_CORRECTION_NONE \<Rightarrow>
                    ((far_max_datagram s - 5) mod 2 ^ 32, error_correction_entries s)
                | UDPTL_ERROR_CORRECTION_REDUNDANCY \<Rightarrow>
                    redundancy_ifp (far_max_datagram s) (error_correction_entries s)
                | UDPTL_ERROR_CORRECTION_FEC \<Rightarrow>
                    (cdiv (far_max_datagram s - 10) 2 mod 2 ^ 32, error_correction_entries s))
         in s\<lparr>error_correction_entries := entries, far_max_ifp := new_max * 95 div 100\<rparr>))"

definition tris_udptl_set_error_correction_scheme :: "tris_udptl \<Rightarrow> ec_mode \<Rightarrow> tris_udptl" where
  "tris_udptl_set_error_correction_scheme s ec =
     (let s = s\<lparr>error_correction_scheme := ec\<rparr>;
          s = (case ec of
                 UDPTL_ERROR_CORRECTION_FEC \<Rightarrow>
                   (let s = (if error_correction_entries s = 0 then s\<lparr>error_correction_entries := 3\<rparr> else s)
                    in if error_correction_span s = 0 then s\<lparr>error_correction_span := 3\<rparr> else s)
               | UDPTL_ERROR_CORRECTION_REDUNDANCY \<Rightarrow>
                   (if error_correction_entries s = 0 then s\<lparr>error_correction_entries := 3\<rparr> else s)
               | UDPTL_ERROR_CORRECTION_NONE \<Rightarrow> s)
      in s\<lparr>local_max_datagram := - 1, far_max_ifp := - 1\<rparr>)"

definition tris_udptl_set_local_max_ifp :: "tris_udptl \<Rightarrow> u32 \<Rightarrow> tris_udptl" where
  "tris_udptl_set_local_max_ifp s max_ifp =
     (if 0 < sint max_ifp then s\<lparr>local_max_ifp := sint max_ifp, local_max_datagram := - 1\<rparr> else s)"

definition tris_udptl_get_local_max_datagram :: "tris_udptl \<Rightarrow> int \<times> tris_udptl" where
  "tris_udptl_get_local_max_datagram s =
     (let s = (if local_max_datagram s = - 1 then calculate_local_max_datagram s else s)
      in (if local_max_datagram s < 0 then 0 else local_max_datagram s, s))"

definition tris_udptl_set_far_max_datagram :: "tris_udptl \<Rightarrow> nat \<Rightarrow> tris_udptl" where
  "tris_udptl_set_far_max_datagram s max_datagram =
     s\<lparr>far_max_datagram :=
         (if max_datagram = 0 \<or> FAX_MAX_DATAGRAM_LIMIT < max_datagram then DEFAULT_FAX_MAX_DATAGRAM
          else int max_datagram),
       far_max_ifp := - 1\<rparr>"

definition tris_udptl_get_far_max_datagram :: "tris_udptl \<Rightarrow> int" where
  "tris_udptl_get_far_max_datagram s = (if far_max_datagram s < 0 then 0 else far_max_datagram s)"

definition tris_udptl_get_far_max_ifp :: "tris_udptl \<Rightarrow> int \<times> tris_udptl" where
  "tris_udptl_get_far_max_ifp s =
     (let s = (if far_max_ifp s = - 1 then calculate_far_max_ifp s else s)
      in (if far_max_ifp s < 0 then 0 else far_max_ifp s, s))"

text \<open>Sending a T.38 frame's data, to a known peer: \<open>None\<close> when nothing is built. The comparison
  with \<open>far_max_ifp\<close> is unsigned, so that \<open>-1\<close> means no limit.\<close>

definition tris_udptl_write :: "tris_udptl \<Rightarrow> u8 list \<Rightarrow> build_result option" where
  "tris_udptl_write s dat =
     (let bufsize = (if 0 < far_max_datagram s then far_max_datagram s else DEFAULT_FAX_MAX_DATAGRAM);
          maxlen = nat (far_max_ifp s mod 2 ^ 32)
      in if dat = [] then None
         else Some (udptl_build_packet s (nat bufsize) (if maxlen < length dat then take maxlen dat else dat)))"

section \<open>Bytes\<close>

lemma byte_bit: "bit (x :: u8) n \<longleftrightarrow> odd (unat x div 2 ^ n)"
proof -
  have "bit (unat x) n \<longleftrightarrow> bit x n" by (auto simp: bit_unsigned_iff dest: bit_imp_le_length)
  then show ?thesis by (simp add: bit_iff_odd)
qed

lemma byte_top: "(x :: u8) AND 0x80 = 0 \<longleftrightarrow> unat x < 128"
proof -
  have "(x AND 0x80 = 0) = (\<not> bit x 7)" using and_exp_eq_0_iff_not_bit [of x 7] by simp
  moreover have "unat x < 256" using unsigned_less [of x, where 'a = nat] by simp
  then have "unat x div 128 = 0 \<or> unat x div 128 = 1" by auto
  ultimately show ?thesis by (auto simp: byte_bit div_eq_0_iff)
qed

lemma byte_second: "(x :: u8) AND 0x40 = 0 \<longleftrightarrow> even (unat x div 64)"
  using and_exp_eq_0_iff_not_bit [of x 6] by (simp add: byte_bit)

lemma byte_low6: "unat ((x :: u8) AND 0x3F) = unat x mod 64"
proof -
  have "x AND 0x3F = take_bit 6 x" by (simp add: take_bit_eq_mask mask_eq_exp_minus_1)
  then show ?thesis by (simp add: take_bit_eq_mod unat_mod)
qed

lemma unat_byte: "n < 256 \<Longrightarrow> unat (of_nat n :: u8) = n"
  by (simp add: unat_of_nat)

section \<open>Open types: encoding and decoding\<close>

lemma decode_short:
  assumes "buf ! len = of_nat v" "len < length buf" "v < 0x80"
  shows "decode_length buf len = (0, len + 1, Some v)"
  using assms by (simp add: decode_length_def byte_top unat_byte)

lemma decode_long:
  assumes "buf ! len = of_nat (0x80 + v div 2 ^ 8)" "buf ! (len + 1) = of_nat (v mod 2 ^ 8)"
    and "len + 1 < length buf" "v < 0x4000"
  shows "decode_length buf len = (0, len + 2, Some v)"
proof -
  have d: "v div 256 < 64" using assms(4) by simp
  then have u: "unat (buf ! len) = 128 + v div 256"
    using assms(1) unat_byte [of "128 + v div 256"] by simp
  have "\<not> buf ! len AND 0x80 = 0" by (simp add: byte_top u)
  moreover have "buf ! len AND 0x40 = 0" using d by (simp add: byte_second u div_add1_eq)
  moreover have "unat (buf ! len AND 0x3F) = v div 256" using d by (simp add: byte_low6 u mod_add_eq [symmetric])
  ultimately show ?thesis using assms(2,3) by (simp add: decode_length_def unat_byte)
qed

lemma encode_decode_length:
  assumes "v < 0x4000" "encode_length v = (hdr, n)"
  shows "n = v" "decode_length (out @ hdr @ rest) (length out) = (0, length out + length hdr, Some v)"
    "hdr \<noteq> []" "length hdr \<le> 2" "v < 0x80 \<Longrightarrow> length hdr = 1"
proof -
  show "n = v" "hdr \<noteq> []" "length hdr \<le> 2" "v < 0x80 \<Longrightarrow> length hdr = 1"
    using assms by (auto simp: encode_length_def split: if_splits)
  show "decode_length (out @ hdr @ rest) (length out) = (0, length out + length hdr, Some v)"
  proof (cases "v < 0x80")
    case True
    then show ?thesis using assms by (intro decode_short [THEN trans]) (auto simp: encode_length_def nth_append)
  next
    case False
    then show ?thesis using assms by (intro decode_long [THEN trans]) (auto simp: encode_length_def nth_append)
  qed
qed

lemma encode_open_out:
  assumes "encode_open_type buflen out dat = Out out'" "dat \<noteq> []" "length dat < 0x4000"
  obtains hdr where "out' = out @ hdr @ dat" "fst (encode_length (length dat)) = hdr" "length out' \<le> buflen"
proof -
  obtain hdr n where e: "encode_length (length dat) = (hdr, n)" by (metis surjective_pairing)
  have "n = length dat" using encode_decode_length(1) [OF assms(3) e] .
  then have "out' = out @ hdr @ dat \<and> length out' \<le> buflen"
    using assms e by (auto simp: encode_open_type_def put_bytes_def split: if_splits)
  then show ?thesis using e by (intro that [of hdr]) auto
qed

lemma open_type_roundtrip:
  assumes "encode_open_type buflen out dat = Out out'" "dat \<noteq> []" "length dat < 0x4000"
  obtains off where "decode_open_type (out' @ rest) (length out) = Some (OT_ok (Some off) (length dat) (length out'))"
    "object_of (out' @ rest) (Some off) (length dat) = dat" "\<exists>body. out' = out @ body"
proof -
  obtain hdr where o: "out' = out @ hdr @ dat" "fst (encode_length (length dat)) = hdr"
    using encode_open_out [OF assms] by blast
  have e: "encode_length (length dat) = (hdr, snd (encode_length (length dat)))" using o(2) by (metis surjective_pairing)
  note d = encode_decode_length [OF assms(3) e]
  have "decode_length (out' @ rest) (length out) = (0, length out + length hdr, Some (length dat))"
    using d(2) [of out "dat @ rest"] o(1) by simp
  then have "decode_open_type (out' @ rest) (length out) =
      Some (OT_ok (Some (length out + length hdr)) (length dat) (length out'))"
    using assms(2) o(1) by (simp add: decode_open_type_def open_type_loop.simps Let_def)
  moreover have "object_of (out' @ rest) (Some (length out + length hdr)) (length dat) = dat"
    by (simp add: object_of_def o(1))
  ultimately show ?thesis using that o(1) by blast
qed


lemma secondary_group_all:
  assumes "encode_all buflen out ds = Out out'" "\<forall>d \<in> set ds. d \<noteq> [] \<and> length d < 0x4000"
    and "length bufs + length ds \<le> 16"
  shows "secondary_group (out' @ rest) (length ds) (length out) bufs = Some (Sec_ok (bufs @ ds) (length out')) \<and>
    (\<exists>body. out' = out @ body)"
  using assms
proof (induction ds arbitrary: out bufs)
  case (Cons d ds)
  obtain o1 where o1: "encode_open_type buflen out d = Out o1" "encode_all buflen o1 ds = Out out'"
    using Cons.prems(1) by (auto split: out_result.splits)
  have d: "d \<noteq> []" "length d < 0x4000" using Cons.prems(2) by auto
  have ih: "secondary_group (out' @ rest) (length ds) (length o1) (bufs @ [d]) =
      Some (Sec_ok ((bufs @ [d]) @ ds) (length out'))" "\<exists>body. out' = o1 @ body"
    using Cons.IH [OF o1(2), of "bufs @ [d]"] Cons.prems(2,3) by auto
  then obtain body where b: "out' = o1 @ body" by blast
  obtain off where r: "decode_open_type (o1 @ body @ rest) (length out) = Some (OT_ok (Some off) (length d) (length o1))"
    "object_of (o1 @ body @ rest) (Some off) (length d) = d" "\<exists>x. o1 = out @ x"
    using open_type_roundtrip [OF o1(1) d, of "body @ rest"] by metis
  have "16 > length bufs" using Cons.prems(3) by simp
  then show ?case using r ih b by auto
qed simp

lemma secondary_frames_run:
  assumes "expected \<le> seq" "i \<le> seq" "i \<le> length bufs" "seq < 2 ^ 16"
    and "length fs + min i (seq - expected) \<le> 16"
  shows "secondary_frames seq expected bufs i fs =
    Some (fs @ map (\<lambda>n. (int n, bufs ! (seq - n - 1))) [max expected (seq - i)..<seq])"
  using assms
proof (induction i arbitrary: fs)
  case 0
  then show ?case by simp
next
  case (Suc i)
  have m: "nat ((int seq - int (Suc i)) mod 2 ^ 32) = seq - Suc i"
  proof -
    have "(int seq - int (Suc i)) mod 2 ^ 32 = int seq - int (Suc i)"
      using Suc.prems by (intro mod_pos_pos_trivial) auto
    then show ?thesis using Suc.prems(2) by simp
  qed
  show ?case
  proof (cases "expected \<le> seq - Suc i")
    case True
    let ?f = "(int seq - int (Suc i), bufs ! i)"
    have l: "length fs < 16" using Suc.prems True by auto
    have e: "max expected (seq - Suc i) = seq - Suc i" "max expected (seq - i) = Suc (seq - Suc i)"
      using True Suc.prems(2) by auto
    have "[seq - Suc i..<seq] = (seq - Suc i) # [Suc (seq - Suc i)..<seq]"
      using Suc.prems(2) by (simp add: upt_conv_Cons)
    moreover have "seq - (seq - Suc i) - 1 = i" "int (seq - Suc i) = int seq - int (Suc i)"
      using Suc.prems(2) by auto
    moreover have "secondary_frames seq expected bufs i (fs @ [?f]) =
        Some ((fs @ [?f]) @ map (\<lambda>n. (int n, bufs ! (seq - n - 1))) [max expected (seq - i)..<seq])"
      using Suc.prems True by (intro Suc.IH) auto
    moreover have "secondary_frames seq expected bufs (Suc i) fs =
        secondary_frames seq expected bufs i (fs @ [?f])"
      unfolding secondary_frames.simps(2) m using l True by (simp add: add_frame_def)
    ultimately show ?thesis unfolding e by simp
  next
    case False
    then have e: "max expected (seq - Suc i) = expected" "max expected (seq - i) = expected" by auto
    have "secondary_frames seq expected bufs i fs =
        Some (fs @ map (\<lambda>n. (int n, bufs ! (seq - n - 1))) [max expected (seq - i)..<seq])"
      using Suc.prems False by (intro Suc.IH) auto
    then show ?thesis using False m unfolding e by simp
  qed
qed

lemma seq_bytes:
  assumes "seq < 2 ^ 16"
  shows "unat (of_nat (seq div 2 ^ 8) :: u8) * 2 ^ 8 + unat (of_nat (seq mod 2 ^ 8) :: u8) = seq"
proof -
  have "seq div 256 < 256" using assms by simp
  then show ?thesis using unat_byte [of "seq div 256"] unat_byte [of "seq mod 256"] by simp
qed

text \<open>What a packet of redundancy mode consists of.\<close>

lemma build_redundancy:
  assumes "error_correction_scheme s = UDPTL_ERROR_CORRECTION_REDUNDANCY"
    and "udptl_build_packet s buflen ifp = Built pkt s'"
  obtains o1 entries where "length ifp \<le> 1400"
    "encode_open_type buflen [of_nat (tx_seq_no s mod 2 ^ 16 div 2 ^ 8), of_nat (tx_seq_no s mod 2 ^ 16 mod 2 ^ 8)] ifp = Out o1"
    "entries = min (tx_seq_no s) (error_correction_entries s)"
    "encode_all buflen (o1 @ 0 # fst (encode_length entries))
       (redundant_data (s\<lparr>tx := (tx s)[slot (int (tx_seq_no s mod 2 ^ 16)) := ifp]\<rparr>)
          (slot (int (tx_seq_no s mod 2 ^ 16))) entries) = Out pkt"
proof -
  let ?h = "[of_nat (tx_seq_no s mod 2 ^ 16 div 2 ^ 8), of_nat (tx_seq_no s mod 2 ^ 16 mod 2 ^ 8)] :: u8 list"
  let ?n = "min (tx_seq_no s) (error_correction_entries s)"
  have l: "length ifp \<le> 1400"
  proof (rule ccontr)
    assume "\<not> length ifp \<le> 1400"
    then show False using assms(2) by (simp add: udptl_build_packet_def LOCAL_FAX_MAX_DATAGRAM_def Let_def)
  qed
  obtain o1 where o1: "encode_open_type buflen ?h ifp = Out o1"
    using assms by (auto simp: udptl_build_packet_def out_then_def put_bytes_def Let_def
        split: if_splits out_result.splits)
  have "encode_all buflen (o1 @ 0 # fst (encode_length ?n))
       (redundant_data (s\<lparr>tx := (tx s)[slot (int (tx_seq_no s mod 2 ^ 16)) := ifp]\<rparr>)
          (slot (int (tx_seq_no s mod 2 ^ 16))) ?n) = Out pkt"
    using assms o1 by (auto simp: udptl_build_packet_def out_then_def put_bytes_def Let_def
        split: if_splits out_result.splits)
  from that [OF l o1 refl this] show ?thesis .
qed

text \<open>The slot of a packet differs from those of the fifteen before it, and so the redundant data of a packet
  are the packets before it.\<close>

lemma slot_slot: "slot (int (slot (int seq)) - int k - 1) = slot (int seq - int k - 1)"
  by (simp add: slot_def mod_diff_left_eq diff_diff_eq)

lemma slot_before:
  assumes "k < 15"
  shows "slot (int seq - int k - 1) \<noteq> slot (int seq)"
proof
  assume "slot (int seq - int k - 1) = slot (int seq)"
  then have "(int seq - int k - 1) mod 16 = int seq mod 16" by (simp add: slot_def)
  then have "16 dvd - int k - 1" by (simp add: mod_eq_dvd_iff)
  moreover have "- int k - 1 = - (int k + 1)" by simp
  ultimately have "16 dvd int k + 1" by (simp only: dvd_minus_iff)
  then show False using assms by (auto dest: zdvd_imp_le)
qed

lemma redundant_data_before:
  assumes "n < 16"
  shows "redundant_data (s\<lparr>tx := (tx s)[slot (int seq) := ifp]\<rparr>) (slot (int seq)) n =
    map (\<lambda>k. tx s ! slot (int seq - int k - 1)) [0..<n]"
proof -
  have "slot (int seq - int k - 1) \<noteq> slot (int seq)" if "k < n" for k using slot_before [of k seq] assms that by simp
  then show ?thesis by (simp add: redundant_data_def slot_slot) (metis atLeastLessThan_iff nth_list_update_neq)
qed

text \<open>A packet made of an open type, the flag of redundancy and a list of data is taken apart into them.\<close>

lemma redundancy_packet_parts:
  assumes seq: "seq < 2 ^ 16" and n: "n < 16" "length ds = n" and ifp: "ifp \<noteq> []" "length ifp < 0x4000"
    and o1: "encode_open_type buflen [of_nat (seq div 2 ^ 8), of_nat (seq mod 2 ^ 8)] ifp = Out o1"
    and all: "encode_all buflen (o1 @ 0 # fst (encode_length n)) ds = Out pkt"
    and ds: "\<forall>d \<in> set ds. d \<noteq> [] \<and> length d < 0x4000"
  obtains off where "decode_open_type pkt 2 = Some (OT_ok (Some off) (length ifp) (length o1))"
    "object_of pkt (Some off) (length ifp) = ifp" "2 \<le> length o1" "length o1 + 2 \<le> length pkt" "pkt ! length o1 = 0"
    "unat (pkt ! 0) * 2 ^ 8 + unat (pkt ! 1) = seq"
    "secondary_loop pkt (length o1 + 1) [] = Some (Sec_ok ds (length pkt))"
proof -
  let ?h = "[of_nat (seq div 2 ^ 8), of_nat (seq mod 2 ^ 8)] :: u8 list"
  obtain hdr where hdr: "encode_length n = (hdr, n)" and hd: "fst (encode_length n) = hdr" and h1: "length hdr = 1"
    using n(1) by (auto simp: encode_length_def)
  let ?o2 = "o1 @ 0 # hdr"
  have g: "secondary_group pkt n (length ?o2) [] = Some (Sec_ok ds (length pkt))" "\<exists>body. pkt = ?o2 @ body"
    using secondary_group_all [OF all [unfolded hd] ds, of "[]" "[]"] n by auto
  obtain body where body: "pkt = o1 @ 0 # hdr @ body" using g(2) by auto
  have h2: "length ?h = 2" by simp
  obtain off where off: "decode_open_type pkt 2 = Some (OT_ok (Some off) (length ifp) (length o1))"
      "object_of pkt (Some off) (length ifp) = ifp" and "\<exists>ext. o1 = ?h @ ext"
    using open_type_roundtrip [OF o1 ifp, of "0 # hdr @ body"] unfolding h2 body [symmetric] by metis
  then obtain ext where ext: "o1 = ?h @ ext" by blast
  have "decode_length pkt (length o1 + 1) = (0, length ?o2, Some n)"
    using encode_decode_length(2) [OF _ hdr, of "o1 @ [0]" body] n(1) body by simp
  then have "secondary_loop pkt (length o1 + 1) [] = Some (Sec_ok ds (length pkt))"
    using g(1) by (simp add: secondary_loop.simps)
  then show thesis
    using off ext body h1 seq_bytes [OF seq] by (intro that [of off]) (simp_all add: nth_append)
qed

text \<open>Out of the data behind a packet the receiver takes the packets it has not got.\<close>

lemma missing_packets_taken:
  assumes "seq - m \<le> n" "m \<le> seq" "n < 16" "n \<le> seq" "seq < 2 ^ 16" "ds = map (\<lambda>k. g (int seq - int k - 1)) [0..<n]"
  shows "secondary_frames seq m ds n [] = Some (map (\<lambda>k. (int k, g (int k))) [m..<seq])"
proof -
  have "secondary_frames seq m ds n [] = Some ([] @ map (\<lambda>k. (int k, ds ! (seq - k - 1))) [max m (seq - n)..<seq])"
    using assms by (intro secondary_frames_run) auto
  moreover have "max m (seq - n) = m" using assms(1,2) by auto
  moreover have "ds ! (seq - k - 1) = g (int k)" if "m \<le> k" "k < seq" for k
  proof -
    have "seq - k - 1 < n" "int seq - int (seq - k - 1) - 1 = int k" using that assms(1) by auto
    then show ?thesis by (simp add: assms(6))
  qed
  ultimately show ?thesis by simp
qed

text \<open>Claim C39. Redundancy repairs losses, until the sequence numbers go round: if the sender
  sends its packet \<open>seq\<close>, one of its first 65536 packets, with redundancy of fewer than 16 entries, and
  the receiver has missed up to as many packets as this one carries redundant copies, then the
  receiver gets all missed data in order, each under its number, followed by the new data. The data
  of the packet and of its copies are not empty, and the copies have at most 1400 bytes.
  (When the numbers go round a packet is lost even without redundancy: \<open>udptl_wrap_drops\<close>.)\<close>

theorem udptl_redundancy_recovers:
  assumes "error_correction_scheme s = UDPTL_ERROR_CORRECTION_REDUNDANCY"
    and "tx_seq_no s = seq" and "seq < 2 ^ 16" and "n = min seq (error_correction_entries s)" and "n < 16"
    and "length (tx s) = 16" and "ifp \<noteq> []"
    and "\<forall>k < n. tx s ! slot (int seq - int k - 1) \<noteq> [] \<and> length (tx s ! slot (int seq - int k - 1)) \<le> 1400"
    and "udptl_build_packet s buflen ifp = Built pkt s'"
    and "rx_seq_no r \<le> seq" and "seq - rx_seq_no r \<le> n"
  shows "udptl_rx_packet r pkt =
    Some (Rx_frames (map (\<lambda>k. (int k, tx s ! slot (int k))) [rx_seq_no r..<seq] @ [(int seq, ifp)])
            (r\<lparr>rx_seq_no := seq + 1\<rparr>))"
proof -
  have sm: "seq mod 2 ^ 16 = seq" using assms(3) by simp
  let ?ds = "redundant_data (s\<lparr>tx := (tx s)[slot (int seq) := ifp]\<rparr>) (slot (int seq)) n"
  obtain o1 where l: "length ifp \<le> 1400"
    and o1: "encode_open_type buflen [of_nat (seq div 2 ^ 8), of_nat (seq mod 2 ^ 8)] ifp = Out o1"
    and all: "encode_all buflen (o1 @ 0 # fst (encode_length n)) ?ds = Out pkt"
    using build_redundancy [OF assms(1,9)] unfolding assms(2) sm assms(4) [symmetric] by metis
  have ds: "?ds = map (\<lambda>k. tx s ! slot (int seq - int k - 1)) [0..<n]" by (rule redundant_data_before [OF assms(5)])
  then have dok: "\<forall>d \<in> set ?ds. d \<noteq> [] \<and> length d < 0x4000" and len: "length ?ds = n" using assms(8) by fastforce+
  have il: "length ifp < 0x4000" using l by simp
  obtain off where parts: "decode_open_type pkt 2 = Some (OT_ok (Some off) (length ifp) (length o1))"
      "object_of pkt (Some off) (length ifp) = ifp" "2 \<le> length o1" "length o1 + 2 \<le> length pkt" "pkt ! length o1 = 0"
      "unat (pkt ! 0) * 2 ^ 8 + unat (pkt ! 1) = seq"
      "secondary_loop pkt (length o1 + 1) [] = Some (Sec_ok ?ds (length pkt))"
    by (rule redundancy_packet_parts [OF assms(3,5) len assms(7) il o1 all dok])
  have fs: "secondary_frames seq (rx_seq_no r) ?ds n [] = Some (map (\<lambda>k. (int k, tx s ! slot (int k))) [rx_seq_no r..<seq])"
    by (rule missing_packets_taken [OF assms(11,10,5) _ assms(3) ds]) (simp add: assms(4))
  have prim: "rx_primary r seq ifp fs' = Rx_frames (fs' @ [(int seq, ifp)]) (r\<lparr>rx_seq_no := seq + 1\<rparr>)"
    if "length fs' < 16" for fs'
    using that assms(10) by (simp add: rx_primary_def add_frame_def)
  have "rx_secondary r pkt seq ifp (length o1 + 1) =
     Some (Rx_frames (map (\<lambda>k. (int k, tx s ! slot (int k))) [rx_seq_no r..<seq] @ [(int seq, ifp)])
            (r\<lparr>rx_seq_no := seq + 1\<rparr>))"
    using parts(7) fs len prim assms(5,10,11) by (cases "rx_seq_no r < seq") (simp_all add: rx_secondary_def)
  then show ?thesis
    using parts(1-6) by (simp add: udptl_rx_packet_def Let_def)
qed

text \<open>After the packet numbered 65535 the expected number is 65536, which does not fit a packet: the
  next one, numbered 0, counts as played already and is not handed on; the one after it is.\<close>

lemma udptl_wrap_drops:
  assumes "rx_seq_no r = 65536"
  shows "udptl_rx_packet r [0, 0, 1, 9, 0, 0] = Some (Rx_frames [] (r\<lparr>rx_seq_no := 1\<rparr>))"
proof -
  let ?p = "[0, 0, 1, 9, 0, 0] :: u8 list"
  have "decode_open_type ?p 2 = Some (OT_ok (Some 3) 1 4)"
    by (simp add: decode_open_type_def open_type_loop.simps decode_length_def)
  then show ?thesis
    using assms by (simp add: udptl_rx_packet_def rx_secondary_def rx_primary_def Let_def)
qed

definition sample_sender :: tris_udptl where
  "sample_sender = (udptl_init 1 3)\<lparr>error_correction_scheme := UDPTL_ERROR_CORRECTION_REDUNDANCY,
     tx_seq_no := 1, tx := [7] # replicate 15 []\<rparr>"

lemma sample_built:
  "\<exists>s'. udptl_build_packet sample_sender 400 [9] = Built [0, 1, 1, 9, 0, 1, 1, 7] s'"
  by (simp add: sample_sender_def udptl_init_def udptl_build_packet_def out_then_def put_bytes_def
      encode_open_type_def encode_length_def redundant_data_def slot_def LOCAL_FAX_MAX_DATAGRAM_def Let_def)

theorem udptl_redundancy_recovers_witness:
  "udptl_rx_packet (udptl_init 1 3) [0, 1, 1, 9, 0, 1, 1, 7] =
   Some (Rx_frames [(0, [7]), (1, [9])] ((udptl_init 1 3)\<lparr>rx_seq_no := 2\<rparr>))"
proof -
  obtain s' where b: "udptl_build_packet sample_sender 400 [9] = Built [0, 1, 1, 9, 0, 1, 1, 7] s'"
    using sample_built by blast
  have n: "1 = min 1 (error_correction_entries sample_sender)"
    "error_correction_scheme sample_sender = UDPTL_ERROR_CORRECTION_REDUNDANCY"
    "tx_seq_no sample_sender = 1" "length (tx sample_sender) = 16" "tx sample_sender ! 0 = [7]"
    by (simp_all add: sample_sender_def udptl_init_def)
  have t: "\<forall>k < 1. tx sample_sender ! slot (int 1 - int k - 1) \<noteq> [] \<and>
      length (tx sample_sender ! slot (int 1 - int k - 1)) \<le> 1400"
    by (simp add: slot_def n(5))
  have r: "rx_seq_no (udptl_init a b) = 0" for a b by (simp add: udptl_init_def)
  have "udptl_rx_packet (udptl_init 1 3) [0, 1, 1, 9, 0, 1, 1, 7] =
    Some (Rx_frames (map (\<lambda>k. (int k, tx sample_sender ! slot (int k))) [rx_seq_no (udptl_init 1 3)..<1] @ [(int 1, [9])])
            ((udptl_init 1 3)\<lparr>rx_seq_no := 1 + 1\<rparr>))"
    by (rule udptl_redundancy_recovers [OF n(2,3) _ n(1) _ n(4) _ t b]) (simp_all add: r)
  then show ?thesis by (simp add: r slot_def n(5))
qed

section \<open>What a hostile packet does\<close>

text \<open>\<open>decode_open_type\<close> does not return when the packet ends before the object: the failure
  of \<open>decode_length\<close> is not seen, and the position stays where it is.\<close>

lemma open_type_diverges:
  assumes "length buf \<le> len"
  shows "open_type_loop buf len obj num octet_idx = None"
proof -
  have "\<not> length buf \<le> len" if "open_type_loop buf len obj num octet_idx = Some r" for r
  proof (rule open_type_loop.raw_induct [where P = "\<lambda>buf len obj num octet_idx r. \<not> length buf \<le> len", OF _ that], goal_cases)
    case (1 loop buf len obj num octet_idx r)
    show ?case
    proof
      assume "length buf \<le> len"
      then have "decode_length buf len = (- 1, len, None)" by (simp add: decode_length_def)
      then have "loop buf len obj num octet_idx = Some r" using 1(2) by simp
      then show False using 1(1) \<open>length buf \<le> len\<close> by blast
    qed
  qed
  then show ?thesis using assms by (cases "open_type_loop buf len obj num octet_idx") auto
qed

text \<open>A packet that consists of a sequence number only makes the receiver loop for ever,
  whatever its state.\<close>

theorem udptl_rx_short_packet_hangs: "udptl_rx_packet s [b0, b1] = None"
  by (simp add: udptl_rx_packet_def decode_open_type_def open_type_diverges Let_def)

lemma empty_object: "len < length buf \<Longrightarrow> buf ! len = 0 \<Longrightarrow> decode_open_type buf len = Some (OT_ok None 0 (len + 1))"
  by (simp add: decode_open_type_def open_type_loop.simps decode_length_def)

lemma secondary_group_oob:
  assumes "\<forall>i < n. ptr + i < length buf \<and> buf ! (ptr + i) = 0" "length bufs \<le> 16" "16 < length bufs + n"
  shows "secondary_group buf n ptr bufs = Some Sec_oob"
  using assms
proof (induction n arbitrary: ptr bufs)
  case (Suc n)
  show ?case
  proof (cases "length bufs = 16")
    case False
    have o: "decode_open_type buf ptr = Some (OT_ok None 0 (ptr + 1))"
      using Suc.prems(1) by (intro empty_object) (drule spec [of _ 0], simp)+
    have "secondary_group buf n (ptr + 1) (bufs @ [object_of buf None 0]) = Some Sec_oob"
    proof (rule Suc.IH)
      show "\<forall>i<n. ptr + 1 + i < length buf \<and> buf ! (ptr + 1 + i) = 0"
        using Suc.prems(1) by (metis Suc_less_eq add_Suc_right add_Suc_shift Suc_eq_plus1)
    qed (use Suc.prems False in auto)
    then show ?thesis using o Suc.prems False by simp
  qed simp
qed simp

text \<open>The count of redundant packets is not checked: 17 empty ones are written beyond
  the arrays of 16 elements on the stack.\<close>

theorem udptl_rx_secondary_overrun:
  assumes "rx_seq_no s < 5"
  shows "udptl_rx_packet s ([0, 5, 0, 0, 17] @ replicate 17 0) = Some Rx_oob"
proof -
  let ?p = "[0, 5, 0, 0, 17] @ replicate 17 0 :: u8 list"
  have d: "decode_open_type ?p 2 = Some (OT_ok None 0 3)" using empty_object [of 2 ?p] by simp
  have z: "?p ! (5 + i) = 0" if "i < 17" for i using that by (simp add: nth_append)
  have "secondary_group ?p 17 5 [] = Some Sec_oob"
    using z by (intro secondary_group_oob) auto
  moreover have "decode_length ?p 4 = (0, 5, Some 17)" by (simp add: decode_length_def)
  ultimately have "secondary_loop ?p 4 [] = Some Sec_oob" by (simp add: secondary_loop.simps)
  then show ?thesis using assms d by (simp add: udptl_rx_packet_def rx_secondary_def object_of_def)
qed

theorem udptl_rx_secondary_overrun_witness:
  "udptl_rx_packet (udptl_init 3 3) ([0, 5, 0, 0, 17] @ replicate 17 0) = Some Rx_oob"
  by (rule udptl_rx_secondary_overrun) (simp add: udptl_init_def)


section \<open>Forward error correction\<close>

lemma byte_at_simps [simp]:
  "byte_at [] j = 0" "byte_at (x # xs) 0 = x" "byte_at (x # xs) (Suc j) = byte_at xs j"
  by (simp_all add: byte_at_def)

lemma byte_at_merge: "byte_at (xor_merge xs ys) j = byte_at xs j XOR byte_at ys j"
proof (induction xs ys arbitrary: j rule: xor_merge.induct)
  case (3 x xs y ys)
  then show ?case by (cases j) simp_all
qed simp_all

lemma byte_at_element:
  "byte_at (foldl (\<lambda>e i. xor_merge e (f i)) e ks) j = foldl (\<lambda>v k. v XOR byte_at (f k) j) (byte_at e j) ks"
  by (induction ks arbitrary: e) (simp_all add: byte_at_merge)

lemma foldl_xor_start: "foldl (\<lambda>v k. v XOR g k) (a XOR b) ks = a XOR foldl (\<lambda>v k. v XOR g k) (b :: u8) ks"
  by (induction ks arbitrary: b) (simp_all add: xor.assoc)

lemma foldl_xor_cancel:
  "foldl (\<lambda>v k. v XOR g k) (foldl (\<lambda>v k. v XOR g k) (0 :: u8) ks) ks = 0"
proof (induction ks)
  case (Cons k ks)
  have "foldl (\<lambda>v k. v XOR g k) (foldl (\<lambda>v k. v XOR g k) 0 (k # ks)) (k # ks) =
      foldl (\<lambda>v k. v XOR g k) (foldl (\<lambda>v k. v XOR g k) (g k XOR 0) ks XOR g k) ks"
    by (simp add: xor.commute)
  also have "\<dots> = foldl (\<lambda>v k. v XOR g k) ((g k XOR g k) XOR foldl (\<lambda>v k. v XOR g k) 0 ks) ks"
    unfolding foldl_xor_start [of g "g k" 0] by (simp add: xor.commute xor.left_commute)
  also have "\<dots> = 0" using Cons by simp
  finally show ?case .
qed simp

lemma xor_twice: "x XOR (x XOR y) = (y :: u8)"
proof -
  have "x XOR (x XOR y) = (x XOR x) XOR y" by (rule xor.assoc [symmetric])
  then show ?thesis by simp
qed

text \<open>Two XOR sums over the same slots that differ in one of them.\<close>

lemma foldl_xor_differ:
  assumes "distinct ks" "w \<in> set ks" "\<forall>k \<in> set ks. k \<noteq> w \<longrightarrow> g k = h k" "h w = 0"
  shows "foldl (\<lambda>v k. v XOR h k) (a :: u8) ks = foldl (\<lambda>v k. v XOR g k) a ks XOR g w"
  using assms
proof (induction ks arbitrary: a)
  case (Cons k ks)
  show ?case
  proof (cases "k = w")
    case True
    then have "\<forall>x \<in> set ks. g x = h x" using Cons.prems by auto
    then have e: "foldl (\<lambda>v k. v XOR h k) b ks = foldl (\<lambda>v k. v XOR g k) b ks" for b
      by (intro foldl_cong) auto
    have "foldl (\<lambda>v k. v XOR g k) (a XOR g w) ks XOR g w = g w XOR (g w XOR foldl (\<lambda>v k. v XOR g k) a ks)"
      unfolding xor.commute [of a] foldl_xor_start by (rule xor.commute)
    then have "foldl (\<lambda>v k. v XOR g k) (a XOR g w) ks XOR g w = foldl (\<lambda>v k. v XOR g k) a ks"
      by (simp only: xor_twice)
    then show ?thesis using True Cons.prems(4) by (simp add: e)
  next
    case False
    then show ?thesis using Cons by simp
  qed
qed simp

lemma missing_one:
  assumes "w \<in> set ks" "distinct ks" "\<forall>k \<in> set ks. rx_buf_len (bs ! k) \<le> 0 \<longleftrightarrow> k = w"
  shows "missing_slot bs ks = int w"
proof -
  have none: "foldl (\<lambda>which k. if rx_buf_len (bs ! k) \<le> 0 then (if which = - 1 then int k else - 2) else which) v ks = v"
    if "\<forall>k \<in> set ks. \<not> rx_buf_len (bs ! k) \<le> 0" for v ks
    using that by (induction ks) auto
  obtain as cs where ks: "ks = as @ w # cs" using assms(1) by (meson split_list)
  have "w \<notin> set as" "w \<notin> set cs" using assms(2) ks by auto
  then have "\<forall>k \<in> set as. \<not> rx_buf_len (bs ! k) \<le> 0" "\<forall>k \<in> set cs. \<not> rx_buf_len (bs ! k) \<le> 0"
    "rx_buf_len (bs ! w) \<le> 0" using assms(3) ks by auto
  then show ?thesis by (simp add: missing_slot_def ks none)
qed

text \<open>A repair fills slots without data only, and never forgets what it has repaired.\<close>

lemma missing_slot_empty: "0 \<le> missing_slot bs ks \<Longrightarrow> rx_buf_len (bs ! nat (missing_slot bs ks)) \<le> 0"
proof -
  have "0 \<le> foldl (\<lambda>which k. if rx_buf_len (bs ! k) \<le> 0 then (if which = - 1 then int k else - 2) else which) v ks \<Longrightarrow>
      (0 \<le> v \<longrightarrow> rx_buf_len (bs ! nat v) \<le> 0) \<Longrightarrow>
      rx_buf_len (bs ! nat (foldl (\<lambda>which k. if rx_buf_len (bs ! k) \<le> 0 then (if which = - 1 then int k else - 2) else which) v ks)) \<le> 0" for v
    by (induction ks arbitrary: v) auto
  from this [of "- 1"] show "0 \<le> missing_slot bs ks \<Longrightarrow> rx_buf_len (bs ! nat (missing_slot bs ks)) \<le> 0"
    by (simp add: missing_slot_def)
qed

definition kept :: "udptl_fec_rx_buffer list \<times> nat set \<Rightarrow> udptl_fec_rx_buffer list \<times> nat set \<Rightarrow> bool" where
  "kept st st' \<longleftrightarrow> (\<forall>k. 0 < rx_buf_len (fst st ! k) \<longrightarrow> fst st' ! k = fst st ! k) \<and> snd st \<subseteq> snd st'"

lemma kept_refl: "kept st st"
  by (simp add: kept_def)

lemma kept_trans: "kept st st1 \<Longrightarrow> kept st1 st2 \<Longrightarrow> kept st st2"
  unfolding kept_def by (metis subset_trans)

lemma repair_one_kept: "kept st (repair_one (fst st) (snd st) l m)"
proof -
  have "bs[nat (missing_slot bs ks) := v] ! k = bs ! k"
    if "0 \<le> missing_slot bs ks" "0 < rx_buf_len (bs ! k)" for bs ks v k
    using missing_slot_empty [OF that(1)] that(2) by (cases "k = nat (missing_slot bs ks)") simp_all
  then show ?thesis by (auto simp: kept_def repair_one_def Let_def)
qed

lemma repair_elements_kept: "repair_elements n m l st = Some st' \<Longrightarrow> kept st st'"
proof (induction n m l st rule: repair_elements.induct)
  case (2 n m l st)
  then show ?case using kept_trans [OF repair_one_kept [of st l m]] by (auto split: if_splits)
qed (simp add: kept_refl)

lemma repair_loop_kept: "repair_loop ls st = Some st' \<Longrightarrow> kept st st'"
proof (induction ls arbitrary: st)
  case (Cons l ls)
  then show ?case
    by (auto split: if_splits option.splits dest!: repair_elements_kept intro: kept_trans)
qed (simp add: kept_refl)

text \<open>One element: the missing packet, padded with zeros.\<close>

lemma repair_one_recovers:
  assumes "ks = fec_slots (slot (int (l + m))) span entries" and "distinct ks"
    and "fec_span (bs ! l) = span" and "fec_entries (bs ! l) = entries"
    and "fec_len (bs ! l) ! m = length (fec_element s l span entries m)"
    and "take (fec_len (bs ! l) ! m) (fec (bs ! l) ! m) = fec_element s l span entries m"
    and "w \<in> set ks" and "w < length bs" and "rx_buf_len (bs ! w) \<le> 0"
    and "\<forall>k \<in> set ks. k \<noteq> w \<longrightarrow> tx s ! k \<noteq> [] \<and> rx_buf_len (bs ! k) = int (length (tx s ! k)) \<and>
           (\<forall>j < length (tx s ! k). byte_at (rx_buf (bs ! k)) j = tx s ! k ! j)"
    and "repair_one bs rep l m = (bs', rep')"
  shows "w \<in> rep' \<and> rx_buf_len (bs' ! w) = int (length (fec_element s l span entries m)) \<and>
         (\<forall>j < length (fec_element s l span entries m). byte_at (rx_buf (bs' ! w)) j = byte_at (tx s ! w) j)"
proof -
  let ?e = "fec (bs ! l) ! m" and ?n = "length (fec_element s l span entries m)"
  have ms: "missing_slot bs ks = int w"
    using assms(2,7,9,10) by (intro missing_one) auto
  let ?dat = "map (fec_byte bs ?e ks) [0..<?n]"
  have r: "bs' = bs[w := (bs ! w)\<lparr>rx_buf := overwrite (rx_buf (bs ! w)) ?dat, rx_buf_len := int ?n\<rparr>]"
    "rep' = insert w rep"
    using assms(11) ms unfolding assms(1) by (auto simp: repair_one_def assms(3-5) Let_def)
  have "byte_at (overwrite (rx_buf (bs ! w)) ?dat) j = byte_at (tx s ! w) j" if j: "j < ?n" for j
  proof -
    have "byte_at ?e j = byte_at (take ?n ?e) j"
      using assms(5,6) j by (metis (no_types, lifting) byte_at_def length_take min_less_iff_conj nth_take not_less)
    also have "\<dots> = foldl (\<lambda>v k. v XOR byte_at (tx s ! k) j) 0 ks"
      using assms(5,6) byte_at_element [of "\<lambda>i. tx s ! i" "[]" ks j]
      by (simp add: fec_element_def assms(1) byte_at_def [of "[]"])
    finally have e: "byte_at ?e j = foldl (\<lambda>v k. v XOR byte_at (tx s ! k) j) 0 ks" .
    have "fec_byte bs ?e ks j = foldl (\<lambda>v k. v XOR (if int j < rx_buf_len (bs ! k) then byte_at (rx_buf (bs ! k)) j else 0))
        (byte_at ?e j) ks" by (simp add: fec_byte_def)
    also have "\<dots> = foldl (\<lambda>v k. v XOR byte_at (tx s ! k) j) (byte_at ?e j) ks XOR byte_at (tx s ! w) j"
      using assms(2,7,9,10) by (intro foldl_xor_differ) (auto simp: byte_at_def)
    also have "\<dots> = byte_at (tx s ! w) j" unfolding e foldl_xor_cancel by simp
    finally show ?thesis using j by (simp add: byte_at_def overwrite_def nth_append)
  qed
  then show ?thesis using r assms(8) by simp
qed

lemma xor_merge_length: "length (xor_merge xs ys) = max (length xs) (length ys)"
  by (induction xs ys rule: xor_merge.induct) auto

lemma element_length: "w \<in> set ks \<Longrightarrow> length (f w) \<le> length (foldl (\<lambda>e i. xor_merge e (f i)) e ks)"
proof -
  have mono: "length e \<le> length (foldl (\<lambda>e i. xor_merge e (f i)) e ks)" for e ks
  proof (induction ks arbitrary: e)
    case (Cons k ks)
    then show ?case using order_trans [OF _ Cons [of "xor_merge e (f k)"], of "length e"] by (simp add: xor_merge_length)
  qed simp
  show "w \<in> set ks \<Longrightarrow> length (f w) \<le> length (foldl (\<lambda>e i. xor_merge e (f i)) e ks)"
  proof (induction ks arbitrary: e)
    case (Cons k ks)
    then show ?case using order_trans [OF _ mono [of "xor_merge e (f k)" ks], of "length (f k)"]
      by (auto simp: xor_merge_length)
  qed simp
qed

text \<open>Claim C40. Forward error correction recovers a lost packet: when the repair comes to an FEC element
  that the receiver has as the sender made it, that is not empty and combines packets of different slots,
  and exactly one of these packets is missing while the receiver has the others as sent, then at the end of the whole repair, whatever elements
  follow, the slot of the missing packet holds the sender's packet followed by zeros up to the
  length of the element, which is the longest of the packets combined, and this is among the frames handed on,
  under the number that belongs to the slot. No packet that had arrived is changed by the rest of the repair.\<close>

theorem udptl_fec_recovers:
  assumes "ks = fec_slots (slot (int (l + m))) span entries" and "distinct ks"
    and "fec_span (bs ! l) = span" and "fec_entries (bs ! l) = entries"
    and "element = fec_element s l span entries m" and "element \<noteq> []"
    and "fec_len (bs ! l) ! m = length element" and "take (length element) (fec (bs ! l) ! m) = element"
    and "w \<in> set ks" and "w < length bs" and "rx_buf_len (bs ! w) \<le> 0"
    and "\<forall>k \<in> set ks. k \<noteq> w \<longrightarrow> tx s ! k \<noteq> [] \<and> rx_buf_len (bs ! k) = int (length (tx s ! k)) \<and>
           (\<forall>j < length (tx s ! k). byte_at (rx_buf (bs ! k)) j = tx s ! k ! j)"
    and "repair_elements n (Suc m) l (repair_one bs rep l m) = Some st" and "repair_loop ls st = Some (bs', rep')"
    and "padded = tx s ! w @ replicate (length element - length (tx s ! w)) 0"
    and "1 \<le> i" and "i < 16" and "w = slot (int (x + i))"
  shows "rx_buf_len (bs' ! w) = int (length padded) \<and>
    map (byte_at (rx_buf (bs' ! w))) [0..<length padded] = padded \<and>
    (int seq - 16 + int i, padded) \<in> set (repaired_frames bs' rep' x seq) \<and>
    (\<forall>k. 0 < rx_buf_len (bs ! k) \<longrightarrow> bs' ! k = bs ! k)"
proof -
  obtain bs1 rep1 where r1: "repair_one bs rep l m = (bs1, rep1)" by fastforce
  have k: "kept (bs1, rep1) (bs', rep')"
    using repair_elements_kept [OF assms(13)] repair_loop_kept [OF assms(14)] kept_trans r1 by metis
  have el: "length (tx s ! w) \<le> length element"
    using element_length [of w ks "\<lambda>i. tx s ! i" "[]"] assms(1,5,9) by (simp add: fec_element_def)
  have pl: "length padded = length element" using el assms(15) by simp
  have one: "w \<in> rep1 \<and> rx_buf_len (bs1 ! w) = int (length element) \<and>
      (\<forall>j < length element. byte_at (rx_buf (bs1 ! w)) j = byte_at (tx s ! w) j)"
    using repair_one_recovers [OF assms(1-4) _ _ assms(9-12) r1] assms(5,7,8) by simp
  then have w: "bs' ! w = bs1 ! w" and "w \<in> rep'" using k assms(6) by (auto simp: kept_def)
  have len: "rx_buf_len (bs' ! w) = int (length padded)" using one w pl by simp
  have dat: "map (byte_at (rx_buf (bs' ! w))) [0..<length padded] = padded"
    using one w pl el assms(15) by (intro nth_equalityI) (auto simp: byte_at_def nth_append)
  have "i \<in> set [1..<16]" using assms(16,17) by simp
  then have fr: "(int seq - 16 + int i, padded) \<in> set (repaired_frames bs' rep' x seq)"
    using \<open>w \<in> rep'\<close> len dat assms(18) by (auto simp: repaired_frames_def Let_def intro!: bexI [of _ i])
  have "kept (bs, rep) (bs', rep')"
    using repair_one_kept [of "(bs, rep)" l m] k kept_trans [of "(bs, rep)" "(bs1, rep1)"] r1 by simp
  then show ?thesis using len dat fr by (simp add: kept_def)
qed

definition sample_fec_sender :: tris_udptl where
  "sample_fec_sender = (udptl_init 1 2)\<lparr>tx := [[1, 2], [3]] @ replicate 14 []\<rparr>"

definition sample_fec_slots :: "udptl_fec_rx_buffer list" where
  "sample_fec_slots = [empty_rx, empty_rx\<lparr>rx_buf_len := 1, rx_buf := [3]\<rparr>,
     empty_rx\<lparr>rx_buf_len := 1, rx_buf := [9], fec_len := [2, 0, 0, 0, 0],
       fec := [[2, 2], [], [], [], []], fec_span := 2, fec_entries := 1\<rparr>]"

lemma sample_fec: "fec_slots 2 2 1 = [0, 1]" "fec_element sample_fec_sender 2 2 1 0 = [2, 2]"
proof -
  show f: "fec_slots 2 2 1 = [0, 1]" by (simp add: fec_slots_def slot_def numeral_2_eq_2)
  show "fec_element sample_fec_sender 2 2 1 0 = [2, 2]"
    using f by (simp add: fec_element_def sample_fec_sender_def slot_def)
qed

lemma sample_fec_fields:
  "tx sample_fec_sender ! 0 = [1, 2]" "tx sample_fec_sender ! 1 = [3]" "length sample_fec_slots = 3"
  "fec_span (sample_fec_slots ! 2) = 2" "fec_entries (sample_fec_slots ! 2) = 1"
  "fec_len (sample_fec_slots ! 2) ! 0 = 2" "fec (sample_fec_slots ! 2) ! 0 = [2, 2]"
  "rx_buf_len (sample_fec_slots ! 0) = - 1" "rx_buf_len (sample_fec_slots ! 1) = 1"
  "rx_buf (sample_fec_slots ! 1) = [3]"
  by (simp_all add: sample_fec_sender_def sample_fec_slots_def empty_rx_def)

theorem udptl_fec_recovers_witness:
  "\<exists>bs' rep'. repair_loop [1] (repair_one sample_fec_slots {} 2 0) = Some (bs', rep') \<and>
     (0 :: int, [1, 2]) \<in> set (repaired_frames bs' rep' 2 2)"
proof -
  obtain bs1 rep1 where r: "repair_one sample_fec_slots {} 2 0 = (bs1, rep1)" by (metis surjective_pairing)
  have s: "slot (int (2 + 0)) = 2" "slot (int (2 + 14)) = 0" by (simp_all add: slot_def)
  have "bs1 ! 1 = sample_fec_slots ! 1"
    using repair_one_kept [of "(sample_fec_slots, {})" 2 0] r sample_fec_fields(9) by (simp add: kept_def)
  then have "fec_len (bs1 ! 1) ! 0 = 0" by (simp add: sample_fec_slots_def empty_rx_def)
  then have l: "repair_loop [1] (bs1, rep1) = Some (bs1, rep1)" by simp
  have e: "repair_elements 0 (Suc 0) 2 (repair_one sample_fec_slots {} 2 0) = Some (bs1, rep1)" using r by simp
  have "rx_buf_len (bs1 ! 0) = int (length ([1, 2] :: u8 list)) \<and>
      map (byte_at (rx_buf (bs1 ! 0))) [0..<length ([1, 2] :: u8 list)] = [1, 2] \<and>
      (int 2 - 16 + int 14, [1, 2]) \<in> set (repaired_frames bs1 rep1 2 2) \<and>
      (\<forall>k. 0 < rx_buf_len (sample_fec_slots ! k) \<longrightarrow> bs1 ! k = sample_fec_slots ! k)"
    by (rule udptl_fec_recovers [where ks = "[0, 1]" and w = 0 and element = "[2, 2]" and s = sample_fec_sender,
          OF _ _ _ _ sample_fec(2) [symmetric] _ _ _ _ _ _ _ e l])
      (use s sample_fec sample_fec_fields in \<open>simp_all add: byte_at_def\<close>)
  then show ?thesis using r l by auto
qed

section \<open>Sizes\<close>

lemma encode_length_size: "length (fst (encode_length v)) \<le> 2" "v < 0x80 \<Longrightarrow> length (fst (encode_length v)) = 1"
  by (auto simp: encode_length_def Let_def)

definition header_len :: "nat \<Rightarrow> nat" where
  "header_len l = (if l < 0x80 then 1 else 2)"

lemma encode_open_fits:
  assumes "length dat \<le> l" "1 \<le> l" "l < 0x4000" "length out + header_len l + l \<le> buflen"
  obtains body where "encode_open_type buflen out dat = Out (out @ body)" "length body \<le> header_len l + l"
proof -
  let ?d = "if dat = [] then [0] else dat"
  have d: "length ?d \<le> l" "?d \<noteq> []" using assms(1,2) by auto
  obtain hdr n where e: "encode_length (length ?d) = (hdr, n)" by (metis surjective_pairing)
  have n: "n = length ?d" using encode_decode_length(1) [OF _ e] d(1) assms(3) by simp
  have h: "length hdr \<le> header_len l"
    using encode_length_size(1) [of "length ?d"] encode_length_size(2) [of "length ?d"] d(1) e
    by (auto simp: header_len_def)
  have "encode_open_type buflen out dat = Out (out @ hdr @ ?d)"
    using e n h d(1) assms(4) by (simp only: encode_open_type_def encode_open_loop.simps [of buflen out]) (simp add: put_bytes_def)
  then show ?thesis using h d(1) by (intro that [of "hdr @ ?d"]) auto
qed

lemma encode_all_fits:
  assumes "\<forall>d \<in> set ds. length d \<le> l" "1 \<le> l" "l < 0x4000" "length out + length ds * (header_len l + l) \<le> buflen"
  shows "\<exists>body. encode_all buflen out ds = Out (out @ body) \<and> length body \<le> length ds * (header_len l + l)"
  using assms
proof (induction ds arbitrary: out)
  case (Cons d ds)
  obtain b1 where b1: "encode_open_type buflen out d = Out (out @ b1)" "length b1 \<le> header_len l + l"
    using Cons.prems by (auto intro: encode_open_fits [of d l out buflen])
  moreover obtain b2 where "encode_all buflen (out @ b1) ds = Out ((out @ b1) @ b2)" "length b2 \<le> length ds * (header_len l + l)"
    using Cons.IH [of "out @ b1"] Cons.prems b1(2) by auto
  ultimately show ?case by (intro exI [of _ "b1 @ b2"]) auto
qed simp

lemma redundancy_ifp_bound:
  assumes "redundancy_ifp datagram e = (m, e')" "8 \<le> datagram" "datagram < 2 ^ 32"
  shows "e' \<le> e" "m = (datagram - 8) div (int e' + 1)" "80 \<le> m \<or> e' \<le> 1" "0 \<le> m"
proof -
  have w: "(datagram - 8) mod 2 ^ 32 = datagram - 8" using assms(2,3) by (intro mod_pos_pos_trivial) auto
  have "e' \<le> e \<and> m = (datagram - 8) div (int e' + 1) \<and> (80 \<le> m \<or> e' \<le> 1) \<and> 0 \<le> m"
    using assms(1)
  proof (induction e rule: less_induct)
    case (less e)
    show ?case
    proof (cases "(datagram - 8) div (int e + 1) < 80 \<and> 1 < e")
      case True
      then have "redundancy_ifp datagram (e - 1) = (m, e')"
        using less.prems unfolding redundancy_ifp.simps [of datagram e] w by (simp add: Let_def)
      then show ?thesis using less.IH [of "e - 1"] True by auto
    next
      case False
      then have p: "((datagram - 8) div (int e + 1), e) = (m, e')"
        using less.prems unfolding redundancy_ifp.simps [of datagram e] w by (auto simp: Let_def)
      then have "m = (datagram - 8) div (int e' + 1)" "e' = e" by auto
      moreover have "0 \<le> m" unfolding calculation(1) using assms(2) by (simp add: pos_imp_zdiv_nonneg_iff)
      ultimately show ?thesis using False by simp (metis not_less)
    qed
  qed
  then show "e' \<le> e" "m = (datagram - 8) div (int e' + 1)" "80 \<le> m \<or> e' \<le> 1" "0 \<le> m" by auto
qed

text \<open>The room a packet of \<open>e\<close> redundant copies takes.\<close>

lemma redundancy_room:
  assumes "m = (n - 8) div (int e + 1)" "80 \<le> m \<or> e \<le> 1" "0 \<le> m" "int l = m * 95 div 100" "8 \<le> n"
  shows "4 + (int e + 1) * int (header_len l + l) \<le> n"
proof -
  define c where "c = int e + 1"
  define a where "a = m * c"
  define b where "b = int l * c"
  have c: "1 \<le> c" by (simp add: c_def)
  have a: "a \<le> n - 8"
    unfolding a_def assms(1) c_def [symmetric]
    using minus_mod_eq_div_mult [of "n - 8" c, symmetric] pos_mod_sign [of c "n - 8"] c by linarith
  have "100 * int l \<le> 95 * m" unfolding assms(4) by simp
  then have b: "100 * b \<le> 95 * a"
    using mult_right_mono [of "100 * int l" "95 * m" c] c by (simp add: a_def b_def mult.assoc)
  have "4 + c * int (header_len l) + b \<le> n"
  proof (cases "l < 0x80")
    case True
    have "c \<le> 2 \<or> 80 * c \<le> a" unfolding a_def using assms(2) c mult_right_mono [of 80 m c] by (auto simp: c_def)
    then have "4 + c + b \<le> n" using a b assms(5) by auto
    then show ?thesis using True by (simp add: header_len_def)
  next
    case False
    then have "128 * c \<le> b" unfolding b_def using c by (intro mult_right_mono) auto
    then have "4 + 2 * c + b \<le> n" using a b assms(5) by linarith
    then show ?thesis using False by (simp add: header_len_def)
  qed
  then show ?thesis by (simp add: b_def c_def algebra_simps)
qed

lemma build_scheme:
  assumes "error_correction_scheme s \<noteq> UDPTL_ERROR_CORRECTION_FEC" "length ifp \<le> 1400"
    and "entries = (if error_correction_scheme s = UDPTL_ERROR_CORRECTION_NONE then 0
                    else min (tx_seq_no s) (error_correction_entries s))"
    and "2 \<le> buflen" and "seq = tx_seq_no s mod 2 ^ 16" and "s' = s\<lparr>tx := (tx s)[slot (int seq) := ifp]\<rparr>"
    and "encode_open_type buflen [of_nat (seq div 2 ^ 8), of_nat (seq mod 2 ^ 8)] ifp = Out o1"
    and "entries < 0x80" "length o1 + 2 \<le> buflen"
    and "encode_all buflen (o1 @ [0, of_nat entries]) (redundant_data s' (slot (int seq)) entries) = Out pkt"
  shows "udptl_build_packet s buflen ifp = Built pkt (s'\<lparr>tx_seq_no := (tx_seq_no s + 1) mod 2 ^ 32\<rparr>)"
  using assms
  by (cases "error_correction_scheme s")
    (simp_all add: udptl_build_packet_def out_then_def put_bytes_def LOCAL_FAX_MAX_DATAGRAM_def
      encode_length_def redundant_data_def Let_def)

text \<open>Without error correction and with redundancy, data within \<open>far_max_ifp\<close> yields a
  packet within the far end's datagram size, whatever number of redundant copies is configured: the
  computation reduces it to one that fits.\<close>

theorem udptl_far_max_ifp_fits:
  assumes "error_correction_scheme s = UDPTL_ERROR_CORRECTION_NONE \<and> 5 \<le> n \<or>
      error_correction_scheme s = UDPTL_ERROR_CORRECTION_REDUNDANCY \<and> 8 \<le> n"
    and "far_max_ifp s = - 1" and "far_max_datagram s = int n" and "n \<le> FAX_MAX_DATAGRAM_LIMIT"
    and "tris_udptl_get_far_max_ifp s = (l, s1)"
    and "dat \<noteq> []" and "int (length dat) \<le> l"
    and "length (tx s) = 16" and "\<forall>d \<in> set (tx s). int (length d) \<le> l"
  shows "\<exists>pkt s2. tris_udptl_write s1 dat = Some (Built pkt s2) \<and> length pkt \<le> n \<and>
    error_correction_entries s1 \<le> error_correction_entries s"
proof -
  have n: "n \<le> 1400" using assms(4) by (simp add: FAX_MAX_DATAGRAM_LIMIT_def)
  have l: "0 < l" using assms(6,7) by (cases dat) auto
  define red where "red \<longleftrightarrow> error_correction_scheme s = UDPTL_ERROR_CORRECTION_REDUNDANCY"
  obtain e where s1: "s1 = s\<lparr>error_correction_entries := e, far_max_ifp := l\<rparr>"
    and e: "e \<le> error_correction_entries s"
    and room: "4 + (int (if red then e else 0) + 1) * int (header_len (nat l) + nat l) \<le> int n"
    and few: "red \<longrightarrow> e \<le> 1 \<or> 76 \<le> l"
  proof (cases red)
    case True
    then have d: "8 \<le> int n" "int n < 2 ^ 32" using assms(1) n by (auto simp: red_def)
    obtain m e where r: "redundancy_ifp (int n) (error_correction_entries s) = (m, e)" by fastforce
    note b = redundancy_ifp_bound [OF r d]
    have c: "s1 = s\<lparr>error_correction_entries := e, far_max_ifp := l\<rparr>" "l = m * 95 div 100"
      using assms(2,3,5) True r l
      by (auto simp: tris_udptl_get_far_max_ifp_def calculate_far_max_ifp_def red_def Let_def split: if_splits)
    have "4 + (int e + 1) * int (header_len (nat l) + nat l) \<le> int n"
      using redundancy_room [OF b(2,3,4) _ d(1), of "nat l"] c(2) l by simp
    moreover have "e \<le> 1 \<or> 76 \<le> l" using b(3) unfolding c(2) by auto
    ultimately show ?thesis using that [OF c(1) b(1)] True by simp
  next
    case False
    then have d: "error_correction_scheme s = UDPTL_ERROR_CORRECTION_NONE" "5 \<le> n"
      using assms(1) by (auto simp: red_def)
    have "(int n - 5) mod 2 ^ 32 = int n - 5" using d(2) n by (intro mod_pos_pos_trivial) auto
    then have c: "s1 = s\<lparr>error_correction_entries := error_correction_entries s, far_max_ifp := l\<rparr>"
      "l = (int n - 5) * 95 div 100"
      using assms(2,3,5) d(1) l
      by (auto simp: tris_udptl_get_far_max_ifp_def calculate_far_max_ifp_def Let_def split: if_splits)
    have "100 * l \<le> 95 * (int n - 5)" unfolding c(2) by simp
    then have "4 + int (header_len (nat l) + nat l) \<le> int n" using l by (simp add: header_len_def)
    then show ?thesis using that [OF c(1) order_refl] False by simp
  qed
  let ?seq = "tx_seq_no s1 mod 2 ^ 16"
  let ?h = "[of_nat (?seq div 2 ^ 8), of_nat (?seq mod 2 ^ 8)] :: u8 list"
  let ?s' = "s1\<lparr>tx := (tx s1)[slot (int ?seq) := dat]\<rparr>"
  define k where "k = (if red then min (tx_seq_no s1) e else 0)"
  define L where "L = nat l"
  define w where "w = header_len L + L"
  have "(int k + 1) * int w \<le> (int (if red then e else 0) + 1) * int w"
    by (intro mult_right_mono) (auto simp: k_def)
  then have "int (4 + (k + 1) * w) \<le> int n"
    using room unfolding w_def [unfolded L_def, symmetric] by (simp only: of_nat_add of_nat_mult of_nat_1)
  then have kw: "4 + (k + 1) * w \<le> n" by linarith
  have L: "1 \<le> L" "length dat \<le> L" "L < w" using l assms(7) by (auto simp: L_def w_def header_len_def)
  then have w: "(k + 1) * 2 \<le> (k + 1) * w" "w \<le> (k + 1) * w" by (intro mult_le_mono2) simp_all
  have L4: "L < 0x4000" using kw w(2) L n by auto
  have k80: "k < 0x80"
  proof (cases "76 \<le> l")
    case True
    then have "(k + 1) * 76 \<le> (k + 1) * w" using L(3) by (intro mult_le_mono2) (simp add: L_def)
    moreover define p where "p = (k + 1) * w"
    ultimately have "(k + 1) * 76 \<le> p" "4 + p \<le> n" using kw by simp_all
    then have "k * 76 < 128 * 76" using n by simp
    then show ?thesis by simp
  qed (use few in \<open>auto simp: k_def\<close>)
  obtain b1 where b1: "encode_open_type n ?h dat = Out (?h @ b1)" "length b1 \<le> w"
    using encode_open_fits [OF L(2,1) L4, of ?h n] kw w unfolding w_def by auto
  have sl: "slot i < 16" for i by (simp add: slot_def nat_less_iff)
  have tx: "length d \<le> L" if "d \<in> set (tx ?s')" for d
  proof -
    have "d = dat \<or> d \<in> set (tx s)"
      using that set_update_subset_insert [of "tx s1" "slot (int ?seq)" dat] s1 by auto
    then show ?thesis using assms(9) L(2) by (auto simp: L_def le_nat_iff)
  qed
  have "\<forall>d \<in> set (redundant_data ?s' (slot (int ?seq)) k). length d \<le> L"
    using sl assms(8) s1 by (auto simp: redundant_data_def intro!: tx)
  then obtain b2 where b2: "encode_all n (?h @ b1 @ [0, of_nat k]) (redundant_data ?s' (slot (int ?seq)) k)
      = Out ((?h @ b1 @ [0, of_nat k]) @ b2)" "length b2 \<le> k * w"
    using encode_all_fits [of "redundant_data ?s' (slot (int ?seq)) k" L "?h @ b1 @ [0, of_nat k]" n] L(1) L4 b1(2) kw
    unfolding w_def by (auto simp: redundant_data_def)
  let ?s2 = "?s'\<lparr>tx_seq_no := (tx_seq_no s1 + 1) mod 2 ^ 32\<rparr>"
  have "udptl_build_packet s1 n dat = Built ((?h @ b1 @ [0, of_nat k]) @ b2) ?s2"
  proof (rule build_scheme [OF _ _ _ _ refl refl b1(1) k80])
    show "k = (if error_correction_scheme s1 = UDPTL_ERROR_CORRECTION_NONE then 0
        else min (tx_seq_no s1) (error_correction_entries s1))"
      using assms(1) s1 by (auto simp: k_def red_def)
  qed (use assms(1) s1 n kw w b1(2) b2(1) L(2,3) in auto)
  moreover have "far_max_datagram s1 = int n" "\<not> nat (far_max_ifp s1 mod 2 ^ 32) < length dat" "0 < n"
    using s1 assms(3,7) kw w l L n by (auto simp: mod_pos_pos_trivial L_def)
  ultimately have "tris_udptl_write s1 dat = Some (Built ((?h @ b1 @ [0, of_nat k]) @ b2) ?s2)"
    using assms(6) by (simp add: tris_udptl_write_def Let_def)
  then show ?thesis using e s1 b1(2) b2(2) kw by (intro exI conjI) auto
qed

theorem udptl_far_max_ifp_fits_witness:
  "\<exists>pkt s2. tris_udptl_write
      (snd (tris_udptl_get_far_max_ifp
        (tris_udptl_set_far_max_datagram
          (tris_udptl_set_error_correction_scheme (udptl_init 3 3) UDPTL_ERROR_CORRECTION_REDUNDANCY) 200)))
      [1, 2, 3] = Some (Built pkt s2) \<and> length pkt \<le> 200"
proof -
  let ?s = "tris_udptl_set_far_max_datagram
          (tris_udptl_set_error_correction_scheme (udptl_init 3 3) UDPTL_ERROR_CORRECTION_REDUNDANCY) 200"
  have g: "tris_udptl_get_far_max_ifp ?s = (91, snd (tris_udptl_get_far_max_ifp ?s))"
    by (simp add: tris_udptl_get_far_max_ifp_def calculate_far_max_ifp_def tris_udptl_set_far_max_datagram_def
        FAX_MAX_DATAGRAM_LIMIT_def tris_udptl_set_error_correction_scheme_def udptl_init_def redundancy_ifp.simps Let_def)
  have "error_correction_scheme ?s = UDPTL_ERROR_CORRECTION_REDUNDANCY" "far_max_ifp ?s = - 1"
    "far_max_datagram ?s = int 200" "tx ?s = replicate 16 []"
    by (simp_all add: tris_udptl_set_far_max_datagram_def tris_udptl_set_error_correction_scheme_def
        udptl_init_def FAX_MAX_DATAGRAM_LIMIT_def Let_def)
  then show ?thesis
    using udptl_far_max_ifp_fits [OF _ _ _ _ g, of 200 "[1, 2, 3]"] by (auto simp: FAX_MAX_DATAGRAM_LIMIT_def)
qed


end
