(* ===== verification/PbxPattern.thy ===== *)
theory PbxPattern
  imports CString
begin

text \<open>
  Dialplan extensions of \<open>main/pbx.c\<close>: matching dialled digits against an extension or a pattern
  (\<open>_extension_match_core\<close>), and the order in which extensions are kept (\<open>ext_cmp\<close>).

  Strings are character lists without the final NUL; \<open>char\<close> is signed. In \<open>ext_cmp1\<close> a
  character above 127 indexes the bitmap below its start, and a set that contains the character 255
  makes the fill loop endless: both are \<open>None\<close>.
\<close>

section \<open>Matching\<close>

datatype ext_match = E_MATCHMORE | E_CANMATCH | E_MATCH

definition schar :: "char \<Rightarrow> int" where
  "schar c = (if code_of c < 128 then int (code_of c) else int (code_of c) - 256)"

text \<open>\<open>strchr(p, ']')\<close>: what is before the bracket and after it.\<close>

fun find_close :: "string \<Rightarrow> (string \<times> string) option" where
  "find_close [] = None"
| "find_close (c # cs) =
     (if c = CHR '']'' then Some ([], cs)
      else map_option (\<lambda>(a, b). (c # a, b)) (find_close cs))"

text \<open>The loop over a set: ranges \<open>a-b\<close> and single characters.\<close>

fun in_set :: "char \<Rightarrow> string \<Rightarrow> bool" where
  "in_set d (a # b # c # s) =
     (if b = CHR ''-''
      then (if schar a \<le> schar d \<and> schar d \<le> schar c then True else in_set d s)
      else (if d = a then True else in_set d (b # c # s)))"
| "in_set d [a, b] = (if d = a then True else d = b)"
| "in_set d [a] = (d = a)"
| "in_set d [] = False"

definition in_range :: "char \<Rightarrow> char \<Rightarrow> char \<Rightarrow> bool" where
  "in_range lo hi d \<longleftrightarrow> schar lo \<le> schar d \<and> schar d \<le> schar hi"

text \<open>After the loop over the data.\<close>

definition match_end :: "string \<Rightarrow> string \<Rightarrow> ext_match \<Rightarrow> int" where
  "match_end p d mode =
     (if d \<noteq> [] then 0
      else
        (case p of
           [] \<Rightarrow> (if mode = E_MATCHMORE then 0 else 1)
         | c # _ \<Rightarrow>
             if c = CHR ''/'' then (if mode = E_MATCHMORE then 0 else 1)
             else if c = CHR ''!'' then 2
             else (if mode = E_MATCH then 0 else 1)))"

lemma find_close_length: "find_close cs = Some (a, b) \<Longrightarrow> length b < length cs"
  by (induction cs arbitrary: a b) (fastforce split: if_splits)+

function match_loop :: "string \<Rightarrow> string \<Rightarrow> ext_match \<Rightarrow> int" where
  "match_loop [] d mode = match_end [] d mode"
| "match_loop (p # ps) [] mode = match_end (p # ps) [] mode"
| "match_loop (p # ps) (d # ds) mode =
     (if p = CHR ''/'' then match_end (p # ps) (d # ds) mode
      else if d = CHR ''-'' then match_loop (p # ps) ds mode
      else
        (let u = toupper p
         in if u = CHR ''['' then
              (case find_close ps of
                 None \<Rightarrow> 0
               | Some (set_chars, rest) \<Rightarrow> if in_set d set_chars then match_loop rest ds mode else 0)
            else if u = CHR ''N'' then (if in_range CHR ''2'' CHR ''9'' d then match_loop ps ds mode else 0)
            else if u = CHR ''X'' then (if in_range CHR ''0'' CHR ''9'' d then match_loop ps ds mode else 0)
            else if u = CHR ''Z'' then (if in_range CHR ''1'' CHR ''9'' d then match_loop ps ds mode else 0)
            else if u = CHR ''.'' then 1
            else if u = CHR ''!'' then 2
            else if u = CHR '' '' \<or> u = CHR ''-'' then match_loop ps (d # ds) mode
            else if d \<noteq> p then 0 else match_loop ps ds mode))"
  by pat_completeness auto
termination
  by (relation "measure (\<lambda>(p, d, mode). length p + length d)") (auto dest: find_close_length)

definition extension_match_core :: "string \<Rightarrow> string \<Rightarrow> ext_match \<Rightarrow> int" where
  "extension_match_core pattern d mode =
     (if mode = E_MATCH \<and> take 1 pattern = ''_'' \<and> strcaseeq pattern d then 1
      else if take 1 pattern \<noteq> ''_''
      then
        (let ld = length d; lp = length pattern
         in if lp < ld then 0
            else if mode = E_MATCH then (if pattern = d then 1 else 0)
            else if ld = 0 \<or> strncaseeq pattern d ld
            then (if mode = E_MATCHMORE then (if ld < lp then 1 else 0) else 1)
            else 0)
      else match_loop (tl pattern) d mode)"

definition tris_extension_match :: "string \<Rightarrow> string \<Rightarrow> int" where
  "tris_extension_match pattern d = extension_match_core pattern d E_MATCH"

definition tris_extension_close :: "string \<Rightarrow> string \<Rightarrow> ext_match \<Rightarrow> int" where
  "tris_extension_close pattern d needmore = extension_match_core pattern d needmore"

text \<open>An empty caller number matches an empty pattern only.\<close>

definition matchcid :: "string \<Rightarrow> string \<Rightarrow> int" where
  "matchcid cidpattern callerid =
     (if callerid = [] then (if cidpattern = [] then 1 else 0)
      else tris_extension_match cidpattern callerid)"

section \<open>Order of extensions\<close>

text \<open>The bitmap of a character set, as the list of its members' codes.\<close>

definition bitmap_of :: "nat set \<Rightarrow> nat list" where
  "bitmap_of A = map (\<lambda>i. sum_list (map (\<lambda>j. if 8 * i + j \<in> A then 2 ^ j else 0) [0..<8])) [0..<32]"

text \<open>The members of a set, the number of them and the least first member of its parts.\<close>

fun set_members :: "string \<Rightarrow> nat set" where
  "set_members (a # b # c # s) =
     (if b = CHR ''-'' then {code_of a..code_of c} \<union> set_members s
      else insert (code_of a) (set_members (b # c # s)))"
| "set_members [a, b] = {code_of a, code_of b}"
| "set_members [a] = {code_of a}"
| "set_members [] = {}"

fun set_cmin :: "string \<Rightarrow> nat \<Rightarrow> nat" where
  "set_cmin (a # b # c # s) cmin =
     (let m = min cmin (code_of a)
      in if b = CHR ''-'' then set_cmin s m else set_cmin (b # c # s) m)"
| "set_cmin [a, b] cmin = min (min cmin (code_of a)) (code_of b)"
| "set_cmin [a] cmin = min cmin (code_of a)"
| "set_cmin [] cmin = cmin"

text \<open>Whether an upper bound of some part is 255.\<close>

fun set_endless :: "string \<Rightarrow> bool" where
  "set_endless (a # b # c # s) =
     (if b = CHR ''-'' then code_of c = 255 \<or> set_endless s
      else code_of a = 255 \<or> set_endless (b # c # s))"
| "set_endless [a, b] = (code_of a = 255 \<or> code_of b = 255)"
| "set_endless [a] = (code_of a = 255)"
| "set_endless [] = False"

text \<open>One step: the score, the bitmap and the rest of the pattern, \<open>None\<close> after its end.\<close>

type_synonym cmp_key = "nat \<times> nat list"

definition ext_cmp1 :: "string \<Rightarrow> (cmp_key \<times> string option) option" where
  "ext_cmp1 p =
     (case p of
        [] \<Rightarrow> Some ((0x30000, bitmap_of {}), None)
      | c # cs \<Rightarrow>
          (let u = toupper c
           in if u = CHR ''N'' then Some ((0x0800 + 50, bitmap_of {50..57}), Some cs)
              else if u = CHR ''X'' then Some ((0x0A00 + 48, bitmap_of {48..57}), Some cs)
              else if u = CHR ''Z'' then Some ((0x0900 + 49, bitmap_of {49..57}), Some cs)
              else if u = CHR ''.'' then Some ((0x10000, bitmap_of {}), Some cs)
              else if u = CHR ''!'' then Some ((0x20000, bitmap_of {}), Some cs)
              else if u = CHR ''['' then
                (case find_close cs of
                   None \<Rightarrow> Some ((0x40000, bitmap_of {}), Some cs)
                 | Some (set_chars, rest) \<Rightarrow>
                     if set_endless set_chars then None
                     else
                       (let A = set_members set_chars
                        in Some ((if card A = 0 then 0x30000 else 0x100 * card A + set_cmin set_chars 0xff,
                                  bitmap_of A), Some rest)))
              else if code_of c < 128 then Some ((0x0100 + code_of c, bitmap_of {code_of c}), Some cs)
              else None))"

text \<open>\<open>memcmp\<close> and \<open>strcmp\<close> reduced to the sign.\<close>

fun lex_cmp :: "nat list \<Rightarrow> nat list \<Rightarrow> int" where
  "lex_cmp [] [] = 0"
| "lex_cmp [] (y # ys) = - 1"
| "lex_cmp (x # xs) [] = 1"
| "lex_cmp (x # xs) (y # ys) = (if x < y then - 1 else if y < x then 1 else lex_cmp xs ys)"

definition strcmp :: "string \<Rightarrow> string \<Rightarrow> int" where
  "strcmp a b = lex_cmp (map code_of a) (map code_of b)"

lemma ext_cmp1_length: "ext_cmp1 p = Some (k, Some q) \<Longrightarrow> length q < length p"
  by (auto simp: ext_cmp1_def Let_def split: list.splits if_splits option.splits dest: find_close_length)

function ext_cmp_loop :: "string \<Rightarrow> string \<Rightarrow> int option" where
  "ext_cmp_loop a b =
     (case (ext_cmp1 a, ext_cmp1 b) of
        (Some ((sa, ma), ra), Some ((sb, mb), rb)) \<Rightarrow>
          (let ret = (if sa \<noteq> sb then int sa - int sb else lex_cmp ma mb)
           in if ret \<noteq> 0 then Some (sgn ret)
              else (case (ra, rb) of
                      (Some a, Some b) \<Rightarrow> ext_cmp_loop a b
                    | _ \<Rightarrow> Some 0))
      | _ \<Rightarrow> None)"
  by pat_completeness auto
termination
  by (relation "measure (\<lambda>(a, b). length a + length b)") (auto dest!: ext_cmp1_length [OF sym])

declare ext_cmp_loop.simps [simp del]

text \<open>For two extensions that are not patterns the code returns \<open>strcmp\<close>'s value, whose size is
  unspecified: the model has its sign.\<close>

definition ext_cmp :: "string \<Rightarrow> string \<Rightarrow> int option" where
  "ext_cmp a b =
     (if take 1 a \<noteq> ''_''
      then (if take 1 b = ''_'' then Some (- 1) else Some (strcmp a b))
      else if take 1 b \<noteq> ''_'' then Some 1
      else ext_cmp_loop (tl a) (tl b))"

text \<open>Copying an extension without the blanks outside brackets.\<close>

fun ext_strncpy_loop :: "string \<Rightarrow> nat \<Rightarrow> bool \<Rightarrow> string" where
  "ext_strncpy_loop [] room insquares = []"
| "ext_strncpy_loop (c # cs) room insquares =
     (if room = 0 then []
      else if c = CHR ''['' then c # ext_strncpy_loop cs (room - 1) True
      else if c = CHR '']'' then c # ext_strncpy_loop cs (room - 1) False
      else if c = CHR '' '' \<and> \<not> insquares then ext_strncpy_loop cs room insquares
      else c # ext_strncpy_loop cs (room - 1) insquares)"

definition ext_strncpy :: "string \<Rightarrow> nat \<Rightarrow> string" where
  "ext_strncpy src len = ext_strncpy_loop src (len - 1) False"

section \<open>What a pattern means\<close>

text \<open>A pattern as a list of classes of characters, each a list of ranges, and a tail: its end, a
  point, an exclamation mark, or an unclosed bracket. \<open>pat_blank\<close> tells whether ignored characters
  stand before the tail.\<close>

datatype pat_tail = Tail_end | Tail_any | Tail_early | Tail_bad

record pat =
  classes :: "(char \<times> char) list list"
  pat_tail :: pat_tail
  pat_blank :: bool

fun set_ranges :: "string \<Rightarrow> (char \<times> char) list" where
  "set_ranges (a # b # c # s) =
     (if b = CHR ''-'' then (a, c) # set_ranges s else (a, a) # set_ranges (b # c # s))"
| "set_ranges [a, b] = [(a, a), (b, b)]"
| "set_ranges [a] = [(a, a)]"
| "set_ranges [] = []"

definition accepts :: "(char \<times> char) list \<Rightarrow> char \<Rightarrow> bool" where
  "accepts rs d \<longleftrightarrow> (\<exists>(lo, hi) \<in> set rs. in_range lo hi d)"

definition add_class :: "(char \<times> char) list \<Rightarrow> pat \<Rightarrow> pat" where
  "add_class rs p = p\<lparr>classes := rs # classes p\<rparr>"

definition add_blank :: "pat \<Rightarrow> pat" where
  "add_blank p = (if classes p = [] then p\<lparr>pat_blank := True\<rparr> else p)"

function parse_pattern :: "string \<Rightarrow> pat" where
  "parse_pattern [] = \<lparr>classes = [], pat_tail = Tail_end, pat_blank = False\<rparr>"
| "parse_pattern (c # cs) =
     (if c = CHR ''/'' then \<lparr>classes = [], pat_tail = Tail_end, pat_blank = False\<rparr>
      else if c = CHR ''.'' then \<lparr>classes = [], pat_tail = Tail_any, pat_blank = False\<rparr>
      else if c = CHR ''!'' then \<lparr>classes = [], pat_tail = Tail_early, pat_blank = False\<rparr>
      else if c = CHR '' '' \<or> c = CHR ''-'' then add_blank (parse_pattern cs)
      else if c = CHR ''['' then
        (case find_close cs of
           None \<Rightarrow> \<lparr>classes = [], pat_tail = Tail_bad, pat_blank = False\<rparr>
         | Some (chars, rest) \<Rightarrow> add_class (set_ranges chars) (parse_pattern rest))
      else if c = CHR ''N'' \<or> c = CHR ''n'' then add_class [(CHR ''2'', CHR ''9'')] (parse_pattern cs)
      else if c = CHR ''X'' \<or> c = CHR ''x'' then add_class [(CHR ''0'', CHR ''9'')] (parse_pattern cs)
      else if c = CHR ''Z'' \<or> c = CHR ''z'' then add_class [(CHR ''1'', CHR ''9'')] (parse_pattern cs)
      else add_class [(c, c)] (parse_pattern cs))"
  by pat_completeness auto
termination by (relation "measure length") (auto dest: find_close_length)

text \<open>The value for data that is shorter than the classes, as long as they are, or longer. A dash
  after the last data character is not ignored when nothing of the pattern is left.\<close>

definition partial_result :: "ext_match \<Rightarrow> int" where
  "partial_result mode = (if mode = E_MATCH then 0 else 1)"

definition exact_result :: "pat \<Rightarrow> bool \<Rightarrow> ext_match \<Rightarrow> int" where
  "exact_result p dash mode =
     (if pat_blank p then partial_result mode
      else case pat_tail p of
        Tail_end \<Rightarrow> if dash \<or> mode = E_MATCHMORE then 0 else 1
      | Tail_early \<Rightarrow> 2
      | _ \<Rightarrow> partial_result mode)"

definition longer_result :: "pat \<Rightarrow> int" where
  "longer_result p = (case pat_tail p of Tail_any \<Rightarrow> 1 | Tail_early \<Rightarrow> 2 | _ \<Rightarrow> 0)"

definition pattern_result :: "pat \<Rightarrow> string \<Rightarrow> bool \<Rightarrow> ext_match \<Rightarrow> int" where
  "pattern_result p d dash mode =
     (if list_all2 accepts (take (length d) (classes p)) (take (length (classes p)) d)
      then if length d < length (classes p) then partial_result mode
           else if length d = length (classes p) then exact_result p dash mode
           else longer_result p
      else 0)"

definition ends_dash :: "string \<Rightarrow> bool" where
  "ends_dash d \<longleftrightarrow> d \<noteq> [] \<and> last d = CHR ''-''"

abbreviation undashed :: "string \<Rightarrow> string" where
  "undashed \<equiv> filter (\<lambda>c. c \<noteq> CHR ''-'')"

lemma char_eq_code: "c = d \<longleftrightarrow> code_of c = code_of d"
  by (simp add: code_of_def)

lemma code_of_less: "code_of c < 256"
  by (simp add: code_of_def)

lemma schar_eq: "schar c = schar d \<longleftrightarrow> c = d"
  using code_of_less [of c] code_of_less [of d] by (auto simp: schar_def char_eq_code split: if_splits)

lemma in_range_self [simp]: "in_range c c d \<longleftrightarrow> d = c"
  by (auto simp: in_range_def schar_eq [symmetric])

lemma accepts_simps [simp]:
  "accepts [] d \<longleftrightarrow> False"
  "accepts ((lo, hi) # rs) d \<longleftrightarrow> in_range lo hi d \<or> accepts rs d"
  by (auto simp: accepts_def)

lemma in_set_ranges: "in_set d s = accepts (set_ranges s) d"
  by (induction d s rule: in_set.induct) (auto simp flip: in_range_def)

lemma pattern_result_class:
  "pattern_result (add_class rs p) (d # ds) dash mode =
     (if accepts rs d then pattern_result p ds dash mode else 0)"
  by (auto simp: pattern_result_def add_class_def exact_result_def longer_result_def)

lemma pattern_result_blank: "d \<noteq> [] \<Longrightarrow> pattern_result (add_blank p) d dash mode = pattern_result p d dash mode"
  by (auto simp: pattern_result_def add_blank_def exact_result_def longer_result_def)

lemma code_of_char_of: "code_of (char_of n) = n mod 256"
  by (simp add: code_of_def)

lemma code_of_toupper: "code_of (toupper c) = (if 97 \<le> code_of c \<and> code_of c \<le> 122 then code_of c - 32 else code_of c)"
proof (cases "islower c")
  case True
  have "code_of c - 32 < 256" using code_of_less [of c] by simp
  then show ?thesis using True by (simp add: toupper_def code_of_char_of) (simp add: islower_def)
next
  case False
  then show ?thesis by (simp add: toupper_def) (auto simp: islower_def)
qed

lemma code_of_literal:
  "code_of CHR ''N'' = 78" "code_of CHR ''n'' = 110" "code_of CHR ''X'' = 88" "code_of CHR ''x'' = 120"
  "code_of CHR ''Z'' = 90" "code_of CHR ''z'' = 122" "code_of CHR ''['' = 91" "code_of CHR ''.'' = 46"
  "code_of CHR ''!'' = 33" "code_of CHR ''-'' = 45" "code_of CHR '' '' = 32" "code_of CHR ''/'' = 47"
  by (simp_all add: code_of_def)

lemma toupper_eq:
  "toupper c = CHR ''N'' \<longleftrightarrow> c = CHR ''N'' \<or> c = CHR ''n''"
  "toupper c = CHR ''X'' \<longleftrightarrow> c = CHR ''X'' \<or> c = CHR ''x''"
  "toupper c = CHR ''Z'' \<longleftrightarrow> c = CHR ''Z'' \<or> c = CHR ''z''"
  "toupper c = CHR ''['' \<longleftrightarrow> c = CHR ''[''"
  "toupper c = CHR ''.'' \<longleftrightarrow> c = CHR ''.''"
  "toupper c = CHR ''!'' \<longleftrightarrow> c = CHR ''!''"
  "toupper c = CHR ''-'' \<longleftrightarrow> c = CHR ''-''"
  "toupper c = CHR '' '' \<longleftrightarrow> c = CHR '' ''"
  unfolding char_eq_code code_of_toupper by (auto simp: code_of_literal)

lemma parse_bare_end:
  "\<lbrakk>classes (parse_pattern p) = []; pat_tail (parse_pattern p) = Tail_end; \<not> pat_blank (parse_pattern p)\<rbrakk>
     \<Longrightarrow> p = [] \<or> hd p = CHR ''/''"
  by (cases p) (auto simp: add_blank_def add_class_def split: option.splits if_splits)

lemma match_end_parse: "match_end p [] mode = pattern_result (parse_pattern p) [] False mode"
  by (cases p) (auto simp: match_end_def pattern_result_def exact_result_def partial_result_def
      add_blank_def add_class_def split: option.splits)

lemma pattern_result_dash:
  assumes "p \<noteq> []" "hd p \<noteq> CHR ''/''"
  shows "pattern_result (parse_pattern p) [] True mode = pattern_result (parse_pattern p) [] False mode"
  using assms parse_bare_end [of p] by (auto simp: pattern_result_def exact_result_def split: pat_tail.splits)

lemma pattern_char_cases:
  obtains "p = CHR ''[''" | "p = CHR ''N'' \<or> p = CHR ''n''" | "p = CHR ''X'' \<or> p = CHR ''x''"
    | "p = CHR ''Z'' \<or> p = CHR ''z''" | "p = CHR ''.''" | "p = CHR ''!''" | "p = CHR '' '' \<or> p = CHR ''-''"
    | "p \<noteq> CHR ''[''" "\<not> (p = CHR ''N'' \<or> p = CHR ''n'')" "\<not> (p = CHR ''X'' \<or> p = CHR ''x'')"
      "\<not> (p = CHR ''Z'' \<or> p = CHR ''z'')" "p \<noteq> CHR ''.''" "p \<noteq> CHR ''!''" "\<not> (p = CHR '' '' \<or> p = CHR ''-'')"
proof -
  have generic: "\<lbrakk>a \<Longrightarrow> t; b \<Longrightarrow> t; c \<Longrightarrow> t; d \<Longrightarrow> t; e \<Longrightarrow> t; f \<Longrightarrow> t; g \<Longrightarrow> t;
      \<lbrakk>\<not> a; \<not> b; \<not> c; \<not> d; \<not> e; \<not> f; \<not> g\<rbrakk> \<Longrightarrow> t\<rbrakk> \<Longrightarrow> t" for a b c d e f g t
    by blast
  show ?thesis by (rule generic) (rule that; assumption)+
qed

lemma match_step:
  assumes "q \<noteq> CHR ''/''" "e \<noteq> CHR ''-''"
    and IH: "\<And>p' d'. length p' + length d' < Suc (length ps + Suc (length ds)) \<Longrightarrow>
      match_loop p' d' mode = pattern_result (parse_pattern p') (undashed d') (ends_dash d') mode"
  shows "match_loop (q # ps) (e # ds) mode =
    pattern_result (parse_pattern (q # ps)) (undashed (e # ds)) (ends_dash (e # ds)) mode"
proof -
  have ds: "undashed (e # ds) = e # undashed ds" "ends_dash (e # ds) = ends_dash ds"
    using assms(2) by (auto simp: ends_dash_def)
  note simps = match_loop.simps(3) [of q] parse_pattern.simps(2) [of q] assms(1,2) toupper_eq
    pattern_result_class in_set_ranges ds Let_def
  note IH' = IH [of ps ds, simplified]
  show ?thesis
  proof (cases q rule: pattern_char_cases)
    case 1
    show ?thesis
    proof (cases "find_close ps")
      case None
      then show ?thesis using 1 by (simp add: simps pattern_result_def longer_result_def)
    next
      case (Some x)
      obtain chars rest where "x = (chars, rest)" by (cases x)
      then show ?thesis using 1 Some find_close_length [of ps chars rest] IH [of rest ds] by (simp add: simps)
    qed
  next
    case 2
    then show ?thesis using IH' by (elim disjE) (simp_all add: simps)
  next
    case 3
    then show ?thesis using IH' by (elim disjE) (simp_all add: simps)
  next
    case 4
    then show ?thesis using IH' by (elim disjE) (simp_all add: simps)
  next
    case 5
    then show ?thesis by (simp add: simps pattern_result_def longer_result_def)
  next
    case 6
    then show ?thesis by (simp add: simps pattern_result_def longer_result_def)
  next
    case 7
    then show ?thesis using IH [of ps "e # ds"]
      by (elim disjE) (simp_all add: simps pattern_result_blank)
  next
    case 8
    then show ?thesis using IH' by (simp add: simps)
  qed
qed

lemma match_loop_parse:
  "match_loop p d mode = pattern_result (parse_pattern p) (undashed d) (ends_dash d) mode"
proof (induction "length p + length d" arbitrary: p d rule: less_induct)
  case less
  consider "p = []" | "p \<noteq> []" "d = []" | q ps e ds where "p = q # ps" "d = e # ds" by (meson list.exhaust)
  then show ?case
  proof cases
    case 1
    have "undashed d = [] \<Longrightarrow> d \<noteq> [] \<Longrightarrow> ends_dash d"
      by (induction d) (auto simp: ends_dash_def split: if_splits)
    then show ?thesis using 1
      by (auto simp: match_end_def pattern_result_def exact_result_def longer_result_def ends_dash_def)
  next
    case 2
    then show ?thesis using match_end_parse by (cases p) (simp_all add: ends_dash_def)
  next
    case (3 q ps e ds)
    have IH: "match_loop p' d' mode = pattern_result (parse_pattern p') (undashed d') (ends_dash d') mode"
      if "length p' + length d' < length p + length d" for p' d'
      using less that by blast
    show ?thesis
    proof (cases "q = CHR ''/''")
      case True
      have "undashed d = [] \<Longrightarrow> ends_dash d"
        using 3 by (induction ds arbitrary: d e) (auto simp: ends_dash_def split: if_splits)
      then show ?thesis using 3 True
        by (simp add: match_end_def pattern_result_def exact_result_def longer_result_def del: filter.simps)
    next
      case slash: False
      show ?thesis
      proof (cases "e = CHR ''-''")
        case True
        then have "match_loop p d mode = match_loop p ds mode" using 3 slash by simp
        also have "\<dots> = pattern_result (parse_pattern p) (undashed ds) (ends_dash ds) mode"
          using 3 by (intro IH) simp
        also have "\<dots> = pattern_result (parse_pattern p) (undashed d) (ends_dash d) mode"
          using pattern_result_dash [of p mode] 3 True slash by (simp add: ends_dash_def del: parse_pattern.simps)
        finally show ?thesis .
      next
        case False
        then show ?thesis using match_step [OF slash False] IH 3 by simp
      qed
    qed
  qed
qed

text \<open>Claim C24. A pattern matches by its meaning: \<open>_extension_match_core\<close> gives, for every pattern,
  data and mode, what the pattern's classes and tail say of the data without its dashes
  (\<open>pattern_result\<close>), with two exceptions. Data that spells the pattern itself, in any case, matches
  it exactly (mode \<open>E_MATCH\<close>) whatever its classes say. And a dash at the end of the data
  (\<open>ends_dash\<close>) is not skipped when nothing is left of the pattern: data that is exactly as long as the
  classes of a pattern without a tail then does not match (\<open>exact_result\<close>).\<close>

theorem extension_match_pattern:
  "extension_match_core (CHR ''_'' # p) d mode =
     (if mode = E_MATCH \<and> strcaseeq (CHR ''_'' # p) d then 1
      else pattern_result (parse_pattern p) (undashed d) (ends_dash d) mode)"
  by (simp add: extension_match_core_def match_loop_parse del: parse_pattern.simps)

section \<open>Partial matches\<close>

text \<open>Patterns that can match: no unclosed bracket, no ignored character before the end, and in each
  class a character that is not a dash.\<close>

lemma code_of_underscore: "code_of CHR ''_'' = 95"
  by (simp add: code_of_def)

lemma code_of_tolower: "code_of (tolower c) = (if 65 \<le> code_of c \<and> code_of c \<le> 90 then code_of c + 32 else code_of c)"
  by (simp add: tolower_def code_of_char_of isupper_def)

definition class_ok :: "(char \<times> char) list \<Rightarrow> bool" where
  "class_ok rs \<longleftrightarrow> list_ex (\<lambda>(lo, hi). schar lo \<le> schar hi \<and> lo \<noteq> CHR ''-'') rs"

definition matchable :: "pat \<Rightarrow> bool" where
  "matchable p \<longleftrightarrow> pat_tail p \<noteq> Tail_bad \<and> \<not> pat_blank p \<and> list_all class_ok (classes p)"

lemma class_ok_accepts: "class_ok rs \<Longrightarrow> \<exists>c. accepts rs c \<and> c \<noteq> CHR ''-''"
  by (auto simp: class_ok_def list_ex_iff accepts_def in_range_def)

lemma classes_filled: "list_all class_ok cs \<Longrightarrow> \<exists>e. list_all2 accepts cs e \<and> undashed e = e"
proof (induction cs)
  case (Cons rs cs)
  then obtain e c where "list_all2 accepts cs e" "undashed e = e" "accepts rs c" "c \<noteq> CHR ''-''"
    using class_ok_accepts [of rs] by auto
  then show ?case by (intro exI [of _ "c # e"]) simp
qed simp

lemma pattern_prefix:
  assumes "pattern_result p (d @ e) dash E_MATCH \<noteq> 0" "mode \<noteq> E_MATCH"
    and "mode = E_MATCHMORE \<longrightarrow> e \<noteq> [] \<or> dash"
  shows "pattern_result p d False mode \<noteq> 0"
proof -
  let ?k = "length (classes p)"
  have l: "list_all2 accepts (take (length (d @ e)) (classes p)) (take ?k (d @ e))"
    using assms(1) by (simp add: pattern_result_def split: if_splits)
  have "list_all2 accepts (take (length d) (classes p)) (take ?k d)"
    using list_all2_takeI [OF l, of "length d"] by (simp add: min_def split: if_splits)
  then show ?thesis
    using assms by (auto simp: pattern_result_def exact_result_def longer_result_def partial_result_def
        split: if_splits pat_tail.splits)
qed

lemma pattern_completion:
  assumes "pattern_result p d False mode \<noteq> 0" "mode \<noteq> E_MATCH" "matchable p"
  shows "\<exists>e. undashed e = e \<and> (mode = E_MATCHMORE \<longrightarrow> e \<noteq> []) \<and> pattern_result p (d @ e) False E_MATCH \<noteq> 0"
proof -
  let ?k = "length (classes p)"
  have l: "list_all2 accepts (take (length d) (classes p)) (take ?k d)"
    using assms(1) by (simp add: pattern_result_def split: if_splits)
  obtain f where f: "list_all2 accepts (drop (length d) (classes p)) f" "undashed f = f"
    using classes_filled [of "drop (length d) (classes p)"] assms(3)
    by (auto simp: matchable_def list_all_iff dest: in_set_dropD)
  let ?x = "if pat_tail p = Tail_any \<or> pat_tail p = Tail_early then ''0'' else []"
  have len: "length f = ?k - length d" using list_all2_lengthD [OF f(1)] by simp
  have "list_all2 accepts (take (length (d @ f @ ?x)) (classes p)) (take ?k (d @ f @ ?x))"
  proof (cases "length d < ?k")
    case True
    then have "list_all2 accepts (take (length d) (classes p) @ drop (length d) (classes p)) (d @ f)"
      using l f(1) by (intro list_all2_appendI) auto
    then show ?thesis using True len by simp
  next
    case False
    then show ?thesis using l len by (simp add: not_less)
  qed
  then have r: "pattern_result p (d @ f @ ?x) False E_MATCH =
      (if length (d @ f @ ?x) = ?k then exact_result p False E_MATCH else longer_result p)"
  proof -
    have "?k \<le> length (d @ f @ ?x)" using len by simp
    then show ?thesis using \<open>list_all2 accepts (take (length (d @ f @ ?x)) (classes p)) _\<close>
      by (simp only: pattern_result_def if_True not_less [symmetric] if_False)
  qed
  have tail: "\<not> pat_blank p" "pat_tail p \<noteq> Tail_bad" using assms(3) by (simp_all add: matchable_def)
  consider "?k < length d" | "length d \<le> ?k" "pat_tail p = Tail_end" | "pat_tail p = Tail_any \<or> pat_tail p = Tail_early"
    using tail(2) by (cases "pat_tail p") force+
  then have "pattern_result p (d @ f @ ?x) False E_MATCH \<noteq> 0 \<and> (mode = E_MATCHMORE \<longrightarrow> f @ ?x \<noteq> [])"
  proof cases
    case 1
    then have "longer_result p \<noteq> 0" using assms(1) by (auto simp: pattern_result_def split: if_splits)
    moreover from this have "?x \<noteq> []" using tail by (auto simp: longer_result_def split: pat_tail.splits)
    ultimately show ?thesis unfolding r using 1 by simp
  next
    case 2
    then have "exact_result p False mode \<noteq> 0" if "length d = ?k"
      using assms(1) that by (simp add: pattern_result_def split: if_splits)
    then have "mode = E_MATCHMORE \<longrightarrow> length d < ?k" using 2 tail by (auto simp: exact_result_def le_less)
    then show ?thesis unfolding r using 2 len tail by (auto simp: exact_result_def)
  next
    case 3
    then have "length (d @ f @ ?x) \<noteq> ?k" "longer_result p \<noteq> 0" using len by (auto simp: longer_result_def)
    then show ?thesis unfolding r using 3 by auto
  qed
  then show ?thesis using f(2) by (intro exI [of _ "f @ ?x"]) auto
qed

lemma undashed_ends: "undashed d = d \<Longrightarrow> \<not> ends_dash d"
  unfolding ends_dash_def filter_id_conv using last_in_set [of d] by blast

lemma undashed_Nil: "undashed e = [] \<Longrightarrow> e \<noteq> [] \<Longrightarrow> ends_dash (d @ e)"
  unfolding ends_dash_def filter_empty_conv using last_in_set [of e] by (simp add: last_append)

text \<open>Claim C25. While digits arrive, a pattern can still match if and only if some digits can follow
  that make it match, and can match more if and only if at least one more can.\<close>

theorem extension_close_iff:
  assumes "matchable (parse_pattern p)" "d \<noteq> []" "hd d \<noteq> CHR ''_''" "undashed d = d" "mode \<noteq> E_MATCH"
  shows "tris_extension_close (CHR ''_'' # p) d mode \<noteq> 0 \<longleftrightarrow>
    (\<exists>e. (mode = E_MATCHMORE \<longrightarrow> e \<noteq> []) \<and> tris_extension_match (CHR ''_'' # p) (d @ e) \<noteq> 0)"
proof -
  have dash: "\<not> ends_dash d" using assms(4) by (rule undashed_ends)
  have ne: "\<not> strcaseeq (CHR ''_'' # p) (d @ e)" for e
  proof
    assume "strcaseeq (CHR ''_'' # p) (d @ e)"
    then have "code_of (tolower (hd d)) = code_of (tolower CHR ''_'')" using assms(2) by (cases d) (auto simp: strcaseeq_def)
    then show False using assms(3) by (auto simp: code_of_tolower char_eq_code code_of_underscore split: if_splits)
  qed
  have m: "tris_extension_match (CHR ''_'' # p) (d @ e) = pattern_result (parse_pattern p) (d @ undashed e) (ends_dash (d @ e)) E_MATCH" for e
    unfolding tris_extension_match_def extension_match_pattern using ne assms(4) by simp
  have c: "tris_extension_close (CHR ''_'' # p) d mode = pattern_result (parse_pattern p) d False mode"
    unfolding tris_extension_close_def extension_match_pattern using dash assms(4,5) by simp
  show ?thesis
  proof
    assume "tris_extension_close (CHR ''_'' # p) d mode \<noteq> 0"
    then obtain e where e: "undashed e = e" "mode = E_MATCHMORE \<longrightarrow> e \<noteq> []"
      "pattern_result (parse_pattern p) (d @ e) False E_MATCH \<noteq> 0"
      using pattern_completion assms(1,5) unfolding c by blast
    moreover have "\<not> ends_dash (d @ e)" using e(1) assms(4) by (intro undashed_ends) simp
    ultimately show "\<exists>e. (mode = E_MATCHMORE \<longrightarrow> e \<noteq> []) \<and> tris_extension_match (CHR ''_'' # p) (d @ e) \<noteq> 0"
      unfolding m by (intro exI [of _ e]) simp
  next
    assume "\<exists>e. (mode = E_MATCHMORE \<longrightarrow> e \<noteq> []) \<and> tris_extension_match (CHR ''_'' # p) (d @ e) \<noteq> 0"
    then obtain e where e: "mode = E_MATCHMORE \<longrightarrow> e \<noteq> []"
      "pattern_result (parse_pattern p) (d @ undashed e) (ends_dash (d @ e)) E_MATCH \<noteq> 0" unfolding m by blast
    have "e \<noteq> [] \<longrightarrow> undashed e \<noteq> [] \<or> ends_dash (d @ e)" using undashed_Nil by blast
    then show "tris_extension_close (CHR ''_'' # p) d mode \<noteq> 0"
      unfolding c using pattern_prefix [OF e(2) assms(5)] e(1) by blast
  qed
qed

theorem extension_close_iff_witness:
  "tris_extension_close ''_9[1-5]X.'' ''92'' E_MATCHMORE \<noteq> 0 \<longleftrightarrow>
    (\<exists>e. e \<noteq> [] \<and> tris_extension_match ''_9[1-5]X.'' (''92'' @ e) \<noteq> 0)"
  using extension_close_iff [of "''9[1-5]X.''" "''92''" E_MATCHMORE]
  by (simp add: matchable_def class_ok_def add_class_def schar_def code_of_def)


section \<open>Extensions are totally ordered\<close>

lemma lex_cmp_values: "lex_cmp xs ys \<in> {- 1, 0, 1}"
  by (induction xs ys rule: lex_cmp.induct) auto

lemma lex_cmp_eq: "lex_cmp xs ys = 0 \<longleftrightarrow> xs = ys"
  by (induction xs ys rule: lex_cmp.induct) auto

lemma lex_cmp_sym: "lex_cmp ys xs = - lex_cmp xs ys"
  by (induction xs ys rule: lex_cmp.induct) auto

lemma lex_cmp_trans: "lex_cmp xs ys \<le> 0 \<Longrightarrow> lex_cmp ys zs \<le> 0 \<Longrightarrow> lex_cmp xs zs \<le> 0"
proof (induction xs ys arbitrary: zs rule: lex_cmp.induct)
  case (1 zs)
  then show ?case by simp
next
  case (2 y ys)
  then show ?case by (cases zs) auto
next
  case (3 x xs)
  then show ?case by simp
next
  case (4 x xs y ys)
  show ?case
  proof (cases zs)
    case Nil
    then show ?thesis using "4.prems" by simp
  next
    case (Cons z zs')
    have le: "x \<le> y" "y \<le> z" using "4.prems" Cons by (auto split: if_splits)
    show ?thesis
    proof (cases "x < z")
      case True
      then show ?thesis using Cons by simp
    next
      case False
      then have "x = y" "y = z" using le by simp_all
      then show ?thesis using "4.IH" [of zs'] "4.prems" Cons by simp
    qed
  qed
qed

lemma lex_cmp_append:
  "length xs = length ys \<Longrightarrow> lex_cmp (xs @ as) (ys @ bs) = (if lex_cmp xs ys = 0 then lex_cmp as bs else lex_cmp xs ys)"
  by (induction xs ys rule: list_induct2) simp_all

text \<open>The keys of a pattern, its end included; and the tidy patterns: those of ASCII characters with
  no empty set, whose key is that of the end.\<close>

function pattern_keys :: "string \<Rightarrow> cmp_key list option" where
  "pattern_keys p =
     (case ext_cmp1 p of
        None \<Rightarrow> None
      | Some (k, None) \<Rightarrow> Some [k]
      | Some (k, Some q) \<Rightarrow> if fst k = 0x30000 then None else map_option (\<lambda>ks. k # ks) (pattern_keys q))"
  by pat_completeness auto
termination by (relation "measure length") (auto dest: ext_cmp1_length)

declare pattern_keys.simps [simp del]

definition flat_keys :: "cmp_key list \<Rightarrow> nat list" where
  "flat_keys ks = concat (map (\<lambda>(s, m). s # m) ks)"

definition tidy :: "string \<Rightarrow> bool" where
  "tidy a \<longleftrightarrow> take 1 a = ''_'' \<longrightarrow> pattern_keys (tl a) \<noteq> None"

definition ext_key :: "string \<Rightarrow> nat list" where
  "ext_key a =
     (if take 1 a = ''_'' then 1 # flat_keys (the (pattern_keys (tl a))) else 0 # map code_of a)"

lemma ext_cmp1_bitmap: "ext_cmp1 p = Some ((s, m), r) \<Longrightarrow> length m = 32"
  by (auto simp: ext_cmp1_def Let_def bitmap_of_def split: list.splits if_splits option.splits)

lemma ext_cmp1_end: "ext_cmp1 p = Some ((s, m), None) \<Longrightarrow> s = 0x30000 \<and> m = bitmap_of {}"
  by (auto simp: ext_cmp1_def Let_def split: list.splits if_splits option.splits)

lemma key_diff: "(if sa \<noteq> sb then int sa - int sb else r) = 0 \<longleftrightarrow> sa = sb \<and> r = 0"
  by auto

lemma lex_cmp_head:
  "r = lex_cmp xs ys \<Longrightarrow> sgn (if sa \<noteq> sb then int sa - int sb else r) = lex_cmp (sa # xs) (sb # ys)"
  using lex_cmp_values [of xs ys] by auto

lemma ext_cmp_loop_keys:
  "pattern_keys a = Some ka \<Longrightarrow> pattern_keys b = Some kb \<Longrightarrow>
     ext_cmp_loop a b = Some (lex_cmp (flat_keys ka) (flat_keys kb))"
proof (induction "length a + length b" arbitrary: a b ka kb rule: less_induct)
  case less
  obtain sa ma ra where a: "ext_cmp1 a = Some ((sa, ma), ra)"
    using less.prems(1) unfolding pattern_keys.simps [of a] by (auto split: option.splits)
  obtain sb mb rb where b: "ext_cmp1 b = Some ((sb, mb), rb)"
    using less.prems(2) unfolding pattern_keys.simps [of b] by (auto split: option.splits)
  have len: "length ma = length mb" using ext_cmp1_bitmap a b by metis
  define r where "r = lex_cmp ma mb"
  have loop: "ext_cmp_loop a b =
      (if \<not> (sa = sb \<and> ma = mb) then Some (lex_cmp (sa # ma) (sb # mb))
       else case (ra, rb) of (Some a, Some b) \<Rightarrow> ext_cmp_loop a b | _ \<Rightarrow> Some 0)"
    using a b lex_cmp_head [OF refl, of sa sb ma mb] key_diff [of sa sb "lex_cmp ma mb"]
    unfolding ext_cmp_loop.simps [of a b] by (simp add: lex_cmp_eq Let_def)
  obtain ka' kb' where k: "ka = (sa, ma) # ka'" "kb = (sb, mb) # kb'"
    using less.prems a b by (auto simp: pattern_keys.simps [of a] pattern_keys.simps [of b] split: option.splits if_splits)
  have flat: "flat_keys ka = (sa # ma) @ flat_keys ka'" "flat_keys kb = (sb # mb) @ flat_keys kb'"
    by (simp_all add: k flat_keys_def)
  show ?case
  proof (cases "sa = sb \<and> ma = mb")
    case False
    then have "lex_cmp (sa # ma) (sb # mb) \<noteq> 0" by (simp add: lex_cmp_eq del: lex_cmp.simps)
    then show ?thesis unfolding loop flat using False len by (subst lex_cmp_append) (auto simp del: lex_cmp.simps)
  next
    case True
    have rest: "lex_cmp (flat_keys ka) (flat_keys kb) = lex_cmp (flat_keys ka') (flat_keys kb')"
      unfolding flat using True by (subst lex_cmp_append) (simp_all add: lex_cmp_eq [THEN iffD2])
    have none: "ra = None \<longleftrightarrow> sa = 0x30000" "rb = None \<longleftrightarrow> sb = 0x30000"
      using less.prems a b ext_cmp1_end [of a sa ma] ext_cmp1_end [of b sb mb]
      by (auto simp: pattern_keys.simps [of a] pattern_keys.simps [of b] split: option.splits if_splits)
    show ?thesis
    proof (cases ra)
      case None
      then have "ka' = []" "kb' = []"
        using none True less.prems a b k by (auto simp: pattern_keys.simps [of a] pattern_keys.simps [of b])
      then show ?thesis unfolding rest loop using True None by (simp add: flat_keys_def)
    next
      case (Some a')
      then obtain b' where b': "rb = Some b'" using none True by (cases rb) auto
      have "pattern_keys a' = Some ka'" "pattern_keys b' = Some kb'"
        using less.prems a b Some b' k by (auto simp: pattern_keys.simps [of a] pattern_keys.simps [of b] split: if_splits)
      moreover have "length a' + length b' < length a + length b"
        using ext_cmp1_length a b Some b' by (metis add_strict_mono)
      ultimately show ?thesis unfolding rest loop using less.hyps True Some b' by simp
    qed
  qed
qed

lemma strcmp_key: "strcmp a b = lex_cmp (map code_of a) (map code_of b)"
  by (simp add: strcmp_def)

lemma ext_cmp_key:
  assumes "tidy a" "tidy b"
  shows "ext_cmp a b = Some (lex_cmp (ext_key a) (ext_key b))"
  using assms ext_cmp_loop_keys [of "tl a" _ "tl b"]
  by (auto simp: ext_cmp_def ext_key_def tidy_def strcmp_def)

text \<open>Extensions are kept in a total order: on extensions without empty sets and
  characters beyond ASCII the comparison always returns, is antisymmetric and transitive.\<close>

theorem ext_cmp_total_order:
  assumes "tidy a" "tidy b" "tidy c"
  shows "\<exists>r s t. ext_cmp a b = Some r \<and> ext_cmp b a = Some (- r) \<and> ext_cmp b c = Some s \<and> ext_cmp a c = Some t \<and>
    (r \<le> 0 \<and> s \<le> 0 \<longrightarrow> t \<le> 0) \<and> (r \<le> 0 \<and> s \<le> 0 \<and> t = 0 \<longrightarrow> r = 0 \<and> s = 0)"
proof -
  let ?k = "ext_key a" and ?l = "ext_key b" and ?m = "ext_key c"
  have "lex_cmp ?k ?l = 0 \<and> lex_cmp ?l ?m = 0" if "lex_cmp ?k ?l \<le> 0" "lex_cmp ?l ?m \<le> 0" "lex_cmp ?k ?m = 0"
  proof -
    have "?k = ?m" using that(3) lex_cmp_eq by blast
    then show ?thesis using that(1,2) lex_cmp_sym [of ?l ?m] by simp
  qed
  then show ?thesis using lex_cmp_trans [of ?k ?l ?m] lex_cmp_sym [of ?k ?l]
    by (simp add: ext_cmp_key [OF assms(1,2)] ext_cmp_key [OF assms(2,1)] ext_cmp_key [OF assms(2,3)] ext_cmp_key [OF assms(1,3)])
qed


theorem ext_cmp_total_order_witness:
  "\<exists>r s t. ext_cmp ''_NXX'' ''_X.'' = Some r \<and> ext_cmp ''_X.'' ''_NXX'' = Some (- r) \<and>
    ext_cmp ''_X.'' ''123'' = Some s \<and> ext_cmp ''_NXX'' ''123'' = Some t \<and>
    (r \<le> 0 \<and> s \<le> 0 \<longrightarrow> t \<le> 0) \<and> (r \<le> 0 \<and> s \<le> 0 \<and> t = 0 \<longrightarrow> r = 0 \<and> s = 0)"
proof (rule ext_cmp_total_order)
  show "tidy ''_NXX''" "tidy ''_X.''" "tidy ''123''"
    by (simp_all add: tidy_def pattern_keys.simps ext_cmp1_def toupper_def islower_def code_of_def Let_def del: upt_Suc)
qed

text \<open>With an empty set, whose key is that of a pattern's end, the order is not transitive.\<close>

lemma ext_cmp_empty_set:
  "ext_cmp ''_X[]5'' ''_X'' = Some 0" "ext_cmp ''_X'' ''_X[]6'' = Some 0" "ext_cmp ''_X[]5'' ''_X[]6'' = Some (- 1)"
  by (simp_all add: ext_cmp_def ext_cmp_loop.simps ext_cmp1_def toupper_def islower_def code_of_def Let_def
      bitmap_of_def upt_rec)


text \<open>A dash at the end of the data is no mere separator, and ignored characters at the end of a
  pattern keep it from an exact match.\<close>

lemma extension_match_data_dash:
  "tris_extension_match ''_X'' ''5-'' = 0" "tris_extension_match ''_XX'' ''5-5'' = 1"
  by (simp_all add: tris_extension_match_def extension_match_core_def strcaseeq_def toupper_def islower_def
      tolower_def isupper_def code_of_def in_range_def schar_def match_end_def)

lemma extension_match_blank_end: "tris_extension_match ''_X-'' ''5'' = 0" "tris_extension_match ''_X'' ''5'' = 1"
  by (simp_all add: tris_extension_match_def extension_match_core_def strcaseeq_def toupper_def islower_def
      code_of_def in_range_def schar_def match_end_def)


end
