(* ===== verification/PbxTiming.thy ===== *)
theory PbxTiming
  imports CString
begin

text \<open>
  Time conditions of the dialplan, \<open>main/pbx.c\<close>: building the bitmaps of an expression
  \<open>times,weekdays,days,months[,timezone]\<close> and testing a broken-down time against them.

  The loops over cyclic ranges are \<open>partial_function (option)\<close>; that they end for the positions the
  parser lets through is proved. The local time is a parameter of the test.
\<close>

unbundle bit_operations_syntax

section \<open>Data\<close>

record tris_timing =
  monthmask :: u32
  daymask :: u32
  dowmask :: u32
  minmask :: "u32 list"
  timezone :: "string option"

record tris_tm =
  tm_min :: int
  tm_hour :: int
  tm_mday :: int
  tm_mon :: int
  tm_wday :: int

definition days :: "string list" where
  "days = [''sun'', ''mon'', ''tue'', ''wed'', ''thu'', ''fri'', ''sat'']"

definition months :: "string list" where
  "months = [''jan'', ''feb'', ''mar'', ''apr'', ''may'', ''jun'', ''jul'', ''aug'', ''sep'', ''oct'', ''nov'', ''dec'']"

section \<open>Ranges of names and numbers\<close>

fun find_name :: "string \<Rightarrow> string list \<Rightarrow> int \<Rightarrow> int option" where
  "find_name s [] i = None"
| "find_name s (n # ns) i = (if strcaseeq s n then Some i else find_name s ns (i + 1))"

text \<open>\<open>*s > '9'\<close> compares a signed character.\<close>

definition lookup_name :: "string \<Rightarrow> string list option \<Rightarrow> int \<Rightarrow> int" where
  "lookup_name s names lim =
     (case (case names of
              Some ns \<Rightarrow> if s \<noteq> [] \<and> 57 < code_of (hd s) \<and> code_of (hd s) < 128 then find_name s ns 0 else None
            | None \<Rightarrow> None) of
        Some i \<Rightarrow> i
      | None \<Rightarrow>
          (case scan_2d s of
             Some (i, _) \<Rightarrow> if 1 \<le> i \<and> i \<le> lim then i - 1 else - 1
           | None \<Rightarrow> - 1))"

text \<open>The loop that fills the mask from \<open>start\<close> up to \<open>end\<close>.\<close>

partial_function (option) fill_range :: "int \<Rightarrow> int \<Rightarrow> int \<Rightarrow> u32 \<Rightarrow> u32 option" where
  "fill_range lim start end msk =
     (if start = end then Some msk
      else fill_range lim (if lim \<le> start + 1 then 0 else start + 1) end (msk OR push_bit (nat start) 1))"

definition range_part :: "int \<Rightarrow> string list option \<Rightarrow> string \<Rightarrow> (int \<times> int) option" where
  "range_part lim names part =
     (let (a, b) = (case cut_at CHR ''-'' part of None \<Rightarrow> (part, None) | Some (a, b) \<Rightarrow> (a, Some b));
          start = lookup_name a names lim
      in if start < 0 then None
         else (case b of
                 None \<Rightarrow> Some (start, start)
               | Some b \<Rightarrow> let end = lookup_name b names lim in if end < 0 then None else Some (start, end)))"

fun range_parts :: "int \<Rightarrow> string list option \<Rightarrow> string list \<Rightarrow> u32 \<Rightarrow> u32 option" where
  "range_parts lim names [] msk = Some msk"
| "range_parts lim names (part # parts) msk =
     (case range_part lim names part of
        None \<Rightarrow> range_parts lim names parts msk
      | Some (start, end) \<Rightarrow>
          (case fill_range lim start end (msk OR push_bit (nat end) 1) of
             None \<Rightarrow> None
           | Some msk \<Rightarrow> range_parts lim names parts msk))"

definition get_range :: "string \<Rightarrow> int \<Rightarrow> string list option \<Rightarrow> u32 option" where
  "get_range src lim names =
     (if src = [] \<or> src = ''*'' then Some (push_bit (nat lim) 1 - 1)
      else range_parts lim names (split_on (\<lambda>c. c = CHR ''&'') src) 0)"

section \<open>Ranges of minutes\<close>

definition valid_hm :: "string \<Rightarrow> (int \<times> int) option" where
  "valid_hm part =
     (case scan_2d_2d part of
        Some (h, m) \<Rightarrow> if h < 0 \<or> 23 < h \<or> m < 0 \<or> 59 < m then None else Some (h, m)
      | None \<Rightarrow> None)"

definition set_minute :: "u32 list \<Rightarrow> nat \<Rightarrow> nat \<Rightarrow> u32 list" where
  "set_minute mm i b = mm[i := mm ! i OR push_bit b 1]"

partial_function (option) fill_minutes :: "int \<Rightarrow> int \<Rightarrow> u32 list \<Rightarrow> (int \<times> u32 list) option" where
  "fill_minutes x minute_end mm =
     (if x = minute_end then Some (x, mm)
      else fill_minutes ((x + 1) mod (24 * 60)) minute_end (set_minute mm (nat x div 30) (nat x mod 30)))"

definition time_part :: "u32 list \<Rightarrow> string \<Rightarrow> u32 list option" where
  "time_part mm part =
     (case cut_at CHR ''-'' part of
        None \<Rightarrow>
          (case valid_hm part of
             None \<Rightarrow> Some mm
           | Some (h, m) \<Rightarrow> Some (set_minute mm (nat h * 2 + (if 30 \<le> m then 1 else 0)) (nat m mod 30)))
      | Some (a, b) \<Rightarrow>
          (let b = dropWhile (\<lambda>c. \<not> isdigit c) b
           in if b = [] then Some mm
              else (case valid_hm a of
                      None \<Rightarrow> Some mm
                    | Some (st_h, st_m) \<Rightarrow>
                        (case valid_hm b of
                           None \<Rightarrow> Some mm
                         | Some (endh, endm) \<Rightarrow>
                             (case fill_minutes (st_h * 60 + st_m) (endh * 60 + endm) mm of
                                None \<Rightarrow> None
                              | Some (x, mm) \<Rightarrow> Some (set_minute mm (nat x div 30) (nat x mod 30)))))))"

fun time_parts :: "string list \<Rightarrow> u32 list \<Rightarrow> u32 list option" where
  "time_parts [] mm = Some mm"
| "time_parts (p # ps) mm = (case time_part mm p of None \<Rightarrow> None | Some mm \<Rightarrow> time_parts ps mm)"

definition get_timerange :: "string \<Rightarrow> u32 list option" where
  "get_timerange tms =
     (if tms = [] \<or> tms = ''*'' then Some (replicate 48 0x3fffffff)
      else time_parts (split_on (\<lambda>c. c = CHR ''&'') tms) (replicate 48 0))"

section \<open>Building and testing\<close>

text \<open>The fields are separated by commas or bars, but only commas are counted for the time zone.\<close>

definition tris_build_timing :: "tris_timing \<Rightarrow> string \<Rightarrow> (int \<times> tris_timing) option" where
  "tris_build_timing i info =
     (if info = [] then Some (0, i)
      else
        (let commas = split_on (\<lambda>c. c = CHR '','') info;
             fs = split_on (\<lambda>c. c = CHR ''|'' \<or> c = CHR '','') info;
             i = i\<lparr>timezone := (if length commas = 5 then Some (last commas) else None),
                   monthmask := 0xfff, daymask := 0x7fffffff, dowmask := 0x7f\<rparr>
         in case get_timerange (fs ! 0) of
              None \<Rightarrow> None
            | Some mm \<Rightarrow>
                (case (if 1 < length fs then get_range (fs ! 1) 7 (Some days) else Some (dowmask i)) of
                   None \<Rightarrow> None
                 | Some dow \<Rightarrow>
                     (case (if 2 < length fs then get_range (fs ! 2) 31 None else Some (daymask i)) of
                        None \<Rightarrow> None
                      | Some day \<Rightarrow>
                          (case (if 3 < length fs then get_range (fs ! 3) 12 (Some months) else Some (monthmask i)) of
                             None \<Rightarrow> None
                           | Some mon \<Rightarrow>
                               Some (1, i\<lparr>minmask := mm, dowmask := dow, daymask := day, monthmask := mon\<rparr>))))))"

definition tris_check_timing :: "tris_timing \<Rightarrow> tris_tm \<Rightarrow> int" where
  "tris_check_timing i tm =
     (if \<not> bit (monthmask i) (nat (tm_mon tm)) then 0
      else if \<not> bit (daymask i) (nat (tm_mday tm - 1)) then 0
      else if \<not> bit (dowmask i) (nat (tm_wday tm)) then 0
      else if tm_hour tm < 0 \<or> 23 < tm_hour tm then 0
      else if \<not> bit (minmask i ! nat (tm_hour tm * 2 + (if 30 \<le> tm_min tm then 1 else 0)))
                  (nat (if 30 \<le> tm_min tm then tm_min tm - 30 else tm_min tm)) then 0
      else 1)"

section \<open>Cyclic ranges\<close>

definition cyclic :: "int \<Rightarrow> int \<Rightarrow> int \<Rightarrow> bool" where
  "cyclic s e x \<longleftrightarrow> (if s \<le> e then s \<le> x \<and> x \<le> e else s \<le> x \<or> x \<le> e)"

definition succ_mod :: "int \<Rightarrow> int \<Rightarrow> int" where
  "succ_mod lim s = (if lim \<le> s + 1 then 0 else s + 1)"

lemma cyclic_induct [consumes 4, case_names stop step]:
  assumes "0 \<le> s" "s < lim" "0 \<le> e" "e < lim"
    and stop: "P e"
    and step: "\<And>s. \<lbrakk>0 \<le> s; s < lim; s \<noteq> e; P (succ_mod lim s)\<rbrakk> \<Longrightarrow> P s"
  shows "P s"
  using assms(1,2)
proof (induction "nat (if s \<le> e then e - s else e - s + lim)" arbitrary: s rule: less_induct)
  case less
  show ?case
  proof (cases "s = e")
    case False
    have "P (succ_mod lim s)"
      by (rule less.hyps) (use less.prems False assms(3,4) in \<open>auto simp: succ_mod_def\<close>)
    then show ?thesis using step less.prems False by blast
  qed (use stop in simp)
qed

lemma cyclic_step:
  "\<lbrakk>0 \<le> s; s < lim; 0 \<le> e; e < lim; s \<noteq> e; 0 \<le> x; x < lim\<rbrakk> \<Longrightarrow>
     cyclic s e x \<longleftrightarrow> x = s \<or> cyclic (succ_mod lim s) e x"
  by (auto simp: cyclic_def succ_mod_def)

lemma cyclic_self: "cyclic e e x \<longleftrightarrow> x = e"
  by (auto simp: cyclic_def)

lemma cyclic_end: "cyclic s e e"
  by (simp add: cyclic_def)

lemma bit_add: "i < 32 \<Longrightarrow> bit ((msk :: u32) OR 2 ^ n) i \<longleftrightarrow> bit msk i \<or> i = n"
  by (auto simp: bit_simps)

lemma fill_range_bits:
  assumes "0 \<le> s" "s < lim" "0 \<le> e" "e < lim" "lim \<le> 32"
  shows "\<exists>m. fill_range lim s e msk = Some m \<and>
    (\<forall>i < 32. bit m i \<longleftrightarrow> bit msk i \<or> int i < lim \<and> int i \<noteq> e \<and> cyclic s e (int i))"
  using assms(1-4)
proof (induction arbitrary: msk rule: cyclic_induct)
  case stop
  show ?case using assms(4) by (auto simp: fill_range.simps cyclic_self)
next
  case (step s)
  have e: "fill_range lim s e msk = fill_range lim (succ_mod lim s) e (msk OR push_bit (nat s) 1)"
    using step.hyps by (subst fill_range.simps) (simp add: succ_mod_def)
  obtain m where m: "fill_range lim (succ_mod lim s) e (msk OR push_bit (nat s) 1) = Some m"
    "\<forall>i < 32. bit m i \<longleftrightarrow>
       bit (msk OR push_bit (nat s) 1) i \<or> int i < lim \<and> int i \<noteq> e \<and> cyclic (succ_mod lim s) e (int i)"
    using step.IH by blast
  have "bit m i \<longleftrightarrow> bit msk i \<or> int i < lim \<and> int i \<noteq> e \<and> cyclic s e (int i)" if "i < 32" for i
    using m(2) that cyclic_step [of s lim e "int i"] step.hyps assms(3,4) by (auto simp: bit_add)
  then show ?case using m(1) unfolding e by blast
qed

lemma find_name_bounds: "find_name s ns i = Some k \<Longrightarrow> i \<le> k \<and> k < i + int (length ns)"
  by (induction ns arbitrary: i) (force split: if_splits)+

definition names_fit :: "string list option \<Rightarrow> int \<Rightarrow> bool" where
  "names_fit names lim \<longleftrightarrow> (case names of None \<Rightarrow> True | Some ns \<Rightarrow> int (length ns) \<le> lim)"

lemma lookup_name_bounds: "names_fit names lim \<Longrightarrow> 0 < lim \<Longrightarrow> lookup_name s names lim < lim"
  by (auto simp: lookup_name_def names_fit_def split: option.splits if_splits dest!: find_name_bounds)

lemma range_part_bounds:
  "\<lbrakk>range_part lim names part = Some (s, e); names_fit names lim; 0 < lim\<rbrakk> \<Longrightarrow> 0 \<le> s \<and> s < lim \<and> 0 \<le> e \<and> e < lim"
  using lookup_name_bounds [of names lim]
  by (auto simp: range_part_def Let_def split: option.splits if_splits prod.splits)

definition part_admits :: "int \<Rightarrow> string list option \<Rightarrow> int \<Rightarrow> string \<Rightarrow> bool" where
  "part_admits lim names x part \<longleftrightarrow>
     (case range_part lim names part of None \<Rightarrow> False | Some (s, e) \<Rightarrow> cyclic s e x)"

lemma range_parts_bits:
  assumes "names_fit names lim" "0 < lim" "lim \<le> 32"
  shows "\<exists>m. range_parts lim names ps msk = Some m \<and>
    (\<forall>i < 32. bit m i \<longleftrightarrow> bit msk i \<or> int i < lim \<and> (\<exists>p \<in> set ps. part_admits lim names (int i) p))"
proof (induction ps arbitrary: msk)
  case (Cons p ps)
  show ?case
  proof (cases "range_part lim names p")
    case None
    then show ?thesis using Cons [of msk] by (simp add: part_admits_def [of _ _ _ p])
  next
    case (Some r)
    obtain s e where r: "r = (s, e)" by (cases r)
    note b = range_part_bounds [OF Some [unfolded r] assms(1,2)]
    obtain m where m: "fill_range lim s e (msk OR push_bit (nat e) 1) = Some m"
      "\<forall>i < 32. bit m i \<longleftrightarrow>
         bit (msk OR push_bit (nat e) 1) i \<or> int i < lim \<and> int i \<noteq> e \<and> cyclic s e (int i)"
      using fill_range_bits [of s lim e] b assms(3) by blast
    obtain m' where m': "range_parts lim names ps m = Some m'"
      "\<forall>i < 32. bit m' i \<longleftrightarrow> bit m i \<or> int i < lim \<and> (\<exists>p \<in> set ps. part_admits lim names (int i) p)"
      using Cons by blast
    have pa: "part_admits lim names x p = cyclic s e x" for x by (simp add: part_admits_def Some r)
    have "bit m' i \<longleftrightarrow> bit msk i \<or> int i < lim \<and> (\<exists>p \<in> set (p # ps). part_admits lim names (int i) p)"
      if "i < 32" for i
      using m(2) m'(2) that b cyclic_end [of s e] by (auto simp: bit_add pa)
    then show ?thesis using Some r m(1) m'(1) by (intro exI [of _ m']) simp
  qed
qed simp

text \<open>What a field of names or numbers means.\<close>

definition range_admits :: "int \<Rightarrow> string list option \<Rightarrow> string \<Rightarrow> int \<Rightarrow> bool" where
  "range_admits lim names src x \<longleftrightarrow>
     src = [] \<or> src = ''*'' \<or> list_ex (part_admits lim names x) (split_on (\<lambda>c. c = CHR ''&'') src)"

lemma get_range_bits:
  assumes "names_fit names lim" "0 < lim" "lim \<le> 32"
  shows "\<exists>m. get_range src lim names = Some m \<and>
    (\<forall>i < 32. bit m i \<longleftrightarrow> int i < lim \<and> range_admits lim names src (int i))"
proof (cases "src = [] \<or> src = ''*''")
  case True
  have "push_bit (nat lim) 1 - 1 = (mask (nat lim) :: u32)" by (simp add: mask_eq_exp_minus_1 push_bit_of_1)
  then show ?thesis using True assms(2)
    by (auto simp: get_range_def range_admits_def bit_mask_iff)
next
  case False
  then show ?thesis using range_parts_bits [OF assms, of "split_on (\<lambda>c. c = CHR ''&'') src" 0]
    by (auto simp: get_range_def range_admits_def list_ex_iff)
qed

section \<open>Minutes\<close>

definition minute_bit :: "u32 list \<Rightarrow> int \<Rightarrow> bool" where
  "minute_bit mm x \<longleftrightarrow> bit (mm ! (nat x div 30)) (nat x mod 30)"

lemma minute_bit_set:
  assumes "length mm = 48" "0 \<le> x" "x < 1440" "0 \<le> y" "y < 1440"
  shows "minute_bit (set_minute mm (nat x div 30) (nat x mod 30)) y \<longleftrightarrow> minute_bit mm y \<or> y = x"
proof -
  have "nat x div 30 < 48" "nat x mod 30 < 32" using assms(3) by simp_all
  moreover have "y = x \<longleftrightarrow> nat y div 30 = nat x div 30 \<and> nat y mod 30 = nat x mod 30"
    using assms(2,4) by (metis div_mult_mod_eq eq_nat_nat_iff)
  moreover have "nat y mod 30 < 32" by simp
  ultimately show ?thesis using assms(1)
    by (auto simp: minute_bit_def set_minute_def bit_add nth_list_update)
qed

lemma length_set_minute [simp]: "length (set_minute mm i b) = length mm"
  by (simp add: set_minute_def)

lemma fill_minutes_bits:
  assumes "0 \<le> s" "s < 1440" "0 \<le> e" "e < 1440" "length mm = 48"
  shows "\<exists>m. fill_minutes s e mm = Some (e, m) \<and> length m = 48 \<and>
    (\<forall>y. 0 \<le> y \<longrightarrow> y < 1440 \<longrightarrow> minute_bit m y = (minute_bit mm y \<or> y \<noteq> e \<and> cyclic s e y))"
  using assms
proof (induction arbitrary: mm rule: cyclic_induct)
  case stop
  then show ?case by (auto simp: fill_minutes.simps cyclic_self)
next
  case (step s)
  have n: "(s + 1) mod (24 * 60) = succ_mod 1440 s"
  proof (cases "s = 1439")
    case False
    then show ?thesis using step.hyps by (simp add: succ_mod_def)
  qed (simp add: succ_mod_def)
  have e: "fill_minutes s e mm = fill_minutes (succ_mod 1440 s) e (set_minute mm (nat s div 30) (nat s mod 30))"
    using step.hyps n by (subst fill_minutes.simps) simp
  obtain m where m: "fill_minutes (succ_mod 1440 s) e (set_minute mm (nat s div 30) (nat s mod 30)) = Some (e, m)"
    "length m = 48" "\<forall>y. 0 \<le> y \<longrightarrow> y < 1440 \<longrightarrow> minute_bit m y =
       (minute_bit (set_minute mm (nat s div 30) (nat s mod 30)) y \<or> y \<noteq> e \<and> cyclic (succ_mod 1440 s) e y)"
    using step.IH [of "set_minute mm (nat s div 30) (nat s mod 30)"] step.prems by auto
  have "minute_bit m y = (minute_bit mm y \<or> y \<noteq> e \<and> cyclic s e y)" if "0 \<le> y" "y < 1440" for y
    using m(3) that minute_bit_set [of mm s y] cyclic_step [of s 1440 e y] step assms(3,4) by auto
  then show ?case using m(1,2) unfolding e by blast
qed


text \<open>What a time element means, as minutes of the day.\<close>

definition time_range :: "string \<Rightarrow> (int \<times> int) option" where
  "time_range part =
     (case cut_at CHR ''-'' part of
        None \<Rightarrow> map_option (\<lambda>(h, m). (h * 60 + m, h * 60 + m)) (valid_hm part)
      | Some (a, b) \<Rightarrow>
          (case (valid_hm a, valid_hm (dropWhile (\<lambda>c. \<not> isdigit c) b)) of
             (Some (h, m), Some (h', m')) \<Rightarrow> Some (h * 60 + m, h' * 60 + m')
           | _ \<Rightarrow> None))"

definition part_has_minute :: "int \<Rightarrow> string \<Rightarrow> bool" where
  "part_has_minute x part \<longleftrightarrow> (case time_range part of None \<Rightarrow> False | Some (s, e) \<Rightarrow> cyclic s e x)"

definition time_admits :: "string \<Rightarrow> int \<Rightarrow> bool" where
  "time_admits src x \<longleftrightarrow>
     src = [] \<or> src = ''*'' \<or> list_ex (part_has_minute x) (split_on (\<lambda>c. c = CHR ''&'') src)"

lemma valid_hm_bounds:
  "valid_hm part = Some (h, m) \<Longrightarrow> 0 \<le> h \<and> h \<le> 23 \<and> 0 \<le> m \<and> m \<le> 59"
  by (auto simp: valid_hm_def split: option.splits if_splits)

lemma minute_index:
  fixes m h :: nat
  assumes "m < 60"
  shows "(h * 60 + m) div 30 = 2 * h + (if 30 \<le> m then 1 else 0)" "(h * 60 + m) mod 30 = (if 30 \<le> m then m - 30 else m)"
proof -
  have "(h * 60 + m) div 30 = 2 * h + (if 30 \<le> m then 1 else 0) \<and> (h * 60 + m) mod 30 = (if 30 \<le> m then m - 30 else m)"
  proof (cases "30 \<le> m")
    case True
    then obtain k where k: "m = 30 + k" by (metis le_Suc_ex)
    then have "h * 60 + m = k + (2 * h + 1) * 30" "k < 30" using assms by simp_all
    then show ?thesis using True k by (simp only: div_mult_self3 mod_mult_self1) simp
  next
    case False
    then have "h * 60 + m = m + (2 * h) * 30" "m < 30" by simp_all
    then show ?thesis using False by (simp only: div_mult_self3 mod_mult_self1) simp
  qed
  then show "(h * 60 + m) div 30 = 2 * h + (if 30 \<le> m then 1 else 0)"
    "(h * 60 + m) mod 30 = (if 30 \<le> m then m - 30 else m)" by blast+
qed

lemma valid_hm_minute:
  assumes "valid_hm part = Some (h, m)"
  shows "0 \<le> h * 60 + m" "h * 60 + m < 1440"
    "nat (h * 60 + m) div 30 = nat h * 2 + (if 30 \<le> m then 1 else 0)" "nat (h * 60 + m) mod 30 = nat m mod 30"
proof -
  note b = valid_hm_bounds [OF assms]
  then show "0 \<le> h * 60 + m" "h * 60 + m < 1440" by simp_all
  obtain k l where k: "h = int k" "m = int l" using b by (metis zero_le_imp_eq_int)
  then have n: "nat (h * 60 + m) = k * 60 + l" by simp
  have l: "l < 60" using b k by simp
  show "nat (h * 60 + m) div 30 = nat h * 2 + (if 30 \<le> m then 1 else 0)"
    unfolding n minute_index(1) [OF l] using k by simp
  show "nat (h * 60 + m) mod 30 = nat m mod 30"
    unfolding n minute_index(2) [OF l] using k l by (simp add: le_mod_geq)
qed

lemma valid_hm_Nil: "valid_hm [] = None"
  by (simp add: valid_hm_def scan_2d_2d_def scan_2d_def scan_d_def)

lemma time_part_bits:
  assumes "length mm = 48"
  shows "\<exists>m. time_part mm part = Some m \<and> length m = 48 \<and>
    (\<forall>y. 0 \<le> y \<longrightarrow> y < 1440 \<longrightarrow> minute_bit m y = (minute_bit mm y \<or> part_has_minute y part))"
proof (cases "cut_at CHR ''-'' part")
  case None
  show ?thesis
  proof (cases "valid_hm part")
    case hm: (Some r)
    obtain h m where r: "r = (h, m)" by (cases r)
    note b = valid_hm_minute [OF hm [unfolded r]]
    have "time_part mm part = Some (set_minute mm (nat (h * 60 + m) div 30) (nat (h * 60 + m) mod 30))"
      unfolding b(3,4) using None hm r by (simp add: time_part_def)
    moreover have "part_has_minute y part = (y = h * 60 + m)" for y
      using None hm r by (simp add: part_has_minute_def time_range_def cyclic_self)
    ultimately show ?thesis using minute_bit_set [OF assms b(1,2)] assms by simp
  qed (use None assms in \<open>simp add: time_part_def part_has_minute_def time_range_def\<close>)
next
  case (Some ab)
  obtain a b where ab: "ab = (a, b)" by (cases ab)
  let ?b = "dropWhile (\<lambda>c. \<not> isdigit c) b"
  show ?thesis
  proof (cases "\<exists>h m h' m'. valid_hm a = Some (h, m) \<and> valid_hm ?b = Some (h', m')")
    case True
    then obtain h m h' m' where v: "valid_hm a = Some (h, m)" "valid_hm ?b = Some (h', m')" by blast
    then have ne: "?b \<noteq> []" using valid_hm_Nil by (metis option.distinct(1))
    note b1 = valid_hm_minute [OF v(1)] and b2 = valid_hm_minute [OF v(2)]
    obtain f where f: "fill_minutes (h * 60 + m) (h' * 60 + m') mm = Some (h' * 60 + m', f)" "length f = 48"
      "\<forall>y. 0 \<le> y \<longrightarrow> y < 1440 \<longrightarrow> minute_bit f y = (minute_bit mm y \<or> y \<noteq> h' * 60 + m' \<and> cyclic (h * 60 + m) (h' * 60 + m') y)"
      using fill_minutes_bits [OF b1(1,2) b2(1,2) assms] by blast
    let ?e = "h' * 60 + m'"
    have "time_part mm part = Some (set_minute f (nat ?e div 30) (nat ?e mod 30))"
      using Some ab v ne f(1) by (simp add: time_part_def Let_def del: dropWhile_eq_Nil_conv)
    moreover have "part_has_minute y part = cyclic (h * 60 + m) ?e y" for y
      using Some ab v by (simp add: part_has_minute_def time_range_def)
    moreover have "minute_bit (set_minute f (nat ?e div 30) (nat ?e mod 30)) y =
        (minute_bit mm y \<or> cyclic (h * 60 + m) ?e y)" if "0 \<le> y" "y < 1440" for y
      using minute_bit_set [OF f(2) b2(1,2) that] f(3) that cyclic_end [of "h * 60 + m" ?e] by blast
    ultimately show ?thesis using f(2) by simp
  next
    case False
    then have "time_part mm part = Some mm"
      using Some ab valid_hm_Nil by (auto simp: time_part_def Let_def split: option.splits)
    moreover have "\<not> part_has_minute y part" for y
      using False Some ab by (auto simp: part_has_minute_def time_range_def split: option.splits)
    ultimately show ?thesis using assms by simp
  qed
qed

lemma time_parts_bits:
  "length mm = 48 \<Longrightarrow> \<exists>m. time_parts ps mm = Some m \<and> length m = 48 \<and>
     (\<forall>y. 0 \<le> y \<longrightarrow> y < 1440 \<longrightarrow> minute_bit m y = (minute_bit mm y \<or> list_ex (part_has_minute y) ps))"
proof (induction ps arbitrary: mm)
  case (Cons p ps)
  obtain m where m: "time_part mm p = Some m" "length m = 48"
    "\<forall>y. 0 \<le> y \<longrightarrow> y < 1440 \<longrightarrow> minute_bit m y = (minute_bit mm y \<or> part_has_minute y p)"
    using time_part_bits [OF Cons.prems] by blast
  then show ?case using Cons.IH [OF m(2)] by auto
qed simp

lemma minute_bit_empty: "0 \<le> y \<Longrightarrow> y < 1440 \<Longrightarrow> \<not> minute_bit (replicate 48 0) y"
  by (simp add: minute_bit_def)

lemma full_minutes: "(0x3fffffff :: u32) = mask 30"
  by (simp add: mask_eq_exp_minus_1)

lemma minute_bit_full: "0 \<le> y \<Longrightarrow> y < 1440 \<Longrightarrow> minute_bit (replicate 48 0x3fffffff) y"
  unfolding full_minutes by (simp add: minute_bit_def bit_mask_iff)

lemma get_timerange_bits:
  "\<exists>m. get_timerange src = Some m \<and> length m = 48 \<and>
     (\<forall>y. 0 \<le> y \<longrightarrow> y < 1440 \<longrightarrow> minute_bit m y = time_admits src y)"
proof (cases "src = [] \<or> src = ''*''")
  case True
  then show ?thesis using minute_bit_full by (auto simp: get_timerange_def time_admits_def)
next
  case False
  then show ?thesis
    using time_parts_bits [of "replicate 48 0" "split_on (\<lambda>c. c = CHR ''&'') src"] minute_bit_empty
    by (auto simp: get_timerange_def time_admits_def)
qed


lemma field_bits:
  assumes "names_fit names (int n)" "0 < n" "n \<le> 32"
  shows "\<exists>m. (if present then get_range src (int n) names else Some (mask n)) = Some m \<and>
    (\<forall>k < n. bit m k \<longleftrightarrow> (present \<longrightarrow> range_admits (int n) names src (int k)))"
proof (cases present)
  case True
  then show ?thesis using get_range_bits [OF assms(1), of src] assms(2,3) by auto
qed (use assms in \<open>simp add: bit_mask_iff\<close>)

lemma field_facts:
  "names_fit (Some days) 7" "names_fit None 31" "names_fit (Some months) 12"
  "int 7 = 7" "int 31 = 31" "int 12 = 12"
  "mask 7 = (0x7f :: u32)" "mask 31 = (0x7fffffff :: u32)" "mask 12 = (0xfff :: u32)"
  by (simp_all add: names_fit_def days_def months_def mask_eq_exp_minus_1)

definition zone_of :: "string \<Rightarrow> string option" where
  "zone_of info =
     (if length (split_on (\<lambda>c. c = CHR '','') info) = 5 then Some (last (split_on (\<lambda>c. c = CHR '','') info)) else None)"

lemma build_timing_eq:
  assumes "info \<noteq> []" "split_on (\<lambda>c. c = CHR ''|'' \<or> c = CHR '','') info = fs" "get_timerange (fs ! 0) = Some mm"
    and "(if 1 < length fs then get_range (fs ! 1) 7 (Some days) else Some 0x7f) = Some dow"
    and "(if 2 < length fs then get_range (fs ! 2) 31 None else Some 0x7fffffff) = Some day"
    and "(if 3 < length fs then get_range (fs ! 3) 12 (Some months) else Some 0xfff) = Some mon"
  shows "tris_build_timing i info =
      Some (1, i\<lparr>timezone := zone_of info, minmask := mm, dowmask := dow, daymask := day, monthmask := mon\<rparr>)"
  using assms(1,3-6) unfolding tris_build_timing_def assms(2) Let_def zone_of_def
  by (simp cong: if_cong)

text \<open>Claim C26. Building the bitmaps of a time expression ends for every expression, and the test
  accepts a broken-down time exactly when each field of the expression, in its cyclic ranges, admits
  it: its minute, day of the week, day of the month and month; a missing field admits all.\<close>

theorem check_build_timing:
  assumes "info \<noteq> []" and "fs = split_on (\<lambda>c. c = CHR ''|'' \<or> c = CHR '','') info"
    and "0 \<le> tm_mon tm" "tm_mon tm < 12" "1 \<le> tm_mday tm" "tm_mday tm \<le> 31" "0 \<le> tm_wday tm" "tm_wday tm < 7"
    and "0 \<le> tm_hour tm" "tm_hour tm < 24" "0 \<le> tm_min tm" "tm_min tm < 60"
  shows "\<exists>i'. tris_build_timing i info = Some (1, i') \<and> timezone i' = zone_of info \<and>
    (tris_check_timing i' tm = 1 \<longleftrightarrow>
      time_admits (fs ! 0) (tm_hour tm * 60 + tm_min tm) \<and>
      (1 < length fs \<longrightarrow> range_admits 7 (Some days) (fs ! 1) (tm_wday tm)) \<and>
      (2 < length fs \<longrightarrow> range_admits 31 None (fs ! 2) (tm_mday tm - 1)) \<and>
      (3 < length fs \<longrightarrow> range_admits 12 (Some months) (fs ! 3) (tm_mon tm)))"
proof -
  obtain mm where mm: "get_timerange (fs ! 0) = Some mm" "length mm = 48"
    "\<forall>y. 0 \<le> y \<longrightarrow> y < 1440 \<longrightarrow> minute_bit mm y = time_admits (fs ! 0) y"
    using get_timerange_bits by blast
  obtain dow where dow: "(if 1 < length fs then get_range (fs ! 1) 7 (Some days) else Some 0x7f) = Some dow"
    "\<forall>k < 7. bit dow k \<longleftrightarrow> (1 < length fs \<longrightarrow> range_admits 7 (Some days) (fs ! 1) (int k))"
    using field_bits [of "Some days" 7 "1 < length fs" "fs ! 1", unfolded field_facts of_nat_numeral] field_facts(1-3) by auto
  obtain day where day: "(if 2 < length fs then get_range (fs ! 2) 31 None else Some 0x7fffffff) = Some day"
    "\<forall>k < 31. bit day k \<longleftrightarrow> (2 < length fs \<longrightarrow> range_admits 31 None (fs ! 2) (int k))"
    using field_bits [of None 31 "2 < length fs" "fs ! 2", unfolded field_facts of_nat_numeral] field_facts(1-3) by auto
  obtain mon where mon: "(if 3 < length fs then get_range (fs ! 3) 12 (Some months) else Some 0xfff) = Some mon"
    "\<forall>k < 12. bit mon k \<longleftrightarrow> (3 < length fs \<longrightarrow> range_admits 12 (Some months) (fs ! 3) (int k))"
    using field_bits [of "Some months" 12 "3 < length fs" "fs ! 3", unfolded field_facts of_nat_numeral] field_facts(1-3) by auto
  note b = build_timing_eq [OF assms(1) assms(2) [symmetric] mm(1) dow(1) day(1) mon(1), of i]
  obtain h m where hm: "tm_hour tm = int h" "tm_min tm = int m" "m < 60" "h < 24"
    using assms(9-12) by (metis zero_le_imp_eq_int of_nat_less_iff of_nat_numeral)
  have idx: "nat (tm_hour tm * 2 + (if 30 \<le> tm_min tm then 1 else 0)) = nat (tm_hour tm * 60 + tm_min tm) div 30"
    "nat (if 30 \<le> tm_min tm then tm_min tm - 30 else tm_min tm) = nat (tm_hour tm * 60 + tm_min tm) mod 30"
  proof -
    have n: "nat (tm_hour tm * 60 + tm_min tm) = h * 60 + m" using hm(1,2) by simp
    have m: "30 \<le> int m \<longleftrightarrow> 30 \<le> m" by simp
    show "nat (tm_hour tm * 2 + (if 30 \<le> tm_min tm then 1 else 0)) = nat (tm_hour tm * 60 + tm_min tm) div 30"
      unfolding n unfolding minute_index(1) [OF hm(3)] hm(1,2) m by (simp add: nat_add_distrib nat_mult_distrib)
    show "nat (if 30 \<le> tm_min tm then tm_min tm - 30 else tm_min tm) = nat (tm_hour tm * 60 + tm_min tm) mod 30"
      unfolding n unfolding minute_index(2) [OF hm(3)] hm(1,2) m by (simp add: nat_diff_distrib)
  qed
  have "bit (mm ! nat (tm_hour tm * 2 + (if 30 \<le> tm_min tm then 1 else 0)))
      (nat (if 30 \<le> tm_min tm then tm_min tm - 30 else tm_min tm)) = time_admits (fs ! 0) (tm_hour tm * 60 + tm_min tm)"
    unfolding idx using mm(3) assms(9-12) by (simp add: minute_bit_def)
  moreover have "bit mon (nat (tm_mon tm)) = (3 < length fs \<longrightarrow> range_admits 12 (Some months) (fs ! 3) (tm_mon tm))"
    using mon(2) [rule_format, of "nat (tm_mon tm)"] assms(3,4) by simp
  moreover have "bit day (nat (tm_mday tm - 1)) = (2 < length fs \<longrightarrow> range_admits 31 None (fs ! 2) (tm_mday tm - 1))"
    using day(2) [rule_format, of "nat (tm_mday tm - 1)"] assms(5,6) by simp
  moreover have "bit dow (nat (tm_wday tm)) = (1 < length fs \<longrightarrow> range_admits 7 (Some days) (fs ! 1) (tm_wday tm))"
    using dow(2) [rule_format, of "nat (tm_wday tm)"] assms(7,8) by simp
  moreover have "tris_check_timing (i\<lparr>timezone := zone_of info, minmask := mm, dowmask := dow, daymask := day, monthmask := mon\<rparr>) tm = 1
      \<longleftrightarrow> bit mon (nat (tm_mon tm)) \<and> bit day (nat (tm_mday tm - 1)) \<and> bit dow (nat (tm_wday tm)) \<and>
        bit (mm ! nat (tm_hour tm * 2 + (if 30 \<le> tm_min tm then 1 else 0)))
          (nat (if 30 \<le> tm_min tm then tm_min tm - 30 else tm_min tm))"
    using assms(9,10) by (simp add: tris_check_timing_def)
  ultimately show ?thesis unfolding b by - (rule exI, rule conjI [OF refl], rule conjI, simp, blast)
qed

theorem check_build_timing_witness:
  "\<exists>i'. tris_build_timing \<lparr>monthmask = 0, daymask = 0, dowmask = 0, minmask = [], timezone = None\<rparr> ''22:00-6:00,sat-sun''
      = Some (1, i') \<and> tris_check_timing i' \<lparr>tm_min = 30, tm_hour = 23, tm_mday = 4, tm_mon = 9, tm_wday = 0\<rparr> = 1"
proof -
  let ?s = "\<lambda>c. c = CHR ''|'' \<or> c = CHR '',''"
  have s: "split_on ?s ''22:00-6:00,sat-sun'' = [''22:00-6:00'', ''sat-sun'']" by simp
  have t: "time_admits ''22:00-6:00'' (23 * 60 + 30)"
    by (simp add: time_admits_def part_has_minute_def time_range_def valid_hm_def scan_2d_2d_def scan_2d_def scan_d_def
        isspace_def isdigit_def digits_val_def digit_val_def code_of_def cyclic_def Let_def)
  have d: "range_admits 7 (Some days) ''sat-sun'' 0"
    by (simp add: range_admits_def part_admits_def range_part_def lookup_name_def days_def strcaseeq_def
        code_of_def tolower_def isupper_def cyclic_def)
  show ?thesis
    using check_build_timing [of "''22:00-6:00,sat-sun''" _
        "\<lparr>tm_min = 30, tm_hour = 23, tm_mday = 4, tm_mon = 9, tm_wday = 0\<rparr>"
        "\<lparr>monthmask = 0, daymask = 0, dowmask = 0, minmask = [], timezone = None\<rparr>", OF _ refl]
    using t d unfolding s by auto
qed

text \<open>Claim C27. A mask never has a bit outside its range of values, and with correct names every
  element that is well formed sets at least its last value.\<close>

theorem get_range_typed:
  assumes "names_fit names lim" "0 < lim" "lim \<le> 31"
  shows "\<exists>m. get_range src lim names = Some m \<and> unat m < 2 ^ nat lim \<and>
    (\<forall>part \<in> set (split_on (\<lambda>c. c = CHR ''&'') src).
       \<forall>s e. range_part lim names part = Some (s, e) \<longrightarrow> bit m (nat s) \<and> bit m (nat e))"
proof -
  obtain m where m: "get_range src lim names = Some m"
    "\<forall>i < 32. bit m i \<longleftrightarrow> int i < lim \<and> range_admits lim names src (int i)"
    using get_range_bits [OF assms(1,2), of src] assms(3) by auto
  have "m = take_bit (nat lim) m"
  proof (rule bit_eqI)
    fix i assume "possible_bit TYPE(u32) i"
    then show "bit m i \<longleftrightarrow> bit (take_bit (nat lim) m) i" using m(2) assms(2) by (auto simp: bit_take_bit_iff)
  qed
  then have "unat m < 2 ^ nat lim"
    by (metis take_bit_nat_less_exp unsigned_take_bit_eq)
  moreover have "bit m (nat s) \<and> bit m (nat e)"
    if p: "part \<in> set (split_on (\<lambda>c. c = CHR ''&'') src)" and r: "range_part lim names part = Some (s, e)" for part s e
  proof -
    have b: "0 \<le> s" "s < lim" "0 \<le> e" "e < lim" using range_part_bounds [OF r assms(1,2)] by auto
    have "range_admits lim names src x" if "x = s \<or> x = e" for x
      using p r that by (auto simp: range_admits_def list_ex_iff part_admits_def cyclic_def intro!: bexI [of _ part])
    then show ?thesis using m(2) b assms(3) by auto
  qed
  ultimately show ?thesis using m(1) by blast
qed

theorem get_range_typed_witness: "\<exists>m. get_range ''sat-mon'' 7 (Some days) = Some m \<and> unat m < 2 ^ nat 7"
  using get_range_typed [of "Some days" 7 "''sat-mon''"] field_facts(1) by auto


end
