(* ===== verification/Astobj2.thy ===== *)
theory Astobj2
  imports Prelude "HOL-Library.Multiset"
begin

text \<open>
  Reference-counted objects and containers, \<open>main/astobj2.c\<close>.

  Objects live in a heap indexed by their addresses. A destructor is client code: what matters of it
  here are the references it drops, which an object of another kind than a container carries as a
  list. Callbacks and hash functions are parameters. The result \<open>None\<close> stands for touching memory
  that is not an object, for undefined arithmetic, and for a loop that never ends. Version numbers and
  counters are unbounded; locks, statistics and the debug variants, which add log entries, are left
  out.
\<close>

section \<open>Objects\<close>

type_synonym oid = nat

text \<open>One link of a bucket, a container, and an object: \<open>bl_version\<close> is the field \<open>version\<close> of
  \<open>struct bucket_list\<close>, \<open>c_version\<close> that of \<open>struct ao2_container\<close>, both of them an \<open>int\<close> that wraps
  when the container has changed often enough. \<open>bl_link\<close> stands for the address of the link, which is
  what the code unlinks by and what an iterator remembers; \<open>c_changes\<close>, no field of the code, counts
  the changes of the container and names its next link.\<close>

type_synonym i32 = "32 word"

record bucket_list =
  bl_link :: nat
  bl_version :: i32
  bl_obj :: oid

record ao2_container =
  hash_fn :: "oid \<Rightarrow> int"
  cmp_fn :: "oid \<Rightarrow> oid \<Rightarrow> bool \<times> bool"
  n_buckets :: nat
  elements :: int
  c_changes :: nat
  c_version :: i32
  buckets :: "bucket_list list list"

datatype payload = User "oid list" | Container ao2_container

record ao2_obj =
  ref_counter :: int
  user_data :: payload

type_synonym ao2_heap = "oid \<rightharpoonup> ao2_obj"

text \<open>The references that the destructor drops, in its order.\<close>

definition owned :: "payload \<Rightarrow> oid list" where
  "owned p = (case p of User os \<Rightarrow> os | Container c \<Rightarrow> concat (map (map bl_obj) (buckets c)))"

text \<open>A loop over a list whose body can fail.\<close>

fun ofold :: "('a \<Rightarrow> 's \<Rightarrow> 's option) \<Rightarrow> 'a list \<Rightarrow> 's \<Rightarrow> 's option" where
  "ofold f [] s = Some s"
| "ofold f (x # xs) s = Option.bind (f x s) (ofold f xs)"

lemma ofold_mono [partial_function_mono]:
  assumes "\<And>x s. mono_option (\<lambda>r. B r x s)"
  shows "mono_option (\<lambda>r. ofold (B r) xs s)"
proof (induction xs arbitrary: s)
  case (Cons x xs)
  have "mono_option (\<lambda>r. Option.bind (B r x s) (\<lambda>t. ofold (B r) xs t))"
    by (rule bind_mono [OF assms Cons])
  then show ?case by simp
qed (simp add: option.const_mono)

text \<open>\<open>__ao2_ref\<close>: the old counter. The last reference runs the destructor, then frees the object.\<close>

partial_function (option) ao2_ref :: "oid \<Rightarrow> int \<Rightarrow> ao2_heap \<Rightarrow> (int \<times> ao2_heap) option" where
  "ao2_ref p delta h =
     (case h p of
        None \<Rightarrow> None
      | Some obj \<Rightarrow>
          if delta = 0 then Some (ref_counter obj, h)
          else if ref_counter obj + delta \<le> 0 \<and> 0 < ref_counter obj
          then Option.bind
                 (ofold (\<lambda>x h. Option.bind (ao2_ref x (- 1) h) (\<lambda>r. Some (snd r))) (owned (user_data obj))
                    (h(p \<mapsto> obj\<lparr>ref_counter := ref_counter obj + delta\<rparr>)))
                 (\<lambda>h. Some (ref_counter obj, h(p := None)))
          else Some (ref_counter obj, h(p \<mapsto> obj\<lparr>ref_counter := ref_counter obj + delta\<rparr>)))"

text \<open>\<open>mem\<close> is the address \<open>tris_calloc\<close> returns, \<open>None\<close> when it fails.\<close>

definition ao2_alloc :: "oid option \<Rightarrow> payload \<Rightarrow> ao2_heap \<Rightarrow> oid option \<times> ao2_heap" where
  "ao2_alloc mem d h =
     (case mem of
        None \<Rightarrow> (None, h)
      | Some p \<Rightarrow> (Some p, h(p \<mapsto> \<lparr>ref_counter = 1, user_data = d\<rparr>)))"

section \<open>Containers\<close>

definition hash_zero :: "oid \<Rightarrow> int" where "hash_zero p = 0"

definition new_container ::
  "nat \<Rightarrow> (oid \<Rightarrow> int) option \<Rightarrow> (oid \<Rightarrow> oid \<Rightarrow> bool \<times> bool) \<Rightarrow> ao2_container" where
  "new_container n hash cmp =
     \<lparr>hash_fn = (case hash of None \<Rightarrow> hash_zero | Some f \<Rightarrow> f), cmp_fn = cmp, n_buckets = n,
      elements = 0, c_changes = 1, c_version = 1, buckets = replicate n []\<rparr>"

definition ao2_container_alloc ::
  "oid option \<Rightarrow> nat \<Rightarrow> (oid \<Rightarrow> int) option \<Rightarrow> (oid \<Rightarrow> oid \<Rightarrow> bool \<times> bool) \<Rightarrow> ao2_heap \<Rightarrow> oid option \<times> ao2_heap" where
  "ao2_container_alloc mem n hash cmp h = ao2_alloc mem (Container (new_container n hash cmp)) h"

definition ao2_container_count :: "ao2_container \<Rightarrow> int" where
  "ao2_container_count c = elements c"

text \<open>\<open>abs\<close> of the least \<open>int\<close> and division by no buckets are undefined.\<close>

definition link_bucket :: "ao2_container \<Rightarrow> oid \<Rightarrow> nat option" where
  "link_bucket c p =
     (if n_buckets c = 0 \<or> hash_fn c p = - (2 ^ 31) then None
      else Some (nat \<bar>hash_fn c p\<bar> mod n_buckets c))"

definition link_entry :: "nat \<Rightarrow> oid \<Rightarrow> ao2_container \<Rightarrow> ao2_container" where
  "link_entry i p c =
     c\<lparr>c_changes := c_changes c + 1, c_version := c_version c + 1, elements := elements c + 1,
       buckets := (buckets c)[i := buckets c ! i @ [\<lparr>bl_link = c_changes c, bl_version = c_version c, bl_obj = p\<rparr>]]\<rparr>"

definition unlink_entry :: "nat \<Rightarrow> bucket_list \<Rightarrow> ao2_container \<Rightarrow> ao2_container" where
  "unlink_entry i e c =
     c\<lparr>c_changes := c_changes c + 1, c_version := c_version c + 1, elements := elements c - 1,
       buckets := (buckets c)[i := filter (\<lambda>x. bl_link x \<noteq> bl_link e) (buckets c ! i)]\<rparr>"

definition the_container :: "ao2_heap \<Rightarrow> oid \<Rightarrow> ao2_container option" where
  "the_container h q =
     (case h q of Some obj \<Rightarrow> (case user_data obj of Container c \<Rightarrow> Some c | _ \<Rightarrow> None) | None \<Rightarrow> None)"

definition set_container :: "oid \<Rightarrow> ao2_container \<Rightarrow> ao2_heap \<Rightarrow> ao2_heap" where
  "set_container q c h = h(q := map_option (\<lambda>obj. obj\<lparr>user_data := Container c\<rparr>) (h q))"

text \<open>Linking: whether it happened; \<open>mem\<close> tells whether the link could be allocated.\<close>

definition ao2_link :: "bool \<Rightarrow> oid \<Rightarrow> oid \<Rightarrow> ao2_heap \<Rightarrow> (bool \<times> ao2_heap) option" where
  "ao2_link mem q p h =
     (case the_container h q of
        None \<Rightarrow> None
      | Some c \<Rightarrow>
          if h p = None then None
          else if \<not> mem then Some (False, h)
          else Option.bind (link_bucket c p)
                 (\<lambda>i. Option.bind (ao2_ref p 1 (set_container q (link_entry i p c) h)) (\<lambda>r. Some (True, snd r))))"

section \<open>Searching\<close>

record search_flags =
  OBJ_UNLINK :: bool
  OBJ_NODATA :: bool
  OBJ_MULTIPLE :: bool
  OBJ_POINTER :: bool
  OBJ_CONTINUE :: bool

text \<open>What is done with one matching link: the object returned, and the heap.\<close>

definition visit_match ::
  "search_flags \<Rightarrow> oid \<Rightarrow> nat \<Rightarrow> bucket_list \<Rightarrow> ao2_heap \<Rightarrow> (oid option \<times> ao2_heap) option" where
  "visit_match fl q i e h =
     Option.bind
       (if OBJ_NODATA fl then Some (None, h)
        else Option.bind (ao2_ref (bl_obj e) 1 h) (\<lambda>r. Some (Some (bl_obj e), snd r)))
       (\<lambda>(ret, h).
          if OBJ_UNLINK fl
          then (case the_container h q of
                  None \<Rightarrow> None
                | Some c \<Rightarrow>
                    Option.bind (ao2_ref (bl_obj e) (- 1) (set_container q (unlink_entry i e c) h))
                      (\<lambda>r. Some (ret, snd r)))
          else Some (ret, h))"

text \<open>One bucket: whether the search was told to stop, the object to return, and the heap.\<close>

fun scan_bucket ::
  "search_flags \<Rightarrow> (oid \<Rightarrow> bool \<times> bool) \<Rightarrow> oid \<Rightarrow> nat \<Rightarrow> bucket_list list \<Rightarrow> oid option \<Rightarrow> ao2_heap
     \<Rightarrow> (bool \<times> oid option \<times> ao2_heap) option" where
  "scan_bucket fl cb q i [] ret h = Some (False, ret, h)"
| "scan_bucket fl cb q i (e # es) ret h =
     (case cb (bl_obj e) of
        (False, False) \<Rightarrow> scan_bucket fl cb q i es ret h
      | (False, True) \<Rightarrow> Some (True, ret, h)
      | (True, stop) \<Rightarrow>
          (case visit_match fl q i e h of
             None \<Rightarrow> None
           | Some (r, h) \<Rightarrow>
               let ret = (if OBJ_NODATA fl then ret else r)
               in if stop \<or> \<not> OBJ_MULTIPLE fl then Some (True, ret, h)
                  else scan_bucket fl cb q i es ret h))"

partial_function (option) callback_loop ::
  "search_flags \<Rightarrow> (oid \<Rightarrow> bool \<times> bool) \<Rightarrow> oid \<Rightarrow> int \<Rightarrow> int \<Rightarrow> int \<Rightarrow> ao2_heap \<Rightarrow> (oid option \<times> ao2_heap) option" where
  "callback_loop fl cb q start i lim h =
     (if \<not> i < lim then Some (None, h)
      else
        (case the_container h q of
           None \<Rightarrow> None
         | Some c \<Rightarrow>
             (case scan_bucket fl cb q (nat i) (buckets c ! nat i) None h of
                None \<Rightarrow> None
              | Some (stopped, ret, h) \<Rightarrow>
                  (let i = (if stopped then lim else i)
                   in if ret \<noteq> None then Some (ret, h)
                      else if i = int (n_buckets c) - 1 \<and> OBJ_POINTER fl \<and> OBJ_CONTINUE fl
                      then callback_loop fl cb q start 0 start h
                      else callback_loop fl cb q start (i + 1) lim h))))"

text \<open>The whole search. The remainder of a negative hash value is negative, and then all buckets are
  searched. Asking for several objects to be returned is refused.\<close>

definition ao2_callback ::
  "search_flags \<Rightarrow> (oid \<Rightarrow> bool \<times> bool) \<Rightarrow> oid \<Rightarrow> oid \<Rightarrow> ao2_heap \<Rightarrow> (oid option \<times> ao2_heap) option" where
  "ao2_callback fl cb q arg h =
     (case the_container h q of
        None \<Rightarrow> None
      | Some c \<Rightarrow>
          if OBJ_MULTIPLE fl \<and> \<not> OBJ_NODATA fl then Some (None, h)
          else if OBJ_POINTER fl \<and> n_buckets c = 0 then None
          else
            (let i = (if OBJ_POINTER fl then cmod (hash_fn c arg) (int (n_buckets c)) else - 1);
                 lim = (if i < 0 \<or> OBJ_CONTINUE fl then int (n_buckets c) else i + 1);
                 start = (if i < 0 then 0 else i)
             in callback_loop fl cb q start start lim h))"

definition cb_true :: "oid \<Rightarrow> bool \<times> bool" where "cb_true p = (True, False)"

definition ao2_match_by_addr :: "oid \<Rightarrow> oid \<Rightarrow> bool \<times> bool" where
  "ao2_match_by_addr arg p = (if p = arg then (True, True) else (False, False))"

definition ao2_unlink :: "oid \<Rightarrow> oid \<Rightarrow> ao2_heap \<Rightarrow> ao2_heap option" where
  "ao2_unlink q p h =
     (if h p = None then None
      else map_option snd
        (ao2_callback \<lparr>OBJ_UNLINK = True, OBJ_NODATA = True, OBJ_MULTIPLE = False, OBJ_POINTER = True, OBJ_CONTINUE = False\<rparr>
           (ao2_match_by_addr p) q p h))"

definition ao2_find :: "search_flags \<Rightarrow> oid \<Rightarrow> oid \<Rightarrow> ao2_heap \<Rightarrow> (oid option \<times> ao2_heap) option" where
  "ao2_find fl q arg h =
     (case the_container h q of
        None \<Rightarrow> None
      | Some c \<Rightarrow> ao2_callback fl (\<lambda>p. cmp_fn c p arg) q arg h)"

section \<open>Iterators\<close>

text \<open>The pointer \<open>obj\<close> to the current link is the link's name, \<open>bl_link\<close>. The versions are compared as
  signed numbers.\<close>

record ao2_iterator =
  bucket :: nat
  it_c_version :: i32
  it_obj :: "nat option"
  it_version :: i32

definition iterator_start :: ao2_iterator where
  "iterator_start = \<lparr>bucket = 0, it_c_version = 0, it_obj = None, it_version = 0\<rparr>"

fun after_entry :: "nat \<Rightarrow> bucket_list list \<Rightarrow> bucket_list option" where
  "after_entry v [] = None"
| "after_entry v (e # es) =
     (if bl_link e = v then (case es of [] \<Rightarrow> None | f # _ \<Rightarrow> Some f) else after_entry v es)"

text \<open>The search over the remaining buckets: where it ended, and what it found.\<close>

function browse :: "bucket_list list list \<Rightarrow> nat \<Rightarrow> i32 \<Rightarrow> nat \<times> i32 \<times> bucket_list option" where
  "browse bs b v =
     (if b < length bs
      then (case find (\<lambda>e. sint v < sint (bl_version e)) (bs ! b) of
              Some e \<Rightarrow> (b, v, Some e)
            | None \<Rightarrow> browse bs (b + 1) 0)
      else (b, v, None))"
  by pat_completeness auto
termination by (relation "measure (\<lambda>(bs, b, v). length bs - b)") auto

declare browse.simps [simp del]

definition iterator_next :: "ao2_container \<Rightarrow> ao2_iterator \<Rightarrow> bucket_list option \<times> ao2_iterator" where
  "iterator_next c a =
     (let cached = c_version c = it_c_version a \<and> it_obj a \<noteq> None;
          next = (if cached then after_entry (the (it_obj a)) (buckets c ! bucket a) else None);
          a = (if cached \<and> next = None then a\<lparr>bucket := bucket a + 1, it_version := 0, it_obj := None\<rparr> else a);
          (a, found) =
            (if next \<noteq> None then (a, next)
             else (case browse (buckets c) (bucket a) (it_version a) of
                     (b, v, r) \<Rightarrow> (a\<lparr>bucket := b, it_version := v\<rparr>, r)))
      in case found of
           None \<Rightarrow> (None, a)
         | Some p \<Rightarrow>
             (Some p, a\<lparr>it_version := bl_version p, it_obj := Some (bl_link p), it_c_version := c_version c\<rparr>))"

definition ao2_iterator_init :: "oid \<Rightarrow> ao2_heap \<Rightarrow> (ao2_iterator \<times> ao2_heap) option" where
  "ao2_iterator_init q h = Option.bind (ao2_ref q 1 h) (\<lambda>r. Some (iterator_start, snd r))"

definition ao2_iterator_destroy :: "oid \<Rightarrow> ao2_heap \<Rightarrow> ao2_heap option" where
  "ao2_iterator_destroy q h = Option.bind (ao2_ref q (- 1) h) (\<lambda>r. Some (snd r))"

text \<open>The saved pointer is followed when the versions are equal. That its link is still there then is not
  checked: after \<open>2 ^ 32\<close> changes the versions are equal again, and the link may have been freed.\<close>

definition dangling :: "ao2_container \<Rightarrow> ao2_iterator \<Rightarrow> bool" where
  "dangling c a \<longleftrightarrow> c_version c = it_c_version a \<and>
     (case it_obj a of None \<Rightarrow> False | Some l \<Rightarrow> bucket a \<ge> length (buckets c) \<or> l \<notin> bl_link ` set (buckets c ! bucket a))"

definition ao2_iterator_next :: "oid \<Rightarrow> ao2_iterator \<Rightarrow> ao2_heap \<Rightarrow> (oid option \<times> ao2_iterator \<times> ao2_heap) option" where
  "ao2_iterator_next q a h =
     (case the_container h q of
        None \<Rightarrow> None
      | Some c \<Rightarrow>
          if dangling c a then None
          else (case iterator_next c a of
             (None, a) \<Rightarrow> Some (None, a, h)
           | (Some e, a) \<Rightarrow> Option.bind (ao2_ref (bl_obj e) 1 h) (\<lambda>r. Some (Some (bl_obj e), a, snd r))))"

section \<open>Reference counts\<close>

text \<open>The references held by the objects of a set, and the invariant: \<open>ext\<close> are the references held
  outside the heap, \<open>D\<close> the objects whose destructors are running.\<close>

definition held :: "oid set \<Rightarrow> ao2_heap \<Rightarrow> oid multiset" where
  "held A h = (\<Sum>p \<in> A. mset (owned (user_data (the (h p)))))"

definition refs_inv :: "oid multiset \<Rightarrow> oid set \<Rightarrow> ao2_heap \<Rightarrow> bool" where
  "refs_inv ext D h \<longleftrightarrow> finite (dom h) \<and> D \<subseteq> dom h \<and>
     (\<forall>p. p \<notin> dom h - D \<longrightarrow> count (ext + held (dom h - D) h) p = 0) \<and>
     (\<forall>p \<in> dom h - D. 0 < ref_counter (the (h p)) \<and>
        ref_counter (the (h p)) = int (count (ext + held (dom h - D) h) p))"

definition total_refs :: "oid set \<Rightarrow> ao2_heap \<Rightarrow> nat" where
  "total_refs D h = (\<Sum>p \<in> dom h - D. nat (ref_counter (the (h p))))"

text \<open>What releasing references may do to a heap: objects disappear, counters change, but the
  contents of objects and the objects of \<open>D\<close> stay.\<close>

definition released :: "oid set \<Rightarrow> ao2_heap \<Rightarrow> ao2_heap \<Rightarrow> bool" where
  "released D h h' \<longleftrightarrow> dom h' \<subseteq> dom h \<and> (\<forall>p \<in> D. h' p = h p) \<and>
     (\<forall>p \<in> dom h'. user_data (the (h' p)) = user_data (the (h p)) \<and> ref_counter (the (h' p)) \<le> ref_counter (the (h p)))"

lemma released_trans: "\<lbrakk>released D h h'; released D h' h''\<rbrakk> \<Longrightarrow> released D h h''"
  unfolding released_def by (metis (no_types, lifting) order_trans subsetD)

lemma released_refl [simp]: "released D h h"
  by (simp add: released_def)

lemma refs_inv_in:
  "refs_inv ext D h \<Longrightarrow> p \<in> dom h - D \<Longrightarrow>
     0 < ref_counter (the (h p)) \<and> ref_counter (the (h p)) = int (count (ext + held (dom h - D) h) p)"
  unfolding refs_inv_def by blast

lemma refs_inv_out: "refs_inv ext D h \<Longrightarrow> p \<notin> dom h - D \<Longrightarrow> count (ext + held (dom h - D) h) p = 0"
  unfolding refs_inv_def by blast

lemma held_cong: "(\<And>p. p \<in> A \<Longrightarrow> user_data (the (h p)) = user_data (the (h' p))) \<Longrightarrow> held A h = held A h'"
  by (simp add: held_def)

lemma total_refs_le:
  assumes "released D h h'" "finite (dom h)"
  shows "total_refs D h' \<le> total_refs D h"
proof -
  have "(\<Sum>p \<in> dom h' - D. nat (ref_counter (the (h' p)))) \<le> (\<Sum>p \<in> dom h' - D. nat (ref_counter (the (h p))))"
    using assms(1) unfolding released_def by (intro sum_mono nat_mono) blast
  also have "\<dots> \<le> (\<Sum>p \<in> dom h - D. nat (ref_counter (the (h p))))"
    using assms by (intro sum_mono2) (auto simp: released_def)
  finally show ?thesis by (simp add: total_refs_def)
qed

lemma ao2_ref_more:
  "h p = Some obj \<Longrightarrow> 0 < ref_counter obj + d \<Longrightarrow> d \<noteq> 0 \<Longrightarrow>
     ao2_ref p d h = Some (ref_counter obj, h(p \<mapsto> obj\<lparr>ref_counter := ref_counter obj + d\<rparr>))"
  by (subst ao2_ref.simps) simp

text \<open>Changing a counter.\<close>

lemma refs_inv_count:
  assumes "refs_inv ext D h" "h p = Some obj" "p \<notin> D" "0 < ref_counter obj + d"
    and "\<And>x. int (count ext' x) = int (count ext x) + (if x = p then d else 0)"
  shows "refs_inv ext' D (h(p \<mapsto> obj\<lparr>ref_counter := ref_counter obj + d\<rparr>))"
proof -
  let ?h = "h(p \<mapsto> obj\<lparr>ref_counter := ref_counter obj + d\<rparr>)"
  have dom: "dom ?h = dom h" using assms(2) by auto
  have held: "held (dom h - D) ?h = held (dom h - D) h"
    using assms(2) by (intro held_cong) (simp add: fun_upd_def)
  have fin: "finite (dom h)" "D \<subseteq> dom h" and pD: "p \<in> dom h - D"
    using assms(1-3) by (auto simp: refs_inv_def)
  have out: "count (ext + held (dom h - D) h) x = 0" if "x \<notin> dom h - D" for x
    using assms(1) that by (auto simp: refs_inv_def)
  have ins: "0 < ref_counter (the (h x))" "ref_counter (the (h x)) = int (count (ext + held (dom h - D) h) x)"
    if "x \<in> dom h - D" for x
    using assms(1) that unfolding refs_inv_def by blast+
  have cnt: "int (count (ext' + held (dom h - D) h) x) = int (count (ext + held (dom h - D) h) x) + (if x = p then d else 0)" for x
    using assms(5) [of x] by simp
  have "count (ext' + held (dom h - D) h) x = 0" if "x \<notin> dom h - D" for x
    using cnt [of x] out [OF that] that pD by (auto split: if_splits)
  moreover have "0 < ref_counter (the (?h x)) \<and> ref_counter (the (?h x)) = int (count (ext' + held (dom h - D) h) x)"
    if "x \<in> dom h - D" for x
    unfolding cnt using ins [OF that] assms(2,4) by (cases "x = p") simp_all
  ultimately show ?thesis unfolding refs_inv_def dom held using fin by blast
qed

text \<open>The last reference: the object joins those being destroyed, and its references become its
  destructor's to drop.\<close>

lemma held_insert: "finite A \<Longrightarrow> p \<notin> A \<Longrightarrow> held (insert p A) h = mset (owned (user_data (the (h p)))) + held A h"
  by (simp add: held_def)

lemma refs_inv_destroy:
  assumes "refs_inv (add_mset p ext) D h" "h p = Some obj" "p \<notin> D" "ref_counter obj = 1"
  shows "refs_inv (ext + mset (owned (user_data obj))) (insert p D) (h(p \<mapsto> obj\<lparr>ref_counter := 0\<rparr>))"
proof -
  let ?h = "h(p \<mapsto> obj\<lparr>ref_counter := 0\<rparr>)" and ?A = "dom h - insert p D"
  have dom: "dom ?h = dom h" using assms(2) by auto
  have fin: "finite ?A" using assms(1) by (simp add: refs_inv_def)
  have A: "dom h - D = insert p ?A" using assms(2,3) by auto
  have "held ?A ?h = held ?A h" by (intro held_cong) auto
  moreover have "held (dom h - D) h = mset (owned (user_data obj)) + held ?A h"
    unfolding A using held_insert [OF fin, of p h] assms(2) by simp
  ultimately have e: "ext + mset (owned (user_data obj)) + held ?A ?h = ext + held (dom h - D) h"
    by simp
  have pD: "p \<in> dom h - D" using assms(2,3) by auto
  have out: "count (ext + held (dom h - D) h) x = 0" if "x \<notin> dom h - D" for x
    using assms(1) that unfolding refs_inv_def by (metis add_mset_add_single count_add_mset union_mset_add_mset_left Suc_neq_Zero)
  have ins: "0 < ref_counter (the (h x)) \<and>
      ref_counter (the (h x)) = int (count (ext + held (dom h - D) h) x) + (if x = p then 1 else 0)"
    if "x \<in> dom h - D" for x
    using refs_inv_in [OF assms(1) that] by simp
  have "count (ext + held (dom h - D) h) p = 0" using ins [OF pD] assms(2,4) by simp
  then have "count (ext + held (dom h - D) h) x = 0" if "x \<notin> ?A" for x
    using out [of x] that by (cases "x = p") auto
  moreover have "0 < ref_counter (the (?h x)) \<and> ref_counter (the (?h x)) = int (count (ext + held (dom h - D) h) x)"
    if "x \<in> ?A" for x
    using ins [of x] that by simp
  ultimately show ?thesis
    unfolding refs_inv_def dom e using assms(1,2) by (auto simp: refs_inv_def)
qed

lemma refs_inv_free:
  assumes "refs_inv ext (insert p D) h" "p \<notin> D"
  shows "refs_inv ext D (h(p := None))"
proof -
  have A: "dom (h(p := None)) - D = dom h - insert p D" by auto
  have "held (dom h - insert p D) (h(p := None)) = held (dom h - insert p D) h" by (intro held_cong) auto
  moreover have "the ((h(p := None)) x) = the (h x)" if "x \<in> dom h - insert p D" for x using that by auto
  ultimately show ?thesis
    using assms refs_inv_in [OF assms(1)] refs_inv_out [OF assms(1)] unfolding refs_inv_def [of _ D] A
    by (auto simp: refs_inv_def [of _ "insert p D"])
qed


abbreviation unref_all :: "oid list \<Rightarrow> ao2_heap \<Rightarrow> ao2_heap option" where
  "unref_all \<equiv> ofold (\<lambda>x h. Option.bind (ao2_ref x (- 1) h) (\<lambda>r. Some (snd r)))"

definition unref_ok :: "nat \<Rightarrow> bool" where
  "unref_ok n \<longleftrightarrow> (\<forall>p ext D h. total_refs D h < n \<longrightarrow> refs_inv (add_mset p ext) D h \<longrightarrow>
     (\<exists>r h'. ao2_ref p (- 1) h = Some (r, h') \<and> refs_inv ext D h' \<and> released D h h'))"

lemma unref_all_ok:
  assumes "unref_ok n" "total_refs D h < n" "refs_inv (ext + mset xs) D h"
  shows "\<exists>h'. unref_all xs h = Some h' \<and> refs_inv ext D h' \<and> released D h h'"
  using assms(2,3)
proof (induction xs arbitrary: h)
  case (Cons x xs)
  have "refs_inv (add_mset x (ext + mset xs)) D h" using Cons.prems(2) by simp
  then obtain r h1 where h1: "ao2_ref x (- 1) h = Some (r, h1)" "refs_inv (ext + mset xs) D h1" "released D h h1"
    using assms(1) Cons.prems(1) unfolding unref_ok_def by meson
  have "total_refs D h1 < n"
    using total_refs_le [OF h1(3)] Cons.prems by (auto simp: refs_inv_def)
  then obtain h2 where "unref_all xs h1 = Some h2" "refs_inv ext D h2" "released D h1 h2"
    using Cons.IH h1(2) by blast
  then show ?case using h1(1,3) released_trans by auto
qed simp

lemma total_refs_destroy:
  assumes "finite (dom h)" "h p = Some obj" "p \<notin> D" "0 < ref_counter obj"
  shows "total_refs (insert p D) (h(p \<mapsto> obj')) < total_refs D h"
proof -
  let ?A = "dom h - insert p D"
  have A: "dom h - D = insert p ?A" "dom (h(p \<mapsto> obj')) - insert p D = ?A" using assms(2,3) by auto
  have "(\<Sum>x \<in> ?A. nat (ref_counter (the ((h(p \<mapsto> obj')) x)))) = (\<Sum>x \<in> ?A. nat (ref_counter (the (h x))))"
    by (intro sum.cong) auto
  then show ?thesis unfolding total_refs_def A using assms(1,2,4) by simp
qed

lemma ao2_unref_step:
  assumes "unref_ok n" "total_refs D h \<le> n" "refs_inv (add_mset p ext) D h"
  shows "\<exists>r h'. ao2_ref p (- 1) h = Some (r, h') \<and> refs_inv ext D h' \<and> released D h h'"
proof -
  have pD: "p \<in> dom h - D"
  proof (rule ccontr)
    assume "p \<notin> dom h - D"
    from refs_inv_out [OF assms(3) this] show False by simp
  qed
  then obtain obj where obj: "h p = Some obj" "p \<notin> D" by auto
  have pos: "0 < ref_counter obj" using refs_inv_in [OF assms(3) pD] obj(1) by simp
  show ?thesis
  proof (cases "ref_counter obj = 1")
    case False
    let ?h = "h(p \<mapsto> obj\<lparr>ref_counter := ref_counter obj + - 1\<rparr>)"
    have "ao2_ref p (- 1) h = Some (ref_counter obj, ?h)"
      using ao2_ref_more [of h p obj "- 1"] obj(1) pos False by simp
    moreover have "refs_inv ext D ?h"
      by (rule refs_inv_count [OF assms(3) obj]) (use pos False in auto)
    moreover have "released D h ?h" using obj by (auto simp: released_def)
    ultimately show ?thesis by blast
  next
    case True
    let ?h = "h(p \<mapsto> obj\<lparr>ref_counter := 0\<rparr>)"
    have "total_refs (insert p D) ?h < n"
      using total_refs_destroy [of h p obj D] obj pos assms(2,3) by (meson less_le_trans refs_inv_def)
    then obtain h1 where h1: "unref_all (owned (user_data obj)) ?h = Some h1" "refs_inv ext (insert p D) h1"
      "released (insert p D) ?h h1"
      using unref_all_ok [OF assms(1)] refs_inv_destroy [OF assms(3) obj True] by blast
    have "ao2_ref p (- 1) h = Some (1, h1(p := None))"
      using True obj(1) h1(1) by (subst ao2_ref.simps) simp
    moreover have "refs_inv ext D (h1(p := None))" by (rule refs_inv_free [OF h1(2) obj(2)])
    moreover have "released D h (h1(p := None))"
      using h1(3) obj by (auto simp: released_def split: if_splits)
    ultimately show ?thesis by blast
  qed
qed

lemma unref_ok: "unref_ok n"
proof (induction n)
  case (Suc n)
  then show ?case unfolding unref_ok_def [of "Suc n"] less_Suc_eq_le using ao2_unref_step by blast
qed (simp add: unref_ok_def)

lemma ao2_unref_inv:
  "refs_inv (add_mset p ext) D h \<Longrightarrow>
     \<exists>r h'. ao2_ref p (- 1) h = Some (r, h') \<and> refs_inv ext D h' \<and> released D h h'"
  using ao2_unref_step [OF unref_ok order_refl] .


text \<open>Claim C12. Dropping a reference is safe: if the counters are the numbers of references held from
  outside and by objects, then dropping an outside reference ends, whatever cascade of destructors it
  starts, touches no freed object, and leaves the counters exact; an object is still there if and only
  if a reference to it is, and the contents of the objects that stay do not change.\<close>

theorem ao2_unref_safe:
  assumes "refs_inv (add_mset p ext) {} h"
  shows "\<exists>r h'. ao2_ref p (- 1) h = Some (r, h') \<and> refs_inv ext {} h' \<and> dom h' \<subseteq> dom h \<and>
    (\<forall>x. x \<in> dom h' \<longleftrightarrow> x \<in># ext + held (dom h') h') \<and>
    (\<forall>x \<in> dom h'. user_data (the (h' x)) = user_data (the (h x)))"
proof -
  obtain r h' where h': "ao2_ref p (- 1) h = Some (r, h')" "refs_inv ext {} h'" "released {} h h'"
    using ao2_unref_inv [OF assms] by blast
  have "x \<in> dom h' \<longleftrightarrow> x \<in># ext + held (dom h') h'" for x
  proof
    assume "x \<in> dom h'"
    then have "0 < int (count (ext + held (dom h') h') x)" using refs_inv_in [OF h'(2), of x] by auto
    then show "x \<in># ext + held (dom h') h'" by (simp only: count_greater_zero_iff of_nat_0_less_iff)
  next
    assume x: "x \<in># ext + held (dom h') h'"
    show "x \<in> dom h'"
    proof (rule ccontr)
      assume "x \<notin> dom h'"
      then have "count (ext + held (dom h') h') x = 0" using refs_inv_out [OF h'(2), of x] by simp
      then have "x \<notin># ext + held (dom h') h'" by (rule count_eq_zero_iff [THEN iffD1])
      then show False using x by blast
    qed
  qed
  then show ?thesis using h' by (auto simp: released_def)
qed

text \<open>A heap of an object 2 owned by 1, which an outside reference keeps.\<close>

definition sample_heap :: ao2_heap where
  "sample_heap = [1 \<mapsto> \<lparr>ref_counter = 1, user_data = User [2]\<rparr>, 2 \<mapsto> \<lparr>ref_counter = 1, user_data = User []\<rparr>]"

theorem ao2_unref_safe_witness:
  "\<exists>r h'. ao2_ref 1 (- 1) sample_heap = Some (r, h') \<and> dom h' = {}"
proof -
  have dom: "dom sample_heap = {1, 2}" by (auto simp: sample_heap_def)
  have "refs_inv (add_mset 1 {#}) {} sample_heap"
    unfolding refs_inv_def dom by (auto simp: held_def sample_heap_def owned_def)
  from ao2_unref_safe [OF this] obtain r h' where h': "ao2_ref 1 (- 1) sample_heap = Some (r, h')"
    "dom h' \<subseteq> {1, 2}" "\<forall>x. x \<in> dom h' \<longleftrightarrow> x \<in># held (dom h') h'"
    "\<forall>x \<in> dom h'. user_data (the (h' x)) = user_data (the (sample_heap x))"
    unfolding dom by auto
  have no: "x \<notin># held (dom h') h'" if "x \<noteq> 2" for x
  proof -
    have "set (owned (user_data (the (h' y)))) \<subseteq> {2}" if "y \<in> dom h'" for y
      using h'(2,4) that by (auto simp: sample_heap_def owned_def split: if_splits)
    moreover have "finite (dom h')" using h'(2) finite_subset by blast
    ultimately show ?thesis using that by (auto simp: held_def set_mset_sum)
  qed
  then have "1 \<notin> dom h'" using h'(3) no [of 1] by simp
  then have "dom h' = {} \<or> dom h' = {2}" using h'(2) by blast
  moreover have "dom h' \<noteq> {2}"
  proof
    assume d: "dom h' = {2}"
    then have "user_data (the (h' 2)) = User []" using h'(4) by (simp add: sample_heap_def)
    then have "held (dom h') h' = {#}" unfolding d by (simp add: held_def owned_def)
    then show False using h'(3) d by auto
  qed
  ultimately show ?thesis using h'(1) by blast
qed

end
