(* ===== verification/Ao2Container.thy ===== *)
theory Ao2Container
  imports Astobj2
begin

text \<open>
  The containers of \<open>main/astobj2.c\<close>: what linking, unlinking and the search leave of a container,
  on top of the reference counts of \<open>Astobj2\<close>.
\<close>

section \<open>Container operations\<close>

text \<open>Moving references between the outside and an object's contents.\<close>

lemma refs_inv_payload:
  assumes "refs_inv ext D h" "h q = Some obj" "q \<notin> D"
    and "ext + mset (owned (user_data obj)) = ext' + mset (owned d)"
  shows "refs_inv ext' D (h(q \<mapsto> obj\<lparr>user_data := d\<rparr>))"
proof -
  let ?h = "h(q \<mapsto> obj\<lparr>user_data := d\<rparr>)"
  have dom: "dom ?h = dom h" using assms(2) by auto
  obtain A where A: "dom h - D = insert q A" "q \<notin> A" "finite A"
    using assms(1-3) by (metis Diff_iff domI finite_Diff finite_insert mk_disjoint_insert refs_inv_def)
  have "held A ?h = held A h" using A(2) by (intro held_cong) auto
  then have e: "ext' + held (dom h - D) ?h = ext + held (dom h - D) h"
    unfolding A(1) held_insert [OF A(3,2)] using assms(2,4) by (simp add: add.assoc [symmetric])
  have "ref_counter (the (?h x)) = ref_counter (the (h x))" for x using assms(2) by simp
  then show ?thesis
    using assms(1) unfolding refs_inv_def dom e by (simp, metis)
qed

definition link_ok :: "ao2_container \<Rightarrow> nat \<Rightarrow> bool" where
  "link_ok c i \<longleftrightarrow> sorted_wrt (<) (map bl_link (buckets c ! i)) \<and>
     (\<forall>e \<in> set (buckets c ! i). 0 < bl_link e \<and> bl_link e < c_changes c)"

definition cont_ok :: "ao2_container \<Rightarrow> bool" where
  "cont_ok c \<longleftrightarrow> length (buckets c) = n_buckets c \<and> 0 < n_buckets c \<and> 0 < c_changes c \<and>
     elements c = int (length (concat (buckets c))) \<and> (\<forall>i < n_buckets c. link_ok c i)"

lemma new_container_ok: "0 < n \<Longrightarrow> cont_ok (new_container n hash cmp)"
  by (simp add: cont_ok_def new_container_def link_ok_def)

lemma concat_update:
  "i < length xs \<Longrightarrow> mset (concat (map (map f) (xs[i := ys]))) + mset (map f (xs ! i)) = mset (concat (map (map f) xs)) + mset (map f ys)"
proof (induction xs arbitrary: i)
  case (Cons x xs)
  then show ?case by (cases i) (simp_all add: ac_simps)
qed simp

lemma length_concat_update:
  "i < length xs \<Longrightarrow> length (concat (xs[i := ys])) + length (xs ! i) = length (concat xs) + length ys"
  by (induction xs arbitrary: i) (auto split: nat.splits simp: nth_Cons')

lemma link_entry_ok:
  assumes "cont_ok c" "i < n_buckets c"
  shows "cont_ok (link_entry i p c)"
proof -
  have l: "link_ok c j" if "j < n_buckets c" for j using assms(1) that by (simp add: cont_ok_def)
  have "length (concat ((buckets c)[i := buckets c ! i @ [e]])) = length (concat (buckets c)) + 1" for e
    using length_concat_update [of i "buckets c" "buckets c ! i @ [e]"] assms by (simp add: cont_ok_def)
  moreover have "link_ok (link_entry i p c) j" if "j < n_buckets c" for j
    using l [OF that] l [OF assms(2)] assms that
    by (cases "j = i") (auto simp: link_ok_def link_entry_def cont_ok_def sorted_wrt_append less_SucI)
  ultimately show ?thesis using assms by (simp add: cont_ok_def link_entry_def)
qed

lemma remove_one_link:
  assumes "sorted_wrt (<) (map bl_link xs)" "e \<in> set xs"
  shows "mset (filter (\<lambda>x. bl_link x \<noteq> bl_link e) xs) = mset xs - {#e#}"
  using assms
proof (induction xs)
  case (Cons x xs)
  show ?case
  proof (cases "x = e")
    case True
    then have "\<forall>y \<in> set xs. bl_link y \<noteq> bl_link e" using Cons.prems by auto
    then show ?thesis using True by (simp add: filter_id_conv)
  next
    case False
    then have "e \<in> set xs" "bl_link x < bl_link e" using Cons.prems by auto
    then show ?thesis using Cons by auto
  qed
qed simp

lemma unlink_entry_ok:
  assumes "cont_ok c" "i < n_buckets c" "e \<in> set (buckets c ! i)"
  shows "cont_ok (unlink_entry i e c)"
    "mset (owned (Container c)) = add_mset (bl_obj e) (mset (owned (Container (unlink_entry i e c))))"
proof -
  have l: "link_ok c j" if "j < n_buckets c" for j using assms(1) that by (simp add: cont_ok_def)
  let ?ys = "filter (\<lambda>x. bl_link x \<noteq> bl_link e) (buckets c ! i)"
  have m: "add_mset e (mset ?ys) = mset (buckets c ! i)"
    using remove_one_link [of "buckets c ! i" e] l [OF assms(2)] assms(3) by (simp add: link_ok_def)
  then have len: "length (buckets c ! i) = Suc (length ?ys)" by (metis size_add_mset size_mset)
  have i: "i < length (buckets c)" using assms by (simp add: cont_ok_def)
  have "length (concat ((buckets c)[i := ?ys])) + 1 = length (concat (buckets c))"
    using length_concat_update [OF i, of ?ys] len by simp
  moreover have "link_ok (unlink_entry i e c) j" if "j < n_buckets c" for j
    using l [OF that] l [OF assms(2)] assms that
    by (cases "j = i") (auto simp: link_ok_def unlink_entry_def cont_ok_def sorted_wrt_filter sorted_wrt_map less_SucI)
  ultimately show "cont_ok (unlink_entry i e c)" using assms by (auto simp: cont_ok_def unlink_entry_def)
  have "mset (map bl_obj (buckets c ! i)) = add_mset (bl_obj e) (mset (map bl_obj ?ys))"
    using arg_cong [OF m, of "image_mset bl_obj"] by simp
  then show "mset (owned (Container c)) = add_mset (bl_obj e) (mset (owned (Container (unlink_entry i e c))))"
    using concat_update [OF i, of bl_obj ?ys] by (simp add: owned_def unlink_entry_def)
qed

lemma link_entry_owned:
  "i < length (buckets c) \<Longrightarrow> mset (owned (Container (link_entry i p c))) = add_mset p (mset (owned (Container c)))"
  using concat_update [of i "buckets c" bl_obj "buckets c ! i @ [\<lparr>bl_link = c_changes c, bl_version = c_version c, bl_obj = p\<rparr>]"]
  by (simp add: owned_def link_entry_def)

lemma the_container_Some: "the_container h q = Some c \<longleftrightarrow> (\<exists>obj. h q = Some obj \<and> user_data obj = Container c)"
  by (auto simp: the_container_def split: option.splits payload.splits)

lemma the_container_set: "the_container h q = Some c \<Longrightarrow> the_container (set_container q c' h) q = Some c'"
  by (auto simp: the_container_Some set_container_def)

lemma set_container_eq: "h q = Some obj \<Longrightarrow> set_container q c h = h(q \<mapsto> obj\<lparr>user_data := Container c\<rparr>)"
  by (simp add: set_container_def)

text \<open>A reference taken: the counter grows, nothing else.\<close>

lemma ao2_ref_one:
  assumes "refs_inv ext D h" "h p = Some obj" "p \<notin> D"
  shows "ao2_ref p 1 h = Some (ref_counter obj, h(p \<mapsto> obj\<lparr>ref_counter := ref_counter obj + 1\<rparr>))"
    "refs_inv (add_mset p ext) D (h(p \<mapsto> obj\<lparr>ref_counter := ref_counter obj + 1\<rparr>))"
proof -
  have pos: "0 < ref_counter obj" using refs_inv_in [OF assms(1), of p] assms(2,3) by auto
  then show "ao2_ref p 1 h = Some (ref_counter obj, h(p \<mapsto> obj\<lparr>ref_counter := ref_counter obj + 1\<rparr>))"
    using ao2_ref_more [of h p obj 1] assms(2) by simp
  show "refs_inv (add_mset p ext) D (h(p \<mapsto> obj\<lparr>ref_counter := ref_counter obj + 1\<rparr>))"
    by (rule refs_inv_count [of ext D h p obj 1]) (use assms pos in auto)
qed

lemma ao2_link_inv:
  assumes "refs_inv ext {} h" "the_container h q = Some c" "cont_ok c" "h p \<noteq> None" "link_bucket c p = Some i"
  shows "\<exists>h'. ao2_link True q p h = Some (True, h') \<and> refs_inv ext {} h' \<and> the_container h' q = Some (link_entry i p c)"
proof -
  obtain qo where qo: "h q = Some qo" "user_data qo = Container c" using assms(2) by (auto simp: the_container_Some)
  obtain po where po: "h p = Some po" using assms(4) by blast
  have i: "i < length (buckets c)"
    using assms(3,5) by (auto simp: link_bucket_def cont_ok_def split: if_splits)
  let ?h1 = "h(p \<mapsto> po\<lparr>ref_counter := ref_counter po + 1\<rparr>)"
  note r = ao2_ref_one [OF assms(1) po]
  obtain qo1 where qo1: "?h1 q = Some qo1" "user_data qo1 = Container c" using qo po by (cases "p = q") auto
  let ?h2 = "?h1(q \<mapsto> qo1\<lparr>user_data := Container (link_entry i p c)\<rparr>)"
  have inv: "refs_inv ext {} ?h2"
    using r(2) qo1 link_entry_owned [OF i, of p] by (intro refs_inv_payload [of "add_mset p ext" "{}" ?h1 q qo1]) auto
  have "ao2_ref p 1 (set_container q (link_entry i p c) h) = Some (ref_counter po, ?h2)"
  proof -
    obtain po' where po': "set_container q (link_entry i p c) h p = Some po'" "ref_counter po' = ref_counter po"
      using po by (cases "p = q") (auto simp: set_container_def)
    have pos: "0 < ref_counter po" using refs_inv_in [OF assms(1), of p] po by auto
    have "ao2_ref p 1 (set_container q (link_entry i p c) h) =
        Some (ref_counter po, (set_container q (link_entry i p c) h)(p \<mapsto> po'\<lparr>ref_counter := ref_counter po + 1\<rparr>))"
      using ao2_ref_more [of _ p po' 1] po' pos by simp
    also have "(set_container q (link_entry i p c) h)(p \<mapsto> po'\<lparr>ref_counter := ref_counter po + 1\<rparr>) = ?h2"
      using qo po qo1 po' by (cases "p = q") (auto simp: set_container_def fun_eq_iff)
    finally show ?thesis .
  qed
  then have "ao2_link True q p h = Some (True, ?h2)" using assms by (simp add: ao2_link_def)
  moreover have "the_container ?h2 q = Some (link_entry i p c)" by (simp add: the_container_def)
  ultimately show ?thesis using inv by blast
qed


lemma refs_inv_live: "refs_inv ext D h \<Longrightarrow> q \<in># ext \<Longrightarrow> q \<in> dom h - D"
proof (rule ccontr)
  assume "refs_inv ext D h" "q \<in># ext" "q \<notin> dom h - D"
  then have "count ext q = 0" using refs_inv_out [of ext D h q] by simp
  then show False using \<open>q \<in># ext\<close> by (metis not_in_iff)
qed

lemma released_container:
  assumes "released D h h'" "q \<in> dom h'" "the_container h q = Some c"
  shows "the_container h' q = Some c"
proof -
  have "user_data (the (h' q)) = user_data (the (h q))" using assms(1,2) by (simp add: released_def)
  then show ?thesis using assms(2,3) by (auto simp: the_container_Some)
qed

lemma visit_unlink:
  assumes "OBJ_NODATA fl" "OBJ_UNLINK fl" "refs_inv ext {} h" "q \<in># ext" "the_container h q = Some c" "cont_ok c"
    "i < n_buckets c" "e \<in> set (buckets c ! i)"
  shows "\<exists>h'. visit_match fl q i e h = Some (None, h') \<and> refs_inv ext {} h' \<and>
    the_container h' q = Some (unlink_entry i e c) \<and> dom h' \<subseteq> dom h"
proof -
  obtain qo where qo: "h q = Some qo" "user_data qo = Container c" using assms(5) by (auto simp: the_container_Some)
  let ?h = "set_container q (unlink_entry i e c) h"
  have "refs_inv (add_mset (bl_obj e) ext) {} ?h"
    using refs_inv_payload [of ext "{}" h q qo "add_mset (bl_obj e) ext" "Container (unlink_entry i e c)"]
      set_container_eq [of h q qo "unlink_entry i e c"] assms(3) qo unlink_entry_ok(2) [OF assms(6-8)] by simp
  then obtain r h' where h': "ao2_ref (bl_obj e) (- 1) ?h = Some (r, h')" "refs_inv ext {} h'" "released {} ?h h'"
    using ao2_unref_inv by blast
  have "q \<in> dom h'" using refs_inv_live [OF h'(2) assms(4)] by simp
  then have "the_container h' q = Some (unlink_entry i e c)"
    using released_container [OF h'(3)] the_container_set [OF assms(5)] by blast
  moreover have "visit_match fl q i e h = Some (None, h')"
    using assms(1,2,5) h'(1) by (simp add: visit_match_def)
  moreover have "dom h' \<subseteq> dom h" using h'(3) qo set_container_eq [of h q qo "unlink_entry i e c"] by (auto simp: released_def)
  ultimately show ?thesis using h'(2) by blast
qed

text \<open>A new object without references, held by its creator.\<close>

lemma refs_inv_alloc:
  assumes "refs_inv ext {} h" "h p = None"
  shows "refs_inv (add_mset p ext) {} (h(p \<mapsto> \<lparr>ref_counter = 1, user_data = User []\<rparr>))"
proof -
  let ?h = "h(p \<mapsto> \<lparr>ref_counter = 1, user_data = User []\<rparr>)"
  have fin: "finite (dom h)" using assms(1) by (simp add: refs_inv_def)
  have held: "held (dom ?h) ?h = held (dom h) h"
  proof -
    have "held (dom h) ?h = held (dom h) h" by (rule held_cong) (use assms(2) in auto)
    then show ?thesis using held_insert [OF fin, of p ?h] assms(2) by (simp add: owned_def domIff)
  qed
  have "count (ext + held (dom h) h) p = 0" using refs_inv_out [OF assms(1), of p] assms(2) by (simp add: domIff)
  moreover have "ref_counter (the (h x)) = int (count ext x) + int (count (held (dom h) h) x) \<and>
      0 < int (count ext x) + int (count (held (dom h) h) x)"
    if "h x = Some y" for x y
    using refs_inv_in [OF assms(1), of x] that by (auto simp: domIff)
  moreover have "count (ext + held (dom h) h) x = 0" if "h x = None" for x
    using refs_inv_out [OF assms(1), of x] that by (simp add: domIff)
  ultimately show ?thesis
    using fin unfolding refs_inv_def Diff_empty held by (auto simp: domIff)
qed

text \<open>Two containers that differ in their links only.\<close>

definition same_kind :: "ao2_container \<Rightarrow> ao2_container \<Rightarrow> bool" where
  "same_kind c c' \<longleftrightarrow> n_buckets c' = n_buckets c \<and> hash_fn c' = hash_fn c \<and> cmp_fn c' = cmp_fn c"

lemma same_kind_trans: "same_kind a b \<Longrightarrow> same_kind b c \<Longrightarrow> same_kind a c"
  by (simp add: same_kind_def)

lemma filter_link_append:
  assumes "sorted_wrt (<) (map bl_link (kept @ e # es))"
  shows "filter (\<lambda>x. bl_link x \<noteq> bl_link e) (kept @ e # es) = kept @ es"
proof -
  have "\<forall>x \<in> set kept. bl_link x \<noteq> bl_link e" "\<forall>x \<in> set es. bl_link x \<noteq> bl_link e"
    using assms by (auto simp: sorted_wrt_append)
  then show ?thesis by (simp add: filter_id_conv)
qed

lemma scan_unlink_all:
  assumes "OBJ_NODATA fl" "OBJ_UNLINK fl" "OBJ_MULTIPLE fl" "\<forall>p. \<not> snd (cb p)"
    and "refs_inv ext {} h" "q \<in># ext" "the_container h q = Some c" "cont_ok c" "i < n_buckets c"
    and "buckets c ! i = kept @ es"
  shows "\<exists>h' c'. scan_bucket fl cb q i es None h = Some (False, None, h') \<and> refs_inv ext {} h' \<and>
    the_container h' q = Some c' \<and> cont_ok c' \<and> same_kind c c' \<and> dom h' \<subseteq> dom h \<and>
    buckets c' = (buckets c)[i := kept @ filter (\<lambda>e. \<not> fst (cb (bl_obj e))) es]"
  using assms(5,7-10)
proof (induction es arbitrary: h c kept)
  case Nil
  then have "buckets c = (buckets c)[i := kept @ filter (\<lambda>e. \<not> fst (cb (bl_obj e))) []]"
    by (metis append_Nil2 filter.simps(1) list_update_id)
  then show ?case using Nil by (auto simp: same_kind_def)
next
  case (Cons e es)
  have stop: "snd (cb (bl_obj e)) = False" using assms(4) by simp
  show ?case
  proof (cases "fst (cb (bl_obj e))")
    case True
    then have cb: "cb (bl_obj e) = (True, False)" using stop by (metis prod.collapse)
    have mem: "e \<in> set (buckets c ! i)" using Cons.prems(5) by simp
    obtain h1 where h1: "visit_match fl q i e h = Some (None, h1)" "refs_inv ext {} h1"
      "the_container h1 q = Some (unlink_entry i e c)" "dom h1 \<subseteq> dom h"
      using visit_unlink [OF assms(1,2) Cons.prems(1) assms(6) Cons.prems(2-4) mem] by blast
    have i: "i < length (buckets c)" using Cons.prems(3,4) by (simp add: cont_ok_def)
    have sorted: "sorted_wrt (<) (map bl_link (kept @ e # es))"
      using Cons.prems(3-5) by (simp only: cont_ok_def link_ok_def) auto
    have b: "buckets (unlink_entry i e c) = (buckets c)[i := kept @ es]"
      using filter_link_append [OF sorted] Cons.prems(5) by (simp add: unlink_entry_def)
    have "\<exists>h' c'. scan_bucket fl cb q i es None h1 = Some (False, None, h') \<and> refs_inv ext {} h' \<and>
      the_container h' q = Some c' \<and> cont_ok c' \<and> same_kind (unlink_entry i e c) c' \<and> dom h' \<subseteq> dom h1 \<and>
      buckets c' = (buckets (unlink_entry i e c))[i := kept @ filter (\<lambda>e. \<not> fst (cb (bl_obj e))) es]"
    proof (rule Cons.IH [OF h1(2,3) unlink_entry_ok(1) [OF Cons.prems(3,4) mem]])
      show "i < n_buckets (unlink_entry i e c)" using Cons.prems(4) by (simp add: unlink_entry_def)
      show "buckets (unlink_entry i e c) ! i = kept @ es" unfolding b using i by simp
    qed
    moreover have "same_kind c (unlink_entry i e c)" by (simp add: same_kind_def unlink_entry_def)
    moreover have "scan_bucket fl cb q i (e # es) None h = scan_bucket fl cb q i es None h1"
      using cb h1(1) assms(1,3) by simp
    ultimately show ?thesis unfolding b using True h1(4) by (auto simp: same_kind_def)
  next
    case False
    then have cb: "cb (bl_obj e) = (False, False)" using stop by (metis prod.collapse)
    show ?thesis using Cons.IH [OF Cons.prems(1-4), of "kept @ [e]"] Cons.prems(5) cb False by simp
  qed
qed

lemma callback_loop_unlink_all:
  assumes "OBJ_NODATA fl" "OBJ_UNLINK fl" "OBJ_MULTIPLE fl" "\<not> OBJ_POINTER fl" "\<forall>p. \<not> snd (cb p)"
    and "refs_inv ext {} h" "q \<in># ext" "the_container h q = Some c" "cont_ok c" "i \<le> n_buckets c"
  shows "\<exists>h' c'. callback_loop fl cb q start (int i) (int (n_buckets c)) h = Some (None, h') \<and>
    refs_inv ext {} h' \<and> the_container h' q = Some c' \<and> cont_ok c' \<and> same_kind c c' \<and>
    buckets c' = take i (buckets c) @ map (filter (\<lambda>e. \<not> fst (cb (bl_obj e)))) (drop i (buckets c))"
  using assms(6,8-10)
proof (induction "n_buckets c - i" arbitrary: i h c)
  case 0
  have "callback_loop fl cb q start (int i) (int (n_buckets c)) h = Some (None, h)"
    using 0 by (subst callback_loop.simps) simp
  then show ?case using 0 by (auto simp: same_kind_def cont_ok_def)
next
  case (Suc k)
  have i: "i < n_buckets c" "i < length (buckets c)" using Suc by (auto simp: cont_ok_def)
  obtain h1 c1 where s: "scan_bucket fl cb q i (buckets c ! i) None h = Some (False, None, h1)" "refs_inv ext {} h1"
    "the_container h1 q = Some c1" "cont_ok c1" "same_kind c c1"
    "buckets c1 = (buckets c)[i := filter (\<lambda>e. \<not> fst (cb (bl_obj e))) (buckets c ! i)]"
    using scan_unlink_all [OF assms(1-3,5) Suc.prems(1) assms(7) Suc.prems(2,3) i(1), of "[]"] by auto
  have n: "n_buckets c1 = n_buckets c" using s(5) by (simp add: same_kind_def)
  have e: "callback_loop fl cb q start (int i) (int (n_buckets c)) h =
      callback_loop fl cb q start (int (Suc i)) (int (n_buckets c1)) h1"
    using i s(1) Suc.prems(2) assms(4) n by (subst callback_loop.simps) (simp add: Let_def add.commute)
  have t: "take (Suc i) (buckets c1) = take i (buckets c) @ [filter (\<lambda>e. \<not> fst (cb (bl_obj e))) (buckets c ! i)]"
    "drop (Suc i) (buckets c1) = drop (Suc i) (buckets c)"
    using i(2) by (simp_all add: s(6) take_Suc_conv_app_nth)
  have d: "drop i (buckets c) = buckets c ! i # drop (Suc i) (buckets c)" using i(2) by (simp add: Cons_nth_drop_Suc)
  have "k = n_buckets c1 - Suc i" "Suc i \<le> n_buckets c1" using Suc.hyps(2) i(1) n by auto
  from Suc.hyps(1) [OF this(1) s(2-4) this(2)] obtain h' c' where
    "callback_loop fl cb q start (int (Suc i)) (int (n_buckets c1)) h1 = Some (None, h')"
    "refs_inv ext {} h'" "the_container h' q = Some c'" "cont_ok c'" "same_kind c1 c'"
    "buckets c' = take (Suc i) (buckets c1) @ map (filter (\<lambda>e. \<not> fst (cb (bl_obj e)))) (drop (Suc i) (buckets c1))"
    by blast
  then show ?case unfolding e t d using same_kind_trans [OF s(5)] by auto
qed

text \<open>The same for the one bucket that a search by hash value looks at.\<close>

lemma ao2_callback_unlink_bucket:
  assumes "OBJ_NODATA fl" "OBJ_UNLINK fl" "OBJ_MULTIPLE fl" "OBJ_POINTER fl" "\<not> OBJ_CONTINUE fl" "\<forall>p. \<not> snd (cb p)"
    and "refs_inv ext {} h" "q \<in># ext" "the_container h q = Some c" "cont_ok c" "0 \<le> hash_fn c arg"
  defines "i \<equiv> nat (hash_fn c arg) mod n_buckets c"
  shows "\<exists>h' c'. ao2_callback fl cb q arg h = Some (None, h') \<and> refs_inv ext {} h' \<and>
    the_container h' q = Some c' \<and> cont_ok c' \<and> same_kind c c' \<and> dom h' \<subseteq> dom h \<and>
    buckets c' = (buckets c)[i := filter (\<lambda>e. \<not> fst (cb (bl_obj e))) (buckets c ! i)]"
proof -
  have n: "0 < n_buckets c" using assms(10) by (simp add: cont_ok_def)
  then have i: "i < n_buckets c" "cmod (hash_fn c arg) (int (n_buckets c)) = int i"
    using assms(11) by (simp_all add: i_def zmod_int)
  obtain h' c' where s: "scan_bucket fl cb q i (buckets c ! i) None h = Some (False, None, h')" "refs_inv ext {} h'"
    "the_container h' q = Some c'" "cont_ok c'" "same_kind c c'" "dom h' \<subseteq> dom h"
    "buckets c' = (buckets c)[i := [] @ filter (\<lambda>e. \<not> fst (cb (bl_obj e))) (buckets c ! i)]"
    using scan_unlink_all [OF assms(1-3,6,7,8,9,10) i(1), of "[]"] by auto
  have e: "callback_loop fl cb q (int i) (int i + 1) (int i + 1) h' = Some (None, h')"
    by (subst callback_loop.simps) simp
  have "ao2_callback fl cb q arg h = callback_loop fl cb q (int i) (int i) (int i + 1) h"
    using assms(1,5,4,9) n i(2) by (simp add: ao2_callback_def Let_def)
  also have "\<dots> = Some (None, h')"
    using s(1) e assms(5,9) by (subst callback_loop.simps) simp
  finally show ?thesis using s(2-) by auto
qed

text \<open>Removing all matching objects: the search ends, the container keeps exactly the links
  whose objects do not match, in their order, with the number of its elements, and the removed
  references are dropped safely.\<close>

theorem ao2_callback_unlink_all:
  assumes "OBJ_NODATA fl" "OBJ_UNLINK fl" "OBJ_MULTIPLE fl" "\<not> OBJ_POINTER fl" "\<forall>p. \<not> snd (cb p)"
    and "refs_inv ext {} h" "q \<in># ext" "the_container h q = Some c" "cont_ok c"
  shows "\<exists>h' c'. ao2_callback fl cb q arg h = Some (None, h') \<and> refs_inv ext {} h' \<and>
    the_container h' q = Some c' \<and> cont_ok c' \<and>
    buckets c' = map (filter (\<lambda>e. \<not> fst (cb (bl_obj e)))) (buckets c) \<and>
    ao2_container_count c' = int (length (filter (\<lambda>e. \<not> fst (cb (bl_obj e))) (concat (buckets c))))"
proof -
  have "ao2_callback fl cb q arg h = callback_loop fl cb q 0 0 (int (n_buckets c)) h"
    using assms(1,4,8) by (simp add: ao2_callback_def)
  then show ?thesis
    using callback_loop_unlink_all [of fl cb ext h q c 0 0] assms
    by (auto simp: ao2_container_count_def cont_ok_def filter_concat)
qed


definition sample_container :: ao2_container where
  "sample_container = link_entry 0 2 (link_entry 0 1 (new_container 1 None (\<lambda>p a. (p = a, False))))"

definition sample_store :: ao2_heap where
  "sample_store = [1 \<mapsto> \<lparr>ref_counter = 1, user_data = User []\<rparr>, 2 \<mapsto> \<lparr>ref_counter = 1, user_data = User []\<rparr>,
     9 \<mapsto> \<lparr>ref_counter = 1, user_data = Container sample_container\<rparr>]"

lemma sample_container_ok: "cont_ok sample_container"
  unfolding sample_container_def
  by (intro link_entry_ok new_container_ok) (simp_all add: link_entry_def new_container_def)

lemma sample_links: "buckets sample_container =
    [[\<lparr>bl_link = 1, bl_version = 1, bl_obj = 1\<rparr>, \<lparr>bl_link = 2, bl_version = 2, bl_obj = 2\<rparr>]]"
  by (simp add: sample_container_def link_entry_def new_container_def)

lemma sample_store_inv: "refs_inv {#9#} {} sample_store" "the_container sample_store 9 = Some sample_container"
proof -
  have dom: "dom sample_store = {1, 2, 9}" by (auto simp: sample_store_def)
  show "refs_inv {#9#} {} sample_store"
    unfolding refs_inv_def dom by (auto simp: held_def sample_store_def owned_def sample_links)
  show "the_container sample_store 9 = Some sample_container"
    by (simp add: the_container_def sample_store_def)
qed

theorem ao2_callback_unlink_all_witness:
  "\<exists>h' c'. ao2_callback \<lparr>OBJ_UNLINK = True, OBJ_NODATA = True, OBJ_MULTIPLE = True, OBJ_POINTER = False, OBJ_CONTINUE = False\<rparr>
      (\<lambda>p. (p = 1, False)) 9 0 sample_store = Some (None, h') \<and> the_container h' 9 = Some c' \<and> ao2_container_count c' = 1"
proof -
  let ?fl = "\<lparr>OBJ_UNLINK = True, OBJ_NODATA = True, OBJ_MULTIPLE = True, OBJ_POINTER = False, OBJ_CONTINUE = False\<rparr>"
  have "OBJ_NODATA ?fl" "OBJ_UNLINK ?fl" "OBJ_MULTIPLE ?fl" "\<not> OBJ_POINTER ?fl"
    "\<forall>p. \<not> snd ((\<lambda>p. (p = 1, False)) (p :: oid))" "9 \<in># {#9#}" by simp_all
  from ao2_callback_unlink_all [OF this(1-5) sample_store_inv(1) this(6) sample_store_inv(2) sample_container_ok, of 0]
  show ?thesis by (auto simp: sample_links)
qed

section \<open>Finding an object\<close>

definition take_ref :: "oid \<Rightarrow> ao2_heap \<Rightarrow> ao2_heap" where
  "take_ref p h = h(p := map_option (\<lambda>obj. obj\<lparr>ref_counter := ref_counter obj + 1\<rparr>) (h p))"

lemma take_ref_inv:
  assumes "refs_inv ext {} h" "p \<in> dom h"
  shows "\<exists>r. ao2_ref p 1 h = Some (r, take_ref p h)" "refs_inv (add_mset p ext) {} (take_ref p h)"
proof -
  obtain obj where obj: "h p = Some obj" using assms(2) by blast
  show "\<exists>r. ao2_ref p 1 h = Some (r, take_ref p h)" "refs_inv (add_mset p ext) {} (take_ref p h)"
    using ao2_ref_one [of ext "{}" h p obj] assms(1) obj by (auto simp: take_ref_def)
qed

lemma link_live:
  assumes "refs_inv ext {} h" "the_container h q = Some c" "e \<in> set (concat (buckets c))"
  shows "bl_obj e \<in> dom h"
proof (rule ccontr)
  assume "bl_obj e \<notin> dom h"
  then have "bl_obj e \<notin># held (dom h) h" using refs_inv_out [OF assms(1), of "bl_obj e"] by (simp add: not_in_iff)
  moreover have "finite (dom h)" "q \<in> dom h" using assms by (auto simp: refs_inv_def the_container_Some)
  moreover have "bl_obj e \<in> set (owned (user_data (the (h q))))"
    using assms(2,3) by (auto simp: the_container_Some owned_def intro!: bexI imageI)
  ultimately show False by (auto simp: held_def set_mset_sum)
qed

lemma scan_find:
  assumes "\<not> OBJ_NODATA fl" "\<not> OBJ_UNLINK fl" "\<not> OBJ_MULTIPLE fl" "\<forall>p. snd (cb p) \<longrightarrow> fst (cb p)"
    and "refs_inv ext {} h" "\<forall>e \<in> set es. bl_obj e \<in> dom h"
  shows "scan_bucket fl cb q i es None h =
    (case find (\<lambda>e. fst (cb (bl_obj e))) es of
       None \<Rightarrow> Some (False, None, h)
     | Some e \<Rightarrow> Some (True, Some (bl_obj e), take_ref (bl_obj e) h))"
  using assms(6)
proof (induction es)
  case (Cons e es)
  show ?case
  proof (cases "fst (cb (bl_obj e))")
    case True
    then obtain stop where cb: "cb (bl_obj e) = (True, stop)" by (metis prod.collapse)
    obtain r where "ao2_ref (bl_obj e) 1 h = Some (r, take_ref (bl_obj e) h)"
      using take_ref_inv(1) [OF assms(5), of "bl_obj e"] Cons.prems by auto
    then show ?thesis using cb assms(1-3) by (simp add: visit_match_def)
  next
    case False
    then have "cb (bl_obj e) = (False, False)" using assms(4) by (metis prod.collapse)
    then show ?thesis using Cons False by simp
  qed
qed simp

lemma find_append: "find P (xs @ ys) = (case find P xs of None \<Rightarrow> find P ys | Some x \<Rightarrow> Some x)"
  by (induction xs) auto

lemma find_SomeD: "find P xs = Some x \<Longrightarrow> P x \<and> x \<in> set xs"
  by (induction xs) (auto split: if_splits)

lemma callback_loop_find:
  assumes "\<not> OBJ_NODATA fl" "\<not> OBJ_UNLINK fl" "\<not> OBJ_MULTIPLE fl" "\<not> OBJ_CONTINUE fl" "\<forall>p. snd (cb p) \<longrightarrow> fst (cb p)"
    and "refs_inv ext {} h" "the_container h q = Some c" "lim \<le> length (buckets c)"
  shows "callback_loop fl cb q start (int i) (int lim) h =
    (case find (\<lambda>e. fst (cb (bl_obj e))) (concat (drop i (take lim (buckets c)))) of
       None \<Rightarrow> Some (None, h)
     | Some e \<Rightarrow> Some (Some (bl_obj e), take_ref (bl_obj e) h))"
proof (induction "lim - i" arbitrary: i)
  case 0
  then show ?case by (subst callback_loop.simps) simp
next
  case (Suc k)
  then have i: "i < lim" by simp
  have d: "drop i (take lim (buckets c)) = buckets c ! i # drop (Suc i) (take lim (buckets c))"
    using i assms(8) Cons_nth_drop_Suc [of i "take lim (buckets c)"] by simp
  have live: "\<forall>e \<in> set (buckets c ! i). bl_obj e \<in> dom h"
  proof
    fix e assume "e \<in> set (buckets c ! i)"
    then have "e \<in> set (concat (buckets c))" using i assms(8) by auto
    then show "bl_obj e \<in> dom h" by (rule link_live [OF assms(6,7)])
  qed
  note s = scan_find [OF assms(1-3,5,6) live, of q "nat (int i)"]
  have IH: "callback_loop fl cb q start (int i + 1) (int lim) h =
    (case find (\<lambda>e. fst (cb (bl_obj e))) (concat (drop (Suc i) (take lim (buckets c)))) of
       None \<Rightarrow> Some (None, h)
     | Some e \<Rightarrow> Some (Some (bl_obj e), take_ref (bl_obj e) h))"
    using Suc.hyps(1) [of "Suc i"] Suc.hyps(2) by (simp add: add.commute)
  show ?case
  proof (cases "find (\<lambda>e. fst (cb (bl_obj e))) (buckets c ! i)")
    case None
    then show ?thesis using i s assms(4,7) IH unfolding d
      by (subst callback_loop.simps) (simp add: find_append)
  next
    case (Some e)
    then show ?thesis using i s assms(4,7) unfolding d
      by (subst callback_loop.simps) (simp add: find_append)
  qed
qed


lemma cmod_neg: "a < 0 \<Longrightarrow> 0 < b \<Longrightarrow> cmod a b = - (\<bar>a\<bar> mod b)"
  by (simp add: cmod_def cdiv_def minus_mult_div_eq_mod [symmetric])

lemma cmod_less:
  assumes "0 < b"
  shows "cmod a b < b"
proof (cases "0 \<le> a")
  case False
  then have "cmod a b = - (\<bar>a\<bar> mod b)" using assms by (simp add: cmod_neg)
  moreover have "0 \<le> \<bar>a\<bar> mod b" using assms by simp
  ultimately show ?thesis using assms by linarith
qed (use assms in simp)

text \<open>Where an object is looked for, and where it was linked.\<close>

lemma link_bucket_same:
  assumes "link_bucket c p = Some i" "hash_fn c p = hash_fn c arg" "0 \<le> cmod (hash_fn c arg) (int (n_buckets c))"
  shows "int i = cmod (hash_fn c arg) (int (n_buckets c))"
proof -
  let ?h = "hash_fn c arg" and ?n = "int (n_buckets c)"
  have n: "0 < ?n" and i: "int i = \<bar>?h\<bar> mod ?n"
    using assms(1,2) by (auto simp: link_bucket_def zmod_int split: if_splits)
  show ?thesis
  proof (cases "0 \<le> ?h")
    case True
    then show ?thesis using i n by simp
  next
    case False
    then have "cmod ?h ?n = - (\<bar>?h\<bar> mod ?n)" using n by (simp add: cmod_neg)
    moreover have "0 \<le> \<bar>?h\<bar> mod ?n" using n by simp
    ultimately show ?thesis using assms(3) i by linarith
  qed
qed

lemma ao2_find_linked:
  assumes "\<not> OBJ_NODATA fl" "\<not> OBJ_UNLINK fl" "\<not> OBJ_MULTIPLE fl" "\<not> OBJ_CONTINUE fl"
    and "refs_inv ext {} h" "the_container h q = Some c" "cont_ok c"
    and "\<forall>p. snd (cmp_fn c p arg) \<longrightarrow> fst (cmp_fn c p arg)"
    and "\<forall>e \<in> set (concat (buckets c)). fst (cmp_fn c (bl_obj e) arg) \<longrightarrow> hash_fn c (bl_obj e) = hash_fn c arg"
    and "\<forall>i < n_buckets c. \<forall>e \<in> set (buckets c ! i). link_bucket c (bl_obj e) = Some i"
  shows "\<exists>r h'. ao2_find fl q arg h = Some (r, h') \<and>
    (case r of
       None \<Rightarrow> h' = h \<and> (\<forall>e \<in> set (concat (buckets c)). \<not> fst (cmp_fn c (bl_obj e) arg))
     | Some p \<Rightarrow> fst (cmp_fn c p arg) \<and> p \<in> bl_obj ` set (concat (buckets c)) \<and>
         h' = take_ref p h \<and> refs_inv (add_mset p ext) {} h')"
proof -
  let ?n = "n_buckets c" and ?P = "\<lambda>e. fst (cmp_fn c (bl_obj e) arg)"
  define i where "i = (if OBJ_POINTER fl then cmod (hash_fn c arg) (int ?n) else - 1)"
  have n: "0 < ?n" "length (buckets c) = ?n" using assms(7) by (auto simp: cont_ok_def)
  have below: "i < int ?n" using n(1) by (auto simp: i_def cmod_less)
  obtain s l where sl: "s < l" "l \<le> ?n" "ao2_find fl q arg h = callback_loop fl (\<lambda>p. cmp_fn c p arg) q (int s) (int s) (int l) h"
    "0 \<le> i \<longrightarrow> int s = i \<and> l = s + 1" "i < 0 \<longrightarrow> s = 0 \<and> l = ?n"
  proof (cases "i < 0")
    case True
    then have "ao2_find fl q arg h = callback_loop fl (\<lambda>p. cmp_fn c p arg) q (int 0) (int 0) (int ?n) h"
      using assms(3,6) n(1) by (simp add: ao2_find_def ao2_callback_def Let_def i_def)
    then show ?thesis using that [of 0 ?n] True n(1) by simp
  next
    case False
    then obtain s where s: "i = int s" by (metis linorder_not_less zero_le_imp_eq_int)
    then have "ao2_find fl q arg h = callback_loop fl (\<lambda>p. cmp_fn c p arg) q (int s) (int s) (int (s + 1)) h"
      using False assms(3,4,6) n(1) by (auto simp: ao2_find_def ao2_callback_def Let_def add.commute i_def split: if_splits)
    moreover have "s < ?n" using s below by simp
    ultimately show ?thesis by (intro that [of s "s + 1"]) (simp_all add: s)
  qed
  let ?es = "concat (drop s (take l (buckets c)))"
  have sub: "set ?es \<subseteq> set (concat (buckets c))" by (auto dest!: in_set_dropD in_set_takeD)
  have searched: "e \<in> set ?es" if e: "e \<in> set (concat (buckets c))" and m: "?P e" for e
  proof -
    obtain b where b: "b < ?n" "e \<in> set (buckets c ! b)" using e n(2) by (auto simp: in_set_conv_nth [of _ "buckets c"])
    have "link_bucket c (bl_obj e) = Some b" "hash_fn c (bl_obj e) = hash_fn c arg" using assms(9,10) b m e by auto
    then have "s \<le> b \<and> b < l"
      using link_bucket_same [of c "bl_obj e" b arg] sl(4,5) b(1) by (cases "i < 0") (auto simp: i_def split: if_splits)
    then have "buckets c ! b \<in> set (drop s (take l (buckets c)))"
      using sl(2) n(2) nth_mem [of "b - s" "drop s (take l (buckets c))"] by (auto simp: diff_less_mono)
    then show ?thesis using b(2) by auto
  qed
  have loop: "ao2_find fl q arg h = (case find ?P ?es of
      None \<Rightarrow> Some (None, h) | Some e \<Rightarrow> Some (Some (bl_obj e), take_ref (bl_obj e) h))"
    unfolding sl(3) using callback_loop_find [OF assms(1-4,8,5,6), of l "int s" s] sl(2) n(2) by simp
  show ?thesis
  proof (cases "find ?P ?es")
    case None
    then have "ao2_find fl q arg h = Some (None, h)" unfolding loop by simp
    moreover have "\<forall>e \<in> set (concat (buckets c)). \<not> ?P e" using None searched unfolding find_None_iff by blast
    ultimately show ?thesis by simp
  next
    case (Some e)
    then have e: "?P e" "e \<in> set ?es" using find_SomeD [of ?P ?es e] by blast+
    then have "bl_obj e \<in> dom h" using link_live [OF assms(5,6)] sub by blast
    then have "refs_inv (add_mset (bl_obj e) ext) {} (take_ref (bl_obj e) h)" by (rule take_ref_inv(2) [OF assms(5)])
    moreover have "ao2_find fl q arg h = Some (Some (bl_obj e), take_ref (bl_obj e) h)" unfolding loop Some by simp
    moreover have "bl_obj e \<in> bl_obj ` set (concat (buckets c))" using e(2) sub by blast
    ultimately show ?thesis using e(1) by simp
  qed
qed

text \<open>Finding by key: if equal objects have equal hash values and every object was linked
  into its bucket, then the search returns an object that matches the key, with a reference of its
  own, or returns NULL and no object of the container matches.\<close>

theorem ao2_find_correct:
  assumes "\<not> OBJ_NODATA fl" "\<not> OBJ_UNLINK fl" "\<not> OBJ_MULTIPLE fl" "\<not> OBJ_CONTINUE fl"
    and "refs_inv ext {} h" "the_container h q = Some c" "cont_ok c"
    and "\<forall>p. snd (cmp_fn c p arg) \<longrightarrow> fst (cmp_fn c p arg)"
    and "\<forall>p. fst (cmp_fn c p arg) \<longrightarrow> hash_fn c p = hash_fn c arg"
    and "\<forall>i < n_buckets c. \<forall>e \<in> set (buckets c ! i). link_bucket c (bl_obj e) = Some i"
  shows "\<exists>r h'. ao2_find fl q arg h = Some (r, h') \<and>
    (case r of
       None \<Rightarrow> h' = h \<and> (\<forall>e \<in> set (concat (buckets c)). \<not> fst (cmp_fn c (bl_obj e) arg))
     | Some p \<Rightarrow> fst (cmp_fn c p arg) \<and> p \<in> bl_obj ` set (concat (buckets c)) \<and>
         h' = take_ref p h \<and> refs_inv (add_mset p ext) {} h')"
  by (rule ao2_find_linked [OF assms(1-8)]) (use assms(9,10) in auto)

theorem ao2_find_correct_witness:
  "\<exists>r h'. ao2_find \<lparr>OBJ_UNLINK = False, OBJ_NODATA = False, OBJ_MULTIPLE = False, OBJ_POINTER = True, OBJ_CONTINUE = False\<rparr>
      9 2 sample_store = Some (r, h') \<and> r = Some 2"
proof -
  let ?fl = "\<lparr>OBJ_UNLINK = False, OBJ_NODATA = False, OBJ_MULTIPLE = False, OBJ_POINTER = True, OBJ_CONTINUE = False\<rparr>"
  have f: "cmp_fn sample_container p a = (p = a, False)" "hash_fn sample_container p = 0" "n_buckets sample_container = 1" for p a
    by (simp_all add: sample_container_def link_entry_def new_container_def hash_zero_def)
  have "\<exists>r h'. ao2_find ?fl 9 2 sample_store = Some (r, h') \<and>
    (case r of None \<Rightarrow> h' = sample_store \<and> (\<forall>e \<in> set (concat (buckets sample_container)). \<not> fst (cmp_fn sample_container (bl_obj e) 2))
     | Some p \<Rightarrow> fst (cmp_fn sample_container p 2) \<and> p \<in> bl_obj ` set (concat (buckets sample_container)) \<and>
         h' = take_ref p sample_store \<and> refs_inv (add_mset p {#9#}) {} h')"
    by (rule ao2_find_correct [OF _ _ _ _ sample_store_inv sample_container_ok])
      (simp_all add: f link_bucket_def)
  then show ?thesis by (auto simp: f sample_links split: option.splits)
qed

section \<open>A search that does not end\<close>

lemma scan_stop:
  assumes "OBJ_NODATA fl" "\<not> OBJ_UNLINK fl" "\<not> OBJ_MULTIPLE fl"
  shows "scan_bucket fl cb q i es None h = Some (\<exists>e \<in> set es. cb (bl_obj e) \<noteq> (False, False), None, h)"
  by (induction es) (use assms in \<open>auto simp: visit_match_def split: prod.splits bool.splits\<close>)

lemma callback_loop_hangs:
  assumes "OBJ_NODATA fl" "\<not> OBJ_UNLINK fl" "\<not> OBJ_MULTIPLE fl" "OBJ_POINTER fl" "OBJ_CONTINUE fl"
    and "the_container h q = Some c" "0 \<le> i" "i \<le> int b" "int b < int (n_buckets c) - 1"
    and "\<exists>e \<in> set (buckets c ! b). cb (bl_obj e) \<noteq> (False, False)"
  shows "callback_loop fl cb q (int (n_buckets c) - 1) i (int (n_buckets c) - 1) h = None"
proof -
  let ?n = "int (n_buckets c) - 1"
  have never: "\<not> (start = ?n \<and> lim = ?n \<and> 0 \<le> i \<and> i \<le> int b \<and> fl' = fl \<and> cb' = cb \<and> q' = q \<and> h' = h)"
    if "callback_loop fl' cb' q' start i lim h' = Some r" for fl' cb' q' start i lim h' r
  proof (rule callback_loop.raw_induct [where P = "\<lambda>fl' cb' q' start i lim h' r. \<not> (start = ?n \<and> lim = ?n \<and>
      0 \<le> i \<and> i \<le> int b \<and> fl' = fl \<and> cb' = cb \<and> q' = q \<and> h' = h)", OF _ that], goal_cases)
    case (1 loop fl' cb' q' start i lim h' r)
    show ?case
    proof
      assume a: "start = ?n \<and> lim = ?n \<and> 0 \<le> i \<and> i \<le> int b \<and> fl' = fl \<and> cb' = cb \<and> q' = q \<and> h' = h"
      then have i: "i < ?n" using assms(9) by simp
      show False
      proof (cases "\<exists>e \<in> set (buckets c ! nat i). cb (bl_obj e) \<noteq> (False, False)")
        case True
        then have "loop fl cb q ?n 0 ?n h = Some r"
          using 1(2) a i assms(1-6) scan_stop [OF assms(1-3)] by (simp add: Let_def)
        from 1(1) [OF this] assms(9) show False by simp
      next
        case False
        then have ne: "i \<noteq> int b" using assms(10) by auto
        have "loop fl cb q ?n (i + 1) ?n h = Some r"
          using 1(2) a i assms(1-6) scan_stop [OF assms(1-3)] False by (simp add: Let_def)
        from 1(1) [OF this] a ne show False by simp
      qed
    qed
  qed
  show ?thesis
  proof (cases "callback_loop fl cb q ?n i ?n h")
    case (Some r)
    from never [OF Some] assms(7,8) show ?thesis by simp
  qed
qed

text \<open>A search by hash value that starts in the last bucket and is to continue in the others,
  without returning the object, never ends once a callback tells it to stop there.\<close>

theorem ao2_callback_continue_hangs:
  assumes "OBJ_NODATA fl" "\<not> OBJ_UNLINK fl" "\<not> OBJ_MULTIPLE fl" "OBJ_POINTER fl" "OBJ_CONTINUE fl"
    and "the_container h q = Some c" "0 \<le> hash_fn c arg" "hash_fn c arg mod int (n_buckets c) = int (n_buckets c) - 1"
    and "\<forall>e \<in> set (buckets c ! (n_buckets c - 1)). cb (bl_obj e) = (False, False)"
    and "b < n_buckets c - 1" "e \<in> set (buckets c ! b)" "cb (bl_obj e) \<noteq> (False, False)"
  shows "ao2_callback fl cb q arg h = None"
proof -
  let ?n = "int (n_buckets c) - 1"
  have n: "0 < n_buckets c" "nat ?n = n_buckets c - 1" using assms(10) by simp_all
  have "ao2_callback fl cb q arg h = callback_loop fl cb q ?n ?n (int (n_buckets c)) h"
    using assms(1-8) n by (simp add: ao2_callback_def Let_def)
  also have "\<dots> = callback_loop fl cb q ?n 0 ?n h"
    using assms(1-6,9) n scan_stop [OF assms(1-3)] by (subst callback_loop.simps) (simp add: Let_def)
  also have "\<dots> = None"
    by (rule callback_loop_hangs [OF assms(1-6), of 0 b]) (use assms(10-12) in auto)
  finally show ?thesis .
qed


theorem ao2_callback_continue_hangs_witness:
  "ao2_callback \<lparr>OBJ_UNLINK = False, OBJ_NODATA = True, OBJ_MULTIPLE = False, OBJ_POINTER = True, OBJ_CONTINUE = True\<rparr>
      (\<lambda>p. (True, True)) 9 1
      [2 \<mapsto> \<lparr>ref_counter = 1, user_data = User []\<rparr>,
       9 \<mapsto> \<lparr>ref_counter = 1, user_data = Container (link_entry 0 2 (new_container 2 (Some int) (\<lambda>p a. (p = a, False))))\<rparr>] = None"
proof -
  let ?c = "link_entry 0 2 (new_container 2 (Some int) (\<lambda>p a. (p = a, False)))"
  have "b < n_buckets ?c - 1 \<Longrightarrow> b = 0" for b by (simp add: link_entry_def new_container_def)
  then show ?thesis
    by (intro ao2_callback_continue_hangs [of _ _ 9 ?c _ _ 0 "\<lparr>bl_link = 1, bl_version = 1, bl_obj = 2\<rparr>"])
      (simp_all add: the_container_def link_entry_def new_container_def numeral_2_eq_2)
qed

end
