(* ===== verification/Ao2Iterator.thy ===== *)
theory Ao2Iterator
  imports Ao2Container
begin

text \<open>
  Iterators over the containers of \<open>main/astobj2.c\<close>, while objects are linked and unlinked.
\<close>

section \<open>Iterating while the container changes\<close>

text \<open>The container and an iterator over it: \<open>returned\<close> are the links handed out so far.\<close>

inductive iter_run :: "ao2_container \<Rightarrow> ao2_container \<Rightarrow> ao2_iterator \<Rightarrow> bucket_list list \<Rightarrow> bool" for c0 where
  start: "iter_run c0 c0 iterator_start []"
| link: "\<lbrakk>iter_run c0 c a rs; i < n_buckets c\<rbrakk> \<Longrightarrow> iter_run c0 (link_entry i p c) a rs"
| unlink: "\<lbrakk>iter_run c0 c a rs; i < n_buckets c; e \<in> set (buckets c ! i)\<rbrakk> \<Longrightarrow> iter_run c0 (unlink_entry i e c) a rs"
| step: "\<lbrakk>iter_run c0 c a rs; iterator_next c a = (Some e, a')\<rbrakk> \<Longrightarrow> iter_run c0 c a' (rs @ [e])"

inductive_cases iter_stepE: "iter_run c0 c a (rs @ [e])"

text \<open>The versions are exact as long as they have not wrapped: every version is the number of the link.\<close>

definition versions_exact :: "ao2_container \<Rightarrow> bool" where
  "versions_exact c \<longleftrightarrow> sint (c_version c) = int (c_changes c) \<and>
     (\<forall>j < n_buckets c. \<forall>e \<in> set (buckets c ! j). sint (bl_version e) = int (bl_link e))"

lemma sint_inc:
  fixes v :: i32
  assumes "sint v = int n" "n + 1 < 2 ^ 31"
  shows "sint (v + 1) = int (n + 1)"
  using assms by (simp add: sint_word_ariths signed_take_bit_int_eq_self)

lemma versions_exact_new: "versions_exact (new_container n hash cmp)"
  by (simp add: versions_exact_def new_container_def)

lemma versions_exact_link:
  assumes "versions_exact c" "cont_ok c" "i < n_buckets c" "c_changes c + 1 < 2 ^ 31"
  shows "versions_exact (link_entry i p c)"
  using assms sint_inc [of "c_version c" "c_changes c"]
  by (auto simp: versions_exact_def link_entry_def cont_ok_def nth_list_update)

lemma versions_exact_unlink:
  assumes "versions_exact c" "cont_ok c" "i < n_buckets c" "c_changes c + 1 < 2 ^ 31"
  shows "versions_exact (unlink_entry i e c)"
  using assms sint_inc [of "c_version c" "c_changes c"]
  by (auto simp: versions_exact_def unlink_entry_def cont_ok_def nth_list_update)

text \<open>Once the versions have wrapped they are negative, and a search that begins at the version 0 passes
  over the links that carry them.\<close>

lemma wrapped_version_skipped:
  assumes "c_version c = 2 ^ 31" "buckets c = [[]]"
  shows "fst (iterator_next (link_entry 0 p c) iterator_start) = None"
  using assms by (simp add: iterator_next_def iterator_start_def link_entry_def browse.simps)

text \<open>A link at position \<open>j\<close> with its version is behind the iterator, or ahead of it.\<close>

definition reached :: "ao2_iterator \<Rightarrow> nat" where
  "reached a = nat (sint (it_version a))"

definition passed :: "ao2_iterator \<Rightarrow> nat \<Rightarrow> bucket_list \<Rightarrow> bool" where
  "passed a j e \<longleftrightarrow> j < bucket a \<or> j = bucket a \<and> bl_link e \<le> reached a"

text \<open>The names of the links identify them throughout a container.\<close>

definition uniq :: "ao2_container \<Rightarrow> bool" where
  "uniq c \<longleftrightarrow> (\<forall>j < n_buckets c. \<forall>k < n_buckets c. \<forall>x \<in> set (buckets c ! j). \<forall>y \<in> set (buckets c ! k).
     bl_link x = bl_link y \<longrightarrow> j = k \<and> x = y)"

definition iter_inv :: "ao2_container \<Rightarrow> ao2_container \<Rightarrow> ao2_iterator \<Rightarrow> bucket_list list \<Rightarrow> bool" where
  "iter_inv c0 c a rs \<longleftrightarrow> cont_ok c \<and> uniq c \<and> versions_exact c \<and> 0 \<le> sint (it_version a) \<and>
     n_buckets c = n_buckets c0 \<and> c_changes c0 \<le> c_changes c \<and> sint (it_c_version a) \<le> int (c_changes c) \<and>
     distinct (map bl_link rs) \<and> (\<forall>e \<in> set rs. bl_link e < c_changes c) \<and>
     (\<forall>j < n_buckets c. \<forall>e \<in> set (buckets c ! j).
        (e \<in> set rs \<longrightarrow> passed a j e) \<and>
        (bl_link e \<in> bl_link ` set rs \<longrightarrow> e \<in> set rs) \<and>
        (passed a j e \<and> bl_link e < c_changes c0 \<longrightarrow> e \<in> set rs)) \<and>
     (it_c_version a = c_version c \<longrightarrow> (\<forall>v. it_obj a = Some v \<longrightarrow>
        bucket a < n_buckets c \<and> reached a = v \<and> v \<in> bl_link ` set (buckets c ! bucket a)))"

lemma after_entry_find:
  "\<lbrakk>sorted_wrt (<) (map bl_link es); v \<in> bl_link ` set es\<rbrakk> \<Longrightarrow> after_entry v es = find (\<lambda>e. v < bl_link e) es"
proof (induction es)
  case (Cons e es)
  show ?case
  proof (cases "bl_link e = v")
    case True
    then show ?thesis using Cons.prems by (cases es) auto
  next
    case False
    then have "v \<in> bl_link ` set es" using Cons.prems(2) by auto
    then have "bl_link e < v" using Cons.prems(1) by auto
    then show ?thesis using Cons \<open>v \<in> bl_link ` set es\<close> False by simp
  qed
qed simp

lemma browse_found:
  "browse bs b v = (b', v', Some e) \<Longrightarrow> b \<le> b' \<and> b' < length bs \<and> v' = (if b' = b then v else 0) \<and>
     find (\<lambda>e. sint v' < sint (bl_version e)) (bs ! b') = Some e \<and>
     (\<forall>j. b \<le> j \<and> j < b' \<longrightarrow> find (\<lambda>e. sint (if j = b then v else 0) < sint (bl_version e)) (bs ! j) = None)"
proof (induction bs b v rule: browse.induct)
  case (1 bs b v)
  show ?case
  proof (cases "b < length bs")
    case True
    show ?thesis
    proof (cases "find (\<lambda>e. sint v < sint (bl_version e)) (bs ! b)")
      case None
      have "browse bs (b + 1) 0 = (b', v', Some e)" using "1.prems" True None by (simp add: browse.simps [of bs b])
      note IH = "1.IH" [OF True None this]
      have "find (\<lambda>e. sint (if j = b then v else 0) < sint (bl_version e)) (bs ! j) = None" if "b \<le> j" "j < b'" for j
        using IH that None by (cases "j = b") (auto split: if_splits)
      then show ?thesis using IH by (auto split: if_splits)
    next
      case (Some e')
      then show ?thesis using "1.prems" True by (auto simp: browse.simps [of bs b])
    qed
  next
    case False
    then show ?thesis using "1.prems" by (auto simp: browse.simps [of bs b])
  qed
qed

lemma browse_end:
  "browse bs b v = (b', v', None) \<Longrightarrow> length bs \<le> b' \<and>
     (\<forall>j. b \<le> j \<and> j < length bs \<longrightarrow> find (\<lambda>e. sint (if j = b then v else 0) < sint (bl_version e)) (bs ! j) = None)"
proof (induction bs b v rule: browse.induct)
  case (1 bs b v)
  show ?case
  proof (cases "b < length bs")
    case True
    show ?thesis
    proof (cases "find (\<lambda>e. sint v < sint (bl_version e)) (bs ! b)")
      case None
      have "browse bs (b + 1) 0 = (b', v', None)" using "1.prems" True None by (simp add: browse.simps [of bs b])
      note IH = "1.IH" [OF True None this]
      have "find (\<lambda>e. sint (if j = b then v else 0) < sint (bl_version e)) (bs ! j) = None" if "b \<le> j" "j < length bs" for j
        using IH that None by (cases "j = b") (auto split: if_splits)
      then show ?thesis using IH by blast
    next
      case (Some e')
      then show ?thesis using "1.prems" True by (auto simp: browse.simps [of bs b])
    qed
  next
    case False
    then show ?thesis using "1.prems" by (auto simp: browse.simps [of bs b])
  qed
qed

text \<open>While the versions are exact, the search is one over the names of the links.\<close>

lemma find_links:
  assumes "\<forall>e \<in> set es. sint (bl_version e) = int (bl_link e)" "0 \<le> sint v"
  shows "find (\<lambda>e. sint v < sint (bl_version e)) es = find (\<lambda>e. nat (sint v) < bl_link e) es"
  using assms by (intro find_cong) auto

lemma browse_links:
  assumes "\<forall>j < length bs. \<forall>e \<in> set (bs ! j). sint (bl_version e) = int (bl_link e)" "0 \<le> sint v"
  shows "browse bs b v = (b', v', Some e) \<Longrightarrow> b \<le> b' \<and> b' < length bs \<and>
      find (\<lambda>e. (if b' = b then nat (sint v) else 0) < bl_link e) (bs ! b') = Some e \<and>
      (\<forall>j. b \<le> j \<and> j < b' \<longrightarrow> find (\<lambda>e. (if j = b then nat (sint v) else 0) < bl_link e) (bs ! j) = None)"
    "browse bs b v = (b', v', None) \<Longrightarrow> length bs \<le> b' \<and>
      (\<forall>j. b \<le> j \<and> j < length bs \<longrightarrow> find (\<lambda>e. (if j = b then nat (sint v) else 0) < bl_link e) (bs ! j) = None)"
proof -
  have l: "find (\<lambda>e. sint (if j = b then v else 0) < sint (bl_version e)) (bs ! j) =
      find (\<lambda>e. (if j = b then nat (sint v) else 0) < bl_link e) (bs ! j)" if "j < length bs" for j
    using find_links [of "bs ! j" "if j = b then v else 0"] assms that by (cases "j = b") simp_all
  { assume "browse bs b v = (b', v', Some e)"
    note f = browse_found [OF this]
    have "find (\<lambda>e. (if b' = b then nat (sint v) else 0) < bl_link e) (bs ! b') = Some e" 
    proof -
      have w: "v' = (if b' = b then v else 0)" and b: "b' < length bs" and e: "find (\<lambda>e. sint v' < sint (bl_version e)) (bs ! b') = Some e"
        using f by blast+
      from e l [OF b] show ?thesis unfolding w by simp
    qed
    moreover have "find (\<lambda>e. (if j = b then nat (sint v) else 0) < bl_link e) (bs ! j) = None" if "b \<le> j \<and> j < b'" for j
      
    proof -
      have "find (\<lambda>e. sint (if j = b then v else 0) < sint (bl_version e)) (bs ! j) = None" "j < length bs"
        using f that by auto
      then show ?thesis using l by simp
    qed
    ultimately show "b \<le> b' \<and> b' < length bs \<and>
      find (\<lambda>e. (if b' = b then nat (sint v) else 0) < bl_link e) (bs ! b') = Some e \<and>
      (\<forall>j. b \<le> j \<and> j < b' \<longrightarrow> find (\<lambda>e. (if j = b then nat (sint v) else 0) < bl_link e) (bs ! j) = None)"
      using f by blast
  next
    assume "browse bs b v = (b', v', None)"
    note f = browse_end [OF this]
    then show "length bs \<le> b' \<and>
      (\<forall>j. b \<le> j \<and> j < length bs \<longrightarrow> find (\<lambda>e. (if j = b then nat (sint v) else 0) < bl_link e) (bs ! j) = None)"
      using l by metis
  }
qed

lemma find_next:
  assumes "sorted_wrt (<) (map bl_link es)"
  shows "find (\<lambda>e. v < bl_link e) es = Some e \<Longrightarrow>
      e \<in> set es \<and> v < bl_link e \<and> (\<forall>x \<in> set es. bl_link x \<le> bl_link e \<longleftrightarrow> bl_link x \<le> v \<or> x = e)"
    "find (\<lambda>e. v < bl_link e) es = None \<Longrightarrow> x \<in> set es \<Longrightarrow> bl_link x \<le> v"
  using assms
proof (induction es)
  case (Cons y es)
  { case 1
    then show ?case
    proof (cases "v < bl_link y")
      case True
      then have "e = y" using 1 by simp
      moreover have "\<forall>x \<in> set es. bl_link y < bl_link x" using 1(2) by auto
      ultimately show ?thesis using True by fastforce
    next
      case False
      then have "e \<in> set es \<and> v < bl_link e \<and>
          (\<forall>x \<in> set es. bl_link x \<le> bl_link e \<longleftrightarrow> bl_link x \<le> v \<or> x = e)"
        using Cons(1) 1 by simp
      then show ?thesis using False by auto
    qed
  next
    case 2
    then show ?case using Cons(2) by (auto split: if_splits)
  }
qed simp_all

lemma find_none_zero: "find (\<lambda>e. 0 < bl_link e) es = None \<Longrightarrow> \<forall>e \<in> set es. 0 < bl_link e \<Longrightarrow> es = []"
  by (cases es) auto

lemma iterator_next_browse:
  assumes "iter_inv c0 c a rs"
  shows "iterator_next c a = (Some e, a') \<Longrightarrow>
      (\<exists>v. browse (buckets c) (bucket a) (it_version a) = (bucket a', v, Some e)) \<and>
      a' = \<lparr>bucket = bucket a', it_c_version = c_version c, it_obj = Some (bl_link e), it_version = bl_version e\<rparr>"
    "iterator_next c a = (None, a') \<Longrightarrow> \<exists>b v. browse (buckets c) (bucket a) (it_version a) = (b, v, None)"
proof -
  let ?cached = "c_version c = it_c_version a \<and> it_obj a \<noteq> None"
  let ?br = "browse (buckets c) (bucket a) (it_version a)"
  have n: "length (buckets c) = n_buckets c" using assms by (simp add: iter_inv_def cont_ok_def)
  have c: "\<exists>v. it_obj a = Some v \<and> bucket a < n_buckets c \<and> reached a = v \<and>
      after_entry v (buckets c ! bucket a) = find (\<lambda>e. sint (it_version a) < sint (bl_version e)) (buckets c ! bucket a)" if cached: ?cached
  proof -
    obtain v where v: "it_obj a = Some v" using cached by auto
    then have v': "bucket a < n_buckets c" "reached a = v" "v \<in> bl_link ` set (buckets c ! bucket a)"
      using assms cached by (simp_all add: iter_inv_def)
    have "sorted_wrt (<) (map bl_link (buckets c ! bucket a))"
      using assms v'(1) by (simp add: iter_inv_def cont_ok_def link_ok_def)
    moreover have "\<forall>e \<in> set (buckets c ! bucket a). sint (bl_version e) = int (bl_link e)" "0 \<le> sint (it_version a)"
      using assms v'(1) by (auto simp: iter_inv_def versions_exact_def)
    ultimately show ?thesis using v v' after_entry_find [of "buckets c ! bucket a"] find_links [of "buckets c ! bucket a" "it_version a"]
      unfolding reached_def by metis
  qed
  have "(iterator_next c a = (Some e, a') \<longrightarrow>
      (\<exists>v. ?br = (bucket a', v, Some e)) \<and>
      a' = \<lparr>bucket = bucket a', it_c_version = c_version c, it_obj = Some (bl_link e), it_version = bl_version e\<rparr>) \<and>
    (iterator_next c a = (None, a') \<longrightarrow> (\<exists>b v. ?br = (b, v, None)))"
  proof (cases ?cached)
    case False
    then have f: "(c_version c = it_c_version a \<and> it_obj a \<noteq> None) = False" by blast
    obtain b v r where br: "?br = (b, v, r)" by (cases ?br)
    then show ?thesis unfolding iterator_next_def f by (cases r) (auto simp: Let_def)
  next
    case True
    then obtain v where v: "it_obj a = Some v" "bucket a < n_buckets c" "reached a = v"
      "after_entry v (buckets c ! bucket a) = find (\<lambda>e. sint (it_version a) < sint (bl_version e)) (buckets c ! bucket a)"
      using c by blast
    show ?thesis
    proof (cases "find (\<lambda>e. sint (it_version a) < sint (bl_version e)) (buckets c ! bucket a)")
      case None
      then have "?br = browse (buckets c) (bucket a + 1) 0" using v(2) n by (simp add: browse.simps [of _ "bucket a"])
      moreover obtain b w r where "browse (buckets c) (bucket a + 1) 0 = (b, w, r)" by (cases "browse (buckets c) (bucket a + 1) 0")
      ultimately show ?thesis using True v None by (cases r) (auto simp: iterator_next_def Let_def)
    next
      case (Some x)
      then have "?br = (bucket a, it_version a, Some x)" using v(2) n by (simp add: browse.simps [of _ "bucket a"])
      then show ?thesis using True v Some by (auto simp: iterator_next_def Let_def)
    qed
  qed
  then show "iterator_next c a = (Some e, a') \<Longrightarrow>
      (\<exists>v. ?br = (bucket a', v, Some e)) \<and>
      a' = \<lparr>bucket = bucket a', it_c_version = c_version c, it_obj = Some (bl_link e), it_version = bl_version e\<rparr>"
    "iterator_next c a = (None, a') \<Longrightarrow> \<exists>b v. ?br = (b, v, None)" by blast+
qed


lemma iterator_next_inv:
  assumes "iter_inv c0 c a rs" "iterator_next c a = (Some e, a')"
  shows "iter_inv c0 c a' (rs @ [e])"
proof -
  have ok: "cont_ok c" and n: "length (buckets c) = n_buckets c" using assms(1) by (simp_all add: iter_inv_def cont_ok_def)
  have sorted: "sorted_wrt (<) (map bl_link (buckets c ! j))" "\<forall>x \<in> set (buckets c ! j). 0 < bl_link x \<and> bl_link x < c_changes c"
    if "j < n_buckets c" for j
    using ok that by (simp_all add: cont_ok_def link_ok_def)
  obtain v where b: "browse (buckets c) (bucket a) (it_version a) = (bucket a', v, Some e)"
    and a': "a' = \<lparr>bucket = bucket a', it_c_version = c_version c, it_obj = Some (bl_link e), it_version = bl_version e\<rparr>"
    using iterator_next_browse(1) [OF assms] by blast
  have exact: "\<forall>j < length (buckets c). \<forall>x \<in> set (buckets c ! j). sint (bl_version x) = int (bl_link x)"
    and pos: "0 \<le> sint (it_version a)"
    using assms(1) n by (simp_all add: iter_inv_def versions_exact_def)
  note br = browse_links(1) [OF exact pos b, folded reached_def]
  let ?b = "bucket a'" and ?v = "if bucket a' = bucket a then reached a else 0"
  have bn: "?b < n_buckets c" using br n by simp
  have e: "e \<in> set (buckets c ! ?b)" "?v < bl_link e"
    "\<forall>x \<in> set (buckets c ! ?b). bl_link x \<le> bl_link e \<longleftrightarrow> bl_link x \<le> ?v \<or> x = e"
    using find_next(1) [OF sorted(1) [OF bn]] br by blast+
  have sel: "it_c_version a' = c_version c" "it_obj a' = Some (bl_link e)" "it_version a' = bl_version e"
    using a' by (metis ao2_iterator.select_convs)+
  have ev: "sint (bl_version e) = int (bl_link e)" using exact bn n e(1) by simp
  then have reach: "reached a' = bl_link e" by (simp add: reached_def sel)
  have vc: "versions_exact c" "sint (c_version c) = int (c_changes c)" using assms(1) by (simp_all add: iter_inv_def versions_exact_def)
  have pass: "passed a' j x \<longleftrightarrow> passed a j x \<or> x = e \<and> j = ?b" if "j < n_buckets c" "x \<in> set (buckets c ! j)" for j x
  proof -
    note v = reach
    consider "j < bucket a" | "j = bucket a" "j < ?b" | "bucket a < j" "j < ?b" | "j = ?b" | "?b < j" using br by linarith
    then show ?thesis
    proof cases
      case 2
      then have "bl_link x \<le> reached a"
        using br find_next(2) [OF sorted(1) [OF that(1)] _ that(2)] by auto
      then show ?thesis using 2 by (auto simp: passed_def)
    next
      case 3
      have "\<forall>j. bucket a \<le> j \<and> j < ?b \<longrightarrow> find (\<lambda>e. (if j = bucket a then reached a else 0) < bl_link e) (buckets c ! j) = None"
        using br by blast
      from this [rule_format, of j] 3 have "find (\<lambda>e. 0 < bl_link e) (buckets c ! j) = None" by simp
      then have "buckets c ! j = []" using find_none_zero [of "buckets c ! j"] sorted(2) [OF that(1)] by blast
      then show ?thesis using that(2) by simp
    next
      case 4
      then have "bl_link x \<le> bl_link e \<longleftrightarrow> bl_link x \<le> ?v \<or> x = e" using e(3) that(2) by simp
      moreover have "0 < bl_link x" using sorted(2) that by blast
      ultimately show ?thesis using 4 br v by (cases "?b = bucket a") (auto simp: passed_def)
    qed (use br in \<open>auto simp: passed_def\<close>)
  qed
  have new: "\<not> passed a ?b e" using e(2) br sorted(2) [OF bn] e(1) by (auto simp: passed_def split: if_splits)
  then have "e \<notin> set rs" using assms(1) bn e(1) unfolding iter_inv_def by blast
  then have fresh: "bl_link e \<notin> bl_link ` set rs" using assms(1) bn e(1) unfolding iter_inv_def by blast
  have same: "j = ?b \<and> x = e" if "j < n_buckets c" "x \<in> set (buckets c ! j)" "bl_link x = bl_link e" for j x
    using assms(1) that bn e(1) unfolding iter_inv_def uniq_def by blast
  have links: "(x \<in> set (rs @ [e]) \<longrightarrow> passed a' j x) \<and>
      (bl_link x \<in> bl_link ` set (rs @ [e]) \<longrightarrow> x \<in> set (rs @ [e])) \<and>
      (passed a' j x \<and> bl_link x < c_changes c0 \<longrightarrow> x \<in> set (rs @ [e]))"
    if "j < n_buckets c" "x \<in> set (buckets c ! j)" for j x
  proof (cases "x = e")
    case True
    then have "j = ?b" using same [OF that] by blast
    then show ?thesis using pass [OF that] True by simp
  next
    case False
    then have "bl_link x \<noteq> bl_link e" using same [OF that] by blast
    then have "bl_link x \<in> bl_link ` set (rs @ [e]) \<longleftrightarrow> bl_link x \<in> bl_link ` set rs" by simp
    moreover have "x \<in> set (rs @ [e]) \<longleftrightarrow> x \<in> set rs" using False by simp
    moreover have "passed a' j x \<longleftrightarrow> passed a j x" using pass [OF that] False by blast
    moreover have "(x \<in> set rs \<longrightarrow> passed a j x) \<and> (bl_link x \<in> bl_link ` set rs \<longrightarrow> x \<in> set rs) \<and>
        (passed a j x \<and> bl_link x < c_changes c0 \<longrightarrow> x \<in> set rs)"
      using assms(1) that unfolding iter_inv_def by blast
    ultimately show ?thesis by (simp only:)
  qed
  have "bl_link e \<in> bl_link ` set (buckets c ! ?b)" using e(1) by blast
  moreover have "bl_link e < c_changes c" using sorted(2) [OF bn] e(1) by blast
  moreover have "distinct (map bl_link rs)" "\<forall>x \<in> set rs. bl_link x < c_changes c" "uniq c"
    "n_buckets c = n_buckets c0" "c_changes c0 \<le> c_changes c"
    using assms(1) unfolding iter_inv_def by blast+
  ultimately show ?thesis unfolding iter_inv_def using ok links fresh bn sel ev reach vc by auto
qed


lemma iter_inv_start: "cont_ok c \<Longrightarrow> uniq c \<Longrightarrow> versions_exact c \<Longrightarrow> iter_inv c c iterator_start []"
  by (fastforce simp: iter_inv_def iterator_start_def passed_def reached_def cont_ok_def link_ok_def)

lemma iter_inv_link:
  assumes "iter_inv c0 c a rs" "i < n_buckets c" "c_changes c + 1 < 2 ^ 31"
  shows "iter_inv c0 (link_entry i p c) a rs"
proof -
  let ?c = "link_entry i p c" and ?e = "\<lparr>bl_link = c_changes c, bl_version = c_version c, bl_obj = p\<rparr>"
  have ok: "cont_ok c" "uniq c" using assms(1) by (simp_all add: iter_inv_def)
  have below: "bl_link x < c_changes c" if "j < n_buckets c" "x \<in> set (buckets c ! j)" for j x
    using ok(1) that by (auto simp: cont_ok_def link_ok_def)
  have links: "x \<in> set (buckets ?c ! j) \<longleftrightarrow> x \<in> set (buckets c ! j) \<or> j = i \<and> x = ?e" if "j < n_buckets c" for j x
    using ok(1) assms(2) that by (auto simp: link_entry_def cont_ok_def nth_list_update)
  have n: "n_buckets ?c = n_buckets c" "c_changes ?c = c_changes c + 1" by (simp_all add: link_entry_def)
  have "uniq ?c" unfolding uniq_def n
  proof (intro allI impI ballI)
    fix j k x y
    assume j: "j < n_buckets c" "x \<in> set (buckets ?c ! j)" and k: "k < n_buckets c" "y \<in> set (buckets ?c ! k)"
      and v: "bl_link x = bl_link y"
    have "x = ?e \<and> j = i \<longleftrightarrow> y = ?e \<and> k = i"
      using links [OF j(1), of x] links [OF k(1), of y] j k v below [of j x] below [of k y] by auto
    then show "j = k \<and> x = y"
      using links [OF j(1), of x] links [OF k(1), of y] j k v ok(2) unfolding uniq_def by blast
  qed
  moreover have "(x \<in> set rs \<longrightarrow> passed a j x) \<and> (bl_link x \<in> bl_link ` set rs \<longrightarrow> x \<in> set rs) \<and>
      (passed a j x \<and> bl_link x < c_changes c0 \<longrightarrow> x \<in> set rs)"
    if "j < n_buckets c" "x \<in> set (buckets ?c ! j)" for j x
  proof (cases "x \<in> set (buckets c ! j)")
    case True
    then show ?thesis using assms(1) that(1) unfolding iter_inv_def by blast
  next
    case False
    then have "x = ?e" using links that by blast
    moreover have "\<forall>y \<in> set rs. bl_link y < c_changes c" "c_changes c0 \<le> c_changes c"
      using assms(1) by (simp_all add: iter_inv_def)
    ultimately show ?thesis by fastforce
  qed
  moreover have "distinct (map bl_link rs)" "\<forall>x \<in> set rs. bl_link x < c_changes c + 1" "sint (it_c_version a) \<le> int (c_changes c)" "0 \<le> sint (it_version a)"
    "n_buckets c = n_buckets c0" "c_changes c0 \<le> c_changes c"
    using assms(1) unfolding iter_inv_def by (auto simp: less_SucI)
  moreover have ex: "versions_exact ?c" using assms versions_exact_link ok(1) by (simp add: iter_inv_def)
  moreover have "it_c_version a \<noteq> c_version ?c"
    using \<open>sint (it_c_version a) \<le> int (c_changes c)\<close> ex n by (auto simp: versions_exact_def)
  moreover have "sint (it_c_version a) \<le> int (c_changes ?c)" using \<open>sint (it_c_version a) \<le> int (c_changes c)\<close> n by simp
  moreover note link_entry_ok [OF ok(1) assms(2)]
  ultimately show ?thesis unfolding iter_inv_def n by (intro conjI) (blast | linarith)+
qed

lemma iter_inv_unlink:
  assumes "iter_inv c0 c a rs" "i < n_buckets c" "e \<in> set (buckets c ! i)" "c_changes c + 1 < 2 ^ 31"
  shows "iter_inv c0 (unlink_entry i e c) a rs"
proof -
  let ?c = "unlink_entry i e c"
  have ok: "cont_ok c" "uniq c" using assms(1) by (simp_all add: iter_inv_def)
  have sub: "set (buckets ?c ! j) \<subseteq> set (buckets c ! j)" if "j < n_buckets c" for j
    using ok(1) assms(2) that by (auto simp: unlink_entry_def cont_ok_def nth_list_update split: if_splits)
  have n: "n_buckets ?c = n_buckets c" "c_changes ?c = c_changes c + 1" by (simp_all add: unlink_entry_def)
  have "uniq ?c" using ok(2) sub unfolding uniq_def n by blast
  moreover have "(x \<in> set rs \<longrightarrow> passed a j x) \<and> (bl_link x \<in> bl_link ` set rs \<longrightarrow> x \<in> set rs) \<and>
      (passed a j x \<and> bl_link x < c_changes c0 \<longrightarrow> x \<in> set rs)"
    if "j < n_buckets c" "x \<in> set (buckets ?c ! j)" for j x
    using assms(1) that sub unfolding iter_inv_def by blast
  moreover have "distinct (map bl_link rs)" "\<forall>x \<in> set rs. bl_link x < c_changes c + 1" "sint (it_c_version a) \<le> int (c_changes c)" "0 \<le> sint (it_version a)"
    "n_buckets c = n_buckets c0" "c_changes c0 \<le> c_changes c"
    using assms(1) unfolding iter_inv_def by (auto simp: less_SucI)
  moreover have ex: "versions_exact ?c" using assms versions_exact_unlink ok(1) by (simp add: iter_inv_def)
  moreover have "it_c_version a \<noteq> c_version ?c"
    using \<open>sint (it_c_version a) \<le> int (c_changes c)\<close> ex n by (auto simp: versions_exact_def)
  moreover have "sint (it_c_version a) \<le> int (c_changes ?c)" using \<open>sint (it_c_version a) \<le> int (c_changes c)\<close> n by simp
  moreover note unlink_entry_ok(1) [OF ok(1) assms(2,3)]
  ultimately show ?thesis unfolding iter_inv_def n by (intro conjI) (blast | linarith)+
qed

lemma iter_run_inv:
  "iter_run c0 c a rs \<Longrightarrow> cont_ok c0 \<Longrightarrow> uniq c0 \<Longrightarrow> versions_exact c0 \<Longrightarrow> c_changes c < 2 ^ 31 \<Longrightarrow> iter_inv c0 c a rs"
proof (induction rule: iter_run.induct)
  case (link c a rs i p)
  then show ?case by (intro iter_inv_link) (simp_all add: link_entry_def [of i p c])
next
  case (unlink c a rs i e)
  then show ?case by (intro iter_inv_unlink) (simp_all add: unlink_entry_def [of i e c])
qed (simp_all add: iter_inv_start iterator_next_inv)

lemma iterator_end_passed:
  assumes "iter_inv c0 c a rs" "iterator_next c a = (None, a')" "j < n_buckets c" "x \<in> set (buckets c ! j)"
  shows "passed a j x"
proof -
  have ok: "cont_ok c" and n: "length (buckets c) = n_buckets c" using assms(1) by (simp_all add: iter_inv_def cont_ok_def)
  have s: "sorted_wrt (<) (map bl_link (buckets c ! j))" "\<forall>x \<in> set (buckets c ! j). 0 < bl_link x"
    using ok assms(3) by (simp_all add: cont_ok_def link_ok_def)
  obtain b v where "browse (buckets c) (bucket a) (it_version a) = (b, v, None)"
    using iterator_next_browse(2) [OF assms(1,2)] by blast
  from browse_links(2) [OF _ _ this, folded reached_def] have e: "bucket a \<le> j \<Longrightarrow>
      find (\<lambda>e. (if j = bucket a then reached a else 0) < bl_link e) (buckets c ! j) = None"
    using assms(1,3) n by (auto simp: iter_inv_def versions_exact_def)
  consider "j < bucket a" | "j = bucket a" | "bucket a < j" by linarith
  then show ?thesis
  proof cases
    case 2
    then have "bl_link x \<le> reached a" using e find_next(2) [OF s(1) _ assms(4)] by simp
    then show ?thesis using 2 by (simp add: passed_def)
  next
    case 3
    then have "buckets c ! j = []" using e find_none_zero s(2) by simp
    then show ?thesis using assms(4) by simp
  qed (simp add: passed_def)
qed

text \<open>Claim C13. An iteration misses nothing: whatever is linked and unlinked between its steps, once
  the iterator is at its end it has returned every link that was in the container from the beginning
  to the end, and it has returned no link twice. This is so as long as the versions, which are a signed
  \<open>int\<close>, have not wrapped: the versions are those of a container that has changed less than
  \<open>2 ^ 31\<close> times since it was made.\<close>

theorem iteration_complete:
  assumes "cont_ok c0" "uniq c0" "versions_exact c0" "c_changes c < 2 ^ 31"
    and "iter_run c0 c a rs" "iterator_next c a = (None, a')"
    and "i < n_buckets c0" "e \<in> set (buckets c0 ! i)" "e \<in> set (buckets c ! i)"
  shows "e \<in> set rs \<and> distinct rs"
proof -
  have inv: "iter_inv c0 c a rs" by (rule iter_run_inv [OF assms(5,1-4)])
  then have n: "n_buckets c = n_buckets c0" by (simp add: iter_inv_def)
  have "bl_link e < c_changes c0" using assms(1,7,8) by (auto simp: cont_ok_def link_ok_def)
  moreover have "passed a i e" using iterator_end_passed [OF inv assms(6)] assms(7,9) n by simp
  moreover have "i < n_buckets c" using assms(7) n by simp
  ultimately have "e \<in> set rs" using inv assms(9) unfolding iter_inv_def by blast
  moreover have "distinct rs" using inv distinct_map unfolding iter_inv_def by blast
  ultimately show ?thesis by blast
qed


theorem iteration_complete_witness:
  "\<exists>a rs. iter_run sample_container (link_entry 0 3 sample_container) a rs \<and>
     \<lparr>bl_link = 2, bl_version = 2, bl_obj = 2\<rparr> \<in> set rs \<and> distinct rs \<and> length rs = 3"
proof -
  let ?c = "link_entry 0 3 sample_container"
  let ?e = "\<lambda>n. \<lparr>bl_link = n, bl_version = word_of_nat n, bl_obj = n\<rparr>"
  let ?a = "\<lambda>w n. \<lparr>bucket = 0, it_c_version = w, it_obj = Some n, it_version = word_of_nat n\<rparr>"
  have v: "c_changes sample_container = 3" "c_version sample_container = 3" "n_buckets sample_container = 1"
    by (simp_all add: sample_container_def link_entry_def new_container_def)
  have l: "buckets ?c = [[?e 1, ?e 2, ?e 3]]" by (simp add: link_entry_def sample_links v)
  have vc: "c_changes ?c = 4" "c_version ?c = 4" by (simp_all add: link_entry_def v)
  have s1: "iterator_next sample_container iterator_start = (Some (?e 1), ?a 3 1)"
    by (simp add: iterator_next_def iterator_start_def v sample_links browse.simps)
  have s2: "iterator_next ?c (?a 3 1) = (Some (?e 2), ?a 4 2)"
    by (simp add: iterator_next_def vc l browse.simps)
  have s3: "iterator_next ?c (?a 4 2) = (Some (?e 3), ?a 4 3)"
    by (simp add: iterator_next_def vc l)
  have s4: "\<exists>a'. iterator_next ?c (?a 4 3) = (None, a')"
    by (simp add: iterator_next_def vc l browse.simps)
  have r1: "iter_run sample_container sample_container (?a 3 1) ([] @ [?e 1])"
    by (rule iter_run.step [OF iter_run.start s1])
  have r2: "iter_run sample_container ?c (?a 3 1) ([] @ [?e 1])"
    by (rule iter_run.link [OF r1]) (simp add: v)
  have r: "iter_run sample_container ?c (?a 4 3) ((([] @ [?e 1]) @ [?e 2]) @ [?e 3])"
    by (rule iter_run.step [OF iter_run.step [OF r2 s2] s3])
  have u: "uniq sample_container" by (auto simp: uniq_def v sample_links)
  have x: "versions_exact sample_container" by (simp add: versions_exact_def v sample_links)
  from s4 obtain a' where s4: "iterator_next ?c (?a 4 3) = (None, a')" by blast
  have "?e 2 \<in> set ((([] @ [?e 1]) @ [?e 2]) @ [?e 3]) \<and> distinct ((([] @ [?e 1]) @ [?e 2]) @ [?e 3])"
    by (rule iteration_complete [OF sample_container_ok u x _ r s4, of 0]) (simp_all add: v vc sample_links l)
  then show ?thesis using r by (intro exI conjI) auto
qed


end
