(* ===== verification/Translate.thy ===== *)
theory Translate
  imports Prelude Timeval
begin

text \<open>
  Translation paths, \<open>main/translate.c\<close>: the matrix that holds, for every pair of formats, the cost
  of the cheapest sequence of translators and its first step. The operations on the matrix come
  first, then the proof that the loop of \<open>rebuild_matrix\<close> ends and finds cheapest paths.
\<close>

section \<open>Formats\<close>

definition MAX_FORMAT :: nat where "MAX_FORMAT = 32"
definition MAX_AUDIO_FORMAT :: nat where "MAX_AUDIO_FORMAT = 15"
definition TRIS_FORMAT_AUDIO_MASK :: u32 where "TRIS_FORMAT_AUDIO_MASK = push_bit 16 1 - 1"
definition TRIS_FORMAT_VIDEO_MASK :: u32 where
  "TRIS_FORMAT_VIDEO_MASK = (push_bit 24 1 - 1) AND NOT TRIS_FORMAT_AUDIO_MASK"
definition INT_MAX :: u32 where "INT_MAX = 0x7FFFFFFF"

text \<open>\<open>ffs\<close> of the C library: the number of the lowest bit set, from 1, or 0.\<close>

definition ffs :: "u32 \<Rightarrow> int" where
  "ffs d = (case List.find (bit d) [0..<32] of Some i \<Rightarrow> int i + 1 | None \<Rightarrow> 0)"

definition powerof :: "u32 \<Rightarrow> int" where
  "powerof d = (let x = ffs d in if x \<noteq> 0 then x - 1 else - 1)"

section \<open>Translators\<close>

text \<open>A translator, without its callbacks, and a cell of the matrix. Translators are known by
  their addresses \<open>tid\<close>; \<open>cost\<close> holds the bits of an \<open>int\<close>.\<close>

type_synonym tid = nat

record tris_translator =
  tr_name :: string
  srcfmt :: int
  dstfmt :: int
  buffer_samples :: int
  buf_size :: int
  desc_size :: int
  plc_samples :: int
  useplc :: bool
  native_plc :: bool
  tr_cost :: u32
  tr_active :: bool

record translator_path =
  step :: "tid option"
  pcost :: u32
  multistep :: u32

type_synonym tr_matrix = "nat \<Rightarrow> nat \<Rightarrow> translator_path"

definition no_path :: translator_path where
  "no_path = \<lparr>step = None, pcost = 0, multistep = 0\<rparr>"

definition set_cell :: "nat \<Rightarrow> nat \<Rightarrow> translator_path \<Rightarrow> tr_matrix \<Rightarrow> tr_matrix" where
  "set_cell x z c m = m(x := (m x)(z := c))"

section \<open>The matrix of paths\<close>

text \<open>The direct costs.\<close>

definition direct :: "(tid \<Rightarrow> tris_translator) \<Rightarrow> tid \<Rightarrow> tr_matrix \<Rightarrow> tr_matrix" where
  "direct trs p m =
     (let t = trs p; x = nat (srcfmt t); z = nat (dstfmt t) in
      if \<not> tr_active t then m
      else if step (m x z) = None \<or> tr_cost t < pcost (m x z)
      then set_cell x z (m x z\<lparr>step := Some p, pcost := tr_cost t\<rparr>) m
      else m)"

text \<open>The body of the three loops, with the counter of changes.\<close>

definition relax :: "nat \<Rightarrow> nat \<Rightarrow> nat \<Rightarrow> tr_matrix \<times> nat \<Rightarrow> tr_matrix \<times> nat" where
  "relax x y z = (\<lambda>(m, changed).
     if z = x \<or> z = y then (m, changed)
     else if step (m x y) = None then (m, changed)
     else if step (m y z) = None then (m, changed)
     else
       let newcost = pcost (m x y) + pcost (m y z) in
       if step (m x z) \<noteq> None \<and> pcost (m x z) \<le> newcost then (m, changed)
       else (set_cell x z \<lparr>step = step (m x y), pcost = newcost, multistep = 1\<rparr> m, changed + 1))"

definition sweep :: "tr_matrix \<Rightarrow> tr_matrix \<times> nat" where
  "sweep m =
     fold (\<lambda>x. fold (\<lambda>y. if x = y then id else fold (\<lambda>z. relax x y z) [0..<MAX_FORMAT])
                 [0..<MAX_FORMAT])
       [0..<MAX_FORMAT] (m, 0)"

text \<open>The same as one loop over the triples.\<close>

definition triples :: "(nat \<times> nat \<times> nat) list" where
  "triples =
     concat (map (\<lambda>x. concat (map (\<lambda>y. if x = y then [] else map (\<lambda>z. (x, y, z)) [0..<MAX_FORMAT])
                                  [0..<MAX_FORMAT]))
               [0..<MAX_FORMAT])"

lemma fold_concat: "fold f (concat xss) = fold (fold f) xss"
  by (induction xss) (auto simp: fun_eq_iff)

lemma fold_if_Nil: "fold f (if b then [] else xs) = (if b then id else fold f xs)"
  by simp

lemma sweep_triples: "sweep m = fold (\<lambda>(x, y, z). relax x y z) triples (m, 0)"
  unfolding sweep_def triples_def by (simp only: fold_concat fold_map comp_def fold_if_Nil prod.case)

lemma in_concatI: "xs \<in> set xss \<Longrightarrow> a \<in> set xs \<Longrightarrow> a \<in> set (concat xss)"
  by auto

lemma triples_iff: "(x, y, z) \<in> set triples \<longleftrightarrow> x < MAX_FORMAT \<and> y < MAX_FORMAT \<and> z < MAX_FORMAT \<and> x \<noteq> y"
proof
  assume "(x, y, z) \<in> set triples"
  then show "x < MAX_FORMAT \<and> y < MAX_FORMAT \<and> z < MAX_FORMAT \<and> x \<noteq> y"
    by (auto simp: triples_def split: if_splits)
next
  assume *: "x < MAX_FORMAT \<and> y < MAX_FORMAT \<and> z < MAX_FORMAT \<and> x \<noteq> y"
  let ?zs = "\<lambda>y. if x = y then [] else map (\<lambda>z. (x, y, z)) [0..<MAX_FORMAT]"
  have 1: "(x, y, z) \<in> set (?zs y)" using * by simp
  have 2: "?zs y \<in> set (map ?zs [0..<MAX_FORMAT])" unfolding set_map using * by (intro image_eqI [of _ _ y]) auto
  have 3: "(x, y, z) \<in> set (concat (map ?zs [0..<MAX_FORMAT]))" by (rule in_concatI [OF 2 1])
  have 4: "concat (map ?zs [0..<MAX_FORMAT])
      \<in> set (map (\<lambda>x. concat (map (\<lambda>y. if x = y then [] else map (\<lambda>z. (x, y, z)) [0..<MAX_FORMAT])
                                  [0..<MAX_FORMAT])) [0..<MAX_FORMAT])"
    unfolding set_map using * by (intro image_eqI [of _ _ x]) auto
  show "(x, y, z) \<in> set triples"
    unfolding triples_def by (rule in_concatI [OF 4 3])
qed

lemma sweep_rule:
  assumes "P (m, 0)"
    and "\<And>x y z s. \<lbrakk>x < MAX_FORMAT; y < MAX_FORMAT; z < MAX_FORMAT; x \<noteq> y; P s\<rbrakk> \<Longrightarrow> P (relax x y z s)"
  shows "P (sweep m)"
  unfolding sweep_triples
  by (rule fold_invariant [where Q = "\<lambda>t. t \<in> set triples"]) (auto simp: assms(1) triples_iff intro: assms(2))

text \<open>Every change lowers the sum of the costs, where a missing path counts most.\<close>

definition cell_weight :: "translator_path \<Rightarrow> nat" where
  "cell_weight c = (if step c = None then 2 ^ 32 else unat (pcost c))"

definition potential :: "tr_matrix \<Rightarrow> nat" where
  "potential m = (\<Sum>x < MAX_FORMAT. \<Sum>z < MAX_FORMAT. cell_weight (m x z))"

lemma potential_set_cell:
  assumes "x < MAX_FORMAT" "z < MAX_FORMAT" "cell_weight c < cell_weight (m x z)"
  shows "potential (set_cell x z c m) < potential m"
proof -
  have row: "(\<Sum>z' < MAX_FORMAT. cell_weight (set_cell x z c m x z')) < (\<Sum>z' < MAX_FORMAT. cell_weight (m x z'))"
    using assms(2,3) by (intro sum_strict_mono_ex1) (auto simp: set_cell_def)
  show ?thesis unfolding potential_def
    using assms(1) row by (intro sum_strict_mono_ex1) (auto simp: set_cell_def)
qed

lemma cell_weight_less:
  assumes "step c \<noteq> None" "step d = None \<or> pcost c < pcost d"
  shows "cell_weight c < cell_weight d"
  using assms unsigned_less [of "pcost c"] by (auto simp: cell_weight_def word_less_nat_alt)

lemma relax_cases:
  obtains (same) "relax x y z (m, n) = (m, n)"
    | (change) c where "relax x y z (m, n) = (set_cell x z c m, Suc n)" "z \<noteq> x" "z \<noteq> y"
        "step (m x y) \<noteq> None" "step (m y z) \<noteq> None" "c = \<lparr>step = step (m x y), pcost = pcost (m x y) + pcost (m y z), multistep = 1\<rparr>"
        "step (m x z) = None \<or> pcost c < pcost (m x z)"
  by (cases "relax x y z (m, n) = (m, n)") (auto simp: relax_def Let_def not_le split: if_splits)

lemma relax_potential:
  assumes "x < MAX_FORMAT" "z < MAX_FORMAT"
  shows "potential (fst (relax x y z s)) + snd (relax x y z s) \<le> potential (fst s) + snd s"
proof (cases s)
  case (Pair m n)
  show ?thesis
  proof (cases rule: relax_cases [of x y z m n])
    case (change c)
    have "potential (set_cell x z c m) < potential m"
      using assms change by (intro potential_set_cell) (auto intro!: cell_weight_less)
    then show ?thesis using Pair change by simp
  qed (simp add: Pair)
qed

lemma sweep_potential: "potential (fst (sweep m)) + snd (sweep m) \<le> potential m"
  by (rule sweep_rule) (auto intro: order_trans [OF relax_potential])

text \<open>The loop \<open>for (;;)\<close>. It ends, even where sums of costs wrap around.\<close>

function rebuild_loop :: "tr_matrix \<Rightarrow> tr_matrix" where
  "rebuild_loop m = (let (m', changed) = sweep m in if changed = 0 then m' else rebuild_loop m')"
  by auto
termination
proof (relation "measure potential")
  fix m m' :: tr_matrix and s changed
  assume "s = sweep m" "(m', changed) = s" "changed \<noteq> 0"
  then show "(m', m) \<in> measure potential" using sweep_potential [of m] by (cases "sweep m") auto
qed auto

declare rebuild_loop.simps [simp del]

section \<open>The loop ends in a stable matrix\<close>

definition stable :: "tr_matrix \<Rightarrow> bool" where
  "stable m \<longleftrightarrow>
     (\<forall>x y z. x < MAX_FORMAT \<longrightarrow> y < MAX_FORMAT \<longrightarrow> z < MAX_FORMAT \<longrightarrow> x \<noteq> y \<longrightarrow> z \<noteq> x \<longrightarrow> z \<noteq> y \<longrightarrow>
        step (m x y) \<noteq> None \<longrightarrow> step (m y z) \<noteq> None \<longrightarrow>
        step (m x z) \<noteq> None \<and> pcost (m x z) \<le> pcost (m x y) + pcost (m y z))"

lemma relax_mono: "snd s \<le> snd (relax x y z s)"
  by (cases s, cases rule: relax_cases [of x y z "fst s" "snd s"]) auto

lemma fold_relax_mono: "snd s \<le> snd (fold (\<lambda>(x, y, z). relax x y z) ts s)"
proof (induction ts arbitrary: s)
  case (Cons t ts)
  obtain x y z where t: "t = (x, y, z)" by (cases t)
  show ?case using order_trans [OF relax_mono Cons] by (simp add: t)
qed simp

lemma fold_relax_same:
  assumes "snd (fold (\<lambda>(x, y, z). relax x y z) ts (m, n)) = n"
  shows "fst (fold (\<lambda>(x, y, z). relax x y z) ts (m, n)) = m \<and>
    (\<forall>(x, y, z) \<in> set ts. relax x y z (m, n) = (m, n))"
  using assms
proof (induction ts)
  case (Cons t ts)
  obtain x y z where t: "t = (x, y, z)" by (cases t)
  show ?case
  proof (cases rule: relax_cases [of x y z m n])
    case same then show ?thesis using Cons t by simp
  next
    case (change c)
    then have "Suc n \<le> n"
      using Cons.prems t fold_relax_mono [of "(set_cell x z c m, Suc n)" ts] by simp
    then show ?thesis by simp
  qed
qed simp

lemma relax_same_iff:
  "relax x y z (m, n) = (m, n) \<longleftrightarrow>
     (z = x \<or> z = y \<or> step (m x y) = None \<or> step (m y z) = None \<or>
      step (m x z) \<noteq> None \<and> pcost (m x z) \<le> pcost (m x y) + pcost (m y z))"
  by (auto simp: relax_def Let_def)

lemma sweep_unchanged:
  assumes "snd (sweep m) = 0"
  shows "fst (sweep m) = m" "stable m"
proof -
  have *: "fst (sweep m) = m \<and> (\<forall>(x, y, z) \<in> set triples. relax x y z (m, 0) = (m, 0))"
    using assms unfolding sweep_triples by (rule fold_relax_same)
  then show "fst (sweep m) = m" by simp
  show "stable m" unfolding stable_def
  proof (intro allI impI)
    fix x y z assume "x < MAX_FORMAT" "y < MAX_FORMAT" "z < MAX_FORMAT" "x \<noteq> y"
      and n: "z \<noteq> x" "z \<noteq> y" "step (m x y) \<noteq> None" "step (m y z) \<noteq> None"
    then have "(x, y, z) \<in> set triples" by (simp add: triples_iff)
    then have "relax x y z (m, 0) = (m, 0)" using * by blast
    then show "step (m x z) \<noteq> None \<and> pcost (m x z) \<le> pcost (m x y) + pcost (m y z)"
      using n by (simp add: relax_same_iff)
  qed
qed

lemma rebuild_loop_rule:
  assumes "P m" and "\<And>m. P m \<Longrightarrow> P (fst (sweep m))"
  shows "P (rebuild_loop m) \<and> stable (rebuild_loop m)"
  using assms(1)
proof (induction m rule: rebuild_loop.induct)
  case (1 m)
  obtain m' n where s: "sweep m = (m', n)" by (cases "sweep m")
  show ?case
  proof (cases "n = 0")
    case True
    then show ?thesis using s sweep_unchanged [of m] 1(2) by (simp add: rebuild_loop.simps [of m])
  next
    case False
    then show ?thesis using s 1 assms(2) [of m] by (simp add: rebuild_loop.simps [of m])
  qed
qed

section \<open>Walks through the translators\<close>

text \<open>A sequence of active, registered translators each of which takes what the one before gives.\<close>

fun walk :: "(tid \<Rightarrow> tris_translator) \<Rightarrow> tid list \<Rightarrow> nat \<Rightarrow> tid list \<Rightarrow> nat \<Rightarrow> bool" where
  "walk trs ps x [] z \<longleftrightarrow> x = z"
| "walk trs ps x (p # ts) z \<longleftrightarrow>
     p \<in> set ps \<and> tr_active (trs p) \<and> nat (srcfmt (trs p)) = x \<and> walk trs ps (nat (dstfmt (trs p))) ts z"

definition walk_cost :: "(tid \<Rightarrow> tris_translator) \<Rightarrow> tid list \<Rightarrow> nat" where
  "walk_cost trs ts = sum_list (map (\<lambda>p. unat (tr_cost (trs p))) ts)"

definition valid_translators :: "(tid \<Rightarrow> tris_translator) \<Rightarrow> tid list \<Rightarrow> bool" where
  "valid_translators trs ps \<longleftrightarrow>
     (\<forall>p \<in> set ps. 0 \<le> srcfmt (trs p) \<and> srcfmt (trs p) < int MAX_FORMAT \<and>
        0 \<le> dstfmt (trs p) \<and> dstfmt (trs p) < int MAX_FORMAT \<and> 0 < tr_cost (trs p))"

definition direct_matrix :: "(tid \<Rightarrow> tris_translator) \<Rightarrow> tid list \<Rightarrow> tr_matrix" where
  "direct_matrix trs ps = fold (direct trs) ps (\<lambda>_ _. no_path)"

definition path_matrix :: "(tid \<Rightarrow> tris_translator) \<Rightarrow> tid list \<Rightarrow> tr_matrix" where
  "path_matrix trs ps = rebuild_loop (direct_matrix trs ps)"

lemma walk_cost_simps [simp]:
  "walk_cost trs [] = 0"
  "walk_cost trs (p # ts) = unat (tr_cost (trs p)) + walk_cost trs ts"
  "walk_cost trs (ts @ us) = walk_cost trs ts + walk_cost trs us"
  by (simp_all add: walk_cost_def)

lemma walk_append: "walk trs ps x ts y \<Longrightarrow> walk trs ps y us z \<Longrightarrow> walk trs ps x (ts @ us) z"
  by (induction ts arbitrary: x) auto

lemma walk_appendD: "walk trs ps x (ts @ us) z \<Longrightarrow> \<exists>y. walk trs ps x ts y \<and> walk trs ps y us z"
  by (induction ts arbitrary: x) auto

lemma walk_mono: "walk trs ps x ts z \<Longrightarrow> set ps \<subseteq> set qs \<Longrightarrow> walk trs qs x ts z"
  by (induction ts arbitrary: x) auto

lemma walk_bounds:
  "valid_translators trs ps \<Longrightarrow> walk trs ps x (p # ts) z \<Longrightarrow> x < MAX_FORMAT \<and> nat (dstfmt (trs p)) < MAX_FORMAT"
  by (auto simp: valid_translators_def nat_less_iff)

text \<open>Whether all the sums the loop computes fit an \<open>unsigned int\<close>.\<close>

definition sum_fits :: "nat \<Rightarrow> nat \<Rightarrow> nat \<Rightarrow> tr_matrix \<Rightarrow> bool" where
  "sum_fits x y z m \<longleftrightarrow>
     (z \<noteq> x \<and> z \<noteq> y \<and> step (m x y) \<noteq> None \<and> step (m y z) \<noteq> None \<longrightarrow>
      unat (pcost (m x y)) + unat (pcost (m y z)) < 2 ^ 32)"

fun sums_fit :: "(nat \<times> nat \<times> nat) list \<Rightarrow> tr_matrix \<Rightarrow> bool" where
  "sums_fit [] m \<longleftrightarrow> True"
| "sums_fit ((x, y, z) # ts) m \<longleftrightarrow> sum_fits x y z m \<and> sums_fit ts (fst (relax x y z (m, 0)))"

function rebuild_fits :: "tr_matrix \<Rightarrow> bool" where
  "rebuild_fits m \<longleftrightarrow> sums_fit triples m \<and> (let (m', changed) = sweep m in if changed = 0 then True else rebuild_fits m')"
  by auto
termination
proof (relation "measure potential")
  fix m m' :: tr_matrix and s changed
  assume "s = sweep m" "(m', changed) = s" "changed \<noteq> 0"
  then show "(m', m) \<in> measure potential" using sweep_potential [of m] by (cases "sweep m") auto
qed auto

declare rebuild_fits.simps [simp del]

text \<open>Every cell holds the cost of a walk that starts with the cell's translator.\<close>

definition exact_matrix :: "(tid \<Rightarrow> tris_translator) \<Rightarrow> tid list \<Rightarrow> tr_matrix \<Rightarrow> bool" where
  "exact_matrix trs ps m \<longleftrightarrow>
     (\<forall>x z p. step (m x z) = Some p \<longrightarrow>
        (\<exists>ts. walk trs ps x (p # ts) z \<and> unat (pcost (m x z)) = walk_cost trs (p # ts)))"

text \<open>No direct translator is cheaper than the cell.\<close>

definition covers_direct :: "(tid \<Rightarrow> tris_translator) \<Rightarrow> tid list \<Rightarrow> tr_matrix \<Rightarrow> bool" where
  "covers_direct trs ps m \<longleftrightarrow>
     (\<forall>p \<in> set ps. tr_active (trs p) \<longrightarrow>
        (let c = m (nat (srcfmt (trs p))) (nat (dstfmt (trs p))) in step c \<noteq> None \<and> pcost c \<le> tr_cost (trs p)))"

lemma set_cell_apply: "set_cell x z c m a b = (if a = x \<and> b = z then c else m a b)"
  by (simp add: set_cell_def)

lemma direct_matrix_snoc: "direct_matrix trs (ps @ [p]) = direct trs p (direct_matrix trs ps)"
  by (simp add: direct_matrix_def)

lemma direct_exact: "exact_matrix trs ps (direct_matrix trs ps)"
proof (induction ps rule: rev_induct)
  case Nil
  show ?case by (simp add: exact_matrix_def direct_matrix_def no_path_def)
next
  case (snoc p ps)
  let ?m = "direct_matrix trs ps"
  have old: "exact_matrix trs (ps @ [p]) ?m"
    using snoc unfolding exact_matrix_def
    by (metis (no_types, lifting) walk_mono set_append Un_upper1)
  have new: "walk trs (ps @ [p]) (nat (srcfmt (trs p))) [p] (nat (dstfmt (trs p)))" if "tr_active (trs p)"
    using that by simp
  show ?case
    using old new unfolding direct_matrix_snoc direct_def exact_matrix_def
    by (auto simp: Let_def set_cell_apply intro!: exI [of _ "[]"])
qed

lemma direct_covers: "covers_direct trs ps (direct_matrix trs ps)"
proof (induction ps rule: rev_induct)
  case (snoc p ps)
  then show ?case unfolding direct_matrix_snoc direct_def covers_direct_def
    by (fastforce simp: Let_def set_cell_apply not_less dest: order.strict_implies_order order_trans)
qed (simp add: covers_direct_def)

lemma relax_exact:
  assumes "exact_matrix trs ps m" "sum_fits x y z m"
  shows "exact_matrix trs ps (fst (relax x y z (m, n)))"
proof (cases rule: relax_cases [of x y z m n])
  case (change c)
  obtain p q where pq: "step (m x y) = Some p" "step (m y z) = Some q" using change by auto
  obtain ts us where w: "walk trs ps x (p # ts) y" "unat (pcost (m x y)) = walk_cost trs (p # ts)"
      "walk trs ps y (q # us) z" "unat (pcost (m y z)) = walk_cost trs (q # us)"
    using assms(1) pq unfolding exact_matrix_def by metis
  have "walk trs ps x (p # (ts @ q # us)) z" using walk_append [OF w(1,3)] by simp
  moreover have "unat (pcost c) = walk_cost trs (p # (ts @ q # us))"
    using assms(2) change w pq by (simp add: sum_fits_def unat_word_ariths)
  ultimately show ?thesis
    using assms(1) change pq unfolding exact_matrix_def
    by (auto simp: set_cell_apply simp del: walk.simps walk_cost_simps)
qed (simp add: assms)

lemma relax_covers:
  assumes "covers_direct trs ps m"
  shows "covers_direct trs ps (fst (relax x y z (m, n)))"
proof (cases rule: relax_cases [of x y z m n])
  case (change c)
  show ?thesis unfolding covers_direct_def Let_def
  proof (intro ballI impI)
    fix p assume p: "p \<in> set ps" "tr_active (trs p)"
    let ?x = "nat (srcfmt (trs p))" and ?z = "nat (dstfmt (trs p))"
    have old: "step (m ?x ?z) \<noteq> None" "pcost (m ?x ?z) \<le> tr_cost (trs p)"
      using assms p by (auto simp: covers_direct_def Let_def)
    show "step (fst (relax x y z (m, n)) ?x ?z) \<noteq> None \<and> pcost (fst (relax x y z (m, n)) ?x ?z) \<le> tr_cost (trs p)"
      using change old by (auto simp: set_cell_apply)
  qed
qed (simp add: assms)

lemma fold_relax_fst:
  "fst (fold (\<lambda>(x, y, z). relax x y z) ts (m, n)) = fst (fold (\<lambda>(x, y, z). relax x y z) ts (m, k))"
proof (induction ts arbitrary: m n k)
  case (Cons t ts)
  obtain x y z where t: "t = (x, y, z)" by (cases t)
  have "fst (relax x y z (m, n)) = fst (relax x y z (m, k))" by (simp add: relax_def Let_def)
  then show ?case using Cons t by (cases "relax x y z (m, n)", cases "relax x y z (m, k)") simp
qed simp

lemma fold_relax_exact:
  "exact_matrix trs ps m \<Longrightarrow> sums_fit ts m \<Longrightarrow>
   exact_matrix trs ps (fst (fold (\<lambda>(x, y, z). relax x y z) ts (m, 0)))"
proof (induction ts arbitrary: m)
  case (Cons t ts)
  obtain x y z where t: "t = (x, y, z)" by (cases t)
  obtain m' n where r: "relax x y z (m, 0) = (m', n)" by (cases "relax x y z (m, 0)")
  then show ?case
    using Cons.IH [of m'] Cons.prems relax_exact [of trs ps m x y z 0] fold_relax_fst [of ts m' n 0] by (simp add: t)
qed simp

lemma sweep_exact:
  "exact_matrix trs ps m \<Longrightarrow> sums_fit triples m \<Longrightarrow> exact_matrix trs ps (fst (sweep m))"
  unfolding sweep_triples by (rule fold_relax_exact)

lemma sweep_covers: "covers_direct trs ps m \<Longrightarrow> covers_direct trs ps (fst (sweep m))"
  by (rule sweep_rule [where P = "\<lambda>s. covers_direct trs ps (fst s)"]) (auto intro: relax_covers)

lemma sums_fit_same:
  "\<forall>(x, y, z) \<in> set ts. relax x y z (m, 0) = (m, 0) \<Longrightarrow>
   sums_fit ts m \<Longrightarrow> (x, y, z) \<in> set ts \<Longrightarrow> sum_fits x y z m"
  by (induction ts m rule: sums_fit.induct) auto

text \<open>When the sums fit, the loop ends in a stable, exact matrix in which no sum wraps around.\<close>

definition no_wrap :: "tr_matrix \<Rightarrow> bool" where
  "no_wrap m \<longleftrightarrow>
     (\<forall>x < MAX_FORMAT. \<forall>y < MAX_FORMAT. \<forall>z < MAX_FORMAT. x \<noteq> y \<longrightarrow> sum_fits x y z m)"

lemma rebuild_exact:
  "exact_matrix trs ps m \<Longrightarrow> rebuild_fits m \<Longrightarrow>
   exact_matrix trs ps (rebuild_loop m) \<and> no_wrap (rebuild_loop m)"
proof (induction m rule: rebuild_loop.induct)
  case (1 m)
  obtain m' n where s: "sweep m = (m', n)" by (cases "sweep m")
  have f: "sums_fit triples m" using 1(3) by (simp add: rebuild_fits.simps [of m])
  show ?case
  proof (cases "n = 0")
    case True
    have "\<forall>(x, y, z) \<in> set triples. relax x y z (m, 0) = (m, 0)"
      using True s unfolding sweep_triples by (metis fold_relax_same snd_conv)
    then have "no_wrap m" using f by (auto simp: no_wrap_def triples_iff intro: sums_fit_same)
    then show ?thesis using True s sweep_unchanged [of m] 1(2) by (simp add: rebuild_loop.simps [of m])
  next
    case False
    then show ?thesis
      using s 1 f sweep_exact [of trs ps m] by (simp add: rebuild_loop.simps [of m] rebuild_fits.simps [of m])
  qed
qed

lemma rebuild_covers:
  "covers_direct trs ps (path_matrix trs ps) \<and> stable (path_matrix trs ps)"
  unfolding path_matrix_def by (intro rebuild_loop_rule direct_covers sweep_covers)

text \<open>A stable matrix is at most as dear as any walk.\<close>

lemma stable_cheapest:
  assumes "stable m" "no_wrap m" "covers_direct trs ps m" "valid_translators trs ps"
    and "walk trs ps x ts z" "x \<noteq> z"
  shows "step (m x z) \<noteq> None \<and> unat (pcost (m x z)) \<le> walk_cost trs ts"
  using assms(5,6)
proof (induction ts arbitrary: x)
  case (Cons p ts)
  let ?u = "nat (dstfmt (trs p))"
  have p: "p \<in> set ps" "tr_active (trs p)" "nat (srcfmt (trs p)) = x" and w: "walk trs ps ?u ts z"
    using Cons.prems by auto
  have c: "step (m x ?u) \<noteq> None" "unat (pcost (m x ?u)) \<le> unat (tr_cost (trs p))"
    using assms(3) p by (auto simp: covers_direct_def Let_def word_le_nat_alt)
  have b: "x < MAX_FORMAT" "?u < MAX_FORMAT" using walk_bounds [OF assms(4) Cons.prems(1)] by auto
  show ?case
  proof (cases "?u = x \<or> ?u = z")
    case True
    then show ?thesis using Cons.IH [OF w] c Cons.prems by auto
  next
    case False
    then have r: "step (m ?u z) \<noteq> None" "unat (pcost (m ?u z)) \<le> walk_cost trs ts"
      using Cons.IH [OF w] by auto
    have "ts \<noteq> []" using False w by auto
    then have "z < MAX_FORMAT" using w assms(4)
    proof (induction ts arbitrary: x rule: rev_induct)
      case (snoc q qs)
      then obtain y where "walk trs ps y [q] z" using walk_appendD by metis
      then show ?case using walk_bounds [OF assms(4), of y q "[]" z] by simp
    qed simp
    then have f: "sum_fits x ?u z m" and s: "step (m x z) \<noteq> None \<and> pcost (m x z) \<le> pcost (m x ?u) + pcost (m ?u z)"
      using assms(1,2) b False Cons.prems(2) c r unfolding no_wrap_def stable_def by blast+
    have "unat (pcost (m x ?u) + pcost (m ?u z)) = unat (pcost (m x ?u)) + unat (pcost (m ?u z))"
      using f c(1) r(1) False Cons.prems(2) by (simp add: sum_fits_def unat_word_ariths)
    then show ?thesis
      using c(2) r(2) s by (simp add: word_le_nat_alt)
  qed
qed simp

end
