(* ===== verification/TransPath.thy ===== *)
theory TransPath
  imports Translate
begin

text \<open>
  The operations of \<open>main/translate.c\<close> and \<open>include/trismedia/translate.h\<close> around the matrix:
  instances of translators, building a path, sending frames through it, measuring the cost of a
  translator, registration, and the choice of formats.
\<close>

section \<open>Frames and translator instances\<close>

datatype tris_frame_type = TRIS_FRAME_DTMF_END | TRIS_FRAME_VOICE | TRIS_FRAME_VIDEO
  | TRIS_FRAME_CONTROL | TRIS_FRAME_NULL | TRIS_FRAME_IAX | TRIS_FRAME_TEXT | TRIS_FRAME_FILE
  | TRIS_FRAME_DESKTOP | TRIS_FRAME_CHAT | TRIS_FRAME_IMAGE | TRIS_FRAME_HTML | TRIS_FRAME_CNG
  | TRIS_FRAME_MODEM | TRIS_FRAME_DTMF_BEGIN

text \<open>\<open>fr_data\<close> is an offset into the block of the instance that made the frame.\<close>

record tris_frame =
  frametype :: tris_frame_type
  fr_subclass :: u32
  datalen :: int
  samples :: int
  mallocd :: bool
  offset :: int
  fr_src :: string
  fr_data :: "int option"
  delivery :: timeval
  has_timing_info :: bool
  from_translator :: bool
  fr_ts :: int
  fr_len :: int
  seqno :: int

definition null_frame :: tris_frame where
  "null_frame =
     \<lparr>frametype = TRIS_FRAME_NULL, fr_subclass = 0, datalen = 0, samples = 0, mallocd = False, offset = 0,
      fr_src = [], fr_data = None, delivery = tris_tv 0 0, has_timing_info = False, from_translator = False,
      fr_ts = 0, fr_len = 0, seqno = 0\<rparr>"

text \<open>An instance of a translator. The pointers into its block are offsets behind the structure;
  \<open>pv_mem\<close> is what the block holds there.\<close>

record 'p tris_trans_pvt =
  pv_t :: tid
  pv_f :: tris_frame
  pv_samples :: int
  pv_datalen :: int
  pv_pvt :: "int option"
  outbuf :: "int option"
  plc :: "int option"
  pv_mem :: 'p
  nextin :: timeval
  nextout :: timeval
  pv_destroy :: bool

text \<open>
  The callbacks of a codec, which are third-party code or wrap it. \<open>c_frameout\<close> says whether the
  callback returns the instance's own frame or NULL, which is all that the codecs of \<open>codecs/\<close> do;
  \<open>c_sample\<close> gives the frame of the i-th call. \<open>plc_fillin\<close> and \<open>plc_rx\<close> are the packet loss
  concealment of \<open>main/plc.c\<close>.
\<close>

record 'p codec =
  c_newpvt :: "('p tris_trans_pvt \<Rightarrow> int \<times> 'p tris_trans_pvt) option"
  c_framein :: "'p tris_trans_pvt \<Rightarrow> tris_frame \<Rightarrow> int \<times> 'p tris_trans_pvt"
  c_frameout :: "('p tris_trans_pvt \<Rightarrow> bool \<times> 'p tris_trans_pvt) option"
  c_sample :: "(nat \<Rightarrow> tris_frame option) option"

record 'p trans_env =
  codecs :: "tid \<Rightarrow> 'p codec"
  zero_mem :: 'p
  plc_fillin :: "'p tris_trans_pvt \<Rightarrow> int \<Rightarrow> int \<times> 'p tris_trans_pvt"
  plc_rx :: "'p tris_trans_pvt \<Rightarrow> int \<Rightarrow> int \<Rightarrow> 'p tris_trans_pvt"
  alloc_ok :: "tid \<Rightarrow> bool"
  cpu_time :: "tid \<Rightarrow> int"
  sizeof_plc :: int
  ptr_align :: int

record tr_state =
  tr_of :: "tid \<Rightarrow> tris_translator"
  translators :: "tid list"
  tr_mat :: tr_matrix
  mod_of :: "tid \<Rightarrow> nat"
  mod_refs :: "nat \<Rightarrow> int"

definition TRIS_FRIENDLY_OFFSET :: int where "TRIS_FRIENDLY_OFFSET = 64"

definition module_ref :: "tid \<Rightarrow> tr_state \<Rightarrow> tr_state" where
  "module_ref t st = st\<lparr>mod_refs := (mod_refs st)(mod_of st t := mod_refs st (mod_of st t) + 1)\<rparr>"

definition module_unref :: "tid \<Rightarrow> tr_state \<Rightarrow> tr_state" where
  "module_unref t st = st\<lparr>mod_refs := (mod_refs st)(mod_of st t := mod_refs st (mod_of st t) - 1)\<rparr>"

text \<open>The bytes behind the structure that \<open>newpvt\<close> allocates, and the instance before the codec's own
  initialisation.\<close>

definition pvt_len :: "'p trans_env \<Rightarrow> tris_translator \<Rightarrow> int" where
  "pvt_len env t =
     (let useplc = (0 < plc_samples t \<and> useplc t);
          l = desc_size t;
          l = (if useplc then l + sizeof_plc env else l)
      in if buf_size t \<noteq> 0 then l + (TRIS_FRIENDLY_OFFSET + buf_size t) else l)"

definition init_pvt :: "'p trans_env \<Rightarrow> tid \<Rightarrow> tris_translator \<Rightarrow> 'p tris_trans_pvt" where
  "init_pvt env p t =
     (let useplc = (0 < plc_samples t \<and> useplc t);
          pvt = \<lparr>pv_t = p, pv_f = null_frame, pv_samples = 0, pv_datalen = 0, pv_pvt = None, outbuf = None,
                 plc = None, pv_mem = zero_mem env, nextin = tris_tv 0 0, nextout = tris_tv 0 0,
                 pv_destroy = False\<rparr>;
          ofs = 0;
          (pvt, ofs) = (if desc_size t \<noteq> 0 then (pvt\<lparr>pv_pvt := Some ofs\<rparr>, ofs + desc_size t) else (pvt, ofs));
          (pvt, ofs) = (if useplc then (pvt\<lparr>plc := Some ofs\<rparr>, ofs + sizeof_plc env) else (pvt, ofs))
      in if buf_size t \<noteq> 0 then pvt\<lparr>outbuf := Some (ofs + TRIS_FRIENDLY_OFFSET)\<rparr> else pvt)"

definition newpvt :: "'p trans_env \<Rightarrow> tid \<Rightarrow> tr_state \<Rightarrow> 'p tris_trans_pvt option \<times> tr_state" where
  "newpvt env p st =
     (if \<not> alloc_ok env p then (None, st)
      else
        case c_newpvt (codecs env p) of
          None \<Rightarrow> (Some (init_pvt env p (tr_of st p)), module_ref p st)
        | Some f \<Rightarrow>
            (let (r, pvt) = f (init_pvt env p (tr_of st p)) in
             if r \<noteq> 0 then (None, st) else (Some pvt, module_ref p st)))"

text \<open>\<open>destroy\<close>: an instance whose frame is in use is kept and marked; \<open>None\<close> when it is freed.\<close>

definition destroy :: "'p tris_trans_pvt \<Rightarrow> tr_state \<Rightarrow> 'p tris_trans_pvt option \<times> tr_state" where
  "destroy pvt st =
     (if from_translator (pv_f pvt) then (Some (pvt\<lparr>pv_destroy := True\<rparr>), st)
      else (None, module_unref (pv_t pvt) st))"

text \<open>The instances that are kept come first in the result.\<close>

fun tris_translator_free_path :: "'p tris_trans_pvt list \<Rightarrow> tr_state \<Rightarrow> 'p tris_trans_pvt list \<times> tr_state" where
  "tris_translator_free_path [] st = ([], st)"
| "tris_translator_free_path (p # ps) st =
     (let (k, st) = destroy p st; (ks, st) = tris_translator_free_path ps st
      in (case k of None \<Rightarrow> ks | Some q \<Rightarrow> q # ks, st))"

definition tris_translate_frame_freed :: "'p tris_trans_pvt \<Rightarrow> tr_state \<Rightarrow> 'p tris_trans_pvt option \<times> tr_state" where
  "tris_translate_frame_freed pvt st =
     (let pvt = pvt\<lparr>pv_f := pv_f pvt\<lparr>from_translator := False\<rparr>\<rparr> in
      if \<not> pv_destroy pvt then (Some pvt, st) else destroy pvt st)"

text \<open>The loop of \<open>tris_translator_build_path\<close> over the chain so far: the path, or \<open>None\<close> for NULL, and
  the instances that are left behind without an owner. It is \<open>None\<close> when it does not end.\<close>

partial_function (option) build_loop ::
  "'p trans_env \<Rightarrow> int \<Rightarrow> int \<Rightarrow> 'p tris_trans_pvt list \<Rightarrow> tr_state \<Rightarrow>
   ('p tris_trans_pvt list option \<times> 'p tris_trans_pvt list \<times> tr_state) option" where
  "build_loop env source dest chain st =
     (if source = dest then Some (Some chain, [], st)
      else
        case step (tr_mat st (nat source) (nat dest)) of
          None \<Rightarrow> Some (None, chain, st)
        | Some t \<Rightarrow>
            (case newpvt env t st of
               (None, st) \<Rightarrow> (let (ks, st) = tris_translator_free_path chain st in Some (None, ks, st))
             | (Some cur, st) \<Rightarrow>
                 let cur = cur\<lparr>nextin := tris_tv 0 0, nextout := tris_tv 0 0\<rparr>
                 in build_loop env (dstfmt (tr_of st (pv_t cur))) dest (chain @ [cur]) st))"

definition tris_translator_build_path ::
  "'p trans_env \<Rightarrow> u32 \<Rightarrow> u32 \<Rightarrow> tr_state \<Rightarrow>
   ('p tris_trans_pvt list option \<times> 'p tris_trans_pvt list \<times> tr_state) option" where
  "tris_translator_build_path env dest source st =
     (let source = powerof source; dest = powerof dest in
      if source = - 1 \<or> dest = - 1 then Some (None, [], st)
      else build_loop env source dest [] st)"

section \<open>Frames through a path\<close>

definition tris_format_rate :: "u32 \<Rightarrow> int" where
  "tris_format_rate format =
     (if format = push_bit 12 1 \<or> format = push_bit 15 1 \<or> format = push_bit 31 1 \<or> format = push_bit 13 1
      then 16000
      else if format = push_bit 14 1 then 32000
      else 8000)"

text \<open>\<open>framein\<close>.\<close>

definition framein :: "'p trans_env \<Rightarrow> (tid \<Rightarrow> tris_translator) \<Rightarrow> 'p tris_trans_pvt \<Rightarrow> tris_frame \<Rightarrow> int \<times> 'p tris_trans_pvt" where
  "framein env trs pvt f =
     (let t = trs (pv_t pvt);
          pvt = pvt\<lparr>pv_f := pv_f pvt\<lparr>has_timing_info := has_timing_info f, fr_ts := fr_ts f, fr_len := fr_len f,
                                     seqno := seqno f\<rparr>\<rparr>;
          call = (\<lambda>pvt.
            let (ret, pvt) = c_framein (codecs env (pv_t pvt)) pvt f in
            if ret = 0 \<and> plc pvt \<noteq> None
            then let l = (if pv_samples pvt < plc_samples t then pv_samples pvt else plc_samples t)
                 in (ret, plc_rx env pvt (pv_samples pvt - l) l)
            else (ret, pvt));
          room = (\<lambda>pvt. if buffer_samples t < pv_samples pvt + samples f then (- 1, pvt) else call pvt)
      in if buffer_samples t = 0 then call pvt
         else if datalen f = 0
         then if plc pvt \<noteq> None
              then if buffer_samples t < pv_samples pvt + plc_samples t then (- 1, pvt)
                   else let (l, pvt) = plc_fillin env pvt (plc_samples t);
                            pvt = pvt\<lparr>pv_samples := pv_samples pvt + l\<rparr>;
                            pvt = pvt\<lparr>pv_datalen := pv_samples pvt * 2\<rparr>
                        in if native_plc t then room pvt else (0, pvt)
              else if native_plc t then room pvt else (0, pvt)
         else room pvt)"

definition tris_trans_frameout ::
  "(tid \<Rightarrow> tris_translator) \<Rightarrow> int \<Rightarrow> int \<Rightarrow> 'p tris_trans_pvt \<Rightarrow> bool \<times> 'p tris_trans_pvt" where
  "tris_trans_frameout trs dlen smps pvt =
     (if smps = 0 \<and> pv_samples pvt = 0 then (False, pvt)
      else
        let t = trs (pv_t pvt); f = pv_f pvt;
            (f, pvt) = (if smps \<noteq> 0 then (f\<lparr>samples := smps\<rparr>, pvt)
                        else (f\<lparr>samples := pv_samples pvt\<rparr>, pvt\<lparr>pv_samples := 0\<rparr>));
            (f, pvt) = (if dlen \<noteq> 0 then (f\<lparr>datalen := dlen\<rparr>, pvt)
                        else (f\<lparr>datalen := pv_datalen pvt\<rparr>, pvt\<lparr>pv_datalen := 0\<rparr>));
            f = f\<lparr>frametype := TRIS_FRAME_VOICE, fr_subclass := push_bit (nat (dstfmt t)) 1, mallocd := False,
                  offset := TRIS_FRIENDLY_OFFSET, fr_src := tr_name t, fr_data := outbuf pvt,
                  from_translator := True\<rparr>
        in (True, pvt\<lparr>pv_f := f\<rparr>))"

definition default_frameout :: "(tid \<Rightarrow> tris_translator) \<Rightarrow> 'p tris_trans_pvt \<Rightarrow> bool \<times> 'p tris_trans_pvt" where
  "default_frameout trs pvt = tris_trans_frameout trs 0 0 pvt"

text \<open>The callback of a registered translator.\<close>

definition frameout :: "'p trans_env \<Rightarrow> (tid \<Rightarrow> tris_translator) \<Rightarrow> 'p tris_trans_pvt \<Rightarrow> bool \<times> 'p tris_trans_pvt" where
  "frameout env trs pvt =
     (case c_frameout (codecs env (pv_t pvt)) of Some g \<Rightarrow> g pvt | None \<Rightarrow> default_frameout trs pvt)"

text \<open>The loop over the path: the frame that comes out, and the path. The frame of an instance is
  freed once the next one has taken it.\<close>

fun translate_loop ::
  "'p trans_env \<Rightarrow> (tid \<Rightarrow> tris_translator) \<Rightarrow> tris_frame \<Rightarrow> 'p tris_trans_pvt list \<Rightarrow>
   tris_frame option \<times> 'p tris_trans_pvt list" where
  "translate_loop env trs out [] = (Some out, [])"
| "translate_loop env trs out (p # ps) =
     (let (_, p) = framein env trs p out; (ok, p) = frameout env trs p in
      if \<not> ok then (None, p # ps)
      else if ps = [] then (Some (pv_f p), [p])
      else
        let (out', ps) = translate_loop env trs (pv_f p) ps
        in (out', p\<lparr>pv_f := pv_f p\<lparr>from_translator := False\<rparr>\<rparr> # ps))"

text \<open>\<open>now\<close> is what \<open>tris_tvnow\<close> returns. The path is not empty.\<close>

definition tris_translate ::
  "'p trans_env \<Rightarrow> (tid \<Rightarrow> tris_translator) \<Rightarrow> timeval \<Rightarrow> 'p tris_trans_pvt list \<Rightarrow> tris_frame \<Rightarrow>
   tris_frame option \<times> 'p tris_trans_pvt list" where
  "tris_translate env trs now path f =
     (let p = hd path;
          p = (if tris_tvzero (delivery f) then p
               else
                 let p = (if \<not> tris_tvzero (nextin p)
                          then if tris_tvcmp (nextin p) (delivery f) \<noteq> 0
                               then (let p = (if tris_tvzero (nextout p) then p
                                              else p\<lparr>nextout := tris_tvadd (nextout p) (tris_tvsub (delivery f) (nextin p))\<rparr>)
                                     in p\<lparr>nextin := delivery f\<rparr>)
                               else p
                          else p\<lparr>nextin := delivery f, nextout := delivery f\<rparr>)
                 in p\<lparr>nextin := tris_tvadd (nextin p) (tris_samp2tv (nat (samples f)) (nat (tris_format_rate (fr_subclass f))))\<rparr>);
          (out, path) = translate_loop env trs f (p # tl path)
      in case out of
           None \<Rightarrow> (None, path)
         | Some out \<Rightarrow>
             let p = hd path;
                 (out, p) =
                   (if \<not> tris_tvzero (delivery f)
                    then let p = (if tris_tvzero (nextout p) then p\<lparr>nextout := now\<rparr> else p);
                             out = out\<lparr>delivery := nextout p\<rparr>
                         in (out, p\<lparr>nextout := tris_tvadd (nextout p)
                                     (tris_samp2tv (nat (samples out)) (nat (tris_format_rate (fr_subclass out))))\<rparr>)
                    else let out = out\<lparr>delivery := tris_tv 0 0, has_timing_info := has_timing_info f\<rparr>
                         in (if has_timing_info f
                             then out\<lparr>fr_ts := fr_ts f, fr_len := fr_len f, seqno := seqno f\<rparr> else out, p));
                 p = (if frametype out = TRIS_FRAME_CNG then p\<lparr>nextout := tris_tv 0 0\<rparr> else p)
             in (Some out, p # tl path))"

section \<open>The cost of a translator\<close>

text \<open>The frames that the translator has ready, freed one by one: the samples so far.\<close>

partial_function (option) drain_frames ::
  "'p trans_env \<Rightarrow> (tid \<Rightarrow> tris_translator) \<Rightarrow> 'p tris_trans_pvt \<Rightarrow> int \<Rightarrow> (int \<times> 'p tris_trans_pvt) option" where
  "drain_frames env trs pvt n =
     (let (ok, pvt) = frameout env trs pvt in
      if ok
      then drain_frames env trs (pvt\<lparr>pv_f := pv_f pvt\<lparr>from_translator := False\<rparr>\<rparr>) (n + samples (pv_f pvt))
      else Some (n, pvt))"

text \<open>The inner \<open>None\<close> when there is no sample frame.\<close>

partial_function (option) calc_loop ::
  "'p trans_env \<Rightarrow> (tid \<Rightarrow> tris_translator) \<Rightarrow> (nat \<Rightarrow> tris_frame option) \<Rightarrow> int \<Rightarrow> nat \<Rightarrow> int \<Rightarrow>
   'p tris_trans_pvt \<Rightarrow> (bool \<times> 'p tris_trans_pvt) option" where
  "calc_loop env trs sample wanted i num_samples pvt =
     (if num_samples < wanted
      then (case sample i of
              None \<Rightarrow> Some (False, pvt)
            | Some f \<Rightarrow>
                let (_, pvt) = framein env trs pvt f in
                (case drain_frames env trs pvt num_samples of
                   None \<Rightarrow> None
                 | Some (n, pvt) \<Rightarrow> calc_loop env trs sample wanted (i + 1) n pvt))
      else Some (True, pvt))"

definition set_cost :: "tid \<Rightarrow> u32 \<Rightarrow> tr_state \<Rightarrow> tr_state" where
  "set_cost p c st = st\<lparr>tr_of := (tr_of st)(p := tr_of st p\<lparr>tr_cost := c\<rparr>)\<rparr>"

text \<open>\<open>None\<close> when the code does not return. \<open>cpu_time\<close> are the microseconds that the run has used,
  by \<open>getrusage\<close>.\<close>

definition calc_cost :: "'p trans_env \<Rightarrow> tid \<Rightarrow> int \<Rightarrow> tr_state \<Rightarrow> tr_state option" where
  "calc_cost env p seconds st =
     (let out_rate = tris_format_rate (word_of_int (dstfmt (tr_of st p)));
          seconds = (if seconds = 0 then 1 else seconds)
      in case c_sample (codecs env p) of
           None \<Rightarrow> Some (set_cost p 999999 st)
         | Some sample \<Rightarrow>
             (case newpvt env p st of
                (None, st) \<Rightarrow> Some (set_cost p 999999 st)
              | (Some pvt, st) \<Rightarrow>
                  (case calc_loop env (tr_of st) sample (seconds * out_rate) 0 0 pvt of
                     None \<Rightarrow> None
                   | Some (ok, pvt) \<Rightarrow>
                       let st = snd (destroy pvt st) in
                       if \<not> ok then Some (set_cost p 999999 st)
                       else
                         let cost = cdiv (cpu_time env p) seconds
                         in Some (set_cost p (if cost = 0 then 1 else word_of_int cost) st))))"

section \<open>Registration\<close>

text \<open>The first loop of \<open>rebuild_matrix\<close>, and the whole function. A positive \<open>smp\<close> has the costs
  measured anew.\<close>

primrec rebuild_direct :: "'p trans_env \<Rightarrow> int \<Rightarrow> tid list \<Rightarrow> tr_state \<Rightarrow> tr_state option" where
  "rebuild_direct env smp [] st = Some st"
| "rebuild_direct env smp (p # ps) st =
     (if \<not> tr_active (tr_of st p) then rebuild_direct env smp ps st
      else
        case (if smp \<noteq> 0 then calc_cost env p smp st else Some st) of
          None \<Rightarrow> None
        | Some st \<Rightarrow> rebuild_direct env smp ps (st\<lparr>tr_mat := direct (tr_of st) p (tr_mat st)\<rparr>))"

definition rebuild_matrix :: "'p trans_env \<Rightarrow> int \<Rightarrow> tr_state \<Rightarrow> tr_state option" where
  "rebuild_matrix env smp st =
     map_option (\<lambda>st. st\<lparr>tr_mat := rebuild_loop (tr_mat st)\<rparr>)
       (rebuild_direct env smp (translators st) (st\<lparr>tr_mat := \<lambda>_ _. no_path\<rparr>))"

datatype 'a run = Ret 'a | Null_deref | No_return

text \<open>The search for the place of the new translator. The loop goes on after the insertion with \<open>t\<close>
  NULL; \<open>None\<close> when it then looks at another translator.\<close>

fun insert_sorted ::
  "(tid \<Rightarrow> tris_translator) \<Rightarrow> tid option \<Rightarrow> tid list \<Rightarrow> (tid option \<times> tid list) option" where
  "insert_sorted trs t [] = Some (t, [])"
| "insert_sorted trs None (u # us) = None"
| "insert_sorted trs (Some t) (u # us) =
     (if srcfmt (trs u) = srcfmt (trs t) \<and> dstfmt (trs u) = dstfmt (trs t) \<and>
         sint (tr_cost (trs t)) < sint (tr_cost (trs u))
      then map_option (\<lambda>(r, us). (r, t # u # us)) (insert_sorted trs None us)
      else map_option (\<lambda>(r, us). (r, u # us)) (insert_sorted trs (Some t) us))"

text \<open>The checks of the new translator, and its initialisation.\<close>

definition register_check :: "'p trans_env \<Rightarrow> tid \<Rightarrow> nat option \<Rightarrow> tr_state \<Rightarrow> bool \<times> tr_state" where
  "register_check env p md st =
     (case md of None \<Rightarrow> (False, st)
      | Some md \<Rightarrow>
     if buf_size (tr_of st p) = 0 then (False, st)
     else
       let t = tr_of st p;
           t = t\<lparr>srcfmt := powerof (word_of_int (srcfmt t)), dstfmt := powerof (word_of_int (dstfmt t)),
                 tr_active := True\<rparr>;
           st = st\<lparr>mod_of := (mod_of st)(p := md), tr_of := (tr_of st)(p := t)\<rparr>
       in if srcfmt t = - 1 \<or> dstfmt t = - 1 then (False, st)
          else if plc_samples t \<noteq> 0 \<and> buffer_samples t < plc_samples t then (False, st)
          else if int MAX_FORMAT \<le> srcfmt t then (False, st)
          else if int MAX_FORMAT \<le> dstfmt t then (False, st)
          else
            let a = ptr_align env;
                t = t\<lparr>buf_size := cdiv (buf_size t + a - 1) a * a\<rparr>
            in (True, st\<lparr>tr_of := (tr_of st)(p := t)\<rparr>))"

text \<open>The rest: the cost is measured and the translator put into the list.\<close>

definition register_add :: "'p trans_env \<Rightarrow> tid \<Rightarrow> tr_state \<Rightarrow> (int \<times> tr_state) run" where
  "register_add env p st =
     (case calc_cost env p 1 st of
        None \<Rightarrow> No_return
      | Some st \<Rightarrow>
          (case insert_sorted (tr_of st) (Some p) (translators st) of
             None \<Rightarrow> Null_deref
           | Some (r, us) \<Rightarrow>
               let st = st\<lparr>translators := (case r of Some p \<Rightarrow> p # us | None \<Rightarrow> us)\<rparr>
               in case rebuild_matrix env 0 st of
                    None \<Rightarrow> No_return
                  | Some st \<Rightarrow> Ret (0, st)))"

definition tris_register_translator ::
  "'p trans_env \<Rightarrow> tid \<Rightarrow> nat option \<Rightarrow> tr_state \<Rightarrow> (int \<times> tr_state) run" where
  "tris_register_translator env p md st =
     (let (ok, st) = register_check env p md st in if ok then register_add env p st else Ret (- 1, st))"

definition tris_unregister_translator :: "'p trans_env \<Rightarrow> tid \<Rightarrow> tr_state \<Rightarrow> (int \<times> tr_state) option" where
  "tris_unregister_translator env p st =
     (if p \<in> set (translators st)
      then map_option (\<lambda>st. (0, st)) (rebuild_matrix env 0 (st\<lparr>translators := remove1 p (translators st)\<rparr>))
      else Some (- 1, st))"

definition tris_translator_activate :: "'p trans_env \<Rightarrow> tid \<Rightarrow> tr_state \<Rightarrow> tr_state option" where
  "tris_translator_activate env p st =
     rebuild_matrix env 0 (st\<lparr>tr_of := (tr_of st)(p := tr_of st p\<lparr>tr_active := True\<rparr>)\<rparr>)"

definition tris_translator_deactivate :: "'p trans_env \<Rightarrow> tid \<Rightarrow> tr_state \<Rightarrow> tr_state option" where
  "tris_translator_deactivate env p st =
     rebuild_matrix env 0 (st\<lparr>tr_of := (tr_of st)(p := tr_of st p\<lparr>tr_active := False\<rparr>)\<rparr>)"

text \<open>\<open>core show translation recalc\<close>: the costs are measured again, over at most 1000 seconds.\<close>

definition MAX_RECALC :: int where "MAX_RECALC = 1000"

definition recalc_translation :: "'p trans_env \<Rightarrow> int \<Rightarrow> tr_state \<Rightarrow> tr_state option" where
  "recalc_translation env z st =
     (let z = (if z \<le> 0 then 1 else z); z = (if MAX_RECALC < z then MAX_RECALC else z)
      in rebuild_matrix env z st)"

section \<open>Choosing formats\<close>

text \<open>The choice so far: source bit (or -1), destination bit, cost and steps.\<close>

record choice =
  best :: int
  bestdst :: int
  besttime :: u32
  beststeps :: u32

definition choice_step :: "tr_matrix \<Rightarrow> nat \<Rightarrow> u32 \<Rightarrow> nat \<Rightarrow> choice \<Rightarrow> choice" where
  "choice_step m y srcs x c =
     (if \<not> bit srcs x \<or> step (m x y) = None \<or> besttime c < pcost (m x y) then c
      else if pcost (m x y) < besttime c \<or> multistep (m x y) < beststeps c
      then \<lparr>best = 2 ^ x, bestdst = 2 ^ y, besttime = pcost (m x y), beststeps = multistep (m x y)\<rparr>
      else c)"

definition choice_loop :: "tr_matrix \<Rightarrow> u32 \<Rightarrow> u32 \<Rightarrow> choice" where
  "choice_loop m dst srcs =
     fold (\<lambda>y c. if \<not> bit dst y then c else fold (choice_step m y srcs) [0..<Suc MAX_AUDIO_FORMAT] c)
       [0..<Suc MAX_AUDIO_FORMAT] \<lparr>best = - 1, bestdst = 0, besttime = INT_MAX, beststeps = INT_MAX\<rparr>"

text \<open>The result, \<open>*dst\<close> and \<open>*srcs\<close>. The last case of the search for a common format is not reached.\<close>

definition tris_translator_best_choice :: "tr_matrix \<Rightarrow> u32 \<Rightarrow> u32 \<Rightarrow> int \<times> u32 \<times> u32" where
  "tris_translator_best_choice m dst srcs =
     (let common = (dst AND srcs) AND TRIS_FORMAT_AUDIO_MASK in
      if common \<noteq> 0
      then let cur = (case List.find (bit common) [0..<Suc MAX_AUDIO_FORMAT] of
                        Some y \<Rightarrow> push_bit y 1 | None \<Rightarrow> push_bit (Suc MAX_AUDIO_FORMAT) 1)
           in (0, cur, cur)
      else
        let c = choice_loop m dst srcs in
        if - 1 < best c then (0, word_of_int (bestdst c), word_of_int (best c)) else (best c, dst, srcs))"

definition tris_translate_path_steps :: "tr_matrix \<Rightarrow> u32 \<Rightarrow> u32 \<Rightarrow> u32" where
  "tris_translate_path_steps m dest src =
     (let src = powerof src; dest = powerof dest in
      if src = - 1 \<or> dest = - 1 then - 1
      else if step (m (nat src) (nat dest)) \<noteq> None then multistep (m (nat src) (nat dest)) + 1
      else - 1)"

lemma push_bit_AND_less: "(push_bit i 1 :: u32) AND msk \<noteq> 0 \<Longrightarrow> i < 32"
proof (rule ccontr)
  assume a: "(push_bit i 1 :: u32) AND msk \<noteq> 0" and "\<not> i < 32"
  then have "(push_bit i 1 :: u32) = 0" by (intro bit_word_eqI) (simp add: bit_simps del: push_bit_of_1)
  with a show False by (simp del: push_bit_of_1)
qed

text \<open>One of the two loops of \<open>tris_translate_available_formats\<close>, from format number \<open>i\<close>: the result so
  far, and where the loop stops.\<close>

function avail_loop :: "tr_matrix \<Rightarrow> u32 \<Rightarrow> u32 \<Rightarrow> u32 \<Rightarrow> u32 \<Rightarrow> nat \<Rightarrow> u32 \<Rightarrow> u32 \<times> nat" where
  "avail_loop m msk s dest src i res =
     (let x = push_bit i 1 in
      if s = 0 \<or> x AND msk = 0 then (res, i)
      else if dest AND x = 0 then avail_loop m msk s dest src (Suc i) res
      else if src AND x \<noteq> 0 then avail_loop m msk s dest src (Suc i) res
      else if step (m (unat s) (nat (powerof x))) = None then avail_loop m msk s dest src (Suc i) (res AND NOT x)
      else if step (m (nat (powerof x)) (unat s)) = None then avail_loop m msk s dest src (Suc i) (res AND NOT x)
      else avail_loop m msk s dest src (Suc i) res)"
  by pat_completeness auto
termination
  by (relation "measure (\<lambda>(m, msk, s, dest, src, i, res). 32 - i)")
    (auto dest!: push_bit_AND_less [unfolded push_bit_of_1])

declare avail_loop.simps [simp del]

definition tris_translate_available_formats :: "tr_matrix \<Rightarrow> u32 \<Rightarrow> u32 \<Rightarrow> u32" where
  "tris_translate_available_formats m dest src =
     (let src_audio = src AND TRIS_FORMAT_AUDIO_MASK;
          src_video = src AND TRIS_FORMAT_VIDEO_MASK
      in if src = 0 then dest
         else
           let src_audio = (if src_audio \<noteq> 0 then word_of_int (powerof src_audio) else src_audio);
               src_video = (if src_video \<noteq> 0 then word_of_int (powerof src_video) else src_video);
               (res, i) = avail_loop m TRIS_FORMAT_AUDIO_MASK src_audio dest src 0 dest;
               (res, i) = avail_loop m TRIS_FORMAT_VIDEO_MASK src_video dest src i res
           in res)"

section \<open>The matrix after a rebuild\<close>

lemma rebuild_direct_0:
  "rebuild_direct env 0 ps st = Some (st\<lparr>tr_mat := fold (direct (tr_of st)) ps (tr_mat st)\<rparr>)"
  by (induction ps arbitrary: st) (simp_all add: direct_def)

lemma rebuild_matrix_0:
  "rebuild_matrix env 0 st = Some (st\<lparr>tr_mat := path_matrix (tr_of st) (translators st)\<rparr>)"
  by (simp add: rebuild_matrix_def rebuild_direct_0 path_matrix_def direct_matrix_def)

text \<open>The translators are valid and no cost that the loop computes exceeds 32 bits.\<close>

definition costs_ok :: "(tid \<Rightarrow> tris_translator) \<Rightarrow> tid list \<Rightarrow> bool" where
  "costs_ok trs ps \<longleftrightarrow> valid_translators trs ps \<and> rebuild_fits (direct_matrix trs ps)"

lemma path_matrix_exact:
  assumes "costs_ok trs ps"
  shows "exact_matrix trs ps (path_matrix trs ps)" "no_wrap (path_matrix trs ps)"
  using assms rebuild_exact [OF direct_exact] by (auto simp: costs_ok_def path_matrix_def)

lemma path_matrix_le:
  assumes "costs_ok trs ps" "walk trs ps x us z" "x \<noteq> z"
  shows "step (path_matrix trs ps x z) \<noteq> None" "unat (pcost (path_matrix trs ps x z)) \<le> walk_cost trs us"
  using stable_cheapest [OF _ path_matrix_exact(2) _ _ assms(2,3)] assms(1) rebuild_covers
  by (auto simp: costs_ok_def)

lemma path_matrix_walk:
  assumes "costs_ok trs ps" "step (path_matrix trs ps x z) = Some p"
  obtains us where "walk trs ps x (p # us) z" "unat (pcost (path_matrix trs ps x z)) = walk_cost trs (p # us)"
  using path_matrix_exact(1) [OF assms(1)] assms(2) unfolding exact_matrix_def by metis

text \<open>A cell that is right: it is empty exactly when no sequence of active translators leads from \<open>x\<close> to
  \<open>z\<close>, its cost is that of a cheapest sequence, and its step the first translator of one.\<close>

definition cheapest_cell ::
  "(tid \<Rightarrow> tris_translator) \<Rightarrow> tid list \<Rightarrow> nat \<Rightarrow> nat \<Rightarrow> translator_path \<Rightarrow> bool" where
  "cheapest_cell trs ps x z c \<longleftrightarrow>
     (step c = None \<longleftrightarrow> (\<nexists>us. walk trs ps x us z)) \<and>
     (\<forall>p. step c = Some p \<longrightarrow>
        (\<exists>us. walk trs ps x (p # us) z \<and> unat (pcost c) = walk_cost trs (p # us)) \<and>
        (\<forall>us. walk trs ps x us z \<longrightarrow> unat (pcost c) \<le> walk_cost trs us))"

lemma path_matrix_cheapest:
  assumes "costs_ok trs ps" "x \<noteq> z"
  shows "cheapest_cell trs ps x z (path_matrix trs ps x z)"
proof -
  have 1: "\<exists>us. walk trs ps x (p # us) z \<and> unat (pcost (path_matrix trs ps x z)) = walk_cost trs (p # us)"
    if "step (path_matrix trs ps x z) = Some p" for p
    using path_matrix_walk [OF assms(1) that] by blast
  have 2: "step (path_matrix trs ps x z) \<noteq> None \<and> unat (pcost (path_matrix trs ps x z)) \<le> walk_cost trs us"
    if "walk trs ps x us z" for us
    using path_matrix_le [OF assms(1) that assms(2)] by blast
  have "step (path_matrix trs ps x z) = None \<longleftrightarrow> (\<nexists>us. walk trs ps x us z)"
    using 1 2 by (metis option.exhaust)
  then show ?thesis using 1 2 unfolding cheapest_cell_def by simp
qed

text \<open>Claim C33. Rebuilding the matrix from the costs already measured (\<open>samples\<close> is 0) always ends.
  Then, as long as the sums of costs fit 32 bits, there is a path between two different formats exactly
  when some sequence of active translators leads from the one to the other; the cell's cost is that of
  a cheapest sequence, and its step the first translator of one.\<close>

theorem rebuild_matrix_cheapest:
  fixes st :: tr_state
  assumes "costs_ok (tr_of st) (translators st)" "x \<noteq> z"
  shows "\<exists>st'. rebuild_matrix env 0 st = Some st' \<and>
     cheapest_cell (tr_of st) (translators st) x z (tr_mat st' x z)"
  using path_matrix_cheapest [OF assms] by (simp add: rebuild_matrix_0)

section \<open>Building a path\<close>

text \<open>The next step of a path leads nearer to the destination, by the step's cost.\<close>

lemma path_step:
  assumes "costs_ok trs ps" "step (path_matrix trs ps x z) = Some p" "x \<noteq> z"
  defines "u \<equiv> nat (dstfmt (trs p))"
  shows "p \<in> set ps" "tr_active (trs p)" "nat (srcfmt (trs p)) = x"
    and "u = z \<longrightarrow> unat (tr_cost (trs p)) = unat (pcost (path_matrix trs ps x z))"
    and "u \<noteq> z \<longrightarrow> step (path_matrix trs ps u z) \<noteq> None \<and>
      unat (tr_cost (trs p)) + unat (pcost (path_matrix trs ps u z)) = unat (pcost (path_matrix trs ps x z))"
proof -
  obtain us where us: "walk trs ps x (p # us) z" "unat (pcost (path_matrix trs ps x z)) = walk_cost trs (p # us)"
    using path_matrix_walk [OF assms(1,2)] .
  then show p: "p \<in> set ps" "tr_active (trs p)" "nat (srcfmt (trs p)) = x" by auto
  have w: "walk trs ps u us z" using us by (simp add: u_def)
  show "u = z \<longrightarrow> unat (tr_cost (trs p)) = unat (pcost (path_matrix trs ps x z))"
  proof
    assume "u = z"
    then have "walk trs ps x [p] z" using p by (simp add: u_def)
    from path_matrix_le(2) [OF assms(1) this assms(3)] show "unat (tr_cost (trs p)) = unat (pcost (path_matrix trs ps x z))"
      using us by simp
  qed
  show "u \<noteq> z \<longrightarrow> step (path_matrix trs ps u z) \<noteq> None \<and>
      unat (tr_cost (trs p)) + unat (pcost (path_matrix trs ps u z)) = unat (pcost (path_matrix trs ps x z))"
  proof
    assume n: "u \<noteq> z"
    from path_matrix_le [OF assms(1) w n] obtain q where q: "step (path_matrix trs ps u z) = Some q"
      and le: "unat (pcost (path_matrix trs ps u z)) \<le> walk_cost trs us" by auto
    obtain vs where vs: "walk trs ps u (q # vs) z" "unat (pcost (path_matrix trs ps u z)) = walk_cost trs (q # vs)"
      using path_matrix_walk [OF assms(1) q] .
    have "walk trs ps x (p # q # vs) z" using p vs by (simp add: u_def)
    from path_matrix_le(2) [OF assms(1) this assms(3)] vs us le q
    show "step (path_matrix trs ps u z) \<noteq> None \<and>
        unat (tr_cost (trs p)) + unat (pcost (path_matrix trs ps u z)) = unat (pcost (path_matrix trs ps x z))"
      by simp
  qed
qed

text \<open>What the codecs' initialisation leaves alone, and when every instance can be made.\<close>

definition newpvt_keeps :: "'p trans_env \<Rightarrow> bool" where
  "newpvt_keeps env \<longleftrightarrow>
     (\<forall>p f pvt. c_newpvt (codecs env p) = Some f \<longrightarrow>
        pv_t (snd (f pvt)) = pv_t pvt \<and> from_translator (pv_f (snd (f pvt))) = from_translator (pv_f pvt))"

definition instances_ok :: "'p trans_env \<Rightarrow> tid list \<Rightarrow> bool" where
  "instances_ok env ps \<longleftrightarrow>
     (\<forall>p \<in> set ps. alloc_ok env p \<and> (\<forall>f. c_newpvt (codecs env p) = Some f \<longrightarrow> (\<forall>pvt. fst (f pvt) = 0)))"

lemma init_pvt_fields [simp]:
  "pv_t (init_pvt env p t) = p" "from_translator (pv_f (init_pvt env p t)) = False"
  by (simp_all add: init_pvt_def Let_def null_frame_def split: prod.splits)

lemma newpvt_cases:
  assumes "newpvt_keeps env"
  obtains (fail) "newpvt env p st = (None, st)" "p \<in> set ps \<longrightarrow> \<not> instances_ok env ps"
    | (made) pvt where "newpvt env p st = (Some pvt, module_ref p st)" "pv_t pvt = p" "\<not> from_translator (pv_f pvt)"
proof (cases "alloc_ok env p")
  case False
  then show ?thesis by (intro fail) (auto simp: newpvt_def instances_ok_def)
next
  case a: True
  show ?thesis
  proof (cases "c_newpvt (codecs env p)")
    case None
    then show ?thesis by (intro made [of "init_pvt env p (tr_of st p)"]) (simp_all add: newpvt_def a)
  next
    case (Some f)
    obtain r pvt where f: "f (init_pvt env p (tr_of st p)) = (r, pvt)" by (cases "f (init_pvt env p (tr_of st p))")
    have k: "pv_t pvt = p" "\<not> from_translator (pv_f pvt)"
      using assms Some f init_pvt_fields unfolding newpvt_keeps_def by (metis snd_conv)+
    show ?thesis
    proof (cases "r = 0")
      case True
      then show ?thesis using k by (intro made [of pvt]) (simp_all add: newpvt_def a Some f)
    next
      case False
      then show ?thesis using a Some f by (intro fail) (auto simp: newpvt_def instances_ok_def, metis fst_conv)
    qed
  qed
qed

text \<open>The references that a chain of instances holds on the modules.\<close>

definition add_refs :: "tid list \<Rightarrow> tr_state \<Rightarrow> tr_state" where
  "add_refs us st = st\<lparr>mod_refs := \<lambda>k. mod_refs st k + int (count_list (map (mod_of st) us) k)\<rparr>"

lemma add_refs_fields [simp]:
  "tr_of (add_refs us st) = tr_of st" "tr_mat (add_refs us st) = tr_mat st"
  "mod_of (add_refs us st) = mod_of st" "translators (add_refs us st) = translators st"
  "add_refs [] st = st"
  by (simp_all add: add_refs_def)

lemma module_ref_add: "module_ref u (add_refs us st) = add_refs (us @ [u]) st"
  by (simp add: module_ref_def add_refs_def fun_eq_iff)

lemma module_unref_add: "module_unref u (add_refs (u # us) st) = add_refs us st"
  by (simp add: module_unref_def add_refs_def fun_eq_iff)

lemma free_path_refs:
  "\<forall>q \<in> set chain. \<not> from_translator (pv_f q) \<Longrightarrow>
   tris_translator_free_path chain (add_refs (map pv_t chain) st) = ([], st)"
proof (induction chain)
  case (Cons p ps)
  have "destroy p (add_refs (map pv_t (p # ps)) st) = (None, add_refs (map pv_t ps) st)"
    using Cons.prems module_unref_add [of "pv_t p" "map pv_t ps" st] by (simp add: destroy_def)
  then show ?case using Cons by (simp add: Let_def)
qed simp

definition good_path :: "tr_state \<Rightarrow> 'p tris_trans_pvt list \<Rightarrow> nat \<Rightarrow> tid list \<Rightarrow> nat \<Rightarrow> bool" where
  "good_path st path x us z \<longleftrightarrow>
     (\<forall>q \<in> set path. \<not> from_translator (pv_f q)) \<and> walk (tr_of st) (translators st) x us z \<and>
     walk_cost (tr_of st) us = (if x = z then 0 else unat (pcost (path_matrix (tr_of st) (translators st) x z)))"

lemma build_loop_path:
  fixes st :: tr_state and env :: "'p trans_env"
  defines "m \<equiv> path_matrix (tr_of st) (translators st)"
  assumes "costs_ok (tr_of st) (translators st)" "newpvt_keeps env" "tr_mat st = m"
    and "z < MAX_FORMAT" "x = z \<or> step (m x z) \<noteq> None" "\<forall>q \<in> set chain. \<not> from_translator (pv_f q)"
  shows "\<exists>r st'. build_loop env (int x) (int z) chain (add_refs (map pv_t chain) st) = Some (r, [], st') \<and>
    (case r of None \<Rightarrow> st' = st \<and> \<not> instances_ok env (translators st)
     | Some path \<Rightarrow> st' = add_refs (map pv_t path) st \<and>
         (\<exists>us. map pv_t path = map pv_t chain @ us \<and> good_path st path x us z))"
  using assms(6,7)
proof (induction "if x = z then 0 else unat (pcost (m x z))" arbitrary: x chain rule: less_induct)
  case less
  show ?case
  proof (cases "x = z")
    case True
    then show ?thesis using less.prems by (auto simp: build_loop.simps good_path_def)
  next
    case n: False
    then obtain p where p: "step (m x z) = Some p" using less.prems by auto
    let ?st = "add_refs (map pv_t chain) st" and ?u = "nat (dstfmt (tr_of st p))"
    note ps = path_step [OF assms(2) p [unfolded m_def] n]
    have v: "0 \<le> dstfmt (tr_of st p)" "0 < unat (tr_cost (tr_of st p))"
      using ps(1) assms(2) by (auto simp: costs_ok_def valid_translators_def word_less_nat_alt)
    show ?thesis
    proof (cases rule: newpvt_cases [OF assms(3), of p ?st "translators st", case_names fail made])
      case fail
      then show ?thesis
        using n p ps(1) assms(4) free_path_refs [OF less.prems(2), of st] by (simp add: build_loop.simps)
    next
      case (made pvt)
      let ?cur = "pvt\<lparr>nextin := tris_tv 0 0, nextout := tris_tv 0 0\<rparr>"
      let ?chain = "chain @ [?cur]"
      have eq: "build_loop env (int x) (int z) chain ?st =
          build_loop env (int ?u) (int z) ?chain (add_refs (map pv_t ?chain) st)"
        using n p made assms(4) v by (subst build_loop.simps) (simp add: module_ref_add)
      have "(if ?u = z then 0 else unat (pcost (m ?u z))) < (if x = z then 0 else unat (pcost (m x z)))"
        using n v(2) ps(4,5) unfolding m_def by (auto simp del: unat_gt_0)
      from less.hyps [OF this, of ?chain] less.prems(2) made ps(5) obtain r st' where
        r: "build_loop env (int ?u) (int z) ?chain (add_refs (map pv_t ?chain) st) = Some (r, [], st')"
        and c: "case r of None \<Rightarrow> st' = st \<and> \<not> instances_ok env (translators st)
          | Some path \<Rightarrow> st' = add_refs (map pv_t path) st \<and>
              (\<exists>us. map pv_t path = map pv_t ?chain @ us \<and> good_path st path ?u us z)"
        unfolding m_def by fastforce
      have "\<exists>vs. map pv_t path = map pv_t chain @ vs \<and> good_path st path x vs z"
        if "map pv_t path = map pv_t ?chain @ us" "good_path st path ?u us z" for path us
        using that made ps n by (intro exI [of _ "p # us"]) (auto simp: good_path_def)
      then show ?thesis using r c unfolding eq by (intro exI [of _ r] exI [of _ st']) (auto split: option.splits)
    qed
  qed
qed

lemma powerof_pos:
  assumes "d \<noteq> 0"
  shows "0 \<le> powerof d" "powerof d < 32" "bit d (nat (powerof d))"
proof -
  have "\<exists>i < 32. bit d i"
  proof (rule ccontr)
    assume "\<not> (\<exists>i < 32. bit d i)"
    then have "d = 0" by (intro bit_word_eqI) auto
    then show False using assms by simp
  qed
  then obtain i where i: "i < 32" "bit d i" by blast
  then obtain j where "List.find (bit d) [0..<32] = Some j"
    by (metis atLeastLessThan_iff find_None_iff not_None_eq set_upt zero_le)
  moreover from this have "j < 32" "bit d j" by (auto simp: find_Some_iff)
  ultimately show "0 \<le> powerof d" "powerof d < 32" "bit d (nat (powerof d))"
    by (simp_all add: powerof_def ffs_def Let_def)
qed

lemma powerof_0 [simp]: "powerof 0 = - 1"
proof -
  have "List.find (bit (0 :: u32)) [0..<32] = None" by (simp add: find_None_iff)
  then show ?thesis by (simp add: powerof_def ffs_def)
qed

text \<open>The state as it is between the operations: the matrix is that of the translators.\<close>

definition matrix_current :: "tr_state \<Rightarrow> bool" where
  "matrix_current st \<longleftrightarrow>
     costs_ok (tr_of st) (translators st) \<and> tr_mat st = path_matrix (tr_of st) (translators st)"

lemma build_path_result:
  fixes st :: tr_state and env :: "'p trans_env"
  assumes "matrix_current st" "newpvt_keeps env" "source \<noteq> 0" "dest \<noteq> 0"
  defines "x \<equiv> nat (powerof source)" and "z \<equiv> nat (powerof dest)"
  shows "\<exists>r st'. tris_translator_build_path env dest source st = Some (r, [], st') \<and>
    (case r of None \<Rightarrow> st' = st \<and>
        (\<not> instances_ok env (translators st) \<or> (\<nexists>us. walk (tr_of st) (translators st) x us z))
     | Some path \<Rightarrow> st' = add_refs (map pv_t path) st \<and> good_path st path x (map pv_t path) z)"
proof -
  let ?m = "path_matrix (tr_of st) (translators st)"
  have ok: "costs_ok (tr_of st) (translators st)" "tr_mat st = ?m"
    using assms(1) by (auto simp: matrix_current_def)
  have b: "powerof source = int x" "powerof dest = int z" "z < MAX_FORMAT"
    using powerof_pos(1,2) [OF assms(3)] powerof_pos(1,2) [OF assms(4)] by (auto simp: x_def z_def MAX_FORMAT_def)
  have eq: "tris_translator_build_path env dest source st = build_loop env (int x) (int z) [] st"
    by (simp add: tris_translator_build_path_def b)
  show ?thesis
  proof (cases "x = z \<or> step (?m x z) \<noteq> None")
    case True
    from build_loop_path [OF ok(1) assms(2) ok(2) b(3) True, of "[]"]
    show ?thesis unfolding eq by (fastforce split: option.splits)
  next
    case False
    then have "\<nexists>us. walk (tr_of st) (translators st) x us z" using path_matrix_le(1) [OF ok(1)] by blast
    moreover have "build_loop env (int x) (int z) [] st = Some (None, [], st)"
      using False ok(2) by (subst build_loop.simps) simp
    ultimately show ?thesis unfolding eq by simp
  qed
qed

text \<open>If some sequence of translators leads from one format to another, then the code's walk
  through the matrix ends and builds the instances of a cheapest such sequence.\<close>

theorem build_path_cheapest:
  fixes st :: tr_state and env :: "'p trans_env"
  assumes "matrix_current st" "newpvt_keeps env" "instances_ok env (translators st)"
    and "source \<noteq> 0" "dest \<noteq> 0"
    and "walk (tr_of st) (translators st) (nat (powerof source)) us (nat (powerof dest))"
  shows "\<exists>path st'. tris_translator_build_path env dest source st = Some (Some path, [], st') \<and>
     walk (tr_of st) (translators st) (nat (powerof source)) (map pv_t path) (nat (powerof dest)) \<and>
     (\<forall>vs. walk (tr_of st) (translators st) (nat (powerof source)) vs (nat (powerof dest)) \<longrightarrow>
        walk_cost (tr_of st) (map pv_t path) \<le> walk_cost (tr_of st) vs)"
proof -
  let ?x = "nat (powerof source)" and ?z = "nat (powerof dest)"
  obtain path st' where p: "tris_translator_build_path env dest source st = Some (Some path, [], st')"
      "good_path st path ?x (map pv_t path) ?z"
    using build_path_result [OF assms(1,2,4,5)] assms(3,6) by (auto split: option.splits)
  have "walk_cost (tr_of st) (map pv_t path) \<le> walk_cost (tr_of st) vs"
    if "walk (tr_of st) (translators st) ?x vs ?z" for vs
    using p(2) path_matrix_le(2) [OF _ that] assms(1) by (auto simp: good_path_def matrix_current_def)
  then show ?thesis using p by (auto simp: good_path_def)
qed

text \<open>Claim C34. Building a path leaves nothing behind: when it fails, whether for lack of a path or of an
  instance half way, every module has the references it had, and when it succeeds, freeing the
  path gives them all back.\<close>

theorem build_path_no_leak:
  fixes st :: tr_state and env :: "'p trans_env"
  assumes "matrix_current st" "newpvt_keeps env"
  shows "\<exists>r st'. tris_translator_build_path env dest source st = Some (r, [], st') \<and>
     (case r of None \<Rightarrow> st' = st | Some path \<Rightarrow> tris_translator_free_path path st' = ([], st))"
proof (cases "source = 0 \<or> dest = 0")
  case True
  then show ?thesis by (auto simp: tris_translator_build_path_def Let_def)
next
  case False
  then obtain r st' where r: "tris_translator_build_path env dest source st = Some (r, [], st')"
    and c: "case r of None \<Rightarrow> st' = st \<and>
        (\<not> instances_ok env (translators st) \<or>
         (\<nexists>us. walk (tr_of st) (translators st) (nat (powerof source)) us (nat (powerof dest))))
     | Some path \<Rightarrow> st' = add_refs (map pv_t path) st \<and>
        good_path st path (nat (powerof source)) (map pv_t path) (nat (powerof dest))"
    using build_path_result [OF assms, of source dest] by blast
  have "case r of None \<Rightarrow> st' = st | Some path \<Rightarrow> tris_translator_free_path path st' = ([], st)"
  proof (cases r)
    case (Some path)
    then show ?thesis using c free_path_refs [of path st] by (simp add: good_path_def)
  qed (use c in simp)
  then show ?thesis using r by blast
qed


section \<open>A state with two translators\<close>

text \<open>When the translators go one way, the sums are bounded by the heights of the formats.\<close>

definition below_heights :: "(nat \<Rightarrow> nat) \<Rightarrow> tr_matrix \<Rightarrow> bool" where
  "below_heights h m \<longleftrightarrow> (\<forall>x z. step (m x z) \<noteq> None \<longrightarrow> h x + unat (pcost (m x z)) \<le> h z)"

lemma below_heights_sum:
  assumes "below_heights h m" "\<forall>x. h x < 2 ^ 32"
  shows "sum_fits x y z m"
proof (unfold sum_fits_def, intro impI)
  assume "z \<noteq> x \<and> z \<noteq> y \<and> step (m x y) \<noteq> None \<and> step (m y z) \<noteq> None"
  then have "h x + unat (pcost (m x y)) \<le> h y" "h y + unat (pcost (m y z)) \<le> h z"
    using assms(1) by (auto simp: below_heights_def)
  moreover have "h z < 2 ^ 32" using assms(2) by blast
  ultimately show "unat (pcost (m x y)) + unat (pcost (m y z)) < 2 ^ 32" by linarith
qed

lemma below_heights_relax:
  assumes "below_heights h m" "\<forall>x. h x < 2 ^ 32"
  shows "below_heights h (fst (relax x y z (m, n)))"
proof (cases rule: relax_cases [of x y z m n])
  case (change c)
  then have l: "h x + unat (pcost (m x y)) \<le> h y" "h y + unat (pcost (m y z)) \<le> h z"
    using assms(1) by (auto simp: below_heights_def)
  have "unat (pcost c) = unat (pcost (m x y)) + unat (pcost (m y z))"
    using below_heights_sum [OF assms, of x y z] change by (simp add: sum_fits_def unat_word_ariths)
  then have "h x + unat (pcost c) \<le> h z" using l by linarith
  then show ?thesis using assms(1) change by (auto simp: below_heights_def set_cell_apply)
qed (simp add: assms)

lemma below_heights_sums:
  "below_heights h m \<Longrightarrow> \<forall>x. h x < 2 ^ 32 \<Longrightarrow> sums_fit ts m"
proof (induction ts m rule: sums_fit.induct)
  case (2 x y z ts m)
  then show ?case using below_heights_sum [of h m] below_heights_relax [of h m x y z 0] by simp
qed simp

lemma below_heights_fits:
  "below_heights h m \<Longrightarrow> \<forall>x. h x < 2 ^ 32 \<Longrightarrow> rebuild_fits m"
proof (induction m rule: rebuild_fits.induct)
  case (1 m)
  have "below_heights h (fst (sweep m))"
    using 1(2,3) by (intro sweep_rule [where P = "\<lambda>s. below_heights h (fst s)"])
      (auto intro: below_heights_relax)
  then show ?case
    using 1 below_heights_sums [of h m] by (subst rebuild_fits.simps) (auto split: prod.splits)
qed

definition demo_translator :: "string \<Rightarrow> int \<Rightarrow> int \<Rightarrow> u32 \<Rightarrow> tris_translator" where
  "demo_translator nm s d c =
     \<lparr>tr_name = nm, srcfmt = s, dstfmt = d, buffer_samples = 160, buf_size = 320, desc_size = 0, plc_samples = 0,
      useplc = False, native_plc = False, tr_cost = c, tr_active = True\<rparr>"

definition demo_trs :: "tid \<Rightarrow> tris_translator" where
  "demo_trs p =
     (if p = 1 then demo_translator ''ulawtolin'' 2 6 1
      else if p = 2 then demo_translator ''lintoalaw'' 6 3 2 else demo_translator ''ulawtoalaw'' 2 3 9)"

definition demo_state :: tr_state where
  "demo_state =
     \<lparr>tr_of = demo_trs, translators = [1, 2, 3], tr_mat = path_matrix demo_trs [1, 2, 3],
      mod_of = (\<lambda>p. p), mod_refs = (\<lambda>_. 0)\<rparr>"

definition demo_env :: "unit trans_env" where
  "demo_env =
     \<lparr>codecs = (\<lambda>_. \<lparr>c_newpvt = None,
                     c_framein = (\<lambda>pvt f. (0, pvt\<lparr>pv_samples := pv_samples pvt + samples f,
                                                 pv_datalen := pv_datalen pvt + 2 * samples f\<rparr>)),
                     c_frameout = None, c_sample = None\<rparr>),
      zero_mem = (), plc_fillin = (\<lambda>pvt l. (l, pvt)), plc_rx = (\<lambda>pvt _ _. pvt), alloc_ok = (\<lambda>_. True),
      cpu_time = (\<lambda>_. 1000), sizeof_plc = 200, ptr_align = 8\<rparr>"

lemma demo_costs: "costs_ok demo_trs [1, 2, 3]"
proof -
  let ?h = "\<lambda>x :: nat. if x = 2 then 0 else if x = 6 then 1 else if x = 3 then 9 else (0 :: nat)"
  have "below_heights ?h (direct_matrix demo_trs [1, 2, 3])"
    by (simp add: direct_matrix_def direct_def demo_trs_def demo_translator_def no_path_def
        below_heights_def set_cell_def)
  then have "rebuild_fits (direct_matrix demo_trs [1, 2, 3])" by (rule below_heights_fits) simp
  then show ?thesis
    by (simp add: costs_ok_def valid_translators_def demo_trs_def demo_translator_def MAX_FORMAT_def)
qed

lemma demo_fields: "tr_of demo_state = demo_trs" "translators demo_state = [1, 2, 3]"
  by (simp_all add: demo_state_def)

lemma demo_current: "matrix_current demo_state"
  using demo_costs by (simp add: matrix_current_def demo_state_def)

lemma demo_walk: "walk demo_trs [1, 2, 3] 2 [1, 2] 3"
  by (simp add: demo_trs_def demo_translator_def)

lemma demo_powerof: "powerof 4 = 2" "powerof 8 = 3"
  by (simp_all add: powerof_def ffs_def upt_conv_Cons bit_simps)

lemma demo_env_ok: "newpvt_keeps demo_env" "instances_ok demo_env ps"
  by (simp_all add: newpvt_keeps_def instances_ok_def demo_env_def)

text \<open>From format 2 to format 3 through format 6, rather than by the dearer direct translator.\<close>

theorem rebuild_matrix_cheapest_witness:
  "\<exists>st'. rebuild_matrix demo_env 0 demo_state = Some st' \<and>
     cheapest_cell demo_trs [1, 2, 3] 2 3 (tr_mat st' 2 3)"
proof -
  have n: "(2 :: nat) \<noteq> 3" by simp
  show ?thesis
    by (rule rebuild_matrix_cheapest [OF demo_costs [folded demo_fields] n, of demo_env, unfolded demo_fields])
qed

theorem build_path_cheapest_witness:
  "\<exists>path st'. tris_translator_build_path demo_env 8 4 demo_state = Some (Some path, [], st') \<and>
     walk_cost demo_trs (map pv_t path) \<le> 3"
proof -
  have w: "walk (tr_of demo_state) (translators demo_state) (nat (powerof 4)) [1, 2] (nat (powerof 8))"
    unfolding demo_fields demo_powerof using demo_walk by (simp only: nat_numeral)
  have c: "walk_cost demo_trs [1, 2] = 3" by (simp add: demo_trs_def demo_translator_def)
  have n: "(4 :: u32) \<noteq> 0" "(8 :: u32) \<noteq> 0" by simp_all
  obtain path st' where "tris_translator_build_path demo_env 8 4 demo_state = Some (Some path, [], st')"
      "walk_cost demo_trs (map pv_t path) \<le> walk_cost demo_trs [1, 2]"
    using build_path_cheapest [OF demo_current demo_env_ok(1,2) n w] w unfolding demo_fields by blast
  then show ?thesis unfolding c by blast
qed

theorem build_path_no_leak_witness:
  "\<exists>r st'. tris_translator_build_path demo_env 8 4 demo_state = Some (r, [], st') \<and>
     (case r of None \<Rightarrow> st' = demo_state | Some path \<Rightarrow> tris_translator_free_path path st' = ([], demo_state))"
  by (rule build_path_no_leak [OF demo_current demo_env_ok(1)])


end
