(* ===== verification/TransChoice.thy ===== *)
theory TransChoice
  imports TransPath
begin

text \<open>
  What the operations of \<open>main/translate.c\<close> promise their callers: registration, the choice of a pair
  of formats, the formats that remain available, the layout of an instance's block and the bounds
  of its buffer.
\<close>

section \<open>Registration\<close>

text \<open>The dearer translator of the same pair, before which the new one is put.\<close>

definition dearer :: "(tid \<Rightarrow> tris_translator) \<Rightarrow> tid \<Rightarrow> tid \<Rightarrow> bool" where
  "dearer trs t u \<longleftrightarrow> srcfmt (trs u) = srcfmt (trs t) \<and> dstfmt (trs u) = dstfmt (trs t) \<and>
     sint (tr_cost (trs t)) < sint (tr_cost (trs u))"

lemma insert_sorted_None: "insert_sorted trs None us = (if us = [] then Some (None, []) else None)"
  by (cases us) auto

lemma insert_sorted_Cons:
  "insert_sorted trs (Some t) (u # us) =
     (if dearer trs t u then if us = [] then Some (None, [t, u]) else None
      else map_option (\<lambda>(r, us). (r, u # us)) (insert_sorted trs (Some t) us))"
  by (simp add: dearer_def insert_sorted_None insert_sorted.simps(3))

declare insert_sorted.simps(3) [simp del]

lemma insert_sorted_append:
  "\<forall>u \<in> set us. \<not> dearer trs t u \<Longrightarrow>
   insert_sorted trs (Some t) (us @ vs) = map_option (\<lambda>(r, ws). (r, us @ ws)) (insert_sorted trs (Some t) vs)"
proof (induction us)
  case (Cons u us)
  then have "insert_sorted trs (Some t) ((u # us) @ vs) =
      map_option (\<lambda>(r, us). (r, u # us)) (map_option (\<lambda>(r, ws). (r, us @ ws)) (insert_sorted trs (Some t) vs))"
    by (simp add: insert_sorted_Cons)
  then show ?case by (simp add: option.map_comp comp_def case_prod_beta)
qed (simp add: option.map_id)

lemma insert_sorted_none_dearer:
  "\<forall>u \<in> set us. \<not> dearer trs t u \<Longrightarrow> insert_sorted trs (Some t) us = Some (Some t, us)"
  using insert_sorted_append [of us trs t "[]"] by simp

lemma insert_sorted_dearer:
  "\<forall>u \<in> set us. \<not> dearer trs t u \<Longrightarrow> dearer trs t u \<Longrightarrow>
   insert_sorted trs (Some t) (us @ u # vs) = (if vs = [] then Some (None, us @ [t, u]) else None)"
  by (simp add: insert_sorted_append insert_sorted_Cons)

lemma insert_sorted_cases:
  obtains (none) "\<forall>u \<in> set us. \<not> dearer trs t u" "insert_sorted trs (Some t) us = Some (Some t, us)"
    | (last) vs u where "us = vs @ [u]" "\<forall>u \<in> set vs. \<not> dearer trs t u" "dearer trs t u"
        "insert_sorted trs (Some t) us = Some (None, vs @ [t, u])"
    | (crash) vs u ws where "us = vs @ u # ws" "ws \<noteq> []" "dearer trs t u" "insert_sorted trs (Some t) us = None"
proof (cases "\<exists>u \<in> set us. dearer trs t u")
  case True
  from split_list_first_prop [OF this] obtain vs u ws where
    u: "us = vs @ u # ws" "dearer trs t u" "\<forall>u \<in> set vs. \<not> dearer trs t u" by blast
  show ?thesis
  proof (cases "ws = []")
    case True
    then show ?thesis using u insert_sorted_dearer [OF u(3,2), of ws] by (intro last) simp_all
  next
    case False
    then show ?thesis using u insert_sorted_dearer [OF u(3,2), of ws] by (intro crash) simp_all
  qed
qed (auto intro: none insert_sorted_none_dearer)

lemma newpvt_state: "snd (newpvt env p st) = st \<or> snd (newpvt env p st) = module_ref p st"
  by (auto simp: newpvt_def split: option.splits prod.splits)

lemma destroy_state: "snd (destroy pvt st) = st \<or> snd (destroy pvt st) = module_unref (pv_t pvt) st"
  by (simp add: destroy_def)

lemma module_ref_fields [simp]:
  "tr_of (module_ref p st) = tr_of st" "translators (module_ref p st) = translators st"
  "tr_of (module_unref p st) = tr_of st" "translators (module_unref p st) = translators st"
  by (simp_all add: module_ref_def module_unref_def)

text \<open>Measuring changes the translator's cost only, and the references of modules.\<close>

lemma calc_cost_result:
  assumes "calc_cost env p n st = Some st'"
  obtains c st'' where "st' = set_cost p c st''" "tr_of st'' = tr_of st" "translators st'' = translators st"
proof -
  have n: "tr_of (snd (newpvt env p st)) = tr_of st" "translators (snd (newpvt env p st)) = translators st"
    using newpvt_state [of env p st] by auto
  have d: "tr_of (snd (destroy pvt s)) = tr_of s" "translators (snd (destroy pvt s)) = translators s"
    for pvt :: "'a tris_trans_pvt" and s :: tr_state
    using destroy_state [of pvt s] by auto
  show thesis
  proof (cases "c_sample (codecs env p)")
    case None
    then show thesis using assms that [of 999999 st] by (simp add: calc_cost_def)
  next
    case (Some sample)
    obtain r s where s: "newpvt env p st = (r, s)" by (cases "newpvt env p st")
    show thesis
    proof (cases r)
      case None
      then show thesis using assms Some s n that [of 999999 s] by (simp add: calc_cost_def)
    next
      case r: (Some pvt)
      let ?run = "calc_loop env (tr_of s) sample
        ((if n = 0 then 1 else n) * tris_format_rate (word_of_int (dstfmt (tr_of st p)))) 0 0 pvt"
      obtain ok q where run: "?run = Some (ok, q)"
        using assms Some s r by (cases ?run) (auto simp: calc_cost_def Let_def)
      have "\<exists>c. st' = set_cost p c (snd (destroy q s))"
        using assms Some s r run by (auto simp: calc_cost_def Let_def split: if_splits)
      then show thesis using that [of _ "snd (destroy q s)"] d [of q s] n s by auto
    qed
  qed
qed

text \<open>Registering a checked translator dereferences NULL when a dearer one of the same pair is
  in the list and is not the last: the search goes on after the insertion with the pointer
  cleared. Otherwise the translator joins the list, before the dearer one or at the head, and the
  matrix is that of the new list.\<close>

theorem register_add_result:
  fixes st :: tr_state
  assumes "calc_cost env p 1 st = Some st1"
  shows "(register_add env p st = Null_deref \<longleftrightarrow>
       (\<exists>vs u ws. translators st = vs @ u # ws \<and> ws \<noteq> [] \<and> dearer (tr_of st1) p u)) \<and>
     (register_add env p st \<noteq> Null_deref \<longrightarrow>
       (\<exists>us st'. register_add env p st = Ret (0, st') \<and> tr_of st' = tr_of st1 \<and> translators st' = us \<and>
          (us = p # translators st \<or> (\<exists>vs u. translators st = vs @ [u] \<and> us = vs @ [p, u] \<and> dearer (tr_of st1) p u)) \<and>
          tr_mat st' = path_matrix (tr_of st1) us))"
proof -
  have l: "translators st1 = translators st"
    using calc_cost_result [OF assms] by (metis set_cost_def tr_state.ext_inject tr_state.surjective tr_state.update_convs(1))
  show ?thesis
  proof (cases rule: insert_sorted_cases [of "translators st" "tr_of st1" p])
    case none
    then show ?thesis
      using assms l by (auto simp: register_add_def rebuild_matrix_0 Let_def)
  next
    case (last vs u)
    then have "\<not> dearer (tr_of st1) p v" if "translators st = ws @ v # xs" "xs \<noteq> []" for ws v xs
      using that by (metis append_butlast_last_id append_is_Nil_conv butlast.simps(2) butlast_append butlast_snoc in_set_conv_decomp list.distinct(1))
    then show ?thesis
      using assms l last by (auto simp: register_add_def rebuild_matrix_0 Let_def)
  next
    case (crash vs u ws)
    then show ?thesis
      using assms l by (auto simp: register_add_def)
  qed
qed

section \<open>The best pair of formats\<close>

text \<open>The order of choices: cost, then whether several steps are needed.\<close>

definition cheaper :: "u32 \<times> u32 \<Rightarrow> u32 \<times> u32 \<Rightarrow> bool" where
  "cheaper a b \<longleftrightarrow> fst a < fst b \<or> fst a = fst b \<and> snd a < snd b"

definition cell_key :: "translator_path \<Rightarrow> u32 \<times> u32" where
  "cell_key c = (pcost c, multistep c)"

definition choice_key :: "choice \<Rightarrow> u32 \<times> u32" where
  "choice_key c = (besttime c, beststeps c)"

definition no_choice :: choice where
  "no_choice = \<lparr>best = - 1, bestdst = 0, besttime = INT_MAX, beststeps = INT_MAX\<rparr>"

definition candidate :: "tr_matrix \<Rightarrow> u32 \<Rightarrow> u32 \<Rightarrow> nat \<Rightarrow> nat \<Rightarrow> bool" where
  "candidate m dst srcs x y \<longleftrightarrow> bit srcs x \<and> bit dst y \<and> step (m x y) \<noteq> None"

definition chosen :: "tr_matrix \<Rightarrow> nat \<Rightarrow> nat \<Rightarrow> choice" where
  "chosen m x y = \<lparr>best = 2 ^ x, bestdst = 2 ^ y, besttime = pcost (m x y), beststeps = multistep (m x y)\<rparr>"

lemma cheaper_trans: "cheaper a b \<Longrightarrow> cheaper b c \<Longrightarrow> cheaper a c"
  by (auto simp: cheaper_def)

lemma not_cheaper_trans: "\<not> cheaper a b \<Longrightarrow> cheaper c b \<Longrightarrow> \<not> cheaper a c"
  by (auto simp: cheaper_def)

lemma choice_key_chosen [simp]: "choice_key (chosen m x y) = cell_key (m x y)"
  by (simp add: choice_key_def chosen_def cell_key_def)

lemma choice_step_eq:
  "bit dst y \<Longrightarrow> choice_step m y srcs x c =
     (if candidate m dst srcs x y \<and> cheaper (cell_key (m x y)) (choice_key c) then chosen m x y else c)"
  by (auto simp: choice_step_def candidate_def cheaper_def cell_key_def choice_key_def chosen_def)

text \<open>The choice after some pairs have been looked at.\<close>

definition best_of :: "tr_matrix \<Rightarrow> u32 \<Rightarrow> u32 \<Rightarrow> (nat \<times> nat) set \<Rightarrow> choice \<Rightarrow> bool" where
  "best_of m dst srcs S c \<longleftrightarrow>
     (\<forall>(x, y) \<in> S. candidate m dst srcs x y \<longrightarrow> \<not> cheaper (cell_key (m x y)) (choice_key c)) \<and>
     (c = no_choice \<or> (\<exists>(x, y) \<in> S. candidate m dst srcs x y \<and> c = chosen m x y))"

lemma best_of_step:
  assumes "best_of m dst srcs S c" "bit dst y"
  shows "best_of m dst srcs (insert (x, y) S) (choice_step m y srcs x c)"
proof (cases "candidate m dst srcs x y \<and> cheaper (cell_key (m x y)) (choice_key c)")
  case True
  have "\<not> cheaper (cell_key (m a b)) (cell_key (m x y))" if "(a, b) \<in> S" "candidate m dst srcs a b" for a b
  proof -
    have "\<not> cheaper (cell_key (m a b)) (choice_key c)" using that assms(1) by (auto simp: best_of_def)
    then show ?thesis using True not_cheaper_trans by blast
  qed
  then show ?thesis using True assms(2) unfolding best_of_def
    by (auto simp: choice_step_eq cheaper_def)
next
  case False
  then show ?thesis using assms unfolding best_of_def by (auto simp: choice_step_eq)
qed

lemma best_of_skip: "best_of m dst srcs S c \<Longrightarrow> \<not> bit dst y \<Longrightarrow> best_of m dst srcs (S \<union> A \<times> {y}) c"
  by (auto simp: best_of_def candidate_def)

lemma best_of_row:
  "best_of m dst srcs S c \<Longrightarrow> bit dst y \<Longrightarrow>
   best_of m dst srcs (S \<union> set xs \<times> {y}) (fold (choice_step m y srcs) xs c)"
proof (induction xs arbitrary: S c)
  case (Cons x xs)
  then show ?case using Cons.IH [OF best_of_step [OF Cons.prems], of x] by simp
qed simp

lemma best_of_rows:
  "best_of m dst srcs S c \<Longrightarrow>
   best_of m dst srcs (S \<union> set xs \<times> set ys)
     (fold (\<lambda>y c. if \<not> bit dst y then c else fold (choice_step m y srcs) xs c) ys c)"
proof (induction ys arbitrary: S c)
  case (Cons y ys)
  let ?c = "if \<not> bit dst y then c else fold (choice_step m y srcs) xs c"
  have "best_of m dst srcs (S \<union> set xs \<times> {y}) ?c"
    using best_of_row [OF Cons.prems] best_of_skip [OF Cons.prems] by simp
  from Cons.IH [OF this] show ?case by (simp add: Sigma_Un_distrib2 Un_assoc insert_Times_insert Times_insert_right)
qed simp

lemma choice_loop_best:
  "best_of m dst srcs ({..MAX_AUDIO_FORMAT} \<times> {..MAX_AUDIO_FORMAT}) (choice_loop m dst srcs)"
  using best_of_rows [of m dst srcs "{}" no_choice "[0..<Suc MAX_AUDIO_FORMAT]" "[0..<Suc MAX_AUDIO_FORMAT]"]
  by (simp add: choice_loop_def no_choice_def [symmetric] best_of_def atLeast0LessThan lessThan_Suc_atMost del: upt_Suc)

lemma audio_mask_bit: "bit TRIS_FORMAT_AUDIO_MASK i \<longleftrightarrow> i < 16"
proof -
  have m: "TRIS_FORMAT_AUDIO_MASK = Bit_Operations.mask 16"
    by (simp add: TRIS_FORMAT_AUDIO_MASK_def mask_eq_exp_minus_1)
  show ?thesis unfolding m bit_mask_iff by auto
qed

text \<open>With a common audio format the lowest one is chosen. Otherwise the choice is a pair of a
  source and a destination with a path between them, of least cost and, among those, without
  intermediate steps if possible; it fails exactly when no such pair costs less than the bound of
  an \<open>int\<close>, and then leaves the formats alone.\<close>

theorem best_choice_least:
  "case tris_translator_best_choice m dst srcs of (r, d, s) \<Rightarrow>
     if dst AND srcs AND TRIS_FORMAT_AUDIO_MASK \<noteq> 0
     then r = 0 \<and> (\<exists>y. d = push_bit y 1 \<and> s = push_bit y 1 \<and> bit dst y \<and> bit srcs y \<and>
            y \<le> MAX_AUDIO_FORMAT \<and> (\<forall>i < y. \<not> (bit dst i \<and> bit srcs i)))
     else
       r = - 1 \<and> d = dst \<and> s = srcs \<and>
         (\<forall>x \<le> MAX_AUDIO_FORMAT. \<forall>y \<le> MAX_AUDIO_FORMAT. candidate m dst srcs x y \<longrightarrow>
            \<not> cheaper (cell_key (m x y)) (INT_MAX, INT_MAX)) \<or>
       r = 0 \<and> (\<exists>x y. x \<le> MAX_AUDIO_FORMAT \<and> y \<le> MAX_AUDIO_FORMAT \<and> candidate m dst srcs x y \<and>
         s = push_bit x 1 \<and> d = push_bit y 1 \<and>
         (\<forall>x' \<le> MAX_AUDIO_FORMAT. \<forall>y' \<le> MAX_AUDIO_FORMAT. candidate m dst srcs x' y' \<longrightarrow>
            \<not> cheaper (cell_key (m x' y')) (cell_key (m x y))))"
proof (cases "dst AND srcs AND TRIS_FORMAT_AUDIO_MASK = 0")
  case True
  let ?c = "choice_loop m dst srcs"
  have b: "best_of m dst srcs ({..MAX_AUDIO_FORMAT} \<times> {..MAX_AUDIO_FORMAT}) ?c" by (rule choice_loop_best)
  have t: "(dst AND srcs) AND TRIS_FORMAT_AUDIO_MASK = 0" using True by (simp add: and.assoc)
  show ?thesis
  proof (cases "?c = no_choice")
    case n: True
    then show ?thesis using b True t
      by (simp add: tris_translator_best_choice_def Let_def best_of_def no_choice_def choice_key_def)
  next
    case False
    then obtain x y where xy: "x \<le> MAX_AUDIO_FORMAT" "y \<le> MAX_AUDIO_FORMAT" "candidate m dst srcs x y" "?c = chosen m x y"
      using b by (auto simp: best_of_def)
    have l: "\<not> cheaper (cell_key (m x' y')) (cell_key (m x y))"
      if "x' \<le> MAX_AUDIO_FORMAT" "y' \<le> MAX_AUDIO_FORMAT" "candidate m dst srcs x' y'" for x' y'
      using b that xy by (auto simp: best_of_def)
    have "tris_translator_best_choice m dst srcs = (0, push_bit y 1, push_bit x 1)"
      using t xy(4) less_le_trans [of "- 1" 0 "2 ^ x :: int"] by (simp add: tris_translator_best_choice_def Let_def chosen_def)
    then show ?thesis using True xy l by auto
  qed
next
  case False
  let ?common = "dst AND srcs AND TRIS_FORMAT_AUDIO_MASK"
  have bits: "bit TRIS_FORMAT_AUDIO_MASK i \<longleftrightarrow> i < 16" for i
    by (rule audio_mask_bit)
  obtain i where i: "i < 16" "bit ?common i"
    using powerof_pos(3) [OF False] bits by (metis bit_and_iff)
  then obtain y where y: "List.find (bit ?common) [0..<Suc MAX_AUDIO_FORMAT] = Some y"
    by (cases "List.find (bit ?common) [0..<Suc MAX_AUDIO_FORMAT]") (auto simp: find_None_iff MAX_AUDIO_FORMAT_def simp del: upt_Suc)
  then have p: "y \<le> MAX_AUDIO_FORMAT" "bit dst y" "bit srcs y" "\<forall>i < y. \<not> bit ?common i"
    by (auto simp: find_Some_iff bit_and_iff simp del: upt_Suc)
  then have q: "\<forall>i < y. \<not> (bit dst i \<and> bit srcs i)"
    using bits by (auto simp: bit_and_iff MAX_AUDIO_FORMAT_def)
  have "tris_translator_best_choice m dst srcs = (0, push_bit y 1, push_bit y 1)"
    using False y by (simp add: tris_translator_best_choice_def Let_def and.assoc del: upt_Suc push_bit_of_1)
  then show ?thesis using False p q by (simp del: push_bit_of_1) blast
qed

definition demo_matrix :: tr_matrix where
  "demo_matrix = set_cell 2 3 \<lparr>step = Some 1, pcost = 5, multistep = 0\<rparr> (\<lambda>_ _. no_path)"

theorem best_choice_least_witness: "tris_translator_best_choice demo_matrix 8 4 = (0, 8, 4)"
proof -
  have 4: "bit (4 :: u32) x \<longleftrightarrow> x = 2" and 8: "bit (8 :: u32) x \<longleftrightarrow> x = 3" for x
    using bit_push_bit_iff [of 2 "1 :: u32" x] bit_push_bit_iff [of 3 "1 :: u32" x]
    by (auto simp: bit_1_iff)
  have c: "candidate demo_matrix 8 4 x y \<longleftrightarrow> x = 2 \<and> y = 3" for x y
    by (auto simp: candidate_def 4 8 demo_matrix_def set_cell_apply no_path_def)
  have k: "cheaper (cell_key (demo_matrix 2 3)) (INT_MAX, INT_MAX)"
    by (simp add: cheaper_def cell_key_def demo_matrix_def set_cell_apply INT_MAX_def)
  obtain r d s where e: "tris_translator_best_choice demo_matrix 8 4 = (r, d, s)"
    by (cases "tris_translator_best_choice demo_matrix 8 4")
  have z: "(8 :: u32) AND 4 AND TRIS_FORMAT_AUDIO_MASK = 0" by (simp add: TRIS_FORMAT_AUDIO_MASK_def)
  have le: "(2 :: nat) \<le> MAX_AUDIO_FORMAT" "(3 :: nat) \<le> MAX_AUDIO_FORMAT" by (simp_all add: MAX_AUDIO_FORMAT_def)
  from best_choice_least [of 8 4 demo_matrix, unfolded e prod.case z c simp_thms if_False]
  have "r = 0 \<and> s = push_bit 2 1 \<and> d = push_bit 3 1"
  proof (elim disjE conjE exE)
    assume "\<forall>x \<le> MAX_AUDIO_FORMAT. \<forall>y \<le> MAX_AUDIO_FORMAT. x = 2 \<and> y = 3 \<longrightarrow>
        \<not> cheaper (cell_key (demo_matrix x y)) (INT_MAX, INT_MAX)"
    then show ?thesis using le k by blast
  qed simp
  then show ?thesis using e by simp
qed

section \<open>The available formats\<close>

text \<open>Whether there are paths both ways between a format and the source.\<close>

definition two_way :: "tr_matrix \<Rightarrow> nat \<Rightarrow> nat \<Rightarrow> bool" where
  "two_way m s k \<longleftrightarrow> step (m s k) \<noteq> None \<and> step (m k s) \<noteq> None"

lemma AND_push_bit_eq_0: "k < 32 \<Longrightarrow> (w :: u32) AND push_bit k 1 = 0 \<longleftrightarrow> \<not> bit w k"
proof -
  assume k: "k < 32"
  have "bit (w AND push_bit k 1) i \<longleftrightarrow> i = k \<and> bit w k" for i
    using k by (auto simp: bit_and_iff bit_push_bit_iff bit_1_iff simp del: push_bit_of_1)
  then show ?thesis by (metis bit_0_eq bit_eq_iff bot_apply bot_bool_def)
qed

lemma bit_single: "bit (push_bit k 1 :: u32) i \<longleftrightarrow> i = k \<and> k < 32"
  by (auto simp: bit_push_bit_iff bit_1_iff simp del: push_bit_of_1)

lemma powerof_single: "k < 32 \<Longrightarrow> powerof (push_bit k 1) = int k"
proof -
  assume k: "k < 32"
  then have "(push_bit k 1 :: u32) \<noteq> 0" using bit_single [of k k] by auto
  from powerof_pos [OF this] bit_single show ?thesis by auto
qed

lemma avail_loop_bits:
  assumes "s \<noteq> 0" "\<And>k. k < 32 \<Longrightarrow> i \<le> k \<Longrightarrow> bit msk k \<longleftrightarrow> k < hi" "i \<le> hi" "hi < 32"
  shows "\<exists>res'. avail_loop m msk s dest src i res = (res', hi) \<and>
    (\<forall>k. bit res' k \<longleftrightarrow> bit res k \<and> (i \<le> k \<and> k < hi \<and> bit dest k \<and> \<not> bit src k \<longrightarrow> two_way m (unat s) k))"
  using assms(2,3)
proof (induction "hi - i" arbitrary: i res)
  case 0
  then have "(push_bit i 1 :: u32) AND msk = 0"
    using assms(4) AND_push_bit_eq_0 [of i msk] by (simp add: and.commute del: push_bit_of_1)
  then show ?case using 0 by (subst avail_loop.simps) (auto simp: Let_def simp del: push_bit_of_1)
next
  case (Suc n)
  then have i: "i < hi" "i < 32" "bit msk i" using assms(4) by auto
  let ?res = "if bit dest i \<and> \<not> bit src i \<and> \<not> two_way m (unat s) i then res AND NOT (push_bit i 1) else res"
  have m: "(push_bit i 1 :: u32) AND msk \<noteq> 0"
    using i AND_push_bit_eq_0 [of i msk] by (simp add: and.commute del: push_bit_of_1)
  have "avail_loop m msk s dest src i res = avail_loop m msk s dest src (Suc i) ?res"
    using assms(1) m i by (subst avail_loop.simps)
      (simp add: Let_def AND_push_bit_eq_0 powerof_single two_way_def del: push_bit_of_1)
  moreover obtain res' where r: "avail_loop m msk s dest src (Suc i) ?res = (res', hi)"
      "\<forall>k. bit res' k \<longleftrightarrow> bit ?res k \<and> (Suc i \<le> k \<and> k < hi \<and> bit dest k \<and> \<not> bit src k \<longrightarrow> two_way m (unat s) k)"
  proof -
    have "n = hi - Suc i" "Suc i \<le> hi" using Suc.hyps(2) i by auto
    from Suc.hyps(1) [OF this(1) _ this(2), of ?res] Suc.prems(1) that show thesis by auto
  qed
  moreover have b: "bit ?res k \<longleftrightarrow> bit res k \<and> (k = i \<and> bit dest k \<and> \<not> bit src k \<longrightarrow> two_way m (unat s) k)" for k
    using i bit_imp_le_length [of res k] by (auto simp: bit_and_iff bit_not_iff bit_single simp del: push_bit_of_1)
  have "bit res' k \<longleftrightarrow> bit res k \<and> (i \<le> k \<and> k < hi \<and> bit dest k \<and> \<not> bit src k \<longrightarrow> two_way m (unat s) k)" for k
  proof -
    have "i \<le> k \<longleftrightarrow> k = i \<or> Suc i \<le> k" by auto
    then show ?thesis using r(2) b [of k] i(1) by blast
  qed
  ultimately show ?case by simp
qed

lemma avail_loop_none: "s = 0 \<or> \<not> bit msk i \<Longrightarrow> i < 32 \<Longrightarrow> avail_loop m msk s dest src i res = (res, i)"
  using AND_push_bit_eq_0 [of i msk]
  by (subst avail_loop.simps) (auto simp: Let_def and.commute simp del: push_bit_of_1)

lemma video_mask_bit: "bit TRIS_FORMAT_VIDEO_MASK i \<longleftrightarrow> 16 \<le> i \<and> i < 24"
proof -
  have m: "TRIS_FORMAT_VIDEO_MASK = Bit_Operations.mask 24 AND NOT TRIS_FORMAT_AUDIO_MASK"
    by (simp add: TRIS_FORMAT_VIDEO_MASK_def mask_eq_exp_minus_1)
  show ?thesis unfolding m bit_and_iff bit_not_iff audio_mask_bit bit_mask_iff by auto
qed

lemma unat_small: "0 < i \<Longrightarrow> i < 32 \<Longrightarrow> unat (word_of_int i :: u32) = nat i \<and> (word_of_int i :: u32) \<noteq> 0"
proof -
  assume i: "0 < i" "i < 32"
  then have "uint (word_of_int i :: u32) = i" by (simp add: uint_word_of_int)
  then show ?thesis using i by (metis nat_uint_eq uint_0_eq order_less_irrefl)
qed

text \<open>A format stays available when it is asked for and is the source's or, if its kind is
  checked, has paths to and from the source's format of that kind. Nothing is checked, audio or
  video, when the source has no audio format or its lowest one is number 0.\<close>

theorem available_formats_bits:
  assumes "sr \<noteq> 0"
  defines "a \<equiv> powerof (sr AND TRIS_FORMAT_AUDIO_MASK)" and "v \<equiv> powerof (sr AND TRIS_FORMAT_VIDEO_MASK)"
  shows "bit (tris_translate_available_formats m dest sr) k \<longleftrightarrow>
     bit dest k \<and>
     (bit sr k \<or> a \<le> 0 \<or>
      (if k < 16 then two_way m (nat a) k
       else if k < 24 \<and> sr AND TRIS_FORMAT_VIDEO_MASK \<noteq> 0 then two_way m (nat v) k
       else True))"
proof -
  define au where "au = (if sr AND TRIS_FORMAT_AUDIO_MASK \<noteq> 0 then word_of_int a else (0 :: u32))"
  define vi where "vi = (if sr AND TRIS_FORMAT_VIDEO_MASK \<noteq> 0 then word_of_int v else (0 :: u32))"
  have eq: "tris_translate_available_formats m dest sr =
      (let (res, i) = avail_loop m TRIS_FORMAT_AUDIO_MASK au dest sr 0 dest;
           (res, i) = avail_loop m TRIS_FORMAT_VIDEO_MASK vi dest sr i res in res)"
    using assms(1) by (simp add: tris_translate_available_formats_def au_def vi_def a_def v_def)
  show ?thesis
  proof (cases "a \<le> 0")
    case True
    then have "au = 0"
      using powerof_pos(1) [of "sr AND TRIS_FORMAT_AUDIO_MASK"] by (auto simp: au_def a_def)
    then have "tris_translate_available_formats m dest sr = dest"
      unfolding eq by (simp add: avail_loop_none video_mask_bit)
    then show ?thesis using True by simp
  next
    case False
    have na: "sr AND TRIS_FORMAT_AUDIO_MASK \<noteq> 0" using False by (auto simp: a_def)
    have ua: "unat au = nat a" "au \<noteq> 0"
      using unat_small [of a] False na powerof_pos(2) [OF na] by (simp_all add: au_def a_def)
    obtain r1 where r1: "avail_loop m TRIS_FORMAT_AUDIO_MASK au dest sr 0 dest = (r1, 16)"
      "\<forall>k. bit r1 k \<longleftrightarrow> bit dest k \<and> (k < 16 \<and> \<not> bit sr k \<longrightarrow> two_way m (nat a) k)"
      using avail_loop_bits [OF ua(2), of 0 TRIS_FORMAT_AUDIO_MASK 16 m dest sr dest]
      by (auto simp: audio_mask_bit ua(1))
    show ?thesis
    proof (cases "sr AND TRIS_FORMAT_VIDEO_MASK = 0")
      case True
      then have "vi = 0" by (simp add: vi_def)
      then have "tris_translate_available_formats m dest sr = r1"
        unfolding eq r1 by (simp add: avail_loop_none)
      then show ?thesis using r1(2) True False by simp blast
    next
      case nv: False
      have "16 \<le> nat v" using powerof_pos [OF nv] video_mask_bit by (auto simp: v_def bit_and_iff)
      then have uv: "unat vi = nat v" "vi \<noteq> 0"
        using unat_small [of v] nv powerof_pos(2) [OF nv] by (simp_all add: vi_def v_def)
      obtain r2 where r2: "avail_loop m TRIS_FORMAT_VIDEO_MASK vi dest sr 16 r1 = (r2, 24)"
        "\<forall>k. bit r2 k \<longleftrightarrow> bit r1 k \<and> (16 \<le> k \<and> k < 24 \<and> bit dest k \<and> \<not> bit sr k \<longrightarrow> two_way m (nat v) k)"
        using avail_loop_bits [OF uv(2), of 16 TRIS_FORMAT_VIDEO_MASK 24 m dest sr r1]
        by (auto simp: video_mask_bit uv(1))
      have "tris_translate_available_formats m dest sr = r2" unfolding eq r1 by (simp add: r2)
      then show ?thesis using r1(2) r2(2) nv False by simp blast
    qed
  qed
qed

theorem available_formats_bits_witness:
  "bit (tris_translate_available_formats demo_matrix 0x78 4) 3 = False"
proof -
  have p: "powerof (4 AND TRIS_FORMAT_AUDIO_MASK) = 2"
    using powerof_single [of 2] by (simp add: TRIS_FORMAT_AUDIO_MASK_def)
  have "\<not> bit (4 :: u32) 3" "\<not> two_way demo_matrix 2 3"
    using bit_single [of 2 3] by (simp_all add: two_way_def demo_matrix_def set_cell_apply no_path_def)
  then show ?thesis using available_formats_bits [of 4 demo_matrix "0x78" 3] unfolding p by simp
qed


section \<open>A registration that fails\<close>

definition crash_state :: tr_state where
  "crash_state =
     \<lparr>tr_of = (\<lambda>p. if p = 1 then demo_translator ''slow'' 2 6 1000000 else demo_translator ''other'' 2 6 5),
      translators = [1, 2], tr_mat = \<lambda>_ _. no_path, mod_of = (\<lambda>p. p), mod_refs = (\<lambda>_. 0)\<rparr>"

lemma crash_cost: "calc_cost demo_env 5 1 crash_state = Some (set_cost 5 999999 crash_state)"
  by (simp add: calc_cost_def demo_env_def)

theorem register_add_result_witness: "register_add demo_env 5 crash_state = Null_deref"
proof -
  have "translators crash_state = [] @ 1 # [2]" "dearer (tr_of (set_cost 5 999999 crash_state)) 5 1"
    by (simp_all add: crash_state_def dearer_def set_cost_def demo_translator_def)
  then show ?thesis using register_add_result [OF crash_cost] by blast
qed

section \<open>The layout of an instance's block\<close>

text \<open>The header and the data of the output buffer lie behind the codec's descriptor and the state of the
  packet loss concealment, within the block that was allocated.\<close>

lemma init_pvt_layout:
  assumes "0 \<le> desc_size t" "0 \<le> sizeof_plc env" "0 < buf_size t"
  shows "\<exists>b. outbuf (init_pvt env p t) = Some b \<and> b + buf_size t = pvt_len env t \<and>
     (\<forall>d. pv_pvt (init_pvt env p t) = Some d \<longrightarrow> 0 \<le> d \<and> d + desc_size t \<le> b - TRIS_FRIENDLY_OFFSET) \<and>
     (\<forall>d. plc (init_pvt env p t) = Some d \<longrightarrow> desc_size t \<le> d \<and> d + sizeof_plc env \<le> b - TRIS_FRIENDLY_OFFSET)"
  using assms by (auto simp: init_pvt_def pvt_len_def Let_def)

section \<open>The bounds of the output buffer\<close>

text \<open>What a codec's callbacks promise of the counter of samples: taking in a frame adds at most the
  frame's samples, and the packet loss concealment makes at most what is asked for.\<close>

definition counts_samples :: "'p trans_env \<Rightarrow> bool" where
  "counts_samples env \<longleftrightarrow>
     (\<forall>pvt f. 0 \<le> pv_samples pvt \<longrightarrow> 0 \<le> samples f \<longrightarrow>
        (let pvt' = snd (c_framein (codecs env (pv_t pvt)) pvt f) in
         pv_t pvt' = pv_t pvt \<and> 0 \<le> pv_samples pvt' \<and> pv_samples pvt' \<le> pv_samples pvt + samples f)) \<and>
     (\<forall>pvt l. 0 \<le> l \<longrightarrow> (let (n, pvt') = plc_fillin env pvt l in
        0 \<le> n \<and> n \<le> l \<and> pv_t pvt' = pv_t pvt \<and> pv_samples pvt' = pv_samples pvt)) \<and>
     (\<forall>pvt a l. pv_t (plc_rx env pvt a l) = pv_t pvt \<and> pv_samples (plc_rx env pvt a l) = pv_samples pvt)"

lemma counts_framein:
  assumes "counts_samples env" "c_framein (codecs env (pv_t q)) q f = (ret, r)" "0 \<le> pv_samples q" "0 \<le> samples f"
  shows "pv_t r = pv_t q" "0 \<le> pv_samples r" "pv_samples r \<le> pv_samples q + samples f"
proof -
  have "let pvt' = snd (c_framein (codecs env (pv_t q)) q f) in
      pv_t pvt' = pv_t q \<and> 0 \<le> pv_samples pvt' \<and> pv_samples pvt' \<le> pv_samples q + samples f"
    using assms(1,3,4) unfolding counts_samples_def by blast
  then show "pv_t r = pv_t q" "0 \<le> pv_samples r" "pv_samples r \<le> pv_samples q + samples f"
    by (simp_all add: assms(2) Let_def)
qed

lemma counts_fillin:
  assumes "counts_samples env" "plc_fillin env q l = (n, r)" "0 \<le> l"
  shows "0 \<le> n" "n \<le> l" "pv_t r = pv_t q" "pv_samples r = pv_samples q"
proof -
  have "let (n, pvt') = plc_fillin env q l in 0 \<le> n \<and> n \<le> l \<and> pv_t pvt' = pv_t q \<and> pv_samples pvt' = pv_samples q"
    using assms(1,3) unfolding counts_samples_def by blast
  then show "0 \<le> n" "n \<le> l" "pv_t r = pv_t q" "pv_samples r = pv_samples q" by (simp_all add: assms(2))
qed

definition fits_buffer :: "(tid \<Rightarrow> tris_translator) \<Rightarrow> 'p tris_trans_pvt \<Rightarrow> bool" where
  "fits_buffer trs pvt \<longleftrightarrow> 0 \<le> pv_samples pvt \<and> pv_samples pvt \<le> buffer_samples (trs (pv_t pvt))"

text \<open>With a bounded buffer, taking in frames of whatever length, empty ones that are filled in
  included, never has the instance hold more samples than its buffer: a frame that does not fit is
  refused before the codec sees it.\<close>

theorem framein_bounded:
  assumes "counts_samples env" "fits_buffer trs pvt" "0 \<le> samples f"
    and "0 < buffer_samples (trs (pv_t pvt))" "0 \<le> plc_samples (trs (pv_t pvt))"
  shows "fits_buffer trs (snd (framein env trs pvt f)) \<and>
     (buffer_samples (trs (pv_t pvt)) < pv_samples pvt + samples f \<and> datalen f \<noteq> 0 \<longrightarrow>
        fst (framein env trs pvt f) = - 1 \<and> pv_samples (snd (framein env trs pvt f)) = pv_samples pvt)"
proof -
  let ?t = "trs (pv_t pvt)"
  define p0 where "p0 = pvt\<lparr>pv_f := pv_f pvt\<lparr>has_timing_info := has_timing_info f, fr_ts := fr_ts f,
    fr_len := fr_len f, seqno := seqno f\<rparr>\<rparr>"
  define call where "call = (\<lambda>pvt'. let (ret, q) = c_framein (codecs env (pv_t pvt')) pvt' f in
            if ret = 0 \<and> plc q \<noteq> None
            then let l = (if pv_samples q < plc_samples ?t then pv_samples q else plc_samples ?t)
                 in (ret, plc_rx env q (pv_samples q - l) l)
            else (ret, q))"
  define room where "room = (\<lambda>q. if buffer_samples ?t < pv_samples q + samples f then (- 1, q) else call q)"
  have p0: "pv_t p0 = pv_t pvt" "pv_samples p0 = pv_samples pvt" by (simp_all add: p0_def)
  have room: "fits_buffer trs (snd (room q))" if "fits_buffer trs q" "pv_t q = pv_t pvt" for q
  proof (cases "buffer_samples ?t < pv_samples q + samples f")
    case False
    obtain ret r where r: "c_framein (codecs env (pv_t q)) q f = (ret, r)"
      by (cases "c_framein (codecs env (pv_t q)) q f")
    have s: "pv_t r = pv_t q" "0 \<le> pv_samples r" "pv_samples r \<le> pv_samples q + samples f"
      using counts_framein [OF assms(1) r] assms(3) that(1) by (simp_all add: fits_buffer_def)
    have "pv_t (snd (call q)) = pv_t r \<and> pv_samples (snd (call q)) = pv_samples r"
      using assms(1) r by (simp add: call_def Let_def counts_samples_def)
    then show ?thesis using False s that by (simp add: room_def fits_buffer_def)
  qed (use that in \<open>simp add: room_def\<close>)
  have f: "framein env trs pvt f =
      (if datalen f = 0
       then if plc p0 \<noteq> None
            then if buffer_samples ?t < pv_samples p0 + plc_samples ?t then (- 1, p0)
                 else let (l, q) = plc_fillin env p0 (plc_samples ?t);
                          q = q\<lparr>pv_samples := pv_samples q + l\<rparr>;
                          q = q\<lparr>pv_datalen := pv_samples q * 2\<rparr>
                      in if native_plc ?t then room q else (0, q)
            else if native_plc ?t then room p0 else (0, p0)
       else room p0)"
    using assms(4) unfolding framein_def Let_def p0_def room_def call_def by simp
  have fill: "fits_buffer trs (q\<lparr>pv_samples := pv_samples q + l, pv_datalen := d\<rparr>) \<and> pv_t q = pv_t pvt"
    if "plc_fillin env p0 (plc_samples ?t) = (l, q)" "\<not> buffer_samples ?t < pv_samples p0 + plc_samples ?t" for l q d
    using counts_fillin [OF assms(1) that(1) assms(5)] assms(2) that(2) p0 by (simp add: fits_buffer_def)
  have b: "fits_buffer trs p0" using assms(2) p0 by (simp add: fits_buffer_def)
  have "fits_buffer trs (snd (framein env trs pvt f))"
  proof (cases "datalen f = 0 \<and> plc p0 \<noteq> None \<and> \<not> buffer_samples ?t < pv_samples p0 + plc_samples ?t")
    case True
    obtain l q where q: "plc_fillin env p0 (plc_samples ?t) = (l, q)"
      by (cases "plc_fillin env p0 (plc_samples ?t)")
    let ?q = "q\<lparr>pv_samples := pv_samples q + l, pv_datalen := (pv_samples q + l) * 2\<rparr>"
    have "framein env trs pvt f = (if native_plc ?t then room ?q else (0, ?q))"
      using True q unfolding f by (simp add: Let_def)
    then show ?thesis using fill [OF q, of "(pv_samples q + l) * 2"] True room [of ?q] by simp
  next
    case False
    then have "framein env trs pvt f \<in> {(- 1, p0), (0, p0), room p0}"
      unfolding f by (cases "datalen f = 0"; cases "plc p0"; cases "native_plc ?t") simp_all
    then show ?thesis using b room [OF b p0(1)] by (elim insertE emptyE) simp_all
  qed
  moreover have "framein env trs pvt f = (- 1, p0)" if "buffer_samples ?t < pv_samples pvt + samples f" "datalen f \<noteq> 0"
    using that p0 unfolding f by (simp add: room_def)
  ultimately show ?thesis using p0 by auto
qed

theorem framein_bounded_witness:
  "fits_buffer demo_trs (snd (framein demo_env demo_trs (init_pvt demo_env 1 (demo_trs 1))
     (null_frame\<lparr>samples := 200, datalen := 400\<rparr>))) \<and>
   fst (framein demo_env demo_trs (init_pvt demo_env 1 (demo_trs 1)) (null_frame\<lparr>samples := 200, datalen := 400\<rparr>)) = - 1"
proof -
  have c: "counts_samples demo_env" by (simp add: counts_samples_def demo_env_def Let_def)
  have t: "pv_t (init_pvt demo_env 1 (demo_trs 1)) = 1" "pv_samples (init_pvt demo_env 1 (demo_trs 1)) = 0"
    "demo_trs 1 = demo_translator ''ulawtolin'' 2 6 1"
    by (simp_all add: init_pvt_def Let_def demo_trs_def demo_translator_def)
  then have f: "fits_buffer demo_trs (init_pvt demo_env 1 (demo_trs 1))"
    by (simp add: fits_buffer_def demo_translator_def)
  show ?thesis
    using framein_bounded [OF c f, of "null_frame\<lparr>samples := 200, datalen := 400\<rparr>"] t
    by (simp add: demo_translator_def)
qed

section \<open>Two divergences\<close>

text \<open>The rate of a translator's output is looked up by the number of the format instead of its bit, and is
  always 8000: translators to wide-band formats are measured with half the samples or fewer.\<close>

lemma calc_cost_rate: "0 \<le> i \<Longrightarrow> i < 32 \<Longrightarrow> tris_format_rate (word_of_int i) = 8000"
proof -
  assume i: "0 \<le> i" "i < 32"
  then have "uint (word_of_int i :: u32) = i" by (simp add: uint_word_of_int)
  then have "(word_of_int i :: u32) < 32" using i by (simp add: word_less_def)
  then show ?thesis by (auto simp: tris_format_rate_def)
qed

text \<open>A path through any number of translators counts as two steps.\<close>

lemma path_steps_two:
  "\<lbrakk>sr \<noteq> 0; dest \<noteq> 0; multistep (m (nat (powerof sr)) (nat (powerof dest))) = 1;
    step (m (nat (powerof sr)) (nat (powerof dest))) \<noteq> None\<rbrakk> \<Longrightarrow> tris_translate_path_steps m dest sr = 2"
  using powerof_pos(1) [of sr] powerof_pos(1) [of dest] by (auto simp: tris_translate_path_steps_def Let_def)


end
