(* ===== verification/Smoother.thy ===== *)
theory Smoother
  imports Prelude Timeval
begin

text \<open>
  The smoother of \<open>main/frame.c\<close>, which repacks voice frames to a given size. Products with the float
  \<open>samplesperbyte\<close> are a parameter \<open>fl_mul n a b\<close>, the C value of \<open>(int) (n * ((float) a / (float) b))\<close>.

  A frame of the configured size that meets an empty smoother is not copied: the code keeps a pointer to the caller's frame
  (\<open>s->opt\<close>) until the next read. The model keeps the frame itself, so that it says nothing of callers that free or
  change the frame before it has been read.
\<close>

section \<open>State and operations\<close>

definition SMOOTHER_SIZE :: nat where "SMOOTHER_SIZE = 8000"
definition TRIS_MIN_OFFSET :: int where "TRIS_MIN_OFFSET = 32"
definition TRIS_FRIENDLY_OFFSET :: int where "TRIS_FRIENDLY_OFFSET = 64"
definition TRIS_SMOOTHER_FLAG_G729 :: u32 where "TRIS_SMOOTHER_FLAG_G729 = 1"
definition TRIS_SMOOTHER_FLAG_BE :: u32 where "TRIS_SMOOTHER_FLAG_BE = 2"

text \<open>A frame with its bytes; the field \<open>datalen\<close> of the code is their number.\<close>

record voice_frame =
  is_voice :: bool
  fr_subclass :: u32
  samples :: nat
  offset :: int
  delivery :: timeval
  payload :: "u8 list"

abbreviation datalen :: "voice_frame \<Rightarrow> nat" where "datalen f \<equiv> length (payload f)"

record tris_smoother =
  s_size :: int
  format :: u32
  s_flags :: u32
  samplesperbyte :: "nat \<times> nat"
  opt_needs_swap :: bool
  s_delivery :: timeval
  s_data :: "u8 list"
  opt :: "voice_frame option"
  s_len :: nat

text \<open>\<open>memcpy\<close> into the buffer; \<open>None\<close> when it writes beyond the array.\<close>

definition put_data :: "u8 list \<Rightarrow> nat \<Rightarrow> u8 list \<Rightarrow> u8 list option" where
  "put_data buf off bs =
     (if off + length bs \<le> length buf then Some (take off buf @ bs @ drop (off + length bs) buf) else None)"

text \<open>The 16-bit samples with their bytes exchanged; \<open>None\<close> when there are fewer than \<open>n\<close>.\<close>

fun tris_swapcopy_samples :: "u8 list \<Rightarrow> nat \<Rightarrow> u8 list option" where
  "tris_swapcopy_samples bs 0 = Some []"
| "tris_swapcopy_samples (a # b # bs) (Suc n) = map_option (\<lambda>r. b # a # r) (tris_swapcopy_samples bs n)"
| "tris_swapcopy_samples _ (Suc n) = None"

definition has_flag :: "tris_smoother \<Rightarrow> u32 \<Rightarrow> bool" where
  "has_flag s fl \<longleftrightarrow> s_flags s AND fl \<noteq> 0"

text \<open>\<open>None\<close> on an access outside the buffers.\<close>

definition smoother_frame_feed :: "tris_smoother \<Rightarrow> voice_frame \<Rightarrow> bool \<Rightarrow> (int \<times> tris_smoother) option" where
  "smoother_frame_feed s f swap =
     (if has_flag s TRIS_SMOOTHER_FLAG_G729 \<and> s_len s mod 10 \<noteq> 0 then Some (0, s)
      else
        case (if swap then tris_swapcopy_samples (payload f) (samples f) else Some (payload f)) of
          None \<Rightarrow> None
        | Some bs \<Rightarrow>
            (case put_data (s_data s) (s_len s) bs of
               None \<Rightarrow> None
             | Some d \<Rightarrow>
                 let s = s\<lparr>s_data := d\<rparr>;
                     s = (if s_len s = 0 \<or> tris_tvzero (delivery f) \<or> tris_tvzero (s_delivery s)
                          then s\<lparr>s_delivery := delivery f\<rparr> else s)
                 in Some (0, s\<lparr>s_len := s_len s + datalen f\<rparr>)))"

definition tris_smoother_reset :: "int \<Rightarrow> tris_smoother" where
  "tris_smoother_reset bytes =
     \<lparr>s_size = bytes, format = 0, s_flags = 0, samplesperbyte = (0, 1), opt_needs_swap = False,
      s_delivery = tris_tv 0 0, s_data = replicate SMOOTHER_SIZE 0, opt = None, s_len = 0\<rparr>"

definition tris_smoother_reconfigure :: "tris_smoother \<Rightarrow> int \<Rightarrow> tris_smoother option" where
  "tris_smoother_reconfigure s bytes =
     (if s_size s = bytes then Some s
      else
        let s = s\<lparr>s_size := bytes\<rparr> in
        case opt s of
          None \<Rightarrow> Some s
        | Some f \<Rightarrow> map_option (\<lambda>(r, s). s\<lparr>opt := None\<rparr>) (smoother_frame_feed s f (opt_needs_swap s)))"

definition tris_smoother_new :: "bool \<Rightarrow> int \<Rightarrow> tris_smoother option" where
  "tris_smoother_new ok sz = (if sz < 1 then None else if ok then Some (tris_smoother_reset sz) else None)"

definition tris_smoother_get_flags :: "tris_smoother \<Rightarrow> u32" where "tris_smoother_get_flags s = s_flags s"

definition tris_smoother_set_flags :: "tris_smoother \<Rightarrow> u32 \<Rightarrow> tris_smoother" where
  "tris_smoother_set_flags s flags = s\<lparr>s_flags := flags\<rparr>"

definition tris_smoother_test_flag :: "tris_smoother \<Rightarrow> u32 \<Rightarrow> u32" where
  "tris_smoother_test_flag s flag = s_flags s AND flag"

text \<open>A frame that is kept for the next read has its bytes exchanged in place.\<close>

definition tris_smoother_feed :: "tris_smoother \<Rightarrow> voice_frame \<Rightarrow> bool \<Rightarrow> (int \<times> tris_smoother) option" where
  "tris_smoother_feed s f swap =
     (if \<not> is_voice f then Some (- 1, s)
      else if format s \<noteq> 0 \<and> format s \<noteq> fr_subclass f then Some (- 1, s)
      else
        let s = (if format s = 0
                 then s\<lparr>format := fr_subclass f, samplesperbyte := (samples f, datalen f)\<rparr> else s)
        in if SMOOTHER_SIZE < s_len s + datalen f then Some (- 1, s)
           else if (int (datalen f) = s_size s \<or> datalen f < 10 \<and> has_flag s TRIS_SMOOTHER_FLAG_G729) \<and>
                   opt s = None \<and> s_len s = 0 \<and> TRIS_MIN_OFFSET \<le> offset f
           then (case (if swap
                       then map_option (\<lambda>bs. bs @ drop (2 * samples f) (payload f))
                              (tris_swapcopy_samples (payload f) (samples f))
                       else Some (payload f)) of
                   None \<Rightarrow> None
                 | Some bs \<Rightarrow> Some (0, s\<lparr>opt := Some (f\<lparr>payload := bs\<rparr>), opt_needs_swap := swap\<rparr>))
           else smoother_frame_feed s f swap)"

text \<open>The frame and the smoother; the frame is the smoother's own unless it was kept whole.\<close>

definition tris_smoother_read ::
  "(nat \<Rightarrow> nat \<Rightarrow> nat \<Rightarrow> nat) \<Rightarrow> (u32 \<Rightarrow> nat) \<Rightarrow> tris_smoother \<Rightarrow> voice_frame option \<times> tris_smoother" where
  "tris_smoother_read fl_mul rate s =
     (case opt s of
        Some f \<Rightarrow> (Some f, s\<lparr>opt := None\<rparr>)
      | None \<Rightarrow>
          if int (s_len s) < s_size s \<and> \<not> (has_flag s TRIS_SMOOTHER_FLAG_G729 \<and> s_len s mod 10 \<noteq> 0)
          then (None, s)
          else
            let n = (if int (s_len s) < s_size s then s_len s else nat (s_size s));
                f = \<lparr>is_voice = True, fr_subclass = format s,
                     samples = fl_mul n (fst (samplesperbyte s)) (snd (samplesperbyte s)),
                     offset = TRIS_FRIENDLY_OFFSET, delivery = s_delivery s, payload = take n (s_data s)\<rparr>;
                s = s\<lparr>s_len := s_len s - n\<rparr>
            in if s_len s \<noteq> 0
               then let s = s\<lparr>s_data := take (s_len s) (drop n (s_data s)) @ drop (s_len s) (s_data s)\<rparr>
                    in (Some f,
                        if tris_tvzero (s_delivery s) then s
                        else s\<lparr>s_delivery := tris_tvadd (s_delivery s)
                                 (tris_samp2tv (samples f) (rate (format s)))\<rparr>)
               else (Some f, s))"

section \<open>The smoother as a queue of bytes\<close>

definition smoother_ok :: "tris_smoother \<Rightarrow> bool" where
  "smoother_ok s \<longleftrightarrow> length (s_data s) = SMOOTHER_SIZE \<and> s_len s \<le> SMOOTHER_SIZE \<and> 0 < s_size s \<and>
     (\<forall>f. opt s = Some f \<longrightarrow> int (datalen f) = s_size s)"

definition contents :: "tris_smoother \<Rightarrow> u8 list" where
  "contents s = (case opt s of None \<Rightarrow> [] | Some f \<Rightarrow> payload f) @ take (s_len s) (s_data s)"

text \<open>The bytes of a frame as they are sent: 16-bit samples exchanged for \<open>tris_smoother_feed_be\<close>.\<close>

definition wire :: "voice_frame \<Rightarrow> bool \<Rightarrow> u8 list" where
  "wire f swap = (if swap then the (tris_swapcopy_samples (payload f) (samples f)) else payload f)"

definition frame_ok :: "voice_frame \<Rightarrow> bool \<Rightarrow> bool" where
  "frame_ok f swap \<longleftrightarrow> (swap \<longrightarrow> datalen f = 2 * samples f)"

lemma swapcopy_length: "tris_swapcopy_samples bs n = Some r \<Longrightarrow> length r = 2 * n"
  by (induction bs n arbitrary: r rule: tris_swapcopy_samples.induct) auto

lemma swapcopy_Some: "2 * n \<le> length bs \<Longrightarrow> tris_swapcopy_samples bs n \<noteq> None"
  by (induction bs n rule: tris_swapcopy_samples.induct) auto

lemma swapcopy_twice:
  "length bs = 2 * n \<Longrightarrow> Option.bind (tris_swapcopy_samples bs n) (\<lambda>r. tris_swapcopy_samples r n) = Some bs"
  by (induction bs n rule: tris_swapcopy_samples.induct) (auto simp: bind_map_option comp_def split: bind_splits)

lemma wire_bytes:
  assumes "frame_ok f swap"
  shows "(if swap then tris_swapcopy_samples (payload f) (samples f) else Some (payload f)) = Some (wire f swap)"
    and "length (wire f swap) = datalen f"
proof -
  have "tris_swapcopy_samples (payload f) (samples f) \<noteq> None" if "swap"
    using assms that by (intro swapcopy_Some) (simp add: frame_ok_def)
  then show w: "(if swap then tris_swapcopy_samples (payload f) (samples f) else Some (payload f)) = Some (wire f swap)"
    by (auto simp: wire_def)
  show "length (wire f swap) = datalen f"
    using w assms swapcopy_length by (cases swap) (auto simp: wire_def frame_ok_def)
qed

lemma feed_contents:
  assumes "smoother_ok s" "frame_ok f swap" "s_len s + datalen f \<le> SMOOTHER_SIZE"
    and "\<not> has_flag s TRIS_SMOOTHER_FLAG_G729"
  shows "\<exists>s'. smoother_frame_feed s f swap = Some (0, s') \<and> smoother_ok s' \<and> opt s' = opt s \<and>
     s_flags s' = s_flags s \<and> s_size s' = s_size s \<and> contents s' = contents s @ wire f swap"
proof -
  note w = wire_bytes [OF assms(2)]
  have p: "put_data (s_data s) (s_len s) (wire f swap) =
      Some (take (s_len s) (s_data s) @ wire f swap @ drop (s_len s + datalen f) (s_data s))"
    using assms(1,3) w(2) by (simp add: put_data_def smoother_ok_def)
  show ?thesis
    using assms w(2) by (simp add: smoother_frame_feed_def w(1) p Let_def smoother_ok_def contents_def)
qed

definition start_format :: "tris_smoother \<Rightarrow> voice_frame \<Rightarrow> tris_smoother" where
  "start_format s f =
     (if format s = 0 then s\<lparr>format := fr_subclass f, samplesperbyte := (samples f, datalen f)\<rparr> else s)"

lemma start_format_fields [simp]:
  "contents (start_format s f) = contents s" "s_size (start_format s f) = s_size s"
  "s_flags (start_format s f) = s_flags s" "opt (start_format s f) = opt s" "s_len (start_format s f) = s_len s"
  "smoother_ok (start_format s f) = smoother_ok s" "has_flag (start_format s f) fl = has_flag s fl"
  by (simp_all add: start_format_def smoother_ok_def contents_def has_flag_def)

lemma feed_eq:
  assumes "is_voice f" "\<not> (format s \<noteq> 0 \<and> format s \<noteq> fr_subclass f)"
  shows "tris_smoother_feed s f swap =
     (if SMOOTHER_SIZE < s_len s + datalen f then Some (- 1, start_format s f)
      else if (int (datalen f) = s_size s \<or> datalen f < 10 \<and> has_flag s TRIS_SMOOTHER_FLAG_G729) \<and>
              opt s = None \<and> s_len s = 0 \<and> TRIS_MIN_OFFSET \<le> offset f
      then (case (if swap
                  then map_option (\<lambda>bs. bs @ drop (2 * samples f) (payload f))
                         (tris_swapcopy_samples (payload f) (samples f))
                  else Some (payload f)) of
              None \<Rightarrow> None
            | Some bs \<Rightarrow> Some (0, (start_format s f)\<lparr>opt := Some (f\<lparr>payload := bs\<rparr>), opt_needs_swap := swap\<rparr>))
      else smoother_frame_feed (start_format s f) f swap)"
proof -
  have "tris_smoother_feed s f swap = (let s0 = start_format s f in
     (if SMOOTHER_SIZE < s_len s0 + datalen f then Some (- 1, s0)
      else if (int (datalen f) = s_size s0 \<or> datalen f < 10 \<and> has_flag s0 TRIS_SMOOTHER_FLAG_G729) \<and>
              opt s0 = None \<and> s_len s0 = 0 \<and> TRIS_MIN_OFFSET \<le> offset f
      then (case (if swap
                  then map_option (\<lambda>bs. bs @ drop (2 * samples f) (payload f))
                         (tris_swapcopy_samples (payload f) (samples f))
                  else Some (payload f)) of
              None \<Rightarrow> None
            | Some bs \<Rightarrow> Some (0, s0\<lparr>opt := Some (f\<lparr>payload := bs\<rparr>), opt_needs_swap := swap\<rparr>))
      else smoother_frame_feed s0 f swap))"
    using assms unfolding tris_smoother_feed_def start_format_def by (simp only: if_False simp_thms)
  then show ?thesis by (simp only: Let_def start_format_fields)
qed

lemma feed_result:
  assumes "smoother_ok s" "frame_ok f swap" "\<not> has_flag s TRIS_SMOOTHER_FLAG_G729"
  shows "\<exists>r s'. tris_smoother_feed s f swap = Some (r, s') \<and> smoother_ok s' \<and> s_size s' = s_size s \<and>
     s_flags s' = s_flags s \<and>
     (r = 0 \<and> contents s' = contents s @ wire f swap \<or> r = - 1 \<and> contents s' = contents s)"
proof -
  consider (refused) "\<not> is_voice f \<or> format s \<noteq> 0 \<and> format s \<noteq> fr_subclass f"
    | (full) "is_voice f" "\<not> (format s \<noteq> 0 \<and> format s \<noteq> fr_subclass f)" "SMOOTHER_SIZE < s_len s + datalen f"
    | (whole) "is_voice f" "\<not> (format s \<noteq> 0 \<and> format s \<noteq> fr_subclass f)" "\<not> SMOOTHER_SIZE < s_len s + datalen f"
        "int (datalen f) = s_size s" "opt s = None" "s_len s = 0" "TRIS_MIN_OFFSET \<le> offset f"
    | (stored) "is_voice f" "\<not> (format s \<noteq> 0 \<and> format s \<noteq> fr_subclass f)" "\<not> SMOOTHER_SIZE < s_len s + datalen f"
        "\<not> (int (datalen f) = s_size s \<and> opt s = None \<and> s_len s = 0 \<and> TRIS_MIN_OFFSET \<le> offset f)"
    by argo
  then show ?thesis
  proof cases
    case refused
    then show ?thesis using assms(1) by (auto simp: tris_smoother_feed_def)
  next
    case full
    then have "tris_smoother_feed s f swap = Some (- 1, start_format s f)"
      by (simp add: feed_eq)
    then show ?thesis using assms(1) by auto
  next
    case whole
    have d: "drop (2 * samples f) (payload f) = []" if swap using assms(2) that by (simp add: frame_ok_def)
    have "tris_smoother_feed s f swap =
        Some (0, (start_format s f)\<lparr>opt := Some (f\<lparr>payload := wire f swap\<rparr>), opt_needs_swap := swap\<rparr>)"
      using whole(3-7) d wire_bytes(1) [OF assms(2)] feed_eq [OF whole(1,2), of swap]
      by (cases swap) simp_all
    moreover have "contents ((start_format s f)\<lparr>opt := Some (f\<lparr>payload := wire f swap\<rparr>), opt_needs_swap := swap\<rparr>)
        = contents s @ wire f swap"
      using whole(5,6) by (simp add: contents_def)
    moreover have "smoother_ok ((start_format s f)\<lparr>opt := Some (f\<lparr>payload := wire f swap\<rparr>), opt_needs_swap := swap\<rparr>)"
      using start_format_fields(6) [of s f] assms(1) whole(4) wire_bytes(2) [OF assms(2)] unfolding smoother_ok_def by simp
    ultimately show ?thesis by simp
  next
    case stored
    have c: "\<not> ((int (datalen f) = s_size s \<or> datalen f < 10 \<and> has_flag s TRIS_SMOOTHER_FLAG_G729) \<and>
        opt s = None \<and> s_len s = 0 \<and> TRIS_MIN_OFFSET \<le> offset f)"
      using stored(4) assms(3) by argo
    have "tris_smoother_feed s f swap = smoother_frame_feed (start_format s f) f swap"
      by (simp only: feed_eq [OF stored(1,2)] stored(3) c if_False)
    moreover have "smoother_ok (start_format s f)" "s_len (start_format s f) + datalen f \<le> SMOOTHER_SIZE"
      "\<not> has_flag (start_format s f) TRIS_SMOOTHER_FLAG_G729"
      using assms stored(3) by simp_all
    ultimately show ?thesis using feed_contents [OF _ assms(2), of "start_format s f"] by fastforce
  qed
qed

lemma read_result:
  assumes "smoother_ok s" "\<not> has_flag s TRIS_SMOOTHER_FLAG_G729"
  shows "case tris_smoother_read fl_mul rate s of (r, s') \<Rightarrow>
     smoother_ok s' \<and> s_size s' = s_size s \<and> s_flags s' = s_flags s \<and>
     (case r of
        None \<Rightarrow> s' = s \<and> opt s = None \<and> int (length (contents s)) < s_size s
      | Some f \<Rightarrow> contents s = payload f @ contents s' \<and> int (datalen f) = s_size s)"
proof (cases "opt s")
  case (Some f)
  then show ?thesis using assms by (simp add: tris_smoother_read_def smoother_ok_def contents_def)
next
  case None
  show ?thesis
  proof (cases "int (s_len s) < s_size s")
    case True
    then show ?thesis using None assms by (auto simp: tris_smoother_read_def contents_def smoother_ok_def)
  next
    case False
    let ?n = "nat (s_size s)"
    have n: "?n \<le> s_len s" "s_len s \<le> length (s_data s)" "length (s_data s) = SMOOTHER_SIZE" "0 < s_size s"
      using False assms(1) by (auto simp: smoother_ok_def)
    have c: "take (s_len s) (s_data s) = take ?n (s_data s) @ take (s_len s - ?n) (drop ?n (s_data s))"
      using n(1) append_take_drop_id [of ?n "take (s_len s) (s_data s)"] by (simp add: min_absorb1 drop_take)
    have "\<exists>f s2. tris_smoother_read fl_mul rate s = (Some f, s2) \<and> payload f = take ?n (s_data s) \<and>
        s_len s2 = s_len s - ?n \<and> length (s_data s2) = SMOOTHER_SIZE \<and> opt s2 = None \<and>
        s_size s2 = s_size s \<and> s_flags s2 = s_flags s \<and>
        take (s_len s - ?n) (s_data s2) = take (s_len s - ?n) (drop ?n (s_data s))"
      using None False n
      by (cases "s_len s - ?n = 0"; cases "tris_tvzero (s_delivery s)")
        (simp_all add: tris_smoother_read_def Let_def)
    then obtain f s2 where "tris_smoother_read fl_mul rate s = (Some f, s2)" "payload f = take ?n (s_data s)"
        "s_len s2 = s_len s - ?n" "length (s_data s2) = SMOOTHER_SIZE" "opt s2 = None" "s_size s2 = s_size s"
        "s_flags s2 = s_flags s" "take (s_len s - ?n) (s_data s2) = take (s_len s - ?n) (drop ?n (s_data s))"
      by blast
    then show ?thesis using None n c by (simp add: contents_def smoother_ok_def)
  qed
qed

text \<open>A sequence of operations: the bytes that were taken in, and the payloads of the frames that were
  read.\<close>

datatype smoother_op = Feed voice_frame bool | Read

fun smoother_run ::
  "(nat \<Rightarrow> nat \<Rightarrow> nat \<Rightarrow> nat) \<Rightarrow> (u32 \<Rightarrow> nat) \<Rightarrow> smoother_op list \<Rightarrow> tris_smoother \<Rightarrow>
   (u8 list \<times> u8 list list \<times> tris_smoother) option" where
  "smoother_run fl_mul rate [] s = Some ([], [], s)"
| "smoother_run fl_mul rate (Feed f swap # ops) s =
     (case tris_smoother_feed s f swap of
        None \<Rightarrow> None
      | Some (r, s) \<Rightarrow> map_option (\<lambda>(i, out, s). ((if r = 0 then wire f swap else []) @ i, out, s))
                        (smoother_run fl_mul rate ops s))"
| "smoother_run fl_mul rate (Read # ops) s =
     (let (r, s) = tris_smoother_read fl_mul rate s
      in map_option (\<lambda>(i, out, s). (i, (case r of None \<Rightarrow> out | Some f \<Rightarrow> payload f # out), s))
           (smoother_run fl_mul rate ops s))"

lemma smoother_run_stream:
  assumes "smoother_ok s" "\<not> has_flag s TRIS_SMOOTHER_FLAG_G729" "\<forall>f swap. Feed f swap \<in> set ops \<longrightarrow> frame_ok f swap"
  shows "\<exists>i out s'. smoother_run fl_mul rate ops s = Some (i, out, s') \<and> smoother_ok s' \<and>
     contents s @ i = concat out @ contents s' \<and> (\<forall>b \<in> set out. int (length b) = s_size s)"
  using assms
proof (induction ops arbitrary: s)
  case (Cons op ops)
  show ?case
  proof (cases op)
    case (Feed f swap)
    then have "frame_ok f swap" using Cons.prems(3) by auto
    from feed_result [OF Cons.prems(1) this Cons.prems(2)] obtain r s1 where
      s1: "tris_smoother_feed s f swap = Some (r, s1)" "smoother_ok s1" "s_flags s1 = s_flags s" "s_size s1 = s_size s"
        "r = 0 \<and> contents s1 = contents s @ wire f swap \<or> r = - 1 \<and> contents s1 = contents s" by blast
    then have "\<not> has_flag s1 TRIS_SMOOTHER_FLAG_G729" using Cons.prems(2) by (simp add: has_flag_def)
    from Cons.IH [OF s1(2) this] Cons.prems(3) obtain i out s' where
      "smoother_run fl_mul rate ops s1 = Some (i, out, s')" "smoother_ok s'" "contents s1 @ i = concat out @ contents s'"
      "\<forall>b \<in> set out. int (length b) = s_size s1"
      by auto
    then show ?thesis using s1(1,4,5) Feed by auto
  next
    case Read
    obtain r s1 where s1: "tris_smoother_read fl_mul rate s = (r, s1)" by (cases "tris_smoother_read fl_mul rate s")
    note rr = read_result [OF Cons.prems(1,2), of fl_mul rate, unfolded s1 prod.case]
    then have "\<not> has_flag s1 TRIS_SMOOTHER_FLAG_G729" using Cons.prems(2) by (simp add: has_flag_def)
    with Cons.IH [of s1] rr Cons.prems(3) obtain i out s' where
      "smoother_run fl_mul rate ops s1 = Some (i, out, s')" "smoother_ok s'" "contents s1 @ i = concat out @ contents s'"
      "\<forall>b \<in> set out. int (length b) = s_size s1"
      by auto
    then show ?thesis using s1 rr Read by (cases r) auto
  qed
qed simp

text \<open>Claim C37. A smoother (without the G.729 flag) is a queue of bytes: whatever frames are fed and
  whenever frames are read, it hands out the accepted bytes in their order, none lost and none twice, in
  frames of exactly the configured size; what is missing is still inside, and no access leaves the
  buffers. The frames fed have any lengths when their bytes are taken as they are; when the bytes of
  16-bit samples are to be exchanged, each frame fed has two bytes for each of its samples
  (\<open>frame_ok\<close>). Other frames break it, as \<open>odd_frame_stale_byte\<close> and \<open>swap_overrun\<close> show. A frame
  that is kept whole is alive and unchanged until it is read.\<close>

theorem smoother_stream:
  assumes "1 \<le> sz" "\<forall>f swap. Feed f swap \<in> set ops \<longrightarrow> frame_ok f swap"
  shows "\<exists>s i out s'. tris_smoother_new True sz = Some s \<and> smoother_run fl_mul rate ops s = Some (i, out, s') \<and>
     i = concat out @ contents s' \<and> (\<forall>b \<in> set out. int (length b) = sz)"
proof -
  let ?s = "tris_smoother_reset sz"
  have s: "smoother_ok ?s" "\<not> has_flag ?s TRIS_SMOOTHER_FLAG_G729" "contents ?s = []" "s_size ?s = sz"
    using assms(1) by (simp_all add: smoother_ok_def tris_smoother_reset_def has_flag_def contents_def)
  from smoother_run_stream [OF s(1,2) assms(2), of fl_mul rate] s(3,4) show ?thesis
    using assms(1) by (auto simp: tris_smoother_new_def)
qed

definition demo_frame :: "u8 list \<Rightarrow> voice_frame" where
  "demo_frame bs =
     \<lparr>is_voice = True, fr_subclass = 64, samples = length bs div 2, offset = 64, delivery = tris_tv 0 0, payload = bs\<rparr>"

theorem smoother_stream_witness:
  "\<exists>s i out s'. tris_smoother_new True 4 = Some s \<and>
     smoother_run (\<lambda>n a b. n * a div b) (\<lambda>_. 8000)
       [Feed (demo_frame [1, 2, 3, 4, 5, 6]) True, Read, Feed (demo_frame [7, 8]) True, Read] s = Some (i, out, s') \<and>
     i = concat out @ contents s' \<and> (\<forall>b \<in> set out. int (length b) = 4)"
  by (rule smoother_stream) (auto simp: frame_ok_def demo_frame_def)

section \<open>Frames whose samples do not fill them\<close>

text \<open>The copy with exchanged bytes takes its length from the number of samples, the fill level from the number of
  bytes. With a byte more than its samples have, a stale byte of the buffer is handed out in place of
  the frame's last one; with more samples than bytes the copy leaves the frame.\<close>

lemma odd_frame_stale_byte:
  "Option.bind (tris_smoother_feed (tris_smoother_reset 3) ((demo_frame [1, 2, 3])\<lparr>offset := 0\<rparr>) True)
     (\<lambda>(r, s). map_option payload (fst (tris_smoother_read fl_mul rate s))) = Some [2, 1, 0]"
proof -
  have d: "replicate SMOOTHER_SIZE (0 :: u8) = 0 # 0 # 0 # replicate 7997 0"
    by (simp add: SMOOTHER_SIZE_def numeral_eq_Suc)
  show ?thesis
    by (simp add: tris_smoother_feed_def smoother_frame_feed_def tris_smoother_reset_def demo_frame_def has_flag_def
        TRIS_MIN_OFFSET_def put_data_def d tris_smoother_read_def Let_def tris_tv_def)
       (simp add: SMOOTHER_SIZE_def numeral_2_eq_2)
qed

lemma swap_overrun:
  assumes "datalen f < 2 * samples f" "\<not> has_flag s TRIS_SMOOTHER_FLAG_G729"
    and "is_voice f" "format s = 0 \<or> format s = fr_subclass f" "s_len s + datalen f \<le> SMOOTHER_SIZE"
  shows "tris_smoother_feed s f True = None"
proof -
  have "length bs < 2 * n \<Longrightarrow> tris_swapcopy_samples bs n = None" for bs n
    by (induction bs n rule: tris_swapcopy_samples.induct) auto
  then have w: "tris_swapcopy_samples (payload f) (samples f) = None" using assms(1) by blast
  have g: "\<not> has_flag (start_format s f) TRIS_SMOOTHER_FLAG_G729" using assms(2) by simp
  then have "smoother_frame_feed (start_format s f) f True = None" by (simp add: smoother_frame_feed_def w)
  then show ?thesis using assms(4,5) w by (subst feed_eq [OF assms(3)]) auto
qed

section \<open>Reconfiguration\<close>

text \<open>A frame that was kept whole is older than the bytes in the buffer, but is put behind them, with its
  samples exchanged once more.\<close>

lemma reconfigure_contents:
  assumes "smoother_ok s" "\<not> has_flag s TRIS_SMOOTHER_FLAG_G729" "opt s = Some f" "s_size s \<noteq> b"
    and "frame_ok f (opt_needs_swap s)" "s_len s + datalen f \<le> SMOOTHER_SIZE"
  shows "\<exists>s'. tris_smoother_reconfigure s b = Some s' \<and>
     contents s = payload f @ take (s_len s) (s_data s) \<and>
     contents s' = take (s_len s) (s_data s) @ wire f (opt_needs_swap s)"
proof -
  note w = wire_bytes [OF assms(5)]
  have p: "put_data (s_data s) (s_len s) (wire f (opt_needs_swap s)) =
      Some (take (s_len s) (s_data s) @ wire f (opt_needs_swap s) @ drop (s_len s + datalen f) (s_data s))"
    using assms(1,6) w(2) by (simp add: put_data_def smoother_ok_def)
  have g: "\<not> has_flag (s\<lparr>s_size := b\<rparr>) TRIS_SMOOTHER_FLAG_G729" using assms(2) by (simp add: has_flag_def)
  show ?thesis
    using assms g w(2)
    by (simp add: tris_smoother_reconfigure_def smoother_frame_feed_def w(1) p Let_def contents_def smoother_ok_def)
qed

text \<open>When the buffer has been filled behind it, the frame is written beyond the end of the buffer.\<close>

lemma reconfigure_overflow:
  assumes "smoother_ok s" "\<not> has_flag s TRIS_SMOOTHER_FLAG_G729" "opt s = Some f" "s_size s \<noteq> b"
    and "frame_ok f (opt_needs_swap s)" "SMOOTHER_SIZE < s_len s + datalen f"
  shows "tris_smoother_reconfigure s b = None"
proof -
  note w = wire_bytes [OF assms(5)]
  have p: "put_data (s_data s) (s_len s) (wire f (opt_needs_swap s)) = None"
    using assms(1,6) w(2) by (simp add: put_data_def smoother_ok_def)
  have g: "\<not> has_flag (s\<lparr>s_size := b\<rparr>) TRIS_SMOOTHER_FLAG_G729" using assms(2) by (simp add: has_flag_def)
  show ?thesis
    using assms g by (simp add: tris_smoother_reconfigure_def smoother_frame_feed_def w(1) p Let_def)
qed

end
