(* ===== verification/CodecPref.thy ===== *)
theory CodecPref
  imports Prelude CString "HOL-Library.Monad_Syntax"
begin

text \<open>
  Formats and codec preferences of \<open>main/frame.c\<close>: the table of formats, their names, the ordered lists
  of preferred codecs with their packet sizes, and the lines that allow and disallow codecs.
\<close>

section \<open>The table of formats\<close>

definition TRIS_FORMAT_G723_1 :: u32 where "TRIS_FORMAT_G723_1 = 0x1"
definition TRIS_FORMAT_GSM :: u32 where "TRIS_FORMAT_GSM = 0x2"
definition TRIS_FORMAT_ULAW :: u32 where "TRIS_FORMAT_ULAW = 0x4"
definition TRIS_FORMAT_ALAW :: u32 where "TRIS_FORMAT_ALAW = 0x8"
definition TRIS_FORMAT_G726_AAL2 :: u32 where "TRIS_FORMAT_G726_AAL2 = 0x10"
definition TRIS_FORMAT_ADPCM :: u32 where "TRIS_FORMAT_ADPCM = 0x20"
definition TRIS_FORMAT_SLINEAR :: u32 where "TRIS_FORMAT_SLINEAR = 0x40"
definition TRIS_FORMAT_LPC10 :: u32 where "TRIS_FORMAT_LPC10 = 0x80"
definition TRIS_FORMAT_G729A :: u32 where "TRIS_FORMAT_G729A = 0x100"
definition TRIS_FORMAT_SPEEX :: u32 where "TRIS_FORMAT_SPEEX = 0x200"
definition TRIS_FORMAT_ILBC :: u32 where "TRIS_FORMAT_ILBC = 0x400"
definition TRIS_FORMAT_G726 :: u32 where "TRIS_FORMAT_G726 = 0x800"
definition TRIS_FORMAT_G722 :: u32 where "TRIS_FORMAT_G722 = 0x1000"
definition TRIS_FORMAT_SPEEX16 :: u32 where "TRIS_FORMAT_SPEEX16 = 0x2000"
definition TRIS_FORMAT_SIREN14 :: u32 where "TRIS_FORMAT_SIREN14 = 0x4000"
definition TRIS_FORMAT_SLINEAR16 :: u32 where "TRIS_FORMAT_SLINEAR16 = 0x8000"
definition TRIS_FORMAT_JPEG :: u32 where "TRIS_FORMAT_JPEG = 0x10000"
definition TRIS_FORMAT_PNG :: u32 where "TRIS_FORMAT_PNG = 0x20000"
definition TRIS_FORMAT_H261 :: u32 where "TRIS_FORMAT_H261 = 0x40000"
definition TRIS_FORMAT_H263 :: u32 where "TRIS_FORMAT_H263 = 0x80000"
definition TRIS_FORMAT_H263_PLUS :: u32 where "TRIS_FORMAT_H263_PLUS = 0x100000"
definition TRIS_FORMAT_H264 :: u32 where "TRIS_FORMAT_H264 = 0x200000"
definition TRIS_FORMAT_MP4_VIDEO :: u32 where "TRIS_FORMAT_MP4_VIDEO = 0x400000"
definition TRIS_FORMAT_T140RED :: u32 where "TRIS_FORMAT_T140RED = 0x2000000"
definition TRIS_FORMAT_T140 :: u32 where "TRIS_FORMAT_T140 = 0x4000000"
definition TRIS_FORMAT_SIREN7 :: u32 where "TRIS_FORMAT_SIREN7 = 0x80000000"

definition AUDIO_MASK :: u32 where "AUDIO_MASK = 0xFFFF"

record tris_format_list =
  bits :: u32
  fmt_name :: string
  samplespersecond :: int
  fmt_fr_len :: int
  min_ms :: int
  max_ms :: int
  inc_ms :: int
  def_ms :: int
  fmt_flags :: u32
  cur_ms :: int

definition mk_format :: "u32 \<Rightarrow> string \<Rightarrow> int \<Rightarrow> int \<Rightarrow> int \<Rightarrow> int \<Rightarrow> int \<Rightarrow> int \<Rightarrow> u32 \<Rightarrow> tris_format_list" where
  "mk_format b nm r l mn mx inc df fl =
     \<lparr>bits = b, fmt_name = nm, samplespersecond = r, fmt_fr_len = l, min_ms = mn, max_ms = mx, inc_ms = inc,
      def_ms = df, fmt_flags = fl, cur_ms = 0\<rparr>"

definition TRIS_FORMAT_LIST :: "tris_format_list list" where
  "TRIS_FORMAT_LIST =
    [mk_format TRIS_FORMAT_G723_1 ''g723'' 8000 20 30 300 30 30 0,
     mk_format TRIS_FORMAT_GSM ''gsm'' 8000 33 20 300 20 20 0,
     mk_format TRIS_FORMAT_ULAW ''ulaw'' 8000 80 10 150 10 20 0,
     mk_format TRIS_FORMAT_ALAW ''alaw'' 8000 80 10 150 10 20 0,
     mk_format TRIS_FORMAT_G726 ''g726'' 8000 40 10 300 10 20 0,
     mk_format TRIS_FORMAT_ADPCM ''adpcm'' 8000 40 10 300 10 20 0,
     mk_format TRIS_FORMAT_SLINEAR ''slin'' 8000 160 10 70 10 20 2,
     mk_format TRIS_FORMAT_LPC10 ''lpc10'' 8000 7 20 20 20 20 0,
     mk_format TRIS_FORMAT_G729A ''g729'' 8000 10 10 230 10 20 1,
     mk_format TRIS_FORMAT_SPEEX ''speex'' 8000 10 10 60 10 20 0,
     mk_format TRIS_FORMAT_SPEEX16 ''speex16'' 16000 10 10 60 10 20 0,
     mk_format TRIS_FORMAT_ILBC ''ilbc'' 8000 50 30 30 30 30 0,
     mk_format TRIS_FORMAT_G726_AAL2 ''g726aal2'' 8000 40 10 300 10 20 0,
     mk_format TRIS_FORMAT_G722 ''g722'' 16000 80 10 150 10 20 0,
     mk_format TRIS_FORMAT_SLINEAR16 ''slin16'' 16000 320 10 70 10 20 2,
     mk_format TRIS_FORMAT_JPEG ''jpeg'' 0 0 0 0 0 0 0,
     mk_format TRIS_FORMAT_PNG ''png'' 0 0 0 0 0 0 0,
     mk_format TRIS_FORMAT_H261 ''h261'' 0 0 0 0 0 0 0,
     mk_format TRIS_FORMAT_H263 ''h263'' 0 0 0 0 0 0 0,
     mk_format TRIS_FORMAT_H263_PLUS ''h263p'' 0 0 0 0 0 0 0,
     mk_format TRIS_FORMAT_H264 ''h264'' 0 0 0 0 0 0 0,
     mk_format TRIS_FORMAT_MP4_VIDEO ''mpeg4'' 0 0 0 0 0 0 0,
     mk_format TRIS_FORMAT_T140RED ''red'' 1 0 0 0 0 0 0,
     mk_format TRIS_FORMAT_T140 ''t140'' 0 0 0 0 0 0 0,
     mk_format TRIS_FORMAT_SIREN7 ''siren7'' 16000 80 20 80 20 20 0,
     mk_format TRIS_FORMAT_SIREN14 ''siren14'' 32000 120 20 80 20 20 0]"

abbreviation n_formats :: nat where "n_formats \<equiv> 26"

definition tris_get_format_list_index :: "nat \<Rightarrow> tris_format_list" where
  "tris_get_format_list_index idx = TRIS_FORMAT_LIST ! idx"

definition tris_getformatname :: "u32 \<Rightarrow> string" where
  "tris_getformatname format =
     (case List.find (\<lambda>f. bits f = format) TRIS_FORMAT_LIST of Some f \<Rightarrow> fmt_name f | None \<Rightarrow> ''unknown'')"

definition tris_codec_alias_table :: "(string \<times> string) list" where
  "tris_codec_alias_table =
     [(''slinear'', ''slin''), (''slinear16'', ''slin16''), (''g723.1'', ''g723''), (''g722.1'', ''siren7''),
      (''g722.1c'', ''siren14'')]"

definition tris_expand_codec_alias :: "string \<Rightarrow> string" where
  "tris_expand_codec_alias s = (case map_of tris_codec_alias_table s of Some r \<Rightarrow> r | None \<Rightarrow> s)"

definition name_matches :: "string \<Rightarrow> tris_format_list \<Rightarrow> bool" where
  "name_matches name f \<longleftrightarrow> strcaseeq (fmt_name f) name \<or> strcaseeq (fmt_name f) (tris_expand_codec_alias name)"

definition tris_getformatbyname :: "string \<Rightarrow> u32" where
  "tris_getformatbyname name =
     (if strcaseeq name ''all'' then fold (\<lambda>f r. r OR bits f) TRIS_FORMAT_LIST 0
      else case List.find (name_matches name) TRIS_FORMAT_LIST of Some f \<Rightarrow> bits f | None \<Rightarrow> 0)"

section \<open>Preference lists\<close>

text \<open>The arrays hold signed characters. A slot is an index into the table plus 1, or 0.\<close>

record tris_codec_pref =
  order :: "int list"
  framing :: "int list"

definition schar :: "int \<Rightarrow> int" where "schar v = (v + 128) mod 256 - 128"

definition pref_zero :: tris_codec_pref where
  "pref_zero = \<lparr>order = replicate 32 0, framing = replicate 32 0\<rparr>"

text \<open>\<open>TRIS_FORMAT_LIST[slot - 1]\<close>; \<open>None\<close> outside the table.\<close>

definition slot_format :: "int \<Rightarrow> tris_format_list option" where
  "slot_format slot =
     (if 1 \<le> slot \<and> slot \<le> int n_formats then Some (TRIS_FORMAT_LIST ! nat (slot - 1)) else None)"

definition format_index :: "u32 \<Rightarrow> nat option" where
  "format_index format = List.find (\<lambda>x. bits (TRIS_FORMAT_LIST ! x) = format) [0..<n_formats]"

text \<open>The conversion of an order to characters and back, over the first 32 bytes of \<open>buf\<close>.\<close>

definition tris_codec_pref_to :: "tris_codec_pref \<Rightarrow> nat \<Rightarrow> int list" where
  "tris_codec_pref_to pref sz =
     (let cs = map (\<lambda>c. schar (c + 65)) (takeWhile (\<lambda>c. c \<noteq> 0) (take 32 (order pref)))
      in cs @ replicate (sz - length cs) 0)"

definition tris_codec_pref_from :: "tris_codec_pref \<Rightarrow> int list \<Rightarrow> tris_codec_pref" where
  "tris_codec_pref_from pref buf =
     (let cs = map (\<lambda>c. schar (c - 65)) (takeWhile (\<lambda>c. c \<noteq> 0) (take 32 buf))
      in pref\<lparr>order := cs @ replicate (32 - length cs) 0\<rparr>)"

definition tris_codec_pref_index :: "tris_codec_pref \<Rightarrow> int \<Rightarrow> u32 option" where
  "tris_codec_pref_index pref idx =
     (let slot = (if 0 \<le> idx \<and> idx < 32 then order pref ! nat idx else 0)
      in if slot \<noteq> 0 then map_option bits (slot_format slot) else Some 0)"

text \<open>The entries that \<open>tris_codec_pref_remove\<close> keeps.\<close>

fun remove_loop :: "u32 \<Rightarrow> (int \<times> int) list \<Rightarrow> (int \<times> int) list option" where
  "remove_loop format [] = Some []"
| "remove_loop format ((slot, sz) # es) =
     (if slot = 0 then Some []
      else do {
        f \<leftarrow> slot_format slot;
        r \<leftarrow> remove_loop format es;
        Some (if bits f \<noteq> format then (slot, sz) # r else r)
      })"

definition of_entries :: "(int \<times> int) list \<Rightarrow> tris_codec_pref" where
  "of_entries es =
     \<lparr>order = map fst es @ replicate (32 - length es) 0, framing = map snd es @ replicate (32 - length es) 0\<rparr>"

definition tris_codec_pref_remove :: "tris_codec_pref \<Rightarrow> u32 \<Rightarrow> tris_codec_pref option" where
  "tris_codec_pref_remove pref format =
     (if order pref ! 0 = 0 then Some pref
      else map_option of_entries (remove_loop format (take n_formats (zip (order pref) (framing pref)))))"

definition tris_codec_pref_append :: "tris_codec_pref \<Rightarrow> u32 \<Rightarrow> (nat \<times> tris_codec_pref) option" where
  "tris_codec_pref_append pref format = do {
     pref \<leftarrow> tris_codec_pref_remove pref format;
     Some (case format_index format of
             None \<Rightarrow> (n_formats, pref)
           | Some i \<Rightarrow>
               (case List.find (\<lambda>x. order pref ! x = 0) [0..<n_formats] of
                  Some x \<Rightarrow> (x, pref\<lparr>order := (order pref)[x := int i + 1]\<rparr>)
                | None \<Rightarrow> (n_formats, pref)))
   }"

text \<open>The shift of the entries before \<open>x\<close>; \<open>None\<close> when \<open>x\<close> is behind the array.\<close>

definition tris_codec_pref_prepend :: "tris_codec_pref \<Rightarrow> u32 \<Rightarrow> bool \<Rightarrow> tris_codec_pref option" where
  "tris_codec_pref_prepend pref format only_if_existing =
     (case format_index format of
        None \<Rightarrow> Some pref
      | Some i \<Rightarrow>
          (case List.find (\<lambda>x. order pref ! x = 0 \<or> order pref ! x = int i + 1) [0..<32] of
             None \<Rightarrow> None
           | Some x \<Rightarrow>
               if only_if_existing \<and> order pref ! x = 0 then Some pref
               else Some
                 (pref\<lparr>order := (int i + 1) # take x (order pref) @ drop (Suc x) (order pref),
                       framing := 0 # take x (framing pref) @ drop (Suc x) (framing pref)\<rparr>)))"

text \<open>The validation of a packet size.\<close>

definition valid_ms :: "tris_format_list \<Rightarrow> int \<Rightarrow> int" where
  "valid_ms f framems =
     (let framems = (if framems = 0 then def_ms f else framems);
          framems = (if inc_ms f \<noteq> 0 \<and> cmod framems (inc_ms f) \<noteq> 0 then framems - cmod framems (inc_ms f) else framems);
          framems = (if framems < min_ms f then min_ms f else framems)
      in if max_ms f < framems then max_ms f else framems)"

definition tris_codec_pref_setsize :: "tris_codec_pref \<Rightarrow> u32 \<Rightarrow> int \<Rightarrow> int \<times> tris_codec_pref" where
  "tris_codec_pref_setsize pref format framems =
     (case format_index format of
        None \<Rightarrow> (- 1, pref)
      | Some idx \<Rightarrow>
          (case List.find (\<lambda>x. order pref ! x = int idx + 1) [0..<n_formats] of
             None \<Rightarrow> (int n_formats, pref)
           | Some x \<Rightarrow> (int x, pref\<lparr>framing := (framing pref)[x := schar (valid_ms (TRIS_FORMAT_LIST ! idx) framems)]\<rparr>)))"

text \<open>An unknown format makes the code read before the table.\<close>

definition tris_codec_pref_getsize :: "tris_codec_pref \<Rightarrow> u32 \<Rightarrow> tris_format_list option" where
  "tris_codec_pref_getsize pref format =
     (case format_index format of
        None \<Rightarrow> None
      | Some idx \<Rightarrow>
          let framems = (case List.find (\<lambda>x. order pref ! x = int idx + 1) [0..<n_formats] of
                           None \<Rightarrow> 0 | Some x \<Rightarrow> framing pref ! x)
          in Some ((TRIS_FORMAT_LIST ! idx)\<lparr>cur_ms := valid_ms (TRIS_FORMAT_LIST ! idx) framems\<rparr>))"

definition best_prefs :: "u32 list" where
  "best_prefs =
     [TRIS_FORMAT_ULAW, TRIS_FORMAT_ALAW, TRIS_FORMAT_SIREN14, TRIS_FORMAT_SIREN7, TRIS_FORMAT_G722,
      TRIS_FORMAT_SLINEAR16, TRIS_FORMAT_SLINEAR, TRIS_FORMAT_G726, TRIS_FORMAT_G726_AAL2, TRIS_FORMAT_ADPCM,
      TRIS_FORMAT_GSM, TRIS_FORMAT_ILBC, TRIS_FORMAT_SPEEX16, TRIS_FORMAT_SPEEX, TRIS_FORMAT_LPC10,
      TRIS_FORMAT_G729A, TRIS_FORMAT_G723_1]"

definition tris_best_codec :: "u32 \<Rightarrow> u32" where
  "tris_best_codec fmts =
     (let fmts = fmts AND AUDIO_MASK in
      case List.find (\<lambda>p. fmts AND p \<noteq> 0) best_prefs of Some p \<Rightarrow> p | None \<Rightarrow> 0)"

text \<open>The first preferred format of \<open>formats\<close>, or 0.\<close>

fun choose_loop :: "u32 \<Rightarrow> int list \<Rightarrow> u32 option" where
  "choose_loop formats [] = Some 0"
| "choose_loop formats (slot # ss) =
     (if slot = 0 then Some 0
      else do {
        f \<leftarrow> slot_format slot;
        if formats AND bits f \<noteq> 0 then Some (bits f) else choose_loop formats ss
      })"

definition tris_codec_choose :: "tris_codec_pref \<Rightarrow> u32 \<Rightarrow> bool \<Rightarrow> u32 option" where
  "tris_codec_choose pref formats find_best = do {
     ret \<leftarrow> choose_loop formats (take n_formats (order pref));
     Some (if ret AND AUDIO_MASK \<noteq> 0 then ret
           else if find_best then tris_best_codec formats else 0)
   }"

section \<open>Allowing and disallowing\<close>

text \<open>\<open>strrchr(this, ':')\<close>: what is before the last colon and after it.\<close>

definition cut_size :: "string \<Rightarrow> string \<times> string option" where
  "cut_size s =
     (if CHR '':'' \<in> set s
      then let r = rev s in (rev (tl (dropWhile (\<lambda>c. c \<noteq> CHR '':'') r)), Some (rev (takeWhile (\<lambda>c. c \<noteq> CHR '':'') r)))
      else (s, None))"

text \<open>One item of the list: the error count, the preferences and the mask, which may be NULL.\<close>

definition allow_item ::
  "bool \<Rightarrow> string \<Rightarrow> int \<times> tris_codec_pref option \<times> u32 option \<Rightarrow> (int \<times> tris_codec_pref option \<times> u32 option) option" where
  "allow_item allowing this = (\<lambda>(errors, pref, msk).
     let (this, psize) = cut_size this;
         framems = (case psize of None \<Rightarrow> 0 | Some p \<Rightarrow> atoi p);
         errors = (if framems < 0 then errors + 1 else errors);
         framems = (if framems < 0 then 0 else framems);
         format = tris_getformatbyname this
     in if format = 0 then Some (errors + 1, pref, msk)
        else
          let msk = map_option (\<lambda>m. if allowing then m OR format else m AND NOT format) msk in
          case pref of
            None \<Rightarrow> Some (errors, None, msk)
          | Some p \<Rightarrow>
              if format AND AUDIO_MASK = 0 then Some (errors, pref, msk)
              else if \<not> strcaseeq this ''all''
              then if allowing
                   then do {
                     (x, p) \<leftarrow> tris_codec_pref_append p format;
                     Some (errors, Some (snd (tris_codec_pref_setsize p format framems)), msk)
                   }
                   else do {
                     p \<leftarrow> tris_codec_pref_remove p format;
                     Some (errors, Some p, msk)
                   }
              else if \<not> allowing then Some (errors, Some pref_zero, msk)
              else Some (errors, pref, msk))"

primrec allow_loop ::
  "bool \<Rightarrow> string list \<Rightarrow> int \<times> tris_codec_pref option \<times> u32 option \<Rightarrow> (int \<times> tris_codec_pref option \<times> u32 option) option" where
  "allow_loop allowing [] st = Some st"
| "allow_loop allowing (this # ls) st = Option.bind (allow_item allowing this st) (allow_loop allowing ls)"

definition tris_parse_allow_disallow ::
  "tris_codec_pref option \<Rightarrow> u32 option \<Rightarrow> string \<Rightarrow> bool \<Rightarrow> (int \<times> tris_codec_pref option \<times> u32 option) option" where
  "tris_parse_allow_disallow pref msk list allowing =
     allow_loop allowing (split_on (\<lambda>c. c = CHR '','') list) (0, pref, msk)"

section \<open>The table\<close>

lemma length_formats [simp]: "length TRIS_FORMAT_LIST = n_formats"
  by (simp add: TRIS_FORMAT_LIST_def)

lemmas format_consts =
  TRIS_FORMAT_G723_1_def TRIS_FORMAT_GSM_def TRIS_FORMAT_ULAW_def TRIS_FORMAT_ALAW_def
  TRIS_FORMAT_G726_AAL2_def TRIS_FORMAT_ADPCM_def TRIS_FORMAT_SLINEAR_def TRIS_FORMAT_LPC10_def
  TRIS_FORMAT_G729A_def TRIS_FORMAT_SPEEX_def TRIS_FORMAT_ILBC_def TRIS_FORMAT_G726_def
  TRIS_FORMAT_G722_def TRIS_FORMAT_SPEEX16_def TRIS_FORMAT_SIREN14_def TRIS_FORMAT_SLINEAR16_def
  TRIS_FORMAT_JPEG_def TRIS_FORMAT_PNG_def TRIS_FORMAT_H261_def TRIS_FORMAT_H263_def
  TRIS_FORMAT_H263_PLUS_def TRIS_FORMAT_H264_def TRIS_FORMAT_MP4_VIDEO_def TRIS_FORMAT_T140RED_def
  TRIS_FORMAT_T140_def TRIS_FORMAT_SIREN7_def

lemma formats_distinct: "distinct (map bits TRIS_FORMAT_LIST)"
  by (simp add: TRIS_FORMAT_LIST_def mk_format_def format_consts)

lemma formats_nonzero: "f \<in> set TRIS_FORMAT_LIST \<Longrightarrow> bits f \<noteq> 0"
  by (auto simp: TRIS_FORMAT_LIST_def mk_format_def format_consts)

text \<open>The sizes of the table's formats.\<close>

lemma formats_sizes:
  "f \<in> set TRIS_FORMAT_LIST \<Longrightarrow>
     0 \<le> inc_ms f \<and> 0 \<le> min_ms f \<and> min_ms f \<le> max_ms f \<and> min_ms f \<le> def_ms f \<and> def_ms f \<le> max_ms f \<and>
     (inc_ms f = 0 \<longrightarrow> max_ms f = 0) \<and> def_ms f \<le> 30 \<and>
     (inc_ms f \<noteq> 0 \<longrightarrow> 0 < min_ms f \<and> min_ms f mod inc_ms f = 0 \<and> max_ms f mod inc_ms f = 0 \<and> def_ms f mod inc_ms f = 0)"
  by (auto simp: TRIS_FORMAT_LIST_def mk_format_def)

definition slot_bits :: "int \<Rightarrow> u32" where "slot_bits s = bits (TRIS_FORMAT_LIST ! nat (s - 1))"

lemma slot_bits_inj:
  "1 \<le> a \<Longrightarrow> a \<le> 26 \<Longrightarrow> 1 \<le> b \<Longrightarrow> b \<le> 26 \<Longrightarrow> slot_bits a = slot_bits b \<Longrightarrow> a = b"
proof -
  assume r: "1 \<le> a" "a \<le> 26" "1 \<le> b" "b \<le> 26" "slot_bits a = slot_bits b"
  then have "nat (a - 1) < n_formats" "nat (b - 1) < n_formats" by auto
  then have "nat (a - 1) = nat (b - 1)"
    using formats_distinct nth_eq_iff_index_eq [of "map bits TRIS_FORMAT_LIST" "nat (a - 1)" "nat (b - 1)"] r(5)
    by (simp add: slot_bits_def)
  then show "a = b" using r by (simp add: eq_nat_nat_iff)
qed

lemma format_index_bits: "i < n_formats \<Longrightarrow> format_index (bits (TRIS_FORMAT_LIST ! i)) = Some i"
proof -
  assume i: "i < n_formats"
  have "bits (TRIS_FORMAT_LIST ! j) = bits (TRIS_FORMAT_LIST ! i) \<longleftrightarrow> j = i" if "j < n_formats" for j
    using formats_distinct nth_eq_iff_index_eq [of "map bits TRIS_FORMAT_LIST" j i] i that by simp
  then show ?thesis using i by (auto simp: format_index_def find_Some_iff intro!: exI [of _ i] simp del: upt.simps)
qed

lemma format_index_slot: "1 \<le> s \<Longrightarrow> s \<le> 26 \<Longrightarrow> format_index (slot_bits s) = Some (nat (s - 1))"
  unfolding slot_bits_def by (rule format_index_bits) simp

lemma format_index_Some: "format_index format = Some i \<Longrightarrow> i < n_formats \<and> format = slot_bits (int i + 1)"
  by (auto simp: format_index_def find_Some_iff slot_bits_def simp del: upt.simps)

section \<open>Preference lists as lists of entries\<close>

definition valid_entries :: "(int \<times> int) list \<Rightarrow> bool" where
  "valid_entries es \<longleftrightarrow> distinct (map fst es) \<and> (\<forall>s \<in> fst ` set es. 1 \<le> s \<and> s \<le> 26)"

definition without :: "int \<Rightarrow> (int \<times> int) list \<Rightarrow> (int \<times> int) list" where
  "without s es = filter (\<lambda>e. fst e \<noteq> s) es"

lemma valid_without [simp]: "valid_entries es \<Longrightarrow> valid_entries (without s es)"
  by (auto simp: valid_entries_def without_def distinct_map_filter)

lemma valid_length:
  assumes "valid_entries es"
  shows "length es \<le> 26"
proof -
  have "fst ` set es \<subseteq> {1..26}" using assms by (auto simp: valid_entries_def)
  then have "card (set (map fst es)) \<le> card {1..26 :: int}" by (intro card_mono) auto
  then show ?thesis using assms distinct_card [of "map fst es"] by (simp add: valid_entries_def)
qed

lemma valid_length_without:
  assumes "valid_entries es" "1 \<le> s" "s \<le> 26"
  shows "length (without s es) < 26"
proof -
  have "valid_entries ((s, 0) # without s es)" using assms by (auto simp: valid_entries_def without_def distinct_map_filter)
  from valid_length [OF this] show ?thesis by simp
qed

lemma zip_of_entries:
  "length es \<le> 26 \<Longrightarrow>
   take n_formats (zip (order (of_entries es)) (framing (of_entries es))) = es @ replicate (26 - length es) (0, 0)"
proof -
  assume "length es \<le> 26"
  moreover have "zip (map fst es @ replicate n 0) (map snd es @ replicate n 0) = es @ replicate n (0 :: int, 0 :: int)" for n
    by (simp add: zip_append zip_map_fst_snd zip_replicate)
  ultimately show ?thesis by (simp add: of_entries_def)
qed

lemma remove_loop_entries:
  "\<forall>e \<in> set es. 1 \<le> fst e \<and> fst e \<le> 26 \<Longrightarrow>
   remove_loop format (es @ replicate n (0, 0)) = Some (filter (\<lambda>e. slot_bits (fst e) \<noteq> format) es)"
proof (induction es)
  case Nil
  show ?case by (cases n) simp_all
next
  case (Cons e es)
  then show ?case by (cases e) (auto simp: slot_format_def slot_bits_def)
qed

lemma of_entries_zero: "valid_entries es \<Longrightarrow> order (of_entries es) ! 0 = 0 \<longleftrightarrow> es = []"
  by (cases es) (auto simp: of_entries_def valid_entries_def)

lemma remove_entries:
  assumes "valid_entries es" "1 \<le> s" "s \<le> 26"
  shows "tris_codec_pref_remove (of_entries es) (slot_bits s) = Some (of_entries (without s es))"
proof (cases "es = []")
  case True
  then show ?thesis by (simp add: tris_codec_pref_remove_def of_entries_def without_def)
next
  case False
  have "filter (\<lambda>e. slot_bits (fst e) \<noteq> slot_bits s) es = without s es"
    unfolding without_def using assms slot_bits_inj by (intro filter_cong) (auto simp: valid_entries_def)
  moreover have "\<forall>e \<in> set es. 1 \<le> fst e \<and> fst e \<le> 26" using assms(1) by (auto simp: valid_entries_def)
  ultimately show ?thesis
    using False of_entries_zero [OF assms(1)] valid_length [OF assms(1)]
    by (simp add: tris_codec_pref_remove_def zip_of_entries remove_loop_entries)
qed

lemma find_first_nat:
  assumes "x < n" "P x" "\<forall>j < x. \<not> P j"
  shows "List.find P [0..<n] = Some x"
  using assms by (auto simp: find_Some_iff intro!: exI [of _ x] simp del: upt.simps)

lemma order_nth:
  "valid_entries es \<Longrightarrow> j < 32 \<Longrightarrow> order (of_entries es) ! j = (if j < length es then fst (es ! j) else 0)"
  using valid_length [of es] by (auto simp: of_entries_def nth_append)

lemma entry_nonzero: "valid_entries es \<Longrightarrow> j < length es \<Longrightarrow> fst (es ! j) \<noteq> 0"
  unfolding valid_entries_def by (metis image_eqI nth_mem not_one_le_zero)

lemma append_entries:
  assumes "valid_entries es" "1 \<le> s" "s \<le> 26"
  shows "\<exists>x. tris_codec_pref_append (of_entries es) (slot_bits s) = Some (x, of_entries (without s es @ [(s, 0)]))"
proof -
  let ?w = "without s es"
  have v: "valid_entries ?w" "length ?w < 26" using assms valid_length_without by auto
  have f: "List.find (\<lambda>x. order (of_entries ?w) ! x = 0) [0..<n_formats] = Some (length ?w)"
    using v entry_nonzero [OF v(1)] by (intro find_first_nat) (simp_all add: order_nth)
  have r: "replicate (32 - length ?w) (0 :: int) = 0 # replicate (31 - length ?w) 0"
    using v(2) by (simp add: Suc_diff_le flip: replicate_Suc)
  have "of_entries ?w\<lparr>order := (order (of_entries ?w))[length ?w := s]\<rparr> = of_entries (?w @ [(s, 0)])"
    using v(2) by (simp add: of_entries_def r list_update_append)
  then show ?thesis
    using assms f by (simp add: tris_codec_pref_append_def remove_entries format_index_slot)
qed

lemma prepend_entries:
  assumes "valid_entries es" "1 \<le> s" "s \<le> 26"
  shows "tris_codec_pref_prepend (of_entries es) (slot_bits s) only =
     Some (if only \<and> s \<notin> fst ` set es then of_entries es else of_entries ((s, 0) # without s es))"
proof (cases "s \<in> fst ` set es")
  case True
  then obtain us v vs where es: "es = us @ (s, v) # vs" by (metis (no_types, lifting) image_iff prod.collapse split_list)
  have w: "without s es = us @ vs"
  proof -
    have "s \<notin> fst ` set us" "s \<notin> fst ` set vs" using assms(1) by (auto simp: es valid_entries_def)
    then have "without s us = us" "without s vs = vs" unfolding without_def by (intro filter_True; force)+
    then show ?thesis by (simp add: es without_def)
  qed
  have l: "length es \<le> 26" by (rule valid_length [OF assms(1)])
  have lu: "length us < length es" by (simp add: es)
  have "List.find (\<lambda>x. order (of_entries es) ! x = 0 \<or> order (of_entries es) ! x = s) [0..<32] = Some (length us)"
  proof (rule find_first_nat)
    have "fst (es ! j) \<noteq> s" if "j < length us" for j
    proof -
      have "s \<notin> fst ` set us" using assms(1) by (auto simp: es valid_entries_def)
      then show ?thesis using that by (auto simp: es nth_append)
    qed
    then show "\<forall>j < length us. \<not> (order (of_entries es) ! j = 0 \<or> order (of_entries es) ! j = s)"
      using l lu entry_nonzero [OF assms(1)] by (auto simp: order_nth [OF assms(1)])
    have "es ! length us = (s, v)" by (simp add: es)
    then show "order (of_entries es) ! length us = 0 \<or> order (of_entries es) ! length us = s"
      using l lu by (simp add: order_nth [OF assms(1)])
  qed (use l lu in simp)
  then show ?thesis
    using True assms(2,3) l w assms(2)
    by (simp add: tris_codec_pref_prepend_def format_index_slot order_nth [OF assms(1)])
      (simp add: of_entries_def es nth_append Suc_diff_Suc)
next
  case False
  have w: "without s es = es" using False by (auto simp: without_def intro!: filter_True)
  have l: "length es < 26" using valid_length_without [OF assms] w by simp
  have r: "replicate (32 - length es) (0 :: int) = 0 # replicate (31 - length es) 0"
    using l by (simp add: Suc_diff_le flip: replicate_Suc)
  have "fst (es ! j) \<noteq> s" if "j < length es" for j using False that by (auto simp: image_iff)
  then have "List.find (\<lambda>x. order (of_entries es) ! x = 0 \<or> order (of_entries es) ! x = s) [0..<32] = Some (length es)"
    using l entry_nonzero [OF assms(1)] by (intro find_first_nat) (auto simp: order_nth [OF assms(1)])
  then show ?thesis
    using False assms(2,3) l w
    by (simp add: tris_codec_pref_prepend_def format_index_slot order_nth [OF assms(1)])
      (simp add: of_entries_def r)
qed


section \<open>Choosing\<close>

definition preferred :: "(int \<times> int) list \<Rightarrow> u32 \<Rightarrow> u32" where
  "preferred es formats =
     (case List.find (\<lambda>e. formats AND slot_bits (fst e) \<noteq> 0) es of Some e \<Rightarrow> slot_bits (fst e) | None \<Rightarrow> 0)"

lemma choose_loop_entries:
  "\<forall>e \<in> set es. 1 \<le> fst e \<and> fst e \<le> 26 \<Longrightarrow>
   choose_loop formats (map fst es @ replicate n 0) = Some (preferred es formats)"
proof (induction es)
  case Nil
  show ?case by (cases n) (simp_all add: preferred_def)
next
  case (Cons e es)
  then show ?case by (cases e) (auto simp: slot_format_def slot_bits_def preferred_def)
qed

lemma choose_entries:
  assumes "valid_entries es"
  shows "tris_codec_choose (of_entries es) formats fb =
     Some (if preferred es formats AND AUDIO_MASK \<noteq> 0 then preferred es formats
           else if fb then tris_best_codec formats else 0)"
proof -
  have l: "length es \<le> 26" by (rule valid_length [OF assms])
  have "take n_formats (order (of_entries es)) = map fst es @ replicate (26 - length es) 0"
    using l by (simp add: of_entries_def)
  moreover have "\<forall>e \<in> set es. 1 \<le> fst e \<and> fst e \<le> 26" using assms by (auto simp: valid_entries_def)
  ultimately show ?thesis by (simp add: tris_codec_choose_def choose_loop_entries)
qed

section \<open>Packet sizes\<close>

definition set_entry :: "int \<Rightarrow> int \<Rightarrow> (int \<times> int) list \<Rightarrow> (int \<times> int) list" where
  "set_entry s v es = map (\<lambda>e. if fst e = s then (s, v) else e) es"

lemma set_entry_fst [simp]: "map fst (set_entry s v es) = map fst es"
  by (induction es) (auto simp: set_entry_def)

lemma valid_set_entry [simp]: "valid_entries (set_entry s v es) = valid_entries es"
  by (simp add: valid_entries_def flip: set_map)

lemma slot_position:
  assumes "valid_entries es" "s \<in> fst ` set es"
  obtains us v vs where "es = us @ (s, v) # vs" "s \<notin> fst ` set us" "s \<notin> fst ` set vs" "length us < 26"
    "List.find (\<lambda>x. order (of_entries es) ! x = s) [0..<n_formats] = Some (length us)"
proof -
  obtain us v vs where es: "es = us @ (s, v) # vs" using assms(2) by (metis (no_types, lifting) image_iff prod.collapse split_list)
  have n: "s \<notin> fst ` set us" "s \<notin> fst ` set vs" using assms(1) by (auto simp: es valid_entries_def)
  have l: "length es \<le> 26" by (rule valid_length [OF assms(1)])
  have lu: "length us < length es" by (simp add: es)
  have "fst (es ! j) \<noteq> s" if "j < length us" for j using n that by (auto simp: es nth_append)
  moreover have "es ! length us = (s, v)" by (simp add: es)
  ultimately have "List.find (\<lambda>x. order (of_entries es) ! x = s) [0..<n_formats] = Some (length us)"
    using l lu by (intro find_first_nat) (auto simp: order_nth [OF assms(1)])
  then show thesis using that es n l lu by auto
qed

lemma setsize_entries:
  assumes "valid_entries es" "s \<in> fst ` set es"
  shows "snd (tris_codec_pref_setsize (of_entries es) (slot_bits s) ms) =
     of_entries (set_entry s (schar (valid_ms (TRIS_FORMAT_LIST ! nat (s - 1)) ms)) es)"
proof -
  have r: "1 \<le> s" "s \<le> 26" using assms by (auto simp: valid_entries_def)
  obtain us v vs where es: "es = us @ (s, v) # vs" "s \<notin> fst ` set us" "s \<notin> fst ` set vs"
    and f: "List.find (\<lambda>x. order (of_entries es) ! x = s) [0..<n_formats] = Some (length us)"
    using slot_position [OF assms] by metis
  have "set_entry s w us = us" "set_entry s w vs = vs" for w
    using es(2,3) by (auto simp: set_entry_def image_iff intro!: map_idI)
  then have "set_entry s w es = us @ (s, w) # vs" for w
    by (simp add: es(1) set_entry_def)
  then show ?thesis
    using r f by (simp add: tris_codec_pref_setsize_def format_index_slot)
      (simp add: of_entries_def es(1) list_update_append)
qed

lemma getsize_entries:
  assumes "valid_entries es" "(s, v) \<in> set es"
  shows "map_option cur_ms (tris_codec_pref_getsize (of_entries es) (slot_bits s)) =
     Some (valid_ms (TRIS_FORMAT_LIST ! nat (s - 1)) v)"
proof -
  have s: "s \<in> fst ` set es" using assms(2) by force
  then have r: "1 \<le> s" "s \<le> 26" using assms by (auto simp: valid_entries_def)
  obtain us w vs where es: "es = us @ (s, w) # vs" "s \<notin> fst ` set us" "s \<notin> fst ` set vs" "length us < 26"
    and f: "List.find (\<lambda>x. order (of_entries es) ! x = s) [0..<n_formats] = Some (length us)"
    using slot_position [OF assms(1) s] by metis
  have "w = v" using assms(2) es by (auto simp: image_iff)
  then have "framing (of_entries es) ! length us = v" by (simp add: of_entries_def es(1) nth_append)
  then show ?thesis using r f by (simp add: tris_codec_pref_getsize_def format_index_slot)
qed

lemma valid_ms_range:
  assumes "f \<in> set TRIS_FORMAT_LIST"
  shows "min_ms f \<le> valid_ms f ms" "valid_ms f ms \<le> max_ms f" "0 \<le> valid_ms f ms"
  using formats_sizes [OF assms] by (auto simp: valid_ms_def Let_def)

lemma valid_ms_idem:
  assumes "f \<in> set TRIS_FORMAT_LIST"
  shows "valid_ms f (valid_ms f ms) = valid_ms f ms"
proof -
  note z = formats_sizes [OF assms]
  note r = valid_ms_range [OF assms, of ms]
  show ?thesis
  proof (cases "inc_ms f = 0")
    case True
    then show ?thesis using z r by (auto simp: valid_ms_def Let_def)
  next
    case False
    then have i: "0 < inc_ms f" using z by simp
    have "(a - cmod a (inc_ms f)) mod inc_ms f = 0" for a
      by (simp add: cmod_def)
    then have m: "valid_ms f ms mod inc_ms f = 0"
      using z False by (auto simp: valid_ms_def Let_def)
    have c: "cmod (valid_ms f ms) (inc_ms f) = 0" using r(3) i m by simp
    show ?thesis
    proof (cases "valid_ms f ms = 0")
      case True
      then show ?thesis using z r i by linarith
    next
      case False
      then show ?thesis using c r by (simp add: valid_ms_def [of f "valid_ms f ms"] Let_def)
    qed
  qed
qed

text \<open>The packet size that is set for a codec of the list is read back, rounded down to the
  codec's step and moved into its range, if it is below 128 ms.\<close>

theorem setsize_getsize:
  assumes "valid_entries es" "s \<in> fst ` set es" "f = TRIS_FORMAT_LIST ! nat (s - 1)" "valid_ms f ms < 128"
  shows "map_option cur_ms
      (tris_codec_pref_getsize (snd (tris_codec_pref_setsize (of_entries es) (slot_bits s) ms)) (slot_bits s)) =
     Some (valid_ms f ms)"
proof -
  have r: "1 \<le> s" "s \<le> 26" using assms by (auto simp: valid_entries_def)
  then have f: "f \<in> set TRIS_FORMAT_LIST" using assms(3) by simp
  have c: "schar (valid_ms f ms) = valid_ms f ms"
    using valid_ms_range(3) [OF f, of ms] assms(4) by (simp add: schar_def)
  have "(s, valid_ms f ms) \<in> set (set_entry s (valid_ms f ms) es)"
    using assms(2) by (force simp: set_entry_def)
  then show ?thesis
    using assms(1,2) getsize_entries [of "set_entry s (valid_ms f ms) es" s "valid_ms f ms"]
    by (simp add: setsize_entries c valid_ms_idem [OF f] flip: assms(3))
qed

theorem setsize_getsize_witness:
  "map_option cur_ms
     (tris_codec_pref_getsize (snd (tris_codec_pref_setsize (of_entries [(3, 0), (9, 0)]) (slot_bits 3) 47)) (slot_bits 3)) =
   Some 40"
proof -
  have f: "TRIS_FORMAT_LIST ! nat (3 - 1) = mk_format TRIS_FORMAT_ULAW ''ulaw'' 8000 80 10 150 10 20 0"
    by (simp add: TRIS_FORMAT_LIST_def)
  have v: "valid_ms (TRIS_FORMAT_LIST ! nat (3 - 1)) 47 = 40"
    unfolding f by (simp add: valid_ms_def mk_format_def)
  have "valid_entries [(3, 0), (9, 0)]" by (simp add: valid_entries_def)
  from setsize_getsize [OF this, of 3 _ 47] v show ?thesis by simp
qed

text \<open>A larger size does not fit the signed character it is stored in: 150 ms of u-law are read back as
  10 ms.\<close>

lemma setsize_150:
  "map_option cur_ms
     (tris_codec_pref_getsize (snd (tris_codec_pref_setsize (of_entries [(3, 0)]) (slot_bits 3) 150)) (slot_bits 3)) =
   Some 10"
proof -
  have f: "TRIS_FORMAT_LIST ! nat (3 - 1) = mk_format TRIS_FORMAT_ULAW ''ulaw'' 8000 80 10 150 10 20 0"
    by (simp add: TRIS_FORMAT_LIST_def)
  have e: "valid_entries [(3, 0)]" "valid_entries [(3, -106)]" by (simp_all add: valid_entries_def)
  have v: "valid_ms (TRIS_FORMAT_LIST ! nat (3 - 1)) 150 = 150" "valid_ms (TRIS_FORMAT_LIST ! nat (3 - 1)) (- 106) = 10"
    unfolding f by (simp_all add: valid_ms_def mk_format_def cmod_def cdiv_def)
  have "snd (tris_codec_pref_setsize (of_entries [(3, 0)]) (slot_bits 3) 150) = of_entries [(3, - 106)]"
    using setsize_entries [OF e(1), of 3 150] v(1) by (simp add: set_entry_def schar_def)
  then show ?thesis using getsize_entries [OF e(2), of 3 "-106"] v(2) by simp
qed

section \<open>A line of allowed codecs\<close>

definition slot_name :: "int \<Rightarrow> string" where "slot_name s = fmt_name (TRIS_FORMAT_LIST ! nat (s - 1))"

fun join_commas :: "string list \<Rightarrow> string" where
  "join_commas [] = []"
| "join_commas [s] = s"
| "join_commas (s # ss) = s @ CHR '','' # join_commas ss"

lemma split_on_free: "\<forall>c \<in> set a. \<not> P c \<Longrightarrow> split_on P a = [a]"
  by (induction a) auto

lemma split_on_cons: "\<forall>c \<in> set a. \<not> P c \<Longrightarrow> P c \<Longrightarrow> split_on P (a @ c # b) = a # split_on P b"
  by (induction a) auto

lemma split_join:
  "ss \<noteq> [] \<Longrightarrow> \<forall>s \<in> set ss. CHR '','' \<notin> set s \<Longrightarrow> split_on (\<lambda>c. c = CHR '','') (join_commas ss) = ss"
proof (induction ss rule: join_commas.induct)
  case (2 s)
  then show ?case using split_on_free [of s "\<lambda>c. c = CHR '',''"] by auto
next
  case (3 s t ss)
  then show ?case using split_on_cons [of s "\<lambda>c. c = CHR '',''" "CHR '',''" "join_commas (t # ss)"] by auto
qed simp

lemma names_lower: "\<forall>f \<in> set TRIS_FORMAT_LIST. map tolower (fmt_name f) = fmt_name f"
  by (simp add: TRIS_FORMAT_LIST_def mk_format_def tolower_chars)

lemma names_distinct: "distinct (map fmt_name TRIS_FORMAT_LIST)"
  by (simp add: TRIS_FORMAT_LIST_def mk_format_def)

lemma names_plain:
  "\<forall>f \<in> set TRIS_FORMAT_LIST. CHR '','' \<notin> set (fmt_name f) \<and> CHR '':'' \<notin> set (fmt_name f) \<and> fmt_name f \<noteq> ''all''"
  by (simp add: TRIS_FORMAT_LIST_def mk_format_def)

lemma names_no_alias: "\<forall>f \<in> set TRIS_FORMAT_LIST. tris_expand_codec_alias (fmt_name f) = fmt_name f"
  by (simp add: TRIS_FORMAT_LIST_def mk_format_def tris_expand_codec_alias_def tris_codec_alias_table_def)

lemma slot_in: "1 \<le> s \<Longrightarrow> s \<le> 26 \<Longrightarrow> TRIS_FORMAT_LIST ! nat (s - 1) \<in> set TRIS_FORMAT_LIST"
  by (intro nth_mem) simp

lemma name_matches_slot:
  assumes "1 \<le> s" "s \<le> 26" "f \<in> set TRIS_FORMAT_LIST"
  shows "name_matches (slot_name s) f \<longleftrightarrow> fmt_name f = slot_name s"
  using names_lower names_no_alias assms(3) slot_in [OF assms(1,2)]
  by (simp add: name_matches_def slot_name_def strcaseeq_def)

lemma getformatbyname_slot:
  assumes "1 \<le> s" "s \<le> 26"
  shows "tris_getformatbyname (slot_name s) = slot_bits s"
proof -
  let ?i = "nat (s - 1)" and ?F = TRIS_FORMAT_LIST
  have i: "?i < length ?F" using assms by simp
  have e: "fmt_name (?F ! j) = slot_name s \<longleftrightarrow> j = ?i" if "j < length ?F" for j
    using names_distinct nth_eq_iff_index_eq [of "map fmt_name ?F" j ?i] i that by (simp add: slot_name_def)
  have m: "name_matches (slot_name s) (?F ! j) \<longleftrightarrow> j = ?i" if "j < length ?F" for j
    using name_matches_slot [OF assms, of "?F ! j"] e [OF that] that by simp
  have "List.find (name_matches (slot_name s)) ?F = Some (?F ! ?i)"
    unfolding find_Some_iff using i m by (intro exI [of _ ?i]) auto
  moreover have "\<not> strcaseeq (slot_name s) ''all''"
  proof -
    have "map tolower ''all'' = ''all''" by (simp add: tolower_chars)
    moreover have "map tolower (slot_name s) = slot_name s" "slot_name s \<noteq> ''all''"
      using names_lower names_plain slot_in [OF assms] by (auto simp: slot_name_def)
    ultimately show ?thesis by (simp add: strcaseeq_def)
  qed
  ultimately show ?thesis by (simp add: tris_getformatbyname_def slot_bits_def)
qed

lemma slot_name_plain:
  assumes "1 \<le> s" "s \<le> 26"
  shows "CHR '','' \<notin> set (slot_name s)" "CHR '':'' \<notin> set (slot_name s)" "\<not> strcaseeq (slot_name s) ''all''"
proof -
  have "map tolower ''all'' = ''all''" by (simp add: tolower_chars)
  then show "CHR '','' \<notin> set (slot_name s)" "CHR '':'' \<notin> set (slot_name s)" "\<not> strcaseeq (slot_name s) ''all''"
    using names_lower names_plain slot_in [OF assms] by (auto simp: slot_name_def strcaseeq_def)
qed

definition default_ms :: "int \<Rightarrow> int" where "default_ms s = def_ms (TRIS_FORMAT_LIST ! nat (s - 1))"

lemma valid_ms_default:
  assumes "1 \<le> s" "s \<le> 26"
  shows "schar (valid_ms (TRIS_FORMAT_LIST ! nat (s - 1)) 0) = default_ms s"
  using formats_sizes [OF slot_in [OF assms]]
  by (auto simp: valid_ms_def Let_def default_ms_def schar_def)

lemma allow_item_slot:
  assumes "valid_entries es" "1 \<le> s" "s \<le> 26" "slot_bits s AND AUDIO_MASK \<noteq> 0"
  shows "allow_item True (slot_name s) (e, Some (of_entries es), Some m) =
     Some (e, Some (of_entries (without s es @ [(s, default_ms s)])), Some (m OR slot_bits s))"
proof -
  let ?es = "without s es @ [(s, 0)]"
  obtain x where x: "tris_codec_pref_append (of_entries es) (slot_bits s) = Some (x, of_entries ?es)"
    using append_entries [OF assms(1-3)] by blast
  have v: "valid_entries ?es" using assms(1-3) by (auto simp: valid_entries_def without_def distinct_map_filter)
  have "set_entry s (default_ms s) ?es = without s es @ [(s, default_ms s)]"
    by (auto simp: set_entry_def without_def intro!: map_idI)
  then have "snd (tris_codec_pref_setsize (of_entries ?es) (slot_bits s) 0) =
      of_entries (without s es @ [(s, default_ms s)])"
    using setsize_entries [OF v, of s 0] valid_ms_default [OF assms(2,3)] by simp
  moreover have "slot_bits s \<noteq> 0" using assms(4) by auto
  ultimately show ?thesis
    using assms x slot_name_plain [OF assms(2,3)]
    by (simp add: allow_item_def cut_size_def getformatbyname_slot Let_def)
qed

lemma allow_loop_slots:
  assumes "\<forall>s \<in> set ss. 1 \<le> s \<and> s \<le> 26 \<and> slot_bits s AND AUDIO_MASK \<noteq> 0" "distinct ss"
    and "valid_entries es" "set ss \<inter> fst ` set es = {}"
  shows "allow_loop True (map slot_name ss) (e, Some (of_entries es), Some m) =
     Some (e, Some (of_entries (es @ map (\<lambda>s. (s, default_ms s)) ss)), Some (fold (\<lambda>s m. m OR slot_bits s) ss m))"
  using assms
proof (induction ss arbitrary: es m)
  case (Cons s ss)
  have s: "1 \<le> s" "s \<le> 26" "slot_bits s AND AUDIO_MASK \<noteq> 0" "s \<notin> fst ` set es" "s \<notin> set ss"
    using Cons.prems by auto
  have w: "without s es = es" using s(4) by (auto simp: without_def intro!: filter_True)
  have "valid_entries (es @ [(s, default_ms s)])" using Cons.prems(3) s by (auto simp: valid_entries_def)
  from Cons.IH [OF _ _ this] Cons.prems s(5) show ?case
    by (simp add: allow_item_slot [OF Cons.prems(3) s(1-3)] w)
qed simp

text \<open>Claim C38. A line that allows several audio codecs, read into empty preferences, is accepted without
  errors; it sets the mask to these codecs and the list to them in the order of the line, so that
  the codec chosen for a peer is the first of the line among those that the peer offers.\<close>

theorem allow_line_order:
  assumes "ss \<noteq> []" "distinct ss" "\<forall>s \<in> set ss. 1 \<le> s \<and> s \<le> 26 \<and> slot_bits s AND AUDIO_MASK \<noteq> 0"
  shows "\<exists>pref msk. tris_parse_allow_disallow (Some pref_zero) (Some 0) (join_commas (map slot_name ss)) True =
       Some (0, Some pref, Some msk) \<and>
     (\<forall>b. bit msk b \<longleftrightarrow> (\<exists>s \<in> set ss. bit (slot_bits s) b)) \<and>
     (\<forall>formats. tris_codec_choose pref formats False =
        Some (case List.find (\<lambda>s. formats AND slot_bits s \<noteq> 0) ss of Some s \<Rightarrow> slot_bits s | None \<Rightarrow> 0))"
proof -
  let ?es = "map (\<lambda>s. (s, default_ms s)) ss"
  have z: "pref_zero = of_entries []" by (simp add: pref_zero_def of_entries_def)
  have v: "valid_entries ?es" using assms(2,3) by (auto simp: valid_entries_def comp_def)
  have "split_on (\<lambda>c. c = CHR '','') (join_commas (map slot_name ss)) = map slot_name ss"
    using assms(1,3) slot_name_plain(1) by (intro split_join) auto
  then have p: "tris_parse_allow_disallow (Some pref_zero) (Some 0) (join_commas (map slot_name ss)) True =
      Some (0, Some (of_entries ?es), Some (fold (\<lambda>s m. m OR slot_bits s) ss 0))"
    using allow_loop_slots [OF assms(3,2), of "[]" 0 0]
    by (simp add: tris_parse_allow_disallow_def z valid_entries_def)
  have b: "bit (fold (\<lambda>s m. m OR slot_bits s) ss m) b \<longleftrightarrow> bit m b \<or> (\<exists>s \<in> set ss. bit (slot_bits s) b)" for m b
    by (induction ss arbitrary: m) (auto simp: bit_or_iff)
  have f: "preferred ?es formats = (case List.find (\<lambda>s. formats AND slot_bits s \<noteq> 0) ss of
      Some s \<Rightarrow> slot_bits s | None \<Rightarrow> 0)" for formats
    unfolding preferred_def by (induction ss) auto
  have a: "preferred ?es formats = 0 \<or> preferred ?es formats AND AUDIO_MASK \<noteq> 0" for formats
    unfolding f using assms(3) by (auto split: option.splits simp: find_Some_iff)
  have "tris_codec_choose (of_entries ?es) formats False = Some (preferred ?es formats)" for formats
    using a [of formats] by (auto simp: choose_entries [OF v])
  then show ?thesis using p b [of 0] f by auto
qed

lemma slot_bits_3_9: "slot_bits 3 = TRIS_FORMAT_ULAW" "slot_bits 9 = TRIS_FORMAT_G729A" "slot_name 3 = ''ulaw''"
  "slot_name 9 = ''g729''"
  by (simp_all add: slot_bits_def slot_name_def TRIS_FORMAT_LIST_def mk_format_def)

theorem allow_line_order_witness:
  "\<exists>pref msk. tris_parse_allow_disallow (Some pref_zero) (Some 0) ''g729,ulaw'' True = Some (0, Some pref, Some msk) \<and>
     tris_codec_choose pref 0x10C False = Some TRIS_FORMAT_G729A"
proof -
  have "\<forall>s \<in> set [9, 3]. 1 \<le> s \<and> s \<le> 26 \<and> slot_bits s AND AUDIO_MASK \<noteq> 0"
    by (simp add: slot_bits_3_9 format_consts AUDIO_MASK_def)
  moreover have "join_commas (map slot_name [9, 3]) = ''g729,ulaw''" by (simp add: slot_bits_3_9)
  ultimately obtain pref msk where
    "tris_parse_allow_disallow (Some pref_zero) (Some 0) ''g729,ulaw'' True = Some (0, Some pref, Some msk)"
    "\<forall>formats. tris_codec_choose pref formats False =
        Some (case List.find (\<lambda>s. formats AND slot_bits s \<noteq> 0) [9, 3] of Some s \<Rightarrow> slot_bits s | None \<Rightarrow> 0)"
    using allow_line_order [of "[9, 3]"] by auto
  then show ?thesis by (auto simp: slot_bits_3_9 format_consts)
qed

section \<open>Preferences on the wire\<close>

lemma schar_small: "- 128 \<le> v \<Longrightarrow> v < 128 \<Longrightarrow> schar v = v"
  by (simp add: schar_def)

text \<open>A preference list that is converted to characters, for a peer, and back is the list.\<close>

theorem pref_convert_roundtrip:
  assumes "valid_entries es"
  shows "order (tris_codec_pref_from p (tris_codec_pref_to (of_entries es) 32)) = order (of_entries es)"
proof -
  have l: "length es \<le> 26" by (rule valid_length [OF assms])
  have r: "1 \<le> s \<and> s \<le> 26" if "s \<in> set (map fst es)" for s using assms that by (auto simp: valid_entries_def)
  let ?os = "map fst es" and ?cs = "map (\<lambda>c. schar (c + 65)) (map fst es)"
  have tw: "takeWhile (\<lambda>c. c \<noteq> 0) (xs @ replicate n 0) = xs" if "\<forall>x \<in> set xs. x \<noteq> (0 :: int)" for xs n
    using that by (induction xs) (auto simp: takeWhile_replicate)
  have "takeWhile (\<lambda>c. c \<noteq> 0) (take 32 (order (of_entries es))) = ?os"
    using l r by (simp add: of_entries_def) (rule tw, force)
  then have to: "tris_codec_pref_to (of_entries es) 32 = ?cs @ replicate (32 - length es) 0"
    by (simp add: tris_codec_pref_to_def Let_def)
  have c: "schar (s + 65) = s + 65" "schar s = s" if "s \<in> set (map fst es)" for s
    using r [OF that] by (simp_all add: schar_small)
  have nz: "\<forall>x \<in> set ?cs. x \<noteq> 0" using r c(1) by fastforce
  have "takeWhile (\<lambda>c. c \<noteq> 0) (take 32 (?cs @ replicate (32 - length es) 0)) = ?cs"
    using l tw [OF nz] by simp
  moreover have "map (\<lambda>c. schar (c - 65)) ?cs = ?os"
  proof -
    have "schar (schar (fst e + 65) - 65) = fst e" if "e \<in> set es" for e
      using c [of "fst e"] that by simp
    then show ?thesis by simp
  qed
  ultimately show ?thesis
    unfolding to tris_codec_pref_from_def by (simp add: Let_def of_entries_def comp_def)
qed

theorem pref_convert_roundtrip_witness:
  "order (tris_codec_pref_from pref_zero (tris_codec_pref_to (of_entries [(3, 20), (9, 40)]) 32)) =
   order (of_entries [(3, 20), (9, 40)])"
  by (rule pref_convert_roundtrip) (simp add: valid_entries_def)

text \<open>The characters of a peer are not checked: other characters give slots outside the table, which the
  other operations then read.\<close>

lemma pref_from_unchecked:
  "tris_codec_pref_index (tris_codec_pref_from pref_zero (122 # replicate 31 0)) 0 = None"
  by (simp add: tris_codec_pref_index_def tris_codec_pref_from_def Let_def schar_def slot_format_def)

text \<open>G.722.1 at 16 kHz has bit 31, which is not in the mask of audio formats: it is never put into a
  preference list, and never chosen.\<close>

lemma siren7_not_chosen:
  "TRIS_FORMAT_SIREN7 AND AUDIO_MASK = 0"
  "valid_entries es \<Longrightarrow> tris_codec_choose (of_entries es) TRIS_FORMAT_SIREN7 True = Some 0"
proof -
  show a: "TRIS_FORMAT_SIREN7 AND AUDIO_MASK = 0" by (simp add: TRIS_FORMAT_SIREN7_def AUDIO_MASK_def)
  assume v: "valid_entries es"
  have "preferred es TRIS_FORMAT_SIREN7 AND AUDIO_MASK = 0"
  proof (cases "List.find (\<lambda>e. TRIS_FORMAT_SIREN7 AND slot_bits (fst e) \<noteq> 0) es")
    case (Some e)
    then have e: "e \<in> set es" "TRIS_FORMAT_SIREN7 AND slot_bits (fst e) \<noteq> 0"
      by (auto simp: find_Some_iff)
    then have "1 \<le> fst e" "fst e \<le> 26" using v by (auto simp: valid_entries_def)
    then have "TRIS_FORMAT_LIST ! nat (fst e - 1) \<in> set TRIS_FORMAT_LIST" by (rule slot_in)
    moreover have "\<forall>f \<in> set TRIS_FORMAT_LIST. TRIS_FORMAT_SIREN7 AND bits f \<noteq> 0 \<longrightarrow> bits f = TRIS_FORMAT_SIREN7"
      by (simp add: TRIS_FORMAT_LIST_def mk_format_def format_consts)
    ultimately have "slot_bits (fst e) = TRIS_FORMAT_SIREN7" using e(2) by (simp add: slot_bits_def)
    then show ?thesis using Some a by (simp add: preferred_def)
  qed (simp add: preferred_def)
  then show "tris_codec_choose (of_entries es) TRIS_FORMAT_SIREN7 True = Some 0"
    by (simp add: choose_entries [OF v] tris_best_codec_def a best_prefs_def)
qed

text \<open>Asking for the packet size of an unknown format reads the table before its beginning.\<close>

lemma getsize_unknown: "format_index format = None \<Longrightarrow> tris_codec_pref_getsize pref format = None"
  by (simp add: tris_codec_pref_getsize_def)


section \<open>The operations on preferences\<close>

text \<open>On preference lists without duplicates, removing takes a codec out, appending puts it last
  and prepending first, wherever it was, with no packet size of its own; the other codecs keep their
  order and their sizes, and the list stays free of duplicates.\<close>

theorem pref_operations:
  assumes "valid_entries es" "1 \<le> s" "s \<le> 26"
  shows "tris_codec_pref_remove (of_entries es) (slot_bits s) = Some (of_entries (without s es)) \<and>
    (\<exists>x. tris_codec_pref_append (of_entries es) (slot_bits s) = Some (x, of_entries (without s es @ [(s, 0)]))) \<and>
    tris_codec_pref_prepend (of_entries es) (slot_bits s) only =
      Some (if only \<and> s \<notin> fst ` set es then of_entries es else of_entries ((s, 0) # without s es)) \<and>
    valid_entries (without s es) \<and> valid_entries (without s es @ [(s, 0)]) \<and> valid_entries ((s, 0) # without s es)"
proof -
  have "valid_entries (without s es @ [(s, 0)])" "valid_entries ((s, 0) # without s es)"
    using assms by (auto simp: valid_entries_def without_def distinct_map_filter)
  then show ?thesis
    using remove_entries [OF assms] append_entries [OF assms] prepend_entries [OF assms] assms by simp
qed

theorem pref_operations_witness:
  "tris_codec_pref_prepend (of_entries [(3, 20), (9, 40)]) (slot_bits 9) True = Some (of_entries [(9, 0), (3, 20)])"
proof -
  have "valid_entries [(3, 20), (9, 40)]" by (simp add: valid_entries_def)
  from pref_operations [OF this, of 9 True] show ?thesis by (simp add: without_def)
qed


end
