(* ===== verification/CodecLen.thy ===== *)
theory CodecLen
  imports CodecPref
begin

text \<open>
  Lengths and samples of coded frames, and operations on linear samples: the rest of \<open>main/frame.c\<close> and
  the inline functions of \<open>include/trismedia/utils.h\<close>. Reading outside a frame's data gives \<open>None\<close>.
\<close>

section \<open>G.723.1\<close>

definition g723_len :: "u8 \<Rightarrow> int" where
  "g723_len buf =
     (let ty = buf AND 3 in
      if ty = 3 then 0 else if ty = 2 then 4 else if ty = 0 then 24 else if ty = 1 then 20 else - 1)"

function g723_loop :: "u8 list \<Rightarrow> nat \<Rightarrow> int \<Rightarrow> int" where
  "g723_loop data pos smp =
     (if pos < length data
      then let res = g723_len (data ! pos) in
           if res \<le> 0 then smp else g723_loop data (pos + nat res) (smp + 240)
      else smp)"
  by auto
termination
  by (relation "measure (\<lambda>(data, pos, smp). length data - pos)") auto

declare g723_loop.simps [simp del]

definition g723_samples :: "u8 list \<Rightarrow> int" where "g723_samples data = g723_loop data 0 0"

section \<open>Speex\<close>

definition get_byte :: "u8 list \<Rightarrow> int \<Rightarrow> u8 option" where
  "get_byte data i = (if 0 \<le> i \<and> i < int (length data) then Some (data ! nat i) else None)"

definition get_n_bits_at :: "u8 list \<Rightarrow> int \<Rightarrow> int \<Rightarrow> u8 option" where
  "get_n_bits_at data n pos =
     (let byte = pos div 8; rem = 8 - pos mod 8 in
      if n \<le> 0 \<or> 8 < n then Some 0
      else do {
        a \<leftarrow> get_byte data byte;
        ret \<leftarrow> (if rem < n
               then do {
                 b \<leftarrow> get_byte data (byte + 1);
                 Some (push_bit (nat (n - rem)) a OR drop_bit (nat (8 - n + rem)) b)
               }
               else Some (drop_bit (nat (rem - n)) a));
        Some (ret AND drop_bit (nat (8 - n)) 0xFF)
      })"

definition SpeexWBSubModeSz :: "nat list" where "SpeexWBSubModeSz = [4, 36, 112, 192, 352, 0, 0, 0]"

definition SpeexSubModeSz :: "nat list" where
  "SpeexSubModeSz = [5, 43, 119, 160, 220, 300, 364, 492, 79, 0, 0, 0, 0, 0, 0, 0]"

definition SpeexInBandSz :: "nat list" where
  "SpeexInBandSz = [1, 1, 4, 4, 4, 4, 4, 4, 8, 8, 16, 16, 32, 32, 64, 64]"

text \<open>Whether a wide-band frame begins at a bit, and the bits behind it.\<close>

definition wb_frame :: "u8 list \<Rightarrow> int \<Rightarrow> bool option" where
  "wb_frame data off =
     (if 5 \<le> int (length data) * 8 - off then map_option (\<lambda>b. b \<noteq> 0) (get_n_bits_at data 1 off) else Some False)"

definition wb_skip :: "u8 list \<Rightarrow> int \<Rightarrow> int option" where
  "wb_skip data off = map_option (\<lambda>c. off + int (SpeexWBSubModeSz ! unat c)) (get_n_bits_at data 3 (off + 1))"

definition speex_get_wb_sz_at :: "u8 list \<Rightarrow> int \<Rightarrow> int option" where
  "speex_get_wb_sz_at data pos = do {
     w1 \<leftarrow> wb_frame data pos;
     if \<not> w1 then Some 0
     else do {
       off \<leftarrow> wb_skip data pos;
       w2 \<leftarrow> wb_frame data off;
       if \<not> w2 then Some (off - pos)
       else do {
         off \<leftarrow> wb_skip data off;
         w3 \<leftarrow> wb_frame data off;
         if w3 then Some (- 1) else Some (off - pos)
       }
     }
   }"

lemma submode_size: "\<not> 8 < c \<Longrightarrow> 5 \<le> SpeexSubModeSz ! unat (c :: u8)"
proof -
  assume "\<not> 8 < c"
  then have "unat c \<le> 8" by (simp add: word_le_nat_alt not_less)
  then have "unat c \<in> {0, 1, 2, 3, 4, 5, 6, 7, 8}" by auto
  then show ?thesis by (auto simp: SpeexSubModeSz_def)
qed

text \<open>The loop: \<open>pos\<close> is the bit where the next frame begins, \<open>cnt\<close> the samples so far.\<close>

function speex_loop :: "u8 list \<Rightarrow> int \<Rightarrow> int \<Rightarrow> int option" where
  "speex_loop data pos cnt =
     (if int (length data) * 8 - pos < 5 then Some cnt
      else case speex_get_wb_sz_at data pos of
             None \<Rightarrow> None
           | Some off \<Rightarrow>
               if off < 0 then Some cnt
               else if int (length data) * 8 - (pos + off) < 5 then Some cnt
               else case get_n_bits_at data 5 (pos + off) of
                      None \<Rightarrow> None
                    | Some c \<Rightarrow>
                        let p = pos + off + 5 in
                        if c = 15 then Some cnt
                        else if c = 14
                        then (case get_n_bits_at data 4 p of
                                None \<Rightarrow> None
                              | Some c \<Rightarrow> speex_loop data (p + 4 + int (SpeexInBandSz ! unat c)) cnt)
                        else if c = 13
                        then (case get_n_bits_at data 4 p of
                                None \<Rightarrow> None
                              | Some c \<Rightarrow> speex_loop data (p + 4 + (5 + int (unat c) * 8)) cnt)
                        else if 8 < c then Some cnt
                        else speex_loop data (p + (int (SpeexSubModeSz ! unat c) - 5)) (cnt + 160))"
  by pat_completeness auto
termination
proof (relation "measure (\<lambda>(data, pos, cnt). nat (int (length data) * 8 - pos))", goal_cases)
  case (3 data pos cnt off c p d)
  then show ?case by simp (use uint_ge_0 [of d] in linarith)
next
  case (4 data pos cnt off c p)
  then show ?case using submode_size [of c] by simp
qed simp_all

declare speex_loop.simps [simp del]

definition speex_samples :: "u8 list \<Rightarrow> int option" where "speex_samples data = speex_loop data 0 0"

section \<open>Samples and lengths\<close>

text \<open>\<open>fl_mul n a b\<close> and \<open>fl_div n a b\<close> are the C values of \<open>(int) (n * ((float) a / b))\<close> and
  \<open>(int) (n / ((float) a / b))\<close>.\<close>

definition tris_codec_get_samples :: "(int \<Rightarrow> int \<Rightarrow> int \<Rightarrow> int) \<Rightarrow> u32 \<Rightarrow> u8 list \<Rightarrow> int option" where
  "tris_codec_get_samples fl_mul format data =
     (let datalen = int (length data) in
      if format = TRIS_FORMAT_SPEEX then speex_samples data
      else if format = TRIS_FORMAT_SPEEX16 then map_option (\<lambda>n. 2 * n) (speex_samples data)
      else if format = TRIS_FORMAT_G723_1 then Some (g723_samples data)
      else if format = TRIS_FORMAT_ILBC then Some (240 * (datalen div 50))
      else if format = TRIS_FORMAT_GSM then Some (160 * (datalen div 33))
      else if format = TRIS_FORMAT_G729A then Some (datalen * 8)
      else if format = TRIS_FORMAT_SLINEAR \<or> format = TRIS_FORMAT_SLINEAR16 then Some (datalen div 2)
      else if format = TRIS_FORMAT_LPC10
      then map_option (\<lambda>b. 22 * 8 + (if bit b 0 then 8 else 0)) (get_byte data 7)
      else if format = TRIS_FORMAT_ULAW \<or> format = TRIS_FORMAT_ALAW then Some datalen
      else if format = TRIS_FORMAT_G722 \<or> format = TRIS_FORMAT_ADPCM \<or> format = TRIS_FORMAT_G726 \<or>
              format = TRIS_FORMAT_G726_AAL2 then Some (datalen * 2)
      else if format = TRIS_FORMAT_SIREN7 then Some (datalen * (16000 div 4000))
      else if format = TRIS_FORMAT_SIREN14 then Some (fl_mul datalen 32000 6000)
      else Some 0)"

definition tris_codec_get_len :: "(int \<Rightarrow> int \<Rightarrow> int \<Rightarrow> int) \<Rightarrow> u32 \<Rightarrow> int \<Rightarrow> int" where
  "tris_codec_get_len fl_div format smp =
     (if format = TRIS_FORMAT_G723_1 then cdiv smp 240 * 20
      else if format = TRIS_FORMAT_ILBC then cdiv smp 240 * 50
      else if format = TRIS_FORMAT_GSM then cdiv smp 160 * 33
      else if format = TRIS_FORMAT_G729A then cdiv smp 8
      else if format = TRIS_FORMAT_SLINEAR \<or> format = TRIS_FORMAT_SLINEAR16 then smp * 2
      else if format = TRIS_FORMAT_ULAW \<or> format = TRIS_FORMAT_ALAW then smp
      else if format = TRIS_FORMAT_G722 \<or> format = TRIS_FORMAT_ADPCM \<or> format = TRIS_FORMAT_G726 \<or>
              format = TRIS_FORMAT_G726_AAL2 then cdiv smp 2
      else if format = TRIS_FORMAT_SIREN7 then cdiv smp (16000 div 4000)
      else if format = TRIS_FORMAT_SIREN14 then fl_div smp 32000 6000
      else 0)"

section \<open>Linear samples\<close>

definition saturate :: "int \<Rightarrow> 16 word" where
  "saturate res = (if 32767 < res then 32767 else if res < - 32767 then word_of_int (- 32767) else word_of_int res)"

definition tris_slinear_saturated_add :: "16 word \<Rightarrow> 16 word \<Rightarrow> 16 word" where
  "tris_slinear_saturated_add a b = saturate (sint a + sint b)"

definition tris_slinear_saturated_subtract :: "16 word \<Rightarrow> 16 word \<Rightarrow> 16 word" where
  "tris_slinear_saturated_subtract a b = saturate (sint a - sint b)"

definition tris_slinear_saturated_multiply :: "16 word \<Rightarrow> 16 word \<Rightarrow> 16 word" where
  "tris_slinear_saturated_multiply a b = saturate (sint a * sint b)"

text \<open>\<open>None\<close> for a division by zero.\<close>

definition tris_slinear_saturated_divide :: "16 word \<Rightarrow> 16 word \<Rightarrow> 16 word option" where
  "tris_slinear_saturated_divide a b = (if b = 0 then None else Some (word_of_int (cdiv (sint a) (sint b))))"

text \<open>A frame: whether it is voice, its format and its samples, as many as its field \<open>samples\<close> says.\<close>

record slin_frame =
  voice :: bool
  sl_format :: u32
  shorts :: "16 word list"

primrec map_samples :: "('a \<Rightarrow> 'b option) \<Rightarrow> 'a list \<Rightarrow> 'b list option" where
  "map_samples f [] = Some []"
| "map_samples f (x # xs) = do { y \<leftarrow> f x; ys \<leftarrow> map_samples f xs; Some (y # ys) }"

definition tris_frame_adjust_volume :: "slin_frame \<Rightarrow> int \<Rightarrow> (int \<times> slin_frame) option" where
  "tris_frame_adjust_volume f adjustment =
     (let adjust_value = (word_of_int \<bar>adjustment\<bar> :: 16 word) in
      if \<not> voice f \<or> sl_format f \<noteq> TRIS_FORMAT_SLINEAR then Some (- 1, f)
      else if adjustment = 0 then Some (0, f)
      else map_option (\<lambda>d. (0, f\<lparr>shorts := d\<rparr>))
             (map_samples (\<lambda>x. if 0 < adjustment then Some (tris_slinear_saturated_multiply x adjust_value)
                               else tris_slinear_saturated_divide x adjust_value) (shorts f)))"

definition tris_frame_slinear_sum :: "slin_frame \<Rightarrow> slin_frame \<Rightarrow> int \<times> slin_frame" where
  "tris_frame_slinear_sum f1 f2 =
     (if \<not> voice f1 \<or> sl_format f1 \<noteq> TRIS_FORMAT_SLINEAR then (- 1, f1)
      else if \<not> voice f2 \<or> sl_format f2 \<noteq> TRIS_FORMAT_SLINEAR then (- 1, f1)
      else if length (shorts f1) \<noteq> length (shorts f2) then (- 1, f1)
      else (0, f1\<lparr>shorts := map2 tris_slinear_saturated_add (shorts f1) (shorts f2)\<rparr>))"

section \<open>Properties\<close>

lemma sint_saturate: "sint (saturate res) = max (- 32767) (min 32767 res)"
proof -
  have "sint (word_of_int i :: 16 word) = i" if "- 32768 \<le> i" "i < 32768" for i
    using that by (simp add: sint_sbintrunc' signed_take_bit_int_eq_self)
  then show ?thesis by (auto simp: saturate_def max_def min_def)
qed

text \<open>The frames of the formats of constant rate: samples per smallest frame.\<close>

definition frame_samples :: "(u32 \<times> int) list" where
  "frame_samples =
     [(TRIS_FORMAT_ILBC, 240), (TRIS_FORMAT_GSM, 160), (TRIS_FORMAT_G729A, 8), (TRIS_FORMAT_SLINEAR, 1),
      (TRIS_FORMAT_SLINEAR16, 1), (TRIS_FORMAT_ULAW, 1), (TRIS_FORMAT_ALAW, 1), (TRIS_FORMAT_G722, 2),
      (TRIS_FORMAT_ADPCM, 2), (TRIS_FORMAT_G726, 2), (TRIS_FORMAT_G726_AAL2, 2), (TRIS_FORMAT_SIREN7, 4)]"

text \<open>For the formats of constant rate the two conversions agree: data of the length computed for a
  number of samples, which is a whole number of frames, is taken for that number of samples.\<close>

theorem samples_of_len:
  assumes "(format, k) \<in> set frame_samples" "0 \<le> n" "k dvd n"
    and "int (length data) = tris_codec_get_len fl_div format n"
  shows "tris_codec_get_samples fl_mul format data = Some n"
proof -
  obtain m where n: "n = k * m" using assms(3) by blast
  have k: "0 < k" using assms(1) by (auto simp: frame_samples_def)
  have m: "0 \<le> m" using assms(2) n k by (simp add: zero_le_mult_iff)
  show ?thesis
    using assms(1,4) m n unfolding frame_samples_def
    by (auto simp: tris_codec_get_samples_def tris_codec_get_len_def format_consts Let_def)
qed

theorem samples_of_len_witness:
  "tris_codec_get_samples (\<lambda>_ _ _. 0) TRIS_FORMAT_GSM (replicate 66 0) = Some 320"
  by (rule samples_of_len [of _ 160 _ _ "\<lambda>_ _ _. 0"])
    (simp_all add: frame_samples_def tris_codec_get_len_def format_consts)

text \<open>Two frames whose last field of control bits reaches beyond the data: an in-band Speex signal in the last
  bits, and an LPC10 frame, of 7 bytes by the table.\<close>

lemma speex_reads_beyond: "speex_samples [0x70] = None"
  by (simp add: speex_samples_def speex_loop.simps [of "[0x70]"] speex_get_wb_sz_at_def wb_frame_def
      get_n_bits_at_def get_byte_def)

lemma lpc10_reads_beyond: "length data = 7 \<Longrightarrow> tris_codec_get_samples fl_mul TRIS_FORMAT_LPC10 data = None"
  by (simp add: tris_codec_get_samples_def format_consts get_byte_def)

end
