(* ===== verification/Acl.thy ===== *)
theory Acl
  imports CString
begin

text \<open>
  Host access lists, \<open>main/acl.c\<close>. Addresses are 32-bit words in host byte order (the code keeps
  them in network order and only uses them bitwise); a list is the linked list of rules. The C
  library's \<open>inet_aton\<close> is the parameter \<open>aton\<close>; so are the results of the name lookups and of the
  socket calls with which the server finds its own address.
\<close>

unbundle bit_operations_syntax

datatype ha_sense = TRIS_SENSE_DENY | TRIS_SENSE_ALLOW

record tris_ha =
  netaddr :: u32
  netmask :: u32
  sense :: ha_sense

text \<open>The mask after the slash: a number of bits or an address; without a slash, all bits.\<close>

definition ha_netmask :: "(string \<Rightarrow> u32 option) \<Rightarrow> string option \<Rightarrow> u32 option" where
  "ha_netmask aton nm =
     (case nm of
        None \<Rightarrow> Some 0xFFFFFFFF
      | Some nm \<Rightarrow>
          if CHR ''.'' \<notin> set nm
          then (case scan_d 30 nm of
                  Some (x, _) \<Rightarrow>
                    if 0 \<le> x \<and> x \<le> 32
                    then Some (if x = 0 then 0 else push_bit (nat (32 - x)) 0xFFFFFFFF)
                    else None
                | None \<Rightarrow> None)
          else aton nm)"

text \<open>Appending a rule: the list, and whether an error is reported. \<open>mem\<close>: the rule can be
  allocated.\<close>

definition tris_append_ha ::
  "(string \<Rightarrow> u32 option) \<Rightarrow> bool \<Rightarrow> string \<Rightarrow> string \<Rightarrow> tris_ha list \<Rightarrow> tris_ha list \<times> bool" where
  "tris_append_ha aton mem sns stuff path =
     (if \<not> mem then (path, False)
      else
        (let (tmp, nm) = (case cut_at CHR ''/'' stuff of None \<Rightarrow> (stuff, None) | Some (a, b) \<Rightarrow> (a, Some b))
         in case ha_netmask aton nm of
              None \<Rightarrow> (path, True)
            | Some m \<Rightarrow>
                (case aton tmp of
                   None \<Rightarrow> (path, True)
                 | Some a \<Rightarrow>
                     (path @ [\<lparr>netaddr = a AND m, netmask = m,
                        sense = (if strncaseeq sns ''p'' 1 then TRIS_SENSE_ALLOW else TRIS_SENSE_DENY)\<rparr>], False))))"

fun tris_apply_ha :: "tris_ha list \<Rightarrow> u32 \<Rightarrow> ha_sense" where
  "tris_apply_ha [] addr = TRIS_SENSE_ALLOW"
| "tris_apply_ha (ha # path) addr =
     (if addr AND netmask ha = netaddr ha then TRIS_SENSE_DENY else tris_apply_ha path addr)"

text \<open>Copies of rules and lists; \<open>mem\<close>: which of the allocations succeed. The copy ends where one
  fails, except at its beginning (what is copied after that is lost).\<close>

definition tris_copy_ha :: "tris_ha \<Rightarrow> tris_ha \<Rightarrow> tris_ha" where
  "tris_copy_ha from to = to\<lparr>netaddr := netaddr from, netmask := netmask from, sense := sense from\<rparr>"

definition tris_duplicate_ha :: "bool \<Rightarrow> tris_ha \<Rightarrow> tris_ha \<Rightarrow> tris_ha option" where
  "tris_duplicate_ha mem fresh original = (if mem then Some (tris_copy_ha original fresh) else None)"

fun duplicate_from :: "bool list \<Rightarrow> tris_ha \<Rightarrow> tris_ha list \<Rightarrow> tris_ha list" where
  "duplicate_from (m # mem) fresh (ha # path) =
     (case tris_duplicate_ha m fresh ha of None \<Rightarrow> [] | Some c \<Rightarrow> c # duplicate_from mem fresh path)"
| "duplicate_from _ _ _ = []"

fun tris_duplicate_ha_list :: "bool list \<Rightarrow> tris_ha \<Rightarrow> tris_ha list \<Rightarrow> tris_ha list" where
  "tris_duplicate_ha_list (m # mem) fresh (ha # path) =
     (case tris_duplicate_ha m fresh ha of
        None \<Rightarrow> tris_duplicate_ha_list mem fresh path
      | Some c \<Rightarrow> c # duplicate_from mem fresh path)"
| "tris_duplicate_ha_list _ _ _ = []"

section \<open>Our own address\<close>

text \<open>\<open>inet_ntoa\<close>: the four octets in decimal.\<close>

definition octet :: "nat \<Rightarrow> u32 \<Rightarrow> nat" where
  "octet i a = unat (drop_bit (24 - 8 * i) a AND 0xFF)"

definition dec_digit :: "nat \<Rightarrow> char" where
  "dec_digit n = char_of (48 + n)"

definition dec_octet :: "nat \<Rightarrow> string" where
  "dec_octet n =
     (if 100 \<le> n then [dec_digit (n div 100)] else []) @
     (if 10 \<le> n then [dec_digit (n div 10 mod 10)] else []) @ [dec_digit (n mod 10)]"

definition inet_ntoa :: "u32 \<Rightarrow> string" where
  "inet_ntoa a = dec_octet (octet 0 a) @ ''.'' @ dec_octet (octet 1 a) @ ''.'' @
     dec_octet (octet 2 a) @ ''.'' @ dec_octet (octet 3 a)"

text \<open>The score of an address, from its text, and the best address so far.\<close>

definition address_score :: "string \<Rightarrow> int" where
  "address_score address =
     (if address ! 0 = CHR ''0'' then -25
      else if take 3 address = ''127'' then -20
      else if take 3 address = ''10.'' then -5
      else if take 3 address = ''172'' then
        (if address ! 4 = CHR ''1'' \<and> code_of (CHR ''6'') \<le> code_of (address ! 5) \<and> address ! 6 = CHR ''.'' then -5
         else if address ! 4 = CHR ''2'' \<and> address ! 6 = CHR ''.'' then -5
         else if address ! 4 = CHR ''3'' \<and> code_of (address ! 5) \<le> code_of (CHR ''1'') then -5
         else 0)
      else if take 5 address = ''198.1'' \<and> code_of (CHR ''8'') \<le> code_of (address ! 5) \<and> address ! 6 = CHR ''.'' then -10
      else if take 7 address = ''192.168'' then -5
      else if take 7 address = ''169.254'' then -10
      else if take 8 address = ''192.0.2.'' then -15
      else 0)"

definition score_address :: "u32 \<Rightarrow> u32 \<times> int \<Rightarrow> u32 \<times> int" where
  "score_address sin best =
     (let score = address_score (inet_ntoa sin) in if snd best < score then (sin, score) else best)"

text \<open>The interfaces' IPv4 addresses (\<open>None\<close>: an interface with another kind of address), until one
  is public.\<close>

fun best_interface :: "u32 option list \<Rightarrow> int \<times> u32 \<times> int \<Rightarrow> int \<times> u32 \<times> int" where
  "best_interface [] st = st"
| "best_interface (None # ifs) st = best_interface ifs st"
| "best_interface (Some sin # ifs) (res, best) =
     (let best = score_address sin best
      in if snd best = 0 then (0, best) else best_interface ifs (0, best))"

text \<open>\<open>getifaddrs\<close>: what the call returns (\<open>None\<close>: an error); \<open>s\<close>: the socket. The result is the
  return value and our address.\<close>

definition get_local_address :: "u32 option list option \<Rightarrow> int \<Rightarrow> u32 \<Rightarrow> int \<times> u32" where
  "get_local_address getifaddrs s ourip =
     (case getifaddrs of
        None \<Rightarrow> (-1, ourip)
      | Some ifs \<Rightarrow>
          (let (res, best, _) = (if 0 < s then best_interface ifs (-1, 0, -100) else (-1, 0, -100))
           in (res, if res = 0 then best else ourip)))"

text \<open>\<open>host\<close>: the lookup of the host name; \<open>route\<close>: our address on the way to a root server.\<close>

definition tris_find_ourip ::
  "u32 option \<Rightarrow> u32 option \<Rightarrow> u32 option list option \<Rightarrow> int \<Rightarrow> u32 \<Rightarrow> u32 \<Rightarrow> int \<times> u32" where
  "tris_find_ourip host route getifaddrs s bindaddr ourip =
     (if bindaddr \<noteq> 0 then (0, bindaddr)
      else case host of
        Some h \<Rightarrow> (0, h)
      | None \<Rightarrow> (case route of Some us \<Rightarrow> (0, us) | None \<Rightarrow> get_local_address getifaddrs s ourip))"

section \<open>Type and class of service\<close>

definition dscp_pool1 :: "(string \<times> u32) list" where
  "dscp_pool1 =
     [(''CS0'', 0x00), (''CS1'', 0x08), (''CS2'', 0x10), (''CS3'', 0x18), (''CS4'', 0x20), (''CS5'', 0x28),
      (''CS6'', 0x30), (''CS7'', 0x38), (''AF11'', 0x0A), (''AF12'', 0x0C), (''AF13'', 0x0E),
      (''AF21'', 0x12), (''AF22'', 0x14), (''AF23'', 0x16), (''AF31'', 0x1A), (''AF32'', 0x1C),
      (''AF33'', 0x1E), (''AF41'', 0x22), (''AF42'', 0x24), (''AF43'', 0x26), (''EF'', 0x2E)]"

text \<open>The class of service (an unsigned number), and nothing when the text is not accepted.\<close>

definition tris_str2cos :: "string \<Rightarrow> u32 option" where
  "tris_str2cos value =
     (case scan_d 30 value of
        Some (fval, _) \<Rightarrow> if fval < 8 then Some (word_of_int fval) else None
      | None \<Rightarrow> None)"

definition tris_str2tos :: "string \<Rightarrow> u32 option" where
  "tris_str2tos value =
     (case scan_i 30 value of
        Some (fval, _) \<Rightarrow> Some (word_of_int fval AND 0xFF)
      | None \<Rightarrow> map_option (\<lambda>(_, space). push_bit 2 space) (find (\<lambda>(name, _). strcaseeq value name) dscp_pool1))"

definition tris_tos2str :: "u32 \<Rightarrow> string" where
  "tris_tos2str tos =
     (case find (\<lambda>(_, space). space = drop_bit 2 tos) dscp_pool1 of
        Some (name, _) \<Rightarrow> name
      | None \<Rightarrow> ''unknown'')"

section \<open>Meaning of a list\<close>

definition ha_matches :: "u32 \<Rightarrow> tris_ha \<Rightarrow> bool" where
  "ha_matches addr ha \<longleftrightarrow> addr AND netmask ha = netaddr ha"

lemma apply_ha_any: "tris_apply_ha path addr = TRIS_SENSE_DENY \<longleftrightarrow> (\<exists>ha \<in> set path. ha_matches addr ha)"
  by (induction path) (auto simp: ha_matches_def)

lemma prefix_mask_bits:
  assumes "x \<le> 32"
  shows "(a :: u32) AND push_bit (32 - x) 0xFFFFFFFF = b AND push_bit (32 - x) 0xFFFFFFFF \<longleftrightarrow>
    (\<forall>i < 32. 32 - x \<le> i \<longrightarrow> bit a i = bit b i)"
proof -
  have m: "(0xFFFFFFFF :: u32) = mask 32" by (simp add: mask_eq_exp_minus_1)
  show ?thesis unfolding m by (auto simp: bit_eq_iff bit_simps bit_mask_iff)
qed

section \<open>Scores by address range\<close>

text \<open>The ranges the comments name, on the octets, with \<open>172.3.*.*\<close> counted as private as the code does.\<close>

definition range_score :: "nat \<Rightarrow> nat \<Rightarrow> nat \<Rightarrow> int" where
  "range_score a b c =
     (if a = 0 then -25 else if a = 127 then -20
      else if a = 10 \<or> a = 172 \<and> (16 \<le> b \<and> b \<le> 31 \<or> b = 3) \<or> a = 192 \<and> b = 168 then -5
      else if a = 198 \<and> 18 \<le> b \<and> b \<le> 19 \<or> a = 169 \<and> b = 254 then -10
      else if a = 192 \<and> b = 0 \<and> c = 2 then -15 else 0)"

lemma code_of_dec_digit: "n < 10 \<Longrightarrow> code_of (dec_digit n) = 48 + n"
  by (simp add: code_of_def dec_digit_def)

lemma dec_digit_iff: "n < 10 \<Longrightarrow> dec_digit n = c \<longleftrightarrow> code_of c = 48 + n"
  by (metis code_of_dec_digit code_of_def of_char_eq_iff)

lemma code_of_chars:
  "code_of (CHR ''.'') = 46" "code_of (CHR ''0'') = 48" "code_of (CHR ''1'') = 49" "code_of (CHR ''2'') = 50"
  "code_of (CHR ''3'') = 51" "code_of (CHR ''4'') = 52" "code_of (CHR ''5'') = 53" "code_of (CHR ''6'') = 54"
  "code_of (CHR ''7'') = 55" "code_of (CHR ''8'') = 56" "code_of (CHR ''9'') = 57"
  by (simp_all add: code_of_def)

lemma octet_cases:
  assumes "n < 256"
  obtains (one) x where "x < 10" "n = x" "dec_octet n = [dec_digit x]"
    | (two) x y where "0 < x" "x < 10" "y < 10" "n = 10 * x + y" "dec_octet n = [dec_digit x, dec_digit y]"
    | (three) x y z where "0 < x" "x < 3" "y < 10" "z < 10" "n = 100 * x + 10 * y + z"
        "dec_octet n = [dec_digit x, dec_digit y, dec_digit z]"
proof -
  consider "n < 10" | "10 \<le> n" "n < 100" | "100 \<le> n" by linarith
  then show ?thesis
  proof cases
    case 1 then show ?thesis by (intro one [of n]) (auto simp: dec_octet_def)
  next
    case 2 then show ?thesis by (intro two [of "n div 10" "n mod 10"]) (auto simp: dec_octet_def)
  next
    case 3
    have e: "n = 100 * (n div 100) + 10 * (n div 10 mod 10) + n mod 10"
    proof -
      have "n = 10 * (n div 10) + n mod 10" "n div 10 = 10 * (n div 10 div 10) + n div 10 mod 10" by simp_all
      moreover have "n div 10 div 10 = n div 100" by (simp add: div_mult2_eq [symmetric])
      ultimately show ?thesis by linarith
    qed
    show ?thesis
      by (rule three [of "n div 100" "n div 10 mod 10" "n mod 10"]) (use 3 assms e in \<open>auto simp: dec_octet_def\<close>)
  qed
qed

lemmas octet_eqs = dec_digit_iff code_of_dec_digit code_of_chars

lemma digits_eq2: "y < 10 \<Longrightarrow> 10 * x + y = n \<longleftrightarrow> x = n div 10 \<and> y = n mod (10 :: nat)"
  by auto

lemma digits_eq3:
  assumes "y < 10" "z < 10"
  shows "100 * x + 10 * y + z = n \<longleftrightarrow> x = n div 100 \<and> y = n div 10 mod 10 \<and> z = n mod (10 :: nat)"
proof -
  have "100 * x + 10 * y + z = 10 * (10 * x + y) + z" by simp
  then have "100 * x + 10 * y + z = n \<longleftrightarrow> x = n div 10 div 10 \<and> y = n div 10 mod 10 \<and> z = n mod 10"
    using digits_eq2 [OF assms(2), of "10 * x + y" n] digits_eq2 [OF assms(1), of x "n div 10"] by auto
  then show ?thesis by (simp add: div_mult2_eq [symmetric])
qed

lemmas octet_simps = octet_eqs digits_eq2 digits_eq3

lemma score_prefix3:
  assumes "a < 256"
  shows "(dec_octet a @ CHR ''.'' # r) ! 0 = CHR ''0'' \<longleftrightarrow> a = 0"
    and "take 3 (dec_octet a @ CHR ''.'' # r) = ''127'' \<longleftrightarrow> a = 127"
    and "take 3 (dec_octet a @ CHR ''.'' # r) = ''10.'' \<longleftrightarrow> a = 10"
    and "take 3 (dec_octet a @ CHR ''.'' # r) = ''172'' \<longleftrightarrow> a = 172"
    and "take 3 (dec_octet a @ CHR ''.'' # r) = ''198'' \<longleftrightarrow> a = 198"
    and "take 3 (dec_octet a @ CHR ''.'' # r) = ''192'' \<longleftrightarrow> a = 192"
    and "take 3 (dec_octet a @ CHR ''.'' # r) = ''169'' \<longleftrightarrow> a = 169"
  by (rule octet_cases [OF assms]; auto simp: octet_simps)+

lemma digit_ranges:
  assumes "0 < x" "y < (10 :: nat)"
  shows "x = Suc 0 \<and> 6 \<le> y \<longleftrightarrow> 16 \<le> 10 * x + y \<and> 10 * x + y \<le> 19"
    and "x = Suc 0 \<and> 8 \<le> y \<longleftrightarrow> 18 \<le> 10 * x + y \<and> 10 * x + y \<le> 19"
  using assms by (cases "x = 1"; cases "x = 2"; force)+

lemma digit_range_2: "y < 10 \<Longrightarrow> x = 2 \<longleftrightarrow> 20 \<le> 10 * x + y \<and> 10 * x + y \<le> (29 :: nat)"
  by (cases "x = 2"; force)

lemma score_second:
  fixes r :: string
  assumes "b < 256" and r: "r ! 0 \<noteq> CHR ''.''"
  defines "s \<equiv> dec_octet b @ CHR ''.'' # r"
  shows "s ! 0 = CHR ''1'' \<and> 54 \<le> code_of (s ! 1) \<and> s ! 2 = CHR ''.'' \<longleftrightarrow> 16 \<le> b \<and> b \<le> 19"
    and "s ! 0 = CHR ''2'' \<and> s ! 2 = CHR ''.'' \<longleftrightarrow> 20 \<le> b \<and> b \<le> 29"
    and "s ! 0 = CHR ''3'' \<and> code_of (s ! 1) \<le> 49 \<longleftrightarrow> b = 3 \<or> b = 30 \<or> b = 31"
    and "s ! 0 = CHR ''1'' \<and> 56 \<le> code_of (s ! 1) \<and> s ! 2 = CHR ''.'' \<longleftrightarrow> 18 \<le> b \<and> b \<le> 19"
    and "take 3 s = ''168'' \<longleftrightarrow> b = 168" and "take 3 s = ''254'' \<longleftrightarrow> b = 254"
    and "take 2 s = ''0.'' \<longleftrightarrow> b = 0"
proof -
  show "s ! 0 = CHR ''1'' \<and> 54 \<le> code_of (s ! 1) \<and> s ! 2 = CHR ''.'' \<longleftrightarrow> 16 \<le> b \<and> b \<le> 19"
    unfolding s_def by (rule octet_cases [OF assms(1)]; simp add: octet_simps digit_ranges)
  show "s ! 0 = CHR ''2'' \<and> s ! 2 = CHR ''.'' \<longleftrightarrow> 20 \<le> b \<and> b \<le> 29"
    unfolding s_def by (rule octet_cases [OF assms(1)]) (use r in \<open>simp_all add: octet_simps digit_range_2 [symmetric]\<close>)
  show "s ! 0 = CHR ''3'' \<and> code_of (s ! 1) \<le> 49 \<longleftrightarrow> b = 3 \<or> b = 30 \<or> b = 31"
    unfolding s_def by (rule octet_cases [OF assms(1)]; simp add: octet_simps; presburger?)
  show "s ! 0 = CHR ''1'' \<and> 56 \<le> code_of (s ! 1) \<and> s ! 2 = CHR ''.'' \<longleftrightarrow> 18 \<le> b \<and> b \<le> 19"
    unfolding s_def by (rule octet_cases [OF assms(1)]; simp add: octet_simps digit_ranges)
qed (unfold s_def, (rule octet_cases [OF assms(1)]; auto simp: octet_simps)+)

lemma take2_dot: "c < 256 \<Longrightarrow> take 2 (dec_octet c @ CHR ''.'' # r) = ''2.'' \<longleftrightarrow> c = 2"
  by (erule octet_cases) (auto simp: octet_simps)

lemma take_prefix: "take n xs = ys \<Longrightarrow> m \<le> n \<Longrightarrow> take m xs = take m ys"
  by (metis min.absorb1 take_take)

lemma address_score_ranges:
  assumes "a < 256" "b < 256" "c < 256"
  shows "address_score (dec_octet a @ ''.'' @ dec_octet b @ ''.'' @ dec_octet c @ ''.'' @ r) = range_score a b c"
proof -
  define s where "s = dec_octet b @ CHR ''.'' # dec_octet c @ CHR ''.'' # r"
  define w where "w = dec_octet a @ CHR ''.'' # s"
  have w: "dec_octet a @ ''.'' @ dec_octet b @ ''.'' @ dec_octet c @ ''.'' @ r = w"
    by (simp add: w_def s_def)
  have dot: "(dec_octet n @ t) ! 0 \<noteq> CHR ''.''" if "n < 256" for n t
    by (rule octet_cases [OF that]) (simp_all add: octet_eqs)
  note p3 = score_prefix3 [OF assms(1), of s, folded w_def]
  note p2 = score_second [OF assms(2) dot [OF assms(3)], of "CHR ''.'' # r", folded s_def]
  have far: "a \<noteq> 198 \<Longrightarrow> take 5 w \<noteq> ''198.1''" "a \<noteq> 192 \<Longrightarrow> take 7 w \<noteq> ''192.168''"
    "a \<noteq> 169 \<Longrightarrow> take 7 w \<noteq> ''169.254''" "a \<noteq> 192 \<Longrightarrow> take 8 w \<noteq> ''192.0.2.''"
    using p3(5-7) by (auto dest: take_prefix [of _ _ _ 3])
  note code_of_chars [simp]
  consider "a \<in> {0, 127, 10}" | "a = 172" | "a = 198" | "a = 192" | "a = 169" | "a \<notin> {0, 127, 10, 172, 198, 192, 169}" by blast
  then show ?thesis
  proof cases
    case 1 then show ?thesis unfolding w address_score_def range_score_def p3 by (elim insertE) simp_all
  next
    case 2
    then have "w = CHR ''1'' # CHR ''7'' # CHR ''2'' # CHR ''.'' # s" by (simp add: w_def dec_octet_def octet_eqs)
    then show ?thesis unfolding w address_score_def range_score_def using p2(1-3) 2 by simp linarith
  next
    case 3
    then have "w = CHR ''1'' # CHR ''9'' # CHR ''8'' # CHR ''.'' # s" by (simp add: w_def dec_octet_def octet_eqs)
    moreover have "s \<noteq> []" by (simp add: s_def)
    ultimately show ?thesis unfolding w address_score_def range_score_def using p2(4) 3 far
      by (cases s) auto
  next
    case 4
    have w4: "w = CHR ''1'' # CHR ''9'' # CHR ''2'' # CHR ''.'' # s" using 4 by (simp add: w_def dec_octet_def octet_eqs)
    have "take 7 w = ''192.168'' \<longleftrightarrow> b = 168" using p2(5) by (simp add: w4 numeral_eq_Suc)
    moreover have "take 8 w = ''192.0.2.'' \<longleftrightarrow> b = 0 \<and> c = 2"
    proof (cases "b = 0")
      case True
      then have "take 8 w = ''192.0.'' @ take 2 (dec_octet c @ CHR ''.'' # r)"
        by (simp add: w4 s_def dec_octet_def octet_eqs)
      then show ?thesis using take2_dot [OF assms(3), of r] True by simp
    next
      case False
      then have "take 2 s \<noteq> ''0.''" using p2(7) by simp
      then show ?thesis using False by (auto simp: w4 dest: take_prefix [of 4 _ _ 2])
    qed
    ultimately show ?thesis unfolding w address_score_def range_score_def p3 using 4 far by simp
  next
    case 5
    have w4: "w = CHR ''1'' # CHR ''6'' # CHR ''9'' # CHR ''.'' # s" using 5 by (simp add: w_def dec_octet_def octet_eqs)
    have "take 7 w = ''169.254'' \<longleftrightarrow> b = 254" using p2(6) by (simp add: w4 numeral_eq_Suc)
    then show ?thesis unfolding w address_score_def range_score_def p3 using 5 far by simp
  next
    case 6
    then show ?thesis unfolding w address_score_def range_score_def p3 using far by simp
  qed
qed

lemma octet_lt: "octet i a < 256"
proof -
  have "drop_bit (24 - 8 * i) a AND 0xFF \<le> (0xFF :: u32)" by (rule word_and_le1)
  then show ?thesis by (simp add: octet_def word_le_nat_alt)
qed

lemma score_inet_ntoa:
  "address_score (inet_ntoa a) = range_score (octet 0 a) (octet 1 a) (octet 2 a)"
  unfolding inet_ntoa_def by (rule address_score_ranges) (simp_all add: octet_lt)

definition ip_score :: "u32 \<Rightarrow> int" where
  "ip_score a = range_score (octet 0 a) (octet 1 a) (octet 2 a)"

lemma ip_score_bounds: "-25 \<le> ip_score a" "ip_score a \<le> 0"
  by (simp_all add: ip_score_def range_score_def)

lemma score_address_ip: "score_address a (b, n) = (if n < ip_score a then (a, ip_score a) else (b, n))"
  by (simp add: score_address_def score_inet_ntoa ip_score_def Let_def)

lemma best_interface_keep:
  "best_interface ifs (res, b, n) = (res', b', n') \<Longrightarrow>
   res' = (if \<exists>a. Some a \<in> set ifs then 0 else res) \<and> n \<le> n' \<and> (b' = b \<and> n' = n \<or> Some b' \<in> set ifs \<and> n' = ip_score b') \<and>
   (n < 0 \<longrightarrow> (\<forall>a. Some a \<in> set ifs \<longrightarrow> ip_score a \<le> n'))"
proof (induction ifs arbitrary: res b n)
  case (Cons i ifs)
  show ?case
  proof (cases i)
    case None
    then show ?thesis using Cons by auto
  next
    case (Some a)
    obtain b1 n1 where st: "score_address a (b, n) = (b1, n1)" by fastforce
    have n1: "n \<le> n1" "ip_score a \<le> n1" "b1 = b \<and> n1 = n \<or> b1 = a \<and> n1 = ip_score a"
      using st by (auto simp: score_address_ip split: if_splits)
    show ?thesis
    proof (cases "n1 = 0")
      case True
      then have "res' = 0" "b' = b1" "n' = 0" using Cons.prems Some st by auto
      then show ?thesis using n1 True Some ip_score_bounds(2) by auto
    next
      case False
      then have run: "best_interface ifs (0, b1, n1) = (res', b', n')" using Cons.prems Some st by simp
      have "n < 0 \<Longrightarrow> n1 < 0" using n1(3) False ip_score_bounds(2) [of a] by auto
      then show ?thesis using Cons.IH [OF run] n1 Some by auto
    qed
  qed
qed auto


section \<open>Properties\<close>

lemma append_cidr:
  assumes "aton ip = Some a" "CHR ''/'' \<notin> set ip" "CHR ''.'' \<notin> set len"
    and "scan_d 30 len = Some (int x, rest)" "x \<le> 32"
    and "tris_append_ha aton True sns (ip @ CHR ''/'' # len) path = (path', err)"
  shows "\<not> err" "\<exists>ha. path' = path @ [ha] \<and> (sense ha = TRIS_SENSE_ALLOW \<longleftrightarrow> strncaseeq sns ''p'' 1)"
    and "tris_apply_ha path' addr = TRIS_SENSE_DENY \<longleftrightarrow>
      tris_apply_ha path addr = TRIS_SENSE_DENY \<or> (\<forall>i < 32. 32 - x \<le> i \<longrightarrow> bit addr i = bit a i)"
proof -
  have cut: "cut_at CHR ''/'' (ip @ CHR ''/'' # len) = Some (ip, len)"
    using assms(2) by (induction ip) auto
  have mask: "ha_netmask aton (Some len) = Some (push_bit (32 - x) 0xFFFFFFFF)"
    using assms(3-5) by (cases "x = 0") (auto simp: ha_netmask_def nat_diff_distrib')
  have path': "path' = path @ [\<lparr>netaddr = a AND push_bit (32 - x) 0xFFFFFFFF, netmask = push_bit (32 - x) 0xFFFFFFFF,
      sense = (if strncaseeq sns ''p'' 1 then TRIS_SENSE_ALLOW else TRIS_SENSE_DENY)\<rparr>]"
    and err: "\<not> err"
    using assms(1,6) by (simp_all add: tris_append_ha_def cut mask)
  show "\<not> err" by (rule err)
  show "\<exists>ha. path' = path @ [ha] \<and> (sense ha = TRIS_SENSE_ALLOW \<longleftrightarrow> strncaseeq sns ''p'' 1)"
    by (simp add: path')
  show "tris_apply_ha path' addr = TRIS_SENSE_DENY \<longleftrightarrow>
      tris_apply_ha path addr = TRIS_SENSE_DENY \<or> (\<forall>i < 32. 32 - x \<le> i \<longrightarrow> bit addr i = bit a i)"
    using prefix_mask_bits [OF assms(5), of addr a] by (auto simp: path' apply_ha_any ha_matches_def)
qed

text \<open>A rule matches or it does not; the sense of the rule that matches is not looked at. A permit
  rule behind a deny rule, or alone, denies what it names.\<close>

lemma permit_rule_denies:
  "tris_apply_ha [\<lparr>netaddr = 0x0A000000, netmask = 0xFF000000, sense = TRIS_SENSE_ALLOW\<rparr>] 0x0A010203 = TRIS_SENSE_DENY"
  by simp

text \<open>Lines of a configuration, each a sense and an address with a number of bits.\<close>

definition cidr_line :: "(string \<Rightarrow> u32 option) \<Rightarrow> string \<times> string \<times> string \<Rightarrow> u32 \<times> nat \<Rightarrow> bool" where
  "cidr_line aton l r =
     (case l of (sns, ip, len) \<Rightarrow> case r of (a, x) \<Rightarrow>
        aton ip = Some a \<and> CHR ''/'' \<notin> set ip \<and> CHR ''.'' \<notin> set len \<and>
        map_option fst (scan_d 30 len) = Some (int x) \<and> x \<le> 32)"

definition append_lines :: "(string \<Rightarrow> u32 option) \<Rightarrow> (string \<times> string \<times> string) list \<Rightarrow> tris_ha list \<Rightarrow> tris_ha list" where
  "append_lines aton =
     fold (\<lambda>(sns, ip, len) path. fst (tris_append_ha aton True sns (ip @ CHR ''/'' # len) path))"

definition shares_prefix :: "u32 \<Rightarrow> u32 \<times> nat \<Rightarrow> bool" where
  "shares_prefix addr r \<longleftrightarrow> (\<forall>i < 32. 32 - snd r \<le> i \<longrightarrow> bit addr i = bit (fst r) i)"

lemma append_lines_deny:
  assumes "list_all2 (cidr_line aton) lines rules"
  shows "tris_apply_ha (append_lines aton lines path) addr = TRIS_SENSE_DENY \<longleftrightarrow>
    tris_apply_ha path addr = TRIS_SENSE_DENY \<or> (\<exists>r \<in> set rules. shares_prefix addr r)"
  using assms
proof (induction arbitrary: path rule: list_all2_induct)
  case Nil
  then show ?case by (simp add: append_lines_def)
next
  case (Cons l ls r rs)
  obtain sns ip len a x where l: "l = (sns, ip, len)" "r = (a, x)" by (metis prod_cases3 surj_pair)
  obtain rest where ok: "aton ip = Some a" "CHR ''/'' \<notin> set ip" "CHR ''.'' \<notin> set len"
    "scan_d 30 len = Some (int x, rest)" "x \<le> 32"
    using Cons.hyps(1) by (auto simp: cidr_line_def l)
  obtain path' err where p: "tris_append_ha aton True sns (ip @ CHR ''/'' # len) path = (path', err)" by fastforce
  show ?case
    using Cons.IH [of path'] append_cidr(3) [OF ok p, of addr]
    by (simp add: append_lines_def l p shares_prefix_def)
qed

text \<open>Claim C32. A list of deny rules denies what it names: the list that is built from any lines
  \<open>deny = a/x\<close> with numbers of bits \<open>x\<close> up to 32 denies exactly the addresses that share the first
  \<open>x\<close> bits with the \<open>a\<close> of one of the lines, and allows all others. (Permit rules are left out:
  \<open>tris_apply_ha\<close> returns \<open>TRIS_SENSE_DENY\<close> for them too.)\<close>

theorem acl_deny_list:
  assumes "list_all2 (cidr_line aton) lines rules"
    and "list_all (\<lambda>l. \<not> strncaseeq (fst l) ''p'' 1) lines"
  shows "tris_apply_ha (append_lines aton lines []) addr =
    (if \<exists>r \<in> set rules. shares_prefix addr r then TRIS_SENSE_DENY else TRIS_SENSE_ALLOW)"
  using append_lines_deny [OF assms(1), of "[]" addr] by (metis (full_types) ha_sense.exhaust tris_apply_ha.simps(1))

theorem acl_deny_list_witness:
  "tris_apply_ha (append_lines (\<lambda>s. if s = ''10.0.0.0'' then Some 0x0A000000 else None)
     [(''deny'', ''10.0.0.0'', ''8'')] []) 0x0A010203 = TRIS_SENSE_DENY"
proof -
  let ?aton = "\<lambda>s. if s = ''10.0.0.0'' then Some (0x0A000000 :: u32) else None"
  have s: "scan_d 30 ''8'' = Some (int 8, '''')" by code_simp
  have c: "cidr_line ?aton (''deny'', ''10.0.0.0'', ''8'') (0x0A000000, 8)"
    using s by (simp add: cidr_line_def)
  have n: "\<not> strncaseeq ''deny'' ''p'' 1" by code_simp
  have i: "shares_prefix 0x0A010203 (0x0A000000, 8)"
    using prefix_mask_bits [of 8 "0x0A010203" "0x0A000000"] by (simp add: shares_prefix_def push_bit_eq_mult)
  show ?thesis
    using acl_deny_list [of ?aton "[(''deny'', ''10.0.0.0'', ''8'')]" "[(0x0A000000, 8)]" "0x0A010203"] c n i by simp
qed

text \<open>With no bind address, no host name and no route, the server's own address is that of
  an interface with the best score among the IPv4 interfaces, where the score is the one of the
  address's range (\<open>ip_score\<close>, in which \<open>172.3.*.*\<close> counts as private).\<close>

theorem find_ourip_best:
  assumes "Some a \<in> set ifs" "0 < s"
  shows "\<exists>best. tris_find_ourip None None (Some ifs) s 0 ourip = (0, best) \<and> Some best \<in> set ifs \<and>
    ip_score a \<le> ip_score best"
proof -
  obtain res b n where run: "best_interface ifs (-1, 0, -100) = (res, b, n)" using prod_cases3 by blast
  have "res = 0" "ip_score a \<le> n" "Some b \<in> set ifs" "n = ip_score b"
    using best_interface_keep [OF run] assms(1) ip_score_bounds(1) [of a] by (auto split: if_splits)
  then show ?thesis using assms(2) run by (simp add: tris_find_ourip_def get_local_address_def)
qed

theorem find_ourip_best_witness:
  "\<exists>best. tris_find_ourip None None (Some [Some 0x7F000001, None, Some 0xAC030101, Some 0x5DB8D822]) 5 0 0 = (0, best) \<and>
     ip_score 0x5DB8D822 \<le> ip_score best"
  using find_ourip_best [of "0x5DB8D822" "[Some 0x7F000001, None, Some 0xAC030101, Some 0x5DB8D822]" 5 0] by auto

text \<open>The name of a type of service that has one is read back as the same service, without
  the two bits below the DSCP code point.\<close>

theorem dscp_roundtrip:
  assumes "tris_tos2str tos \<noteq> ''unknown''"
  shows "tris_str2tos (tris_tos2str tos) = Some (tos AND NOT 3)"
proof -
  have no_letter: "scan_i 30 (c # n) = None"
    if "\<not> isspace c" "\<not> base_digit 10 c" "c \<noteq> CHR ''-''" "c \<noteq> CHR ''+''" "c \<noteq> CHR ''0''" "tolower c \<noteq> CHR ''0''" for c n
    using that by (simp add: scan_i_def Let_def numeral_eq_Suc)
  have "scan_i 30 (CHR ''A'' # n) = None" "scan_i 30 (CHR ''C'' # n) = None" "scan_i 30 (CHR ''E'' # n) = None" for n
    by (rule no_letter; code_simp)+
  then have no_scan: "\<forall>(n, _) \<in> set dscp_pool1. scan_i 30 n = None" by (simp add: dscp_pool1_def)
  have pool: "\<forall>(n, sp) \<in> set dscp_pool1. tris_str2tos n = Some (push_bit 2 sp)"
    using no_scan by (simp add: tris_str2tos_def strcaseeq_def dscp_pool1_def tolower_chars)
  obtain n sp where f: "find (\<lambda>(_, space). space = drop_bit 2 tos) dscp_pool1 = Some (n, sp)"
    using assms by (fastforce simp: tris_tos2str_def split: option.splits)
  then have "(n, sp) \<in> set dscp_pool1" "sp = drop_bit 2 tos" by (auto simp: find_Some_iff dest: nth_mem)
  then have "tris_str2tos n = Some (push_bit 2 (drop_bit 2 tos))" using pool by auto
  moreover have "push_bit 2 (drop_bit 2 tos) = tos AND NOT 3"
  proof -
    have m: "(3 :: u32) = mask 2" by (simp add: mask_eq_exp_minus_1)
    have [simp]: "Suc (Suc (n - 2)) = n" if "2 \<le> n" for n :: nat using that by simp
    show ?thesis unfolding m by (rule bit_word_eqI) (auto simp: bit_simps bit_mask_iff not_less)
  qed
  ultimately show ?thesis using f by (simp add: tris_tos2str_def)
qed

theorem dscp_roundtrip_witness:
  "tris_tos2str 0xBA = ''EF'' \<and> tris_str2tos ''EF'' = Some 0xB8"
proof -
  have "tris_tos2str 0xBA = ''EF''" by code_simp
  moreover have "(0xBA :: u32) AND NOT 3 = 0xB8" by simp
  ultimately show ?thesis using dscp_roundtrip [of "0xBA"] by simp
qed


end
