(* ===== verification/Bytes.thy ===== *)
theory Bytes
  imports Prelude
begin

text \<open>
  Blocks of bytes, which the components that write wire formats share: numbers in network order, and
  reading numbers and strings at an offset. \<open>None\<close> is an access outside the block.
\<close>

unbundle bit_operations_syntax

type_synonym bytes = "u8 list"

definition be16 :: "u16 \<Rightarrow> bytes" where
  "be16 w = [ucast (drop_bit 8 w), ucast w]"

definition be32 :: "u32 \<Rightarrow> bytes" where
  "be32 w = [ucast (drop_bit 24 w), ucast (drop_bit 16 w), ucast (drop_bit 8 w), ucast w]"

definition host32 :: "u32 \<Rightarrow> bytes" where
  "host32 w = rev (be32 w)"

definition read_bytes :: "bytes \<Rightarrow> nat \<Rightarrow> nat \<Rightarrow> bytes option" where
  "read_bytes ev off n = (if off + n \<le> length ev then Some (take n (drop off ev)) else None)"

definition of_be16 :: "bytes \<Rightarrow> u16" where
  "of_be16 bs = push_bit 8 (ucast (bs ! 0)) OR ucast (bs ! 1)"

definition of_be32 :: "bytes \<Rightarrow> u32" where
  "of_be32 bs = push_bit 24 (ucast (bs ! 0)) OR push_bit 16 (ucast (bs ! 1)) OR push_bit 8 (ucast (bs ! 2)) OR ucast (bs ! 3)"

definition read16 :: "bytes \<Rightarrow> nat \<Rightarrow> u16 option" where
  "read16 ev off = map_option of_be16 (read_bytes ev off 2)"

definition read32 :: "bytes \<Rightarrow> nat \<Rightarrow> u32 option" where
  "read32 ev off = map_option of_be32 (read_bytes ev off 4)"

definition read_host32 :: "bytes \<Rightarrow> nat \<Rightarrow> u32 option" where
  "read_host32 ev off = map_option (of_be32 \<circ> rev) (read_bytes ev off 4)"

text \<open>A C string at an offset of the block: \<open>None\<close> without a terminating zero in it.\<close>

definition read_str :: "bytes \<Rightarrow> nat \<Rightarrow> bytes option" where
  "read_str ev off =
     (if 0 \<in> set (drop off ev) then Some (takeWhile (\<lambda>b. b \<noteq> 0) (drop off ev)) else None)"

lemma of_be16_be16 [simp]: "of_be16 (be16 w) = w"
  unfolding of_be16_def be16_def by (rule bit_word_eqI) (auto simp: bit_simps)

lemma of_be32_be32 [simp]: "of_be32 (be32 w) = w"
proof (rule bit_word_eqI)
  fix n assume "n < LENGTH(32)"
  then show "bit (of_be32 (be32 w)) n = bit w n"
    unfolding of_be32_def be32_def
    by (cases "n < 8"; cases "n < 16"; cases "n < 24") (auto simp: bit_simps)
qed

lemma length_be [simp]: "length (be16 w) = 2" "length (be32 v) = 4" "length (host32 v) = 4"
  by (simp_all add: be16_def be32_def host32_def)

lemma of_be32_host32 [simp]: "of_be32 (rev (host32 v)) = v"
  by (simp add: host32_def)

lemma read_bytes_at: "off = length pre \<Longrightarrow> n = length d \<Longrightarrow> read_bytes (pre @ d @ post) off n = Some d"
  by (simp add: read_bytes_def)

lemma read16_at: "off = length pre \<Longrightarrow> read16 (pre @ be16 w @ post) off = Some w"
  by (simp add: read16_def read_bytes_at)

lemma be32_of_be32: "length d = 4 \<Longrightarrow> be32 (of_be32 d) = d"
proof -
  assume "length d = 4"
  then obtain a b c e where d: "d = [a, b, c, e]" by (auto simp: length_Suc_conv numeral_eq_Suc)
  show ?thesis unfolding d be32_def of_be32_def by (simp; intro conjI bit_word_eqI) (auto simp: bit_simps dest: bit_imp_le_length)
qed

end
