(* ===== verification/Event.thy ===== *)
theory Event
  imports Bytes "HOL-Library.Monad_Syntax"
begin

text \<open>
  Events, \<open>main/event.c\<close>: the byte format of events and their information elements, subscriptions,
  matching and delivery.

  An event is the list of the bytes of its block. The result \<open>None\<close> of a function that reads an event
  stands for an access outside the block; a null pointer is an inner \<open>None\<close>. Strings are lists of
  bytes without the terminating NUL, and \<open>char\<close> is signed. The host is little-endian, which shows
  only in the stored hash value. Locks are left out.
\<close>

unbundle bit_operations_syntax

section \<open>Constants\<close>

definition TRIS_EVENT_ALL :: u16 where "TRIS_EVENT_ALL = 0"
definition TRIS_EVENT_MWI :: u16 where "TRIS_EVENT_MWI = 2"
definition TRIS_EVENT_SUB :: u16 where "TRIS_EVENT_SUB = 3"
definition TRIS_EVENT_UNSUB :: u16 where "TRIS_EVENT_UNSUB = 4"
definition TRIS_EVENT_DEVICE_STATE :: u16 where "TRIS_EVENT_DEVICE_STATE = 5"
definition TRIS_EVENT_DEVICE_STATE_CHANGE :: u16 where "TRIS_EVENT_DEVICE_STATE_CHANGE = 6"
definition TRIS_EVENT_TOTAL :: u16 where "TRIS_EVENT_TOTAL = 7"

definition TRIS_EVENT_IE_NEWMSGS :: u16 where "TRIS_EVENT_IE_NEWMSGS = 1"
definition TRIS_EVENT_IE_OLDMSGS :: u16 where "TRIS_EVENT_IE_OLDMSGS = 2"
definition TRIS_EVENT_IE_MAILBOX :: u16 where "TRIS_EVENT_IE_MAILBOX = 3"
definition TRIS_EVENT_IE_UNIQUEID :: u16 where "TRIS_EVENT_IE_UNIQUEID = 4"
definition TRIS_EVENT_IE_EVENTTYPE :: u16 where "TRIS_EVENT_IE_EVENTTYPE = 5"
definition TRIS_EVENT_IE_EXISTS :: u16 where "TRIS_EVENT_IE_EXISTS = 6"
definition TRIS_EVENT_IE_DEVICE :: u16 where "TRIS_EVENT_IE_DEVICE = 7"
definition TRIS_EVENT_IE_STATE :: u16 where "TRIS_EVENT_IE_STATE = 8"
definition TRIS_EVENT_IE_CONTEXT :: u16 where "TRIS_EVENT_IE_CONTEXT = 9"
definition TRIS_EVENT_IE_EID :: u16 where "TRIS_EVENT_IE_EID = 10"
definition TRIS_EVENT_IE_MAX :: u16 where "TRIS_EVENT_IE_MAX = TRIS_EVENT_IE_EID"

lemmas event_type_defs =
  TRIS_EVENT_ALL_def TRIS_EVENT_MWI_def TRIS_EVENT_SUB_def TRIS_EVENT_UNSUB_def TRIS_EVENT_DEVICE_STATE_def
  TRIS_EVENT_DEVICE_STATE_CHANGE_def TRIS_EVENT_TOTAL_def

lemmas ie_type_defs =
  TRIS_EVENT_IE_NEWMSGS_def TRIS_EVENT_IE_OLDMSGS_def TRIS_EVENT_IE_MAILBOX_def TRIS_EVENT_IE_UNIQUEID_def
  TRIS_EVENT_IE_EVENTTYPE_def TRIS_EVENT_IE_EXISTS_def TRIS_EVENT_IE_DEVICE_def TRIS_EVENT_IE_STATE_def
  TRIS_EVENT_IE_CONTEXT_def TRIS_EVENT_IE_EID_def TRIS_EVENT_IE_MAX_def

section \<open>Hashes\<close>

text \<open>\<open>tris_str_hash\<close>, \<open>tris_str_hash_add\<close>: \<open>int\<close> wraps around, and the absolute value of the least \<open>int\<close>
  is itself.\<close>

definition hash_step :: "u32 \<Rightarrow> u8 \<Rightarrow> u32" where
  "hash_step h c = (h * 33) XOR scast c"

definition tris_str_hash_add :: "bytes \<Rightarrow> u32 \<Rightarrow> u32" where
  "tris_str_hash_add s h = (let h = foldl hash_step h s in if h <s 0 then - h else h)"

definition tris_str_hash :: "bytes \<Rightarrow> u32" where
  "tris_str_hash s = tris_str_hash_add s 5381"

section \<open>Reading an event\<close>

record event_iterator =
  it_len :: nat
  it_ie :: nat

definition tris_event_get_type :: "bytes \<Rightarrow> u16 option" where
  "tris_event_get_type ev = read16 ev 0"

definition tris_event_get_size :: "bytes \<Rightarrow> nat option" where
  "tris_event_get_size ev = map_option unat (read16 ev 2)"

definition tris_event_iterator_init :: "bytes \<Rightarrow> event_iterator option" where
  "tris_event_iterator_init ev =
     map_option (\<lambda>n. \<lparr>it_len = n, it_ie = 4\<rparr>) (tris_event_get_size ev)"

definition tris_event_iterator_next :: "bytes \<Rightarrow> event_iterator \<Rightarrow> (int \<times> event_iterator) option" where
  "tris_event_iterator_next ev it =
     do { n \<leftarrow> read16 ev (it_ie it + 2);
          let ie = it_ie it + 4 + unat n;
          Some (if it_len it \<le> ie then -1 else 0, it\<lparr>it_ie := ie\<rparr>) }"

definition tris_event_iterator_get_ie_type :: "bytes \<Rightarrow> event_iterator \<Rightarrow> u16 option" where
  "tris_event_iterator_get_ie_type ev it = read16 ev (it_ie it)"

definition tris_event_iterator_get_ie_raw :: "event_iterator \<Rightarrow> nat" where
  "tris_event_iterator_get_ie_raw it = it_ie it + 4"

definition tris_event_iterator_get_ie_uint :: "bytes \<Rightarrow> event_iterator \<Rightarrow> u32 option" where
  "tris_event_iterator_get_ie_uint ev it = read32 ev (it_ie it + 4)"

definition tris_event_iterator_get_ie_str :: "bytes \<Rightarrow> event_iterator \<Rightarrow> bytes option" where
  "tris_event_iterator_get_ie_str ev it = read_str ev (it_ie it + 8)"

lemma iterator_next_measure:
  "tris_event_iterator_next ev it = Some (0, it') \<Longrightarrow> it_len it' - it_ie it' < it_len it - it_ie it"
  by (auto simp: tris_event_iterator_next_def Let_def bind_eq_Some_conv split: if_splits)

text \<open>The loop of \<open>tris_event_get_ie_raw\<close>: the offset of the payload, if there is one.\<close>

function search_ie :: "bytes \<Rightarrow> u16 \<Rightarrow> event_iterator \<Rightarrow> nat option option" where
  "search_ie ev t it =
     (case tris_event_iterator_get_ie_type ev it of
        None \<Rightarrow> None
      | Some t' \<Rightarrow>
          if t' = t then Some (Some (tris_event_iterator_get_ie_raw it))
          else (case tris_event_iterator_next ev it of
                  None \<Rightarrow> None
                | Some (res, it') \<Rightarrow> if res = 0 then search_ie ev t it' else Some None))"
  by pat_completeness auto
termination
  by (relation "measure (\<lambda>(ev, t, it). it_len it - it_ie it)") (auto dest: iterator_next_measure)

declare search_ie.simps [simp del]

definition tris_event_get_ie_raw :: "bytes \<Rightarrow> u16 \<Rightarrow> nat option option" where
  "tris_event_get_ie_raw ev t = Option.bind (tris_event_iterator_init ev) (search_ie ev t)"

definition tris_event_get_ie_uint :: "bytes \<Rightarrow> u16 \<Rightarrow> u32 option" where
  "tris_event_get_ie_uint ev t =
     do { r \<leftarrow> tris_event_get_ie_raw ev t;
          case r of Some off \<Rightarrow> read32 ev off | None \<Rightarrow> Some 0 }"

definition tris_event_get_ie_str_hash :: "bytes \<Rightarrow> u16 \<Rightarrow> u32 option" where
  "tris_event_get_ie_str_hash ev t =
     do { r \<leftarrow> tris_event_get_ie_raw ev t;
          case r of Some off \<Rightarrow> read_host32 ev off | None \<Rightarrow> Some 0 }"

definition tris_event_get_ie_str :: "bytes \<Rightarrow> u16 \<Rightarrow> bytes option option" where
  "tris_event_get_ie_str ev t =
     do { r \<leftarrow> tris_event_get_ie_raw ev t;
          case r of Some off \<Rightarrow> map_option Some (read_str ev (off + 4)) | None \<Rightarrow> Some None }"

section \<open>Building an event\<close>

datatype ie_payload =
    PLTYPE_UNKNOWN
  | PLTYPE_EXISTS
  | PLTYPE_UINT u32
  | PLTYPE_STR bytes
  | PLTYPE_RAW bytes

record tris_event_ie_val =
  ie_type :: u16
  ie_payload :: ie_payload

text \<open>\<open>ie_maps\<close> and \<open>tris_event_get_ie_pltype\<close>: the kind of payload, with an empty value.\<close>

definition ie_maps :: "ie_payload list" where
  "ie_maps = [PLTYPE_UNKNOWN, PLTYPE_UINT 0, PLTYPE_UINT 0, PLTYPE_STR [], PLTYPE_UINT 0, PLTYPE_UINT 0,
     PLTYPE_UINT 0, PLTYPE_STR [], PLTYPE_UINT 0, PLTYPE_STR [], PLTYPE_RAW []]"

definition tris_event_get_ie_pltype :: "u16 \<Rightarrow> ie_payload" where
  "tris_event_get_ie_pltype t = (if t = 0 \<or> TRIS_EVENT_IE_MAX < t then PLTYPE_UNKNOWN else ie_maps ! unat t)"

text \<open>The result of appending is the return value and the event, which is gone when the memory cannot
  be had (\<open>mem\<close>).\<close>

definition set_event_len :: "u16 \<Rightarrow> bytes \<Rightarrow> bytes" where
  "set_event_len n ev = take 2 ev @ be16 n @ drop 4 ev"

definition tris_event_append_ie_raw :: "bool \<Rightarrow> bytes \<Rightarrow> u16 \<Rightarrow> bytes \<Rightarrow> (int \<times> bytes option) option" where
  "tris_event_append_ie_raw mem ev t data =
     do { n \<leftarrow> read16 ev 2;
          if \<not> mem then Some (-1, None)
          else if length ev < unat n then None
          else Some (0, Some (set_event_len (n + of_nat (4 + length data))
                 (take (unat n) ev @ be16 t @ be16 (of_nat (length data)) @ data))) }"

definition tris_event_append_ie_uint :: "bool \<Rightarrow> bytes \<Rightarrow> u16 \<Rightarrow> u32 \<Rightarrow> (int \<times> bytes option) option" where
  "tris_event_append_ie_uint mem ev t data = tris_event_append_ie_raw mem ev t (be32 data)"

definition tris_event_append_ie_str :: "bool \<Rightarrow> bytes \<Rightarrow> u16 \<Rightarrow> bytes \<Rightarrow> (int \<times> bytes option) option" where
  "tris_event_append_ie_str mem ev t str =
     tris_event_append_ie_raw mem ev t (host32 (tris_str_hash str) @ str @ [0])"

definition append_ie_val :: "bool \<Rightarrow> bytes \<Rightarrow> tris_event_ie_val \<Rightarrow> bytes option option" where
  "append_ie_val mem ev v =
     (case ie_payload v of
        PLTYPE_STR str \<Rightarrow> map_option snd (tris_event_append_ie_str mem ev (ie_type v) str)
      | PLTYPE_UINT n \<Rightarrow> map_option snd (tris_event_append_ie_uint mem ev (ie_type v) n)
      | PLTYPE_RAW data \<Rightarrow> map_option snd (tris_event_append_ie_raw mem ev (ie_type v) data)
      | _ \<Rightarrow> Some (Some ev))"

fun append_ie_vals :: "bool list \<Rightarrow> bytes \<Rightarrow> tris_event_ie_val list \<Rightarrow> bytes option option" where
  "append_ie_vals mem ev [] = Some (Some ev)"
| "append_ie_vals mem ev (v # vs) =
     do { r \<leftarrow> append_ie_val (hd mem) ev v;
          case r of None \<Rightarrow> Some None | Some ev \<Rightarrow> append_ie_vals (tl mem) ev vs }"

text \<open>A new event. \<open>mem\<close>: whether the block can be had, for each element whether the block can grow,
  and whether it can grow for the entity id \<open>eid\<close> of this server. \<open>beyond\<close>: the bytes behind the new
  block that can be read (the search for an entity id looks at them when there is no element). The
  result \<open>Some None\<close> is NULL.\<close>

definition tris_event_new ::
  "bool \<times> bool list \<times> bool \<Rightarrow> bytes \<Rightarrow> bytes \<Rightarrow> u16 \<Rightarrow> tris_event_ie_val list \<Rightarrow> bytes option option" where
  "tris_event_new mem beyond eid type vals =
     (if TRIS_EVENT_TOTAL \<le> type then Some None
      else if \<not> fst mem then Some None
      else
        do { r \<leftarrow> append_ie_vals (fst (snd mem)) (be16 type @ be16 4) vals;
             case r of
               None \<Rightarrow> None
             | Some ev \<Rightarrow>
                 do { e \<leftarrow> tris_event_get_ie_raw (ev @ beyond) TRIS_EVENT_IE_EID;
                      if e = None
                      then map_option snd (tris_event_append_ie_raw (snd (snd mem)) ev TRIS_EVENT_IE_EID eid)
                      else Some (Some ev) } })"

definition tris_event_dup :: "bool \<Rightarrow> bytes \<Rightarrow> bytes option option" where
  "tris_event_dup mem ev =
     do { n \<leftarrow> tris_event_get_size ev;
          if \<not> mem then Some None else map_option Some (read_bytes ev 0 n) }"

section \<open>Matching and subscriptions\<close>

text \<open>Whether an event has a value, which is that of \<open>v\<close> or of the element of \<open>ev2\<close> of the same kind.
  \<open>strcmp\<close> and \<open>memcmp\<close> of a null pointer are accesses outside of memory.\<close>

definition match_str :: "bytes \<Rightarrow> u16 \<Rightarrow> bytes option \<Rightarrow> bool option" where
  "match_str ev t str =
     (case str of
        None \<Rightarrow> Some False
      | Some s \<Rightarrow>
          do { r \<leftarrow> tris_event_get_ie_str ev t;
               case r of None \<Rightarrow> None | Some s' \<Rightarrow> Some (s = s') })"

definition memcmp_eq :: "bytes \<Rightarrow> bytes \<Rightarrow> nat option \<Rightarrow> nat \<Rightarrow> bool option" where
  "memcmp_eq buf ev off n =
     (if n = 0 then Some True
      else if length buf < n then None
      else (case off of
              None \<Rightarrow> None
            | Some off \<Rightarrow> map_option (\<lambda>b. take n buf = b) (read_bytes ev off n)))"

definition match_ie_val :: "bytes \<Rightarrow> tris_event_ie_val \<Rightarrow> bytes option \<Rightarrow> bool option" where
  "match_ie_val ev v ev2 =
     (case ie_payload v of
        PLTYPE_UINT n \<Rightarrow>
          do { n \<leftarrow> (case ev2 of Some e \<Rightarrow> tris_event_get_ie_uint e (ie_type v) | None \<Rightarrow> Some n);
               n' \<leftarrow> tris_event_get_ie_uint ev (ie_type v);
               Some (n = n') }
      | PLTYPE_STR s \<Rightarrow>
          do { hash \<leftarrow> (case ev2 of Some e \<Rightarrow> tris_event_get_ie_str_hash e (ie_type v) | None \<Rightarrow> Some (tris_str_hash s));
               hash' \<leftarrow> tris_event_get_ie_str_hash ev (ie_type v);
               if hash \<noteq> hash' then Some False
               else do { str \<leftarrow> (case ev2 of Some e \<Rightarrow> tris_event_get_ie_str e (ie_type v) | None \<Rightarrow> Some (Some s));
                         match_str ev (ie_type v) str } }
      | PLTYPE_RAW data \<Rightarrow>
          do { buf \<leftarrow> (case ev2 of
                        Some e \<Rightarrow> map_option (map_option (\<lambda>off. drop off e)) (tris_event_get_ie_raw e (ie_type v))
                      | None \<Rightarrow> Some (Some data));
               case buf of
                 None \<Rightarrow> Some False
               | Some b \<Rightarrow>
                   do { r \<leftarrow> tris_event_get_ie_raw ev (ie_type v);
                        memcmp_eq b ev r (length data) } }
      | PLTYPE_EXISTS \<Rightarrow> map_option (\<lambda>r. r \<noteq> None) (tris_event_get_ie_raw ev (ie_type v))
      | PLTYPE_UNKNOWN \<Rightarrow> Some False)"

text \<open>A list of values is matched when each is, looked at in order.\<close>

fun match_ie_vals :: "bytes \<Rightarrow> tris_event_ie_val list \<Rightarrow> bool option" where
  "match_ie_vals ev [] = Some True"
| "match_ie_vals ev (v # vs) =
     do { b \<leftarrow> match_ie_val ev v None;
          if b then match_ie_vals ev vs else Some False }"

text \<open>A subscription: \<open>cb\<close> is the callback with its data. The state: the subscriptions by event type, the
  next number, and the events queued for the dispatcher.\<close>

record 'c tris_event_sub =
  sub_type :: u16
  cb :: 'c
  uniqueid :: u32
  ie_vals :: "tris_event_ie_val list"

record 'c event_state =
  tris_event_subs :: "u16 \<Rightarrow> 'c tris_event_sub list"
  sub_uniqueid :: u32
  dispatch_queue :: "bytes list"

text \<open>Whether a subscription cares about a value. The integer read from a string is its hash (they
  share a union); other mixed kinds would compare pointers.\<close>

definition check_ie_val :: "tris_event_ie_val \<Rightarrow> tris_event_ie_val list \<Rightarrow> bool option" where
  "check_ie_val v svs =
     (case find (\<lambda>sv. ie_type sv = ie_type v) svs of
        None \<Rightarrow> Some (ie_payload v \<noteq> PLTYPE_EXISTS)
      | Some sv \<Rightarrow>
          if ie_payload sv = PLTYPE_EXISTS then Some True
          else (case (ie_payload v, ie_payload sv) of
                  (PLTYPE_UINT n, PLTYPE_UINT m) \<Rightarrow> Some (n = m)
                | (PLTYPE_UINT n, PLTYPE_STR s) \<Rightarrow> Some (n = tris_str_hash s)
                | (PLTYPE_STR s, PLTYPE_STR s') \<Rightarrow> Some (s = s')
                | (PLTYPE_RAW d, PLTYPE_RAW d') \<Rightarrow>
                    if length d \<le> length d' then Some (d = take (length d) d') else None
                | (PLTYPE_EXISTS, _) \<Rightarrow> Some True
                | (PLTYPE_UNKNOWN, _) \<Rightarrow> Some True
                | _ \<Rightarrow> None))"

fun check_ie_vals :: "tris_event_ie_val list \<Rightarrow> tris_event_ie_val list \<Rightarrow> bool option" where
  "check_ie_vals [] svs = Some True"
| "check_ie_vals (v # vs) svs = do { b \<leftarrow> check_ie_val v svs; if b then check_ie_vals vs svs else Some False }"

fun find_subscriber :: "tris_event_ie_val list \<Rightarrow> 'c tris_event_sub list \<Rightarrow> bool option" where
  "find_subscriber vs [] = Some False"
| "find_subscriber vs (sub # subs) =
     do { b \<leftarrow> check_ie_vals vs (ie_vals sub); if b then Some True else find_subscriber vs subs }"

definition tris_event_check_subscriber ::
  "'c event_state \<Rightarrow> u16 \<Rightarrow> tris_event_ie_val list \<Rightarrow> bool option" where
  "tris_event_check_subscriber st type vs =
     (if TRIS_EVENT_TOTAL \<le> type then Some False
      else do { b \<leftarrow> find_subscriber vs (tris_event_subs st type);
                if b then Some True else Some (tris_event_subs st TRIS_EVENT_ALL \<noteq> []) })"

definition uint_val :: "u16 \<Rightarrow> u32 \<Rightarrow> tris_event_ie_val" where
  "uint_val t n = \<lparr>ie_type = t, ie_payload = PLTYPE_UINT n\<rparr>"

fun append_sub_vals :: "bool list \<Rightarrow> bytes \<Rightarrow> tris_event_ie_val list \<Rightarrow> bytes option option" where
  "append_sub_vals mem ev [] = Some (Some ev)"
| "append_sub_vals mem ev (v # vs) =
     do { r \<leftarrow> (if ie_payload v = PLTYPE_EXISTS
                 then append_ie_val (hd mem) ev (uint_val TRIS_EVENT_IE_EXISTS (ucast (ie_type v)))
                 else append_ie_val (hd mem) ev v);
          case r of None \<Rightarrow> Some None | Some ev \<Rightarrow> append_sub_vals (tl mem) ev vs }"

type_synonym event_mem = "bool \<times> bool list \<times> bool"

definition gen_sub_event ::
  "event_mem \<times> bool list \<Rightarrow> bytes \<Rightarrow> 'c tris_event_sub \<Rightarrow> bytes option option" where
  "gen_sub_event mem eid sub =
     do { r \<leftarrow> tris_event_new (fst mem) [] eid TRIS_EVENT_SUB
                [uint_val TRIS_EVENT_IE_UNIQUEID (uniqueid sub), uint_val TRIS_EVENT_IE_EVENTTYPE (ucast (sub_type sub))];
          case r of None \<Rightarrow> Some None | Some ev \<Rightarrow> append_sub_vals (snd mem) ev (ie_vals sub) }"

text \<open>The calls made: each callback with its event.\<close>

fun report_each ::
  "(event_mem \<times> bool list) list \<Rightarrow> bytes \<Rightarrow> 'c tris_event_sub \<Rightarrow> 'c tris_event_sub list \<Rightarrow> ('c \<times> bytes) list option" where
  "report_each mem eid event_sub [] = Some []"
| "report_each mem eid event_sub (sub # subs) =
     (if uniqueid sub = uniqueid event_sub then report_each mem eid event_sub subs
      else do { r \<leftarrow> gen_sub_event (hd mem) eid sub;
                calls \<leftarrow> report_each (tl mem) eid event_sub subs;
                Some (case r of None \<Rightarrow> calls | Some ev \<Rightarrow> (cb event_sub, ev) # calls) })"

definition tris_event_report_subs ::
  "(event_mem \<times> bool list) list \<Rightarrow> bytes \<Rightarrow> 'c tris_event_sub \<Rightarrow> 'c event_state \<Rightarrow> ('c \<times> bytes) list option" where
  "tris_event_report_subs mem eid event_sub st =
     (if sub_type event_sub \<noteq> TRIS_EVENT_SUB then Some []
      else case find (\<lambda>v. ie_type v = TRIS_EVENT_IE_EVENTTYPE) (ie_vals event_sub) of
        None \<Rightarrow> Some []
      | Some v \<Rightarrow>
          (case ie_payload v of
             PLTYPE_UINT n \<Rightarrow>
               if n = -1 then Some []
               else if n < ucast TRIS_EVENT_TOTAL then report_each mem eid event_sub (tris_event_subs st (ucast n))
               else None
           | _ \<Rightarrow> None))"

definition tris_event_queue :: "bool \<Rightarrow> bool \<Rightarrow> bytes \<Rightarrow> 'c event_state \<Rightarrow> (int \<times> 'c event_state) option" where
  "tris_event_queue mem pushed ev st =
     do { type \<leftarrow> tris_event_get_type ev;
          if TRIS_EVENT_TOTAL \<le> type then Some (-1, st)
          else do { b \<leftarrow> tris_event_check_subscriber st type [];
                    if \<not> b then Some (0, st)
                    else if \<not> mem \<or> \<not> pushed then Some (-1, st)
                    else Some (0, st\<lparr>dispatch_queue := dispatch_queue st @ [ev]\<rparr>) } }"

definition tris_event_subscribe_new :: "bool \<Rightarrow> u16 \<Rightarrow> 'c \<Rightarrow> 'c event_state \<Rightarrow> 'c tris_event_sub option \<times> 'c event_state" where
  "tris_event_subscribe_new mem type c st =
     (if TRIS_EVENT_TOTAL \<le> type \<or> \<not> mem then (None, st)
      else (Some \<lparr>sub_type = type, cb = c, uniqueid = sub_uniqueid st, ie_vals = []\<rparr>,
            st\<lparr>sub_uniqueid := sub_uniqueid st + 1\<rparr>))"

text \<open>The four functions that add a value to a subscription.\<close>

definition sub_append :: "bool \<Rightarrow> 'c tris_event_sub \<Rightarrow> tris_event_ie_val \<Rightarrow> int \<times> 'c tris_event_sub" where
  "sub_append mem sub v =
     (if TRIS_EVENT_IE_MAX < ie_type v \<or> \<not> mem then (-1, sub) else (0, sub\<lparr>ie_vals := ie_vals sub @ [v]\<rparr>))"

definition tris_event_sub_append_ie_uint :: "bool \<Rightarrow> 'c tris_event_sub \<Rightarrow> u16 \<Rightarrow> u32 \<Rightarrow> int \<times> 'c tris_event_sub" where
  "tris_event_sub_append_ie_uint mem sub t n = sub_append mem sub \<lparr>ie_type = t, ie_payload = PLTYPE_UINT n\<rparr>"

definition tris_event_sub_append_ie_exists :: "bool \<Rightarrow> 'c tris_event_sub \<Rightarrow> u16 \<Rightarrow> int \<times> 'c tris_event_sub" where
  "tris_event_sub_append_ie_exists mem sub t = sub_append mem sub \<lparr>ie_type = t, ie_payload = PLTYPE_EXISTS\<rparr>"

definition tris_event_sub_append_ie_str :: "bool \<Rightarrow> 'c tris_event_sub \<Rightarrow> u16 \<Rightarrow> bytes \<Rightarrow> int \<times> 'c tris_event_sub" where
  "tris_event_sub_append_ie_str mem sub t s = sub_append mem sub \<lparr>ie_type = t, ie_payload = PLTYPE_STR s\<rparr>"

definition tris_event_sub_append_ie_raw :: "bool \<Rightarrow> 'c tris_event_sub \<Rightarrow> u16 \<Rightarrow> bytes \<Rightarrow> int \<times> 'c tris_event_sub" where
  "tris_event_sub_append_ie_raw mem sub t d = sub_append mem sub \<lparr>ie_type = t, ie_payload = PLTYPE_RAW d\<rparr>"

definition sub_append_val :: "bool \<Rightarrow> 'c tris_event_sub \<Rightarrow> tris_event_ie_val \<Rightarrow> 'c tris_event_sub" where
  "sub_append_val mem sub v =
     (case ie_payload v of
        PLTYPE_UNKNOWN \<Rightarrow> sub
      | PLTYPE_UINT n \<Rightarrow> snd (tris_event_sub_append_ie_uint mem sub (ie_type v) n)
      | PLTYPE_STR s \<Rightarrow> snd (tris_event_sub_append_ie_str mem sub (ie_type v) s)
      | PLTYPE_RAW d \<Rightarrow> snd (tris_event_sub_append_ie_raw mem sub (ie_type v) d)
      | PLTYPE_EXISTS \<Rightarrow> snd (tris_event_sub_append_ie_exists mem sub (ie_type v)))"

text \<open>Activation queues an event about the subscription when somebody wants to know; \<open>mem\<close> is the
  memory for it and for queueing it.\<close>

definition tris_event_sub_activate ::
  "(event_mem \<times> bool list) \<times> bool \<times> bool \<Rightarrow> bytes \<Rightarrow> 'c tris_event_sub \<Rightarrow> 'c event_state \<Rightarrow> 'c event_state option" where
  "tris_event_sub_activate mem eid sub st =
     do { b \<leftarrow> tris_event_check_subscriber st TRIS_EVENT_SUB [uint_val TRIS_EVENT_IE_EVENTTYPE (ucast (sub_type sub))];
          st \<leftarrow> (if \<not> b then Some st
                 else do { r \<leftarrow> gen_sub_event (fst mem) eid sub;
                           case r of
                             None \<Rightarrow> Some st
                           | Some ev \<Rightarrow> map_option snd (tris_event_queue (fst (snd mem)) (snd (snd mem)) ev st) });
          Some (st\<lparr>tris_event_subs := (tris_event_subs st)(sub_type sub := tris_event_subs st (sub_type sub) @ [sub])\<rparr>) }"

definition tris_event_subscribe ::
  "bool \<times> (event_mem \<times> bool list) \<times> bool \<times> bool \<Rightarrow> bytes \<Rightarrow> u16 \<Rightarrow> 'c \<Rightarrow> (bool \<times> tris_event_ie_val) list \<Rightarrow>
     'c event_state \<Rightarrow> ('c tris_event_sub option \<times> 'c event_state) option" where
  "tris_event_subscribe mem eid type c vals st =
     (case tris_event_subscribe_new (fst mem) type c st of
        (None, st) \<Rightarrow> Some (None, st)
      | (Some sub, st) \<Rightarrow>
          (let sub = foldl (\<lambda>sub (m, v). sub_append_val m sub v) sub vals
           in map_option (\<lambda>st. (Some sub, st)) (tris_event_sub_activate (snd mem) eid sub st)))"

definition tris_event_unsubscribe ::
  "event_mem \<times> bool \<times> bool \<Rightarrow> bytes \<Rightarrow> 'c tris_event_sub \<Rightarrow> 'c event_state \<Rightarrow> 'c event_state option" where
  "tris_event_unsubscribe mem eid sub st =
     (let st = st\<lparr>tris_event_subs := (tris_event_subs st)(sub_type sub :=
                    filter (\<lambda>s. uniqueid s \<noteq> uniqueid sub) (tris_event_subs st (sub_type sub)))\<rparr>
      in do { b \<leftarrow> tris_event_check_subscriber st TRIS_EVENT_UNSUB [uint_val TRIS_EVENT_IE_EVENTTYPE (ucast (sub_type sub))];
              if \<not> b then Some st
              else do { r \<leftarrow> tris_event_new (fst mem) [] eid TRIS_EVENT_UNSUB
                            [uint_val TRIS_EVENT_IE_UNIQUEID (uniqueid sub), uint_val TRIS_EVENT_IE_EVENTTYPE (ucast (sub_type sub))];
                        case r of
                          None \<Rightarrow> Some st
                        | Some ev \<Rightarrow> map_option snd (tris_event_queue (fst (snd mem)) (snd (snd mem)) ev st) } })"

section \<open>Delivery\<close>

text \<open>The dispatcher's task: the calls for one event, first the subscriptions to its type.\<close>

fun deliver :: "bytes \<Rightarrow> 'c tris_event_sub list \<Rightarrow> ('c \<times> bytes) list option" where
  "deliver ev [] = Some []"
| "deliver ev (sub # subs) =
     do { b \<leftarrow> match_ie_vals ev (ie_vals sub);
          calls \<leftarrow> deliver ev subs;
          Some (if b then (cb sub, ev) # calls else calls) }"

definition handle_event :: "bytes \<Rightarrow> 'c event_state \<Rightarrow> ('c \<times> bytes) list option" where
  "handle_event ev st =
     do { type \<leftarrow> tris_event_get_type ev;
          if TRIS_EVENT_TOTAL \<le> type then None
          else do { calls \<leftarrow> deliver ev (tris_event_subs st type);
                    Some (calls @ map (\<lambda>sub. (cb sub, ev)) (tris_event_subs st TRIS_EVENT_ALL)) } }"

section \<open>The byte format\<close>

definition enc_ie :: "u16 \<times> bytes \<Rightarrow> bytes" where
  "enc_ie i = be16 (fst i) @ be16 (of_nat (length (snd i))) @ snd i"

definition ies_len :: "(u16 \<times> bytes) list \<Rightarrow> nat" where
  "ies_len ies = 4 + (\<Sum>i \<leftarrow> ies. 4 + length (snd i))"

text \<open>The bytes of an event with the given elements.\<close>

definition encode :: "u16 \<Rightarrow> (u16 \<times> bytes) list \<Rightarrow> bytes" where
  "encode ty ies = be16 ty @ be16 (of_nat (ies_len ies)) @ concat (map enc_ie ies)"

lemma length_enc_ie: "length (enc_ie i) = 4 + length (snd i)"
  by (simp add: enc_ie_def)

lemma length_enc_ies: "length (concat (map enc_ie ies)) + 4 = ies_len ies"
  by (simp add: ies_len_def length_concat comp_def length_enc_ie)

lemma length_encode [simp]: "length (encode ty ies) = ies_len ies"
  using length_enc_ies [of ies] by (simp add: encode_def)

lemma ies_len_ge: "4 \<le> ies_len ies"
  by (simp add: ies_len_def)

lemma ies_len_append: "ies_len (ies @ [(t, d)]) = ies_len ies + (4 + length d)"
  by (simp add: ies_len_def)

lemma get_type_encode [simp]: "tris_event_get_type (encode ty ies @ post) = Some ty"
  unfolding tris_event_get_type_def encode_def append.assoc using read16_at [of 0 "[]"] by simp

lemma get_size_encode [simp]:
  "ies_len ies < 2 ^ 16 \<Longrightarrow> tris_event_get_size (encode ty ies @ post) = Some (ies_len ies)"
  unfolding tris_event_get_size_def encode_def append.assoc using read16_at [of 2 "be16 ty"]
  by (simp add: unat_of_nat take_bit_nat_eq_self)

text \<open>Where the payload of the first element of a type is.\<close>

fun ie_offset :: "u16 \<Rightarrow> nat \<Rightarrow> (u16 \<times> bytes) list \<Rightarrow> nat option" where
  "ie_offset t off [] = None"
| "ie_offset t off ((t', d) # ies) = (if t' = t then Some (off + 4) else ie_offset t (off + 4 + length d) ies)"

lemma ie_offset_None: "ie_offset t off ies = None \<longleftrightarrow> map_of ies t = None"
  by (induction t off ies rule: ie_offset.induct) auto

lemma ie_offset_Some:
  "ie_offset t off ies = Some k \<Longrightarrow> off = length pre \<Longrightarrow>
   \<exists>d rest. map_of ies t = Some d \<and> drop k (pre @ concat (map enc_ie ies) @ post) = d @ rest \<and>
     k + length (d @ rest) = length (pre @ concat (map enc_ie ies) @ post)"
proof (induction t off ies arbitrary: pre rule: ie_offset.induct)
  case (2 t off t' d ies)
  show ?case
  proof (cases "t' = t")
    case True
    then show ?thesis using 2(2,3) by (auto simp: enc_ie_def)
  next
    case False
    then show ?thesis using 2(1) [of "pre @ enc_ie (t', d)"] 2(2,3) by (simp add: length_enc_ie)
  qed
qed simp

lemma search_ie_encoded:
  assumes "ies \<noteq> []" "\<forall>i \<in> set ies. length (snd i) < 2 ^ 16" "off = length pre"
  shows "search_ie (pre @ concat (map enc_ie ies) @ post) t
      \<lparr>it_len = off + length (concat (map enc_ie ies)), it_ie = off\<rparr> = Some (ie_offset t off ies)"
  using assms
proof (induction t off ies arbitrary: pre rule: ie_offset.induct)
  case (2 t off t' d ies)
  define ev where "ev = pre @ concat (map enc_ie ((t', d) # ies)) @ post"
  have ty: "read16 ev off = Some t'"
    using read16_at [OF 2(4), of t'] by (simp add: ev_def enc_ie_def)
  have len: "read16 ev (off + 2) = Some (of_nat (length d))"
    using read16_at [of "off + 2" "pre @ be16 t'"] 2(4) by (simp add: ev_def enc_ie_def)
  have n: "unat (of_nat (length d) :: u16) = length d" using 2(3) by (simp add: unat_of_nat take_bit_nat_eq_self)
  note defs = tris_event_iterator_get_ie_type_def tris_event_iterator_next_def tris_event_iterator_get_ie_raw_def
  have "search_ie ev t \<lparr>it_len = off + length (concat (map enc_ie ((t', d) # ies))), it_ie = off\<rparr> =
      Some (ie_offset t off ((t', d) # ies))"
  proof (cases "t' = t \<or> ies = []")
    case True
    then show ?thesis by (subst search_ie.simps) (auto simp: defs ty len [simplified] n length_enc_ie)
  next
    case False
    define L where "L = length (concat (map enc_ie ies))"
    have "0 < L" using False by (cases ies) (simp_all add: enc_ie_def L_def)
    have L': "length (concat (map enc_ie ((t', d) # ies))) = 4 + length d + L" by (simp add: L_def length_enc_ie)
    have "search_ie ev t \<lparr>it_len = off + length (concat (map enc_ie ((t', d) # ies))), it_ie = off\<rparr> =
      search_ie ((pre @ enc_ie (t', d)) @ concat (map enc_ie ies) @ post) t
        \<lparr>it_len = (off + 4 + length d) + length (concat (map enc_ie ies)), it_ie = off + 4 + length d\<rparr>"
      using False \<open>0 < L\<close> unfolding L' L_def [symmetric]
      by (subst search_ie.simps) (simp add: defs ty len [simplified] n add.assoc ev_def [symmetric], simp add: ev_def add_ac)
    also have "\<dots> = Some (ie_offset t (off + 4 + length d) ies)"
      using False 2(3,4) by (intro 2(1)) (auto simp: length_enc_ie)
    finally show ?thesis using False by simp
  qed
  then show ?case by (simp only: ev_def)
qed simp


lemma ies_len_bound: "i \<in> set ies \<Longrightarrow> length (snd i) < ies_len ies"
proof (induction ies)
  case (Cons j ies)
  then show ?case using ies_len_ge [of ies] by (auto simp: ies_len_def)
qed simp

lemma get_ie_raw_encode:
  assumes "ies \<noteq> []" "ies_len ies < 2 ^ 16"
  shows "tris_event_get_ie_raw (encode ty ies @ post) t = Some (ie_offset t 4 ies)"
proof -
  have "search_ie ((be16 ty @ be16 (of_nat (ies_len ies))) @ concat (map enc_ie ies) @ post) t
      \<lparr>it_len = 4 + length (concat (map enc_ie ies)), it_ie = 4\<rparr> = Some (ie_offset t 4 ies)"
    using assms(1) by (intro search_ie_encoded) (use assms(2) ies_len_bound less_trans in \<open>force+\<close>)
  moreover have "4 + length (concat (map enc_ie ies)) = ies_len ies"
    using length_enc_ies [of ies] by simp
  ultimately have "search_ie (encode ty ies @ post) t \<lparr>it_len = ies_len ies, it_ie = 4\<rparr> = Some (ie_offset t 4 ies)"
    unfolding encode_def by simp
  then show ?thesis
    using assms by (simp add: tris_event_get_ie_raw_def tris_event_iterator_init_def)
qed

text \<open>What is read at the payload of an element.\<close>

lemma ie_payload_at:
  assumes "ie_offset t 4 ies = Some k"
  shows "\<exists>d rest. map_of ies t = Some d \<and> drop k (encode ty ies) = d @ rest \<and> k + length (d @ rest) = length (encode ty ies)"
proof -
  have "\<exists>d rest. map_of ies t = Some d \<and>
      drop k ((be16 ty @ be16 (of_nat (ies_len ies))) @ concat (map enc_ie ies) @ []) = d @ rest \<and>
      k + length (d @ rest) = length ((be16 ty @ be16 (of_nat (ies_len ies))) @ concat (map enc_ie ies) @ [])"
    by (rule ie_offset_Some [OF assms]) simp
  moreover have "(be16 ty @ be16 (of_nat (ies_len ies))) @ concat (map enc_ie ies) @ [] = encode ty ies"
    by (simp add: encode_def)
  ultimately show ?thesis by metis
qed

lemma read_payload:
  assumes "ie_offset t 4 ies = Some k" "map_of ies t = Some (d @ e)"
  shows "read_bytes (encode ty ies) k (length d) = Some d"
proof -
  obtain d' rest where "map_of ies t = Some d'" "drop k (encode ty ies) = d' @ rest"
    "k + length (d' @ rest) = length (encode ty ies)"
    using ie_payload_at [OF assms(1)] by blast
  moreover have "d' = d @ e" using assms(2) calculation(1) by simp
  ultimately show ?thesis by (simp add: read_bytes_def)
qed

lemma get_ie_uint_encode:
  assumes "ies \<noteq> []" "ies_len ies < 2 ^ 16"
  shows "map_of ies t = None \<Longrightarrow> tris_event_get_ie_uint (encode ty ies) t = Some 0"
    and "map_of ies t = Some (be32 n) \<Longrightarrow> tris_event_get_ie_uint (encode ty ies) t = Some n"
proof -
  note raw = get_ie_raw_encode [OF assms, of ty "[]" t, simplified]
  show "map_of ies t = None \<Longrightarrow> tris_event_get_ie_uint (encode ty ies) t = Some 0"
    using raw ie_offset_None [of t 4 ies] by (simp add: tris_event_get_ie_uint_def)
  assume m: "map_of ies t = Some (be32 n)"
  then obtain k where k: "ie_offset t 4 ies = Some k" using ie_offset_None [of t 4 ies] by (cases "ie_offset t 4 ies") auto
  show "tris_event_get_ie_uint (encode ty ies) t = Some n"
    using raw read_payload [OF k, of "be32 n" "[]" ty] m by (simp add: tris_event_get_ie_uint_def k read32_def)
qed

definition enc_str :: "bytes \<Rightarrow> bytes" where
  "enc_str s = host32 (tris_str_hash s) @ s @ [0]"

lemma get_ie_str_encode:
  assumes "ies \<noteq> []" "ies_len ies < 2 ^ 16"
  shows "map_of ies t = None \<Longrightarrow> tris_event_get_ie_str (encode ty ies) t = Some None"
    and "map_of ies t = None \<Longrightarrow> tris_event_get_ie_str_hash (encode ty ies) t = Some 0"
    and "\<lbrakk>map_of ies t = Some (enc_str s); 0 \<notin> set s\<rbrakk> \<Longrightarrow> tris_event_get_ie_str (encode ty ies) t = Some (Some s)"
    and "map_of ies t = Some (enc_str s) \<Longrightarrow> tris_event_get_ie_str_hash (encode ty ies) t = Some (tris_str_hash s)"
proof -
  note raw = get_ie_raw_encode [OF assms, of ty "[]" t, simplified]
  show "map_of ies t = None \<Longrightarrow> tris_event_get_ie_str (encode ty ies) t = Some None"
    "map_of ies t = None \<Longrightarrow> tris_event_get_ie_str_hash (encode ty ies) t = Some 0"
    using raw ie_offset_None [of t 4 ies] by (simp_all add: tris_event_get_ie_str_def tris_event_get_ie_str_hash_def)
  assume m: "map_of ies t = Some (enc_str s)"
  then obtain k where k: "ie_offset t 4 ies = Some k" using ie_offset_None [of t 4 ies] by (cases "ie_offset t 4 ies") auto
  show "tris_event_get_ie_str_hash (encode ty ies) t = Some (tris_str_hash s)"
    using raw read_payload [OF k, of "host32 (tris_str_hash s)" "s @ [0]" ty] m
    by (simp add: tris_event_get_ie_str_hash_def k read_host32_def enc_str_def)
  assume s: "0 \<notin> set s"
  obtain rest where "drop k (encode ty ies) = enc_str s @ rest"
    using ie_payload_at [OF k, of ty] m by auto
  then have "drop (k + 4) (encode ty ies) = s @ 0 # rest"
    by (metis (no_types, lifting) Cons_eq_appendI add.commute append_Nil append_assoc append_eq_conv_conj drop_drop enc_str_def length_be(3))
  moreover have "takeWhile (\<lambda>b. b \<noteq> 0) (s @ 0 # rest) = s" using s by (subst takeWhile_append2) auto
  ultimately show "tris_event_get_ie_str (encode ty ies) t = Some (Some s)"
    using raw by (simp add: tris_event_get_ie_str_def k read_str_def)
qed

lemma append_encode:
  assumes "ies_len ies + 4 + length d < 2 ^ 16"
  shows "tris_event_append_ie_raw True (encode ty ies) t d = Some (0, Some (encode ty (ies @ [(t, d)])))"
proof -
  have n: "read16 (encode ty ies) 2 = Some (of_nat (ies_len ies))"
    using read16_at [of 2 "be16 ty"] by (simp add: encode_def)
  have u: "unat (of_nat (ies_len ies) :: u16) = ies_len ies" using assms by (simp add: unat_of_nat take_bit_nat_eq_self)
  have "take (ies_len ies) (encode ty ies) = encode ty ies" by simp
  moreover have "set_event_len w (encode ty ies @ x) = be16 ty @ be16 w @ concat (map enc_ie ies) @ x" for w x
    by (simp add: set_event_len_def encode_def)
  ultimately show ?thesis
    by (simp add: tris_event_append_ie_raw_def n u ies_len_append encode_def [of ty "ies @ _"] enc_ie_def add_ac)
qed


section \<open>Round trip\<close>

text \<open>The elements that values become.\<close>

definition val_ies :: "tris_event_ie_val \<Rightarrow> (u16 \<times> bytes) list" where
  "val_ies v =
     (case ie_payload v of
        PLTYPE_UINT n \<Rightarrow> [(ie_type v, be32 n)]
      | PLTYPE_STR s \<Rightarrow> [(ie_type v, enc_str s)]
      | PLTYPE_RAW d \<Rightarrow> [(ie_type v, d)]
      | _ \<Rightarrow> [])"

definition vals_ies :: "tris_event_ie_val list \<Rightarrow> (u16 \<times> bytes) list" where
  "vals_ies vs = concat (map val_ies vs)"

lemma ies_len_add: "ies_len (xs @ ys) = ies_len xs + (ies_len ys - 4)"
  by (simp add: ies_len_def)

lemma append_ie_val_encode:
  assumes "ies_len (ies @ val_ies v) < 2 ^ 16"
  shows "append_ie_val True (encode ty ies) v = Some (Some (encode ty (ies @ val_ies v)))"
  using assms append_encode [of ies _ ty "ie_type v"]
  by (cases "ie_payload v") (simp_all add: append_ie_val_def val_ies_def ies_len_append add.assoc
      tris_event_append_ie_uint_def tris_event_append_ie_str_def enc_str_def)

lemma append_ie_vals_encode:
  assumes "ies_len (ies @ vals_ies vs) < 2 ^ 16"
  shows "append_ie_vals (replicate (length vs) True) (encode ty ies) vs = Some (Some (encode ty (ies @ vals_ies vs)))"
  using assms
proof (induction vs arbitrary: ies)
  case (Cons v vs)
  then have "ies_len (ies @ val_ies v) < 2 ^ 16" by (simp add: vals_ies_def ies_len_add)
  then show ?case
    using Cons.IH [of "ies @ val_ies v"] Cons.prems by (simp add: append_ie_val_encode vals_ies_def)
qed (simp add: vals_ies_def)

definition with_eid :: "bytes \<Rightarrow> (u16 \<times> bytes) list \<Rightarrow> (u16 \<times> bytes) list" where
  "with_eid eid ies = (if map_of ies TRIS_EVENT_IE_EID = None then ies @ [(TRIS_EVENT_IE_EID, eid)] else ies)"

lemma event_new_encode:
  assumes "type < TRIS_EVENT_TOTAL" "vals_ies vs \<noteq> []" "ies_len (vals_ies vs) + 4 + length eid < 2 ^ 16"
  shows "tris_event_new (True, replicate (length vs) True, True) beyond eid type vs =
    Some (Some (encode type (with_eid eid (vals_ies vs))))"
proof -
  have "be16 type @ be16 4 = encode type []" by (simp add: encode_def ies_len_def)
  then have a: "append_ie_vals (replicate (length vs) True) (be16 type @ be16 4) vs = Some (Some (encode type (vals_ies vs)))"
    using append_ie_vals_encode [of "[]" vs type] assms(3) by simp
  have r: "tris_event_get_ie_raw (encode type (vals_ies vs) @ beyond) TRIS_EVENT_IE_EID =
      Some (ie_offset TRIS_EVENT_IE_EID 4 (vals_ies vs))"
    using assms(2,3) by (intro get_ie_raw_encode) simp_all
  show ?thesis
    using assms(1,3) append_encode [of "vals_ies vs" eid type TRIS_EVENT_IE_EID]
    by (simp add: tris_event_new_def a r ie_offset_None with_eid_def not_le)
qed

lemma ie_offset_ex: "map_of ies t = Some d \<Longrightarrow> \<exists>k. ie_offset t 4 ies = Some k"
  using ie_offset_None [of t 4 ies] by (cases "ie_offset t 4 ies") simp_all

text \<open>The first value of a type that is stored.\<close>

definition first_val :: "u16 \<Rightarrow> tris_event_ie_val list \<Rightarrow> tris_event_ie_val option" where
  "first_val t vs = find (\<lambda>v. ie_type v = t \<and> ie_payload v \<notin> {PLTYPE_UNKNOWN, PLTYPE_EXISTS}) vs"

lemma map_of_vals_ies:
  "first_val t vs = Some v \<Longrightarrow> map_of (vals_ies vs) t = map_of (val_ies v) t \<and> val_ies v \<noteq> [] \<and> ie_type v = t"
proof (induction vs)
  case (Cons w vs)
  then show ?case
    by (cases "ie_payload w") (auto simp: first_val_def vals_ies_def val_ies_def split: if_splits)
qed (simp add: first_val_def)

lemma with_eid_map_of: "map_of ies t = Some d \<Longrightarrow> map_of (with_eid eid ies) t = Some d"
  by (simp add: with_eid_def map_add_def)

lemma with_eid_len: "ies_len ies + 4 + length eid < 2 ^ 16 \<Longrightarrow> ies_len (with_eid eid ies) < 2 ^ 16"
  by (simp add: with_eid_def ies_len_append)

text \<open>Claim C28. What is put into an event is read back: the first value of each type, as the number,
  the string or the bytes that it was, and the server's entity id when none was given.\<close>

theorem event_new_roundtrip:
  assumes "type < TRIS_EVENT_TOTAL" "vals_ies vs \<noteq> []" "ies_len (vals_ies vs) + 4 + length eid < 2 ^ 16"
  shows "\<exists>ev. tris_event_new (True, replicate (length vs) True, True) beyond eid type vs = Some (Some ev) \<and>
    tris_event_get_type ev = Some type \<and> tris_event_get_size ev = Some (length ev) \<and>
    (\<forall>t v. first_val t vs = Some v \<longrightarrow>
      (case ie_payload v of
         PLTYPE_UINT n \<Rightarrow> tris_event_get_ie_uint ev t = Some n
       | PLTYPE_STR s \<Rightarrow> tris_event_get_ie_str_hash ev t = Some (tris_str_hash s) \<and>
           (0 \<notin> set s \<longrightarrow> tris_event_get_ie_str ev t = Some (Some s))
       | PLTYPE_RAW d \<Rightarrow> \<exists>k. tris_event_get_ie_raw ev t = Some (Some k) \<and> read_bytes ev k (length d) = Some d
       | _ \<Rightarrow> True)) \<and>
    (first_val TRIS_EVENT_IE_EID vs = None \<longrightarrow>
      (\<exists>k. tris_event_get_ie_raw ev TRIS_EVENT_IE_EID = Some (Some k) \<and> read_bytes ev k (length eid) = Some eid))"
proof -
  let ?ies = "with_eid eid (vals_ies vs)" and ?ev = "encode type (with_eid eid (vals_ies vs))"
  have ne: "?ies \<noteq> []" using assms(2) by (simp add: with_eid_def)
  have len: "ies_len ?ies < 2 ^ 16" by (rule with_eid_len [OF assms(3)])
  have raw: "\<exists>k. tris_event_get_ie_raw ?ev t = Some (Some k) \<and> read_bytes ?ev k (length d) = Some d"
    if m: "map_of ?ies t = Some d" for t d
  proof -
    obtain k where k: "ie_offset t 4 ?ies = Some k" using ie_offset_ex [OF m] ..
    then show ?thesis using get_ie_raw_encode [OF ne len, of type "[]" t] read_payload [OF k, of d "[]"] m by simp
  qed
  have vals: "case ie_payload v of
         PLTYPE_UINT n \<Rightarrow> tris_event_get_ie_uint ?ev t = Some n
       | PLTYPE_STR s \<Rightarrow> tris_event_get_ie_str_hash ?ev t = Some (tris_str_hash s) \<and>
           (0 \<notin> set s \<longrightarrow> tris_event_get_ie_str ?ev t = Some (Some s))
       | PLTYPE_RAW d \<Rightarrow> \<exists>k. tris_event_get_ie_raw ?ev t = Some (Some k) \<and> read_bytes ?ev k (length d) = Some d
       | _ \<Rightarrow> True" if "first_val t vs = Some v" for t v
    using map_of_vals_ies [OF that] with_eid_map_of [of "vals_ies vs" t _ eid] raw
      get_ie_uint_encode(2) [OF ne len] get_ie_str_encode(3,4) [OF ne len]
    by (cases "ie_payload v") (simp_all add: val_ies_def)
  have eid: "\<exists>k. tris_event_get_ie_raw ?ev TRIS_EVENT_IE_EID = Some (Some k) \<and> read_bytes ?ev k (length eid) = Some eid"
    if "first_val TRIS_EVENT_IE_EID vs = None"
  proof -
    have "map_of (vals_ies vs) TRIS_EVENT_IE_EID = None"
      using that by (induction vs) (auto simp: first_val_def vals_ies_def val_ies_def split: if_splits ie_payload.splits)
    then show ?thesis by (intro raw) (simp add: with_eid_def map_add_def)
  qed
  show ?thesis
    using event_new_encode [OF assms] vals eid get_size_encode [OF len, of type "[]"] get_type_encode [of type ?ies "[]"] by auto
qed

definition sample_vals :: "tris_event_ie_val list" where
  "sample_vals = [\<lparr>ie_type = TRIS_EVENT_IE_DEVICE, ie_payload = PLTYPE_STR [83, 73, 80]\<rparr>,
     \<lparr>ie_type = TRIS_EVENT_IE_STATE, ie_payload = PLTYPE_UINT 2\<rparr>]"

theorem event_new_roundtrip_witness:
  "\<exists>ev. tris_event_new (True, [True, True], True) [] [1, 2, 3, 4, 5, 6] TRIS_EVENT_DEVICE_STATE sample_vals = Some (Some ev) \<and>
     tris_event_get_ie_uint ev TRIS_EVENT_IE_STATE = Some 2 \<and>
     tris_event_get_ie_str ev TRIS_EVENT_IE_DEVICE = Some (Some [83, 73, 80])"
proof -
  have "TRIS_EVENT_DEVICE_STATE < TRIS_EVENT_TOTAL" by (simp add: event_type_defs)
  moreover have "vals_ies sample_vals \<noteq> []" "ies_len (vals_ies sample_vals) + 4 + length [1, 2, 3, 4, 5, 6 :: u8] < 2 ^ 16"
    by (simp_all add: vals_ies_def sample_vals_def val_ies_def ies_len_def enc_str_def)
  moreover have n: "replicate (length sample_vals) True = [True, True]" by (simp add: sample_vals_def numeral_2_eq_2)
  ultimately obtain ev where ev: "tris_event_new (True, [True, True], True) [] [1, 2, 3, 4, 5, 6] TRIS_EVENT_DEVICE_STATE sample_vals = Some (Some ev)"
    "\<And>t v. first_val t sample_vals = Some v \<Longrightarrow>
      (case ie_payload v of
         PLTYPE_UINT n \<Rightarrow> tris_event_get_ie_uint ev t = Some n
       | PLTYPE_STR s \<Rightarrow> tris_event_get_ie_str_hash ev t = Some (tris_str_hash s) \<and>
           (0 \<notin> set s \<longrightarrow> tris_event_get_ie_str ev t = Some (Some s))
       | PLTYPE_RAW d \<Rightarrow> \<exists>k. tris_event_get_ie_raw ev t = Some (Some k) \<and> read_bytes ev k (length d) = Some d
       | _ \<Rightarrow> True)"
    using event_new_roundtrip [of TRIS_EVENT_DEVICE_STATE sample_vals "[1, 2, 3, 4, 5, 6]" "[]"]
    unfolding n by blast
  have "first_val TRIS_EVENT_IE_STATE sample_vals = Some (sample_vals ! 1)"
    "first_val TRIS_EVENT_IE_DEVICE sample_vals = Some (sample_vals ! 0)"
    by (simp_all add: first_val_def sample_vals_def ie_type_defs)
  then show ?thesis using ev(1) ev(2) [of TRIS_EVENT_IE_STATE] ev(2) [of TRIS_EVENT_IE_DEVICE] by (simp add: sample_vals_def)
qed


section \<open>Matching\<close>

text \<open>What a value asks of the elements of an event. A number that is not there counts as 0, raw bytes
  only have to be a prefix.\<close>

definition ie_holds :: "(u16 \<times> bytes) list \<Rightarrow> tris_event_ie_val \<Rightarrow> bool" where
  "ie_holds ies v =
     (case ie_payload v of
        PLTYPE_UINT n \<Rightarrow> (case map_of ies (ie_type v) of None \<Rightarrow> 0 | Some d \<Rightarrow> of_be32 d) = n
      | PLTYPE_STR s \<Rightarrow> map_of ies (ie_type v) = Some (enc_str s)
      | PLTYPE_RAW d \<Rightarrow> (case map_of ies (ie_type v) of None \<Rightarrow> False | Some e \<Rightarrow> take (length d) e = d)
      | PLTYPE_EXISTS \<Rightarrow> map_of ies (ie_type v) \<noteq> None
      | PLTYPE_UNKNOWN \<Rightarrow> False)"

text \<open>The element is of the kind of the value, and there when bytes are to be compared.\<close>

definition val_fits :: "(u16 \<times> bytes) list \<Rightarrow> tris_event_ie_val \<Rightarrow> bool" where
  "val_fits ies v =
     (case ie_payload v of
        PLTYPE_UINT n \<Rightarrow> (case map_of ies (ie_type v) of None \<Rightarrow> True | Some d \<Rightarrow> length d = 4)
      | PLTYPE_STR s \<Rightarrow> 0 \<notin> set s \<and>
          (case map_of ies (ie_type v) of None \<Rightarrow> tris_str_hash s \<noteq> 0 | Some d \<Rightarrow> \<exists>s'. 0 \<notin> set s' \<and> d = enc_str s')
      | PLTYPE_RAW d \<Rightarrow> (case map_of ies (ie_type v) of None \<Rightarrow> False | Some e \<Rightarrow> length d \<le> length e)
      | _ \<Rightarrow> True)"

lemma enc_str_inj: "enc_str s = enc_str s' \<longleftrightarrow> s = s'"
  by (auto simp: enc_str_def append_eq_append_conv)

lemma match_ie_val_encode:
  assumes "ies \<noteq> []" "ies_len ies < 2 ^ 16" "val_fits ies v"
  shows "match_ie_val (encode ty ies) v None = Some (ie_holds ies v)"
proof -
  let ?t = "ie_type v" and ?ev = "encode ty ies"
  note raw = get_ie_raw_encode [OF assms(1,2), of ty "[]" ?t, simplified]
  note uint = get_ie_uint_encode [OF assms(1,2), where ?ty = ty and ?t = ?t]
  note str = get_ie_str_encode [OF assms(1,2), where ?ty = ty and ?t = ?t]
  show ?thesis
  proof (cases "ie_payload v")
    case PLTYPE_UNKNOWN
    then show ?thesis by (simp add: match_ie_val_def ie_holds_def)
  next
    case PLTYPE_EXISTS
    then show ?thesis using raw ie_offset_None [of ?t 4 ies]
      by (simp add: match_ie_val_def ie_holds_def del: not_None_eq)
  next
    case (PLTYPE_UINT n)
    show ?thesis
    proof (cases "map_of ies ?t")
      case None
      then show ?thesis using PLTYPE_UINT uint(1) by (auto simp: match_ie_val_def ie_holds_def)
    next
      case (Some d)
      then have "map_of ies ?t = Some (be32 (of_be32 d))"
        using assms(3) PLTYPE_UINT by (simp add: val_fits_def be32_of_be32)
      then show ?thesis using PLTYPE_UINT uint(2) Some by (auto simp: match_ie_val_def ie_holds_def)
    qed
  next
    case (PLTYPE_STR s)
    show ?thesis
    proof (cases "map_of ies ?t")
      case None
      then show ?thesis using PLTYPE_STR str(1,2) assms(3) by (simp add: match_ie_val_def ie_holds_def val_fits_def)
    next
      case (Some d)
      then obtain s' where s': "0 \<notin> set s'" "d = enc_str s'"
        using assms(3) PLTYPE_STR by (auto simp: val_fits_def)
      then show ?thesis using PLTYPE_STR str(3,4) [of s'] Some
        by (auto simp: match_ie_val_def ie_holds_def match_str_def enc_str_inj)
    qed
  next
    case (PLTYPE_RAW d)
    then obtain e where e: "map_of ies ?t = Some e" "length d \<le> length e"
      using assms(3) by (auto simp: val_fits_def split: option.splits)
    obtain k where k: "ie_offset ?t 4 ies = Some k" using ie_offset_ex [OF e(1)] ..
    have "read_bytes ?ev k (length (take (length d) e)) = Some (take (length d) e)"
      using read_payload [OF k, of "take (length d) e" "drop (length d) e"] e(1) by simp
    then have "read_bytes ?ev k (length d) = Some (take (length d) e)" using e(2) by simp
    then show ?thesis using PLTYPE_RAW raw k e
      by (auto simp: match_ie_val_def ie_holds_def memcmp_eq_def)
  qed
qed

lemma match_ie_vals_encode:
  assumes "ies \<noteq> []" "ies_len ies < 2 ^ 16" "\<forall>v \<in> set vs. val_fits ies v"
  shows "match_ie_vals (encode ty ies) vs = Some (\<forall>v \<in> set vs. ie_holds ies v)"
  using assms(3) by (induction vs) (simp_all add: match_ie_val_encode [OF assms(1,2)])

lemma deliver_encode:
  assumes "ies \<noteq> []" "ies_len ies < 2 ^ 16" "\<forall>sub \<in> set subs. \<forall>v \<in> set (ie_vals sub). val_fits ies v"
  shows "deliver (encode ty ies) subs =
    Some (map (\<lambda>sub. (cb sub, encode ty ies)) (filter (\<lambda>sub. \<forall>v \<in> set (ie_vals sub). ie_holds ies v) subs))"
  using assms(3) by (induction subs) (simp_all add: match_ie_vals_encode [OF assms(1,2)])

lemma handle_event_encode:
  assumes "ty < TRIS_EVENT_TOTAL" "ies \<noteq> []" "ies_len ies < 2 ^ 16"
    and "\<forall>sub \<in> set (tris_event_subs st ty). \<forall>v \<in> set (ie_vals sub). val_fits ies v"
  shows "handle_event (encode ty ies) st = Some (map (\<lambda>sub. (cb sub, encode ty ies))
    (filter (\<lambda>sub. \<forall>v \<in> set (ie_vals sub). ie_holds ies v) (tris_event_subs st ty) @ tris_event_subs st TRIS_EVENT_ALL))"
  using get_type_encode [of ty ies "[]"] deliver_encode [OF assms(2-4), of ty] assms(1)
  by (simp add: handle_event_def not_le)

text \<open>What \<open>event.h\<close> promises: the event contains the element, with the value.\<close>

definition ie_contained :: "(u16 \<times> bytes) list \<Rightarrow> tris_event_ie_val \<Rightarrow> bool" where
  "ie_contained ies v =
     (case ie_payload v of
        PLTYPE_UINT n \<Rightarrow> map_of ies (ie_type v) = Some (be32 n)
      | PLTYPE_STR s \<Rightarrow> map_of ies (ie_type v) = Some (enc_str s)
      | PLTYPE_RAW d \<Rightarrow> map_of ies (ie_type v) = Some d
      | PLTYPE_EXISTS \<Rightarrow> map_of ies (ie_type v) \<noteq> None
      | PLTYPE_UNKNOWN \<Rightarrow> False)"

text \<open>Values for which the comparison is that of \<open>event.h\<close>: elements that are there are of the value's kind,
  raw ones of its length; and when there is none, the value is not the number 0, no string whose hash is 0 and not
  raw.\<close>

definition val_comparable :: "(u16 \<times> bytes) list \<Rightarrow> tris_event_ie_val \<Rightarrow> bool" where
  "val_comparable ies v =
     (case ie_payload v of
        PLTYPE_UINT n \<Rightarrow> (case map_of ies (ie_type v) of None \<Rightarrow> n \<noteq> 0 | Some d \<Rightarrow> length d = 4)
      | PLTYPE_STR s \<Rightarrow> 0 \<notin> set s \<and>
          (case map_of ies (ie_type v) of None \<Rightarrow> tris_str_hash s \<noteq> 0 | Some d \<Rightarrow> \<exists>s'. 0 \<notin> set s' \<and> d = enc_str s')
      | PLTYPE_RAW d \<Rightarrow> (case map_of ies (ie_type v) of None \<Rightarrow> False | Some e \<Rightarrow> length e = length d)
      | _ \<Rightarrow> True)"

lemma comparable_contained: "val_comparable ies v \<Longrightarrow> val_fits ies v \<and> ie_holds ies v = ie_contained ies v"
  by (auto simp: val_comparable_def val_fits_def ie_holds_def ie_contained_def of_be32_be32 be32_of_be32
      split: ie_payload.splits option.splits)

text \<open>Claim C29. As \<open>event.h\<close> has it, an event with elements is delivered, in the order of the
  subscriptions, to exactly the subscribers to its type all of whose values it contains, and then to
  the subscribers to all events. The values are comparable with the event: an element that it has of a
  value's type is of the value's kind, and of its length when it is raw; and for a value whose element
  the event lacks, the value is not the number 0, which an absent element counts as
  (\<open>absent_number_delivered\<close>), no string with the hash 0, and not raw.\<close>

theorem handle_event_delivers:
  assumes "ty < TRIS_EVENT_TOTAL" "ies \<noteq> []" "ies_len ies < 2 ^ 16"
    and "\<forall>sub \<in> set (tris_event_subs st ty). \<forall>v \<in> set (ie_vals sub). val_comparable ies v"
  shows "handle_event (encode ty ies) st = Some (map (\<lambda>sub. (cb sub, encode ty ies))
    (filter (\<lambda>sub. \<forall>v \<in> set (ie_vals sub). ie_contained ies v) (tris_event_subs st ty) @ tris_event_subs st TRIS_EVENT_ALL))"
proof -
  have "filter (\<lambda>sub. \<forall>v \<in> set (ie_vals sub). ie_holds ies v) (tris_event_subs st ty) =
      filter (\<lambda>sub. \<forall>v \<in> set (ie_vals sub). ie_contained ies v) (tris_event_subs st ty)"
    using assms(4) comparable_contained by (intro filter_cong) auto
  moreover have "\<forall>sub \<in> set (tris_event_subs st ty). \<forall>v \<in> set (ie_vals sub). val_fits ies v"
    using assms(4) comparable_contained by blast
  ultimately show ?thesis using handle_event_encode [OF assms(1-3), of st] by simp
qed

definition sample_subs :: "nat event_state" where
  "sample_subs = \<lparr>tris_event_subs = (\<lambda>t. if t = TRIS_EVENT_DEVICE_STATE
       then [\<lparr>sub_type = t, cb = 1, uniqueid = 0, ie_vals = [uint_val TRIS_EVENT_IE_STATE 2]\<rparr>,
             \<lparr>sub_type = t, cb = 2, uniqueid = 1, ie_vals = [uint_val TRIS_EVENT_IE_STATE 1]\<rparr>]
       else if t = TRIS_EVENT_ALL then [\<lparr>sub_type = t, cb = 3, uniqueid = 2, ie_vals = []\<rparr>] else []),
     sub_uniqueid = 3, dispatch_queue = []\<rparr>"

theorem handle_event_delivers_witness:
  "map_option (map fst) (handle_event (encode TRIS_EVENT_DEVICE_STATE [(TRIS_EVENT_IE_STATE, be32 2)]) sample_subs) = Some [1, 3]"
proof -
  have "TRIS_EVENT_DEVICE_STATE < TRIS_EVENT_TOTAL" by (simp add: event_type_defs)
  have two: "be32 2 \<noteq> be32 1" 
  proof
    assume "be32 2 = be32 1"
    then have "of_be32 (be32 2) = of_be32 (be32 1)" by (rule arg_cong)
    then show False by simp
  qed
  from handle_event_delivers [OF \<open>TRIS_EVENT_DEVICE_STATE < TRIS_EVENT_TOTAL\<close>, of "[(TRIS_EVENT_IE_STATE, be32 2)]" sample_subs]
  show ?thesis
    by (simp add: ies_len_def sample_subs_def val_comparable_def ie_contained_def uint_val_def event_type_defs two)
qed

text \<open>A subscriber that asks for the number 0 is also sent the events that lack the element.\<close>

definition zero_sub :: "nat event_state" where
  "zero_sub = \<lparr>tris_event_subs = (\<lambda>t. if t = TRIS_EVENT_DEVICE_STATE
       then [\<lparr>sub_type = t, cb = 1, uniqueid = 0, ie_vals = [uint_val TRIS_EVENT_IE_STATE 0]\<rparr>] else []),
     sub_uniqueid = 1, dispatch_queue = []\<rparr>"

lemma absent_number_delivered:
  "handle_event (encode TRIS_EVENT_DEVICE_STATE [(TRIS_EVENT_IE_DEVICE, enc_str [65])]) zero_sub =
   Some [(1, encode TRIS_EVENT_DEVICE_STATE [(TRIS_EVENT_IE_DEVICE, enc_str [65])])]"
proof -
  let ?ies = "[(TRIS_EVENT_IE_DEVICE, enc_str [65])]" and ?v = "uint_val TRIS_EVENT_IE_STATE 0"
  have t: "TRIS_EVENT_DEVICE_STATE < TRIS_EVENT_TOTAL" "TRIS_EVENT_ALL \<noteq> TRIS_EVENT_DEVICE_STATE"
    by (simp_all add: event_type_defs)
  have len: "ies_len ?ies < 2 ^ 16" by (simp add: ies_len_def enc_str_def)
  have "val_fits ?ies ?v" "ie_holds ?ies ?v" by (simp_all add: val_fits_def ie_holds_def uint_val_def ie_type_defs)
  then show ?thesis using handle_event_encode [OF t(1) _ len, of zero_sub] t(2) by (simp add: zero_sub_def)
qed

section \<open>Events without elements\<close>

text \<open>An event without elements is created by reading beyond its block: the search for an
  entity id looks at a first element without asking whether there is one.\<close>

theorem event_new_reads_beyond:
  assumes "type < TRIS_EVENT_TOTAL" "vals_ies vs = []"
  shows "tris_event_new (True, replicate (length vs) True, True) [] eid type vs = None"
proof -
  have e: "be16 type @ be16 4 = encode type []" by (simp add: encode_def ies_len_def)
  have a: "append_ie_vals (replicate (length vs) True) (be16 type @ be16 4) vs = Some (Some (encode type []))"
    unfolding e using append_ie_vals_encode [of "[]" vs type] assms(2) by (simp add: ies_len_def)
  have "tris_event_get_size (encode type []) = Some 4" using get_size_encode [of "[]" type "[]"] by (simp add: ies_len_def)
  then have "tris_event_get_ie_raw (encode type []) TRIS_EVENT_IE_EID = None"
    by (simp add: tris_event_get_ie_raw_def tris_event_iterator_init_def search_ie.simps ies_len_def
        tris_event_iterator_get_ie_type_def read16_def read_bytes_def)
  then show ?thesis using assms(1) by (simp add: tris_event_new_def a not_le)
qed

theorem event_new_reads_beyond_witness:
  "tris_event_new (True, [], True) [] [1, 2, 3, 4, 5, 6] TRIS_EVENT_MWI [] = None"
  using event_new_reads_beyond [of TRIS_EVENT_MWI "[]"] by (simp add: event_type_defs vals_ies_def)


end
