(* ===== verification/EventCache.thy ===== *)
theory EventCache
  imports Event Ao2Container
begin

text \<open>
  The cache of events of \<open>main/event.c\<close>, which holds the last event of each kind in a container of
  \<open>main/astobj2.c\<close>.

  The cached objects (\<open>struct tris_event_ref\<close>) live in the heap of \<open>Astobj2\<close>; \<open>refs\<close> gives the event
  that the object at an address refers to. The container's hash and comparison functions read these
  events, so they are taken from \<open>refs\<close> as it is at each call. \<open>tmp\<close> is the address of the reference
  on the stack that the code searches with.
\<close>

section \<open>Keys\<close>

definition tris_event_hash_mwi :: "bytes \<Rightarrow> u32 option" where
  "tris_event_hash_mwi ev =
     do { mailbox \<leftarrow> tris_event_get_ie_str ev TRIS_EVENT_IE_MAILBOX;
          context \<leftarrow> tris_event_get_ie_str ev TRIS_EVENT_IE_CONTEXT;
          mailbox \<leftarrow> mailbox;
          context \<leftarrow> context;
          Some (tris_str_hash_add context (tris_str_hash mailbox)) }"

definition tris_event_hash_devstate :: "bytes \<Rightarrow> u32 option" where
  "tris_event_hash_devstate ev =
     do { device \<leftarrow> tris_event_get_ie_str ev TRIS_EVENT_IE_DEVICE;
          device \<leftarrow> device;
          Some (tris_str_hash device) }"

definition tris_event_hash_devstate_change :: "bytes \<Rightarrow> u32 option" where
  "tris_event_hash_devstate_change ev =
     do { device \<leftarrow> tris_event_get_ie_str ev TRIS_EVENT_IE_DEVICE;
          device \<leftarrow> device;
          Some (tris_str_hash device) }"

text \<open>The table \<open>tris_event_cache\<close>: hash function and key elements by event type.\<close>

definition cache_hash_fn :: "u16 \<Rightarrow> (bytes \<Rightarrow> u32 option) option" where
  "cache_hash_fn t =
     (if t = TRIS_EVENT_MWI then Some tris_event_hash_mwi
      else if t = TRIS_EVENT_DEVICE_STATE then Some tris_event_hash_devstate
      else if t = TRIS_EVENT_DEVICE_STATE_CHANGE then Some tris_event_hash_devstate_change
      else None)"

definition cache_args :: "u16 \<Rightarrow> u16 list" where
  "cache_args t =
     (if t = TRIS_EVENT_MWI then [TRIS_EVENT_IE_MAILBOX, TRIS_EVENT_IE_CONTEXT]
      else if t = TRIS_EVENT_DEVICE_STATE then [TRIS_EVENT_IE_DEVICE]
      else if t = TRIS_EVENT_DEVICE_STATE_CHANGE then [TRIS_EVENT_IE_DEVICE, TRIS_EVENT_IE_EID]
      else [])"

definition tris_event_hash :: "bytes \<Rightarrow> u32 option" where
  "tris_event_hash ev =
     do { t \<leftarrow> tris_event_get_type ev;
          if TRIS_EVENT_TOTAL \<le> t then None
          else (case cache_hash_fn t of None \<Rightarrow> Some 0 | Some f \<Rightarrow> f ev) }"

fun cmp_args :: "bytes \<Rightarrow> bytes \<Rightarrow> u16 list \<Rightarrow> bool option" where
  "cmp_args ev ev2 [] = Some True"
| "cmp_args ev ev2 (t # ts) =
     do { b \<leftarrow> match_ie_val ev \<lparr>ie_type = t, ie_payload = tris_event_get_ie_pltype t\<rparr> (Some ev2);
          if b then cmp_args ev ev2 ts else Some False }"

definition tris_event_cmp :: "bytes \<Rightarrow> bytes \<Rightarrow> bool option" where
  "tris_event_cmp ev ev2 =
     do { t \<leftarrow> tris_event_get_type ev;
          if TRIS_EVENT_TOTAL \<le> t then None else cmp_args ev ev2 (cache_args t) }"

section \<open>The cache\<close>

definition NUM_CACHE_BUCKETS :: nat where "NUM_CACHE_BUCKETS = 563"

record cache_state =
  heap :: ao2_heap
  refs :: "oid \<Rightarrow> bytes"
  containers :: "u16 \<Rightarrow> oid option"

text \<open>The functions of a container of references: \<open>int\<close> is the hash value as a signed number.\<close>

definition ref_hash :: "(oid \<Rightarrow> bytes) \<Rightarrow> oid \<Rightarrow> int" where
  "ref_hash evs p = (case tris_event_hash (evs p) of Some n \<Rightarrow> sint n | None \<Rightarrow> 0)"

definition ref_cmp :: "(oid \<Rightarrow> bytes) \<Rightarrow> oid \<Rightarrow> oid \<Rightarrow> bool \<times> bool" where
  "ref_cmp evs p arg = (tris_event_cmp (evs p) (evs arg) = Some True, False)"

definition see_events :: "oid \<Rightarrow> (oid \<Rightarrow> bytes) \<Rightarrow> ao2_heap \<Rightarrow> ao2_heap" where
  "see_events q evs h =
     (case the_container h q of
        None \<Rightarrow> h
      | Some c \<Rightarrow> set_container q (c\<lparr>hash_fn := ref_hash evs, cmp_fn := ref_cmp evs\<rparr>) h)"

text \<open>Initialisation: a container for each type with a hash function, in order; \<open>mem\<close> are the
  addresses. The result is whether all could be had.\<close>

fun init_caches :: "(u16 \<Rightarrow> oid option) \<Rightarrow> u16 list \<Rightarrow> cache_state \<Rightarrow> bool \<times> cache_state" where
  "init_caches mem [] st = (True, st)"
| "init_caches mem (t # ts) st =
     (if cache_hash_fn t = None then init_caches mem ts st
      else case ao2_container_alloc (mem t) NUM_CACHE_BUCKETS (Some (ref_hash (refs st))) (ref_cmp (refs st)) (heap st) of
        (None, h) \<Rightarrow> (False, st\<lparr>heap := h\<rparr>)
      | (Some q, h) \<Rightarrow> init_caches mem ts (st\<lparr>heap := h, containers := (containers st)(t \<mapsto> q)\<rparr>))"

definition tris_event_init :: "(u16 \<Rightarrow> oid option) \<Rightarrow> bool \<Rightarrow> cache_state \<Rightarrow> int \<times> cache_state" where
  "tris_event_init mem dispatcher st =
     (case init_caches mem [0, 1, 2, 3, 4, 5, 6] st of (ok, st) \<Rightarrow> (if ok \<and> dispatcher then 0 else -1, st))"

text \<open>The copy of an event that is put into the cache; \<open>mem\<close>: whether the copy can be had, the address
  of the reference, and whether it can be linked.\<close>

definition tris_event_dup_and_cache ::
  "bool \<times> oid option \<times> bool \<Rightarrow> bytes \<Rightarrow> cache_state \<Rightarrow> (int \<times> cache_state) option" where
  "tris_event_dup_and_cache mem event st =
     do { d \<leftarrow> tris_event_dup (fst mem) event;
          case d of
            None \<Rightarrow> Some (-1, st)
          | Some d \<Rightarrow>
              (case ao2_alloc (fst (snd mem)) (User []) (heap st) of
                 (None, h) \<Rightarrow> Some (-1, st\<lparr>heap := h\<rparr>)
               | (Some p, h) \<Rightarrow>
                   do { t \<leftarrow> tris_event_get_type event;
                        q \<leftarrow> containers st t;
                        let evs = (refs st)(p := d);
                        r \<leftarrow> ao2_link (snd (snd mem)) q p (see_events q evs h);
                        u \<leftarrow> ao2_ref p (- 1) (snd r);
                        Some (0, st\<lparr>heap := snd u, refs := evs\<rparr>) }) }"

definition remove_flags :: search_flags where
  "remove_flags = \<lparr>OBJ_UNLINK = True, OBJ_NODATA = True, OBJ_MULTIPLE = True, OBJ_POINTER = True, OBJ_CONTINUE = False\<rparr>"

definition find_flags :: search_flags where
  "find_flags = \<lparr>OBJ_UNLINK = False, OBJ_NODATA = False, OBJ_MULTIPLE = False, OBJ_POINTER = True, OBJ_CONTINUE = False\<rparr>"

text \<open>Caching and queueing; \<open>qmem\<close> is the memory for queueing.\<close>

definition tris_event_queue_and_cache ::
  "oid \<Rightarrow> bool \<times> oid option \<times> bool \<Rightarrow> bool \<times> bool \<Rightarrow> bytes \<Rightarrow> cache_state \<Rightarrow> 'c event_state \<Rightarrow>
     (int \<times> cache_state \<times> 'c event_state) option" where
  "tris_event_queue_and_cache tmp mem qmem event st es =
     do { t \<leftarrow> tris_event_get_type event;
          (res, st) \<leftarrow>
            (if TRIS_EVENT_TOTAL \<le> t then None
             else case containers st t of
               None \<Rightarrow> Some (-1, st)
             | Some q \<Rightarrow>
                 do { let evs = (refs st)(tmp := event);
                      (r, h) \<leftarrow> ao2_callback remove_flags (\<lambda>p. ref_cmp evs p tmp) q tmp (see_events q evs (heap st));
                      tris_event_dup_and_cache mem event (st\<lparr>heap := h\<rparr>) });
          (r, es) \<leftarrow> tris_event_queue (fst qmem) (snd qmem) event es;
          Some (if r \<noteq> 0 then -1 else res, st, es) }"

text \<open>Getting the cached event of a key. A lost event in between is dereferenced by the next step.\<close>

definition tris_event_get_cached ::
  "oid \<Rightarrow> (bool \<times> bool) \<times> bool list \<times> bool \<Rightarrow> bytes \<Rightarrow> bytes \<Rightarrow> u16 \<Rightarrow> tris_event_ie_val list \<Rightarrow> cache_state \<Rightarrow>
     (bytes option \<times> cache_state) option" where
  "tris_event_get_cached tmp mem beyond eid type vals st =
     (if TRIS_EVENT_TOTAL \<le> type then Some (None, st)
      else case containers st type of
        None \<Rightarrow> Some (None, st)
      | Some q \<Rightarrow>
          do { k \<leftarrow> tris_event_new (fst (fst mem), [], snd (fst mem)) beyond eid type [];
               case k of
                 None \<Rightarrow> Some (None, st)
               | Some k \<Rightarrow>
                   do { key \<leftarrow> append_ie_vals (fst (snd mem)) k vals;
                        key \<leftarrow> key;
                        (found, h) \<leftarrow> ao2_find find_flags q tmp (see_events q ((refs st)(tmp := key)) (heap st));
                        case found of
                          None \<Rightarrow> Some (None, st\<lparr>heap := h\<rparr>)
                        | Some p \<Rightarrow>
                            do { d \<leftarrow> tris_event_dup (snd (snd mem)) (refs st p);
                                 u \<leftarrow> ao2_ref p (- 1) h;
                                 Some (d, st\<lparr>heap := snd u\<rparr>) } } })"

section \<open>Device events in the cache\<close>

text \<open>An event of a type with the device as the key; a change of state also has an entity id.\<close>

definition dev_type :: "u16 \<Rightarrow> bool" where
  "dev_type t \<longleftrightarrow> t = TRIS_EVENT_DEVICE_STATE \<or> t = TRIS_EVENT_DEVICE_STATE_CHANGE"

definition dev_event :: "u16 \<Rightarrow> bytes \<Rightarrow> bytes \<Rightarrow> bool" where
  "dev_event t s e \<longleftrightarrow> 0 \<notin> set s \<and> tris_str_hash s \<noteq> 0x80000000 \<and>
     (\<exists>ies. ies \<noteq> [] \<and> ies_len ies < 2 ^ 16 \<and> e = encode t ies \<and>
        map_of ies TRIS_EVENT_IE_DEVICE = Some (enc_str s) \<and> map_of ies TRIS_EVENT_IE_EID \<noteq> None)"

lemma sint_in_range: "- (2 ^ 31) \<le> k \<Longrightarrow> k < 2 ^ 31 \<Longrightarrow> sint (word_of_int k :: u32) = k"
  by (simp add: signed_of_int signed_take_bit_int_eq_self)

lemma str_hash_nonneg: "tris_str_hash s \<noteq> 0x80000000 \<Longrightarrow> 0 \<le> sint (tris_str_hash s)"
proof -
  define h where "h = foldl hash_step 5381 s"
  have r: "- (2 ^ 31) \<le> sint h" "sint h < 2 ^ 31" using sint_range_size [of h] by (simp_all add: word_size)
  have e: "tris_str_hash s = (if h <s 0 then - h else h)" by (simp add: tris_str_hash_def tris_str_hash_add_def h_def Let_def)
  assume a: "tris_str_hash s \<noteq> 0x80000000"
  show ?thesis
  proof (cases "h <s 0")
    case True
    then have neg: "sint h < 0" by (simp add: word_sless_alt)
    have "h = word_of_int (sint h)" by simp
    then have m: "- h = word_of_int (- sint h)" by (metis wi_hom_neg)
    have "sint h \<noteq> - (2 ^ 31)"
    proof
      assume "sint h = - (2 ^ 31)"
      then have "- h = word_of_int (2 ^ 31)" unfolding m by simp
      also have "(word_of_int (2 ^ 31) :: u32) = 0x80000000" by simp
      finally show False using a e True by simp
    qed
    then have "sint (word_of_int (- sint h) :: u32) = - sint h"
      using r neg sint_in_range [of "- sint h"] by simp
    then have "sint (- h) = - sint h" by (simp only: m)
    then show ?thesis using e True neg by simp
  next
    case False
    then show ?thesis using e by (simp add: word_sless_alt)
  qed
qed

lemma dev_event_hash:
  assumes "dev_event t s e" "dev_type t"
  shows "tris_event_hash e = Some (tris_str_hash s)"
proof -
  obtain ies where i: "0 \<notin> set s" "ies \<noteq> []" "ies_len ies < 2 ^ 16" "e = encode t ies"
    "map_of ies TRIS_EVENT_IE_DEVICE = Some (enc_str s)"
    using assms(1) by (auto simp: dev_event_def)
  have "tris_event_get_ie_str e TRIS_EVENT_IE_DEVICE = Some (Some s)"
    unfolding i(4) by (rule get_ie_str_encode(3) [OF i(2,3,5,1)])
  moreover have "tris_event_get_type e = Some t" using get_type_encode [of t ies "[]"] by (simp add: i(4))
  ultimately show ?thesis using assms(2)
    by (auto simp: tris_event_hash_def cache_hash_fn_def dev_type_def tris_event_hash_devstate_def
        tris_event_hash_devstate_change_def event_type_defs)
qed

text \<open>The entity id is not compared: the number of bytes that the comparison is told is 0.\<close>

lemma dev_event_cmp:
  assumes "dev_event t s e" "dev_event t s' e'" "dev_type t"
  shows "tris_event_cmp e e' = Some (s = s')"
proof -
  obtain ies where i: "0 \<notin> set s" "ies \<noteq> []" "ies_len ies < 2 ^ 16" "e = encode t ies"
    "map_of ies TRIS_EVENT_IE_DEVICE = Some (enc_str s)" "map_of ies TRIS_EVENT_IE_EID \<noteq> None"
    using assms(1) by (auto simp: dev_event_def)
  obtain ies' where i': "0 \<notin> set s'" "ies' \<noteq> []" "ies_len ies' < 2 ^ 16" "e' = encode t ies'"
    "map_of ies' TRIS_EVENT_IE_DEVICE = Some (enc_str s')" "map_of ies' TRIS_EVENT_IE_EID \<noteq> None"
    using assms(2) by (auto simp: dev_event_def)
  have s: "tris_event_get_ie_str e TRIS_EVENT_IE_DEVICE = Some (Some s)"
    "tris_event_get_ie_str_hash e TRIS_EVENT_IE_DEVICE = Some (tris_str_hash s)"
    using get_ie_str_encode(3,4) [OF i(2,3,5)] i(1,4) by simp_all
  have s': "tris_event_get_ie_str e' TRIS_EVENT_IE_DEVICE = Some (Some s')"
    "tris_event_get_ie_str_hash e' TRIS_EVENT_IE_DEVICE = Some (tris_str_hash s')"
    using get_ie_str_encode(3,4) [OF i'(2,3,5)] i'(1,4) by simp_all
  obtain k where k: "tris_event_get_ie_raw e TRIS_EVENT_IE_EID = Some (Some k)"
    using get_ie_raw_encode [OF i(2,3), of t "[]" TRIS_EVENT_IE_EID] i(4,6) ie_offset_None [of TRIS_EVENT_IE_EID 4 ies] by auto
  obtain k' where k': "tris_event_get_ie_raw e' TRIS_EVENT_IE_EID = Some (Some k')"
    using get_ie_raw_encode [OF i'(2,3), of t "[]" TRIS_EVENT_IE_EID] i'(4,6) ie_offset_None [of TRIS_EVENT_IE_EID 4 ies'] by auto
  have ty: "tris_event_get_type e = Some t" using get_type_encode [of t ies "[]"] by (simp add: i(4))
  have "match_ie_val e \<lparr>ie_type = TRIS_EVENT_IE_DEVICE, ie_payload = PLTYPE_STR []\<rparr> (Some e') = Some (s = s')"
    using s s' by (auto simp: match_ie_val_def match_str_def)
  moreover have "match_ie_val e \<lparr>ie_type = TRIS_EVENT_IE_EID, ie_payload = PLTYPE_RAW []\<rparr> (Some e') = Some True"
    using k k' by (simp add: match_ie_val_def memcmp_eq_def)
  moreover have "tris_event_get_ie_pltype TRIS_EVENT_IE_DEVICE = PLTYPE_STR []" "tris_event_get_ie_pltype TRIS_EVENT_IE_EID = PLTYPE_RAW []"
    by (simp_all add: tris_event_get_ie_pltype_def ie_maps_def ie_type_defs)
  ultimately show ?thesis using assms(3) ty
    by (auto simp: tris_event_cmp_def cache_args_def dev_type_def event_type_defs)
qed


lemma dev_event_device: "\<lbrakk>dev_event t s e; dev_event t s' e; dev_type t\<rbrakk> \<Longrightarrow> s = s'"
  using dev_event_cmp [of t s e s' e] dev_event_cmp [of t s e s e] by auto

lemma dev_event_type: "dev_event t s e \<Longrightarrow> tris_event_get_type e = Some t"
  using get_type_encode [of t _ "[]"] by (auto simp: dev_event_def)

lemma dev_event_dup: "dev_event t s e \<Longrightarrow> tris_event_dup True e = Some (Some e)"
  using get_size_encode [of _ t "[]"] by (auto simp: dev_event_def tris_event_dup_def read_bytes_def)

lemma dev_event_ref_hash:
  "dev_event t s (evs p) \<Longrightarrow> dev_type t \<Longrightarrow> ref_hash evs p = sint (tris_str_hash s) \<and> 0 \<le> ref_hash evs p"
  using str_hash_nonneg [of s] by (simp add: ref_hash_def dev_event_hash dev_event_def)

text \<open>The events that the links of a container refer to, and the invariant of the cache of a type.\<close>

definition cached :: "(oid \<Rightarrow> bytes) \<Rightarrow> ao2_container \<Rightarrow> bytes list" where
  "cached evs c = map (\<lambda>e. evs (bl_obj e)) (concat (buckets c))"

definition dev_bucket :: "ao2_container \<Rightarrow> bytes \<Rightarrow> nat" where
  "dev_bucket c s = nat (sint (tris_str_hash s)) mod n_buckets c"

definition cache_links :: "u16 \<Rightarrow> (oid \<Rightarrow> bytes) \<Rightarrow> ao2_container \<Rightarrow> bool" where
  "cache_links t evs c \<longleftrightarrow> (\<forall>i < n_buckets c. \<forall>e \<in> set (buckets c ! i). \<exists>s. dev_event t s (evs (bl_obj e)) \<and> dev_bucket c s = i)"

definition cache_ok :: "oid multiset \<Rightarrow> u16 \<Rightarrow> oid \<Rightarrow> cache_state \<Rightarrow> ao2_container \<Rightarrow> bool" where
  "cache_ok ext t q st c \<longleftrightarrow> refs_inv ext {} (heap st) \<and> q \<in># ext \<and> containers st t = Some q \<and>
     the_container (heap st) q = Some c \<and> cont_ok c \<and> cache_links t (refs st) c"

abbreviation fns :: "(oid \<Rightarrow> bytes) \<Rightarrow> ao2_container \<Rightarrow> ao2_container" where
  "fns evs c \<equiv> c\<lparr>hash_fn := ref_hash evs, cmp_fn := ref_cmp evs\<rparr>"

lemma see_events_ok:
  assumes "refs_inv ext {} h" "the_container h q = Some c"
  shows "refs_inv ext {} (see_events q evs h)" "the_container (see_events q evs h) q = Some (fns evs c)"
    and "dom (see_events q evs h) = dom h"
proof -
  obtain qo where qo: "h q = Some qo" "user_data qo = Container c" using assms(2) by (auto simp: the_container_Some)
  have e: "see_events q evs h = h(q \<mapsto> qo\<lparr>user_data := Container (fns evs c)\<rparr>)"
    using assms(2) set_container_eq [of h q qo] qo by (simp add: see_events_def)
  show "refs_inv ext {} (see_events q evs h)"
    unfolding e by (rule refs_inv_payload [OF assms(1) qo(1)]) (simp_all add: qo(2) owned_def)
  show "the_container (see_events q evs h) q = Some (fns evs c)" by (simp add: e the_container_def)
  show "dom (see_events q evs h) = dom h" using qo(1) by (auto simp: e)
qed

lemma fns_ok: "cont_ok (fns evs c) = cont_ok c"
  by (simp add: cont_ok_def link_ok_def)

lemma cached_link_entry:
  assumes "i < length (buckets c)"
  shows "mset (cached evs (link_entry i p c)) = add_mset (evs p) (mset (cached evs c))"
  using concat_update [of i "buckets c" "\<lambda>e. evs (bl_obj e)" "buckets c ! i @ [\<lparr>bl_link = c_changes c, bl_version = c_version c, bl_obj = p\<rparr>]"] assms
  by (simp add: cached_def link_entry_def map_concat)

lemma cached_cong: "(\<And>e. e \<in> set (concat (buckets c)) \<Longrightarrow> evs (bl_obj e) = evs' (bl_obj e)) \<Longrightarrow> cached evs c = cached evs' c"
  by (auto simp: cached_def)

lemma link_in_concat: "i < n_buckets c \<Longrightarrow> cont_ok c \<Longrightarrow> e \<in> set (buckets c ! i) \<Longrightarrow> e \<in> set (concat (buckets c))"
  by (auto simp: cont_ok_def)

text \<open>Removing the events of a device from its bucket removes them from the cache.\<close>

lemma remove_device:
  assumes "cont_ok c" "cache_links t evs c" "dev_type t" "i = dev_bucket c s"
    and "buckets c' = (buckets c)[i := filter (\<lambda>e. \<not> P e) (buckets c ! i)]"
    and "\<forall>e \<in> set (concat (buckets c)). P e \<longleftrightarrow> dev_event t s (evs (bl_obj e))"
  shows "mset (cached evs c') = filter_mset (\<lambda>e. \<not> dev_event t s e) (mset (cached evs c))"
proof -
  have n: "length (buckets c) = n_buckets c" "0 < n_buckets c" using assms(1) by (auto simp: cont_ok_def)
  have "buckets c ! j = filter (\<lambda>e. \<not> P e) (buckets c ! j)" if "j < n_buckets c" "j \<noteq> i" for j
  proof -
    have "\<not> P e" if e: "e \<in> set (buckets c ! j)" for e
    proof
      assume "P e"
      then have "dev_event t s (evs (bl_obj e))" using assms(6) link_in_concat [OF \<open>j < n_buckets c\<close> assms(1) e] by blast
      then show False using assms(2,3,4) e \<open>j < n_buckets c\<close> \<open>j \<noteq> i\<close> dev_event_device unfolding cache_links_def by blast
    qed
    then show ?thesis by (simp add: filter_id_conv)
  qed
  note other = this
  have "(buckets c)[i := filter (\<lambda>e. \<not> P e) (buckets c ! i)] = map (filter (\<lambda>e. \<not> P e)) (buckets c)"
  proof (rule nth_equalityI)
    fix j assume "j < length ((buckets c)[i := filter (\<lambda>e. \<not> P e) (buckets c ! i)])"
    then have j: "j < n_buckets c" using n(1) by simp
    show "(buckets c)[i := filter (\<lambda>e. \<not> P e) (buckets c ! i)] ! j = map (filter (\<lambda>e. \<not> P e)) (buckets c) ! j"
      using other [OF j] j n(1) by (cases "j = i") simp_all
  qed simp
  then have "concat (buckets c') = filter (\<lambda>e. \<not> P e) (concat (buckets c))"
    using assms(5) by (simp add: filter_concat)
  moreover have "filter (\<lambda>e. \<not> P e) (concat (buckets c)) = filter (\<lambda>e. \<not> dev_event t s (evs (bl_obj e))) (concat (buckets c))"
    using assms(6) by (intro filter_cong) auto
  ultimately have "cached evs c' = filter (\<lambda>e. \<not> dev_event t s e) (cached evs c)"
    by (simp add: cached_def filter_map comp_def)
  then show ?thesis by simp
qed

lemma link_objs_live: "refs_inv ext {} h \<Longrightarrow> the_container h q = Some c \<Longrightarrow> e \<in> set (concat (buckets c)) \<Longrightarrow> bl_obj e \<in> dom h"
  by (rule link_live)

text \<open>Caching a copy of an event: it is linked into the bucket of its device.\<close>

lemma dup_and_cache_ok:
  assumes "cache_ok ext t q st c" "dev_type t" "dev_event t s event" "heap st p = None"
  shows "\<exists>st' c'. tris_event_dup_and_cache (True, Some p, True) event st = Some (0, st') \<and> cache_ok ext t q st' c' \<and>
    mset (cached (refs st') c') = add_mset event (mset (cached (refs st) c))"
proof -
  let ?h = "(heap st)(p \<mapsto> \<lparr>ref_counter = 1, user_data = User []\<rparr>)" and ?evs = "(refs st)(p := event)"
  have c: "refs_inv ext {} (heap st)" "q \<in># ext" "containers st t = Some q" "the_container (heap st) q = Some c"
    "cont_ok c" "cache_links t (refs st) c"
    using assms(1) by (simp_all add: cache_ok_def)
  have qp: "q \<noteq> p" using c(4) assms(4) by (auto simp: the_container_Some)
  have inv: "refs_inv (add_mset p ext) {} ?h" by (rule refs_inv_alloc [OF c(1) assms(4)])
  have cq: "the_container ?h q = Some c" using c(4) qp by (simp add: the_container_def)
  note see = see_events_ok [OF inv cq, of ?evs]
  have hash: "hash_fn (fns ?evs c) p = sint (tris_str_hash s)" "0 \<le> sint (tris_str_hash s)"
    using dev_event_ref_hash [of t s ?evs p] assms(2,3) by simp_all
  have n: "0 < n_buckets c" "length (buckets c) = n_buckets c" using c(5) by (auto simp: cont_ok_def)
  then have bucket: "link_bucket (fns ?evs c) p = Some (dev_bucket c s)"
    using hash by (simp add: link_bucket_def dev_bucket_def)
  have lt: "dev_bucket c s < n_buckets c" using n by (simp add: dev_bucket_def)
  obtain h1 where h1: "ao2_link True q p (see_events q ?evs ?h) = Some (True, h1)" "refs_inv (add_mset p ext) {} h1"
    "the_container h1 q = Some (link_entry (dev_bucket c s) p (fns ?evs c))"
    using ao2_link_inv [OF see(1,2) _ _ bucket] c(5) see(3) by (auto simp: fns_ok domIff)
  obtain r h2 where h2: "ao2_ref p (- 1) h1 = Some (r, h2)" "refs_inv ext {} h2" "released {} h1 h2"
    using ao2_unref_inv [OF h1(2)] by blast
  let ?c' = "link_entry (dev_bucket c s) p (fns ?evs c)"
  have "q \<in> dom h2" using refs_inv_live [OF h2(2) c(2)] by simp
  then have c': "the_container h2 q = Some ?c'" by (rule released_container [OF h2(3) _ h1(3)])
  have old: "?evs (bl_obj e) = refs st (bl_obj e)" if "e \<in> set (concat (buckets c))" for e
    using link_objs_live [OF c(1,4) that] assms(4) by auto
  have "cached ?evs (fns ?evs c) = cached (refs st) c"
    using old cached_cong [of c ?evs "refs st"] by (simp add: cached_def)
  then have m: "mset (cached ?evs ?c') = add_mset event (mset (cached (refs st) c))"
    using cached_link_entry [of "dev_bucket c s" "fns ?evs c" ?evs p] lt n by simp
  have links: "cache_links t ?evs ?c'"
    unfolding cache_links_def
  proof (intro allI impI ballI)
    fix i e assume i: "i < n_buckets ?c'" and e: "e \<in> set (buckets ?c' ! i)"
    have b: "dev_bucket ?c' = dev_bucket c" by (simp add: dev_bucket_def link_entry_def fun_eq_iff)
    show "\<exists>s. dev_event t s (?evs (bl_obj e)) \<and> dev_bucket ?c' s = i"
    proof (cases "e \<in> set (buckets c ! i)")
      case True
      then have "e \<in> set (concat (buckets c))" using i c(5) link_in_concat by (simp add: link_entry_def)
      then show ?thesis using True i c(6) old unfolding b cache_links_def by (simp add: link_entry_def)
    next
      case False
      then have "i = dev_bucket c s \<and> bl_obj e = p"
        using e i n lt by (auto simp: link_entry_def nth_list_update split: if_splits)
      then show ?thesis using assms(3) unfolding b by auto
    qed
  qed
  have "cont_ok ?c'" by (rule link_entry_ok) (simp_all add: fns_ok c(5) lt)
  then have "cache_ok ext t q (st\<lparr>heap := h2, refs := ?evs\<rparr>) ?c'"
    using h2(2) c(2,3) c' links by (simp add: cache_ok_def)
  moreover have "tris_event_dup_and_cache (True, Some p, True) event st = Some (0, st\<lparr>heap := h2, refs := ?evs\<rparr>)"
    using dev_event_dup [OF assms(3)] dev_event_type [OF assms(3)] c(3) h1(1) h2(1)
    by (simp add: tris_event_dup_and_cache_def ao2_alloc_def Let_def)
  ultimately show ?thesis using m by (intro exI [of _ "st\<lparr>heap := h2, refs := ?evs\<rparr>"] exI [of _ ?c']) simp
qed


lemma event_queue_some:
  assumes "tris_event_get_type e = Some t" "t < TRIS_EVENT_TOTAL"
  shows "\<exists>r es'. tris_event_queue a b e es = Some (r, es')"
proof -
  have "\<exists>f. find_subscriber [] subs = Some f" for subs :: "'c tris_event_sub list"
    by (induction subs) auto
  then obtain f where "find_subscriber [] (tris_event_subs es t) = Some f" by blast
  then show ?thesis using assms by (simp add: tris_event_queue_def tris_event_check_subscriber_def not_le)
qed

lemma dev_type_less: "dev_type t \<Longrightarrow> t < TRIS_EVENT_TOTAL"
  by (auto simp: dev_type_def event_type_defs)

text \<open>The comparison of the cached events with the event on the stack.\<close>

lemma ref_cmp_tmp:
  assumes "cache_ok ext t q st c" "dev_type t" "dev_event t s event" "heap st tmp = None" "e \<in> set (concat (buckets c))"
  shows "fst (ref_cmp ((refs st)(tmp := event)) (bl_obj e) tmp) \<longleftrightarrow> dev_event t s (refs st (bl_obj e))"
proof -
  have "bl_obj e \<in> dom (heap st)"
    by (rule link_objs_live [of ext _ q c]) (use assms(1,5) in \<open>simp_all add: cache_ok_def\<close>)
  then have ne: "bl_obj e \<noteq> tmp" using assms(4) by auto
  obtain i where i: "i < n_buckets c" "e \<in> set (buckets c ! i)"
    using assms(1,5) by (auto simp: cache_ok_def cont_ok_def in_set_conv_nth [of _ "buckets c"])
  then obtain s' where s': "dev_event t s' (refs st (bl_obj e))"
    using assms(1) by (auto simp: cache_ok_def cache_links_def)
  have "tris_event_cmp (refs st (bl_obj e)) event = Some (s' = s)"
    by (rule dev_event_cmp [OF s' assms(3,2)])
  then have "fst (ref_cmp ((refs st)(tmp := event)) (bl_obj e) tmp) \<longleftrightarrow> s' = s" using ne by (simp add: ref_cmp_def)
  moreover have "dev_event t s (refs st (bl_obj e)) \<longleftrightarrow> s' = s" using s' dev_event_device [OF s' _ assms(2)] by blast
  ultimately show ?thesis by blast
qed

lemma queue_and_cache_ok:
  assumes "cache_ok ext t q st c" "dev_type t" "dev_event t s event" "heap st tmp = None" "heap st p = None"
  shows "\<exists>res st' es' c'. tris_event_queue_and_cache tmp (True, Some p, True) qmem event st es = Some (res, st', es') \<and>
    cache_ok ext t q st' c' \<and>
    mset (cached (refs st') c') = add_mset event (filter_mset (\<lambda>e. \<not> dev_event t s e) (mset (cached (refs st) c)))"
proof -
  let ?evs = "(refs st)(tmp := event)"
  have c: "refs_inv ext {} (heap st)" "q \<in># ext" "containers st t = Some q" "the_container (heap st) q = Some c"
    "cont_ok c" "cache_links t (refs st) c"
    using assms(1) by (simp_all add: cache_ok_def)
  note see = see_events_ok [OF c(1,4), of ?evs]
  let ?c = "fns ?evs c" and ?i = "dev_bucket c s"
  have hash: "hash_fn ?c tmp = sint (tris_str_hash s)" "0 \<le> sint (tris_str_hash s)"
    using dev_event_ref_hash [of t s ?evs tmp] assms(2,3) by simp_all
  have "\<exists>h' c'. ao2_callback remove_flags (\<lambda>p. ref_cmp ?evs p tmp) q tmp (see_events q ?evs (heap st)) = Some (None, h') \<and>
      refs_inv ext {} h' \<and> the_container h' q = Some c' \<and> cont_ok c' \<and> same_kind ?c c' \<and> dom h' \<subseteq> dom (see_events q ?evs (heap st)) \<and>
      buckets c' = (buckets ?c)[nat (hash_fn ?c tmp) mod n_buckets ?c :=
        filter (\<lambda>e. \<not> fst (ref_cmp ?evs (bl_obj e) tmp)) (buckets ?c ! (nat (hash_fn ?c tmp) mod n_buckets ?c))]"
    by (rule ao2_callback_unlink_bucket [OF _ _ _ _ _ _ see(1) c(2) see(2)])
      (use hash c(5) in \<open>simp_all add: remove_flags_def ref_cmp_def fns_ok\<close>)
  then obtain h1 c1 where h1: "ao2_callback remove_flags (\<lambda>p. ref_cmp ?evs p tmp) q tmp (see_events q ?evs (heap st)) = Some (None, h1)"
    "refs_inv ext {} h1" "the_container h1 q = Some c1" "cont_ok c1" "same_kind ?c c1" "dom h1 \<subseteq> dom (heap st)"
    "buckets c1 = (buckets c)[?i := filter (\<lambda>e. \<not> fst (ref_cmp ?evs (bl_obj e) tmp)) (buckets c ! ?i)]"
    unfolding see(3) using hash by (auto simp: dev_bucket_def)
  have n: "n_buckets c1 = n_buckets c" "?i < n_buckets c" "length (buckets c) = n_buckets c"
    using h1(5) c(5) by (auto simp: same_kind_def dev_bucket_def cont_ok_def)
  have m1: "mset (cached (refs st) c1) = filter_mset (\<lambda>e. \<not> dev_event t s e) (mset (cached (refs st) c))"
    by (rule remove_device [OF c(5,6) assms(2) refl h1(7)]) (use ref_cmp_tmp [OF assms(1-4)] in blast)
  have "cache_links t (refs st) c1"
    unfolding cache_links_def
  proof (intro allI impI ballI)
    fix i e assume i: "i < n_buckets c1" and e: "e \<in> set (buckets c1 ! i)"
    have "e \<in> set (buckets c ! i)" using i e n by (auto simp: h1(7) nth_list_update split: if_splits)
    then show "\<exists>s. dev_event t s (refs st (bl_obj e)) \<and> dev_bucket c1 s = i"
      using c(6) i n(1) by (auto simp: cache_links_def dev_bucket_def)
  qed
  then have ok1: "cache_ok ext t q (st\<lparr>heap := h1\<rparr>) c1" using c h1 by (simp add: cache_ok_def)
  have "heap (st\<lparr>heap := h1\<rparr>) p = None" using h1(6) assms(5) by (auto simp: domIff)
  from dup_and_cache_ok [OF ok1 assms(2,3) this] obtain st' c' where
    st': "tris_event_dup_and_cache (True, Some p, True) event (st\<lparr>heap := h1\<rparr>) = Some (0, st')" "cache_ok ext t q st' c'"
      "mset (cached (refs st') c') = add_mset event (mset (cached (refs st) c1))"
    by auto
  obtain r es' where r: "tris_event_queue (fst qmem) (snd qmem) event es = Some (r, es')"
    using event_queue_some [OF dev_event_type [OF assms(3)] dev_type_less [OF assms(2)]] by blast
  have "tris_event_queue_and_cache tmp (True, Some p, True) qmem event st es = Some (if r \<noteq> 0 then -1 else 0, st', es')"
    using dev_event_type [OF assms(3)] dev_type_less [OF assms(2)] c(3) h1(1) st'(1) r
    by (simp add: tris_event_queue_and_cache_def Let_def not_le)
  then show ?thesis using st'(2,3) unfolding m1 by blast
qed

text \<open>The key of an event as the table of the cache has it: the device, and for a change of state the entity id of
  the server as well.\<close>

definition server_event :: "u16 \<Rightarrow> bytes \<Rightarrow> bytes \<Rightarrow> bytes \<Rightarrow> bool" where
  "server_event t s eid e \<longleftrightarrow> 0 \<notin> set s \<and> tris_str_hash s \<noteq> 0x80000000 \<and>
     (\<exists>ies. ies \<noteq> [] \<and> ies_len ies < 2 ^ 16 \<and> e = encode t ies \<and>
        map_of ies TRIS_EVENT_IE_DEVICE = Some (enc_str s) \<and> map_of ies TRIS_EVENT_IE_EID = Some eid)"

definition same_key :: "u16 \<Rightarrow> bytes \<Rightarrow> bytes \<Rightarrow> bytes \<Rightarrow> bool" where
  "same_key t s eid e \<longleftrightarrow> (if t = TRIS_EVENT_DEVICE_STATE_CHANGE then server_event t s eid e else dev_event t s e)"

lemma server_event_dev: "server_event t s eid e \<Longrightarrow> dev_event t s e"
  unfolding server_event_def dev_event_def by auto

text \<open>Claim C30. The cache keeps the last event of each key, as long as the changes of state of a device come from
  one server: queueing and caching an event of a device, with memory for its copy, replaces the cached events of its key by it
  and leaves the others, and keeps the cache valid. The key is the device, and for changes of state
  the device and the entity id; for these the cached events of the device are assumed to have the
  entity id of the new one. (Of several servers the last one's change replaces all, because entity ids are
  not compared: \<open>servers_not_told_apart\<close>.) Device names have no zero in them and a hash that is not the least
  integer.\<close>

theorem event_cache_last:
  assumes "cache_ok ext t q st c" "dev_type t" "server_event t s eid event" "heap st tmp = None" "heap st p = None"
    and "t = TRIS_EVENT_DEVICE_STATE_CHANGE \<longrightarrow> (\<forall>e \<in> set (cached (refs st) c). dev_event t s e \<longrightarrow> server_event t s eid e)"
  shows "\<exists>res st' es' c'. tris_event_queue_and_cache tmp (True, Some p, True) qmem event st es = Some (res, st', es') \<and>
    cache_ok ext t q st' c' \<and>
    mset (cached (refs st') c') = add_mset event (filter_mset (\<lambda>e. \<not> same_key t s eid e) (mset (cached (refs st) c)))"
proof -
  have "filter_mset (\<lambda>e. \<not> dev_event t s e) (mset (cached (refs st) c)) =
      filter_mset (\<lambda>e. \<not> same_key t s eid e) (mset (cached (refs st) c))"
    using assms(6) server_event_dev by (intro filter_mset_cong) (auto simp: same_key_def)
  then show ?thesis using queue_and_cache_ok [OF assms(1,2) server_event_dev [OF assms(3)] assms(4,5)] by simp
qed

lemma event_new_empty:
  assumes "t < TRIS_EVENT_TOTAL" "8 + length eid < 2 ^ 16"
  shows "tris_event_new (True, [], True) [0, 0, 0, 0] eid t [] = Some (Some (encode t [(TRIS_EVENT_IE_EID, eid)]))"
proof -
  have e: "be16 t @ be16 4 = encode t []" by (simp add: encode_def ies_len_def)
  have s: "tris_event_get_size (encode t [] @ [0, 0, 0, 0]) = Some 4" by (simp add: ies_len_def)
  have "read16 (encode t [] @ [0, 0, 0, 0]) 4 = Some 0" "read16 (encode t [] @ [0, 0, 0, 0]) 6 = Some 0"
    by (simp_all add: read16_def read_bytes_def ies_len_def of_be16_def)
  then have "tris_event_get_ie_raw (encode t [] @ [0, 0, 0, 0]) TRIS_EVENT_IE_EID = Some None"
    using s by (simp add: tris_event_get_ie_raw_def tris_event_iterator_init_def search_ie.simps
        tris_event_iterator_get_ie_type_def tris_event_iterator_next_def ie_type_defs)
  then show ?thesis
    using assms append_encode [of "[]" eid t TRIS_EVENT_IE_EID] by (simp add: tris_event_new_def e not_le ies_len_def)
qed

lemma find_flags_simps:
  "\<not> OBJ_NODATA find_flags" "\<not> OBJ_UNLINK find_flags" "\<not> OBJ_MULTIPLE find_flags" "\<not> OBJ_CONTINUE find_flags"
  by (simp_all add: find_flags_def)

text \<open>Asking the cache for a device returns a copy of a cached event of that device, or nothing
  when no event of the device is cached, and changes nothing that the cache holds.\<close>

theorem event_get_cached:
  assumes "cache_ok ext t q st c" "dev_type t" "heap st tmp = None"
    and "0 \<notin> set s" "tris_str_hash s \<noteq> 0x80000000" "length s + length eid + 17 < 2 ^ 16"
  shows "\<exists>r st' c'. tris_event_get_cached tmp ((True, True), [True], True) [0, 0, 0, 0] eid t
      [\<lparr>ie_type = TRIS_EVENT_IE_DEVICE, ie_payload = PLTYPE_STR s\<rparr>] st = Some (r, st') \<and>
    cache_ok ext t q st' c' \<and> cached (refs st') c' = cached (refs st) c \<and>
    (case r of
       None \<Rightarrow> \<forall>e \<in> set (cached (refs st) c). \<not> dev_event t s e
     | Some e \<Rightarrow> e \<in> set (cached (refs st) c) \<and> dev_event t s e)"
proof -
  have c: "refs_inv ext {} (heap st)" "q \<in># ext" "containers st t = Some q" "the_container (heap st) q = Some c"
    "cont_ok c" "cache_links t (refs st) c"
    using assms(1) by (simp_all add: cache_ok_def)
  have t: "t < TRIS_EVENT_TOTAL" by (rule dev_type_less [OF assms(2)])
  define ies where "ies = [(TRIS_EVENT_IE_EID, eid), (TRIS_EVENT_IE_DEVICE, enc_str s)]"
  define key where "key = encode t ies"
  have len: "ies_len ies < 2 ^ 16" using assms(6) by (simp add: ies_def ies_len_def enc_str_def)
  have v: "val_ies \<lparr>ie_type = TRIS_EVENT_IE_DEVICE, ie_payload = PLTYPE_STR s\<rparr> = [(TRIS_EVENT_IE_DEVICE, enc_str s)]"
    by (simp add: val_ies_def)
  have new: "tris_event_new (True, [], True) [0, 0, 0, 0] eid t [] = Some (Some (encode t [(TRIS_EVENT_IE_EID, eid)]))"
    using assms(6) by (intro event_new_empty [OF t]) simp
  have app: "append_ie_vals [True] (encode t [(TRIS_EVENT_IE_EID, eid)])
      [\<lparr>ie_type = TRIS_EVENT_IE_DEVICE, ie_payload = PLTYPE_STR s\<rparr>] = Some (Some key)"
    using append_ie_vals_encode [of "[(TRIS_EVENT_IE_EID, eid)]" "[\<lparr>ie_type = TRIS_EVENT_IE_DEVICE, ie_payload = PLTYPE_STR s\<rparr>]" t]
      len by (simp add: vals_ies_def v ies_def key_def)
  have key: "dev_event t s key"
    unfolding dev_event_def key_def using assms(4,5) len
    by (intro conjI exI [of _ ies]) (simp_all add: ies_def ie_type_defs)
  let ?evs = "(refs st)(tmp := key)"
  note see = see_events_ok [OF c(1,4), of ?evs]
  let ?c = "fns ?evs c" and ?h = "see_events q ?evs (heap st)"
  have same: "?evs (bl_obj e) = refs st (bl_obj e)" if "e \<in> set (concat (buckets c))" for e
    using link_objs_live [OF c(1,4) that] assms(3) by auto
  have cmp: "fst (ref_cmp ?evs (bl_obj e) tmp) \<longleftrightarrow> dev_event t s (refs st (bl_obj e))" if "e \<in> set (concat (buckets c))" for e
    by (rule ref_cmp_tmp [OF assms(1,2) key assms(3) that])
  have hash: "ref_hash ?evs (bl_obj e) = ref_hash ?evs tmp"
    if "e \<in> set (concat (buckets c))" "dev_event t s (refs st (bl_obj e))" for e
    using dev_event_ref_hash [of t s ?evs "bl_obj e"] dev_event_ref_hash [of t s ?evs tmp] that same [OF that(1)] key assms(2) by simp
  have bucket: "link_bucket ?c (bl_obj e) = Some i" if i: "i < n_buckets c" "e \<in> set (buckets c ! i)" for i e
  proof -
    have e: "e \<in> set (concat (buckets c))" by (rule link_in_concat [OF i(1) c(5) i(2)])
    obtain s' where s': "dev_event t s' (refs st (bl_obj e))" "dev_bucket c s' = i"
      using c(6) i by (auto simp: cache_links_def)
    have "0 < n_buckets c" using c(5) by (simp add: cont_ok_def)
    then show ?thesis using dev_event_ref_hash [of t s' ?evs "bl_obj e"] s' same [OF e] assms(2)
      by (simp add: link_bucket_def dev_bucket_def)
  qed
  have sel: "buckets ?c = buckets c" "cmp_fn ?c = ref_cmp ?evs" by simp_all
  have ok: "cont_ok ?c" using c(5) by (simp add: fns_ok)
  have "\<exists>r h'. ao2_find find_flags q tmp ?h = Some (r, h') \<and>
    (case r of
       None \<Rightarrow> h' = ?h \<and> (\<forall>e \<in> set (concat (buckets ?c)). \<not> fst (cmp_fn ?c (bl_obj e) tmp))
     | Some p \<Rightarrow> fst (cmp_fn ?c p tmp) \<and> p \<in> bl_obj ` set (concat (buckets ?c)) \<and>
         h' = take_ref p ?h \<and> refs_inv (add_mset p ext) {} h')"
  proof (rule ao2_find_linked [OF find_flags_simps see(1,2) ok])
    show "\<forall>p. snd (cmp_fn ?c p tmp) \<longrightarrow> fst (cmp_fn ?c p tmp)" by (simp add: ref_cmp_def)
    show "\<forall>e \<in> set (concat (buckets ?c)). fst (cmp_fn ?c (bl_obj e) tmp) \<longrightarrow> hash_fn ?c (bl_obj e) = hash_fn ?c tmp"
      using cmp hash by simp
    show "\<forall>i < n_buckets ?c. \<forall>e \<in> set (buckets ?c ! i). link_bucket ?c (bl_obj e) = Some i" using bucket by simp
  qed
  then obtain r h1 where f: "ao2_find find_flags q tmp ?h = Some (r, h1)"
    "case r of
       None \<Rightarrow> h1 = ?h \<and> (\<forall>e \<in> set (concat (buckets c)). \<not> fst (ref_cmp ?evs (bl_obj e) tmp))
     | Some p \<Rightarrow> fst (ref_cmp ?evs p tmp) \<and> p \<in> bl_obj ` set (concat (buckets c)) \<and>
         h1 = take_ref p ?h \<and> refs_inv (add_mset p ext) {} h1"
    unfolding sel by blast
  have links: "cache_links t (refs st) ?c" "cached (refs st) ?c = cached (refs st) c"
    using c(6) by (simp_all add: cache_links_def dev_bucket_def cached_def)
  show ?thesis
  proof (cases r)
    case None
    have "tris_event_get_cached tmp ((True, True), [True], True) [0, 0, 0, 0] eid t
        [\<lparr>ie_type = TRIS_EVENT_IE_DEVICE, ie_payload = PLTYPE_STR s\<rparr>] st = Some (None, st\<lparr>heap := ?h\<rparr>)"
      using None f t c(3) new app by (simp add: tris_event_get_cached_def not_le del: append_ie_vals.simps)
    moreover have "cache_ok ext t q (st\<lparr>heap := ?h\<rparr>) ?c" using c(2,3) see links ok by (simp add: cache_ok_def)
    moreover have "\<forall>e \<in> set (cached (refs st) c). \<not> dev_event t s e" using None f cmp by (auto simp: cached_def)
    ultimately show ?thesis using links(2)
      by (intro exI [of _ None] exI [of _ "st\<lparr>heap := ?h\<rparr>"] exI [of _ ?c]) simp
  next
    case (Some p)
    then have p: "fst (ref_cmp ?evs p tmp)" "p \<in> bl_obj ` set (concat (buckets c))" "h1 = take_ref p ?h"
      "refs_inv (add_mset p ext) {} h1"
      using f(2) unfolding Some option.case by blast+
    obtain e where e: "e \<in> set (concat (buckets c))" "p = bl_obj e" using p(2) by blast
    have d: "dev_event t s (refs st p)" using cmp [OF e(1)] p(1) e(2) by simp
    have cq1: "the_container h1 q = Some ?c"
      using see(2) unfolding p(3) by (auto simp: take_ref_def the_container_def split: option.splits)
    obtain u h2 where h2: "ao2_ref p (- 1) h1 = Some (u, h2)" "refs_inv ext {} h2" "released {} h1 h2"
      using ao2_unref_inv [OF p(4)] by blast
    have "q \<in> dom h2" using refs_inv_live [OF h2(2) c(2)] by simp
    then have cq2: "the_container h2 q = Some ?c" by (rule released_container [OF h2(3) _ cq1])
    have "tris_event_get_cached tmp ((True, True), [True], True) [0, 0, 0, 0] eid t
        [\<lparr>ie_type = TRIS_EVENT_IE_DEVICE, ie_payload = PLTYPE_STR s\<rparr>] st = Some (Some (refs st p), st\<lparr>heap := h2\<rparr>)"
      using Some f(1) t c(3) new app dev_event_dup [OF d] h2(1) by (simp add: tris_event_get_cached_def not_le del: append_ie_vals.simps)
    moreover have "cache_ok ext t q (st\<lparr>heap := h2\<rparr>) ?c" using c(2,3) h2(2) cq2 links ok by (simp add: cache_ok_def)
    moreover have "refs st p \<in> set (cached (refs st) c)" using e by (auto simp: cached_def)
    ultimately show ?thesis using links(2) d
      by (intro exI [of _ "Some (refs st p)"] exI [of _ "st\<lparr>heap := h2\<rparr>"] exI [of _ ?c]) simp
  qed
qed

text \<open>A cache with no event yet, in a container at address 9, and events of two servers.\<close>

definition sample_cache :: cache_state where
  "sample_cache = \<lparr>heap = [9 \<mapsto> \<lparr>ref_counter = 1,
       user_data = Container (new_container NUM_CACHE_BUCKETS (Some (ref_hash (\<lambda>p. []))) (ref_cmp (\<lambda>p. [])))\<rparr>],
     refs = (\<lambda>p. []), containers = [TRIS_EVENT_DEVICE_STATE_CHANGE \<mapsto> 9]\<rparr>"

definition sample_change :: "u8 \<Rightarrow> bytes" where
  "sample_change n = encode TRIS_EVENT_DEVICE_STATE_CHANGE
     [(TRIS_EVENT_IE_DEVICE, enc_str [83]), (TRIS_EVENT_IE_EID, [n, 0, 0, 0, 0, 0])]"

lemma sample_cache_ok:
  "cache_ok {#9#} TRIS_EVENT_DEVICE_STATE_CHANGE 9 sample_cache
     (new_container NUM_CACHE_BUCKETS (Some (ref_hash (\<lambda>p. []))) (ref_cmp (\<lambda>p. [])))"
  "cached (refs sample_cache) (new_container NUM_CACHE_BUCKETS (Some (ref_hash (\<lambda>p. []))) (ref_cmp (\<lambda>p. []))) = []"
proof -
  let ?c = "new_container NUM_CACHE_BUCKETS (Some (ref_hash (\<lambda>p. []))) (ref_cmp (\<lambda>p. []))"
  have b: "set (buckets ?c) = {[]}" "owned (Container ?c) = []"
    by (simp_all add: new_container_def NUM_CACHE_BUCKETS_def owned_def)
  have "refs_inv {#9#} {} (heap sample_cache)"
    unfolding refs_inv_def by (auto simp: held_def sample_cache_def b)
  moreover have "cache_links TRIS_EVENT_DEVICE_STATE_CHANGE (refs sample_cache) ?c"
    by (simp add: cache_links_def new_container_def)
  moreover have "cont_ok ?c" by (rule new_container_ok) (simp add: NUM_CACHE_BUCKETS_def)
  ultimately show "cache_ok {#9#} TRIS_EVENT_DEVICE_STATE_CHANGE 9 sample_cache ?c"
    by (simp add: cache_ok_def sample_cache_def the_container_def)
  show "cached (refs sample_cache) ?c = []" by (simp add: cached_def new_container_def)
qed

lemma sample_change_dev: "dev_event TRIS_EVENT_DEVICE_STATE_CHANGE [83] (sample_change n)"
proof -
  have "tris_str_hash [83] \<noteq> 0x80000000"
    by (simp add: tris_str_hash_def tris_str_hash_add_def hash_step_def word_sless_alt)
  then show ?thesis unfolding dev_event_def sample_change_def
    by (intro conjI exI [of _ "[(TRIS_EVENT_IE_DEVICE, enc_str [83]), (TRIS_EVENT_IE_EID, [n, 0, 0, 0, 0, 0])]"])
      (simp_all add: ies_len_def enc_str_def ie_type_defs)
qed

lemma sample_change_server: "server_event TRIS_EVENT_DEVICE_STATE_CHANGE [83] [n, 0, 0, 0, 0, 0] (sample_change n)"
proof -
  have "tris_str_hash [83] \<noteq> 0x80000000" using sample_change_dev by (simp add: dev_event_def)
  then show ?thesis unfolding server_event_def sample_change_def
    by (intro conjI exI [of _ "[(TRIS_EVENT_IE_DEVICE, enc_str [83]), (TRIS_EVENT_IE_EID, [n, 0, 0, 0, 0, 0])]"])
      (simp_all add: ies_len_def enc_str_def ie_type_defs)
qed

theorem event_cache_last_witness:
  "\<exists>res st' es' c'. tris_event_queue_and_cache 0 (True, Some 1, True) (True, True) (sample_change 1) sample_cache sample_subs =
      Some (res, st', es') \<and> mset (cached (refs st') c') = {#sample_change 1#}"
proof -
  have "dev_type TRIS_EVENT_DEVICE_STATE_CHANGE" by (simp add: dev_type_def)
  then show ?thesis
    using event_cache_last [where tmp = 0 and p = 1 and qmem = "(True, True)" and es = sample_subs,
        OF sample_cache_ok(1) _ sample_change_server [of 1]] sample_cache_ok(2)
    by (auto simp: sample_cache_def)
qed

text \<open>The changes of state of one device on two servers are the same key to the comparison.\<close>

lemma servers_not_told_apart: "tris_event_cmp (sample_change 1) (sample_change 2) = Some True"
  using dev_event_cmp [OF sample_change_dev sample_change_dev] by (simp add: dev_type_def)

theorem event_get_cached_witness:
  "\<exists>st'. tris_event_get_cached 0 ((True, True), [True], True) [0, 0, 0, 0] [1, 2, 3, 4, 5, 6] TRIS_EVENT_DEVICE_STATE_CHANGE
      [\<lparr>ie_type = TRIS_EVENT_IE_DEVICE, ie_payload = PLTYPE_STR [83]\<rparr>] sample_cache = Some (None, st')"
proof -
  have "dev_type TRIS_EVENT_DEVICE_STATE_CHANGE" "heap sample_cache 0 = None" "0 \<notin> set [83 :: u8]"
    "length [83 :: u8] + length [1, 2, 3, 4, 5, 6 :: u8] + 17 < 2 ^ 16"
    by (simp_all add: dev_type_def sample_cache_def)
  moreover have "tris_str_hash [83] \<noteq> 0x80000000" using sample_change_dev by (simp add: dev_event_def)
  ultimately show ?thesis
    using event_get_cached [OF sample_cache_ok(1), of 0 "[83]" "[1, 2, 3, 4, 5, 6]"] sample_cache_ok(2)
    by (auto split: option.splits)
qed


end
