(* ===== verification/Devstate.thy ===== *)
theory Devstate
  imports CString EventCache
begin

text \<open>
  Device states, \<open>main/devicestate.c\<close>: the names of states, the provider of a device's state, the
  aggregation of several states into one, and the reporting of changes.

  Channel drivers, the callbacks of providers and the list of channels are parameters: \<open>tech\<close> gives
  the driver of a technology (\<open>None\<close>: there is none) with its state callback, if it has one. Locks,
  threads and debug output are left out; a thread's loop is the function that handles what was queued.
\<close>

section \<open>States and their names\<close>

datatype tris_device_state =
    TRIS_DEVICE_UNKNOWN
  | TRIS_DEVICE_NOT_INUSE
  | TRIS_DEVICE_INUSE
  | TRIS_DEVICE_BUSY
  | TRIS_DEVICE_INVALID
  | TRIS_DEVICE_UNAVAILABLE
  | TRIS_DEVICE_RINGING
  | TRIS_DEVICE_RINGINUSE
  | TRIS_DEVICE_ONHOLD
  | TRIS_DEVICE_TOTAL

definition all_states :: "tris_device_state list" where
  "all_states = [TRIS_DEVICE_UNKNOWN, TRIS_DEVICE_NOT_INUSE, TRIS_DEVICE_INUSE, TRIS_DEVICE_BUSY, TRIS_DEVICE_INVALID,
     TRIS_DEVICE_UNAVAILABLE, TRIS_DEVICE_RINGING, TRIS_DEVICE_RINGINUSE, TRIS_DEVICE_ONHOLD]"

text \<open>The number of a state, which events carry.\<close>

fun state_num :: "tris_device_state \<Rightarrow> u32" where
  "state_num TRIS_DEVICE_UNKNOWN = 0"
| "state_num TRIS_DEVICE_NOT_INUSE = 1"
| "state_num TRIS_DEVICE_INUSE = 2"
| "state_num TRIS_DEVICE_BUSY = 3"
| "state_num TRIS_DEVICE_INVALID = 4"
| "state_num TRIS_DEVICE_UNAVAILABLE = 5"
| "state_num TRIS_DEVICE_RINGING = 6"
| "state_num TRIS_DEVICE_RINGINUSE = 7"
| "state_num TRIS_DEVICE_ONHOLD = 8"
| "state_num TRIS_DEVICE_TOTAL = 9"

text \<open>The table of names; it is not to be read at \<open>TRIS_DEVICE_TOTAL\<close>.\<close>

fun devstatestring :: "tris_device_state \<Rightarrow> (string \<times> string) option" where
  "devstatestring TRIS_DEVICE_UNKNOWN = Some (''Unknown'', ''UNKNOWN'')"
| "devstatestring TRIS_DEVICE_NOT_INUSE = Some (''Not in use'', ''NOT_INUSE'')"
| "devstatestring TRIS_DEVICE_INUSE = Some (''In use'', ''INUSE'')"
| "devstatestring TRIS_DEVICE_BUSY = Some (''Busy'', ''BUSY'')"
| "devstatestring TRIS_DEVICE_INVALID = Some (''Invalid'', ''INVALID'')"
| "devstatestring TRIS_DEVICE_UNAVAILABLE = Some (''Unavailable'', ''UNAVAILABLE'')"
| "devstatestring TRIS_DEVICE_RINGING = Some (''Ringing'', ''RINGING'')"
| "devstatestring TRIS_DEVICE_RINGINUSE = Some (''Ring+Inuse'', ''RINGINUSE'')"
| "devstatestring TRIS_DEVICE_ONHOLD = Some (''On Hold'', ''ONHOLD'')"
| "devstatestring TRIS_DEVICE_TOTAL = None"

definition tris_devstate2str :: "tris_device_state \<Rightarrow> string option" where
  "tris_devstate2str s = map_option fst (devstatestring s)"

definition tris_devstate_str :: "tris_device_state \<Rightarrow> string option" where
  "tris_devstate_str s = map_option snd (devstatestring s)"

definition tris_devstate_val :: "string \<Rightarrow> tris_device_state" where
  "tris_devstate_val val =
     (if strcaseeq val ''NOT_INUSE'' then TRIS_DEVICE_NOT_INUSE
      else if strcaseeq val ''INUSE'' then TRIS_DEVICE_INUSE
      else if strcaseeq val ''BUSY'' then TRIS_DEVICE_BUSY
      else if strcaseeq val ''INVALID'' then TRIS_DEVICE_INVALID
      else if strcaseeq val ''UNAVAILABLE'' then TRIS_DEVICE_UNAVAILABLE
      else if strcaseeq val ''RINGING'' then TRIS_DEVICE_RINGING
      else if strcaseeq val ''RINGINUSE'' then TRIS_DEVICE_RINGINUSE
      else if strcaseeq val ''ONHOLD'' then TRIS_DEVICE_ONHOLD
      else TRIS_DEVICE_UNKNOWN)"

text \<open>States of channels by their numbers.\<close>

definition TRIS_STATE_RINGING :: u32 where "TRIS_STATE_RINGING = 5"

definition chan2dev :: "(u32 \<times> tris_device_state) list" where
  "chan2dev = [(0, TRIS_DEVICE_NOT_INUSE), (1, TRIS_DEVICE_INUSE), (2, TRIS_DEVICE_INUSE), (3, TRIS_DEVICE_INUSE),
     (4, TRIS_DEVICE_INUSE), (TRIS_STATE_RINGING, TRIS_DEVICE_RINGING), (6, TRIS_DEVICE_INUSE), (7, TRIS_DEVICE_BUSY),
     (8, TRIS_DEVICE_INUSE), (9, TRIS_DEVICE_RINGING)]"

definition tris_state_chan2dev :: "u32 \<Rightarrow> tris_device_state" where
  "tris_state_chan2dev chanstate =
     (case map_of chan2dev (chanstate AND 0xFFFF) of Some d \<Rightarrow> d | None \<Rightarrow> TRIS_DEVICE_UNKNOWN)"

section \<open>The state of a device\<close>

text \<open>The channels, each a name and a state, in the order of the list.\<close>

definition tris_parse_device_state :: "(string \<times> u32) list \<Rightarrow> string \<Rightarrow> tris_device_state" where
  "tris_parse_device_state channels device =
     (let match = take 78 device @ ''-'' in
      case find (\<lambda>(name, _). strncaseeq name match (length match)) channels of
        None \<Rightarrow> TRIS_DEVICE_UNKNOWN
      | Some (_, state) \<Rightarrow> if state = TRIS_STATE_RINGING then TRIS_DEVICE_RINGING else TRIS_DEVICE_INUSE)"

text \<open>A provider: its label and its callback, whose argument is a null pointer when the device has no
  colon.\<close>

record devstate_prov =
  label :: string
  callback :: "string option \<Rightarrow> tris_device_state"

definition tris_devstate_prov_add ::
  "bool \<Rightarrow> string \<Rightarrow> (string option \<Rightarrow> tris_device_state) option \<Rightarrow> devstate_prov list \<Rightarrow> int \<times> devstate_prov list" where
  "tris_devstate_prov_add mem lbl f provs =
     (case f of
        None \<Rightarrow> (-1, provs)
      | Some f \<Rightarrow> if mem then (0, \<lparr>label = take 39 lbl, callback = f\<rparr> # provs) else (-1, provs))"

fun tris_devstate_prov_del :: "string \<Rightarrow> devstate_prov list \<Rightarrow> int \<times> devstate_prov list" where
  "tris_devstate_prov_del lbl [] = (-1, [])"
| "tris_devstate_prov_del lbl (p # provs) =
     (if strcaseeq (label p) lbl then (0, provs)
      else (case tris_devstate_prov_del lbl provs of (res, provs) \<Rightarrow> (res, p # provs)))"

fun getproviderstate :: "devstate_prov list \<Rightarrow> string \<Rightarrow> string option \<Rightarrow> tris_device_state" where
  "getproviderstate [] provider address = TRIS_DEVICE_INVALID"
| "getproviderstate (p # provs) provider address =
     (if strcaseeq (label p) provider then callback p address else getproviderstate provs provider address)"

text \<open>What the state is computed from, and the computation: a device is \<open>technology/number\<close> or
  \<open>provider:address\<close>. \<open>cached\<close> is the state in the event cache, when it is to be looked at.\<close>

record dev_env =
  tech :: "string \<Rightarrow> (string \<Rightarrow> tris_device_state) option option"
  channels :: "(string \<times> u32) list"
  provs :: "devstate_prov list"

definition device_state_now :: "dev_env \<Rightarrow> string \<Rightarrow> tris_device_state" where
  "device_state_now env device =
     (case cut_at CHR ''/'' device of
        None \<Rightarrow>
          (case cut_at CHR '':'' device of
             None \<Rightarrow> getproviderstate (provs env) device None
           | Some (provider, number) \<Rightarrow> getproviderstate (provs env) provider (Some number))
      | Some (name, number) \<Rightarrow>
          (case tech env name of
             None \<Rightarrow> TRIS_DEVICE_INVALID
           | Some None \<Rightarrow> tris_parse_device_state (channels env) device
           | Some (Some devicestate) \<Rightarrow>
               (let res = devicestate number in
                if res \<noteq> TRIS_DEVICE_UNKNOWN then res else tris_parse_device_state (channels env) device)))"

definition tris_device_state :: "(string \<Rightarrow> tris_device_state) \<Rightarrow> dev_env \<Rightarrow> string \<Rightarrow> tris_device_state" where
  "tris_device_state devstate_cached env device =
     (let res = devstate_cached device in
      if res \<noteq> TRIS_DEVICE_UNKNOWN then res else device_state_now env device)"

section \<open>Aggregation\<close>

record tris_devstate_aggregate =
  all_unknown :: bool
  all_unavail :: bool
  all_busy :: bool
  all_free :: bool
  on_hold :: bool
  busy :: bool
  in_use :: bool
  ring :: bool

definition tris_devstate_aggregate_init :: tris_devstate_aggregate where
  "tris_devstate_aggregate_init = \<lparr>all_unknown = True, all_unavail = True, all_busy = True, all_free = True,
     on_hold = False, busy = False, in_use = False, ring = False\<rparr>"

fun tris_devstate_aggregate_add :: "tris_devstate_aggregate \<Rightarrow> tris_device_state \<Rightarrow> tris_devstate_aggregate" where
  "tris_devstate_aggregate_add agg TRIS_DEVICE_NOT_INUSE =
     agg\<lparr>all_unknown := False, all_unavail := False, all_busy := False\<rparr>"
| "tris_devstate_aggregate_add agg TRIS_DEVICE_INUSE =
     agg\<lparr>in_use := True, all_unavail := False, all_free := False, all_unknown := False\<rparr>"
| "tris_devstate_aggregate_add agg TRIS_DEVICE_RINGING =
     agg\<lparr>ring := True, all_unavail := False, all_free := False, all_unknown := False\<rparr>"
| "tris_devstate_aggregate_add agg TRIS_DEVICE_RINGINUSE =
     agg\<lparr>in_use := True, ring := True, all_unavail := False, all_free := False, all_unknown := False\<rparr>"
| "tris_devstate_aggregate_add agg TRIS_DEVICE_ONHOLD =
     agg\<lparr>all_unknown := False, all_unavail := False, all_free := False, on_hold := True\<rparr>"
| "tris_devstate_aggregate_add agg TRIS_DEVICE_BUSY =
     agg\<lparr>all_unknown := False, all_unavail := False, all_free := False, busy := True, in_use := True\<rparr>"
| "tris_devstate_aggregate_add agg TRIS_DEVICE_UNAVAILABLE =
     agg\<lparr>all_unknown := False, all_busy := False, all_free := False\<rparr>"
| "tris_devstate_aggregate_add agg TRIS_DEVICE_INVALID = agg\<lparr>all_busy := False, all_free := False\<rparr>"
| "tris_devstate_aggregate_add agg TRIS_DEVICE_UNKNOWN = agg\<lparr>all_busy := False, all_free := False\<rparr>"
| "tris_devstate_aggregate_add agg TRIS_DEVICE_TOTAL = agg"

definition tris_devstate_aggregate_result :: "tris_devstate_aggregate \<Rightarrow> tris_device_state" where
  "tris_devstate_aggregate_result agg =
     (if all_free agg then TRIS_DEVICE_NOT_INUSE
      else if (in_use agg \<or> on_hold agg) \<and> ring agg then TRIS_DEVICE_RINGINUSE
      else if ring agg then TRIS_DEVICE_RINGING
      else if busy agg then TRIS_DEVICE_BUSY
      else if in_use agg then TRIS_DEVICE_INUSE
      else if on_hold agg then TRIS_DEVICE_ONHOLD
      else if all_busy agg then TRIS_DEVICE_BUSY
      else if all_unknown agg then TRIS_DEVICE_UNKNOWN
      else if all_unavail agg then TRIS_DEVICE_UNAVAILABLE
      else TRIS_DEVICE_NOT_INUSE)"

definition aggregate :: "tris_device_state list \<Rightarrow> tris_device_state" where
  "aggregate ss = tris_devstate_aggregate_result (foldl tris_devstate_aggregate_add tris_devstate_aggregate_init ss)"

section \<open>Changes of state\<close>

text \<open>A reported change: the device and its state, which \<open>devstate_event\<close> is called with. \<open>thread\<close>: the
  thread that handles queued changes runs; \<open>mem\<close>: a change can be queued.\<close>

definition do_state_change :: "dev_env \<Rightarrow> string \<Rightarrow> string \<times> tris_device_state" where
  "do_state_change env device = (device, device_state_now env device)"

definition tris_devstate_changed_literal ::
  "bool \<Rightarrow> bool \<Rightarrow> dev_env \<Rightarrow> tris_device_state \<Rightarrow> string \<Rightarrow> string list \<Rightarrow> (string \<times> tris_device_state) list \<times> string list" where
  "tris_devstate_changed_literal thread mem env state device state_changes =
     (if state \<noteq> TRIS_DEVICE_UNKNOWN then ([(device, state)], state_changes)
      else if \<not> thread \<or> \<not> mem then ([do_state_change env device], state_changes)
      else ([], state_changes @ [device]))"

text \<open>The formatted variants cut the name of the device to a buffer of 80.\<close>

definition tris_devstate_changed ::
  "bool \<Rightarrow> bool \<Rightarrow> dev_env \<Rightarrow> tris_device_state \<Rightarrow> string \<Rightarrow> string list \<Rightarrow> (string \<times> tris_device_state) list \<times> string list" where
  "tris_devstate_changed thread mem env state formatted = tris_devstate_changed_literal thread mem env state (take 79 formatted)"

definition tris_device_state_changed ::
  "bool \<Rightarrow> bool \<Rightarrow> dev_env \<Rightarrow> string \<Rightarrow> string list \<Rightarrow> (string \<times> tris_device_state) list \<times> string list" where
  "tris_device_state_changed thread mem env formatted =
     tris_devstate_changed_literal thread mem env TRIS_DEVICE_UNKNOWN (take 79 formatted)"

text \<open>One round of the thread: the whole queue is taken.\<close>

definition do_devstate_changes :: "dev_env \<Rightarrow> string list \<Rightarrow> (string \<times> tris_device_state) list \<times> string list" where
  "do_devstate_changes env state_changes = (map (do_state_change env) state_changes, [])"

section \<open>The aggregate of several states\<close>

text \<open>The fields after adding states, in terms of the set of states.\<close>

lemma aggregate_fields:
  "foldl tris_devstate_aggregate_add tris_devstate_aggregate_init ss =
     \<lparr>all_unknown = (set ss \<subseteq> {TRIS_DEVICE_UNKNOWN, TRIS_DEVICE_INVALID, TRIS_DEVICE_TOTAL}),
      all_unavail = (set ss \<subseteq> {TRIS_DEVICE_UNAVAILABLE, TRIS_DEVICE_UNKNOWN, TRIS_DEVICE_INVALID, TRIS_DEVICE_TOTAL}),
      all_busy = (set ss \<inter> {TRIS_DEVICE_NOT_INUSE, TRIS_DEVICE_UNAVAILABLE, TRIS_DEVICE_INVALID, TRIS_DEVICE_UNKNOWN} = {}),
      all_free = (set ss \<subseteq> {TRIS_DEVICE_NOT_INUSE, TRIS_DEVICE_TOTAL}),
      on_hold = (TRIS_DEVICE_ONHOLD \<in> set ss),
      busy = (TRIS_DEVICE_BUSY \<in> set ss),
      in_use = (set ss \<inter> {TRIS_DEVICE_INUSE, TRIS_DEVICE_RINGINUSE, TRIS_DEVICE_BUSY} \<noteq> {}),
      ring = (set ss \<inter> {TRIS_DEVICE_RINGING, TRIS_DEVICE_RINGINUSE} \<noteq> {})\<rparr>"
proof (induction ss rule: rev_induct)
  case (snoc s ss)
  then show ?case by (cases s) simp_all
qed (simp add: tris_devstate_aggregate_init_def)

text \<open>What the states of several devices mean together. Busy counts as in use here, and a busy device
  that rings as well makes the whole ringing and in use.\<close>

definition aggregate_meaning :: "tris_device_state set \<Rightarrow> tris_device_state" where
  "aggregate_meaning S =
     (let rings = (TRIS_DEVICE_RINGING \<in> S \<or> TRIS_DEVICE_RINGINUSE \<in> S);
          engaged = (S \<inter> {TRIS_DEVICE_INUSE, TRIS_DEVICE_RINGINUSE, TRIS_DEVICE_BUSY, TRIS_DEVICE_ONHOLD} \<noteq> {})
      in if rings \<and> engaged then TRIS_DEVICE_RINGINUSE
         else if rings then TRIS_DEVICE_RINGING
         else if TRIS_DEVICE_BUSY \<in> S then TRIS_DEVICE_BUSY
         else if TRIS_DEVICE_INUSE \<in> S then TRIS_DEVICE_INUSE
         else if TRIS_DEVICE_ONHOLD \<in> S then TRIS_DEVICE_ONHOLD
         else if TRIS_DEVICE_NOT_INUSE \<in> S \<or> S = {} then TRIS_DEVICE_NOT_INUSE
         else if TRIS_DEVICE_UNAVAILABLE \<in> S then TRIS_DEVICE_UNAVAILABLE
         else TRIS_DEVICE_UNKNOWN)"

text \<open>The aggregate of a list of device states depends on the set of states only, neither on
  their order nor on how often each occurs, and is the one of \<open>aggregate_meaning\<close>: anything engaged
  beside anything ringing is ringing and in use, one busy device makes the whole busy, one free device
  outweighs unavailable, unknown and invalid ones, and no device at all is free.\<close>

theorem aggregate_by_set:
  assumes "TRIS_DEVICE_TOTAL \<notin> set ss"
  shows "aggregate ss = aggregate_meaning (set ss)"
proof -
  have free: "set ss \<subseteq> {TRIS_DEVICE_NOT_INUSE, TRIS_DEVICE_TOTAL} \<longleftrightarrow> set ss \<subseteq> {TRIS_DEVICE_NOT_INUSE}" using assms by auto
  consider "set ss = {}" | "set ss = {TRIS_DEVICE_NOT_INUSE}" | "\<not> set ss \<subseteq> {TRIS_DEVICE_NOT_INUSE}"
    by (meson subset_singletonD)
  then show ?thesis
  proof cases
    case 1 then show ?thesis
      by (simp add: aggregate_def tris_devstate_aggregate_init_def tris_devstate_aggregate_result_def aggregate_meaning_def)
  next
    case 2 then show ?thesis
      unfolding aggregate_def aggregate_fields tris_devstate_aggregate_result_def aggregate_meaning_def Let_def by simp
  next
    case 3
    define S where "S = set ss"
    obtain x where x: "x \<in> S" "x \<noteq> TRIS_DEVICE_NOT_INUSE" "x \<noteq> TRIS_DEVICE_TOTAL" using 3 assms unfolding S_def by blast
    have ex: "y \<in> S \<Longrightarrow> y \<in> {TRIS_DEVICE_UNKNOWN, TRIS_DEVICE_NOT_INUSE, TRIS_DEVICE_INUSE, TRIS_DEVICE_BUSY, TRIS_DEVICE_INVALID,
        TRIS_DEVICE_UNAVAILABLE, TRIS_DEVICE_RINGING, TRIS_DEVICE_RINGINUSE, TRIS_DEVICE_ONHOLD}" for y
      using assms unfolding S_def by (cases y) auto
    have unk: "S \<subseteq> {TRIS_DEVICE_UNKNOWN, TRIS_DEVICE_INVALID, TRIS_DEVICE_TOTAL} \<longleftrightarrow>
        S \<inter> {TRIS_DEVICE_NOT_INUSE, TRIS_DEVICE_INUSE, TRIS_DEVICE_BUSY, TRIS_DEVICE_UNAVAILABLE,
          TRIS_DEVICE_RINGING, TRIS_DEVICE_RINGINUSE, TRIS_DEVICE_ONHOLD} = {}"
      using ex by fast
    have una: "S \<subseteq> {TRIS_DEVICE_UNAVAILABLE, TRIS_DEVICE_UNKNOWN, TRIS_DEVICE_INVALID, TRIS_DEVICE_TOTAL} \<longleftrightarrow>
        S \<inter> {TRIS_DEVICE_NOT_INUSE, TRIS_DEVICE_INUSE, TRIS_DEVICE_BUSY,
          TRIS_DEVICE_RINGING, TRIS_DEVICE_RINGINUSE, TRIS_DEVICE_ONHOLD} = {}"
      using ex by fast
    have bus: "S \<inter> {TRIS_DEVICE_NOT_INUSE, TRIS_DEVICE_UNAVAILABLE, TRIS_DEVICE_INVALID, TRIS_DEVICE_UNKNOWN} \<noteq> {}"
      if "S \<inter> {TRIS_DEVICE_INUSE, TRIS_DEVICE_BUSY, TRIS_DEVICE_RINGING, TRIS_DEVICE_RINGINUSE, TRIS_DEVICE_ONHOLD} = {}"
      using ex [OF x(1)] x that by blast
    have ne: "\<not> S \<subseteq> {TRIS_DEVICE_NOT_INUSE}" "S \<noteq> {}" using 3 unfolding S_def by auto
    show ?thesis
      unfolding aggregate_def aggregate_fields tris_devstate_aggregate_result_def aggregate_meaning_def Let_def
        tris_devstate_aggregate.simps free S_def [symmetric] unk una
      using ne bus by auto
  qed
qed

theorem aggregate_by_set_witness:
  "aggregate [TRIS_DEVICE_INVALID, TRIS_DEVICE_RINGING, TRIS_DEVICE_ONHOLD] = TRIS_DEVICE_RINGINUSE"
  using aggregate_by_set [of "[TRIS_DEVICE_INVALID, TRIS_DEVICE_RINGING, TRIS_DEVICE_ONHOLD]"]
  by (simp add: aggregate_meaning_def)

text \<open>The parseable name of a state is read back as the state, whatever the case of its
  letters.\<close>

theorem devstate_name_roundtrip:
  assumes "tris_devstate_str s = Some name" "strcaseeq val name"
  shows "tris_devstate_val val = s"
proof -
  have val: "strcaseeq val x \<longleftrightarrow> strcaseeq name x" for x
    using assms(2) by (simp add: strcaseeq_def)
  have "\<forall>s \<in> set all_states. tris_devstate_val (the (tris_devstate_str s)) = s"
    by (simp add: all_states_def tris_devstate_str_def tris_devstate_val_def strcaseeq_def tolower_chars)
  moreover have "s \<in> set all_states" using assms(1) by (cases s) (simp_all add: all_states_def tris_devstate_str_def)
  ultimately have "tris_devstate_val name = s" using assms(1) by auto
  then show ?thesis unfolding tris_devstate_val_def val .
qed

theorem devstate_name_roundtrip_witness: "tris_devstate_val ''RingInUse'' = TRIS_DEVICE_RINGINUSE"
proof -
  have "strcaseeq ''RingInUse'' ''RINGINUSE''" by (simp add: strcaseeq_def tolower_chars)
  then show ?thesis using devstate_name_roundtrip [of TRIS_DEVICE_RINGINUSE "''RINGINUSE''" "''RingInUse''"]
    by (simp add: tris_devstate_str_def)
qed


section \<open>Device states of several servers\<close>

text \<open>The events of device states. \<open>env\<close>: the address of the reference on the stack, the entity id of
  this server and the bytes behind a new event.\<close>

record event_env =
  tmp_ref :: oid
  own_eid :: bytes
  behind :: bytes

definition str_bytes :: "string \<Rightarrow> bytes" where
  "str_bytes s = map of_char s"

definition state_of_num :: "u32 \<Rightarrow> tris_device_state" where
  "state_of_num n = (if n < 9 then all_states ! unat n else TRIS_DEVICE_TOTAL)"

definition state_vals :: "bytes \<Rightarrow> tris_device_state \<Rightarrow> tris_event_ie_val list" where
  "state_vals device state =
     [\<lparr>ie_type = TRIS_EVENT_IE_DEVICE, ie_payload = PLTYPE_STR device\<rparr>,
      \<lparr>ie_type = TRIS_EVENT_IE_STATE, ie_payload = PLTYPE_UINT (state_num state)\<rparr>]"

text \<open>\<open>mem\<close> is the memory for the event, for the cache and for queueing; \<open>enabled\<close>: several servers share
  their device states.\<close>

definition devstate_event ::
  "event_env \<Rightarrow> event_mem \<times> (bool \<times> oid option \<times> bool) \<times> bool \<times> bool \<Rightarrow> bool \<Rightarrow> bytes \<Rightarrow> tris_device_state \<Rightarrow>
     cache_state \<times> 'c event_state \<Rightarrow> (cache_state \<times> 'c event_state) option" where
  "devstate_event env mem enabled device state st =
     do { ev \<leftarrow> tris_event_new (fst mem) (behind env) (own_eid env)
                 (if enabled then TRIS_EVENT_DEVICE_STATE_CHANGE else TRIS_EVENT_DEVICE_STATE) (state_vals device state);
          case ev of
            None \<Rightarrow> Some st
          | Some ev \<Rightarrow>
              map_option snd (tris_event_queue_and_cache (tmp_ref env) (fst (snd mem)) (snd (snd mem)) ev (fst st) (snd st)) }"

text \<open>The state in the cache; \<open>mem\<close> is the memory for the key and for the copy.\<close>

definition devstate_cached ::
  "event_env \<Rightarrow> (bool \<times> bool) \<times> bool list \<times> bool \<Rightarrow> bytes \<Rightarrow> cache_state \<Rightarrow> (tris_device_state \<times> cache_state) option" where
  "devstate_cached env mem device st =
     do { (ev, st) \<leftarrow> tris_event_get_cached (tmp_ref env) mem (behind env) (own_eid env) TRIS_EVENT_DEVICE_STATE
            [\<lparr>ie_type = TRIS_EVENT_IE_DEVICE, ie_payload = PLTYPE_STR device\<rparr>] st;
          case ev of
            None \<Rightarrow> Some (TRIS_DEVICE_UNKNOWN, st)
          | Some ev \<Rightarrow>
              do { n \<leftarrow> tris_event_get_ie_uint ev TRIS_EVENT_IE_STATE;
                   Some (state_of_num n, st) } }"

text \<open>The states of a device on the servers, each with the server's entity id.\<close>

definition MAX_SERVERS :: nat where "MAX_SERVERS = 64"

type_synonym change_collection = "(u32 \<times> bytes) list"

definition devstate_cache_cb :: "bytes \<Rightarrow> change_collection \<Rightarrow> change_collection option" where
  "devstate_cache_cb event collection =
     (if length collection = MAX_SERVERS then Some collection
      else
        do { eid \<leftarrow> tris_event_get_ie_raw event TRIS_EVENT_IE_EID;
             case eid of
               None \<Rightarrow> Some collection
             | Some off \<Rightarrow>
                 do { n \<leftarrow> tris_event_get_ie_uint event TRIS_EVENT_IE_STATE;
                      eid \<leftarrow> read_bytes event off 6;
                      Some (collection @ [(n, eid)]) } })"

text \<open>\<open>tris_event_dump_cache\<close>: the callback for each cached event that has the values, in the order of the
  container.\<close>

fun dump_events :: "tris_event_ie_val list \<Rightarrow> bytes list \<Rightarrow> (bytes \<Rightarrow> 'd \<Rightarrow> 'd option) \<Rightarrow> 'd \<Rightarrow> 'd option" where
  "dump_events vs [] f d = Some d"
| "dump_events vs (e # es) f d =
     do { b \<leftarrow> match_ie_vals e vs;
          d \<leftarrow> (if b then f e d else Some d);
          dump_events vs es f d }"

definition tris_event_dump_cache ::
  "u16 \<Rightarrow> tris_event_ie_val list \<Rightarrow> (bytes \<Rightarrow> 'd \<Rightarrow> 'd option) \<Rightarrow> cache_state \<Rightarrow> 'd \<Rightarrow> 'd option" where
  "tris_event_dump_cache type vs f st d =
     do { q \<leftarrow> containers st type;
          c \<leftarrow> the_container (heap st) q;
          dump_events vs (map (\<lambda>e. refs st (bl_obj e)) (concat (buckets c))) f d }"

definition process_collection ::
  "event_env \<Rightarrow> ((bool \<times> bool) \<times> bool list \<times> bool) \<times> event_mem \<times> (bool \<times> oid option \<times> bool) \<times> bool \<times> bool \<Rightarrow> bytes \<Rightarrow>
     change_collection \<Rightarrow> cache_state \<times> 'c event_state \<Rightarrow> (cache_state \<times> 'c event_state) option" where
  "process_collection env mem device collection st =
     (let state = aggregate (map (state_of_num \<circ> fst) collection) in
      do { (old, cs) \<leftarrow> tris_event_get_cached (tmp_ref env) (fst mem) (behind env) (own_eid env) TRIS_EVENT_DEVICE_STATE
             [\<lparr>ie_type = TRIS_EVENT_IE_DEVICE, ie_payload = PLTYPE_STR device\<rparr>] (fst st);
           same \<leftarrow> (case old of
                      None \<Rightarrow> Some False
                    | Some ev \<Rightarrow> map_option (\<lambda>n. n = state_num state) (tris_event_get_ie_uint ev TRIS_EVENT_IE_STATE));
           if same then Some (cs, snd st)
           else devstate_event env (snd mem) False device state (cs, snd st) })"

text \<open>A change on one server: \<open>sub\<close> tells whether the temporary subscription and its value can be had.\<close>

definition handle_devstate_change ::
  "event_env \<Rightarrow> bool \<Rightarrow> ((bool \<times> bool) \<times> bool list \<times> bool) \<times> event_mem \<times> (bool \<times> oid option \<times> bool) \<times> bool \<times> bool \<Rightarrow> bytes \<Rightarrow>
     cache_state \<times> 'c event_state \<Rightarrow> (cache_state \<times> 'c event_state) option" where
  "handle_devstate_change env sub mem device st =
     (if \<not> sub then Some st
      else
        do { collection \<leftarrow> tris_event_dump_cache TRIS_EVENT_DEVICE_STATE_CHANGE
               [\<lparr>ie_type = TRIS_EVENT_IE_DEVICE, ie_payload = PLTYPE_STR device\<rparr>] devstate_cache_cb (fst st) [];
             process_collection env mem device collection st })"

text \<open>The collector's callback: the devices whose changes are queued for it.\<close>

definition devstate_change_collector_cb :: "bool \<Rightarrow> bytes \<Rightarrow> bytes list \<Rightarrow> bytes list option" where
  "devstate_change_collector_cb mem event q =
     do { device \<leftarrow> tris_event_get_ie_str event TRIS_EVENT_IE_DEVICE;
          eid \<leftarrow> tris_event_get_ie_raw event TRIS_EVENT_IE_EID;
          state \<leftarrow> tris_event_get_ie_uint event TRIS_EVENT_IE_STATE;
          case device of
            None \<Rightarrow> Some q
          | Some d \<Rightarrow> if d = [] \<or> eid = None \<or> \<not> mem then Some q else Some (q @ [d]) }"


lemma bind_ofold_Nil [simp]: "Option.bind m (ofold f []) = m"
  by (cases m) simp_all

lemma dev_event_match:
  assumes "dev_event t s' e" "0 \<notin> set s"
  shows "match_ie_vals e [\<lparr>ie_type = TRIS_EVENT_IE_DEVICE, ie_payload = PLTYPE_STR s\<rparr>] = Some (s = s')"
proof -
  obtain ies where i: "0 \<notin> set s'" "ies \<noteq> []" "ies_len ies < 2 ^ 16" "e = encode t ies"
    "map_of ies TRIS_EVENT_IE_DEVICE = Some (enc_str s')"
    using assms(1) by (auto simp: dev_event_def)
  have "val_fits ies \<lparr>ie_type = TRIS_EVENT_IE_DEVICE, ie_payload = PLTYPE_STR s\<rparr>"
    using i(1,5) assms(2) by (auto simp: val_fits_def)
  then show ?thesis
    using i(5) unfolding i(4)
    by (simp add: match_ie_val_encode [OF i(2,3)] ie_holds_def enc_str_inj eq_commute)
qed

lemma dump_events_device:
  assumes "\<forall>e \<in> set es. \<exists>s'. dev_event t s' e" "0 \<notin> set s" "dev_type t"
  shows "dump_events [\<lparr>ie_type = TRIS_EVENT_IE_DEVICE, ie_payload = PLTYPE_STR s\<rparr>] es f d =
    ofold f (filter (dev_event t s) es) d"
  using assms(1)
proof (induction es arbitrary: d)
  case (Cons e es)
  then obtain s' where s': "dev_event t s' e" by auto
  have m: "match_ie_vals e [\<lparr>ie_type = TRIS_EVENT_IE_DEVICE, ie_payload = PLTYPE_STR s\<rparr>] = Some (s = s')"
    by (rule dev_event_match [OF s' assms(2)])
  have d: "dev_event t s e \<longleftrightarrow> s = s'" using s' dev_event_device [OF _ s' assms(3)] by blast
  have IH: "dump_events [\<lparr>ie_type = TRIS_EVENT_IE_DEVICE, ie_payload = PLTYPE_STR s\<rparr>] es f =
      ofold f (filter (dev_event t s) es)"
    using Cons by (intro ext) simp
  show ?case using m d IH by (cases "s = s'") (simp_all del: match_ie_vals.simps)
qed simp

lemma cache_links_dev: "cache_links t evs c \<Longrightarrow> cont_ok c \<Longrightarrow> e \<in> set (concat (buckets c)) \<Longrightarrow> \<exists>s. dev_event t s (evs (bl_obj e))"
  unfolding cache_links_def cont_ok_def set_concat by (metis (no_types, lifting) UN_E in_set_conv_nth)

text \<open>With several servers the collector sees one: once a server's change of a device's state
  is cached, the states collected for the device are this server's state alone, whatever the other
  servers reported before.\<close>

theorem collector_sees_last_server:
  assumes "cache_ok ext TRIS_EVENT_DEVICE_STATE_CHANGE q st c" "heap st tmp = None" "heap st p = None"
    and "dev_event TRIS_EVENT_DEVICE_STATE_CHANGE s event" "event = encode TRIS_EVENT_DEVICE_STATE_CHANGE ies"
    and "ies \<noteq> []" "ies_len ies < 2 ^ 16"
    and "map_of ies TRIS_EVENT_IE_STATE = Some (be32 n)" "map_of ies TRIS_EVENT_IE_EID = Some eid" "length eid = 6"
  shows "\<exists>res st' es'. tris_event_queue_and_cache tmp (True, Some p, True) qmem event st es = Some (res, st', es') \<and>
    tris_event_dump_cache TRIS_EVENT_DEVICE_STATE_CHANGE [\<lparr>ie_type = TRIS_EVENT_IE_DEVICE, ie_payload = PLTYPE_STR s\<rparr>]
      devstate_cache_cb st' [] = Some [(n, eid)]"
proof -
  let ?t = TRIS_EVENT_DEVICE_STATE_CHANGE
  have t: "dev_type ?t" by (simp add: dev_type_def)
  obtain res st' es' c' where st': "tris_event_queue_and_cache tmp (True, Some p, True) qmem event st es = Some (res, st', es')"
    "cache_ok ext ?t q st' c'"
    "mset (cached (refs st') c') = add_mset event (filter_mset (\<lambda>e. \<not> dev_event ?t s e) (mset (cached (refs st) c)))"
    using queue_and_cache_ok [OF assms(1) t assms(4,2,3)] by blast
  have "filter_mset (dev_event ?t s) (mset (cached (refs st') c')) = {#event#}"
    unfolding st'(3) using assms(4) by (simp add: filter_filter_mset)
  then have "mset (filter (dev_event ?t s) (cached (refs st') c')) = {#event#}" by simp
  then have f: "filter (dev_event ?t s) (cached (refs st') c') = [event]" by (simp only: mset_single_iff)
  have "\<forall>e \<in> set (cached (refs st') c'). \<exists>s'. dev_event ?t s' e"
    using cache_links_dev [of ?t "refs st'" c'] st'(2) by (simp add: cache_ok_def cached_def)
  then have d: "dump_events [\<lparr>ie_type = TRIS_EVENT_IE_DEVICE, ie_payload = PLTYPE_STR s\<rparr>] (cached (refs st') c') devstate_cache_cb [] =
      devstate_cache_cb event []"
    using dump_events_device [of "cached (refs st') c'" ?t s] f t assms(4) by (simp add: dev_event_def)
  obtain k where k: "ie_offset TRIS_EVENT_IE_EID 4 ies = Some k" using ie_offset_ex [OF assms(9)] ..
  have "tris_event_get_ie_raw event TRIS_EVENT_IE_EID = Some (Some k)"
    using get_ie_raw_encode [OF assms(6,7), of ?t "[]"] k by (simp add: assms(5))
  moreover have "tris_event_get_ie_uint event TRIS_EVENT_IE_STATE = Some n"
    unfolding assms(5) by (rule get_ie_uint_encode(2) [OF assms(6-8)])
  moreover have "read_bytes event k 6 = Some eid"
    using read_payload [OF k, of eid "[]" ?t] assms(9,10) by (simp add: assms(5))
  ultimately have "devstate_cache_cb event [] = Some [(n, eid)]" by (simp add: devstate_cache_cb_def MAX_SERVERS_def)
  then show ?thesis
    using st'(1,2) d by (simp add: tris_event_dump_cache_def cache_ok_def cached_def)
qed

definition sample_state_ies :: "(u16 \<times> bytes) list" where
  "sample_state_ies = [(TRIS_EVENT_IE_DEVICE, enc_str [83]), (TRIS_EVENT_IE_STATE, be32 1), (TRIS_EVENT_IE_EID, [1, 0, 0, 0, 0, 0])]"

theorem collector_sees_last_server_witness:
  "\<exists>res st' es'. tris_event_queue_and_cache 0 (True, Some 1, True) (True, True)
      (encode TRIS_EVENT_DEVICE_STATE_CHANGE sample_state_ies) sample_cache sample_subs = Some (res, st', es') \<and>
    tris_event_dump_cache TRIS_EVENT_DEVICE_STATE_CHANGE [\<lparr>ie_type = TRIS_EVENT_IE_DEVICE, ie_payload = PLTYPE_STR [83]\<rparr>]
      devstate_cache_cb st' [] = Some [(1, [1, 0, 0, 0, 0, 0])]"
proof -
  have "tris_str_hash [83] \<noteq> 0x80000000" using sample_change_dev by (simp add: dev_event_def)
  then have "dev_event TRIS_EVENT_DEVICE_STATE_CHANGE [83] (encode TRIS_EVENT_DEVICE_STATE_CHANGE sample_state_ies)"
    unfolding dev_event_def
    by (intro conjI exI [of _ sample_state_ies]) (simp_all add: sample_state_ies_def ies_len_def enc_str_def ie_type_defs)
  then show ?thesis
    by (intro collector_sees_last_server [OF sample_cache_ok(1) _ _ _ refl])
      (simp_all add: sample_state_ies_def ies_len_def enc_str_def ie_type_defs sample_cache_def)
qed


end
