(* ===== verification/PbxHints.thy ===== *)
theory PbxHints
  imports Devstate
begin

text \<open>
  Hints of \<open>main/pbx.c\<close>: extensions that stand for devices, and the watchers of their states.

  An extension is named by the address of its \<open>struct tris_exten\<close>. Finding the extension of a hint in
  the dialplan, and adding one for a pattern, are parameters; \<open>dev\<close> is the function
  \<open>tris_device_state\<close> at the time. A call of a watcher is an element of the list of calls. Locks are left
  out.
\<close>

record tris_exten =
  e_addr :: nat
  e_context :: string
  e_exten :: string
  e_app :: string

record ('c, 'd) tris_state_cb =
  cb_id :: int
  cb_data :: 'd
  cb_callback :: 'c

record ('c, 'd) tris_hint =
  h_exten :: tris_exten
  laststate :: int
  callbacks :: "('c, 'd) tris_state_cb list"

record ('c, 'd) hint_state =
  hints :: "('c, 'd) tris_hint list"
  statecbs :: "('c, 'd) tris_state_cb list"
  stateid :: int

text \<open>The call of a watcher: callback, context, extension, state and data.\<close>

type_synonym ('c, 'd) cb_call = "'c \<times> string \<times> string \<times> int \<times> 'd"

section \<open>The state of an extension\<close>

definition TRIS_EXTENSION_DEACTIVATED :: int where "TRIS_EXTENSION_DEACTIVATED = -1"
definition TRIS_EXTENSION_NOT_INUSE :: int where "TRIS_EXTENSION_NOT_INUSE = 0"
definition TRIS_EXTENSION_INUSE :: int where "TRIS_EXTENSION_INUSE = 1"
definition TRIS_EXTENSION_BUSY :: int where "TRIS_EXTENSION_BUSY = 2"
definition TRIS_EXTENSION_UNAVAILABLE :: int where "TRIS_EXTENSION_UNAVAILABLE = 4"
definition TRIS_EXTENSION_RINGING :: int where "TRIS_EXTENSION_RINGING = 8"
definition TRIS_EXTENSION_ONHOLD :: int where "TRIS_EXTENSION_ONHOLD = 16"

lemmas extension_state_defs =
  TRIS_EXTENSION_DEACTIVATED_def TRIS_EXTENSION_NOT_INUSE_def TRIS_EXTENSION_INUSE_def TRIS_EXTENSION_BUSY_def
  TRIS_EXTENSION_UNAVAILABLE_def TRIS_EXTENSION_RINGING_def TRIS_EXTENSION_ONHOLD_def

fun tris_devstate_to_extenstate :: "tris_device_state \<Rightarrow> int" where
  "tris_devstate_to_extenstate TRIS_DEVICE_ONHOLD = TRIS_EXTENSION_ONHOLD"
| "tris_devstate_to_extenstate TRIS_DEVICE_BUSY = TRIS_EXTENSION_BUSY"
| "tris_devstate_to_extenstate TRIS_DEVICE_UNAVAILABLE = TRIS_EXTENSION_UNAVAILABLE"
| "tris_devstate_to_extenstate TRIS_DEVICE_UNKNOWN = TRIS_EXTENSION_UNAVAILABLE"
| "tris_devstate_to_extenstate TRIS_DEVICE_INVALID = TRIS_EXTENSION_UNAVAILABLE"
| "tris_devstate_to_extenstate TRIS_DEVICE_RINGINUSE = TRIS_EXTENSION_INUSE OR TRIS_EXTENSION_RINGING"
| "tris_devstate_to_extenstate TRIS_DEVICE_RINGING = TRIS_EXTENSION_RINGING"
| "tris_devstate_to_extenstate TRIS_DEVICE_INUSE = TRIS_EXTENSION_INUSE"
| "tris_devstate_to_extenstate TRIS_DEVICE_NOT_INUSE = TRIS_EXTENSION_NOT_INUSE"
| "tris_devstate_to_extenstate TRIS_DEVICE_TOTAL = TRIS_EXTENSION_NOT_INUSE"

abbreviation amp :: "char \<Rightarrow> bool" where "amp c \<equiv> c = CHR ''&''"

definition tris_extension_state2 :: "(string \<Rightarrow> tris_device_state) \<Rightarrow> tris_exten option \<Rightarrow> int" where
  "tris_extension_state2 dev e =
     (case e of
        None \<Rightarrow> -1
      | Some e \<Rightarrow> tris_devstate_to_extenstate (aggregate (map dev (split_on amp (e_app e)))))"

definition extension_states :: "(int \<times> string) list" where
  "extension_states =
     [(TRIS_EXTENSION_NOT_INUSE, ''Idle''), (TRIS_EXTENSION_INUSE, ''InUse''), (TRIS_EXTENSION_BUSY, ''Busy''),
      (TRIS_EXTENSION_UNAVAILABLE, ''Unavailable''), (TRIS_EXTENSION_RINGING, ''Ringing''),
      (TRIS_EXTENSION_INUSE OR TRIS_EXTENSION_RINGING, ''InUse&Ringing''), (TRIS_EXTENSION_ONHOLD, ''Hold''),
      (TRIS_EXTENSION_INUSE OR TRIS_EXTENSION_ONHOLD, ''InUse&Hold'')]"

definition tris_extension_state2str :: "int \<Rightarrow> string" where
  "tris_extension_state2str s = (case map_of extension_states s of Some t \<Rightarrow> t | None \<Rightarrow> ''Unknown'')"

text \<open>\<open>found\<close>: the extension of the hint, when there is one.\<close>

definition tris_extension_state :: "(string \<Rightarrow> tris_device_state) \<Rightarrow> tris_exten option \<Rightarrow> int" where
  "tris_extension_state dev found = (case found of None \<Rightarrow> -1 | Some e \<Rightarrow> tris_extension_state2 dev (Some e))"

definition copy_to :: "string option \<Rightarrow> nat \<Rightarrow> string option" where
  "copy_to s n = map_option (take (n - 1)) s"

definition tris_get_hint :: "nat \<Rightarrow> nat \<Rightarrow> string option \<Rightarrow> tris_exten option \<Rightarrow> int \<times> string option \<times> string option" where
  "tris_get_hint hintsize namesize app_data found =
     (case found of
        None \<Rightarrow> (0, None, None)
      | Some e \<Rightarrow> (-1, copy_to (Some (e_app e)) hintsize, copy_to app_data namesize))"

section \<open>Changes of state\<close>

text \<open>The devices of a hint are looked for in a copy that is cut to 79 characters.\<close>

definition hint_names :: "tris_exten \<Rightarrow> string \<Rightarrow> bool" where
  "hint_names e device \<longleftrightarrow> (\<exists>cur \<in> set (split_on amp (take 79 (e_app e))). strcaseeq cur device)"

definition notify :: "tris_exten \<Rightarrow> int \<Rightarrow> ('c, 'd) tris_state_cb list \<Rightarrow> ('c, 'd) cb_call list" where
  "notify e state cbs = map (\<lambda>w. (cb_callback w, e_context e, e_exten e, state, cb_data w)) cbs"

definition hint_statechange ::
  "(string \<Rightarrow> tris_device_state) \<Rightarrow> string \<Rightarrow> ('c, 'd) tris_state_cb list \<Rightarrow> ('c, 'd) tris_hint \<Rightarrow>
     ('c, 'd) cb_call list \<times> ('c, 'd) tris_hint" where
  "hint_statechange dev device general hint =
     (if \<not> hint_names (h_exten hint) device then ([], hint)
      else
        (let state = tris_extension_state2 dev (Some (h_exten hint)) in
         if state = -1 \<or> state = laststate hint then ([], hint)
         else (notify (h_exten hint) state general @ notify (h_exten hint) state (callbacks hint),
               hint\<lparr>laststate := state\<rparr>)))"

fun each_hint :: "(('c, 'd) tris_hint \<Rightarrow> ('c, 'd) cb_call list \<times> ('c, 'd) tris_hint) \<Rightarrow> ('c, 'd) tris_hint list \<Rightarrow>
    ('c, 'd) cb_call list \<times> ('c, 'd) tris_hint list" where
  "each_hint f [] = ([], [])"
| "each_hint f (h # hs) =
     (let (calls, h) = f h; (more, hs) = each_hint f hs in (calls @ more, h # hs))"

definition handle_statechange ::
  "(string \<Rightarrow> tris_device_state) \<Rightarrow> string \<Rightarrow> ('c, 'd) hint_state \<Rightarrow> ('c, 'd) cb_call list \<times> ('c, 'd) hint_state" where
  "handle_statechange dev device st =
     (case each_hint (hint_statechange dev device (statecbs st)) (hints st) of
        (calls, hs) \<Rightarrow> (calls, st\<lparr>hints := hs\<rparr>))"

text \<open>The device of an event, when it has one: the change queued for the hints.\<close>

definition device_state_cb :: "bool \<Rightarrow> bytes \<Rightarrow> bytes list \<Rightarrow> bytes list option" where
  "device_state_cb mem event q =
     do { device \<leftarrow> tris_event_get_ie_str event TRIS_EVENT_IE_DEVICE;
          case device of
            None \<Rightarrow> Some q
          | Some d \<Rightarrow> if d = [] \<or> \<not> mem then Some q else Some (q @ [d]) }"

section \<open>Watchers\<close>

fun replace_data :: "'c \<Rightarrow> 'd \<Rightarrow> ('c, 'd) tris_state_cb list \<Rightarrow> ('c, 'd) tris_state_cb list option" where
  "replace_data c d [] = None"
| "replace_data c d (w # ws) =
     (if cb_callback w = c then Some (w\<lparr>cb_data := d\<rparr> # ws) else map_option (\<lambda>ws. w # ws) (replace_data c d ws))"

fun update_hint :: "nat \<Rightarrow> (('c, 'd) tris_hint \<Rightarrow> ('c, 'd) tris_hint) \<Rightarrow> ('c, 'd) tris_hint list \<Rightarrow> ('c, 'd) tris_hint list option" where
  "update_hint a f [] = None"
| "update_hint a f (h # hs) =
     (if e_addr (h_exten h) = a then Some (f h # hs) else map_option (\<lambda>hs. h # hs) (update_hint a f hs))"

text \<open>Adding a watcher: of all hints, without context and extension, or of one. \<open>found\<close> is the extension
  of the hint; if it is a pattern, an extension is added to the dialplan, which changes the hints
  (\<open>add_ext\<close>), and \<open>again\<close> is what is found then. \<open>mem\<close>: memory for the watcher.\<close>

definition tris_extension_state_add ::
  "bool \<Rightarrow> tris_exten option \<Rightarrow> (('c, 'd) hint_state \<Rightarrow> ('c, 'd) hint_state) \<Rightarrow> tris_exten option \<Rightarrow>
     string option \<Rightarrow> string option \<Rightarrow> 'c \<Rightarrow> 'd \<Rightarrow> ('c, 'd) hint_state \<Rightarrow> int \<times> ('c, 'd) hint_state" where
  "tris_extension_state_add mem found add_ext again ctx ext c d st =
     (if ctx = None \<and> ext = None
      then (case replace_data c d (statecbs st) of
              Some ws \<Rightarrow> (0, st\<lparr>statecbs := ws\<rparr>)
            | None \<Rightarrow>
                if mem then (0, st\<lparr>statecbs := \<lparr>cb_id = 0, cb_data = d, cb_callback = c\<rparr> # statecbs st\<rparr>)
                else (-1, st))
      else if ctx = None \<or> ext = None then (-1, st)
      else case found of
        None \<Rightarrow> (-1, st)
      | Some e \<Rightarrow>
          (let pattern = (take 1 (e_exten e) = ''_'');
               st = (if pattern then add_ext st else st);
               e = (if pattern then again else Some e)
           in case e of
                None \<Rightarrow> (-1, st)
              | Some e \<Rightarrow>
                  if pattern \<and> take 1 (e_exten e) = ''_'' then (-1, st)
                  else
                    (case update_hint (e_addr e)
                            (\<lambda>h. h\<lparr>callbacks := \<lparr>cb_id = stateid st, cb_data = d, cb_callback = c\<rparr> # callbacks h\<rparr>) (hints st) of
                       None \<Rightarrow> (-1, st)
                     | Some hs \<Rightarrow> if mem then (stateid st, st\<lparr>hints := hs, stateid := stateid st + 1\<rparr>) else (-1, st))))"

fun remove_watcher :: "(('c, 'd) tris_state_cb \<Rightarrow> bool) \<Rightarrow> ('c, 'd) tris_state_cb list \<Rightarrow> ('c, 'd) tris_state_cb list option" where
  "remove_watcher P [] = None"
| "remove_watcher P (w # ws) = (if P w then Some ws else map_option (\<lambda>ws. w # ws) (remove_watcher P ws))"

fun remove_hint_watcher :: "int \<Rightarrow> ('c, 'd) tris_hint list \<Rightarrow> ('c, 'd) tris_hint list" where
  "remove_hint_watcher i [] = []"
| "remove_hint_watcher i (h # hs) =
     (case remove_watcher (\<lambda>w. cb_id w = i) (callbacks h) of
        Some ws \<Rightarrow> h\<lparr>callbacks := ws\<rparr> # hs
      | None \<Rightarrow> h # remove_hint_watcher i hs)"

definition tris_extension_state_del :: "int \<Rightarrow> 'c option \<Rightarrow> ('c, 'd) hint_state \<Rightarrow> int \<times> ('c, 'd) hint_state" where
  "tris_extension_state_del i c st =
     (if i = 0 \<and> c = None then (-1, st)
      else if i = 0
      then (-1, case remove_watcher (\<lambda>w. Some (cb_callback w) = c) (statecbs st) of
                  Some ws \<Rightarrow> st\<lparr>statecbs := ws\<rparr>
                | None \<Rightarrow> st)
      else (-1, st\<lparr>hints := remove_hint_watcher i (hints st)\<rparr>))"

section \<open>Hints\<close>

definition tris_add_hint_nolock ::
  "bool \<Rightarrow> (string \<Rightarrow> tris_device_state) \<Rightarrow> tris_exten option \<Rightarrow> ('c, 'd) hint_state \<Rightarrow> int \<times> ('c, 'd) hint_state" where
  "tris_add_hint_nolock mem dev e st =
     (case e of
        None \<Rightarrow> (-1, st)
      | Some e \<Rightarrow>
          if \<exists>h \<in> set (hints st). e_addr (h_exten h) = e_addr e then (-1, st)
          else if \<not> mem then (-1, st)
          else (0, st\<lparr>hints := \<lparr>h_exten = e, laststate = tris_extension_state2 dev (Some e), callbacks = []\<rparr> # hints st\<rparr>))"

definition tris_change_hint :: "nat \<Rightarrow> tris_exten \<Rightarrow> ('c, 'd) hint_state \<Rightarrow> int \<times> ('c, 'd) hint_state" where
  "tris_change_hint oe ne st =
     (case update_hint oe (\<lambda>h. h\<lparr>h_exten := ne\<rparr>) (hints st) of
        Some hs \<Rightarrow> (0, st\<lparr>hints := hs\<rparr>)
      | None \<Rightarrow> (-1, st))"

fun take_hint :: "nat \<Rightarrow> ('c, 'd) tris_hint list \<Rightarrow> (('c, 'd) tris_hint \<times> ('c, 'd) tris_hint list) option" where
  "take_hint a [] = None"
| "take_hint a (h # hs) =
     (if e_addr (h_exten h) = a then Some (h, hs) else map_option (\<lambda>(x, hs). (x, h # hs)) (take_hint a hs))"

definition tris_remove_hint ::
  "nat option \<Rightarrow> ('c, 'd) hint_state \<Rightarrow> int \<times> ('c, 'd) cb_call list \<times> ('c, 'd) hint_state" where
  "tris_remove_hint e st =
     (case e of
        None \<Rightarrow> (-1, [], st)
      | Some a \<Rightarrow>
          (case take_hint a (hints st) of
             None \<Rightarrow> (-1, [], st)
           | Some (h, hs) \<Rightarrow>
               (0, notify (h_exten h) TRIS_EXTENSION_DEACTIVATED (callbacks h), st\<lparr>hints := hs\<rparr>)))"

section \<open>What a watcher is told\<close>

lemma extension_state2_not_removed: "tris_extension_state2 dev (Some e) \<noteq> -1"
  by (cases "aggregate (map dev (split_on amp (e_app e)))")
    (simp_all add: tris_extension_state2_def extension_state_defs)

text \<open>Changes that are handled one after the other, each with the states of devices at its time.\<close>

fun run_changes :: "((string \<Rightarrow> tris_device_state) \<times> string) list \<Rightarrow> ('c, 'd) hint_state \<Rightarrow>
    ('c, 'd) cb_call list \<times> ('c, 'd) hint_state" where
  "run_changes [] st = ([], st)"
| "run_changes ((dev, device) # cs) st =
     (let (calls, st) = handle_statechange dev device st; (more, st) = run_changes cs st in (calls @ more, st))"

text \<open>The states that a callback with its data is told.\<close>

definition told :: "'c \<Rightarrow> 'd \<Rightarrow> ('c, 'd) cb_call list \<Rightarrow> int list" where
  "told c d calls = map (\<lambda>(_, _, _, s, _). s) (filter (\<lambda>(c', _, _, _, d'). c' = c \<and> d' = d) calls)"

definition watches :: "'c \<Rightarrow> 'd \<Rightarrow> ('c, 'd) tris_state_cb \<Rightarrow> bool" where
  "watches c d w \<longleftrightarrow> cb_callback w = c \<and> cb_data w = d"

text \<open>The callback and its data watch one hint, once.\<close>

definition sole_watcher :: "'c \<Rightarrow> 'd \<Rightarrow> ('c, 'd) hint_state \<Rightarrow> ('c, 'd) tris_hint list \<Rightarrow> ('c, 'd) tris_hint \<Rightarrow> ('c, 'd) tris_hint list \<Rightarrow> bool" where
  "sole_watcher c d st hs1 h hs2 \<longleftrightarrow> hints st = hs1 @ h # hs2 \<and> length (filter (watches c d) (callbacks h)) = 1 \<and>
     filter (watches c d) (statecbs st) = [] \<and> (\<forall>x \<in> set (hs1 @ hs2). filter (watches c d) (callbacks x) = [])"

lemma told_append [simp]: "told c d (xs @ ys) = told c d xs @ told c d ys"
  by (simp add: told_def)

lemma told_Nil [simp]: "told c d [] = []"
  by (simp add: told_def)

lemma told_notify: "told c d (notify e s ws) = replicate (length (filter (watches c d) ws)) s"
  by (induction ws) (auto simp: told_def notify_def watches_def)

lemma told_hint:
  "filter (watches c d) general = [] \<Longrightarrow> told c d (fst (hint_statechange dev device general h)) =
     replicate (if snd (hint_statechange dev device general h) = h then 0 else length (filter (watches c d) (callbacks h)))
       (laststate (snd (hint_statechange dev device general h)))"
  by (cases h) (auto simp: hint_statechange_def told_notify Let_def)

lemma hint_statechange_same:
  "callbacks (snd (hint_statechange dev device general h)) = callbacks h \<and>
   h_exten (snd (hint_statechange dev device general h)) = h_exten h"
  by (simp add: hint_statechange_def Let_def)

lemma each_hint_map: "each_hint f hs = (concat (map (fst \<circ> f) hs), map (snd \<circ> f) hs)"
  by (induction hs) (simp_all add: case_prod_beta Let_def)

lemma told_none:
  "filter (watches c d) general = [] \<Longrightarrow> (\<forall>x \<in> set hs. filter (watches c d) (callbacks x) = []) \<Longrightarrow>
     told c d (concat (map (fst \<circ> hint_statechange dev device general) hs)) = []"
  by (induction hs) (simp_all add: told_hint)

text \<open>One change.\<close>

lemma handle_statechange_sole:
  assumes "sole_watcher c d st hs1 h hs2" "handle_statechange dev device st = (calls, st')"
  shows "\<exists>hs1' h' hs2'. sole_watcher c d st' hs1' h' hs2' \<and> h_exten h' = h_exten h \<and>
    told c d calls = (if h' = h then [] else [laststate h']) \<and> (h' \<noteq> h \<longrightarrow> laststate h' \<noteq> laststate h) \<and>
    (hint_names (h_exten h) device \<longrightarrow> laststate h' = tris_extension_state2 dev (Some (h_exten h)))"
proof -
  let ?f = "hint_statechange dev device (statecbs st)"
  have s: "hints st = hs1 @ h # hs2" "length (filter (watches c d) (callbacks h)) = 1"
    "filter (watches c d) (statecbs st) = []" "\<forall>x \<in> set (hs1 @ hs2). filter (watches c d) (callbacks x) = []"
    using assms(1) by (simp_all add: sole_watcher_def)
  have calls: "calls = concat (map (fst \<circ> ?f) hs1) @ fst (?f h) @ concat (map (fst \<circ> ?f) hs2)"
    and st': "st' = st\<lparr>hints := map (snd \<circ> ?f) hs1 @ snd (?f h) # map (snd \<circ> ?f) hs2\<rparr>"
    using assms(2) by (auto simp: handle_statechange_def each_hint_map s(1))
  have "told c d calls = told c d (fst (?f h))"
    unfolding calls using told_none [OF s(3)] s(4) by simp
  then have "told c d calls = (if snd (?f h) = h then [] else [laststate (snd (?f h))])"
    using told_hint [OF s(3), of dev device h] s(2) by simp
  moreover have "sole_watcher c d st' (map (snd \<circ> ?f) hs1) (snd (?f h)) (map (snd \<circ> ?f) hs2)"
    using s hint_statechange_same [of dev device "statecbs st"] by (auto simp: sole_watcher_def st')
  moreover have "snd (?f h) \<noteq> h \<longrightarrow> laststate (snd (?f h)) \<noteq> laststate h"
    by (auto simp: hint_statechange_def Let_def)
  moreover have "hint_names (h_exten h) device \<longrightarrow> laststate (snd (?f h)) = tris_extension_state2 dev (Some (h_exten h))"
    using extension_state2_not_removed [of dev "h_exten h"] by (auto simp: hint_statechange_def Let_def)
  ultimately show ?thesis using hint_statechange_same [of dev device "statecbs st" h] by blast
qed

lemma run_changes_sole:
  assumes "sole_watcher c d st hs1 h hs2" "run_changes cs st = (calls, st')"
  shows "distinct_adj (laststate h # told c d calls) \<and>
    (cs \<noteq> [] \<longrightarrow> hint_names (h_exten h) (snd (last cs)) \<longrightarrow>
       last (laststate h # told c d calls) = tris_extension_state2 (fst (last cs)) (Some (h_exten h))) \<and>
    (\<exists>hs1' h' hs2'. sole_watcher c d st' hs1' h' hs2' \<and> h_exten h' = h_exten h \<and> last (laststate h # told c d calls) = laststate h')"
  using assms
proof (induction cs arbitrary: st hs1 h hs2 calls)
  case Nil
  then show ?case by (auto simp: told_def)
next
  case (Cons a cs)
  obtain dev device where a: "a = (dev, device)" by (cases a)
  obtain calls1 st1 where 1: "handle_statechange dev device st = (calls1, st1)" by fastforce
  obtain more st2 where "run_changes cs st1 = (more, st2)" by fastforce
  then have 2: "run_changes cs st1 = (more, st')" and calls: "calls = calls1 @ more"
    using Cons.prems(2) 1 by (auto simp: a)
  obtain hs1' h' hs2' where h': "sole_watcher c d st1 hs1' h' hs2'" "h_exten h' = h_exten h"
    "told c d calls1 = (if h' = h then [] else [laststate h'])" "h' \<noteq> h \<longrightarrow> laststate h' \<noteq> laststate h"
    "hint_names (h_exten h) device \<longrightarrow> laststate h' = tris_extension_state2 dev (Some (h_exten h))"
    using handle_statechange_sole [OF Cons.prems(1) 1] by blast
  note IH = Cons.IH [OF h'(1) 2]
  have adj: "distinct_adj (laststate h # told c d calls)"
    using IH h'(3,4) by (auto simp: calls)
  have last: "last (laststate h # told c d calls) = last (laststate h' # told c d more)"
    using h'(3) by (auto simp: calls)
  have "hint_names (h_exten h) (snd (last (a # cs))) \<longrightarrow>
      last (laststate h # told c d calls) = tris_extension_state2 (fst (last (a # cs))) (Some (h_exten h))"
  proof (cases "cs = []")
    case True
    then show ?thesis using 2 h'(5) last by (auto simp: a told_def)
  next
    case False
    then show ?thesis using IH h'(2) last by auto
  qed
  then show ?case using adj IH last h'(2) by auto
qed

text \<open>Claim C31. A watcher of a hint is told every change and nothing else: through any series of device
  changes no state is reported twice in a row, the first report differs from the state the hint had,
  and after a change of a device of the hint the last state known is the hint's state at that time.\<close>

theorem hint_watcher_informed:
  assumes "sole_watcher c d st hs1 h hs2" "run_changes cs st = (calls, st')" "cs \<noteq> []"
    and "hint_names (h_exten h) (snd (last cs))"
  shows "distinct_adj (laststate h # told c d calls) \<and>
    last (laststate h # told c d calls) = tris_extension_state2 (fst (last cs)) (Some (h_exten h))"
  using run_changes_sole [OF assms(1,2)] assms(3,4) by blast

definition sample_hint :: "(nat, nat) tris_hint" where
  "sample_hint = \<lparr>h_exten = \<lparr>e_addr = 1, e_context = ''c'', e_exten = ''1'', e_app = ''SIP/1''\<rparr>, laststate = 0,
     callbacks = [\<lparr>cb_id = 1, cb_data = 7, cb_callback = 5\<rparr>]\<rparr>"

theorem hint_watcher_informed_witness:
  "let calls = fst (run_changes [(\<lambda>_. TRIS_DEVICE_RINGING, ''SIP/1''), (\<lambda>_. TRIS_DEVICE_RINGING, ''sip/1''), (\<lambda>_. TRIS_DEVICE_INUSE, ''SIP/1'')]
       \<lparr>hints = [sample_hint], statecbs = [], stateid = 2\<rparr>)
   in distinct_adj (0 # told 5 7 calls) \<and> last (0 # told 5 7 calls) = TRIS_EXTENSION_INUSE"
proof -
  let ?st = "\<lparr>hints = [sample_hint], statecbs = [], stateid = 2\<rparr>"
  let ?cs = "[(\<lambda>_. TRIS_DEVICE_RINGING, ''SIP/1''), (\<lambda>_. TRIS_DEVICE_RINGING, ''sip/1''), (\<lambda>_. TRIS_DEVICE_INUSE, ''SIP/1'')]"
  obtain calls st' where r: "run_changes ?cs ?st = (calls, st')" by fastforce
  have s: "sole_watcher 5 7 ?st [] sample_hint []" by (simp add: sole_watcher_def sample_hint_def watches_def)
  have n: "hint_names (h_exten sample_hint) (snd (last ?cs))"
    by (simp add: hint_names_def sample_hint_def)
  have "tris_extension_state2 (fst (last ?cs)) (Some (h_exten sample_hint)) = TRIS_EXTENSION_INUSE"
    by (simp add: tris_extension_state2_def sample_hint_def aggregate_def tris_devstate_aggregate_init_def tris_devstate_aggregate_result_def)
  then have "distinct_adj (0 # told 5 7 calls) \<and> last (0 # told 5 7 calls) = TRIS_EXTENSION_INUSE"
    using hint_watcher_informed [OF s r _ n] by (simp add: sample_hint_def)
  then show ?thesis unfolding r by simp
qed


text \<open>A watcher that is added and removed again leaves the hints as they were, but the removal reports a
  failure.\<close>

lemma update_remove_watcher:
  assumes "update_hint a (\<lambda>h. h\<lparr>callbacks := w # callbacks h\<rparr>) hs = Some hs'"
    and "\<forall>h \<in> set hs. \<forall>x \<in> set (callbacks h). cb_id x \<noteq> cb_id w"
  shows "remove_hint_watcher (cb_id w) hs' = hs"
  using assms
proof (induction hs arbitrary: hs')
  case (Cons h hs)
  have none: "remove_watcher (\<lambda>x. cb_id x = cb_id w) ws = None" if "\<forall>x \<in> set ws. cb_id x \<noteq> cb_id w" for ws :: "('a, 'b) tris_state_cb list"
    using that by (induction ws) auto
  show ?case using Cons none [of "callbacks h"] by (auto split: if_splits)
qed simp

lemma watcher_add_del:
  assumes "tris_extension_state_add mem (Some e) add_ext again (Some ctx) (Some ext) c d st = (i, st')" "i \<noteq> -1"
    and "take 1 (e_exten e) \<noteq> ''_''" "0 < stateid st" "\<forall>h \<in> set (hints st). \<forall>x \<in> set (callbacks h). cb_id x < stateid st"
  shows "tris_extension_state_del i (Some c) st' = (-1, st'\<lparr>hints := hints st\<rparr>)"
proof -
  obtain hs where hs: "update_hint (e_addr e)
      (\<lambda>h. h\<lparr>callbacks := \<lparr>cb_id = stateid st, cb_data = d, cb_callback = c\<rparr> # callbacks h\<rparr>) (hints st) = Some hs"
    "i = stateid st" "st' = st\<lparr>hints := hs, stateid := stateid st + 1\<rparr>"
    using assms(1-3) by (auto simp: tris_extension_state_add_def Let_def split: option.splits if_splits)
  then show ?thesis
    using update_remove_watcher [OF hs(1)] assms(4,5) by (fastforce simp: tris_extension_state_del_def)
qed


end
