(* ===== verification/PbxContext.thy ===== *)
theory PbxContext
  imports PbxPattern PbxTiming
begin

text \<open>
  Dialplan contexts of \<open>main/pbx.c\<close>: the extensions of a context, adding and removing them, and its
  includes, switches and ignore patterns.

  A context keeps its extensions as a list of groups, in the order of \<open>ext_cmp\<close>: the code's \<open>next\<close>
  chain. A group is the chain of \<open>peer\<close> pointers of one head, one entry per priority, with the two hash
  tables that hang off the head; the \<open>next\<close> field of an entry that is not a head is always NULL. The
  hash tables, here and \<open>root_table\<close>, are association lists of pointers, a pointer being the extension
  it points to; a table may come to hold an extension that has been freed, and an operation on such a
  context is \<open>None\<close>, as is a comparison that is undefined (\<open>ext_cmp\<close>). What an operation frees and
  what it tells the hints are its effects. The pattern tree is left out except for the effect that its
  existence has on \<open>root_table\<close>; locks and messages are left out.
\<close>

section \<open>The data\<close>

record exten =
  ex_name :: string
  ex_matchcid :: bool
  ex_cidmatch :: string
  ex_priority :: int
  ex_label :: "string option"
  ex_app :: string
  ex_data :: string
  ex_registrar :: string

definition PRIORITY_HINT :: int where "PRIORITY_HINT = - 1"

text \<open>What \<open>hashtab_compare_extens\<close> compares.\<close>

type_synonym exten_id = "string \<times> string option"

definition exten_id :: "exten \<Rightarrow> exten_id" where
  "exten_id e = (ex_name e, if ex_matchcid e then Some (ex_cidmatch e) else None)"

record exten_group =
  peers :: "exten list"
  peer_table :: "(int \<times> exten) list"
  peer_label_table :: "(string \<times> exten) list"

record tris_include =
  i_name :: string
  i_rname :: string
  i_registrar :: string
  i_timing :: "tris_timing option"

record tris_sw =
  sw_name :: string
  sw_data :: string
  sw_eval :: bool
  sw_registrar :: string

record tris_ignorepat =
  ip_pattern :: string
  ip_registrar :: string

record tris_context =
  c_name :: string
  c_root :: "exten_group list"
  c_root_table :: "(exten_id \<times> exten) list"
  c_tree :: bool
  c_includes :: "tris_include list"
  c_alts :: "tris_sw list"
  c_ignorepats :: "tris_ignorepat list"

datatype exten_effect =
    Add_hint exten
  | Change_hint exten exten
  | Remove_hint exten
  | Free_exten exten

text \<open>The operations of the hash tables that are used: \<open>tris_hashtab_insert_safe\<close>, removal by lookup,
  removal of one object.\<close>

definition tab_insert :: "'k \<Rightarrow> 'v \<Rightarrow> ('k \<times> 'v) list \<Rightarrow> ('k \<times> 'v) list" where
  "tab_insert k v t = (if map_of t k = None then (k, v) # t else t)"

definition tab_remove :: "'k \<Rightarrow> ('k \<times> 'v) list \<Rightarrow> ('k \<times> 'v) list" where
  "tab_remove k t = filter (\<lambda>(k', v). k' \<noteq> k) t"

definition tab_remove_this :: "'k \<Rightarrow> 'v \<Rightarrow> ('k \<times> 'v) list \<Rightarrow> ('k \<times> 'v) list" where
  "tab_remove_this k v t = (if map_of t k = Some v then tab_remove k t else t)"

definition label_insert :: "exten \<Rightarrow> (string \<times> exten) list \<Rightarrow> (string \<times> exten) list" where
  "label_insert e t = (case ex_label e of None \<Rightarrow> t | Some l \<Rightarrow> tab_insert l e t)"

definition label_remove :: "exten \<Rightarrow> (string \<times> exten) list \<Rightarrow> (string \<times> exten) list" where
  "label_remove e t = (case ex_label e of None \<Rightarrow> t | Some l \<Rightarrow> tab_remove l t)"

text \<open>No table holds an extension that has been freed.\<close>

definition group_live :: "exten_group \<Rightarrow> bool" where
  "group_live g \<longleftrightarrow> (\<forall>(p, e) \<in> set (peer_table g). e \<in> set (peers g)) \<and>
     (\<forall>(l, e) \<in> set (peer_label_table g). e \<in> set (peers g))"

definition extens :: "tris_context \<Rightarrow> exten list" where
  "extens con = concat (map peers (c_root con))"

definition tables_live :: "tris_context \<Rightarrow> bool" where
  "tables_live con \<longleftrightarrow> (\<forall>g \<in> set (c_root con). group_live g) \<and>
     (\<forall>(k, e) \<in> set (c_root_table con). e \<in> set (extens con))"

section \<open>Adding an extension\<close>

text \<open>The comparison of the scan in \<open>tris_add_extension2_lockopt\<close>: the name, then the caller number.\<close>

definition exten_cmp :: "exten \<Rightarrow> exten \<Rightarrow> int option" where
  "exten_cmp e t =
     (case ext_cmp (ex_name e) (ex_name t) of
        None \<Rightarrow> None
      | Some r \<Rightarrow>
          if r \<noteq> 0 then Some r
          else if \<not> ex_matchcid e \<and> \<not> ex_matchcid t then Some 0
          else if ex_matchcid t \<and> \<not> ex_matchcid e then Some 1
          else if ex_matchcid e \<and> \<not> ex_matchcid t then Some (- 1)
          else ext_cmp (ex_cidmatch e) (ex_cidmatch t))"

text \<open>The scan: the groups before the first whose head does not come before the new extension, that
  group and those after it, and the result of the last comparison.\<close>

fun scan_root :: "exten \<Rightarrow> exten_group list \<Rightarrow> (exten_group list \<times> exten_group list \<times> int) option" where
  "scan_root t [] = Some ([], [], 0)"
| "scan_root t (g # gs) =
     (case exten_cmp (hd (peers g)) t of
        None \<Rightarrow> None
      | Some r \<Rightarrow>
          if 0 \<le> r then Some ([], g # gs, r)
          else map_option (\<lambda>(before, rest, r'). (g # before, rest, r')) (scan_root t gs))"

definition hint_effect :: "exten \<Rightarrow> exten_effect list" where
  "hint_effect t = (if ex_priority t = PRIORITY_HINT then [Add_hint t] else [])"

text \<open>\<open>add_pri_lockopt\<close>: the result, the group, \<open>root_table\<close> and the effects. An extension put at the
  end of the chain is no news for the hints.\<close>

definition add_pri :: "exten \<Rightarrow> exten_group \<Rightarrow> bool \<Rightarrow> (exten_id \<times> exten) list \<Rightarrow>
    int \<times> exten_group \<times> (exten_id \<times> exten) list \<times> exten_effect list" where
  "add_pri t g replace rt =
     (let ep = takeWhile (\<lambda>e. ex_priority e < ex_priority t) (peers g);
          new_root = (\<lambda>e. if ep = [] then tab_insert (exten_id t) t (tab_remove (exten_id e) rt) else rt)
      in case dropWhile (\<lambda>e. ex_priority e < ex_priority t) (peers g) of
           [] \<Rightarrow> (0, g\<lparr>peers := ep @ [t], peer_table := tab_insert (ex_priority t) t (peer_table g),
                   peer_label_table := label_insert t (peer_label_table g)\<rparr>, rt, [])
         | e # es \<Rightarrow>
             if ex_priority e = ex_priority t
             then if \<not> replace then (- 1, g, rt, [Free_exten t])
                  else (0, g\<lparr>peers := ep @ t # es,
                          peer_table := tab_insert (ex_priority t) t (tab_remove (ex_priority e) (peer_table g)),
                          peer_label_table := label_insert t (label_remove e (peer_label_table g))\<rparr>,
                        new_root e,
                        (if ex_priority t = PRIORITY_HINT then [Change_hint e t] else []) @ [Free_exten e])
             else (0, g\<lparr>peers := ep @ t # e # es,
                     peer_table := tab_insert (ex_priority t) t (peer_table g),
                     peer_label_table := label_insert t (peer_label_table g)\<rparr>,
                   new_root e, hint_effect t))"

text \<open>\<open>strstr(s, pat) != NULL\<close>.\<close>

definition has_substring :: "string \<Rightarrow> string \<Rightarrow> bool" where
  "has_substring pat s \<longleftrightarrow> list_ex (\<lambda>i. take (length pat) (drop i s) = pat) [0..<Suc (length s)]"

definition new_exten :: "string \<Rightarrow> int \<Rightarrow> string option \<Rightarrow> string option \<Rightarrow> string \<Rightarrow> string \<Rightarrow> string \<Rightarrow> exten" where
  "new_exten extension priority label callerid app data registrar =
     \<lparr>ex_name = ext_strncpy extension (length extension + 1),
      ex_matchcid = (callerid \<noteq> None),
      ex_cidmatch = (case callerid of None \<Rightarrow> [] | Some c \<Rightarrow> ext_strncpy c (length c + 1)),
      ex_priority = priority,
      ex_label = (if label = Some [] then None else label),
      ex_app = app, ex_data = data, ex_registrar = registrar\<rparr>"

text \<open>Putting a new extension in place: the part after the structure has been built.
  \<open>dummy_name\<close> has 1024 characters. The call returns 0 even when the priority is already in use.\<close>

definition put_exten :: "tris_context \<Rightarrow> bool \<Rightarrow> string \<Rightarrow> exten \<Rightarrow> (int \<times> tris_context \<times> exten_effect list) option" where
  "put_exten con replace extension t =
     (let rt = (if c_tree con \<and> map_of (c_root_table con) (take 1023 extension, None) = None
                then tab_insert (exten_id t) t (c_root_table con) else c_root_table con)
      in case scan_root t (c_root con) of
           None \<Rightarrow> None
         | Some (before, rest, r) \<Rightarrow>
             if rest \<noteq> [] \<and> r = 0
             then (case add_pri t (hd rest) replace rt of
                     (res, g, rt', eff) \<Rightarrow> Some (0, con\<lparr>c_root := before @ g # tl rest, c_root_table := rt'\<rparr>, eff))
             else Some (0, con\<lparr>c_root := before @ \<lparr>peers = [t], peer_table = [(ex_priority t, t)],
                          peer_label_table = label_insert t []\<rparr> # rest,
                        c_root_table := tab_insert (exten_id t) t rt\<rparr>, hint_effect t))"

text \<open>The structure that \<open>tris_add_extension2_lockopt\<close> builds. \<open>subst\<close> is
  \<open>pbx_substitute_variables_helper\<close> on the application of a hint, with the extension and the context
  set in its channel.\<close>

definition build_exten :: "(string \<Rightarrow> string \<Rightarrow> string \<Rightarrow> string) \<Rightarrow> tris_context \<Rightarrow> string \<Rightarrow> int \<Rightarrow> string option \<Rightarrow>
    string option \<Rightarrow> string \<Rightarrow> string \<Rightarrow> string \<Rightarrow> exten" where
  "build_exten subst con extension priority label callerid app data registrar =
     new_exten extension priority label callerid
       (if priority = PRIORITY_HINT \<and> has_substring ''${'' app \<and> \<not> has_substring ''_'' extension
        then subst extension (c_name con) app else app) data registrar"

text \<open>\<open>tris_add_extension2_lockopt\<close>; \<open>alloc\<close> tells whether the structure is allocated.\<close>

definition tris_add_extension2 :: "(string \<Rightarrow> string \<Rightarrow> string \<Rightarrow> string) \<Rightarrow> bool \<Rightarrow> tris_context \<Rightarrow> bool \<Rightarrow>
    string \<Rightarrow> int \<Rightarrow> string option \<Rightarrow> string option \<Rightarrow> string \<Rightarrow> string \<Rightarrow> string \<Rightarrow>
    (int \<times> tris_context \<times> exten_effect list) option" where
  "tris_add_extension2 subst alloc con replace extension priority label callerid app data registrar =
     (if extension = [] then Some (- 1, con, [])
      else if \<not> alloc then Some (- 1, con, [])
      else if \<not> tables_live con then None
      else put_exten con replace extension (build_exten subst con extension priority label callerid app data registrar))"

section \<open>Removing extensions\<close>

text \<open>The caller number asked for and that of an extension, as the loops of the removal compare them.\<close>

definition cid_agrees :: "string option \<Rightarrow> bool \<Rightarrow> exten \<Rightarrow> bool" where
  "cid_agrees callerid matchcallerid e \<longleftrightarrow>
     (let c = (case callerid of None \<Rightarrow> [] | Some c \<Rightarrow> c)
      in \<not> matchcallerid \<or> (c \<noteq> [] \<and> ex_cidmatch e \<noteq> [] \<and> ex_cidmatch e = c) \<or> (c = [] \<and> ex_cidmatch e = []))"

definition registrar_agrees :: "string option \<Rightarrow> exten \<Rightarrow> bool" where
  "registrar_agrees registrar e \<longleftrightarrow> (case registrar of None \<Rightarrow> True | Some r \<Rightarrow> ex_registrar e = r)"

text \<open>The first part of \<open>tris_context_remove_extension_callerid2\<close>: the hash tables. Only the head of a
  chain has a \<open>peer_table\<close>; a lookup in no table finds nothing.\<close>

definition untable_group :: "exten \<Rightarrow> exten \<Rightarrow> exten_group \<Rightarrow> exten_group" where
  "untable_group x e g =
     (if hd (peers g) = x
      then g\<lparr>peer_table := tab_remove_this (ex_priority e) e (peer_table g),
             peer_label_table := (case ex_label e of None \<Rightarrow> peer_label_table g
                                  | Some l \<Rightarrow> tab_remove_this l e (peer_label_table g))\<rparr>
      else g)"

definition remove_from_tables :: "tris_context \<Rightarrow> string \<Rightarrow> int \<Rightarrow> string option \<Rightarrow> bool \<Rightarrow> tris_context" where
  "remove_from_tables con extension priority callerid matchcallerid =
     (let c = (case callerid of None \<Rightarrow> [] | Some c \<Rightarrow> c);
          k = (take 1023 extension, if matchcallerid \<and> c \<noteq> [] then Some c else None)
      in case map_of (c_root_table con) k of
           None \<Rightarrow> con
         | Some x \<Rightarrow>
             if priority = 0 then con\<lparr>c_root_table := tab_remove k (c_root_table con)\<rparr>
             else
               (case find (\<lambda>g. hd (peers g) = x) (c_root con) of
                  None \<Rightarrow> con
                | Some g \<Rightarrow>
                    (case map_of (peer_table g) priority of
                       None \<Rightarrow> con
                     | Some e \<Rightarrow>
                         (let g' = untable_group x e g;
                              rt = (if e = x \<and> tl (peers g) \<noteq> []
                                    then (let y = hd (tl (peers g)) in (exten_id y, y) # tab_remove k (c_root_table con))
                                    else c_root_table con);
                              rt' = (if peer_table g' = [] then tab_remove_this k x rt else rt)
                          in con\<lparr>c_root := map (untable_group x e) (c_root con), c_root_table := rt'\<rparr>))))"

text \<open>The walk along the chain of one group. \<open>prev\<close> tells whether \<open>previous_peer\<close> is set, \<open>kept\<close> is
  what has been kept of the group so far. Removing the head of a later group while \<open>previous_peer\<close> is
  set leaves the list with a freed extension in it: \<open>None\<close>. The result: the chain, what is freed,
  whether the walk goes on with \<open>next\<close> of the last extension, and whether \<open>previous_peer\<close> is set. The
  last extension's \<open>next\<close> is only set when it was the head by then.\<close>

fun walk_peers :: "(exten \<Rightarrow> bool) \<Rightarrow> (exten \<Rightarrow> bool) \<Rightarrow> bool \<Rightarrow> exten list \<Rightarrow> exten list \<Rightarrow>
    (exten list \<times> exten list \<times> bool \<times> bool) option" where
  "walk_peers cont sel prev kept [] = Some (kept, [], False, prev)"
| "walk_peers cont sel prev kept (e # es) =
     (if \<not> cont e then Some (kept @ e # es, [], False, prev)
      else if sel e
      then if prev \<and> kept = [] then None
           else (case walk_peers cont sel prev kept es of
                   None \<Rightarrow> None
                 | Some (chain, freed, on, prev') \<Rightarrow> Some (chain, e # freed, (if es = [] then kept = [] else on), prev'))
      else (case walk_peers cont sel True (kept @ [e]) es of
              None \<Rightarrow> None
            | Some (chain, freed, on, prev') \<Rightarrow> Some (chain, freed, (if es = [] then kept = [] else on), prev')))"

text \<open>The walk from the first group: the groups that are left and the freed extensions.\<close>

fun walk_root :: "(exten \<Rightarrow> bool) \<Rightarrow> (exten \<Rightarrow> bool) \<Rightarrow> bool \<Rightarrow> exten_group list \<Rightarrow> (exten_group list \<times> exten list) option" where
  "walk_root cont sel prev [] = Some ([], [])"
| "walk_root cont sel prev (g # gs) =
     (case walk_peers cont sel prev [] (peers g) of
        None \<Rightarrow> None
      | Some (chain, freed, on, prev') \<Rightarrow>
          (let left = (if chain = [] then [] else [g\<lparr>peers := chain\<rparr>])
           in if on
              then (case walk_root cont sel prev' gs of
                      None \<Rightarrow> None
                    | Some (gs', freed') \<Rightarrow> Some (left @ gs', freed @ freed'))
              else Some (left @ gs, freed)))"

text \<open>\<open>destroy_exten\<close>.\<close>

definition destroy_exten :: "exten \<Rightarrow> exten_effect list" where
  "destroy_exten e = (if ex_priority e = PRIORITY_HINT then [Remove_hint e] else []) @ [Free_exten e]"

definition tris_context_remove_extension_callerid2 :: "tris_context \<Rightarrow> string \<Rightarrow> int \<Rightarrow> string option \<Rightarrow> bool \<Rightarrow>
    string option \<Rightarrow> (int \<times> tris_context \<times> exten_effect list) option" where
  "tris_context_remove_extension_callerid2 con extension priority callerid matchcallerid registrar =
     (if \<not> tables_live con then None
      else
        (let con1 = remove_from_tables con extension priority callerid matchcallerid;
             named = (\<lambda>e. ex_name e = extension \<and> cid_agrees callerid matchcallerid e);
             first = (\<lambda>g. named (hd (peers g)) \<and> registrar_agrees registrar (hd (peers g)));
             sel = (\<lambda>e. (priority = 0 \<or> ex_priority e = priority) \<and>
                     (callerid = None \<or> \<not> matchcallerid \<or> Some (ex_cidmatch e) = callerid) \<and> registrar_agrees registrar e);
             before = takeWhile (\<lambda>g. \<not> first g) (c_root con1);
             rest = dropWhile (\<lambda>g. \<not> first g) (c_root con1)
         in if rest = [] then Some (- 1, con1, [])
            else (case walk_root named sel False rest of
                    None \<Rightarrow> None
                  | Some (gs, freed) \<Rightarrow>
                      Some (if freed = [] then - 1 else 0, con1\<lparr>c_root := before @ gs\<rparr>, concat (map destroy_exten freed)))))"

definition tris_context_remove_extension2 :: "tris_context \<Rightarrow> string \<Rightarrow> int \<Rightarrow> string option \<Rightarrow>
    (int \<times> tris_context \<times> exten_effect list) option" where
  "tris_context_remove_extension2 con extension priority registrar =
     tris_context_remove_extension_callerid2 con extension priority None False registrar"

section \<open>Includes, switches and ignore patterns\<close>

text \<open>\<open>tris_context_add_include2\<close>. What comes after the first comma is the time construct; \<open>None\<close> where
  \<open>tris_build_timing\<close> is undefined.\<close>

definition empty_timing :: tris_timing where
  "empty_timing = \<lparr>monthmask = 0, daymask = 0, dowmask = 0, minmask = replicate 48 0, timezone = None\<rparr>"

definition include_of :: "string \<Rightarrow> string \<Rightarrow> tris_include option" where
  "include_of value registrar =
     (case cut_at CHR '','' value of
        None \<Rightarrow> Some \<lparr>i_name = value, i_rname = value, i_registrar = registrar, i_timing = None\<rparr>
      | Some (name, info) \<Rightarrow>
          (case tris_build_timing empty_timing info of
             None \<Rightarrow> None
           | Some (hastime, t) \<Rightarrow>
               Some \<lparr>i_name = value, i_rname = name, i_registrar = registrar,
                     i_timing = (if hastime = 0 then None else Some t)\<rparr>))"

definition tris_context_add_include2 :: "tris_context \<Rightarrow> string \<Rightarrow> string \<Rightarrow> bool \<Rightarrow> (int \<times> tris_context) option" where
  "tris_context_add_include2 con value registrar alloc =
     (if \<not> alloc then Some (- 1, con)
      else
        (case include_of value registrar of
           None \<Rightarrow> None
         | Some i \<Rightarrow>
             if list_ex (\<lambda>j. strcaseeq (i_name j) (i_name i)) (c_includes con) then Some (- 1, con)
             else Some (0, con\<lparr>c_includes := c_includes con @ [i]\<rparr>)))"

text \<open>Removing the first element that satisfies a condition.\<close>

fun remove_first :: "('a \<Rightarrow> bool) \<Rightarrow> 'a list \<Rightarrow> 'a list option" where
  "remove_first P [] = None"
| "remove_first P (x # xs) = (if P x then Some xs else map_option (\<lambda>ys. x # ys) (remove_first P xs))"

definition tris_context_remove_include2 :: "tris_context \<Rightarrow> string \<Rightarrow> string option \<Rightarrow> int \<times> tris_context" where
  "tris_context_remove_include2 con name registrar =
     (case remove_first (\<lambda>i. i_name i = name \<and> (registrar = None \<or> Some (i_registrar i) = registrar)) (c_includes con) of
        None \<Rightarrow> (- 1, con)
      | Some is \<Rightarrow> (0, con\<lparr>c_includes := is\<rparr>))"

definition tris_context_add_switch2 :: "tris_context \<Rightarrow> string \<Rightarrow> string option \<Rightarrow> bool \<Rightarrow> string \<Rightarrow> bool \<Rightarrow> int \<times> tris_context" where
  "tris_context_add_switch2 con value data eval registrar alloc =
     (if \<not> alloc then (- 1, con)
      else
        (let sw = \<lparr>sw_name = value, sw_data = (case data of None \<Rightarrow> [] | Some d \<Rightarrow> d), sw_eval = eval,
                   sw_registrar = registrar\<rparr>
         in if list_ex (\<lambda>i. strcaseeq (sw_name i) (sw_name sw) \<and> strcaseeq (sw_data i) (sw_data sw)) (c_alts con)
            then (- 1, con)
            else (0, con\<lparr>c_alts := c_alts con @ [sw]\<rparr>)))"

definition tris_context_remove_switch2 :: "tris_context \<Rightarrow> string \<Rightarrow> string \<Rightarrow> string option \<Rightarrow> int \<times> tris_context" where
  "tris_context_remove_switch2 con sw data registrar =
     (case remove_first (\<lambda>i. sw_name i = sw \<and> sw_data i = data \<and> (registrar = None \<or> Some (sw_registrar i) = registrar))
             (c_alts con) of
        None \<Rightarrow> (- 1, con)
      | Some sws \<Rightarrow> (0, con\<lparr>c_alts := sws\<rparr>))"

text \<open>The third result is the memory that is lost: \<open>tris_context_add_ignorepat2\<close> does not free the
  structure of a pattern that is already there.\<close>

definition tris_context_add_ignorepat2 :: "tris_context \<Rightarrow> string \<Rightarrow> string \<Rightarrow> bool \<Rightarrow> int \<times> tris_context \<times> tris_ignorepat list" where
  "tris_context_add_ignorepat2 con value registrar alloc =
     (let ip = \<lparr>ip_pattern = value, ip_registrar = registrar\<rparr>
      in if \<not> alloc then (- 1, con, [])
         else if list_ex (\<lambda>i. strcaseeq (ip_pattern i) value) (c_ignorepats con) then (- 1, con, [ip])
         else (0, con\<lparr>c_ignorepats := c_ignorepats con @ [ip]\<rparr>, []))"

text \<open>\<open>tris_context_remove_ignorepat2\<close> compares the pointers of the registrars; \<open>same\<close> tells whether the
  pointer given is that of the pattern.\<close>

definition tris_context_remove_ignorepat2 :: "(tris_ignorepat \<Rightarrow> bool) \<Rightarrow> tris_context \<Rightarrow> string \<Rightarrow> string option \<Rightarrow> int \<times> tris_context" where
  "tris_context_remove_ignorepat2 same con ignorepat registrar =
     (case remove_first (\<lambda>i. ip_pattern i = ignorepat \<and> (registrar = None \<or> same i)) (c_ignorepats con) of
        None \<Rightarrow> (- 1, con)
      | Some ips \<Rightarrow> (0, con\<lparr>c_ignorepats := ips\<rparr>))"

definition tris_ignore_pattern :: "tris_context option \<Rightarrow> string \<Rightarrow> int" where
  "tris_ignore_pattern con pattern =
     (case con of
        None \<Rightarrow> 0
      | Some c \<Rightarrow> if list_ex (\<lambda>i. tris_extension_match (ip_pattern i) pattern \<noteq> 0) (c_ignorepats c) then 1 else 0)"

section \<open>The order of the groups\<close>

text \<open>The key by which a group is placed: the name's, then the caller number's, where an extension
  without a caller number comes last.\<close>

definition order_key :: "exten_id \<Rightarrow> nat list \<times> nat list" where
  "order_key k = (ext_key (fst k), (case snd k of None \<Rightarrow> [1] | Some c \<Rightarrow> 0 # ext_key c))"

definition key_less :: "nat list \<times> nat list \<Rightarrow> nat list \<times> nat list \<Rightarrow> bool" where
  "key_less a b \<longleftrightarrow> lex_cmp (fst a) (fst b) < 0 \<or> fst a = fst b \<and> lex_cmp (snd a) (snd b) < 0"

definition tidy_exten :: "exten \<Rightarrow> bool" where
  "tidy_exten e \<longleftrightarrow> tidy (ex_name e) \<and> (ex_matchcid e \<longrightarrow> tidy (ex_cidmatch e))"

abbreviation exten_key :: "exten \<Rightarrow> nat list \<times> nat list" where
  "exten_key e \<equiv> order_key (exten_id e)"

lemma exten_cmp_key:
  assumes "tidy_exten e" "tidy_exten t"
  shows "exten_cmp e t =
    Some (let a = exten_key e; b = exten_key t
          in if fst a = fst b then lex_cmp (snd a) (snd b) else lex_cmp (fst a) (fst b))"
  using assms by (auto simp: exten_cmp_def tidy_exten_def exten_id_def order_key_def Let_def ext_cmp_key lex_cmp_eq)

lemma lex_cmp_less_trans: "lex_cmp a b < 0 \<Longrightarrow> lex_cmp b c < 0 \<Longrightarrow> lex_cmp a c < 0"
  using lex_cmp_trans [of a b c] lex_cmp_eq [of a c] lex_cmp_sym [of b c] by force

lemma key_less_trans: "key_less a b \<Longrightarrow> key_less b c \<Longrightarrow> key_less a c"
  unfolding key_less_def using lex_cmp_less_trans by metis

lemma key_less_irrefl [simp]: "\<not> key_less a a"
  using lex_cmp_eq [of "fst a" "fst a"] lex_cmp_eq [of "snd a" "snd a"] by (simp add: key_less_def)

lemma exten_cmp_less:
  assumes "tidy_exten e" "tidy_exten t" "exten_cmp e t = Some r"
  shows "r < 0 \<longleftrightarrow> key_less (exten_key e) (exten_key t)" "r = 0 \<longleftrightarrow> exten_key e = exten_key t"
    "0 < r \<longleftrightarrow> key_less (exten_key t) (exten_key e)"
  using exten_cmp_key [OF assms(1,2)] assms(3) lex_cmp_eq [of "snd (exten_key e)" "snd (exten_key t)"]
    lex_cmp_eq [of "fst (exten_key e)" "fst (exten_key t)"]
    lex_cmp_sym [of "fst (exten_key e)" "fst (exten_key t)"] lex_cmp_sym [of "snd (exten_key e)" "snd (exten_key t)"]
  by (auto simp: key_less_def Let_def prod_eq_iff split: if_splits)

section \<open>Well-formed contexts\<close>

definition wf_group :: "exten_group \<Rightarrow> bool" where
  "wf_group g \<longleftrightarrow>
     peers g \<noteq> [] \<and> sorted_wrt (\<lambda>a b. ex_priority a < ex_priority b) (peers g) \<and>
     (\<forall>e \<in> set (peers g). tidy_exten e \<and> exten_id e = exten_id (hd (peers g))) \<and>
     distinct (map fst (peer_table g)) \<and> set (peer_table g) = (\<lambda>e. (ex_priority e, e)) ` set (peers g) \<and>
     distinct (map fst (peer_label_table g)) \<and>
     (\<forall>(l, e) \<in> set (peer_label_table g). e \<in> set (peers g) \<and> ex_label e = Some l)"

definition group_id :: "exten_group \<Rightarrow> exten_id" where
  "group_id g = exten_id (hd (peers g))"

definition wf_context :: "tris_context \<Rightarrow> bool" where
  "wf_context con \<longleftrightarrow>
     (\<forall>g \<in> set (c_root con). wf_group g) \<and>
     sorted_wrt (\<lambda>g h. key_less (order_key (group_id g)) (order_key (group_id h))) (c_root con) \<and>
     distinct (map fst (c_root_table con)) \<and>
     set (c_root_table con) = (\<lambda>g. (group_id g, hd (peers g))) ` set (c_root con)"

text \<open>What a context holds, as a map from names, caller numbers and priorities.\<close>

definition dialplan_entry :: "tris_context \<Rightarrow> exten_id \<Rightarrow> int \<Rightarrow> exten option" where
  "dialplan_entry con k p = find (\<lambda>e. exten_id e = k \<and> ex_priority e = p) (extens con)"

subsection \<open>Tables\<close>

lemma map_of_distinct: "distinct (map fst t) \<Longrightarrow> map_of t k = Some v \<longleftrightarrow> (k, v) \<in> set t"
  by simp

lemma tab_remove_facts [simp]:
  "set (tab_remove k t) = {(k', v) \<in> set t. k' \<noteq> k}" "map_of (tab_remove k t) = (map_of t)(k := None)"
  "distinct (map fst t) \<Longrightarrow> distinct (map fst (tab_remove k t))"
proof -
  show "set (tab_remove k t) = {(k', v) \<in> set t. k' \<noteq> k}" by (auto simp: tab_remove_def)
  show "map_of (tab_remove k t) = (map_of t)(k := None)" by (induction t) (auto simp: tab_remove_def fun_eq_iff)
  show "distinct (map fst t) \<Longrightarrow> distinct (map fst (tab_remove k t))"
    by (simp add: tab_remove_def distinct_map_filter)
qed

lemma tab_keep:
  assumes "distinct (map fst t)" "(k, v) \<in> set t"
  shows "set t = insert (k, v) {(k', e) \<in> set t. k' \<noteq> k}"
  using assms(2) eq_key_imp_eq_value [OF assms(1)] by blast

lemma tab_remove_image:
  assumes "set t = f ` (A \<union> B)" "\<And>x. x \<in> A \<Longrightarrow> fst (f x) \<noteq> k" "\<And>x. x \<in> B \<Longrightarrow> fst (f x) = k"
  shows "set (tab_remove k t) = f ` A" "{(k', e) \<in> set t. k' \<noteq> k} = f ` A"
proof -
  have "{(k', e) \<in> set t. k' \<noteq> k} = {y \<in> f ` A \<union> f ` B. fst y \<noteq> k}" unfolding assms(1) image_Un by (auto simp: case_prod_beta')
  then show "{(k', e) \<in> set t. k' \<noteq> k} = f ` A"
  proof -
    have "\<forall>y \<in> f ` A. fst y \<noteq> k" "\<forall>y \<in> f ` B. fst y = k" using assms(2,3) by simp_all
    then show ?thesis unfolding \<open>_ = {y \<in> _. fst y \<noteq> k}\<close> by blast
  qed
  then show "set (tab_remove k t) = f ` A" by simp
qed

lemma tab_insert_facts [simp]:
  "set (tab_insert k v t) = (if map_of t k = None then insert (k, v) (set t) else set t)"
  "distinct (map fst t) \<Longrightarrow> distinct (map fst (tab_insert k v t))"
  by (auto simp: tab_insert_def map_of_eq_None_iff)

lemma labels_distinct:
  "distinct (map fst t) \<Longrightarrow> distinct (map fst (label_insert e t))"
  "distinct (map fst t) \<Longrightarrow> distinct (map fst (label_remove e t))"
  by (simp_all add: label_insert_def label_remove_def split: option.splits)

lemma labels_insert: "(l, x) \<in> set (label_insert e t) \<Longrightarrow> (l, x) \<in> set t \<or> x = e \<and> ex_label e = Some l"
  by (auto simp: label_insert_def split: option.splits if_splits)

lemma labels_remove: "(l, x) \<in> set (label_remove e t) \<Longrightarrow> (l, x) \<in> set t \<and> ex_label e \<noteq> Some l"
  by (auto simp: label_remove_def split: option.splits)

lemma wf_context_live: "wf_context con \<Longrightarrow> tables_live con"
  unfolding wf_context_def tables_live_def group_live_def wf_group_def extens_def
  by (force dest: hd_in_set)

subsection \<open>The chain of a group\<close>

lemma chain_split:
  assumes "sorted_wrt (\<lambda>a b. ex_priority a < ex_priority b) es"
  shows "\<exists>ep rest. es = ep @ rest \<and> takeWhile (\<lambda>e. ex_priority e < p) es = ep \<and>
    dropWhile (\<lambda>e. ex_priority e < p) es = rest \<and> (\<forall>e \<in> set ep. ex_priority e < p) \<and> (\<forall>e \<in> set rest. p \<le> ex_priority e)"
proof (intro exI conjI)
  show "\<forall>e \<in> set (dropWhile (\<lambda>e. ex_priority e < p) es). p \<le> ex_priority e"
    using assms
  proof (induction es)
    case (Cons a es)
    show ?case
    proof (cases "ex_priority a < p")
      case False
      then have "p \<le> ex_priority e" if "e \<in> set (a # es)" for e using Cons.prems that by fastforce
      then show ?thesis using False by simp
    qed (use Cons in simp)
  qed simp
qed (auto dest: set_takeWhileD)

lemma find_Some_iff_unique:
  assumes "\<And>x y. x \<in> set xs \<Longrightarrow> y \<in> set xs \<Longrightarrow> P x \<Longrightarrow> P y \<Longrightarrow> x = y"
  shows "find P xs = Some x \<longleftrightarrow> x \<in> set xs \<and> P x"
proof -
  have found: "P y \<and> y \<in> set xs" if "find P xs = Some y" for y using that by (auto simp: find_Some_iff)
  show ?thesis
  proof
    assume x: "x \<in> set xs \<and> P x"
    then obtain y where y: "find P xs = Some y" using find_None_iff [of P xs] by fastforce
    then have "y = x" using found [OF y] x assms by blast
    then show "find P xs = Some x" using y by simp
  qed (use found in blast)
qed

lemma group_priority_unique:
  assumes "wf_group g" "a \<in> set (peers g)" "b \<in> set (peers g)" "ex_priority a = ex_priority b"
  shows "a = b"
proof -
  have "sorted_wrt (\<lambda>a b. ex_priority a < ex_priority b) es \<Longrightarrow> a \<in> set es \<Longrightarrow> b \<in> set es \<Longrightarrow> a = b" for es
    using assms(4) by (induction es) auto
  then show ?thesis using assms by (auto simp: wf_group_def)
qed

lemma context_group_unique:
  assumes "wf_context con" "g \<in> set (c_root con)" "h \<in> set (c_root con)" "group_id g = group_id h"
  shows "g = h"
proof -
  have "sorted_wrt (\<lambda>g h. key_less (order_key (group_id g)) (order_key (group_id h))) gs \<Longrightarrow>
      g \<in> set gs \<Longrightarrow> h \<in> set gs \<Longrightarrow> g = h" for gs
    using assms(4) by (induction gs) auto
  then show ?thesis using assms by (auto simp: wf_context_def)
qed

lemma extens_iff: "e \<in> set (extens con) \<longleftrightarrow> (\<exists>g \<in> set (c_root con). e \<in> set (peers g))"
  by (auto simp: extens_def)

lemma group_member_id: "wf_context con \<Longrightarrow> g \<in> set (c_root con) \<Longrightarrow> e \<in> set (peers g) \<Longrightarrow> exten_id e = group_id g"
  unfolding wf_context_def wf_group_def group_id_def by blast

lemma dialplan_entry_iff:
  assumes "wf_context con"
  shows "dialplan_entry con k p = Some e \<longleftrightarrow> e \<in> set (extens con) \<and> exten_id e = k \<and> ex_priority e = p"
  unfolding dialplan_entry_def
proof (rule find_Some_iff_unique)
  fix x y assume xy: "x \<in> set (extens con)" "y \<in> set (extens con)" "exten_id x = k \<and> ex_priority x = p" "exten_id y = k \<and> ex_priority y = p"
  then obtain g h where g: "g \<in> set (c_root con)" "x \<in> set (peers g)" and h: "h \<in> set (c_root con)" "y \<in> set (peers h)"
    by (auto simp: extens_iff)
  then have "g = h" using xy group_member_id [OF assms] context_group_unique [OF assms g(1) h(1)] by metis
  moreover have "wf_group g" using assms g(1) by (simp add: wf_context_def)
  ultimately show "x = y" using xy g h group_priority_unique by metis
qed

section \<open>Adding keeps the order and the tables\<close>

lemma member_id: "wf_group g \<Longrightarrow> e \<in> set (peers g) \<Longrightarrow> exten_id e = group_id g"
  unfolding wf_group_def group_id_def by blast

text \<open>A group whose chain has been changed at the place of the new extension.\<close>

lemma splice_ids:
  assumes "wf_group g" "exten_id t = group_id g" "peers g = ep @ mid @ rest" "e \<in> set (ep @ t # rest)"
  shows "exten_id e = group_id g"
  using assms(2,4) member_id [OF assms(1)] by (auto simp: assms(3))

lemma splice_hd:
  assumes "wf_group g" "exten_id t = group_id g" "peers g = ep @ mid @ rest"
  shows "exten_id (hd (ep @ t # rest)) = group_id g"
  by (rule splice_ids [OF assms]) (simp add: hd_append)

lemma wf_group_splice:
  assumes "wf_group g" "tidy_exten t" "exten_id t = group_id g" "peers g = ep @ mid @ rest"
    and "\<forall>e \<in> set ep. ex_priority e < ex_priority t" "\<forall>e \<in> set rest. ex_priority t < ex_priority e"
    and "distinct (map fst pt)" "set pt = (\<lambda>e. (ex_priority e, e)) ` (set ep \<union> {t} \<union> set rest)"
    and "distinct (map fst lt)" "\<forall>(l, e) \<in> set lt. e \<in> set ep \<union> {t} \<union> set rest \<and> ex_label e = Some l"
  shows "wf_group (g\<lparr>peers := ep @ t # rest, peer_table := pt, peer_label_table := lt\<rparr>)"
proof -
  have "tidy_exten e" if "e \<in> set (ep @ t # rest)" for e
    using that assms(1,2) by (auto simp: wf_group_def assms(4))
  then have m: "\<forall>e \<in> set (ep @ t # rest). tidy_exten e \<and> exten_id e = exten_id (hd (ep @ t # rest))"
    using splice_ids [OF assms(1,3,4)] splice_hd [OF assms(1,3,4)] by metis
  have s: "sorted_wrt (\<lambda>a b. ex_priority a < ex_priority b) (ep @ t # rest)"
    using assms(1,5,6) unfolding wf_group_def assms(4) by (fastforce simp: sorted_wrt_append)
  show ?thesis unfolding wf_group_def using m s assms(7-10) by simp
qed

lemma add_pri_ok:
  assumes g: "wf_group g" and t: "tidy_exten t" "exten_id t = group_id g"
    and rt: "distinct (map fst rt)" "(group_id g, hd (peers g)) \<in> set rt"
    and res: "add_pri t g replace rt = (res, g', rt', eff)"
  shows "wf_group g' \<and> group_id g' = group_id g \<and>
    res = (if \<not> replace \<and> (\<exists>e \<in> set (peers g). ex_priority e = ex_priority t) then - 1 else 0) \<and>
    set (peers g') = (if res < 0 then set (peers g) else insert t {e \<in> set (peers g). ex_priority e \<noteq> ex_priority t}) \<and>
    distinct (map fst rt') \<and> set rt' = insert (group_id g, hd (peers g')) {(k, e) \<in> set rt. k \<noteq> group_id g}"
proof -
  let ?p = "ex_priority t"
  have sorted: "sorted_wrt (\<lambda>a b. ex_priority a < ex_priority b) (peers g)" and ne: "peers g \<noteq> []"
    and pt: "distinct (map fst (peer_table g))" "set (peer_table g) = (\<lambda>e. (ex_priority e, e)) ` set (peers g)"
    and ld: "distinct (map fst (peer_label_table g))"
    and lt: "\<forall>(l, e) \<in> set (peer_label_table g). e \<in> set (peers g) \<and> ex_label e = Some l"
    using g unfolding wf_group_def by blast+
  obtain ep rest where split: "peers g = ep @ rest" "takeWhile (\<lambda>e. ex_priority e < ?p) (peers g) = ep"
    "dropWhile (\<lambda>e. ex_priority e < ?p) (peers g) = rest"
    "\<forall>e \<in> set ep. ex_priority e < ?p" "\<forall>e \<in> set rest. ?p \<le> ex_priority e"
    using chain_split [OF sorted] by blast
  have keep: "set rt = insert (group_id g, hd (peers g)) {(k, e) \<in> set rt. k \<noteq> group_id g}"
    by (rule tab_keep [OF rt])
  have absent: "map_of (peer_table g) ?p = None" if "\<forall>e \<in> set (peers g). ex_priority e \<noteq> ?p"
    using that unfolding map_of_eq_None_iff pt(2) set_map by auto
  define nr where "nr e = (if ep = [] then tab_insert (exten_id t) t (tab_remove (exten_id e) rt) else rt)" for e
  have nr: "distinct (map fst (nr e)) \<and> set (nr e) = insert (group_id g, hd (ep @ t # es)) {(k, e) \<in> set rt. k \<noteq> group_id g}"
    if "rest = e # xs" for e es xs
  proof (cases "ep = []")
    case True
    then have "exten_id e = group_id g" using that split(1) by (simp add: group_id_def)
    then show ?thesis using True t(2) rt(1) by (simp add: nr_def)
  next
    case False
    then have "hd (peers g) = hd (ep @ t # es)" using split(1) by simp
    then show ?thesis using False rt(1) keep by (simp add: nr_def)
  qed
  note lab = labels_insert labels_remove
  show ?thesis
  proof (cases rest)
    case Nil
    then have new: "\<forall>e \<in> set (peers g). ex_priority e \<noteq> ?p" using split by auto
    let ?g = "g\<lparr>peers := ep @ [t], peer_table := tab_insert ?p t (peer_table g), peer_label_table := label_insert t (peer_label_table g)\<rparr>"
    have r: "res = 0" "g' = ?g" "rt' = rt" using res unfolding add_pri_def split(2,3) Nil by (auto simp: Let_def)
    have "wf_group ?g"
    proof (rule wf_group_splice [OF g t, of ep "[]" "[]"])
      show "\<forall>(l, x) \<in> set (label_insert t (peer_label_table g)). x \<in> set ep \<union> {t} \<union> set [] \<and> ex_label x = Some l"
        using lt lab(1) split(1) unfolding Nil by fastforce
    qed (use pt ld labels_distinct absent [OF new] split(1,4) Nil in auto)
    moreover have "hd (peers g) = hd (ep @ [t])" using ne split(1) Nil by simp
    moreover have "exten_id (hd (ep @ [t])) = group_id g" using splice_hd [OF g t(2), of ep "[]" "[]"] split(1) Nil by simp
    ultimately show ?thesis using r new split(1) Nil keep rt(1) by (auto simp: group_id_def)
  next
    case (Cons e es)
    have after: "\<forall>x \<in> set es. ex_priority e < ex_priority x" "?p \<le> ex_priority e"
      using sorted split(1,5) unfolding Cons by (auto simp: sorted_wrt_append)
    show ?thesis
    proof (cases "ex_priority e = ?p")
      case True
      then have old: "\<forall>x \<in> set ep \<union> set es. ex_priority x \<noteq> ?p"
        using split(4) after by fastforce
      show ?thesis
      proof (cases replace)
        case False
        then have "res = - 1" "g' = g" "rt' = rt" using res True unfolding add_pri_def split(2,3) Cons by (auto simp: Let_def)
        then show ?thesis using False g keep rt(1) True split(1) Cons by auto
      next
        case rep: True
        let ?g = "g\<lparr>peers := ep @ t # es, peer_table := tab_insert ?p t (tab_remove ?p (peer_table g)),
          peer_label_table := label_insert t (label_remove e (peer_label_table g))\<rparr>"
        have r: "res = 0" "g' = ?g" "rt' = nr e" using res True rep unfolding add_pri_def split(2,3) Cons nr_def by (auto simp: Let_def)
        have tab: "set (tab_insert ?p t (tab_remove ?p (peer_table g))) = (\<lambda>e. (ex_priority e, e)) ` (set ep \<union> {t} \<union> set es)"
          using True split(1,4) after unfolding Cons by (fastforce simp: pt(2))
        have "wf_group ?g"
        proof (rule wf_group_splice [OF g t, of ep "[e]" es])
          show "\<forall>(l, x) \<in> set (label_insert t (label_remove e (peer_label_table g))). x \<in> set ep \<union> {t} \<union> set es \<and> ex_label x = Some l"
            using lt lab split(1) unfolding Cons by fastforce
        qed (use pt ld labels_distinct tab split(1,4) after True Cons in auto)
        moreover have "exten_id (hd (ep @ t # es)) = group_id g" using splice_hd [OF g t(2), of ep "[e]" es] split(1) Cons by simp
        ultimately show ?thesis using r rep old True nr [OF Cons, of es] split(1) Cons by (auto simp: group_id_def)
      qed
    next
      case False
      then have lt': "?p < ex_priority e" using after by simp
      then have new: "\<forall>x \<in> set (peers g). ex_priority x \<noteq> ?p" using split(1,4) after unfolding Cons by fastforce
      let ?g = "g\<lparr>peers := ep @ t # rest, peer_table := tab_insert ?p t (peer_table g), peer_label_table := label_insert t (peer_label_table g)\<rparr>"
      have r: "res = 0" "g' = ?g" "rt' = nr e" using res False unfolding add_pri_def split(2,3) Cons nr_def by (auto simp: Let_def)
      have "wf_group ?g"
      proof (rule wf_group_splice [OF g t, of ep "[]" rest])
        show "\<forall>(l, x) \<in> set (label_insert t (peer_label_table g)). x \<in> set ep \<union> {t} \<union> set rest \<and> ex_label x = Some l"
          using lt lab(1) split(1) by fastforce
        show "\<forall>x \<in> set rest. ?p < ex_priority x" using after lt' unfolding Cons by auto
      qed (use pt ld labels_distinct absent [OF new] split(1,4) in auto)
      moreover have "exten_id (hd (ep @ t # rest)) = group_id g" using splice_hd [OF g t(2), of ep "[]" rest] split(1) by simp
      ultimately show ?thesis using r new nr [OF Cons, of rest] split(1) by (auto simp: group_id_def)
    qed
  qed
qed

abbreviation group_key :: "exten_group \<Rightarrow> nat list \<times> nat list" where
  "group_key g \<equiv> order_key (group_id g)"

lemma group_hd: "wf_group g \<Longrightarrow> hd (peers g) \<in> set (peers g)" "wf_group g \<Longrightarrow> tidy_exten (hd (peers g))"
  unfolding wf_group_def by auto

lemma scan_root_ok:
  assumes "\<forall>g \<in> set gs. wf_group g" "tidy_exten t" "sorted_wrt (\<lambda>g h. key_less (group_key g) (group_key h)) gs"
  shows "\<exists>before rest r. scan_root t gs = Some (before, rest, r) \<and> gs = before @ rest \<and>
    (\<forall>g \<in> set before. key_less (group_key g) (exten_key t)) \<and>
    (if rest \<noteq> [] \<and> r = 0 then group_key (hd rest) = exten_key t \<and> (\<forall>g \<in> set (tl rest). key_less (exten_key t) (group_key g))
     else \<forall>g \<in> set rest. key_less (exten_key t) (group_key g))"
  using assms
proof (induction gs)
  case (Cons g gs)
  then have g: "wf_group g" "tidy_exten (hd (peers g))" using group_hd(2) by auto
  obtain r where r: "exten_cmp (hd (peers g)) t = Some r" using exten_cmp_key [OF g(2) Cons.prems(2)] by simp
  note cmp = exten_cmp_less [OF g(2) Cons.prems(2) r, folded group_id_def]
  show ?case
  proof (cases "0 \<le> r")
    case True
    have "\<forall>h \<in> set gs. key_less (group_key g) (group_key h)" using Cons.prems(3) by simp
    then have "\<forall>h \<in> set gs. key_less (exten_key t) (group_key h)"
      using cmp True key_less_trans by (metis order_le_less)
    then show ?thesis using True r cmp by auto
  next
    case False
    obtain before rest r' where "scan_root t gs = Some (before, rest, r')" "gs = before @ rest"
      "\<forall>g \<in> set before. key_less (group_key g) (exten_key t)"
      "if rest \<noteq> [] \<and> r' = 0 then group_key (hd rest) = exten_key t \<and> (\<forall>g \<in> set (tl rest). key_less (exten_key t) (group_key g))
       else \<forall>g \<in> set rest. key_less (exten_key t) (group_key g)"
      using Cons by auto
    then show ?thesis using False r cmp(1)
      by (intro exI [of _ "g # before"] exI [of _ rest] exI [of _ r']) simp
  qed
qed simp

text \<open>Putting a group in the place of another, or between two others.\<close>

lemma wf_context_put:
  assumes wf: "wf_context con" and split: "c_root con = before @ mid @ rest"
    and mid: "mid = [] \<or> (\<exists>h. mid = [h] \<and> group_id h = group_id g)"
    and g: "wf_group g" and order: "\<forall>h \<in> set before. key_less (group_key h) (group_key g)" "\<forall>h \<in> set rest. key_less (group_key g) (group_key h)"
    and rt: "distinct (map fst rt)"
      "set rt = insert (group_id g, hd (peers g)) {(k, e) \<in> set (c_root_table con). k \<noteq> group_id g}"
  shows "wf_context (con\<lparr>c_root := before @ g # rest, c_root_table := rt\<rparr>)"
proof -
  let ?f = "\<lambda>g. (group_id g, hd (peers g))"
  have w: "\<forall>h \<in> set (before @ mid @ rest). wf_group h"
    and s: "sorted_wrt (\<lambda>g h. key_less (group_key g) (group_key h)) (before @ mid @ rest)"
    and t: "set (c_root_table con) = ?f ` set (before @ mid @ rest)"
    using wf unfolding wf_context_def split by blast+
  have neq: "group_id h \<noteq> group_id g" if "h \<in> set before \<union> set rest" for h
    using that order by (metis UnE key_less_irrefl)
  have "{(k, e) \<in> set (c_root_table con). k \<noteq> group_id g} = ?f ` (set before \<union> set rest)"
    by (rule tab_remove_image(2) [of _ _ _ "set mid"]) (use t neq mid in auto)
  then have rt': "set rt = ?f ` set (before @ g # rest)" using rt(2) by auto
  have "sorted_wrt (\<lambda>g h. key_less (group_key g) (group_key h)) (before @ g # rest)"
    using s order by (auto simp: sorted_wrt_append)
  then show ?thesis unfolding wf_context_def using w g rt(1) rt' by auto
qed

lemma put_exten_ok:
  assumes wf: "wf_context con" and t: "tidy_exten t"
    and canonical: "\<forall>e \<in> set (extens con). exten_key e = exten_key t \<longrightarrow> exten_id e = exten_id t"
  shows "\<exists>con' eff. put_exten con replace extension t = Some (0, con', eff) \<and> wf_context con' \<and>
    set (extens con') =
      (if \<not> replace \<and> (\<exists>e \<in> set (extens con). exten_id e = exten_id t \<and> ex_priority e = ex_priority t) then set (extens con)
       else insert t {e \<in> set (extens con). \<not> (exten_id e = exten_id t \<and> ex_priority e = ex_priority t)})"
proof -
  have w: "\<forall>g \<in> set (c_root con). wf_group g" and s: "sorted_wrt (\<lambda>g h. key_less (group_key g) (group_key h)) (c_root con)"
    and d: "distinct (map fst (c_root_table con))"
    and tab: "set (c_root_table con) = (\<lambda>g. (group_id g, hd (peers g))) ` set (c_root con)"
    using wf unfolding wf_context_def by blast+
  obtain before rest r where scan: "scan_root t (c_root con) = Some (before, rest, r)" "c_root con = before @ rest"
    "\<forall>g \<in> set before. key_less (group_key g) (exten_key t)"
    "if rest \<noteq> [] \<and> r = 0 then group_key (hd rest) = exten_key t \<and> (\<forall>g \<in> set (tl rest). key_less (exten_key t) (group_key g))
     else \<forall>g \<in> set rest. key_less (exten_key t) (group_key g)"
    using scan_root_ok [OF w t s] by auto
  define rt where "rt = (if c_tree con \<and> map_of (c_root_table con) (take 1023 extension, None) = None
                then tab_insert (exten_id t) t (c_root_table con) else c_root_table con)"
  have put: "put_exten con replace extension t =
      (if rest \<noteq> [] \<and> r = 0
       then (case add_pri t (hd rest) replace rt of
               (res, g, rt', eff) \<Rightarrow> Some (0, con\<lparr>c_root := before @ g # tl rest, c_root_table := rt'\<rparr>, eff))
       else Some (0, con\<lparr>c_root := before @ \<lparr>peers = [t], peer_table = [(ex_priority t, t)],
                    peer_label_table = label_insert t []\<rparr> # rest,
                  c_root_table := tab_insert (exten_id t) t rt\<rparr>, hint_effect t))"
    unfolding put_exten_def using scan(1) by (simp add: rt_def Let_def)
  have other: "exten_id e \<noteq> exten_id t" if "g \<in> set (c_root con)" "e \<in> set (peers g)"
      "key_less (group_key g) (exten_key t) \<or> key_less (exten_key t) (group_key g)" for g e
    using that group_member_id [OF wf that(1,2)] by (metis key_less_irrefl)
  show ?thesis
  proof (cases "rest \<noteq> [] \<and> r = 0")
    case True
    then obtain g after where rest: "rest = g # after" by (cases rest) auto
    have g: "wf_group g" "g \<in> set (c_root con)" "group_key g = exten_key t" and less: "\<forall>g \<in> set after. key_less (exten_key t) (group_key g)"
      using w scan(2,4) True rest by auto
    have id: "exten_id t = group_id g"
      using canonical g group_hd(1) [OF g(1)] extens_iff by (metis group_id_def)
    have mem: "(group_id g, hd (peers g)) \<in> set (c_root_table con)" using tab g(2) by blast
    have rt: "rt = c_root_table con"
    proof -
      have "map_of (c_root_table con) (exten_id t) \<noteq> None" using mem id d by simp
      then show ?thesis by (simp only: rt_def tab_insert_def if_False if_cancel)
    qed
    obtain res g' rt' eff where add: "add_pri t g replace (c_root_table con) = (res, g', rt', eff)" by (metis prod_cases4)
    note ok = add_pri_ok [OF g(1) t id d mem add]
    let ?con = "con\<lparr>c_root := before @ g' # after, c_root_table := rt'\<rparr>"
    have wf': "wf_context ?con"
      by (rule wf_context_put [OF wf, of before "[g]"]) (use scan(2,3) rest ok less id in auto)
    have ex: "set (extens con) = set (concat (map peers (before @ after))) \<union> set (peers g)"
      "set (extens ?con) = set (concat (map peers (before @ after))) \<union> set (peers g')"
      unfolding extens_def scan(2) rest by auto
    have out: "exten_id e \<noteq> exten_id t" if "e \<in> set (concat (map peers (before @ after)))" for e
      using that other scan(2,3) less rest by fastforce
    have inn: "exten_id e = exten_id t" if "e \<in> set (peers g)" for e using that member_id [OF g(1)] id by simp
    have "set (extens ?con) =
      (if \<not> replace \<and> (\<exists>e \<in> set (extens con). exten_id e = exten_id t \<and> ex_priority e = ex_priority t) then set (extens con)
       else insert t {e \<in> set (extens con). \<not> (exten_id e = exten_id t \<and> ex_priority e = ex_priority t)})"
      unfolding ex using ok out inn by auto
    moreover have "put_exten con replace extension t = Some (0, ?con, eff)" unfolding put using True rest rt add by simp
    ultimately show ?thesis using wf' by blast
  next
    case False
    then have less: "\<forall>g \<in> set rest. key_less (exten_key t) (group_key g)" using scan(4) by (simp only: if_False)
    let ?g = "\<lparr>peers = [t], peer_table = [(ex_priority t, t)], peer_label_table = label_insert t []\<rparr>"
    have id: "group_id ?g = exten_id t" by (simp add: group_id_def)
    have g: "wf_group ?g" using t by (auto simp: wf_group_def labels_distinct dest: labels_insert)
    have out: "exten_id e \<noteq> exten_id t" if "e \<in> set (extens con)" for e
      using that other scan(2,3) less by (fastforce simp: extens_iff)
    have absent: "map_of (c_root_table con) (exten_id t) = None"
    proof -
      have "exten_id t \<noteq> group_id g" if "g \<in> set (c_root con)" for g
        using that out group_hd(1) w extens_iff unfolding group_id_def by metis
      then show ?thesis unfolding map_of_eq_None_iff set_map tab by force
    qed
    have rt: "distinct (map fst (tab_insert (exten_id t) t rt)) \<and> set (tab_insert (exten_id t) t rt) = insert (exten_id t, t) (set (c_root_table con))"
      using d absent by (auto simp: rt_def tab_insert_def map_of_eq_None_iff)
    let ?con = "con\<lparr>c_root := before @ ?g # rest, c_root_table := tab_insert (exten_id t) t rt\<rparr>"
    have wf': "wf_context ?con"
    proof (rule wf_context_put [OF wf, of before "[]"])
      have "{(k, e) \<in> set (c_root_table con). k \<noteq> exten_id t} = set (c_root_table con)"
        using absent by (force simp: map_of_eq_None_iff)
      then show "set (tab_insert (exten_id t) t rt) = insert (group_id ?g, hd (peers ?g)) {(k, e) \<in> set (c_root_table con). k \<noteq> group_id ?g}"
        using rt by (simp add: id)
    qed (use scan(2,3) less g rt in \<open>simp_all add: id\<close>)
    have "set (extens ?con) = insert t (set (extens con))" unfolding extens_def scan(2) by auto
    moreover have "\<not> (\<exists>e \<in> set (extens con). exten_id e = exten_id t \<and> ex_priority e = ex_priority t)"
      "{e \<in> set (extens con). \<not> (exten_id e = exten_id t \<and> ex_priority e = ex_priority t)} = set (extens con)"
      using out by auto
    moreover have "put_exten con replace extension t = Some (0, ?con, hint_effect t)" unfolding put using False by (simp only: if_False)
    ultimately show ?thesis using wf' by auto
  qed
qed

lemma dialplan_entry_eqI:
  assumes "wf_context con"
    and "\<And>e. v = Some e \<longleftrightarrow> e \<in> set (extens con) \<and> exten_id e = k \<and> ex_priority e = p"
  shows "dialplan_entry con k p = v"
proof (cases "dialplan_entry con k p")
  case None
  then have "v \<noteq> Some e" for e using dialplan_entry_iff [OF assms(1), of k p e] assms(2) [of e] by simp
  then show ?thesis using None by (cases v) auto
next
  case (Some e)
  then show ?thesis using dialplan_entry_iff [OF assms(1), of k p e] assms(2) [of e] by simp
qed

text \<open>Claim C2. Adding an extension to a well-formed context whose patterns are spelt in one way keeps the
  extensions in the order of matching, their priorities in order and the hash tables in step, and is
  an insertion in the map of what the context holds: an entry already there is replaced when that is
  asked for, and kept otherwise - with the result 0 all the same.\<close>

theorem add_extension_refines:
  assumes "wf_context con" "extension \<noteq> []"
    and "t = build_exten subst con extension priority label callerid app data registrar" "tidy_exten t"
    and "\<forall>e \<in> set (extens con). exten_key e = exten_key t \<longrightarrow> exten_id e = exten_id t"
  shows "\<exists>con' eff. tris_add_extension2 subst True con replace extension priority label callerid app data registrar
      = Some (0, con', eff) \<and> wf_context con' \<and>
    dialplan_entry con' =
      (if replace \<or> dialplan_entry con (exten_id t) priority = None
       then (dialplan_entry con)(exten_id t := (dialplan_entry con (exten_id t))(priority := Some t))
       else dialplan_entry con)"
proof -
  have p: "ex_priority t = priority" using assms(3) by (simp add: build_exten_def new_exten_def)
  note entry = dialplan_entry_iff [OF assms(1)]
  obtain con' eff where put: "put_exten con replace extension t = Some (0, con', eff)" "wf_context con'"
    and ext: "set (extens con') =
      (if \<not> replace \<and> (\<exists>e \<in> set (extens con). exten_id e = exten_id t \<and> ex_priority e = ex_priority t) then set (extens con)
       else insert t {e \<in> set (extens con). \<not> (exten_id e = exten_id t \<and> ex_priority e = ex_priority t)})"
    using put_exten_ok [OF assms(1,4,5)] by blast
  have none: "dialplan_entry con (exten_id t) priority = None \<longleftrightarrow>
      \<not> (\<exists>e \<in> set (extens con). exten_id e = exten_id t \<and> ex_priority e = ex_priority t)"
    using entry [of "exten_id t" priority] p by (metis not_Some_eq)
  have "dialplan_entry con' k q =
      (if replace \<or> dialplan_entry con (exten_id t) priority = None
       then (dialplan_entry con)(exten_id t := (dialplan_entry con (exten_id t))(priority := Some t))
       else dialplan_entry con) k q" for k q
    by (rule dialplan_entry_eqI [OF put(2)]) (use entry p none in \<open>auto simp: ext\<close>)
  then show ?thesis using put wf_context_live [OF assms(1)] assms(2,3) by (auto simp: tris_add_extension2_def fun_eq_iff)
qed

definition sample_exten :: "string \<Rightarrow> int \<Rightarrow> string \<Rightarrow> exten" where
  "sample_exten name p app =
     \<lparr>ex_name = name, ex_matchcid = False, ex_cidmatch = [], ex_priority = p, ex_label = None,
      ex_app = app, ex_data = [], ex_registrar = ''pbx_config''\<rparr>"

definition sample_context :: tris_context where
  "sample_context =
     (let e = sample_exten ''100'' 1 ''Dial''; f = sample_exten ''100'' 2 ''Hangup''
      in \<lparr>c_name = ''default'',
          c_root = [\<lparr>peers = [e, f], peer_table = [(1, e), (2, f)], peer_label_table = []\<rparr>],
          c_root_table = [((''100'', None), e)], c_tree = True, c_includes = [], c_alts = [], c_ignorepats = []\<rparr>)"

lemma sample_context_wf: "wf_context sample_context"
  by (simp add: sample_context_def wf_context_def wf_group_def sample_exten_def exten_id_def group_id_def
      tidy_exten_def tidy_def Let_def)

theorem add_extension_refines_witness:
  "\<exists>con' eff. tris_add_extension2 (\<lambda>x c a. a) True sample_context False ''100'' 1 None None ''Goto'' [] ''user'' = Some (0, con', eff) \<and>
    dialplan_entry con' = dialplan_entry sample_context"
proof -
  let ?t = "build_exten (\<lambda>x c a. a) sample_context ''100'' 1 None None ''Goto'' [] ''user''"
  have t: "exten_id ?t = (''100'', None)" "tidy_exten ?t"
    by (simp_all add: build_exten_def new_exten_def PRIORITY_HINT_def exten_id_def ext_strncpy_def tidy_exten_def tidy_def)
  have "dialplan_entry sample_context (''100'', None) 1 \<noteq> None"
    by (simp add: dialplan_entry_def extens_def sample_context_def sample_exten_def exten_id_def Let_def)
  moreover have "\<forall>e \<in> set (extens sample_context). exten_key e = exten_key ?t \<longrightarrow> exten_id e = exten_id ?t"
    unfolding t by (simp add: extens_def sample_context_def sample_exten_def exten_id_def Let_def)
  ultimately show ?thesis
    using add_extension_refines [OF sample_context_wf _ refl t(2), of False] by (auto simp: t(1))
qed

end
