(* ===== verification/PbxRemove.thy ===== *)
theory PbxRemove
  imports PbxContext
begin

text \<open>
  Removing extensions from a dialplan context (\<open>tris_context_remove_extension_callerid2\<close> of \<open>main/pbx.c\<close>):
  where the removal is exact, and where the hash tables and the chains part.
\<close>

section \<open>Removing is exact where the names are\<close>

lemma walk_peers_all:
  "\<forall>e \<in> set es. cont e \<Longrightarrow> (prev \<longrightarrow> kept \<noteq> []) \<Longrightarrow>
    \<exists>on prev'. walk_peers cont sel prev kept es = Some (kept @ filter (\<lambda>e. \<not> sel e) es, filter sel es, on, prev')"
proof (induction es arbitrary: prev kept)
  case (Cons e es)
  show ?case
  proof (cases "sel e")
    case True
    then obtain on prev' where "walk_peers cont sel prev kept es = Some (kept @ filter (\<lambda>e. \<not> sel e) es, filter sel es, on, prev')"
      using Cons.IH [of prev kept] Cons.prems by auto
    then show ?thesis using True Cons.prems by simp
  next
    case False
    then obtain on prev' where "walk_peers cont sel True (kept @ [e]) es = Some ((kept @ [e]) @ filter (\<lambda>e. \<not> sel e) es, filter sel es, on, prev')"
      using Cons.IH [of True "kept @ [e]"] Cons.prems by auto
    then show ?thesis using False Cons.prems by simp
  qed
qed auto

lemma walk_root_stop:
  assumes "\<forall>h \<in> set gs. peers h \<noteq> [] \<and> \<not> cont (hd (peers h))"
  shows "walk_root cont sel prev gs = Some (gs, [])"
proof (cases gs)
  case (Cons h hs)
  then obtain e es where "peers h = e # es" "\<not> cont e" using assms by (cases "peers h") auto
  then show ?thesis using Cons by simp
qed simp

lemma walk_root_one:
  assumes "\<forall>e \<in> set (peers g). cont e" "\<forall>h \<in> set gs. peers h \<noteq> [] \<and> \<not> cont (hd (peers h))"
  shows "walk_root cont sel False (g # gs) =
    Some ((let chain = filter (\<lambda>e. \<not> sel e) (peers g) in if chain = [] then [] else [g\<lparr>peers := chain\<rparr>]) @ gs,
      filter sel (peers g))"
proof -
  obtain on prev' where "walk_peers cont sel False [] (peers g) = Some (filter (\<lambda>e. \<not> sel e) (peers g), filter sel (peers g), on, prev')"
    using walk_peers_all [OF assms(1), of False "[]" sel] by auto
  then show ?thesis using walk_root_stop [OF assms(2)] by (simp add: Let_def)
qed

text \<open>The group without one of its entries, and without its tables' reference to it.\<close>

lemma untable_group_ok:
  assumes g: "wf_group g" and e: "e \<in> set (peers g)"
  shows "set (peer_table (untable_group (hd (peers g)) e g)) = (\<lambda>x. (ex_priority x, x)) ` (set (peers g) - {e})"
    "distinct (map fst (peer_table (untable_group (hd (peers g)) e g)))"
    "distinct (map fst (peer_label_table (untable_group (hd (peers g)) e g)))"
    "\<forall>(l, x) \<in> set (peer_label_table (untable_group (hd (peers g)) e g)). x \<in> set (peers g) - {e} \<and> ex_label x = Some l"
    "peers (untable_group (hd (peers g)) e g) = peers g"
proof -
  have pt: "distinct (map fst (peer_table g))" "set (peer_table g) = (\<lambda>e. (ex_priority e, e)) ` set (peers g)"
    and ld: "distinct (map fst (peer_label_table g))"
    and lt: "\<forall>(l, e) \<in> set (peer_label_table g). e \<in> set (peers g) \<and> ex_label e = Some l"
    using g unfolding wf_group_def by blast+
  have "(ex_priority e, e) \<in> set (peer_table g)" using e by (simp add: pt(2))
  then have m: "map_of (peer_table g) (ex_priority e) = Some e" using pt(1) by simp
  have u: "ex_priority x = ex_priority e \<longleftrightarrow> x = e" if "x \<in> set (peers g)" for x
    using group_priority_unique [OF g that e] by blast
  have pt': "peer_table (untable_group (hd (peers g)) e g) = tab_remove (ex_priority e) (peer_table g)"
    by (simp add: untable_group_def tab_remove_this_def m)
  show "set (peer_table (untable_group (hd (peers g)) e g)) = (\<lambda>x. (ex_priority x, x)) ` (set (peers g) - {e})"
    unfolding pt' using u by (auto simp: pt(2))
  show "distinct (map fst (peer_table (untable_group (hd (peers g)) e g)))" unfolding pt' using pt(1) by simp
  show "distinct (map fst (peer_label_table (untable_group (hd (peers g)) e g)))"
    using ld by (simp add: untable_group_def tab_remove_this_def split: option.splits)
  show "peers (untable_group (hd (peers g)) e g) = peers g" by (simp add: untable_group_def)
  show "\<forall>(l, x) \<in> set (peer_label_table (untable_group (hd (peers g)) e g)). x \<in> set (peers g) - {e} \<and> ex_label x = Some l"
  proof (intro ballI, clarify)
    fix l x assume x: "(l, x) \<in> set (peer_label_table (untable_group (hd (peers g)) e g))"
    then have old: "(l, x) \<in> set (peer_label_table g)"
      by (auto simp: untable_group_def tab_remove_this_def split: option.splits if_splits)
    then have "x \<in> set (peers g)" "ex_label x = Some l" using lt by auto
    moreover have "x \<noteq> e"
    proof
      assume "x = e"
      then have "map_of (peer_label_table g) l = Some e" "ex_label e = Some l" using old ld lt by auto
      then show False using x by (simp add: untable_group_def tab_remove_this_def)
    qed
    ultimately show "x \<in> set (peers g) - {e} \<and> ex_label x = Some l" by simp
  qed
qed

lemma wf_group_without:
  assumes g: "wf_group g" and e: "e \<in> set (peers g)" and chain: "chain = filter (\<lambda>x. ex_priority x \<noteq> ex_priority e) (peers g)" "chain \<noteq> []"
  shows "wf_group ((untable_group (hd (peers g)) e g)\<lparr>peers := chain\<rparr>)" "exten_id (hd chain) = group_id g"
proof -
  have sub: "set chain = set (peers g) - {e}" unfolding chain using group_priority_unique [OF g _ e] by auto
  have in_g: "x \<in> set (peers g)" if "x \<in> set chain" for x using that sub by blast
  show hd: "exten_id (hd chain) = group_id g" using chain(2) member_id [OF g] in_g by simp
  have m: "\<forall>x \<in> set chain. tidy_exten x \<and> exten_id x = exten_id (hd chain)"
    using in_g g member_id [OF g] hd unfolding wf_group_def by metis
  have s: "sorted_wrt (\<lambda>a b. ex_priority a < ex_priority b) chain"
    using g unfolding wf_group_def chain by (simp add: sorted_wrt_filter)
  show "wf_group ((untable_group (hd (peers g)) e g)\<lparr>peers := chain\<rparr>)"
    unfolding wf_group_def using m s chain(2) untable_group_ok [OF g e] sub by simp
qed

lemma wf_context_drop:
  assumes "wf_context con" "c_root con = before @ g # after"
  shows "wf_context (con\<lparr>c_root := before @ after, c_root_table := tab_remove (group_id g) (c_root_table con)\<rparr>)"
proof -
  let ?f = "\<lambda>g. (group_id g, hd (peers g))"
  have w: "\<forall>h \<in> set (before @ g # after). wf_group h" and d: "distinct (map fst (c_root_table con))"
    and s: "sorted_wrt (\<lambda>g h. key_less (group_key g) (group_key h)) (before @ g # after)"
    and t: "set (c_root_table con) = ?f ` set (before @ g # after)"
    using assms unfolding wf_context_def assms(2) by blast+
  have "group_id h \<noteq> group_id g" if "h \<in> set before \<union> set after" for h
    using that s by (auto simp: sorted_wrt_append)
  then have "set (tab_remove (group_id g) (c_root_table con)) = ?f ` set (before @ after)"
    using tab_remove_image(1) [of "c_root_table con" ?f "set before \<union> set after" "{g}" "group_id g"] t by auto
  then show ?thesis unfolding wf_context_def using w d s by (auto simp: sorted_wrt_append)
qed

lemma walk_from_group:
  assumes split: "c_root con = before @ g # after"
    and others: "\<forall>h \<in> set before \<union> set after. peers h \<noteq> [] \<and> \<not> named (hd (peers h))"
    and g: "\<forall>e \<in> set (peers g). named e \<and> agrees e" "peers g \<noteq> []"
  shows "takeWhile (\<lambda>h. \<not> (named (hd (peers h)) \<and> agrees (hd (peers h)))) (c_root con) = before"
    "dropWhile (\<lambda>h. \<not> (named (hd (peers h)) \<and> agrees (hd (peers h)))) (c_root con) = g # after"
    "walk_root named sel False (g # after) =
      Some ((let chain = filter (\<lambda>e. \<not> sel e) (peers g) in if chain = [] then [] else [g\<lparr>peers := chain\<rparr>]) @ after,
        filter sel (peers g))"
proof -
  let ?P = "\<lambda>h. \<not> (named (hd (peers h)) \<and> agrees (hd (peers h)))"
  have b: "?P h" if "h \<in> set before" for h using that others by simp
  have g1: "\<not> ?P g" using g by simp
  show "takeWhile ?P (c_root con) = before" "dropWhile ?P (c_root con) = g # after"
    using takeWhile_append2 [of before ?P "g # after", OF b] dropWhile_append2 [of before ?P "g # after", OF b] g1
    unfolding split by simp_all
  show "walk_root named sel False (g # after) =
      Some ((let chain = filter (\<lambda>e. \<not> sel e) (peers g) in if chain = [] then [] else [g\<lparr>peers := chain\<rparr>]) @ after,
        filter sel (peers g))"
    using walk_root_one [of g named after sel] g(1) others by blast
qed

definition removal_key :: "string \<Rightarrow> string option \<Rightarrow> bool \<Rightarrow> exten_id" where
  "removal_key extension callerid matchcallerid =
     (take 1023 extension, if matchcallerid \<and> callerid \<noteq> None \<and> callerid \<noteq> Some [] then callerid else None)"

lemma remove_from_tables_key:
  "remove_from_tables con extension priority callerid matchcallerid =
     (let k = removal_key extension callerid matchcallerid
      in case map_of (c_root_table con) k of
           None \<Rightarrow> con
         | Some x \<Rightarrow>
             if priority = 0 then con\<lparr>c_root_table := tab_remove k (c_root_table con)\<rparr>
             else
               (case find (\<lambda>g. hd (peers g) = x) (c_root con) of
                  None \<Rightarrow> con
                | Some g \<Rightarrow>
                    (case map_of (peer_table g) priority of
                       None \<Rightarrow> con
                     | Some e \<Rightarrow>
                         (let g' = untable_group x e g;
                              rt = (if e = x \<and> tl (peers g) \<noteq> []
                                    then (let y = hd (tl (peers g)) in (exten_id y, y) # tab_remove k (c_root_table con))
                                    else c_root_table con);
                              rt' = (if peer_table g' = [] then tab_remove_this k x rt else rt)
                          in con\<lparr>c_root := map (untable_group x e) (c_root con), c_root_table := rt'\<rparr>))))"
  by (cases callerid) (auto simp: remove_from_tables_def removal_key_def Let_def cong: option.case_cong if_cong)

text \<open>What the tables hold of a group that has the name.\<close>

lemma root_lookup:
  assumes "wf_context con" "g \<in> set (c_root con)"
  shows "map_of (c_root_table con) (group_id g) = Some (hd (peers g))" "find (\<lambda>h. hd (peers h) = hd (peers g)) (c_root con) = Some g"
proof -
  have d: "distinct (map fst (c_root_table con))"
    and t: "set (c_root_table con) = (\<lambda>g. (group_id g, hd (peers g))) ` set (c_root con)"
    using assms(1) unfolding wf_context_def by blast+
  show "map_of (c_root_table con) (group_id g) = Some (hd (peers g))" using d t assms(2) by simp
  have "x = y" if "x \<in> set (c_root con)" "y \<in> set (c_root con)" "hd (peers x) = hd (peers g)" "hd (peers y) = hd (peers g)" for x y
    using context_group_unique [OF assms(1) that(1,2)] that(3,4) by (simp add: group_id_def)
  then show "find (\<lambda>h. hd (peers h) = hd (peers g)) (c_root con) = Some g"
    using find_Some_iff_unique [of "c_root con" "\<lambda>h. hd (peers h) = hd (peers g)" g] assms(2) by blast
qed

lemma peer_lookup:
  assumes "wf_group g"
  shows "map_of (peer_table g) p = Some e \<longleftrightarrow> e \<in> set (peers g) \<and> ex_priority e = p"
  using assms by (auto simp: wf_group_def)

lemma remove_group_ok:
  assumes wf: "wf_context con" and split: "c_root con = before @ g # after" and key: "group_id g = removal_key extension callerid matchcallerid"
  shows "\<exists>g1 rt. remove_from_tables con extension p callerid matchcallerid = con\<lparr>c_root := before @ g1 # after, c_root_table := rt\<rparr> \<and>
    peers g1 = peers g \<and>
    (let chain = filter (\<lambda>e. \<not> (p = 0 \<or> ex_priority e = p)) (peers g)
     in wf_context (con\<lparr>c_root := before @ (if chain = [] then [] else [g1\<lparr>peers := chain\<rparr>]) @ after, c_root_table := rt\<rparr>))"
proof -
  let ?k = "removal_key extension callerid matchcallerid" and ?x = "hd (peers g)"
  have in_g: "g \<in> set (c_root con)" using split by simp
  have g: "wf_group g" using wf in_g by (simp add: wf_context_def)
  note look = root_lookup [OF wf in_g, unfolded key]
  have d: "distinct (map fst (c_root_table con))" using wf by (simp add: wf_context_def)
  have order: "\<forall>h \<in> set before. key_less (group_key h) (group_key g)" "\<forall>h \<in> set after. key_less (group_key g) (group_key h)"
    using wf unfolding wf_context_def split by (auto simp: sorted_wrt_append)
  show ?thesis
  proof (cases "p = 0")
    case True
    then show ?thesis using wf_context_drop [OF wf split] look(1)
      by (intro exI [of _ g] exI [of _ "tab_remove ?k (c_root_table con)"]) (simp add: remove_from_tables_key key split [symmetric])
  next
    case p: False
    show ?thesis
    proof (cases "map_of (peer_table g) p")
      case None
      then have "ex_priority e \<noteq> p" if "e \<in> set (peers g)" for e using that peer_lookup [OF g] by (metis option.distinct(1))
      then have "filter (\<lambda>e. \<not> (p = 0 \<or> ex_priority e = p)) (peers g) = peers g" using p by simp
      moreover have "peers g \<noteq> []" using g by (simp add: wf_group_def)
      ultimately show ?thesis using wf look p None
        by (intro exI [of _ g] exI [of _ "c_root_table con"]) (simp add: remove_from_tables_key split [symmetric])
    next
      case (Some e)
      then have e: "e \<in> set (peers g)" "ex_priority e = p" using peer_lookup [OF g] by auto
      let ?g = "untable_group ?x e g" and ?chain = "filter (\<lambda>x. ex_priority x \<noteq> ex_priority e) (peers g)"
      define rt where "rt = (if e = ?x \<and> tl (peers g) \<noteq> []
        then (let y = hd (tl (peers g)) in (exten_id y, y) # tab_remove ?k (c_root_table con)) else c_root_table con)"
      define rt' where "rt' = (if peer_table ?g = [] then tab_remove_this ?k ?x rt else rt)"
      have neq: "hd (peers h) \<noteq> ?x" if "h \<in> set before \<union> set after" for h
        using that order by (metis UnE group_id_def key_less_irrefl)
      then have "map (untable_group ?x e) (c_root con) = before @ ?g # after"
        unfolding split by (simp add: untable_group_def map_idI)
      then have run: "remove_from_tables con extension p callerid matchcallerid = con\<lparr>c_root := before @ ?g # after, c_root_table := rt'\<rparr>"
        using look p Some by (simp add: remove_from_tables_key rt_def rt'_def Let_def)
      have tab: "set (peer_table ?g) = (\<lambda>x. (ex_priority x, x)) ` (set (peers g) - {e})" using untable_group_ok(1) [OF g e(1)] .
      have sub: "set ?chain = set (peers g) - {e}" using group_priority_unique [OF g _ e(1)] by auto
      have "wf_context (con\<lparr>c_root := before @ (if ?chain = [] then [] else [?g\<lparr>peers := ?chain\<rparr>]) @ after, c_root_table := rt'\<rparr>)"
      proof (cases "?chain = []")
        case True
        then have all: "set (peers g) = {e}" using sub e(1) by auto
        then have "peers g = [e]" using g by (cases "peers g"; cases "tl (peers g)") (auto simp: wf_group_def)
        then have "rt' = tab_remove ?k (c_root_table con)"
          using look(1) tab by (simp add: rt'_def rt_def tab_remove_this_def)
        then show ?thesis using True wf_context_drop [OF wf split] by (simp add: key)
      next
        case False
        note w = wf_group_without [OF g e(1) refl False]
        have "peer_table ?g \<noteq> []" using tab sub False by (metis image_is_empty list.set(1) set_empty2)
        then have rt': "rt' = rt" by (simp add: rt'_def)
        have hd_eq: "hd ?chain = (if e = ?x then hd (tl (peers g)) else ?x) \<and> (e = ?x \<longrightarrow> tl (peers g) \<noteq> [])"
        proof -
          obtain a as where as: "peers g = a # as" using g by (cases "peers g") (auto simp: wf_group_def)
          have "\<forall>b \<in> set as. ex_priority a < ex_priority b" using g by (simp add: wf_group_def as)
          then have "filter (\<lambda>x. ex_priority x \<noteq> ex_priority a) as = as" by (auto simp: filter_id_conv)
          moreover have "ex_priority a = ex_priority e \<longleftrightarrow> a = e" using group_priority_unique [OF g _ e(1)] as by auto
          ultimately show ?thesis using False as by auto
        qed
        have key': "exten_id (hd ?chain) = ?k" using w(2) key by simp
        have rts: "distinct (map fst rt) \<and> set rt = insert (?k, hd ?chain) {(k, e) \<in> set (c_root_table con). k \<noteq> ?k}"
        proof (cases "e = ?x")
          case True
          then have "rt = (?k, hd ?chain) # tab_remove ?k (c_root_table con)" using hd_eq key' by (simp add: rt_def Let_def)
          then show ?thesis using d by (auto simp: map_of_eq_None_iff)
        next
          case False
          then have "rt = c_root_table con" "hd ?chain = ?x" using hd_eq by (simp_all add: rt_def)
          moreover have "(?k, ?x) \<in> set (c_root_table con)" using look(1) map_of_SomeD by metis
          ultimately show ?thesis using d tab_keep [OF d] by simp
        qed
        have "group_id (?g\<lparr>peers := ?chain\<rparr>) = group_id g" using w(2) by (simp add: group_id_def)
        then have "wf_context (con\<lparr>c_root := before @ ?g\<lparr>peers := ?chain\<rparr> # after, c_root_table := rt\<rparr>)"
          using wf_context_put [OF wf, of before "[g]" after "?g\<lparr>peers := ?chain\<rparr>" rt] split w(1) order rts key by auto
        then show ?thesis using False rt' by simp
      qed
      then show ?thesis using run [unfolded e(2)] p untable_group_ok(5) [OF g e(1)]
        by (intro exI [of _ ?g] exI [of _ rt']) (simp add: Let_def e(2) split: if_splits)
    qed
  qed
qed

lemma sorted_wrt_chain_distinct: "sorted_wrt (\<lambda>a b. ex_priority a < ex_priority b) es \<Longrightarrow> distinct es"
  by (induction es) auto

lemma dialplan_entry_without:
  assumes "wf_context con" "wf_context con'" "set (extens con') = {e \<in> set (extens con). \<not> P (exten_id e) (ex_priority e)}"
  shows "dialplan_entry con' = (\<lambda>k q. if P k q then None else dialplan_entry con k q)"
proof (intro ext)
  fix k q
  show "dialplan_entry con' k q = (if P k q then None else dialplan_entry con k q)"
    by (rule dialplan_entry_eqI [OF assms(2)]) (auto simp: dialplan_entry_iff [OF assms(1)] assms(3))
qed

lemma wf_group_peers: "wf_group g \<Longrightarrow> peers g \<noteq> []"
  unfolding wf_group_def by blast

text \<open>The entries of one group: they are those of its extension and caller number, and what is left when some
  of them are taken out of its chain.\<close>

lemma member_extens: "g \<in> set (c_root con) \<Longrightarrow> e \<in> set (peers g) \<Longrightarrow> e \<in> set (extens con)"
  by (auto simp: extens_iff)

lemma other_groups:
  assumes "wf_context con" "c_root con = before @ g # after" "h \<in> set before \<union> set after"
  shows "h \<in> set (c_root con)" "group_id h \<noteq> group_id g"
proof -
  show "h \<in> set (c_root con)" using assms(2,3) by auto
  have "sorted_wrt (\<lambda>g h. key_less (group_key g) (group_key h)) (before @ g # after)"
    using assms(1) by (simp add: wf_context_def assms(2))
  then show "group_id h \<noteq> group_id g" using assms(3) by (auto simp: sorted_wrt_append)
qed

lemma group_entries:
  assumes "wf_context con" "g \<in> set (c_root con)"
  shows "{e \<in> set (extens con). exten_id e = group_id g \<and> P e} = {e \<in> set (peers g). P e}"
proof -
  have "e \<in> set (peers g)" if e: "e \<in> set (extens con)" "exten_id e = group_id g" for e
  proof -
    obtain h where h: "h \<in> set (c_root con)" "e \<in> set (peers h)" using e(1) by (auto simp: extens_iff)
    then have "group_id h = group_id g" using group_member_id [OF assms(1) h] e(2) by simp
    then show ?thesis using context_group_unique [OF assms(1) h(1) assms(2)] h(2) by simp
  qed
  then show ?thesis using group_member_id [OF assms] assms(2) by (auto simp: extens_iff)
qed

lemma extens_taken_out:
  assumes wf: "wf_context con" and split: "c_root con = before @ g # after"
    and "chain = filter (\<lambda>e. \<not> P e) (peers g)"
    and "c_root con' = before @ (if chain = [] then [] else [g1\<lparr>peers := chain\<rparr>]) @ after"
  shows "set (extens con') = {e \<in> set (extens con). \<not> (exten_id e = group_id g \<and> P e)}"
proof -
  define others where "others = (\<Union>h \<in> set before \<union> set after. set (peers h))"
  have "set (extens con') = others \<union> {e \<in> set (peers g). \<not> P e}" by (auto simp: extens_def assms(3,4) others_def filter_empty_conv)
  moreover have "set (extens con) = others \<union> set (peers g)" by (auto simp: extens_def split others_def)
  moreover have "\<forall>e \<in> others. exten_id e \<noteq> group_id g"
  proof (intro ballI)
    fix e assume "e \<in> others"
    then obtain h where h: "h \<in> set before \<union> set after" "e \<in> set (peers h)" unfolding others_def by blast
    then show "exten_id e \<noteq> group_id g" using other_groups [OF wf split h(1)] group_member_id [OF wf _ h(2)] by simp
  qed
  moreover have "\<forall>e \<in> set (peers g). exten_id e = group_id g" using group_member_id [OF wf] split by simp
  ultimately show ?thesis by auto
qed

text \<open>The removal in a well-formed context, with the tests of its walk spelled out, and what it does when no
  group is the one it names.\<close>

definition removal_named :: "string \<Rightarrow> string option \<Rightarrow> bool \<Rightarrow> exten \<Rightarrow> bool" where
  "removal_named extension callerid matchcallerid e \<longleftrightarrow> ex_name e = extension \<and> cid_agrees callerid matchcallerid e"

definition removal_selects :: "int \<Rightarrow> string option \<Rightarrow> bool \<Rightarrow> string option \<Rightarrow> exten \<Rightarrow> bool" where
  "removal_selects p callerid matchcallerid registrar e \<longleftrightarrow> (p = 0 \<or> ex_priority e = p) \<and>
     (callerid = None \<or> \<not> matchcallerid \<or> Some (ex_cidmatch e) = callerid) \<and> registrar_agrees registrar e"

lemma remove_unfold:
  assumes "wf_context con" "con1 = remove_from_tables con extension p callerid matchcallerid"
    and "named = removal_named extension callerid matchcallerid" "sel = removal_selects p callerid matchcallerid registrar"
  shows "tris_context_remove_extension_callerid2 con extension p callerid matchcallerid registrar =
    (let first = (\<lambda>g. named (hd (peers g)) \<and> registrar_agrees registrar (hd (peers g)));
         before = takeWhile (\<lambda>g. \<not> first g) (c_root con1);
         rest = dropWhile (\<lambda>g. \<not> first g) (c_root con1)
     in if rest = [] then Some (- 1, con1, [])
        else (case walk_root named sel False rest of
                None \<Rightarrow> None
              | Some (gs, freed) \<Rightarrow>
                  Some (if freed = [] then - 1 else 0, con1\<lparr>c_root := before @ gs\<rparr>, concat (map destroy_exten freed))))"
  unfolding tris_context_remove_extension_callerid2_def assms(2-4) Let_def removal_named_def [abs_def] removal_selects_def [abs_def]
  by (simp only: wf_context_live [OF assms(1)] not_True_eq_False if_False)

lemma remove_absent:
  assumes wf: "wf_context con"
    and names: "\<forall>e \<in> set (extens con). removal_named extension callerid matchcallerid e \<longleftrightarrow> exten_id e = removal_key extension callerid matchcallerid"
    and absent: "\<forall>g \<in> set (c_root con). group_id g \<noteq> removal_key extension callerid matchcallerid"
  shows "tris_context_remove_extension_callerid2 con extension p callerid matchcallerid registrar = Some (- 1, con, [])"
    "\<forall>e \<in> set (extens con). exten_id e \<noteq> removal_key extension callerid matchcallerid"
proof -
  show none: "\<forall>e \<in> set (extens con). exten_id e \<noteq> removal_key extension callerid matchcallerid"
    using absent group_member_id [OF wf] by (metis extens_iff)
  have "map_of (c_root_table con) (removal_key extension callerid matchcallerid) = None"
    using wf absent by (auto simp: wf_context_def map_of_eq_None_iff)
  then have con1: "con = remove_from_tables con extension p callerid matchcallerid" by (simp add: remove_from_tables_key)
  have "\<not> removal_named extension callerid matchcallerid (hd (peers g))" if g: "g \<in> set (c_root con)" for g
  proof -
    have "wf_group g" using wf g by (simp add: wf_context_def)
    then have "hd (peers g) \<in> set (extens con)" using group_hd(1) g by (auto simp: extens_iff)
    then show ?thesis using names none by blast
  qed
  then show "tris_context_remove_extension_callerid2 con extension p callerid matchcallerid registrar = Some (- 1, con, [])"
    unfolding remove_unfold [OF wf con1 refl refl] by (simp add: Let_def dropWhile_eq_Nil_conv)
qed

text \<open>Otherwise the chain of that group loses what the call selects.\<close>

lemma remove_present:
  assumes wf: "wf_context con"
    and names: "\<forall>e \<in> set (extens con). removal_named extension callerid matchcallerid e \<longleftrightarrow> exten_id e = group_id g"
    and mine: "\<forall>e \<in> set (peers g). registrar_agrees registrar e"
    and split: "c_root con = before @ g # after" and key: "group_id g = removal_key extension callerid matchcallerid"
    and chain: "chain = filter (\<lambda>e. \<not> (p = 0 \<or> ex_priority e = p)) (peers g)"
  obtains con' g1 where "tris_context_remove_extension_callerid2 con extension p callerid matchcallerid registrar =
      (let gone = filter (\<lambda>e. p = 0 \<or> ex_priority e = p) (peers g)
       in Some (if gone = [] then - 1 else 0, con', concat (map destroy_exten gone)))"
    "wf_context con'" "c_root con' = before @ (if chain = [] then [] else [g1\<lparr>peers := chain\<rparr>]) @ after"
proof -
  define con1 where "con1 = remove_from_tables con extension p callerid matchcallerid"
  define named where "named = removal_named extension callerid matchcallerid"
  define sel where "sel = removal_selects p callerid matchcallerid registrar"
  obtain g1 rt where con1: "con1 = con\<lparr>c_root := before @ g1 # after, c_root_table := rt\<rparr>" and g1: "peers g1 = peers g"
    and wf': "wf_context (con\<lparr>c_root := before @ (if chain = [] then [] else [g1\<lparr>peers := chain\<rparr>]) @ after, c_root_table := rt\<rparr>)"
    using remove_group_ok [OF wf split key, of p, folded con1_def, unfolded Let_def] unfolding chain by blast
  have in_g: "g \<in> set (c_root con)" using split by simp
  have all: "\<forall>e \<in> set (peers g1). named e \<and> registrar_agrees registrar e"
    using names mine group_member_id [OF wf in_g] in_g by (auto simp: g1 named_def extens_iff)
  have others: "\<forall>h \<in> set before \<union> set after. peers h \<noteq> [] \<and> \<not> named (hd (peers h))"
  proof
    fix h assume "h \<in> set before \<union> set after"
    note h = other_groups [OF wf split this]
    have hd: "peers h \<noteq> []" "hd (peers h) \<in> set (peers h)"
      using h(1) wf wf_group_peers group_hd(1) unfolding wf_context_def by blast+
    then have "exten_id (hd (peers h)) \<noteq> group_id g" using group_member_id [OF wf h(1)] h(2) by simp
    then show "peers h \<noteq> [] \<and> \<not> named (hd (peers h))" using names member_extens [OF h(1)] hd by (auto simp: named_def)
  qed
  have c1: "c_root con1 = before @ g1 # after" by (simp add: con1)
  have ne1: "peers g1 \<noteq> []" using wf in_g wf_group_peers by (simp add: g1 wf_context_def)
  note walk = walk_from_group(1,2) [OF c1 others all ne1] walk_from_group(3) [OF c1 others all ne1, of sel]
  have sel: "sel e \<longleftrightarrow> p = 0 \<or> ex_priority e = p" if "e \<in> set (peers g)" for e
    using that all unfolding g1 sel_def named_def removal_selects_def removal_named_def cid_agrees_def by (auto split: option.splits)
  then have sels: "filter (\<lambda>e. \<not> sel e) (peers g) = chain" "filter sel (peers g) = filter (\<lambda>e. p = 0 \<or> ex_priority e = p) (peers g)"
    unfolding chain by (auto intro: filter_cong)
  let ?con = "con\<lparr>c_root := before @ (if chain = [] then [] else [g1\<lparr>peers := chain\<rparr>]) @ after, c_root_table := rt\<rparr>"
  have "con1\<lparr>c_root := before @ (if chain = [] then [] else [g1\<lparr>peers := chain\<rparr>]) @ after\<rparr> = ?con" by (simp add: con1)
  then have "tris_context_remove_extension_callerid2 con extension p callerid matchcallerid registrar =
      (let gone = filter (\<lambda>e. p = 0 \<or> ex_priority e = p) (peers g)
       in Some (if gone = [] then - 1 else 0, ?con, concat (map destroy_exten gone)))"
    unfolding remove_unfold [OF wf con1_def named_def sel_def] Let_def walk(1,2) walk(3) [unfolded Let_def g1 sels]
    by (simp only: list.distinct if_False option.case prod.case)
  then show thesis using wf' by (rule that) simp
qed

text \<open>Claim C4. Removing a priority, or all priorities, of an extension is exact when the names the call
  selects are those of one extension and caller number, and the registrar is that of its entries: the
  entries are gone from the map of what the context holds and nothing else is, the result tells
  whether there was one, each removed entry is freed once, and the context stays well-formed.\<close>

theorem remove_extension_exact:
  assumes wf: "wf_context con"
    and names: "\<forall>e \<in> set (extens con). (ex_name e = extension \<and> cid_agrees callerid matchcallerid e) =
        (exten_id e = removal_key extension callerid matchcallerid)"
    and mine: "\<forall>e \<in> set (extens con). exten_id e = removal_key extension callerid matchcallerid \<longrightarrow> registrar_agrees registrar e"
  shows "\<exists>con' gone. tris_context_remove_extension_callerid2 con extension p callerid matchcallerid registrar =
      Some (if gone = [] then - 1 else 0, con', concat (map destroy_exten gone)) \<and> wf_context con' \<and> distinct gone \<and>
    set gone = {e \<in> set (extens con). exten_id e = removal_key extension callerid matchcallerid \<and> (p = 0 \<or> ex_priority e = p)} \<and>
    dialplan_entry con' = (\<lambda>k q. if k = removal_key extension callerid matchcallerid \<and> (p = 0 \<or> q = p) then None
      else dialplan_entry con k q)"
proof -
  let ?k = "removal_key extension callerid matchcallerid" and ?p = "\<lambda>e. p = 0 \<or> ex_priority e = p"
  have named: "\<forall>e \<in> set (extens con). removal_named extension callerid matchcallerid e \<longleftrightarrow> exten_id e = ?k"
    using names by (simp add: removal_named_def)
  show ?thesis
  proof (cases "\<exists>g \<in> set (c_root con). group_id g = ?k")
    case False
    then have absent: "\<forall>g \<in> set (c_root con). group_id g \<noteq> ?k" by blast
    note remove = remove_absent [OF wf named absent]
    have "dialplan_entry con ?k q = None" for q using remove(2) dialplan_entry_iff [OF wf, of ?k q] by (metis not_Some_eq)
    then have "dialplan_entry con = (\<lambda>k q. if k = ?k \<and> (p = 0 \<or> q = p) then None else dialplan_entry con k q)"
      by (intro ext) simp
    then show ?thesis using wf remove by (intro exI [of _ con] exI [of _ "[]"] conjI) auto
  next
    case True
    then obtain before g after where split: "c_root con = before @ g # after" and key: "group_id g = ?k"
      by (metis split_list)
    have in_g: "g \<in> set (c_root con)" using split by simp
    have "\<forall>e \<in> set (peers g). registrar_agrees registrar e"
      using mine group_member_id [OF wf in_g] member_extens [OF in_g] key by metis
    then obtain con' g1 where res: "tris_context_remove_extension_callerid2 con extension p callerid matchcallerid registrar =
        (let gone = filter ?p (peers g) in Some (if gone = [] then - 1 else 0, con', concat (map destroy_exten gone)))"
      and wf': "wf_context con'"
      and root: "c_root con' = before @ (if filter (\<lambda>e. \<not> ?p e) (peers g) = [] then [] else [g1\<lparr>peers := filter (\<lambda>e. \<not> ?p e) (peers g)\<rparr>]) @ after"
      by (rule remove_present [OF wf named [folded key] _ split key refl])
    have "distinct (peers g)" using wf in_g sorted_wrt_chain_distinct unfolding wf_context_def wf_group_def by blast
    moreover have "set (filter ?p (peers g)) = {e \<in> set (extens con). exten_id e = ?k \<and> ?p e}"
      using group_entries [OF wf in_g, of ?p] key by simp
    moreover have "dialplan_entry con' = (\<lambda>k q. if k = ?k \<and> (p = 0 \<or> q = p) then None else dialplan_entry con k q)"
      using extens_taken_out [OF wf split refl root] unfolding key
      by (rule dialplan_entry_without [OF wf wf', of "\<lambda>k q. k = ?k \<and> (p = 0 \<or> q = p)"])
    ultimately show ?thesis using res wf'
      by (intro exI [of _ con'] exI [of _ "filter ?p (peers g)"]) (simp add: Let_def)
  qed
qed

theorem remove_extension_exact_witness:
  "\<exists>con' gone. tris_context_remove_extension_callerid2 sample_context ''100'' 1 None False None =
      Some (if gone = [] then - 1 else 0, con', concat (map destroy_exten gone)) \<and> wf_context con' \<and> distinct gone \<and>
    set gone = {sample_exten ''100'' 1 ''Dial''} \<and> dialplan_entry con' (''100'', None) 1 = None"
proof -
  have n: "\<forall>e \<in> set (extens sample_context). (ex_name e = ''100'' \<and> cid_agrees None False e) = (exten_id e = removal_key ''100'' None False)"
    by (simp add: extens_def sample_context_def sample_exten_def exten_id_def removal_key_def cid_agrees_def Let_def)
  have m: "\<forall>e \<in> set (extens sample_context). exten_id e = removal_key ''100'' None False \<longrightarrow> registrar_agrees None e"
    by (simp add: registrar_agrees_def)
  have k: "removal_key ''100'' None False = (''100'', None)" by (simp add: removal_key_def)
  have s: "{e \<in> set (extens sample_context). exten_id e = (''100'', None) \<and> ((1::int) = 0 \<or> ex_priority e = 1)} = {sample_exten ''100'' 1 ''Dial''}"
    by (auto simp: extens_def sample_context_def sample_exten_def exten_id_def Let_def)
  obtain con' gone where r: "tris_context_remove_extension_callerid2 sample_context ''100'' 1 None False None =
      Some (if gone = [] then - 1 else 0, con', concat (map destroy_exten gone))" "wf_context con'" "distinct gone"
      "set gone = {sample_exten ''100'' 1 ''Dial''}"
      "dialplan_entry con' = (\<lambda>k q. if k = (''100'', None) \<and> ((1::int) = 0 \<or> q = 1) then None else dialplan_entry sample_context k q)"
    using remove_extension_exact [OF sample_context_wf n m, of 1, unfolded k s] by blast
  have "dialplan_entry con' (''100'', None) 1 = None" using r(5) by simp
  then show ?thesis using r(1-4) by (intro exI [of _ con'] exI [of _ gone]) blast
qed

section \<open>Where the removal and the hash tables part\<close>

lemmas remove_defs = tris_context_remove_extension_callerid2_def remove_from_tables_def untable_group_def
  cid_agrees_def registrar_agrees_def tab_remove_this_def tab_remove_def destroy_exten_def PRIORITY_HINT_def

text \<open>The tables are changed before the registrar is looked at: a removal that is refused leaves the
  priority in the chain and out of the table, where no lookup finds it.\<close>

lemma remove_wrong_registrar:
  "\<exists>con'. tris_context_remove_extension_callerid2 sample_context ''100'' 1 None False (Some ''user'') = Some (- 1, con', []) \<and>
    extens con' = extens sample_context \<and> map_of (peer_table (hd (c_root con'))) 1 = None"
  by (simp add: remove_defs sample_context_def sample_exten_def exten_id_def extens_def tables_live_def group_live_def Let_def)

text \<open>Without a caller number the tables of the extension without caller number are changed, but the
  chain of the first extension of that name is: here that of an extension with a caller number, whose
  table keeps the freed priority.\<close>

definition two_callers :: tris_context where
  "two_callers =
     (let e = (sample_exten ''100'' 1 ''Dial'')\<lparr>ex_matchcid := True, ex_cidmatch := ''7''\<rparr>;
          e2 = (sample_exten ''100'' 2 ''Dial'')\<lparr>ex_matchcid := True, ex_cidmatch := ''7''\<rparr>;
          f = sample_exten ''100'' 3 ''Hangup''
      in sample_context\<lparr>c_root := [\<lparr>peers = [e, e2], peer_table = [(1, e), (2, e2)], peer_label_table = []\<rparr>,
             \<lparr>peers = [f], peer_table = [(3, f)], peer_label_table = []\<rparr>],
           c_root_table := [((''100'', Some ''7''), e), ((''100'', None), f)]\<rparr>)"

lemma two_callers_wf: "wf_context two_callers"
proof -
  have "key_less (order_key (''100'', Some ''7'')) (order_key (''100'', None))"
    by (simp add: key_less_def order_key_def)
  then show ?thesis
    by (simp add: two_callers_def sample_context_def wf_context_def wf_group_def sample_exten_def exten_id_def group_id_def
        tidy_exten_def tidy_def Let_def)
qed

lemma remove_leaves_freed:
  "\<exists>con' e. tris_context_remove_extension2 two_callers ''100'' 1 None = Some (0, con', [Free_exten e]) \<and> \<not> tables_live con'"
  by (simp add: tris_context_remove_extension2_def remove_defs two_callers_def sample_context_def sample_exten_def
      exten_id_def extens_def tables_live_def group_live_def Let_def)

text \<open>Two spellings of one pattern share a chain. While a pattern tree exists, a priority that is
  refused as already in use has by then been put into \<open>root_table\<close>, and is freed.\<close>

definition upper_context :: tris_context where
  "upper_context =
     (let e = sample_exten ''_X'' 1 ''Dial''
      in sample_context\<lparr>c_root := [\<lparr>peers = [e], peer_table = [(1, e)], peer_label_table = []\<rparr>],
           c_root_table := [((''_X'', None), e)]\<rparr>)"

lemma add_refused_leaves_freed:
  "\<exists>con' e. put_exten upper_context False ''_x'' (sample_exten ''_x'' 1 ''Dial'') = Some (0, con', [Free_exten e]) \<and> \<not> tables_live con'"
proof -
  have x: "toupper CHR ''x'' = CHR ''X''" "toupper CHR ''X'' = CHR ''X''" by code_simp+
  have "ext_cmp ''_X'' ''_x'' = Some 0"
    by (simp add: x ext_cmp_def ext_cmp_loop.simps ext_cmp1_def lex_cmp_eq Let_def del: lex_cmp.simps)
  then show ?thesis
    by (simp add: put_exten_def upper_context_def sample_context_def sample_exten_def exten_id_def exten_cmp_def
        add_pri_def tab_insert_def tables_live_def extens_def Let_def)
qed

end
