(* ===== verification/PbxFind.thy ===== *)
theory PbxFind
  imports PbxRemove
begin

text \<open>
  Finding an extension in the dialplan of \<open>main/pbx.c\<close>: \<open>pbx_find_extension\<close> with the default matching
  algorithm (\<open>extenpatternmatchnew\<close> is 0), and \<open>pbx_extension_helper\<close>.

  The recursion through the includes is bounded by fuel; the stack of \<open>struct pbx_find_info\<close> bounds it
  in the code, and \<open>TRIS_PBX_MAX_STACK + 1\<close> is enough. The functions of a switch, the substitution of
  variables and the local time are parameters. \<open>None\<close> is the lookup in a table that holds a freed
  extension.
\<close>

section \<open>The search\<close>

definition TRIS_PBX_MAX_STACK :: nat where "TRIS_PBX_MAX_STACK = 128"

datatype find_action = F_MATCHMORE | F_CANMATCH | F_MATCH | F_SPAWN | F_FINDLABEL

text \<open>\<open>mode & E_MATCH_MASK\<close>.\<close>

fun match_mode :: "find_action \<Rightarrow> ext_match" where
  "match_mode F_MATCHMORE = E_MATCHMORE"
| "match_mode F_CANMATCH = E_CANMATCH"
| "match_mode _ = E_MATCH"

datatype find_status = STATUS_UNSET | STATUS_NO_CONTEXT | STATUS_NO_EXTENSION | STATUS_NO_PRIORITY | STATUS_NO_LABEL | STATUS_SUCCESS

fun status_rank :: "find_status \<Rightarrow> nat" where
  "status_rank STATUS_UNSET = 0"
| "status_rank STATUS_NO_CONTEXT = 1"
| "status_rank STATUS_NO_EXTENSION = 2"
| "status_rank STATUS_NO_PRIORITY = 3"
| "status_rank STATUS_NO_LABEL = 4"
| "status_rank STATUS_SUCCESS = 5"

text \<open>A function of a switch: context, extension, priority, caller number and data.\<close>

type_synonym switch_f = "string \<Rightarrow> string \<Rightarrow> int \<Rightarrow> string option \<Rightarrow> string option \<Rightarrow> int"

record tris_switch =
  ts_name :: string
  ts_exists :: "switch_f option"
  ts_canmatch :: "switch_f option"
  ts_matchmore :: "switch_f option"
  ts_exec :: "switch_f option"

record find_env =
  contexts_table :: "tris_context list"
  switches :: "tris_switch list"
  overrideswitch :: "string option"
  substitute :: "string \<Rightarrow> string"
  local_time :: "string option \<Rightarrow> tris_tm"

record find_args =
  a_exten :: string
  a_priority :: int
  a_label :: "string option"
  a_callerid :: "string option"
  a_action :: find_action

record pbx_find_info =
  incstack :: "string list"
  q_status :: find_status
  q_swo :: "tris_switch option"
  q_data :: "string option"
  q_foundcontext :: "string option"

definition raise_status :: "find_status \<Rightarrow> pbx_find_info \<Rightarrow> pbx_find_info" where
  "raise_status s q = (if status_rank (q_status q) < status_rank s then q\<lparr>q_status := s\<rparr> else q)"

text \<open>The lookup by name: \<open>struct fake_context\<close> has room for 255 characters.\<close>

definition find_context :: "find_env \<Rightarrow> string \<Rightarrow> tris_context option" where
  "find_context env name = find (\<lambda>c. c_name c = take 255 name) (contexts_table env)"

definition include_valid :: "find_env \<Rightarrow> tris_include \<Rightarrow> bool" where
  "include_valid env i \<longleftrightarrow> (case i_timing i of None \<Rightarrow> True | Some t \<Rightarrow> tris_check_timing t (local_time env (timezone t)) \<noteq> 0)"

definition pbx_findswitch :: "find_env \<Rightarrow> string \<Rightarrow> tris_switch option" where
  "pbx_findswitch env name = find (\<lambda>s. strcaseeq (ts_name s) name) (switches env)"

definition switch_matches :: "find_args \<Rightarrow> string \<Rightarrow> tris_switch \<Rightarrow> string option \<Rightarrow> bool" where
  "switch_matches a context sw data =
     (case (case a_action a of F_CANMATCH \<Rightarrow> ts_canmatch sw | F_MATCHMORE \<Rightarrow> ts_matchmore sw | _ \<Rightarrow> ts_exists sw) of
        None \<Rightarrow> False
      | Some f \<Rightarrow> f context (a_exten a) (a_priority a) (a_callerid a) data \<noteq> 0)"

text \<open>The switch that overrides the dialplan, and the alternative switches of a context: the one that
  matches, with its data.\<close>

definition override_matches :: "find_env \<Rightarrow> find_args \<Rightarrow> string \<Rightarrow> (tris_switch \<times> string option) option" where
  "override_matches env a context =
     (case overrideswitch env of
        None \<Rightarrow> None
      | Some s \<Rightarrow>
          if s = [] then None
          else
            (let (name, osw) = (case cut_at CHR ''/'' s of None \<Rightarrow> (s, None) | Some (x, y) \<Rightarrow> (x, Some y));
                 data = (case osw of None \<Rightarrow> None
                         | Some d \<Rightarrow> Some (if CHR ''$'' \<in> set d then substitute env d else d))
             in case pbx_findswitch env name of
                  None \<Rightarrow> None
                | Some sw \<Rightarrow> if switch_matches a context sw data then Some (sw, data) else None))"

fun alts_match :: "find_env \<Rightarrow> find_args \<Rightarrow> string \<Rightarrow> tris_sw list \<Rightarrow> (tris_switch \<times> string option) option" where
  "alts_match env a context [] = None"
| "alts_match env a context (sw # sws) =
     (case pbx_findswitch env (sw_name sw) of
        None \<Rightarrow> alts_match env a context sws
      | Some asw \<Rightarrow>
          (let data = Some (if sw_eval sw then substitute env (sw_data sw) else sw_data sw)
           in if switch_matches a context asw data then Some (asw, data) else alts_match env a context sws))"

text \<open>\<open>extension_match_core\<close> and the caller number, for the head of a group: 0 for no match.\<close>

definition group_match :: "find_args \<Rightarrow> exten_group \<Rightarrow> int" where
  "group_match a g =
     (let e = hd (peers g); m = extension_match_core (ex_name e) (a_exten a) (match_mode (a_action a));
          cid = (case a_callerid a of None \<Rightarrow> [] | Some c \<Rightarrow> c)
      in if m = 0 \<or> ex_matchcid e \<and> matchcid (ex_cidmatch e) cid = 0 then 0 else m)"

text \<open>The lookup in the tables of a group.\<close>

definition peer_found :: "find_args \<Rightarrow> exten_group \<Rightarrow> exten option" where
  "peer_found a g =
     (case a_label a of
        Some l \<Rightarrow> if a_action a = F_FINDLABEL then map_of (peer_label_table g) l else map_of (peer_table g) (a_priority a)
      | None \<Rightarrow> map_of (peer_table g) (a_priority a))"

datatype scan_result = Scan_none | Scan_final | Scan_found exten

fun scan_extensions :: "find_args \<Rightarrow> string \<Rightarrow> exten_group list \<Rightarrow> pbx_find_info \<Rightarrow> scan_result \<times> pbx_find_info" where
  "scan_extensions a context [] q = (Scan_none, q)"
| "scan_extensions a context (g # gs) q =
     (if group_match a g = 0 then scan_extensions a context gs q
      else if group_match a g = 2 \<and> a_action a = F_MATCHMORE then (Scan_final, q)
      else
        (let q1 = raise_status STATUS_NO_PRIORITY q;
             q2 = (if a_action a = F_FINDLABEL \<and> a_label a \<noteq> None then raise_status STATUS_NO_LABEL q1 else q1)
         in case peer_found a g of
              Some e \<Rightarrow> (Scan_found e, q2\<lparr>q_status := STATUS_SUCCESS, q_foundcontext := Some context\<rparr>)
            | None \<Rightarrow> scan_extensions a context gs q2))"

text \<open>\<open>pbx_find_extension\<close>, and its loop over the includes. \<open>bypass\<close> is the only context that is looked
  at when it is given.\<close>

definition with_switch :: "tris_switch \<times> string option \<Rightarrow> string \<Rightarrow> pbx_find_info \<Rightarrow> pbx_find_info" where
  "with_switch m context q = q\<lparr>q_swo := Some (fst m), q_data := snd m, q_foundcontext := Some context\<rparr>"

definition start_search :: "pbx_find_info \<Rightarrow> pbx_find_info" where
  "start_search q =
     (if incstack q = [] then q\<lparr>q_status := STATUS_NO_CONTEXT, q_swo := None, q_data := None, q_foundcontext := None\<rparr> else q)"

function pbx_find_extension :: "nat \<Rightarrow> find_env \<Rightarrow> tris_context option \<Rightarrow> find_args \<Rightarrow> pbx_find_info \<Rightarrow> string \<Rightarrow>
    (exten option \<times> pbx_find_info) option"
  and find_in_includes :: "nat \<Rightarrow> find_env \<Rightarrow> tris_context option \<Rightarrow> find_args \<Rightarrow> pbx_find_info \<Rightarrow> tris_include list \<Rightarrow>
    (exten option \<times> pbx_find_info) option" where
  "pbx_find_extension 0 env bypass a q context = None"
| "pbx_find_extension (Suc n) env bypass a q context =
     (let q = start_search q
      in if TRIS_PBX_MAX_STACK \<le> length (incstack q) then Some (None, q)
         else if list_ex (\<lambda>s. strcaseeq s context) (incstack q) then Some (None, q)
         else
           (case (case bypass of Some c \<Rightarrow> Some c | None \<Rightarrow> find_context env context) of
              None \<Rightarrow> Some (None, q)
            | Some con \<Rightarrow>
                if \<not> tables_live con then None
                else
                  (let q = raise_status STATUS_NO_EXTENSION q
                   in case override_matches env a context of
                        Some m \<Rightarrow> Some (None, with_switch m context q)
                      | None \<Rightarrow>
                          (case scan_extensions a context (c_root con) q of
                             (Scan_found e, q) \<Rightarrow> Some (Some e, q)
                           | (Scan_final, q) \<Rightarrow> Some (None, q)
                           | (Scan_none, q) \<Rightarrow>
                               (case alts_match env a context (c_alts con) of
                                  Some m \<Rightarrow> Some (None, with_switch m context q)
                                | None \<Rightarrow> find_in_includes n env bypass a (q\<lparr>incstack := incstack q @ [c_name con]\<rparr>) (c_includes con))))))"
| "find_in_includes n env bypass a q [] = Some (None, q)"
| "find_in_includes n env bypass a q (i # is) =
     (if \<not> include_valid env i then find_in_includes n env bypass a q is
      else
        (case pbx_find_extension n env bypass a q (i_rname i) of
           None \<Rightarrow> None
         | Some (Some e, q) \<Rightarrow> Some (Some e, q)
         | Some (None, q) \<Rightarrow> if q_swo q \<noteq> None then Some (None, q) else find_in_includes n env bypass a q is))"
  by pat_completeness auto
termination
  by (relation "measures [\<lambda>x. case x of Inl (n, _) \<Rightarrow> 2 * n | Inr (n, _) \<Rightarrow> 2 * n + 1,
      \<lambda>x. case x of Inl _ \<Rightarrow> 0 | Inr (n, env, bypass, a, q, is) \<Rightarrow> length is]") auto

definition empty_find :: pbx_find_info where
  "empty_find = \<lparr>incstack = [], q_status = STATUS_UNSET, q_swo = None, q_data = None, q_foundcontext = None\<rparr>"

definition find_extension :: "find_env \<Rightarrow> tris_context option \<Rightarrow> find_args \<Rightarrow> string \<Rightarrow> (exten option \<times> pbx_find_info) option" where
  "find_extension env bypass a context = pbx_find_extension (TRIS_PBX_MAX_STACK + 1) env bypass a empty_find context"

text \<open>\<open>pbx_extension_helper\<close>: what it returns, or the application or switch it goes on with. A switch
  without \<open>exec\<close> is called all the same.\<close>

datatype helper_result =
    Returns int
  | Launch exten
  | Exec_switch switch_f string "string option"
  | Null_call

definition pbx_extension_helper :: "find_env \<Rightarrow> tris_context option \<Rightarrow> find_args \<Rightarrow> string \<Rightarrow> (helper_result \<times> bool) option" where
  "pbx_extension_helper env con a context =
     (let matching = (a_action a \<in> {F_MATCH, F_CANMATCH, F_MATCHMORE})
      in case find_extension env con a context of
           None \<Rightarrow> None
         | Some (Some e, q) \<Rightarrow>
             Some (if matching then Returns (- 1)
                   else if a_action a = F_FINDLABEL then Returns (ex_priority e) else Launch e, True)
         | Some (None, q) \<Rightarrow>
             (case q_swo q of
                Some sw \<Rightarrow>
                  Some (if matching then Returns (- 1)
                        else (case ts_exec sw of None \<Rightarrow> Null_call
                              | Some f \<Rightarrow> Exec_switch f (case q_foundcontext q of None \<Rightarrow> context | Some c \<Rightarrow> c) (q_data q)), True)
              | None \<Rightarrow> Some (Returns (if matching then 0 else - 1), False)))"

definition tris_exists_extension :: "find_env \<Rightarrow> string \<Rightarrow> string \<Rightarrow> int \<Rightarrow> string option \<Rightarrow> (helper_result \<times> bool) option" where
  "tris_exists_extension env context exten priority callerid = pbx_extension_helper env None
     \<lparr>a_exten = exten, a_priority = priority, a_label = None, a_callerid = callerid, a_action = F_MATCH\<rparr> context"

definition tris_canmatch_extension :: "find_env \<Rightarrow> string \<Rightarrow> string \<Rightarrow> int \<Rightarrow> string option \<Rightarrow> (helper_result \<times> bool) option" where
  "tris_canmatch_extension env context exten priority callerid = pbx_extension_helper env None
     \<lparr>a_exten = exten, a_priority = priority, a_label = None, a_callerid = callerid, a_action = F_CANMATCH\<rparr> context"

definition tris_matchmore_extension :: "find_env \<Rightarrow> string \<Rightarrow> string \<Rightarrow> int \<Rightarrow> string option \<Rightarrow> (helper_result \<times> bool) option" where
  "tris_matchmore_extension env context exten priority callerid = pbx_extension_helper env None
     \<lparr>a_exten = exten, a_priority = priority, a_label = None, a_callerid = callerid, a_action = F_MATCHMORE\<rparr> context"

definition tris_spawn_extension :: "find_env \<Rightarrow> string \<Rightarrow> string \<Rightarrow> int \<Rightarrow> string option \<Rightarrow> (helper_result \<times> bool) option" where
  "tris_spawn_extension env context exten priority callerid = pbx_extension_helper env None
     \<lparr>a_exten = exten, a_priority = priority, a_label = None, a_callerid = callerid, a_action = F_SPAWN\<rparr> context"

definition tris_findlabel_extension :: "find_env \<Rightarrow> string \<Rightarrow> string \<Rightarrow> string option \<Rightarrow> string option \<Rightarrow> (helper_result \<times> bool) option" where
  "tris_findlabel_extension env context exten label callerid = pbx_extension_helper env None
     \<lparr>a_exten = exten, a_priority = 0, a_label = label, a_callerid = callerid, a_action = F_FINDLABEL\<rparr> context"

section \<open>One context\<close>

text \<open>What the search does in one context: an answer, or the state with which it goes on to the
  includes.\<close>

definition look_in :: "find_env \<Rightarrow> find_args \<Rightarrow> string \<Rightarrow> tris_context \<Rightarrow> pbx_find_info \<Rightarrow> (exten option \<times> pbx_find_info) + pbx_find_info" where
  "look_in env a context con q =
     (let q = raise_status STATUS_NO_EXTENSION q
      in case override_matches env a context of
           Some m \<Rightarrow> Inl (None, with_switch m context q)
         | None \<Rightarrow>
             (case scan_extensions a context (c_root con) q of
                (Scan_found e, q) \<Rightarrow> Inl (Some e, q)
              | (Scan_final, q) \<Rightarrow> Inl (None, q)
              | (Scan_none, q) \<Rightarrow>
                  (case alts_match env a context (c_alts con) of
                     Some m \<Rightarrow> Inl (None, with_switch m context q)
                   | None \<Rightarrow> Inr (q\<lparr>incstack := incstack q @ [c_name con]\<rparr>))))"

definition the_context :: "find_env \<Rightarrow> tris_context option \<Rightarrow> string \<Rightarrow> tris_context option" where
  "the_context env bypass context = (case bypass of Some c \<Rightarrow> Some c | None \<Rightarrow> find_context env context)"

lemma find_step:
  "pbx_find_extension (Suc n) env bypass a q context =
     (let q = start_search q
      in if TRIS_PBX_MAX_STACK \<le> length (incstack q) then Some (None, q)
         else if list_ex (\<lambda>s. strcaseeq s context) (incstack q) then Some (None, q)
         else
           (case the_context env bypass context of
              None \<Rightarrow> Some (None, q)
            | Some con \<Rightarrow>
                if \<not> tables_live con then None
                else (case look_in env a context con q of
                        Inl r \<Rightarrow> Some r
                      | Inr q \<Rightarrow> find_in_includes n env bypass a q (c_includes con))))"
  by (auto simp: look_in_def the_context_def Let_def split: option.splits prod.splits scan_result.splits)

declare pbx_find_extension.simps(2) [simp del]

text \<open>The first group that matches and has the entry, unless an early match comes before it.\<close>

definition answers :: "find_args \<Rightarrow> exten_group \<Rightarrow> exten \<Rightarrow> bool" where
  "answers a g e \<longleftrightarrow> group_match a g \<noteq> 0 \<and> peer_found a g = Some e"

definition early_match :: "find_args \<Rightarrow> exten_group \<Rightarrow> bool" where
  "early_match a g \<longleftrightarrow> group_match a g = 2 \<and> a_action a = F_MATCHMORE"

lemma raise_status_fields [simp]: "incstack (raise_status s q) = incstack q" "q_swo (raise_status s q) = q_swo q"
  by (simp_all add: raise_status_def)

lemma start_search_fields [simp]: "incstack (start_search q) = incstack q" "q_swo q = None \<Longrightarrow> q_swo (start_search q) = None"
  by (simp_all add: start_search_def)

lemma scan_extensions_rest:
  "scan_extensions a context gs q = (r, q') \<Longrightarrow> incstack q' = incstack q \<and> q_swo q' = q_swo q"
  by (induction gs arbitrary: q) (auto simp: Let_def split: if_splits option.splits)

lemma scan_extensions_result:
  "scan_extensions a context gs q = (r, q') \<Longrightarrow>
    (case r of
       Scan_none \<Rightarrow> \<forall>g \<in> set gs. \<not> early_match a g \<and> (\<forall>e. \<not> answers a g e)
     | Scan_final \<Rightarrow> \<exists>before g after. gs = before @ g # after \<and> early_match a g \<and> (\<forall>h \<in> set before. \<forall>e. \<not> answers a h e)
     | Scan_found e \<Rightarrow> q_status q' = STATUS_SUCCESS \<and> q_foundcontext q' = Some context \<and>
         (\<exists>before g after. gs = before @ g # after \<and> answers a g e \<and>
           (\<forall>h \<in> set before. \<not> early_match a h \<and> (\<forall>e. \<not> answers a h e))))"
proof (induction gs arbitrary: q)
  case (Cons g gs)
  show ?case
  proof (cases "group_match a g = 0 \<or> \<not> early_match a g \<and> peer_found a g = None")
    case True
    then have skip: "\<not> early_match a g" "\<not> answers a g e" for e by (auto simp: early_match_def answers_def)
    have "\<exists>p. scan_extensions a context gs p = (r, q')"
      using Cons.prems True by (auto simp: early_match_def Let_def split: if_splits)
    then obtain p where p: "scan_extensions a context gs p = (r, q')" by blast
    note IH = Cons.IH [OF p]
    show ?thesis
    proof (cases r)
      case Scan_none then show ?thesis using IH skip by simp
    next
      case Scan_final
      then obtain before h after where "gs = before @ h # after" "early_match a h" "\<forall>h \<in> set before. \<forall>e. \<not> answers a h e"
        using IH by auto
      then show ?thesis using Scan_final skip by (auto intro!: exI [of _ "g # before"])
    next
      case (Scan_found e)
      then obtain before h after where "gs = before @ h # after" "answers a h e"
          "\<forall>h \<in> set before. \<not> early_match a h \<and> (\<forall>e. \<not> answers a h e)" "q_status q' = STATUS_SUCCESS" "q_foundcontext q' = Some context"
        using IH by auto
      then show ?thesis using Scan_found skip by (auto intro!: exI [of _ "g # before"])
    qed
  next
    case False
    show ?thesis
    proof (cases "early_match a g")
      case True
      then have "r = Scan_final" using Cons.prems by (auto simp: early_match_def)
      then show ?thesis using True by (auto intro!: exI [of _ "[]"])
    next
      case not_early: False
      then obtain e where e: "peer_found a g = Some e" "group_match a g \<noteq> 0" using False by auto
      then have "r = Scan_found e" "q_status q' = STATUS_SUCCESS" "q_foundcontext q' = Some context"
        using Cons.prems not_early by (auto simp: early_match_def Let_def)
      then show ?thesis using e by (auto simp: answers_def intro!: exI [of _ "[]"])
    qed
  qed
qed simp

lemma look_in_cases:
  obtains (switch) m where "override_matches env a context = Some m \<or> alts_match env a context (c_alts con) = Some m"
      "\<exists>p. look_in env a context con q = Inl (None, with_switch m context p) \<and> incstack p = incstack q"
  | (found) e q' where "look_in env a context con q = Inl (Some e, q')" "incstack q' = incstack q" "q_swo q' = q_swo q"
      "\<exists>p. scan_extensions a context (c_root con) p = (Scan_found e, q')"
  | (final) q' where "look_in env a context con q = Inl (None, q')" "incstack q' = incstack q" "q_swo q' = q_swo q"
      "\<exists>p. scan_extensions a context (c_root con) p = (Scan_final, q')"
  | (none) q' where "look_in env a context con q = Inr q'" "incstack q' = incstack q @ [c_name con]" "q_swo q' = q_swo q"
      "\<exists>p r. scan_extensions a context (c_root con) p = (Scan_none, r)"
proof (cases "override_matches env a context")
  case (Some m)
  then show ?thesis by (intro switch [of m]) (auto simp: look_in_def Let_def)
next
  case None
  obtain r q' where s: "scan_extensions a context (c_root con) (raise_status STATUS_NO_EXTENSION q) = (r, q')" by fastforce
  have f: "incstack q' = incstack q" "q_swo q' = q_swo q" using scan_extensions_rest [OF s] by simp_all
  show ?thesis
  proof (cases r)
    case Scan_none
    show ?thesis
    proof (cases "alts_match env a context (c_alts con)")
      case (Some m)
      then show ?thesis using None s Scan_none f by (intro switch [of m]) (auto simp: look_in_def Let_def)
    next
      case no_alt: None
      show ?thesis
        by (rule none [of "q'\<lparr>incstack := incstack q' @ [c_name con]\<rparr>"])
          (use None no_alt s Scan_none f in \<open>auto simp: look_in_def Let_def\<close>)
    qed
  next
    case Scan_final
    show ?thesis by (rule final [of q']) (use None s Scan_final f in \<open>auto simp: look_in_def Let_def\<close>)
  next
    case (Scan_found e)
    show ?thesis by (rule found [of e q']) (use None s Scan_found f in \<open>auto simp: look_in_def Let_def\<close>)
  qed
qed

section \<open>The search ends\<close>

definition env_live :: "find_env \<Rightarrow> tris_context option \<Rightarrow> bool" where
  "env_live env bypass \<longleftrightarrow> (\<forall>c \<in> set (contexts_table env). tables_live c) \<and> (\<forall>c. bypass = Some c \<longrightarrow> tables_live c)"

lemma the_context_live: "env_live env bypass \<Longrightarrow> the_context env bypass ctx = Some con \<Longrightarrow> tables_live con"
  by (auto simp: env_live_def the_context_def find_context_def find_Some_iff split: option.splits)

lemma look_in_stack:
  "look_in env a ctx con q = Inl (r, q') \<Longrightarrow> incstack q' = incstack q"
  "look_in env a ctx con q = Inr q' \<Longrightarrow> incstack q' = incstack q @ [c_name con]"
  by (cases rule: look_in_cases [of env a ctx con q]; force simp: with_switch_def)+

lemma find_total:
  "env_live env bypass \<Longrightarrow> length (incstack q) \<le> TRIS_PBX_MAX_STACK \<Longrightarrow> TRIS_PBX_MAX_STACK < n + length (incstack q) \<Longrightarrow>
    \<exists>r q'. pbx_find_extension n env bypass a q ctx = Some (r, q') \<and> length (incstack q') \<le> TRIS_PBX_MAX_STACK \<and>
      length (incstack q) \<le> length (incstack q')"
  "env_live env bypass \<Longrightarrow> length (incstack q) \<le> TRIS_PBX_MAX_STACK \<Longrightarrow> TRIS_PBX_MAX_STACK < n + length (incstack q) \<Longrightarrow>
    \<exists>r q'. find_in_includes n env bypass a q is = Some (r, q') \<and> length (incstack q') \<le> TRIS_PBX_MAX_STACK \<and>
      length (incstack q) \<le> length (incstack q')"
proof (induction n arbitrary: q ctx "is")
  case 0
  { case 1 then show ?case by simp
  next
    case 2
    then show ?case by simp }
next
  case (Suc n)
  have step: "\<exists>r q'. pbx_find_extension (Suc n) env bypass a q ctx = Some (r, q') \<and>
      length (incstack q') \<le> TRIS_PBX_MAX_STACK \<and> length (incstack q) \<le> length (incstack q')"
    if live: "env_live env bypass" and q: "length (incstack q) \<le> TRIS_PBX_MAX_STACK" "TRIS_PBX_MAX_STACK < Suc n + length (incstack q)"
    for q ctx
  proof (cases "TRIS_PBX_MAX_STACK \<le> length (incstack q) \<or> list_ex (\<lambda>s. strcaseeq s ctx) (incstack q) \<or> the_context env bypass ctx = None")
    case True
    then show ?thesis using q by (auto simp: find_step Let_def)
  next
    case False
    then obtain con where con: "the_context env bypass ctx = Some con" "tables_live con" using the_context_live [OF live] by auto
    show ?thesis
    proof (cases "look_in env a ctx con (start_search q)")
      case (Inl r)
      then show ?thesis using False con q look_in_stack(1) [of env a ctx con "start_search q" "fst r" "snd r"]
        by (cases r) (auto simp: find_step Let_def)
    next
      case (Inr q')
      then have "incstack q' = incstack q @ [c_name con]" using look_in_stack(2) by fastforce
      then show ?thesis using False con q Inr Suc.IH(2) [OF live, of q' "c_includes con"] by (auto simp: find_step Let_def)
    qed
  qed
  { case 1
    then show ?case by (rule step)
  next
    case 2
    then show ?case
    proof (induction "is" arbitrary: q)
      case (Cons i "is")
      show ?case
      proof (cases "include_valid env i")
        case True
        obtain r q' where r: "pbx_find_extension (Suc n) env bypass a q (i_rname i) = Some (r, q')"
          "length (incstack q') \<le> TRIS_PBX_MAX_STACK" "length (incstack q) \<le> length (incstack q')"
          using step [OF Cons.prems] by blast
        then show ?thesis using True Cons.IH [of q'] Cons.prems by (cases r) auto
      next
        case False
        then show ?thesis using Cons by simp
      qed
    qed simp }
qed

text \<open>More fuel changes nothing.\<close>

lemma find_more:
  "pbx_find_extension n env bypass a q ctx = Some r \<Longrightarrow> n \<le> m \<Longrightarrow> pbx_find_extension m env bypass a q ctx = Some r"
  "find_in_includes n env bypass a q is = Some r \<Longrightarrow> n \<le> m \<Longrightarrow> find_in_includes m env bypass a q is = Some r"
proof (induction n arbitrary: q ctx "is" m r)
  case 0
  { case 1 then show ?case by simp
  next
    case 2
    then show ?case
      by (induction "is" arbitrary: q) (auto split: if_splits) }
next
  case (Suc n)
  have step: "pbx_find_extension m env bypass a q ctx = Some r"
    if run: "pbx_find_extension (Suc n) env bypass a q ctx = Some r" and m: "Suc n \<le> m" for q ctx m r
  proof -
    obtain k where k: "m = Suc k" "n \<le> k" using m by (cases m) auto
    show ?thesis using run Suc.IH(2) [OF _ k(2)] unfolding k(1) find_step
      by (cases r) (auto simp: Let_def split: if_splits option.splits sum.splits)
  qed
  { case 1
    then show ?case by (rule step)
  next
    case 2
    then show ?case
    proof (induction "is" arbitrary: q)
      case (Cons i "is")
      show ?case
      proof (cases "include_valid env i")
        case True
        then obtain x p where x: "pbx_find_extension (Suc n) env bypass a q (i_rname i) = Some (x, p)"
          using Cons.prems(1) by (auto split: option.splits)
        then show ?thesis using step [OF x Cons.prems(2)] Cons True by (cases x) (auto split: if_splits)
      qed (use Cons in simp)
    qed simp }
qed

text \<open>Claim C3. The search always returns, whatever contexts include each other: on a dialplan whose
  tables hold no freed extension, from an empty stack, with or without a context that bypasses the
  table. The stack of 128 names is never overrun, and the fuel that the model uses is enough.\<close>

theorem find_extension_returns:
  assumes "env_live env bypass" "TRIS_PBX_MAX_STACK < n"
  shows "\<exists>r q. find_extension env bypass a ctx = Some (r, q) \<and> length (incstack q) \<le> TRIS_PBX_MAX_STACK \<and>
    pbx_find_extension n env bypass a empty_find ctx = Some (r, q)"
proof -
  obtain r q where r: "pbx_find_extension (TRIS_PBX_MAX_STACK + 1) env bypass a empty_find ctx = Some (r, q)"
    "length (incstack q) \<le> TRIS_PBX_MAX_STACK"
    using find_total(1) [OF assms(1), of empty_find "TRIS_PBX_MAX_STACK + 1" a ctx] by (auto simp: empty_find_def)
  then show ?thesis using find_more(1) [OF r(1), of n] assms(2) by (simp add: find_extension_def)
qed

section \<open>The search is complete\<close>

text \<open>Including: one context after another, by includes that are valid now.\<close>

definition includes_now :: "find_env \<Rightarrow> string \<Rightarrow> string \<Rightarrow> bool" where
  "includes_now env c d \<longleftrightarrow>
     (\<exists>con i. find_context env c = Some con \<and> i \<in> set (c_includes con) \<and> include_valid env i \<and> d = i_rname i)"

inductive reaches :: "find_env \<Rightarrow> string \<Rightarrow> string \<Rightarrow> bool" for env where
  here: "reaches env c c"
| by_include: "includes_now env c d \<Longrightarrow> reaches env d x \<Longrightarrow> reaches env c x"

text \<open>Names that the search can tell apart: it compares a name with those on the stack without regard
  to case, but looks contexts up with regard to case.\<close>

definition names_ok :: "find_env \<Rightarrow> bool" where
  "names_ok env \<longleftrightarrow>
     (\<forall>c \<in> set (contexts_table env). length (c_name c) \<le> 255 \<and> (\<forall>i \<in> set (c_includes c). length (i_rname i) \<le> 255)) \<and>
     (\<forall>c \<in> set (contexts_table env). \<forall>d \<in> set (contexts_table env). strcaseeq (c_name c) (c_name d) \<longrightarrow> c = d)"

definition holds_answer :: "find_env \<Rightarrow> find_args \<Rightarrow> string \<Rightarrow> exten \<Rightarrow> bool" where
  "holds_answer env a x e \<longleftrightarrow> (\<exists>con g. find_context env x = Some con \<and> g \<in> set (c_root con) \<and> answers a g e)"

lemma the_context_table [simp]: "the_context env None c = find_context env c"
  by (simp add: the_context_def)

lemma find_context_name:
  "find_context env c = Some con \<Longrightarrow> con \<in> set (contexts_table env) \<and> c_name con = take 255 c"
  by (auto simp: find_context_def find_Some_iff)

definition known :: "find_env \<Rightarrow> pbx_find_info \<Rightarrow> string \<Rightarrow> bool" where
  "known env q y \<longleftrightarrow> find_context env y = None \<or> (\<exists>s \<in> set (incstack q). strcaseeq s y)"

definition stack_ok :: "find_env \<Rightarrow> pbx_find_info \<Rightarrow> bool" where
  "stack_ok env q \<longleftrightarrow> distinct (incstack q) \<and> set (incstack q) \<subseteq> c_name ` set (contexts_table env)"

lemma stack_ok_length: "stack_ok env q \<Longrightarrow> length (incstack q) \<le> length (contexts_table env)"
  unfolding stack_ok_def
  by (metis card_image_le card_length card_mono distinct_card finite_imageI finite_set le_trans)

text \<open>What a search without result has done: it has put names on the stack, found nothing in their
  contexts, and knows all that they include.\<close>

definition searched :: "find_env \<Rightarrow> find_args \<Rightarrow> pbx_find_info \<Rightarrow> pbx_find_info \<Rightarrow> bool" where
  "searched env a q q' \<longleftrightarrow>
     stack_ok env q' \<and>
     (\<exists>new. incstack q' = incstack q @ new \<and>
       (\<forall>x \<in> set new. (\<forall>e. \<not> holds_answer env a x e) \<and> (\<forall>y. includes_now env x y \<longrightarrow> known env q' y)))"

lemma known_more: "searched env a q q' \<Longrightarrow> known env q y \<Longrightarrow> known env q' y"
  by (auto simp: searched_def known_def)

lemma searched_refl: "stack_ok env q \<Longrightarrow> incstack q' = incstack q \<Longrightarrow> searched env a q q'"
  by (auto simp: searched_def stack_ok_def)

lemma searched_trans:
  assumes "searched env a q q1" "searched env a q1 q2"
  shows "searched env a q q2"
proof -
  obtain n1 n2 where n: "incstack q1 = incstack q @ n1" "incstack q2 = incstack q1 @ n2"
    "\<forall>x \<in> set n1. (\<forall>e. \<not> holds_answer env a x e) \<and> (\<forall>y. includes_now env x y \<longrightarrow> known env q1 y)"
    "\<forall>x \<in> set n2. (\<forall>e. \<not> holds_answer env a x e) \<and> (\<forall>y. includes_now env x y \<longrightarrow> known env q2 y)"
    using assms by (auto simp: searched_def)
  then have "\<forall>x \<in> set (n1 @ n2). (\<forall>e. \<not> holds_answer env a x e) \<and> (\<forall>y. includes_now env x y \<longrightarrow> known env q2 y)"
    using known_more [OF assms(2)] by auto
  then show ?thesis using assms(2) n(1,2) by (auto simp: searched_def)
qed

lemma find_none:
  assumes names: "names_ok env" and few: "length (contexts_table env) < TRIS_PBX_MAX_STACK" and act: "a_action a \<noteq> F_MATCHMORE"
  shows "pbx_find_extension n env None a q ctx = Some (None, q') \<Longrightarrow> q_swo q' = None \<Longrightarrow> stack_ok env q \<Longrightarrow> length ctx \<le> 255 \<Longrightarrow>
      searched env a q q' \<and> known env q' ctx"
    "find_in_includes n env None a q is = Some (None, q') \<Longrightarrow> q_swo q' = None \<Longrightarrow> stack_ok env q \<Longrightarrow>
      (\<forall>i \<in> set is. length (i_rname i) \<le> 255) \<Longrightarrow>
      searched env a q q' \<and> (\<forall>i \<in> set is. include_valid env i \<longrightarrow> known env q' (i_rname i))"
proof (induction n arbitrary: q ctx q' "is")
  case 0
  { case 1 then show ?case by simp
  next
    case 2
    then show ?case by (induction "is" arbitrary: q) (auto split: if_splits intro: searched_refl) }
next
  case (Suc n)
  have step: "searched env a q q' \<and> known env q' ctx"
    if run: "pbx_find_extension (Suc n) env None a q ctx = Some (None, q')" and swo: "q_swo q' = None"
      and ok: "stack_ok env q" and len: "length ctx \<le> 255" for q ctx q'
  proof -
    have room: "\<not> TRIS_PBX_MAX_STACK \<le> length (incstack q)" using stack_ok_length [OF ok] few by simp
    show ?thesis
    proof (cases "list_ex (\<lambda>s. strcaseeq s ctx) (incstack q) \<or> find_context env ctx = None")
      case True
      then have "q' = start_search q" using run room by (auto simp: find_step Let_def split: if_splits)
      then show ?thesis using True ok by (auto simp: known_def list_ex_iff intro: searched_refl)
    next
      case False
      then obtain con where con: "find_context env ctx = Some con" by auto
      then have name: "con \<in> set (contexts_table env)" "c_name con = ctx" using find_context_name len by fastforce+
      have live: "tables_live con" using run room False con by (auto simp: find_step Let_def split: if_splits)
      have go: "(case look_in env a ctx con (start_search q) of Inl r \<Rightarrow> Some r
          | Inr q \<Rightarrow> find_in_includes n env None a q (c_includes con)) = Some (None, q')"
        using run room False con live by (simp add: find_step Let_def)
      show ?thesis
      proof (cases rule: look_in_cases [of env a ctx con "start_search q"])
        case (switch m)
        then show ?thesis using go swo by (auto simp: with_switch_def)
      next
        case (found e q1)
        then show ?thesis using go by simp
      next
        case (final q1)
        then obtain p where "scan_extensions a ctx (c_root con) p = (Scan_final, q1)" by blast
        then have "\<exists>g. early_match a g" using scan_extensions_result by fastforce
        then show ?thesis using act by (simp add: early_match_def)
      next
        case (none q1)
        then obtain p r where scan: "scan_extensions a ctx (c_root con) p = (Scan_none, r)" by blast
        have silent: "\<not> holds_answer env a ctx e" for e
          using scan_extensions_result [OF scan] con by (auto simp: holds_answer_def)
        have fresh: "ctx \<notin> set (incstack q)" using False strcaseeq_refl by (auto simp: list_ex_iff)
        have q1: "incstack q1 = incstack q @ [ctx]" using none(2) name(2) by simp
        then have ok1: "stack_ok env q1" using ok fresh name by (auto simp: stack_ok_def)
        have lens: "\<forall>i \<in> set (c_includes con). length (i_rname i) \<le> 255" using names name(1) by (simp add: names_ok_def)
        have "find_in_includes n env None a q1 (c_includes con) = Some (None, q')" using go none(1) by simp
        then have r: "searched env a q1 q'" "\<forall>i \<in> set (c_includes con). include_valid env i \<longrightarrow> known env q' (i_rname i)"
          using Suc.IH(2) swo ok1 lens by blast+
        have "known env q' y" if "includes_now env ctx y" for y
          using that con r(2) by (auto simp: includes_now_def)
        then have "searched env a q q'" using r(1) q1 silent by (force simp: searched_def)
        moreover have "known env q' ctx" using r(1) q1 strcaseeq_refl by (auto simp: searched_def known_def)
        ultimately show ?thesis by blast
      qed
    qed
  qed
  { case 1
    then show ?case by (rule step)
  next
    case 2
    then show ?case
    proof (induction "is" arbitrary: q)
      case Nil
      then show ?case by (auto intro: searched_refl)
    next
      case (Cons i "is")
      show ?case
      proof (cases "include_valid env i")
        case True
        obtain x p where x: "pbx_find_extension (Suc n) env None a q (i_rname i) = Some (x, p)"
          using Cons.prems(1) True by (auto split: option.splits)
        then have p: "x = None" "q_swo p = None" "find_in_includes (Suc n) env None a p is = Some (None, q')"
          using Cons.prems(1,2) True by (auto split: option.splits if_splits)
        have s: "searched env a q p" "known env p (i_rname i)"
          using step [OF x [unfolded p(1)] p(2) Cons.prems(3)] Cons.prems(4) by simp_all
        have t: "searched env a p q' \<and> (\<forall>i \<in> set is. include_valid env i \<longrightarrow> known env q' (i_rname i))"
          using Cons.IH [OF p(3) Cons.prems(2)] s(1) Cons.prems(4) by (simp add: searched_def)
        then show ?thesis using searched_trans [OF s(1)] known_more s(2) by auto
      qed (use Cons in simp)
    qed }
qed

text \<open>An answer: it is the first of its context.\<close>

definition found_at :: "find_env \<Rightarrow> find_args \<Rightarrow> string \<Rightarrow> exten \<Rightarrow> pbx_find_info \<Rightarrow> bool" where
  "found_at env a ctx e q \<longleftrightarrow>
     (\<exists>x con before g after. reaches env ctx x \<and> find_context env x = Some con \<and> c_root con = before @ g # after \<and>
        answers a g e \<and> (\<forall>h \<in> set before. \<forall>e. \<not> answers a h e) \<and> q_foundcontext q = Some x)"

lemma found_at_include: "includes_now env c d \<Longrightarrow> found_at env a d e q \<Longrightarrow> found_at env a c e q"
  unfolding found_at_def using reaches.by_include by blast

lemma find_some:
  "pbx_find_extension n env None a q ctx = Some (Some e, q') \<Longrightarrow> found_at env a ctx e q'"
  "find_in_includes n env None a q is = Some (Some e, q') \<Longrightarrow>
    \<exists>i \<in> set is. include_valid env i \<and> found_at env a (i_rname i) e q'"
proof (induction n arbitrary: q ctx "is")
  case 0
  { case 1 then show ?case by simp
  next
    case 2
    then show ?case by (induction "is" arbitrary: q) (auto split: if_splits) }
next
  case (Suc n)
  have step: "found_at env a ctx e q'"
    if run: "pbx_find_extension (Suc n) env None a q ctx = Some (Some e, q')" for q ctx
  proof -
    obtain con where con: "find_context env ctx = Some con"
      using run by (auto simp: find_step Let_def split: if_splits option.splits)
    then have go: "(case look_in env a ctx con (start_search q) of Inl r \<Rightarrow> Some r
        | Inr q \<Rightarrow> find_in_includes n env None a q (c_includes con)) = Some (Some e, q')"
      using run by (auto simp: find_step Let_def split: if_splits)
    show ?thesis
    proof (cases rule: look_in_cases [of env a ctx con "start_search q"])
      case (found e' q1)
      then obtain p where p: "scan_extensions a ctx (c_root con) p = (Scan_found e', q1)" by blast
      have "e' = e" "q1 = q'" using go found(1) by simp_all
      then show ?thesis unfolding found_at_def
        using scan_extensions_result [OF p] con reaches.here [of env ctx] by (simp, blast)
    next
      case (none q1)
      then have "find_in_includes n env None a q1 (c_includes con) = Some (Some e, q')" using go by simp
      then obtain i where i: "i \<in> set (c_includes con)" "include_valid env i" "found_at env a (i_rname i) e q'"
        using Suc.IH(2) by blast
      have "includes_now env ctx (i_rname i)" using con i by (auto simp: includes_now_def)
      then show ?thesis using i(3) by (rule found_at_include)
    qed (use go in auto)
  qed
  { case 1
    then show ?case by (rule step)
  next
    case 2
    then show ?case
    proof (induction "is" arbitrary: q)
      case (Cons i "is")
      show ?case
      proof (cases "include_valid env i")
        case True
        obtain y p where y: "pbx_find_extension (Suc n) env None a q (i_rname i) = Some (y, p)"
          using Cons.prems(1) True by (auto split: option.splits)
        show ?thesis
        proof (cases y)
          case None
          then have "find_in_includes (Suc n) env None a p is = Some (Some e, q')" using y Cons.prems True by (auto split: if_splits)
          then show ?thesis using Cons.IH by (meson list.set_intros(2))
        next
          case (Some e')
          then have "e' = e" "p = q'" using y Cons.prems True by auto
          then show ?thesis using step y Some True by (metis list.set_intros(1))
        qed
      next
        case False
        then have "find_in_includes (Suc n) env None a q is = Some (Some e, q')" using Cons.prems by simp
        then show ?thesis using Cons.IH by (meson list.set_intros(2))
      qed
    qed simp }
qed

text \<open>Claim C1. An extension is found exactly when one is there: unless a switch answers, the search for
  a match has a result if and only if some context that is reached by includes valid now holds a
  matching extension with the priority or label; and the result is the first such extension of its
  context. The names of the contexts differ in more than their case, and there are fewer than 128.\<close>

theorem find_extension_iff:
  assumes "names_ok env" "length (contexts_table env) < TRIS_PBX_MAX_STACK" "length ctx \<le> 255" "a_action a \<noteq> F_MATCHMORE"
    and run: "find_extension env None a ctx = Some (r, q)" "q_swo q = None"
  shows "(r \<noteq> None \<longleftrightarrow> (\<exists>x e. reaches env ctx x \<and> holds_answer env a x e)) \<and> (\<forall>e. r = Some e \<longrightarrow> found_at env a ctx e q)"
proof (cases r)
  case (Some e)
  then have f: "found_at env a ctx e q" using find_some(1) run(1) by (simp add: find_extension_def)
  then have "\<exists>x e. reaches env ctx x \<and> holds_answer env a x e"
    unfolding found_at_def holds_answer_def by (metis in_set_conv_decomp)
  then show ?thesis using f Some by simp
next
  case None
  have empty: "stack_ok env empty_find" "incstack empty_find = []" by (simp_all add: stack_ok_def empty_find_def)
  have "searched env a empty_find q \<and> known env q ctx"
    using find_none(1) [OF assms(1,2,4) run(1) [unfolded find_extension_def None] run(2) empty(1) assms(3)] .
  then have all: "\<forall>x \<in> set (incstack q). (\<forall>e. \<not> holds_answer env a x e) \<and> (\<forall>y. includes_now env x y \<longrightarrow> known env q y)"
    and start: "known env q ctx" and ok: "stack_ok env q" using empty(2) by (auto simp: searched_def)
  have on_stack: "x \<in> set (incstack q)" if k: "known env q x" "find_context env x = Some con" "length x \<le> 255" for x con
  proof -
    obtain s where s: "s \<in> set (incstack q)" "strcaseeq s x" using k(1,2) by (auto simp: known_def)
    have c: "con \<in> set (contexts_table env)" "c_name con = x" using find_context_name [OF k(2)] k(3) by auto
    obtain d where d: "d \<in> set (contexts_table env)" "c_name d = s" using s(1) ok by (auto simp: stack_ok_def)
    then have "d = con" using s(2) c assms(1) by (auto simp: names_ok_def)
    then show ?thesis using s(1) d(2) c(2) by simp
  qed
  have "\<not> holds_answer env a x e" if "reaches env ctx x" for x e
    using that start assms(3)
  proof induction
    case (here c)
    then show ?case using on_stack all by (metis holds_answer_def)
  next
    case (by_include c d x)
    then obtain con i where con: "find_context env c = Some con" "i \<in> set (c_includes con)" "d = i_rname i"
      by (auto simp: includes_now_def)
    have "length d \<le> 255" using con find_context_name [OF con(1)] assms(1) by (auto simp: names_ok_def)
    moreover have "known env q d" using all on_stack [OF by_include.prems(1) con(1) by_include.prems(2)] by_include.hyps(1) by blast
    ultimately show ?case using by_include.IH by blast
  qed
  then show ?thesis using None by blast
qed

definition ring_env :: find_env where
  "ring_env =
     \<lparr>contexts_table =
        [sample_context\<lparr>c_name := ''main'', c_root := [], c_root_table := [],
           c_includes := [\<lparr>i_name = ''local'', i_rname = ''local'', i_registrar = [], i_timing = None\<rparr>]\<rparr>,
         sample_context\<lparr>c_name := ''local'',
           c_includes := [\<lparr>i_name = ''main'', i_rname = ''main'', i_registrar = [], i_timing = None\<rparr>]\<rparr>],
      switches = [], overrideswitch = None, substitute = (\<lambda>s. s),
      local_time = (\<lambda>z. \<lparr>tm_min = 0, tm_hour = 0, tm_mday = 1, tm_mon = 0, tm_wday = 0\<rparr>)\<rparr>"

definition dial :: "string \<Rightarrow> int \<Rightarrow> find_args" where
  "dial digits p = \<lparr>a_exten = digits, a_priority = p, a_label = None, a_callerid = None, a_action = F_MATCH\<rparr>"

lemma ring_live: "env_live ring_env None"
  by (simp add: env_live_def ring_env_def sample_context_def sample_exten_def tables_live_def group_live_def extens_def Let_def)

lemma ring_names: "names_ok ring_env"
  by (simp add: names_ok_def ring_env_def sample_context_def strcaseeq_def Let_def)

theorem find_extension_returns_witness:
  "\<exists>r q. find_extension ring_env None (dial ''200'' 1) ''main'' = Some (r, q) \<and> length (incstack q) \<le> TRIS_PBX_MAX_STACK \<and>
    pbx_find_extension 1000 ring_env None (dial ''200'' 1) empty_find ''main'' = Some (r, q)"
  by (rule find_extension_returns [OF ring_live]) (simp add: TRIS_PBX_MAX_STACK_def)

lemma ring_find:
  "\<exists>q. find_extension ring_env None (dial ''100'' 2) ''main'' = Some (Some (sample_exten ''100'' 2 ''Hangup''), q) \<and> q_swo q = None"
proof -
  have m: "extension_match_core ''100'' ''100'' E_MATCH = 1" by (simp add: extension_match_core_def Let_def)
  have l: "\<forall>c \<in> set (contexts_table ring_env). tables_live c" using ring_live by (simp add: env_live_def)
  have c: "find_context ring_env ''main'' = Some (contexts_table ring_env ! 0)" "find_context ring_env ''local'' = Some (contexts_table ring_env ! 1)"
    by (simp_all add: find_context_def ring_env_def)
  have "\<exists>q. pbx_find_extension (Suc (Suc 0)) ring_env None (dial ''100'' 2) empty_find ''main'' =
      Some (Some (sample_exten ''100'' 2 ''Hangup''), q) \<and> q_swo q = None"
    using l m by (simp add: find_step c start_search_def empty_find_def TRIS_PBX_MAX_STACK_def)
      (simp add: ring_env_def look_in_def override_matches_def sample_context_def dial_def group_match_def sample_exten_def
        peer_found_def raise_status_def include_valid_def find_step strcaseeq_def start_search_def find_context_def TRIS_PBX_MAX_STACK_def Let_def)
  then obtain q where q: "pbx_find_extension (Suc (Suc 0)) ring_env None (dial ''100'' 2) empty_find ''main'' =
      Some (Some (sample_exten ''100'' 2 ''Hangup''), q)" "q_swo q = None" by blast
  then show ?thesis using find_more(1) [OF q(1), of "TRIS_PBX_MAX_STACK + 1"] by (simp add: find_extension_def TRIS_PBX_MAX_STACK_def)
qed

theorem find_extension_iff_witness:
  "\<exists>x e. reaches ring_env ''main'' x \<and> holds_answer ring_env (dial ''100'' 2) x e"
proof -
  obtain q where q: "find_extension ring_env None (dial ''100'' 2) ''main'' = Some (Some (sample_exten ''100'' 2 ''Hangup''), q)" "q_swo q = None"
    using ring_find by blast
  have "length (contexts_table ring_env) < TRIS_PBX_MAX_STACK" by (simp add: ring_env_def TRIS_PBX_MAX_STACK_def)
  then show ?thesis using find_extension_iff [OF ring_names _ _ _ q] by (simp add: dial_def)
qed

text \<open>An entry's own match: its name with the digits, its caller number with the caller's.\<close>

definition exten_matches :: "find_args \<Rightarrow> exten \<Rightarrow> bool" where
  "exten_matches a e \<longleftrightarrow> extension_match_core (ex_name e) (a_exten a) (match_mode (a_action a)) \<noteq> 0 \<and>
     (ex_matchcid e \<longrightarrow> matchcid (ex_cidmatch e) (case a_callerid a of None \<Rightarrow> [] | Some c \<Rightarrow> c) \<noteq> 0)"

lemma exten_matches_id: "exten_id x = exten_id y \<Longrightarrow> exten_matches a x = exten_matches a y"
  by (auto simp: exten_matches_def exten_id_def split: if_splits)

lemma group_matches:
  assumes "wf_context con" "g \<in> set (c_root con)" "e \<in> set (peers g)"
  shows "group_match a g \<noteq> 0 \<longleftrightarrow> exten_matches a e"
proof -
  have "exten_matches a e = exten_matches a (hd (peers g))"
    using group_member_id [OF assms] by (intro exten_matches_id) (simp add: group_id_def)
  then show ?thesis by (auto simp: group_match_def exten_matches_def Let_def)
qed

text \<open>The search in a context without early matches: an entry that matches is found, or one of an
  earlier group.\<close>

lemma find_in_context:
  assumes env: "find_context env ctx = Some con" "override_matches env a ctx = None" and wf: "wf_context con"
    and asked: "a_label a = None" "a_action a \<noteq> F_MATCHMORE"
    and e: "e \<in> set (extens con)" "ex_priority e = a_priority a" "exten_matches a e"
  shows "\<exists>x q. find_extension env None a ctx = Some (Some x, q) \<and> q_status q = STATUS_SUCCESS \<and> q_foundcontext q = Some ctx \<and>
    x \<in> set (extens con) \<and> ex_priority x = a_priority a \<and> exten_matches a x \<and> (x = e \<or> key_less (exten_key x) (exten_key e))"
proof -
  obtain g where g: "g \<in> set (c_root con)" "e \<in> set (peers g)" using e(1) by (auto simp: extens_iff)
  have found: "peer_found a h = Some y \<longleftrightarrow> y \<in> set (peers h) \<and> ex_priority y = a_priority a" if "h \<in> set (c_root con)" for h y
    using peer_lookup [of h "a_priority a" y] wf that asked by (simp add: peer_found_def wf_context_def)
  have ge: "answers a g e" using group_matches [OF wf g] e found [OF g(1)] g(2) by (simp add: answers_def)
  obtain r q where scan: "scan_extensions a ctx (c_root con) (raise_status STATUS_NO_EXTENSION (start_search empty_find)) = (r, q)"
    by fastforce
  then obtain x before h after where x: "r = Scan_found x" "q_status q = STATUS_SUCCESS" "q_foundcontext q = Some ctx"
    and split: "c_root con = before @ h # after" "answers a h x" "\<forall>h \<in> set before. \<forall>e. \<not> answers a h e"
    using scan_extensions_result [OF scan] g(1) ge asked(2) by (cases r) (auto simp: early_match_def)
  have h: "h \<in> set (c_root con)" and xh: "x \<in> set (peers h)" "ex_priority x = a_priority a"
    using split found by (simp_all add: answers_def)
  have "x = e \<or> key_less (exten_key x) (exten_key e)"
  proof (cases "g = h")
    case True
    then show ?thesis using ge split(2) by (simp add: answers_def)
  next
    case False
    then have "g \<in> set after" using g(1) ge split by auto
    then have "key_less (group_key h) (group_key g)" using wf split(1) by (auto simp: wf_context_def sorted_wrt_append)
    then show ?thesis using group_member_id [OF wf h xh(1)] group_member_id [OF wf g] by simp
  qed
  moreover have "find_extension env None a ctx = Some (Some x, q)"
    unfolding find_extension_def Suc_eq_plus1 [symmetric] find_step
    using env wf_context_live [OF wf] scan x(1)
    by (simp add: TRIS_PBX_MAX_STACK_def empty_find_def look_in_def start_search_def Let_def)
  moreover have "exten_matches a x" using group_matches [OF wf h xh(1)] split(2) by (simp add: answers_def)
  ultimately show ?thesis using x(2,3) member_extens [OF h xh(1)] xh(2) by blast
qed

text \<open>Claim C5. What is added is found: after an extension has been added to a context, a search in that
  context for a number that it matches, at its priority, succeeds there. The entry found matches the
  number and has the priority; it is the new entry - or the old one in its place, when there was one
  and replacing was not asked for - unless an entry that the context held before matches too and comes
  before the new one in the order of matching. The new entry carries the application, the data, the label
  and the registrar that it was added with (a hint's application may have been substituted).\<close>

theorem added_extension_found:
  assumes "wf_context con" "extension \<noteq> []"
    and t: "t = build_exten subst con extension priority label callerid app data registrar" "tidy_exten t"
      "\<forall>e \<in> set (extens con). exten_key e = exten_key t \<longrightarrow> exten_id e = exten_id t"
    and added: "tris_add_extension2 subst True con replace extension priority label callerid app data registrar = Some (0, con', eff)"
    and env: "find_context env ctx = Some con'" "override_matches env a ctx = None"
    and asked: "a_priority a = priority" "a_label a = None" "a_action a \<noteq> F_MATCHMORE"
    and matches: "exten_matches a t"
  shows "(\<exists>x q. find_extension env None a ctx = Some (Some x, q) \<and> q_status q = STATUS_SUCCESS \<and> q_foundcontext q = Some ctx \<and>
      ex_priority x = priority \<and> exten_matches a x \<and>
      (x = (if replace then t else case dialplan_entry con (exten_id t) priority of None \<Rightarrow> t | Some old \<Rightarrow> old) \<or>
       key_less (exten_key x) (exten_key t) \<and> dialplan_entry con (exten_id x) priority = Some x)) \<and>
    ex_priority t = priority \<and> ex_data t = data \<and> ex_registrar t = registrar \<and>
    ex_app t = (if priority = PRIORITY_HINT then ex_app t else app) \<and>
    ex_label t = (if label = Some [] then None else label)"
proof -
  have p: "ex_priority t = priority" using t(1) by (simp add: build_exten_def new_exten_def)
  note entry = dialplan_entry_iff [OF assms(1)]
  obtain con2 eff2 where put: "put_exten con replace extension t = Some (0, con2, eff2)" "wf_context con2"
    and ext: "set (extens con2) =
      (if \<not> replace \<and> (\<exists>e \<in> set (extens con). exten_id e = exten_id t \<and> ex_priority e = ex_priority t) then set (extens con)
       else insert t {e \<in> set (extens con). \<not> (exten_id e = exten_id t \<and> ex_priority e = ex_priority t)})"
    using put_exten_ok [OF assms(1) t(2,3)] by blast
  have con2: "con2 = con'" using added put(1) t(1) wf_context_live [OF assms(1)] assms(2) by (simp add: tris_add_extension2_def)
  define e where "e = (if replace then t else case dialplan_entry con (exten_id t) priority of None \<Rightarrow> t | Some old \<Rightarrow> old)"
  have e: "e \<in> set (extens con') \<and> exten_id e = exten_id t \<and> ex_priority e = priority"
  proof (cases "dialplan_entry con (exten_id t) priority")
    case None
    then have "\<not> (\<exists>y \<in> set (extens con). exten_id y = exten_id t \<and> ex_priority y = ex_priority t)"
      using entry p by (metis option.distinct(1))
    then have "t \<in> set (extens con')" using ext unfolding con2 by (simp only: if_False simp_thms insertI1)
    then show ?thesis using None p by (simp add: e_def)
  next
    case (Some old)
    then show ?thesis using entry [of "exten_id t" priority old] ext p by (auto simp: e_def con2)
  qed
  have "exten_matches a e" using matches e exten_matches_id by metis
  moreover have "wf_context con'" using put(2) con2 by simp
  ultimately obtain x q where f: "find_extension env None a ctx = Some (Some x, q)" "q_status q = STATUS_SUCCESS" "q_foundcontext q = Some ctx"
    and x: "x \<in> set (extens con')" "ex_priority x = priority" "exten_matches a x" "x = e \<or> key_less (exten_key x) (exten_key t)"
    using find_in_context [OF env _ asked(2,3), of e] e asked(1) by metis
  have "dialplan_entry con (exten_id x) priority = Some x" if "key_less (exten_key x) (exten_key t)"
  proof -
    have "exten_id x \<noteq> exten_id t" using that by auto
    then have "x \<in> set (extens con)" using x(1) ext unfolding con2 by (auto split: if_splits)
    then show ?thesis using entry x(2) by blast
  qed
  moreover have "ex_data t = data" "ex_registrar t = registrar" "priority \<noteq> PRIORITY_HINT \<Longrightarrow> ex_app t = app"
    "ex_label t = (if label = Some [] then None else label)"
    using t(1) by (simp_all add: build_exten_def new_exten_def)
  ultimately show ?thesis using f x p unfolding e_def by auto
qed

theorem added_extension_found_witness:
  "\<exists>con' eff e q. tris_add_extension2 (\<lambda>x c a. a) True sample_context False ''100'' 3 None None ''Goto'' [] ''user'' = Some (0, con', eff) \<and>
    find_extension (ring_env\<lparr>contexts_table := [con']\<rparr>) None (dial ''100'' 3) ''default'' = Some (Some e, q) \<and>
    e = build_exten (\<lambda>x c a. a) sample_context ''100'' 3 None None ''Goto'' [] ''user'' \<and> q_foundcontext q = Some ''default''"
proof -
  let ?t = "build_exten (\<lambda>x c a. a) sample_context ''100'' 3 None None ''Goto'' [] ''user''"
  have t: "exten_id ?t = (''100'', None)" "tidy_exten ?t" "ex_name ?t = ''100''" "\<not> ex_matchcid ?t"
    by (simp_all add: build_exten_def new_exten_def PRIORITY_HINT_def exten_id_def ext_strncpy_def tidy_exten_def tidy_def)
  have k: "\<forall>e \<in> set (extens sample_context). exten_key e = exten_key ?t \<longrightarrow> exten_id e = exten_id ?t"
    unfolding t by (simp add: extens_def sample_context_def sample_exten_def exten_id_def Let_def)
  have "\<exists>con' eff. tris_add_extension2 (\<lambda>x c a. a) True sample_context False ''100'' 3 None None ''Goto'' [] ''user'' = Some (0, con', eff) \<and>
      c_name con' = ''default''"
    by (simp add: tris_add_extension2_def wf_context_live [OF sample_context_wf])
      (simp add: put_exten_def sample_context_def sample_exten_def exten_cmp_def ext_cmp_def strcmp_def build_exten_def new_exten_def
        PRIORITY_HINT_def ext_strncpy_def add_pri_def Let_def)
  then obtain con' eff where add: "tris_add_extension2 (\<lambda>x c a. a) True sample_context False ''100'' 3 None None ''Goto'' [] ''user'' = Some (0, con', eff)"
    "c_name con' = ''default''" by blast
  have f: "find_context (ring_env\<lparr>contexts_table := [con']\<rparr>) ''default'' = Some con'" "override_matches (ring_env\<lparr>contexts_table := [con']\<rparr>) (dial ''100'' 3) ''default'' = None"
    using add(2) by (simp_all add: find_context_def override_matches_def ring_env_def)
  have "extension_match_core ''100'' ''100'' E_MATCH \<noteq> 0" by (simp add: extension_match_core_def Let_def)
  then have m: "exten_matches (dial ''100'' 3) ?t" using t(3,4) by (simp add: exten_matches_def dial_def)
  have none: "dialplan_entry sample_context i 3 = None" for i
    by (simp add: dialplan_entry_def extens_def sample_context_def sample_exten_def Let_def)
  have "(\<exists>x q. find_extension (ring_env\<lparr>contexts_table := [con']\<rparr>) None (dial ''100'' 3) ''default'' = Some (Some x, q) \<and>
      q_status q = STATUS_SUCCESS \<and> q_foundcontext q = Some ''default'' \<and> ex_priority x = 3 \<and> exten_matches (dial ''100'' 3) x \<and>
      (x = (if False then ?t else case dialplan_entry sample_context (exten_id ?t) 3 of None \<Rightarrow> ?t | Some old \<Rightarrow> old) \<or>
       key_less (exten_key x) (exten_key ?t) \<and> dialplan_entry sample_context (exten_id x) 3 = Some x)) \<and>
      ex_priority ?t = 3 \<and> ex_data ?t = [] \<and> ex_registrar ?t = ''user'' \<and>
      ex_app ?t = (if (3::int) = PRIORITY_HINT then ex_app ?t else ''Goto'') \<and> ex_label ?t = (if None = Some ([]::string) then None else None)"
    by (rule added_extension_found [OF sample_context_wf _ refl t(2) k add(1) f _ _ _ m]) (simp_all add: dial_def)
  then show ?thesis using add(1) none by auto
qed

section \<open>Where the search stops short, and where it does not\<close>

definition one_exten :: "string \<Rightarrow> string \<Rightarrow> string list \<Rightarrow> tris_context" where
  "one_exten name pattern incs =
     (let e = sample_exten pattern 1 ''Dial''
      in \<lparr>c_name = name, c_root = [\<lparr>peers = [e], peer_table = [(1, e)], peer_label_table = []\<rparr>],
          c_root_table = [((pattern, None), e)], c_tree = False,
          c_includes = map (\<lambda>n. \<lparr>i_name = n, i_rname = n, i_registrar = [], i_timing = None\<rparr>) incs, c_alts = [], c_ignorepats = []\<rparr>)"

lemmas one_exten_search = one_exten_def sample_exten_def look_in_def override_matches_def ring_env_def group_match_def
  peer_found_def raise_status_def include_valid_def start_search_def find_context_def TRIS_PBX_MAX_STACK_def
  tables_live_def group_live_def extens_def empty_find_def

text \<open>A context whose name differs from that of one already searched in its case only is taken for that
  one.\<close>

lemma case_hides_context:
  "\<exists>q. find_extension (ring_env\<lparr>contexts_table := [one_exten ''main'' ''7'' [''Main''], one_exten ''Main'' ''100'' []]\<rparr>) None
      (dial ''100'' 1) ''main'' = Some (None, q)"
proof -
  let ?env = "ring_env\<lparr>contexts_table := [one_exten ''main'' ''7'' [''Main''], one_exten ''Main'' ''100'' []]\<rparr>"
  have m: "extension_match_core ''7'' ''100'' E_MATCH = 0" by (simp add: extension_match_core_def Let_def)
  have s: "strcaseeq ''main'' ''Main''" by (simp add: strcaseeq_def tolower_chars)
  have "\<exists>q. pbx_find_extension (Suc (Suc 0)) ?env None (dial ''100'' 1) empty_find ''main'' = Some (None, q)"
    using m s by (simp add: find_step one_exten_search dial_def Let_def)
  then obtain q where q: "pbx_find_extension (Suc (Suc 0)) ?env None (dial ''100'' 1) empty_find ''main'' = Some (None, q)" by blast
  show ?thesis using find_more(1) [OF q, of "TRIS_PBX_MAX_STACK + 1"] by (simp add: find_extension_def TRIS_PBX_MAX_STACK_def)
qed

text \<open>An early match is only final in its own context: the search goes on with the next include.\<close>

lemma early_match_not_final:
  "\<exists>e q. find_extension (ring_env\<lparr>contexts_table := [one_exten ''main'' ''7'' [''a'', ''b''], one_exten ''a'' ''_1!'' [], one_exten ''b'' ''_1XX'' []]\<rparr>)
      None ((dial ''1'' 1)\<lparr>a_action := F_MATCHMORE\<rparr>) ''main'' = Some (Some e, q)"
proof -
  let ?env = "ring_env\<lparr>contexts_table := [one_exten ''main'' ''7'' [''a'', ''b''], one_exten ''a'' ''_1!'' [], one_exten ''b'' ''_1XX'' []]\<rparr>"
  let ?a = "(dial ''1'' 1)\<lparr>a_action := F_MATCHMORE\<rparr>"
  have m: "extension_match_core ''7'' ''1'' E_MATCHMORE = 0" "extension_match_core ''_1!'' ''1'' E_MATCHMORE = 2"
    "extension_match_core ''_1XX'' ''1'' E_MATCHMORE = 1"
    by (simp_all add: extension_match_core_def strncaseeq_def match_end_def toupper_def islower_def tolower_def isupper_def code_of_def Let_def)
  have s: "\<not> strcaseeq ''main'' ''a''" "\<not> strcaseeq ''main'' ''b''" by (simp_all add: strcaseeq_def)
  have "\<exists>e q. pbx_find_extension (Suc (Suc 0)) ?env None ?a empty_find ''main'' = Some (Some e, q)"
    using m s by (simp add: find_step one_exten_search dial_def Let_def)
  then obtain e q where q: "pbx_find_extension (Suc (Suc 0)) ?env None ?a empty_find ''main'' = Some (Some e, q)" by blast
  show ?thesis using find_more(1) [OF q, of "TRIS_PBX_MAX_STACK + 1"] by (simp add: find_extension_def TRIS_PBX_MAX_STACK_def)
qed

end
