(* ===== verification/PbxVars.thy ===== *)
theory PbxVars
  imports CString
begin

text \<open>
  Variables of the dialplan: \<open>main/chanvars.c\<close>, and of \<open>main/pbx.c\<close> setting and reading variables and
  substituting them in a string.

  A list of variables is the linked list, newest first. What a function, the expression evaluator, the
  clock and \<open>tris_get_hint\<close> give is a parameter. \<open>None\<close> as the result of an operation is an access outside
  a buffer or a use of an uninitialised pointer; the alternatives are spelt out at the definitions.
  Arithmetic on offsets and lengths is unbounded: \<open>sscanf\<close> is undefined where a number does not fit an
  int. Locks and messages are left out.
\<close>

section \<open>Variables\<close>

record tris_var =
  v_name :: string
  v_value :: string

definition tris_var_name :: "tris_var \<Rightarrow> string" where
  "tris_var_name v =
     (case v_name v of
        c # cs \<Rightarrow>
          if c = CHR ''_'' then (case cs of d # ds \<Rightarrow> if d = CHR ''_'' then ds else cs | [] \<Rightarrow> cs) else c # cs
      | [] \<Rightarrow> [])"

definition tris_var_full_name :: "tris_var \<Rightarrow> string" where
  "tris_var_full_name v = v_name v"

definition tris_var_value :: "tris_var \<Rightarrow> string" where
  "tris_var_value v = v_value v"

definition tris_var_assign :: "bool \<Rightarrow> string \<Rightarrow> string \<Rightarrow> tris_var option" where
  "tris_var_assign alloc name value = (if alloc then Some \<lparr>v_name = name, v_value = value\<rparr> else None)"

text \<open>Without its leading underscores, as \<open>pbx_builtin_setvar_helper\<close> does it.\<close>

definition nametail :: "string \<Rightarrow> string" where
  "nametail name =
     (if take 1 name = ''_'' then (if take 1 (tl name) = ''_'' then tl (tl name) else tl name) else name)"

text \<open>Setting a variable in the list of the channel, or in the global one. A name that ends with a
  parenthesis is written by a function instead: the list is unchanged. The last character of an empty
  name is read before its start, and a variable that cannot be allocated is linked all the same: both
  are \<open>None\<close>.\<close>

fun delete_var :: "string \<Rightarrow> tris_var list \<Rightarrow> tris_var list" where
  "delete_var tail [] = []"
| "delete_var tail (v # vs) = (if strcaseeq (tris_var_name v) tail then vs else v # delete_var tail vs)"

definition pbx_builtin_setvar_helper :: "bool \<Rightarrow> tris_var list \<Rightarrow> string \<Rightarrow> string option \<Rightarrow> tris_var list option" where
  "pbx_builtin_setvar_helper alloc vars name value =
     (if name = [] then None
      else if last name = CHR '')'' then Some vars
      else
        (let rest = delete_var (nametail name) vars
         in case value of
              None \<Rightarrow> Some rest
            | Some x \<Rightarrow> (case tris_var_assign alloc name x of None \<Rightarrow> None | Some v \<Rightarrow> Some (v # rest))))"

definition pbx_builtin_pushvar_helper :: "bool \<Rightarrow> tris_var list \<Rightarrow> string \<Rightarrow> string option \<Rightarrow> tris_var list option" where
  "pbx_builtin_pushvar_helper alloc vars name value =
     (if name = [] then None
      else if last name = CHR '')'' then Some vars
      else
        (case value of
           None \<Rightarrow> Some vars
         | Some x \<Rightarrow> (case tris_var_assign alloc name x of None \<Rightarrow> None | Some v \<Rightarrow> Some (v # vars))))"

definition getvar_in :: "string \<Rightarrow> tris_var list \<Rightarrow> string option" where
  "getvar_in name vars = map_option tris_var_value (find (\<lambda>v. name = tris_var_name v) vars)"

definition pbx_builtin_getvar_helper :: "tris_var list option \<Rightarrow> tris_var list \<Rightarrow> string \<Rightarrow> string option" where
  "pbx_builtin_getvar_helper chan globals name =
     (case (case chan of None \<Rightarrow> None | Some vars \<Rightarrow> getvar_in name vars) of
        Some x \<Rightarrow> Some x
      | None \<Rightarrow> getvar_in name globals)"

definition pbx_builtin_clear_globals :: "tris_var list \<Rightarrow> tris_var list" where
  "pbx_builtin_clear_globals globals = []"

text \<open>\<open>pbx_builtin_setvar\<close>: the part before the first equals sign, and what comes after it if there is one,
  when \<open>Set\<close> is not configured to take several pairs.\<close>

definition pbx_builtin_setvar :: "bool \<Rightarrow> tris_var list \<Rightarrow> string \<Rightarrow> tris_var list option" where
  "pbx_builtin_setvar alloc vars data =
     (if data = [] then Some vars
      else (case cut_at CHR ''='' data of
              None \<Rightarrow> pbx_builtin_setvar_helper alloc vars data None
            | Some (name, value) \<Rightarrow> pbx_builtin_setvar_helper alloc vars name (Some value)))"

section \<open>Names with an offset and a length\<close>

definition INT_MAX :: int where "INT_MAX = 2147483647"

definition VAR_BUF_SIZE :: nat where "VAR_BUF_SIZE = 4096"

text \<open>The name before the first colon outside parentheses, the number of opening parentheses in it, and
  what follows the colon.\<close>

fun split_name :: "int \<Rightarrow> string \<Rightarrow> string \<times> nat \<times> string option" where
  "split_name parens [] = ([], 0, None)"
| "split_name parens (c # cs) =
     (if c = CHR ''('' then (let (name, n, r) = split_name (parens + 1) cs in (c # name, Suc n, r))
      else if c = CHR '')'' then (let (name, n, r) = split_name (parens - 1) cs in (c # name, n, r))
      else if c = CHR '':'' \<and> parens = 0 then ([], 0, Some cs)
      else (let (name, n, r) = split_name parens cs in (c # name, n, r)))"

text \<open>\<open>sscanf(var, "%30d:%30d", offset, length)\<close>.\<close>

definition scan_range :: "string \<Rightarrow> int \<times> int" where
  "scan_range s =
     (case scan_d 30 s of
        None \<Rightarrow> (0, INT_MAX)
      | Some (offset, rest) \<Rightarrow>
          (case rest of
             c # r \<Rightarrow> if c = CHR '':'' then (case scan_d 30 r of None \<Rightarrow> (offset, INT_MAX) | Some (len, _) \<Rightarrow> (offset, len))
                      else (offset, INT_MAX)
           | [] \<Rightarrow> (offset, INT_MAX)))"

record parsed_name =
  n_var :: string
  n_offset :: int
  n_length :: int
  n_isfunc :: nat
  n_found :: bool

definition parse_variable_name :: "string \<Rightarrow> parsed_name" where
  "parse_variable_name var =
     (case split_name 0 var of
        (name, n, None) \<Rightarrow> \<lparr>n_var = name, n_offset = 0, n_length = INT_MAX, n_isfunc = n, n_found = False\<rparr>
      | (name, n, Some r) \<Rightarrow>
          \<lparr>n_var = name, n_offset = fst (scan_range r), n_length = snd (scan_range r), n_isfunc = n, n_found = True\<rparr>)"

definition substring :: "string \<Rightarrow> int \<Rightarrow> int \<Rightarrow> nat \<Rightarrow> string" where
  "substring value offset len workspace_len =
     (let v = take (workspace_len - 1) value; lr = int (length v)
      in if offset = 0 \<and> lr \<le> len then v
         else
           (let offset = (if offset < 0 then max 0 (lr + offset) else offset)
            in if lr \<le> offset then []
               else
                 (let r = drop (nat offset) v
                  in if 0 \<le> len \<and> len < lr - offset then take (nat len) r
                     else if len < 0 then (if offset - len < lr then take (nat (lr + len - offset)) r else [])
                     else r)))"

section \<open>The value of a variable\<close>

text \<open>\<open>printf\<close>'s \<open>%d\<close>.\<close>

fun dec_nat :: "nat \<Rightarrow> string" where
  "dec_nat n = (if n < 10 then [] else dec_nat (n div 10)) @ [char_of (48 + n mod 10)]"

definition dec_int :: "int \<Rightarrow> string" where
  "dec_int i = (if i < 0 then CHR ''-'' # dec_nat (nat (- i)) else dec_nat (nat i))"

record chan_info =
  ch_pres :: int
  ch_ani2 :: int
  ch_ton :: int
  ch_tns :: int
  ch_hint :: "string option"
  ch_hintname :: "string option"
  ch_exten :: string
  ch_context :: string
  ch_priority :: int
  ch_name :: string
  ch_uniqueid :: string
  ch_hangupcause :: int
  ch_vars :: "tris_var list"

text \<open>A function's \<open>read\<close>: the arguments and the size of the buffer, then what it puts there, or failure.\<close>

type_synonym func_read = "string option \<Rightarrow> nat \<Rightarrow> string option"

record var_env =
  e_chan :: "chan_info option"
  e_head :: "tris_var list option"
  e_globals :: "tris_var list"
  e_epoch :: nat
  e_sysname :: string
  e_entity :: string
  e_functions :: "(string \<times> func_read option) list"
  e_expr :: "string \<Rightarrow> nat \<Rightarrow> string"
  e_bogus :: bool

text \<open>The predefined variables: \<open>None\<close> for none of them, \<open>Some None\<close> for one without a value.\<close>

definition predefined :: "chan_info \<Rightarrow> string \<Rightarrow> string option option" where
  "predefined c var =
     (if take 4 var = ''CALL''
      then if var = ''CALLINGPRES'' then Some (Some (dec_int (ch_pres c)))
           else if var = ''CALLINGANI2'' then Some (Some (dec_int (ch_ani2 c)))
           else if var = ''CALLINGTON'' then Some (Some (dec_int (ch_ton c)))
           else if var = ''CALLINGTNS'' then Some (Some (dec_int (ch_tns c)))
           else None
      else if var = ''HINT'' then Some (ch_hint c)
      else if var = ''HINTNAME'' then Some (ch_hintname c)
      else if var = ''EXTEN'' then Some (Some (ch_exten c))
      else if var = ''CONTEXT'' then Some (Some (ch_context c))
      else if var = ''PRIORITY'' then Some (Some (dec_int (ch_priority c)))
      else if var = ''CHANNEL'' then Some (Some (ch_name c))
      else if var = ''UNIQUEID'' then Some (Some (ch_uniqueid c))
      else if var = ''HANGUPCAUSE'' then Some (Some (dec_int (ch_hangupcause c)))
      else None)"

definition system_variable :: "var_env \<Rightarrow> string \<Rightarrow> string option" where
  "system_variable env var =
     (if var = ''EPOCH'' then Some (dec_nat (e_epoch env))
      else if var = ''SYSTEMNAME'' then Some (e_sysname env)
      else if var = ''ENTITYID'' then Some (e_entity env)
      else None)"

definition search_var :: "string \<Rightarrow> tris_var list \<Rightarrow> string option" where
  "search_var var vars = map_option tris_var_value (find (\<lambda>v. strcaseeq (tris_var_name v) var) vars)"

text \<open>The channel's list in the place of the one given, then the global list.\<close>

definition listed_variable :: "var_env \<Rightarrow> string \<Rightarrow> string option" where
  "listed_variable env var =
     (case (case (case e_chan env of Some c \<Rightarrow> Some (ch_vars c) | None \<Rightarrow> e_head env) of
              None \<Rightarrow> None | Some vars \<Rightarrow> search_var var vars) of
        Some x \<Rightarrow> Some x
      | None \<Rightarrow> search_var var (e_globals env))"

definition pbx_retrieve_variable :: "var_env \<Rightarrow> string \<Rightarrow> string option" where
  "pbx_retrieve_variable env var =
     (let p = parse_variable_name var;
          s = (case (case e_chan env of None \<Rightarrow> None | Some c \<Rightarrow> predefined c var) of
                 Some x \<Rightarrow> x
               | None \<Rightarrow> (case system_variable env var of Some x \<Rightarrow> Some x | None \<Rightarrow> listed_variable env var))
      in map_option
           (\<lambda>x. let w = take (VAR_BUF_SIZE - 1) x
                in if n_found p then substring w (n_offset p) (n_length p) VAR_BUF_SIZE else w) s)"

text \<open>\<open>func_args\<close> and \<open>tris_func_read\<close>: the arguments are what stands between the first opening and the
  last closing parenthesis.\<close>

definition func_args :: "string \<Rightarrow> string \<times> string option" where
  "func_args function =
     (case cut_at CHR ''('' function of
        None \<Rightarrow> (function, None)
      | Some (name, args) \<Rightarrow>
          (name, Some (if CHR '')'' \<in> set args then rev (tl (dropWhile (\<lambda>c. c \<noteq> CHR '')'') (rev args))) else args)))"

definition tris_func_read :: "var_env \<Rightarrow> string \<Rightarrow> nat \<Rightarrow> string option" where
  "tris_func_read env function len =
     (let (name, args) = func_args function
      in case map_of (e_functions env) name of
           Some (Some f) \<Rightarrow> f args len
         | _ \<Rightarrow> None)"

section \<open>Substitution\<close>

text \<open>The end of a variable or an expression: the number of characters up to it, the closing bracket
  included, and whether something has to be substituted inside.\<close>

fun var_end :: "nat \<Rightarrow> string \<Rightarrow> nat \<times> bool" where
  "var_end brackets [] = (0, False)"
| "var_end brackets (c # cs) =
     (if brackets = 0 then (0, False)
      else if c = CHR ''$'' \<and> take 1 cs = ''{'' then (let (k, sub) = var_end brackets cs in (Suc k, True))
      else if c = CHR ''{'' then (let (k, sub) = var_end (brackets + 1) cs in (Suc k, sub))
      else if c = CHR ''}'' then (let (k, sub) = var_end (brackets - 1) cs in (Suc k, sub))
      else if c = CHR ''$'' \<and> take 1 cs = ''['' then (let (k, sub) = var_end brackets cs in (Suc k, True))
      else (let (k, sub) = var_end brackets cs in (Suc k, sub)))"

function expr_end :: "nat \<Rightarrow> string \<Rightarrow> nat \<times> bool" where
  "expr_end brackets [] = (0, False)"
| "expr_end brackets (c # cs) =
     (if brackets = 0 then (0, False)
      else if c = CHR ''$'' \<and> take 1 cs = ''['' then (let (k, sub) = expr_end (brackets + 1) (tl cs) in (Suc (Suc k), True))
      else if c = CHR ''['' then (let (k, sub) = expr_end (brackets + 1) cs in (Suc k, sub))
      else if c = CHR '']'' then (let (k, sub) = expr_end (brackets - 1) cs in (Suc k, sub))
      else if c = CHR ''$'' \<and> take 1 cs = ''{'' then (let (k, sub) = expr_end brackets (tl cs) in (Suc (Suc k), True))
      else (let (k, sub) = expr_end brackets cs in (Suc k, sub)))"
  by pat_completeness auto
termination by (relation "measure (\<lambda>(b, s). length s)") auto

text \<open>The value that replaces \<open>${v}\<close>. Without a channel, but with a list of variables, a function is read
  through a channel made for it; when that cannot be made the result is an uninitialised pointer, the
  outer \<open>None\<close>.\<close>

definition variable_value :: "var_env \<Rightarrow> string \<Rightarrow> string option option" where
  "variable_value env v =
     (let p = parse_variable_name v
      in if n_isfunc p \<noteq> 0 \<and> e_chan env = None \<and> e_head env \<noteq> None \<and> \<not> e_bogus env then None
         else Some (map_option (\<lambda>x. substring x (n_offset p) (n_length p) VAR_BUF_SIZE)
                (if n_isfunc p \<noteq> 0 then tris_func_read env (n_var p) VAR_BUF_SIZE
                 else pbx_retrieve_variable env (n_var p))))"

lemma post_shorter:
  "w \<noteq> [] \<Longrightarrow> length (dropWhile P w) - Suc n < length w"
  "w \<noteq> [] \<Longrightarrow> min (length (dropWhile P w) - 2) m < length w"
  using length_dropWhile_le [of P w] by (auto simp: min_def simp flip: length_greater_0_conv)

text \<open>The loop of \<open>pbx_substitute_variables_helper_full\<close>: what is left of the input, the room left, and the
  output so far. \<open>None\<close> when the name, which is copied with the length it has in the input, does not
  fit its buffer, when it is missing at the end of the input (its length is then - 1 and a byte before
  the buffer is written), and when an expression is evaluated with no room left (the evaluator then
  writes before the place it is given).\<close>

function substitute_loop :: "var_env \<Rightarrow> nat \<Rightarrow> string \<Rightarrow> string \<Rightarrow> string option" where
  "substitute_loop env room w out =
     (if w = [] \<or> room = 0 then Some out
      else
        (let pre = takeWhile (\<lambda>c. c \<noteq> CHR ''$'') w; post = dropWhile (\<lambda>c. c \<noteq> CHR ''$'') w;
             out1 = out @ take room pre; room1 = room - length pre; s = drop 2 post
         in if post = [] then Some out1
            else if take 1 (tl post) = ''{''
            then (let (k, sub) = var_end 1 s
                  in if k = 0 \<or> VAR_BUF_SIZE < k then None
                     else
                       (case (if sub then substitute_loop env (VAR_BUF_SIZE - 1) (take (k - 1) s) [] else Some (take (k - 1) s)) of
                          None \<Rightarrow> None
                        | Some v \<Rightarrow>
                            (case variable_value env v of
                               None \<Rightarrow> None
                             | Some value \<Rightarrow>
                                 (let x = (case value of None \<Rightarrow> [] | Some y \<Rightarrow> take room1 y)
                                  in substitute_loop env (room1 - length x) (drop k s) (out1 @ x)))))
            else if take 1 (tl post) = ''[''
            then (let (k, sub) = expr_end 1 s
                  in if k = 0 \<or> VAR_BUF_SIZE < k \<or> room1 = 0 then None
                     else
                       (case (if sub then substitute_loop env (VAR_BUF_SIZE - 1) (take (k - 1) s) [] else Some (take (k - 1) s)) of
                          None \<Rightarrow> None
                        | Some v \<Rightarrow>
                            (let x = e_expr env v room1
                             in substitute_loop env (room1 - length x) (drop k s) (out1 @ x))))
            else substitute_loop env (room - 1) (tl w) (out @ [hd w])))"
  by pat_completeness auto
termination
  by (relation "measure (\<lambda>(env, room, w, out). length w)") (auto simp: post_shorter)

declare substitute_loop.simps [simp del]

definition pbx_substitute_variables_helper_full :: "var_env \<Rightarrow> string \<Rightarrow> nat \<Rightarrow> (string \<times> nat) option" where
  "pbx_substitute_variables_helper_full env cp1 room =
     map_option (\<lambda>out. (out, length out)) (substitute_loop env room cp1 [])"

text \<open>\<open>pbx_substitute_variables_helper\<close> and \<open>pbx_substitute_variables_varshead\<close>.\<close>

definition pbx_substitute_variables_helper :: "var_env \<Rightarrow> string \<Rightarrow> nat \<Rightarrow> string option" where
  "pbx_substitute_variables_helper env cp1 room =
     map_option fst (pbx_substitute_variables_helper_full
       (case e_chan env of None \<Rightarrow> env\<lparr>e_head := None\<rparr> | Some c \<Rightarrow> env\<lparr>e_head := Some (ch_vars c)\<rparr>) cp1 room)"

definition pbx_substitute_variables_varshead :: "var_env \<Rightarrow> tris_var list \<Rightarrow> string \<Rightarrow> nat \<Rightarrow> string option" where
  "pbx_substitute_variables_varshead env headp cp1 room =
     map_option fst (pbx_substitute_variables_helper_full (env\<lparr>e_chan := None, e_head := Some headp\<rparr>) cp1 room)"

text \<open>\<open>pbx_substitute_variables\<close>: the data of an extension, for its application.\<close>

definition has_reference :: "string \<Rightarrow> bool" where
  "has_reference s \<longleftrightarrow> list_ex (\<lambda>i. take 2 (drop i s) = ''${'' \<or> take 2 (drop i s) = ''$['') [0..<length s]"

definition pbx_substitute_variables :: "var_env \<Rightarrow> nat \<Rightarrow> string option \<Rightarrow> string option" where
  "pbx_substitute_variables env datalen data =
     (case data of
        None \<Rightarrow> Some []
      | Some d \<Rightarrow> if \<not> has_reference d then Some (take (datalen - 1) d)
                  else pbx_substitute_variables_helper env d (datalen - 1))"

text \<open>\<open>pbx_checkcondition\<close>.\<close>

definition pbx_checkcondition :: "string option \<Rightarrow> int" where
  "pbx_checkcondition condition =
     (case condition of
        None \<Rightarrow> 0
      | Some c \<Rightarrow> if c = [] then 0 else (case scan_d 30 c of Some (res, _) \<Rightarrow> res | None \<Rightarrow> 1))"

section \<open>The bounds of the output\<close>

lemma substitute_loop_bounded:
  assumes "\<And>v n. 0 < n \<Longrightarrow> length (e_expr env v n) \<le> n"
  shows "substitute_loop env room w out = Some res \<Longrightarrow> length res \<le> length out + room"
proof (induction "length w" arbitrary: room w out res rule: less_induct)
  case less
  let ?P = "\<lambda>c. c \<noteq> CHR ''$''"
  let ?post = "dropWhile ?P w" and ?out1 = "out @ take room (takeWhile ?P w)" and ?room1 = "room - length (takeWhile ?P w)"
  let ?s = "drop 2 ?post"
  note run = less.prems [unfolded substitute_loop.simps [of env room w out] Let_def]
  have out1: "length ?out1 + ?room1 \<le> length out + room" by simp
  have next_step: "length res \<le> length out + room"
    if "substitute_loop env (?room1 - length x) (drop k ?s) (?out1 @ x) = Some res" "length x \<le> ?room1" "w \<noteq> []" for x k
  proof -
    have "length (drop k ?s) < length w" using post_shorter(1) [OF that(3), of ?P "Suc k"] by simp
    then have "length res \<le> length (?out1 @ x) + (?room1 - length x)" using less.hyps that(1) by blast
    then show ?thesis using that(2) out1 by simp
  qed
  consider "w = [] \<or> room = 0" | "w \<noteq> []" "room \<noteq> 0" "?post = []"
    | (var) "w \<noteq> []" "room \<noteq> 0" "?post \<noteq> []" "take 1 (tl ?post) = ''{''"
    | (expr) "w \<noteq> []" "room \<noteq> 0" "?post \<noteq> []" "take 1 (tl ?post) = ''[''"
    | (char) "w \<noteq> []" "room \<noteq> 0" "?post \<noteq> []" "take 1 (tl ?post) \<noteq> ''{''" "take 1 (tl ?post) \<noteq> ''[''" by blast
  then show ?case
  proof cases
    case 1
    then show ?thesis using run by (auto split: if_splits)
  next
    case 2
    then have "res = ?out1" using run by (simp split: if_splits)
    then show ?thesis by simp
  next
    case var
    then obtain k sub v val where "substitute_loop env (?room1 - length (case val of None \<Rightarrow> [] | Some y \<Rightarrow> take ?room1 y)) (drop k ?s)
        (?out1 @ (case val of None \<Rightarrow> [] | Some y \<Rightarrow> take ?room1 y)) = Some res"
      using run by (auto simp del: take_append append_assoc split: if_splits option.splits prod.splits)
    then show ?thesis using next_step var(1) by (auto split: option.splits)
  next
    case expr
    then obtain k sub v where "0 < ?room1" "substitute_loop env (?room1 - length (e_expr env v ?room1)) (drop k ?s) (?out1 @ e_expr env v ?room1) = Some res"
      using run by (auto simp del: take_append append_assoc split: if_splits option.splits prod.splits)
    then show ?thesis using next_step assms expr(1) by blast
  next
    case char
    then have "substitute_loop env (room - 1) (tl w) (out @ [hd w]) = Some res" using run by (auto split: if_splits)
    then have "length res \<le> length (out @ [hd w]) + (room - 1)" using less.hyps [of "tl w" "room - 1" "out @ [hd w]" res] char(1) by (cases w) auto
    then show ?thesis using char(2) by simp
  qed
qed

section \<open>Templates\<close>

text \<open>What a string with references stands for: text, variables and expressions, whose names and operands
  are templates again; how it is written; and its value, where \<open>ev\<close> gives the value of an expression.\<close>

datatype piece = Txt string | VarRef "piece list" | ExprRef "piece list"

fun render :: "piece \<Rightarrow> string" where
  "render (Txt s) = s"
| "render (VarRef ps) = ''${'' @ concat (map render ps) @ ''}''"
| "render (ExprRef ps) = ''$['' @ concat (map render ps) @ '']''"

fun piece_value :: "var_env \<Rightarrow> (string \<Rightarrow> string) \<Rightarrow> piece \<Rightarrow> string" where
  "piece_value env ev (Txt s) = s"
| "piece_value env ev (VarRef ps) =
     (case variable_value env (concat (map (piece_value env ev) ps)) of Some (Some x) \<Rightarrow> x | _ \<Rightarrow> [])"
| "piece_value env ev (ExprRef ps) = ev (concat (map (piece_value env ev) ps))"

definition plain :: "string \<Rightarrow> bool" where
  "plain s \<longleftrightarrow> list_all (\<lambda>c. c \<notin> set ''${}[]'') s"

text \<open>The names and operands fit the buffers of the code, and no channel is missing for a function.\<close>

definition operand_fits :: "var_env \<Rightarrow> (string \<Rightarrow> string) \<Rightarrow> piece list \<Rightarrow> bool" where
  "operand_fits env ev ps \<longleftrightarrow>
     length (concat (map render ps)) < VAR_BUF_SIZE \<and> length (concat (map (piece_value env ev) ps)) < VAR_BUF_SIZE - 1"

fun nested_ok :: "var_env \<Rightarrow> (string \<Rightarrow> string) \<Rightarrow> piece \<Rightarrow> bool" where
  "nested_ok env ev (Txt s) = plain s"
| "nested_ok env ev (VarRef ps) =
     (list_all (nested_ok env ev) ps \<and> operand_fits env ev ps \<and>
      variable_value env (concat (map (piece_value env ev) ps)) \<noteq> None)"
| "nested_ok env ev (ExprRef ps) = (list_all (nested_ok env ev) ps \<and> operand_fits env ev ps)"

definition top_ok :: "var_env \<Rightarrow> (string \<Rightarrow> string) \<Rightarrow> piece \<Rightarrow> bool" where
  "top_ok env ev p = (case p of Txt s \<Rightarrow> CHR ''$'' \<notin> set s | _ \<Rightarrow> nested_ok env ev p)"

fun is_ref :: "piece \<Rightarrow> bool" where
  "is_ref (Txt s) = False"
| "is_ref p = True"

subsection \<open>The end of a reference\<close>

lemma var_end_text:
  "plain s \<Longrightarrow> 0 < b \<Longrightarrow> var_end b (s @ w) = (length s + fst (var_end b w), snd (var_end b w))"
  by (induction s) (auto simp: plain_def)

lemma expr_end_text:
  "plain s \<Longrightarrow> 0 < b \<Longrightarrow> expr_end b (s @ w) = (length s + fst (expr_end b w), snd (expr_end b w))"
  by (induction s) (auto simp: plain_def)

lemma end_of_pieces:
  fixes f :: "string \<Rightarrow> nat \<times> bool"
  assumes "\<And>p w. p \<in> set ps \<Longrightarrow> f (render p @ w) = (length (render p) + fst (f w), is_ref p \<or> snd (f w))"
  shows "f (concat (map render ps) @ w) = (length (concat (map render ps)) + fst (f w), list_ex is_ref ps \<or> snd (f w))"
  using assms by (induction ps) auto

lemma var_end_piece:
  "nested_ok env ev p \<Longrightarrow> 0 < b \<Longrightarrow>
   var_end b (render p @ w) = (length (render p) + fst (var_end b w), is_ref p \<or> snd (var_end b w))"
proof (induction p arbitrary: b w)
  case (Txt s)
  then show ?case by (simp add: var_end_text)
next
  case (VarRef ps)
  then show ?case by (simp add: end_of_pieces [of ps "var_end _"] list_all_iff split: prod.split)
next
  case (ExprRef ps)
  then show ?case by (simp add: end_of_pieces [of ps "var_end _"] list_all_iff split: prod.split)
qed

lemma expr_end_piece:
  "nested_ok env ev p \<Longrightarrow> 0 < b \<Longrightarrow>
   expr_end b (render p @ w) = (length (render p) + fst (expr_end b w), is_ref p \<or> snd (expr_end b w))"
proof (induction p arbitrary: b w)
  case (Txt s)
  then show ?case by (simp add: expr_end_text)
next
  case (VarRef ps)
  then show ?case by (simp add: end_of_pieces [of ps "expr_end _"] list_all_iff split: prod.split)
next
  case (ExprRef ps)
  then show ?case by (simp add: end_of_pieces [of ps "expr_end _"] list_all_iff split: prod.split)
qed

lemma ends_of_operand:
  assumes "list_all (nested_ok env ev) ps"
  shows "var_end 1 (concat (map render ps) @ CHR ''}'' # w) = (Suc (length (concat (map render ps))), list_ex is_ref ps)"
    and "expr_end 1 (concat (map render ps) @ CHR '']'' # w) = (Suc (length (concat (map render ps))), list_ex is_ref ps)"
proof -
  have "var_end 0 w = (0, False)" "expr_end 0 w = (0, False)" by (cases w; simp)+
  then show "var_end 1 (concat (map render ps) @ CHR ''}'' # w) = (Suc (length (concat (map render ps))), list_ex is_ref ps)"
    "expr_end 1 (concat (map render ps) @ CHR '']'' # w) = (Suc (length (concat (map render ps))), list_ex is_ref ps)"
    using end_of_pieces [of ps "var_end 1"] end_of_pieces [of ps "expr_end 1"] assms
    by (simp_all add: var_end_piece [of env ev] expr_end_piece [of env ev] list_all_iff)
qed

lemma unreferenced: "\<not> list_ex is_ref ps \<Longrightarrow> concat (map (piece_value env ev) ps) = concat (map render ps)"
proof (induction ps)
  case (Cons p ps)
  then show ?case by (cases p) auto
qed simp

subsection \<open>The steps of the loop\<close>

lemma loop_nil [simp]: "substitute_loop env room [] out = Some out"
  by (simp add: substitute_loop.simps)

lemma loop_char:
  assumes "c \<noteq> CHR ''$''" "1 < room"
  shows "substitute_loop env room (c # w) out = substitute_loop env (room - 1) w (out @ [c])"
proof -
  let ?post = "dropWhile (\<lambda>c. c \<noteq> CHR ''$'') w"
  obtain m where m: "room = Suc (Suc m)" using assms(2) by (metis One_nat_def less_iff_Suc_add plus_1_eq_Suc add_Suc)
  note l = substitute_loop.simps [of env "Suc (Suc m)" "c # w" out] and r = substitute_loop.simps [of env "Suc m" w "out @ [c]"]
  consider "w = []" | "w \<noteq> []" "?post = []"
    | "w \<noteq> []" "?post \<noteq> []" "take 1 (tl ?post) = ''{'' \<or> take 1 (tl ?post) = ''[''"
    | "?post \<noteq> []" "take 1 (tl ?post) \<noteq> ''{''" "take 1 (tl ?post) \<noteq> ''[''" by blast
  then show ?thesis
  proof cases
    case 1
    then show ?thesis using l assms(1) by (simp add: m)
  next
    case 2
    then show ?thesis using assms(1) by (simp add: l r m)
  next
    case 4
    then show ?thesis using assms(1) by (auto simp: l m Let_def)
  next
    case 3
    then show ?thesis using assms(1) by (elim disjE) (auto simp: l r m Let_def case_prod_beta cong: option.case_cong if_cong)
  qed
qed

lemma loop_text:
  "CHR ''$'' \<notin> set s \<Longrightarrow> length s < room \<Longrightarrow>
   substitute_loop env room (s @ w) out = substitute_loop env (room - length s) w (out @ s)"
proof (induction s arbitrary: room out)
  case (Cons a s)
  then show ?case by (auto simp: loop_char)
qed simp

text \<open>Reading a reference: its text is cut out, substituted if there is a reference in it, and its value
  put in its place.\<close>

lemma loop_var:
  assumes "list_all (nested_ok env ev) ps" "operand_fits env ev ps" "0 < room"
    and inner: "list_ex is_ref ps \<Longrightarrow>
      substitute_loop env (VAR_BUF_SIZE - 1) (concat (map render ps)) [] = Some (concat (map (piece_value env ev) ps))"
    and val: "variable_value env (concat (map (piece_value env ev) ps)) = Some y"
  shows "substitute_loop env room (render (VarRef ps) @ w) out =
    (let x = take room (case y of None \<Rightarrow> [] | Some x \<Rightarrow> x) in substitute_loop env (room - length x) w (out @ x))"
proof -
  have "(if list_ex is_ref ps then substitute_loop env (VAR_BUF_SIZE - 1) (concat (map render ps)) []
      else Some (concat (map render ps))) = Some (concat (map (piece_value env ev) ps))"
    using inner unreferenced by auto
  then show ?thesis using assms(2,3) val ends_of_operand(1) [OF assms(1), of w]
    by (subst substitute_loop.simps, cases "list_ex is_ref ps"; cases y) (auto simp: operand_fits_def Let_def)
qed

lemma loop_expr:
  assumes "list_all (nested_ok env ev) ps" "operand_fits env ev ps" "0 < room"
    and inner: "list_ex is_ref ps \<Longrightarrow>
      substitute_loop env (VAR_BUF_SIZE - 1) (concat (map render ps)) [] = Some (concat (map (piece_value env ev) ps))"
    and val: "e_expr env (concat (map (piece_value env ev) ps)) room = x"
  shows "substitute_loop env room (render (ExprRef ps) @ w) out = substitute_loop env (room - length x) w (out @ x)"
proof -
  have "(if list_ex is_ref ps then substitute_loop env (VAR_BUF_SIZE - 1) (concat (map render ps)) []
      else Some (concat (map render ps))) = Some (concat (map (piece_value env ev) ps))"
    using inner unreferenced by auto
  then show ?thesis using assms(2,3) val ends_of_operand(2) [OF assms(1), of w]
    by (subst substitute_loop.simps, cases "list_ex is_ref ps") (auto simp: operand_fits_def Let_def)
qed

subsection \<open>Substitution is the value of the template\<close>

lemma loop_pieces_aux:
  assumes "\<And>p room w out. p \<in> set ps \<Longrightarrow> length (piece_value env ev p) < room \<Longrightarrow>
      substitute_loop env room (render p @ w) out =
      substitute_loop env (room - length (piece_value env ev p)) w (out @ piece_value env ev p)"
    and "length (concat (map (piece_value env ev) ps)) < room"
  shows "substitute_loop env room (concat (map render ps) @ w) out =
    substitute_loop env (room - length (concat (map (piece_value env ev) ps))) w (out @ concat (map (piece_value env ev) ps))"
  using assms
proof (induction ps arbitrary: room out)
  case (Cons p ps)
  then show ?case by (simp add: less_diff_conv)
qed simp

lemma loop_piece:
  assumes ev: "\<And>v n. length (ev v) < n \<Longrightarrow> e_expr env v n = ev v"
  shows "nested_ok env ev p \<Longrightarrow> length (piece_value env ev p) < room \<Longrightarrow>
    substitute_loop env room (render p @ w) out =
    substitute_loop env (room - length (piece_value env ev p)) w (out @ piece_value env ev p)"
proof (induction p arbitrary: room w out)
  case (Txt s)
  then have "CHR ''$'' \<notin> set s" by (auto simp: plain_def list_all_iff)
  then show ?case using Txt.prems(2) by (simp add: loop_text)
next
  case (VarRef ps)
  have ok: "list_all (nested_ok env ev) ps" "operand_fits env ev ps" using VarRef.prems(1) by auto
  then have inner: "substitute_loop env (VAR_BUF_SIZE - 1) (concat (map render ps)) [] = Some (concat (map (piece_value env ev) ps))"
    using loop_pieces_aux [of ps env ev "VAR_BUF_SIZE - 1" "[]" "[]"] VarRef.IH by (auto simp: operand_fits_def list_all_iff)
  obtain y where y: "variable_value env (concat (map (piece_value env ev) ps)) = Some y" using VarRef.prems(1) by auto
  show ?case using loop_var [OF ok _ inner y, of room w out] VarRef.prems(2) y by (cases y) auto
next
  case (ExprRef ps)
  have ok: "list_all (nested_ok env ev) ps" "operand_fits env ev ps" using ExprRef.prems(1) by auto
  then have inner: "substitute_loop env (VAR_BUF_SIZE - 1) (concat (map render ps)) [] = Some (concat (map (piece_value env ev) ps))"
    using loop_pieces_aux [of ps env ev "VAR_BUF_SIZE - 1" "[]" "[]"] ExprRef.IH by (auto simp: operand_fits_def list_all_iff)
  show ?case using loop_expr [OF ok _ inner ev, of room w out] ExprRef.prems(2) by simp
qed

lemma loop_top:
  assumes ev: "\<And>v n. length (ev v) < n \<Longrightarrow> e_expr env v n = ev v"
    and "list_all (top_ok env ev) ps" "length (concat (map (piece_value env ev) ps)) < room"
  shows "substitute_loop env room (concat (map render ps)) [] = Some (concat (map (piece_value env ev) ps))"
proof -
  have "substitute_loop env room (render p @ w) out =
      substitute_loop env (room - length (piece_value env ev p)) w (out @ piece_value env ev p)"
    if "p \<in> set ps" "length (piece_value env ev p) < room" for p room w out
  proof -
    have ok: "top_ok env ev p" using that(1) assms(2) by (simp add: list_all_iff)
    show ?thesis using ok that(2) loop_piece [OF ev, of p room w out] by (cases p) (simp_all add: top_ok_def loop_text)
  qed
  then show ?thesis using loop_pieces_aux [of ps env ev room "[]" "[]"] assms(3) by simp
qed

section \<open>Setting and reading variables\<close>

text \<open>The abstraction of a list of variables is the map from names, in any case, to values, and the lists
  that \<open>pbx_builtin_setvar_helper\<close> builds have no name twice.\<close>

definition unique_names :: "tris_var list \<Rightarrow> bool" where
  "unique_names vars \<longleftrightarrow> distinct (map (\<lambda>v. map tolower (tris_var_name v)) vars)"

lemma tris_var_name_nametail: "tris_var_name \<lparr>v_name = name, v_value = x\<rparr> = nametail name"
  by (auto simp: tris_var_name_def nametail_def split: list.splits)

lemma search_var_simps [simp]:
  "search_var n [] = None"
  "search_var n (v # vs) = (if strcaseeq (tris_var_name v) n then Some (tris_var_value v) else search_var n vs)"
  by (simp_all add: search_var_def)

lemma getvar_in_simps [simp]:
  "getvar_in n [] = None"
  "getvar_in n (v # vs) = (if n = tris_var_name v then Some (tris_var_value v) else getvar_in n vs)"
  by (simp_all add: getvar_in_def)

lemma unique_names_Cons:
  "unique_names (v # vs) \<longleftrightarrow> (\<forall>u \<in> set vs. \<not> strcaseeq (tris_var_name v) (tris_var_name u)) \<and> unique_names vs"
  by (auto simp: unique_names_def strcaseeq_def)

lemma search_var_None: "search_var n vs = None \<longleftrightarrow> (\<forall>u \<in> set vs. \<not> strcaseeq (tris_var_name u) n)"
  by (induction vs) auto

lemma set_delete_var: "set (delete_var tail vs) \<subseteq> set vs"
  by (induction vs) auto

lemma search_var_cong: "strcaseeq a b \<Longrightarrow> search_var a vs = search_var b vs"
  by (induction vs) (auto simp: strcaseeq_def)

lemma search_delete_var:
  "unique_names vs \<Longrightarrow> search_var n (delete_var tail vs) = (if strcaseeq tail n then None else search_var n vs)"
proof (induction vs)
  case (Cons v vs)
  then show ?case using search_var_None [of n vs] by (auto simp: unique_names_Cons) (metis strcaseeq_sym strcaseeq_trans)+
qed simp

lemma unique_delete_var: "unique_names vs \<Longrightarrow> unique_names (delete_var tail vs)"
  by (induction vs) (use set_delete_var in \<open>fastforce simp: unique_names_Cons\<close>)+

lemma unique_getvar:
  "unique_names vs \<Longrightarrow> getvar_in n vs = (if \<exists>v \<in> set vs. tris_var_name v = n then search_var n vs else None)"
  by (induction vs) (auto simp: unique_names_Cons)

lemma getvar_delete_var:
  "unique_names vs \<Longrightarrow> getvar_in n (delete_var tail vs) = (if strcaseeq tail n then None else getvar_in n vs)"
proof (induction vs)
  case (Cons v vs)
  have "getvar_in n vs = None" if "strcaseeq (tris_var_name v) n"
    using Cons.prems that unique_getvar [of vs n] by (auto simp: unique_names_Cons)
  then show ?case using Cons by (auto simp: unique_names_Cons) (metis strcaseeq_sym strcaseeq_trans)+
qed simp

lemma gone_from_list: "unique_names vs \<Longrightarrow> u \<in> set (delete_var tail vs) \<Longrightarrow> \<not> strcaseeq tail (tris_var_name u)"
  using search_delete_var [of vs "tris_var_name u" tail] search_var_None [of "tris_var_name u" "delete_var tail vs"] by fastforce

text \<open>Setting a variable in a list without a repeated name keeps the names unique, in any case,
  and is an update of the map of names to values: the name, without the underscores in front of it, reads
  as the new value in whatever case it is looked up by the substitution, and is gone when the value is
  missing; every other name reads as before. \<open>pbx_builtin_getvar_helper\<close> finds it only by the very
  case it was set with.\<close>

theorem setvar_updates_map:
  assumes "unique_names vars" "pbx_builtin_setvar_helper alloc vars name x = Some vars'"
    and "last name \<noteq> CHR '')''"
  shows "unique_names vars' \<and>
    (\<forall>n. search_var n vars' = (if strcaseeq (nametail name) n then x else search_var n vars)) \<and>
    (\<forall>n. getvar_in n vars' = (if n = nametail name then x else if strcaseeq (nametail name) n then None else getvar_in n vars))"
proof (cases x)
  case None
  then have "vars' = delete_var (nametail name) vars"
    using assms by (auto simp: pbx_builtin_setvar_helper_def split: if_splits)
  then show ?thesis using None assms(1) by (simp add: search_delete_var getvar_delete_var unique_delete_var)
next
  case (Some y)
  then have v: "vars' = \<lparr>v_name = name, v_value = y\<rparr> # delete_var (nametail name) vars"
    using assms by (auto simp: pbx_builtin_setvar_helper_def tris_var_assign_def split: if_splits)
  then have "unique_names vars'"
    using assms(1) gone_from_list [OF assms(1)] by (simp add: unique_names_Cons unique_delete_var tris_var_name_nametail)
  then show ?thesis using v Some assms(1)
    by (simp add: search_delete_var getvar_delete_var tris_var_name_nametail tris_var_value_def)
qed

theorem setvar_updates_map_witness:
  "unique_names [\<lparr>v_name = ''_Foo'', v_value = ''1''\<rparr>, \<lparr>v_name = ''BAR'', v_value = ''2''\<rparr>] \<and>
   pbx_builtin_setvar_helper True [\<lparr>v_name = ''_Foo'', v_value = ''1''\<rparr>, \<lparr>v_name = ''BAR'', v_value = ''2''\<rparr>] ''__FOO'' (Some ''3'') =
     Some [\<lparr>v_name = ''__FOO'', v_value = ''3''\<rparr>, \<lparr>v_name = ''BAR'', v_value = ''2''\<rparr>] \<and>
   search_var ''foo'' [\<lparr>v_name = ''__FOO'', v_value = ''3''\<rparr>, \<lparr>v_name = ''BAR'', v_value = ''2''\<rparr>] = Some ''3''"
proof -
  have u: "unique_names [\<lparr>v_name = ''_Foo'', v_value = ''1''\<rparr>, \<lparr>v_name = ''BAR'', v_value = ''2''\<rparr>]" by code_simp
  have s: "pbx_builtin_setvar_helper True [\<lparr>v_name = ''_Foo'', v_value = ''1''\<rparr>, \<lparr>v_name = ''BAR'', v_value = ''2''\<rparr>] ''__FOO'' (Some ''3'') =
     Some [\<lparr>v_name = ''__FOO'', v_value = ''3''\<rparr>, \<lparr>v_name = ''BAR'', v_value = ''2''\<rparr>]" by code_simp
  have c: "strcaseeq (nametail ''__FOO'') ''foo''" by code_simp
  show ?thesis using setvar_updates_map [OF u s] u s c by simp
qed

section \<open>What is substituted\<close>

text \<open>Claim C6. A string of text, variables and expressions, nested to any depth, is replaced by the
  concatenation of the values of its parts from the inside out, whenever everything fits: each name or
  operand fits the variable buffer before and after its own substitution, and the result fits the output.
  Text inside a reference has none of the characters that delimit references; text outside has no dollar
  sign. The expression evaluator is assumed to give the same value in any buffer with room for it.\<close>

theorem substitute_template:
  assumes "\<And>v n. length (ev v) < n \<Longrightarrow> e_expr env v n = ev v"
    and "list_all (top_ok env ev) ps"
    and "length (concat (map (piece_value env ev) ps)) < room"
  shows "pbx_substitute_variables_helper_full env (concat (map render ps)) room =
    Some (concat (map (piece_value env ev) ps), length (concat (map (piece_value env ev) ps)))"
  using loop_top [OF assms] by (simp add: pbx_substitute_variables_helper_full_def)

text \<open>A channel with two variables, the second naming the first, and expressions that echo their operand.\<close>

definition echo_env :: var_env where
  "echo_env = \<lparr>e_chan = None, e_head = None,
     e_globals = [\<lparr>v_name = ''AB'', v_value = ''42''\<rparr>, \<lparr>v_name = ''X'', v_value = ''B''\<rparr>],
     e_epoch = 0, e_sysname = [], e_entity = [], e_functions = [], e_expr = (\<lambda>v n. take n v), e_bogus = True\<rparr>"

theorem substitute_template_witness:
  "pbx_substitute_variables_helper_full echo_env ''n=${A${X}:1}$[${ab}+1]'' 80 = Some (''n=242+1'', 7)"
proof -
  let ?ps = "[Txt ''n='', VarRef [Txt ''A'', VarRef [Txt ''X''], Txt '':1''], ExprRef [VarRef [Txt ''ab''], Txt ''+1'']]"
  have e: "length v < n \<Longrightarrow> e_expr echo_env v n = v" for v n by (simp add: echo_env_def)
  have v: "concat (map (piece_value echo_env (\<lambda>v. v)) ?ps) = ''n=242+1''" by code_simp
  have ok: "list_all (top_ok echo_env (\<lambda>v. v)) ?ps" by code_simp
  have r: "concat (map render ?ps) = ''n=${A${X}:1}$[${ab}+1]''" by simp
  show ?thesis using substitute_template [of "\<lambda>v. v" echo_env ?ps 80, OF e ok, unfolded v r] by simp
qed

text \<open>Claim C8. Preparing the data of an extension for its application never overruns the application's
  buffer, whatever the data, the variables and the functions are: the result, with its terminating zero,
  fits the length given, provided the expression evaluator keeps to the room it is given.\<close>

theorem substitute_bounded:
  assumes "\<And>v n. 0 < n \<Longrightarrow> length (e_expr env v n) \<le> n" "0 < datalen"
    and "pbx_substitute_variables env datalen data = Some res"
  shows "length res < datalen"
proof -
  let ?env = "case e_chan env of None \<Rightarrow> env\<lparr>e_head := None\<rparr> | Some c \<Rightarrow> env\<lparr>e_head := Some (ch_vars c)\<rparr>"
  have e: "length (e_expr ?env v n) \<le> n" if "0 < n" for v n using assms(1) that by (simp split: option.split)
  have "length out \<le> datalen - 1" if "substitute_loop ?env (datalen - 1) d [] = Some out" for d out
    using substitute_loop_bounded [OF e that] by simp
  then show ?thesis using assms(2,3)
    by (fastforce simp: pbx_substitute_variables_def pbx_substitute_variables_helper_def pbx_substitute_variables_helper_full_def
        split: option.splits if_splits)
qed

theorem substitute_bounded_witness:
  "pbx_substitute_variables echo_env 6 (Some ''n=${A${X}}$[7]xyz'') = Some ''n=427'' \<and> length ''n=427'' < 6"
proof -
  have e: "length (e_expr echo_env v n) \<le> n" for v n by (simp add: echo_env_def)
  have r: "pbx_substitute_variables echo_env 6 (Some ''n=${A${X}}$[7]xyz'') = Some ''n=427''" by code_simp
  show ?thesis using substitute_bounded [OF e _ r] r by simp
qed

lemma split_name_plain:
  "CHR ''('' \<notin> set s \<Longrightarrow> CHR '':'' \<notin> set s \<Longrightarrow> split_name k s = (s, 0, None)"
  by (induction s arbitrary: k) auto

lemma plain_name:
  "CHR ''('' \<notin> set s \<Longrightarrow> CHR '':'' \<notin> set s \<Longrightarrow>
   parse_variable_name s = \<lparr>n_var = s, n_offset = 0, n_length = INT_MAX, n_isfunc = 0, n_found = False\<rparr>"
  by (simp add: parse_variable_name_def split_name_plain)

lemma predefined_ch_vars: "predefined (c\<lparr>ch_vars := vs\<rparr>) var = predefined c var"
  by (simp add: predefined_def)

lemma system_variable_ch_vars:
  "system_variable (env\<lparr>e_chan := c, e_head := h\<rparr>) var = system_variable env var"
  by (simp add: system_variable_def)

lemma substring_all: "length x < 4096 \<Longrightarrow> substring x 0 INT_MAX 4096 = x"
  by (simp add: substring_def INT_MAX_def)

definition some_chan :: chan_info where
  "some_chan = \<lparr>ch_pres = 0, ch_ani2 = 0, ch_ton = 0, ch_tns = 0, ch_hint = None, ch_hintname = None, ch_exten = ''s'',
     ch_context = ''default'', ch_priority = 1, ch_name = ''SIP/1'', ch_uniqueid = ''1.0'', ch_hangupcause = 0, ch_vars = []\<rparr>"

text \<open>Claim C7. A variable set on a channel is what its name is replaced by in the data of an extension:
  after \<open>pbx_builtin_setvar_helper\<close> with a value that fits the variable buffer, a reference to the name, in
  any case and without the leading underscores, yields that value cut to the room of the output. The name
  must have no delimiter in it and must not be one of the predefined variables.\<close>

theorem set_variable_substituted:
  assumes "e_chan env = Some c" "pbx_builtin_setvar_helper alloc (ch_vars c) name (Some x) = Some vars"
    and "last name \<noteq> CHR '')''" "strcaseeq (nametail name) var"
    and "plain var" "CHR ''('' \<notin> set var" "CHR '':'' \<notin> set var" "length var < VAR_BUF_SIZE - 1"
    and "predefined c var = None" "system_variable env var = None"
    and "length x < VAR_BUF_SIZE" "0 < room"
  shows "pbx_substitute_variables_helper (env\<lparr>e_chan := Some (c\<lparr>ch_vars := vars\<rparr>)\<rparr>) (''${'' @ var @ ''}'') room = Some (take room x)"
proof -
  let ?env = "env\<lparr>e_chan := Some (c\<lparr>ch_vars := vars\<rparr>), e_head := Some vars\<rparr>"
  have "search_var var vars = Some x"
    using assms(2,3,4) by (auto simp: pbx_builtin_setvar_helper_def tris_var_assign_def tris_var_name_nametail tris_var_value_def
        split: if_splits)
  then have listed: "listed_variable ?env var = Some x" by (simp add: listed_variable_def)
  have none: "system_variable ?env var = None" "predefined (c\<lparr>ch_vars := vars\<rparr>) var = None"
    using assms(9,10) by (simp_all only: predefined_ch_vars system_variable_ch_vars)
  have fits: "length x \<le> VAR_BUF_SIZE - Suc 0" "substring x 0 INT_MAX VAR_BUF_SIZE = x"
    using assms(11) by (simp_all add: VAR_BUF_SIZE_def substring_all)
  have "pbx_retrieve_variable ?env var = Some x"
    unfolding pbx_retrieve_variable_def plain_name [OF assms(6,7)] by (simp add: none listed fits Let_def)
  then have "variable_value ?env var = Some (Some x)"
    unfolding variable_value_def plain_name [OF assms(6,7)] by (simp add: fits Let_def)
  then show ?thesis
    using assms(5,8,12) loop_var [of ?env "\<lambda>v. v" "[Txt var]" room "Some x" "[]" "[]"]
    by (simp add: pbx_substitute_variables_helper_def pbx_substitute_variables_helper_full_def operand_fits_def VAR_BUF_SIZE_def)
qed

theorem set_variable_substituted_witness:
  "pbx_builtin_setvar_helper True [] ''__FOO'' (Some ''hello'') = Some [\<lparr>v_name = ''__FOO'', v_value = ''hello''\<rparr>] \<and>
   pbx_substitute_variables_helper (echo_env\<lparr>e_chan := Some (some_chan\<lparr>ch_vars := [\<lparr>v_name = ''__FOO'', v_value = ''hello''\<rparr>]\<rparr>)\<rparr>) ''${Foo}'' 4 = Some ''hell''"
proof -
  have s: "pbx_builtin_setvar_helper True (ch_vars some_chan) ''__FOO'' (Some ''hello'') = Some [\<lparr>v_name = ''__FOO'', v_value = ''hello''\<rparr>]"
    by code_simp
  have c: "strcaseeq (nametail ''__FOO'') ''Foo''" "plain ''Foo''" "predefined some_chan ''Foo'' = None"
    "system_variable (echo_env\<lparr>e_chan := Some some_chan\<rparr>) ''Foo'' = None" by code_simp+
  show ?thesis
    using set_variable_substituted [OF _ s _ c(1) c(2) _ _ _ c(3) c(4), of 4] s by (simp add: some_chan_def VAR_BUF_SIZE_def)
qed

end
