(* ===== verification/AppArgs.thy ===== *)
theory AppArgs
  imports CString
begin

text \<open>
  The arguments of applications, \<open>main/app.c\<close>: cutting a string of arguments at a delimiter, and option
  letters with their flags and arguments.

  The arguments are cut in place in the code; here each is the string that its pointer is left with.
  \<open>None\<close> is an access outside the string or the array.
\<close>

section \<open>Arguments\<close>

text \<open>One argument: what is left of it when quotes and backslashes are removed, the rest of the string,
  whether the last character passed was a delimiter (\<open>at\<close>; a quote that is removed is not passed), and the
  open parentheses and quotes. A backslash at the very end is skipped together with the terminating zero
  when it is not removed.\<close>

fun scan_arg :: "char \<Rightarrow> bool \<Rightarrow> nat \<Rightarrow> bool \<Rightarrow> bool \<Rightarrow> string \<Rightarrow> (string \<times> string \<times> bool \<times> nat \<times> bool) option" where
  "scan_arg delim rm paren quote at [] = Some ([], [], at, paren, quote)"
| "scan_arg delim rm paren quote at (c # cs) =
     (if c = CHR ''('' then map_option (apfst (Cons c)) (scan_arg delim rm (paren + 1) quote False cs)
      else if c = CHR '')'' then map_option (apfst (Cons c)) (scan_arg delim rm (paren - 1) quote False cs)
      else if c = CHR 0x22 \<and> delim \<noteq> CHR 0x22
      then (if rm then scan_arg delim rm paren (\<not> quote) at cs
            else map_option (apfst (Cons c)) (scan_arg delim rm paren (\<not> quote) False cs))
      else if c = CHR 0x5C
      then (case cs of
              [] \<Rightarrow> if rm then Some ([], [], False, paren, quote) else None
            | d # ds \<Rightarrow>
                map_option (apfst (\<lambda>r. if rm then d # r else c # d # r)) (scan_arg delim rm paren quote False ds))
      else if c = delim \<and> paren = 0 \<and> \<not> quote then Some ([], cs, True, paren, quote)
      else map_option (apfst (Cons c)) (scan_arg delim rm paren quote False cs))"

text \<open>The loop over the array, with the room that is left before its last place. What is left of the
  string then goes there as it is.\<close>

fun separate_loop :: "char \<Rightarrow> bool \<Rightarrow> nat \<Rightarrow> nat \<Rightarrow> bool \<Rightarrow> bool \<Rightarrow> string \<Rightarrow> string list option" where
  "separate_loop delim rm 0 paren quote at s = Some (if s \<noteq> [] \<or> at then [s] else [])"
| "separate_loop delim rm (Suc n) paren quote at s =
     (if s = [] then Some (if at then [[]] else [])
      else (case scan_arg delim rm paren quote at s of
              None \<Rightarrow> None
            | Some (arg, rest, at, paren, quote) \<Rightarrow>
                map_option (Cons arg) (separate_loop delim rm n paren quote at rest)))"

definition app_separate_args :: "string option \<Rightarrow> char \<Rightarrow> bool \<Rightarrow> nat \<Rightarrow> string list option" where
  "app_separate_args buf delim remove_chars arraylen =
     (case buf of
        None \<Rightarrow> Some []
      | Some s \<Rightarrow> if arraylen = 0 then Some [] else separate_loop delim remove_chars (arraylen - 1) 0 False False s)"

definition tris_app_separate_args :: "string option \<Rightarrow> char \<Rightarrow> nat \<Rightarrow> string list option" where
  "tris_app_separate_args buf delim arraylen = app_separate_args buf delim True arraylen"

section \<open>Options\<close>

record app_option =
  opt_flag :: "64 word"
  opt_arg_index :: nat

text \<open>An argument of an option goes to its place in the array of the caller, if the option has one.\<close>

definition put_arg :: "nat \<Rightarrow> string option \<Rightarrow> string option list \<Rightarrow> string option list option" where
  "put_arg argloc arg args =
     (if argloc = 0 then Some args
      else if argloc - 1 < length args then Some (args[argloc - 1 := arg])
      else None)"

function parse_options :: "(nat \<Rightarrow> app_option) \<Rightarrow> u32 \<Rightarrow> string option list \<Rightarrow> string \<Rightarrow> (int \<times> u32 \<times> string option list) option" where
  "parse_options options flags args [] = Some (0, flags, args)"
| "parse_options options flags args (c # s) =
     (let opt = options (code_of c mod 128); flags' = flags OR ucast (opt_flag opt)
      in if take 1 s = ''(''
         then (case cut_at CHR '')'' (tl s) of
                 None \<Rightarrow> Some (- 1, flags, args)
               | Some (arg, rest) \<Rightarrow>
                   Option.bind (put_arg (opt_arg_index opt) (Some arg) args) (\<lambda>args. parse_options options flags' args rest))
         else Option.bind (put_arg (opt_arg_index opt) (Some []) args) (\<lambda>args. parse_options options flags' args s))"
  by pat_completeness auto
termination
  by (relation "measure (\<lambda>(options, flags, args, s). length s)") (fastforce dest!: cut_at_length)+

function parse_options64 :: "(nat \<Rightarrow> app_option) \<Rightarrow> 64 word \<Rightarrow> string option list \<Rightarrow> string \<Rightarrow> (int \<times> 64 word \<times> string option list) option" where
  "parse_options64 options flags args [] = Some (0, flags, args)"
| "parse_options64 options flags args (c # s) =
     (let opt = options (code_of c mod 128); flags = flags OR opt_flag opt
      in if take 1 s = ''(''
         then (case cut_at CHR '')'' (tl s) of
                 None \<Rightarrow> Some (- 1, flags, args)
               | Some (arg, rest) \<Rightarrow>
                   Option.bind (put_arg (opt_arg_index opt) (Some arg) args) (\<lambda>args. parse_options64 options flags args rest))
         else Option.bind (put_arg (opt_arg_index opt) None args) (\<lambda>args. parse_options64 options flags args s))"
  by pat_completeness auto
termination
  by (relation "measure (\<lambda>(options, flags, args, s). length s)") (fastforce dest!: cut_at_length)+

definition tris_app_parse_options :: "(nat \<Rightarrow> app_option) \<Rightarrow> string option list \<Rightarrow> string option \<Rightarrow> (int \<times> u32 \<times> string option list) option" where
  "tris_app_parse_options options args optstr =
     (case optstr of None \<Rightarrow> Some (0, 0, args) | Some s \<Rightarrow> parse_options options 0 args s)"

definition tris_app_parse_options64 :: "(nat \<Rightarrow> app_option) \<Rightarrow> string option list \<Rightarrow> string option \<Rightarrow> (int \<times> 64 word \<times> string option list) option" where
  "tris_app_parse_options64 options args optstr =
     (case optstr of None \<Rightarrow> Some (0, 0, args) | Some s \<Rightarrow> parse_options64 options 0 args s)"

text \<open>The letters of the options whose flags are set. The terminating zero has no room behind as many
  letters as the buffer has bytes.\<close>

definition tris_app_options2str64 :: "(nat \<Rightarrow> app_option) \<Rightarrow> 64 word \<Rightarrow> nat \<Rightarrow> string option" where
  "tris_app_options2str64 options flags len =
     (let found = take len (filter (\<lambda>i. flags AND opt_flag (options i) \<noteq> 0) [32..<128])
      in if length found < len then Some (map char_of found) else None)"

section \<open>Arguments that were joined are cut where they were joined\<close>

definition protect :: "char \<Rightarrow> string \<Rightarrow> string" where
  "protect delim arg =
     concat (map (\<lambda>c. if c = delim \<or> c \<in> {CHR ''('', CHR '')'', CHR 0x22, CHR 0x5C} then [CHR 0x5C, c] else [c]) arg)"

fun joined :: "char \<Rightarrow> string list \<Rightarrow> string" where
  "joined delim [] = []"
| "joined delim [a] = protect delim a"
| "joined delim (a # b # as) = protect delim a @ delim # joined delim (b # as)"

lemma protect_simps [simp]:
  "protect delim [] = []"
  "protect delim (c # cs) = (if c = delim \<or> c \<in> {CHR ''('', CHR '')'', CHR 0x22, CHR 0x5C} then [CHR 0x5C, c] else [c]) @ protect delim cs"
  by (simp_all add: protect_def)

lemma scan_protected_delim:
  "delim \<notin> {CHR ''('', CHR '')'', CHR 0x5C} \<Longrightarrow>
   scan_arg delim True 0 False at (protect delim a @ delim # r) = Some (a, r, True, 0, False)"
  by (induction a arbitrary: at) auto

lemma scan_protected_end:
  "delim \<notin> {CHR ''('', CHR '')'', CHR 0x5C} \<Longrightarrow>
   scan_arg delim True 0 False at (protect delim a) = Some (a, [], at \<and> a = [], 0, False)"
  by (induction a arbitrary: at) auto

lemma protect_Nil: "protect delim a = [] \<longleftrightarrow> a = []"
  by (cases a) auto

lemma separate_loop_joined:
  "delim \<notin> {CHR ''('', CHR '')'', CHR 0x5C} \<Longrightarrow> as \<noteq> [] \<Longrightarrow> length as \<le> n \<Longrightarrow> at \<or> as \<noteq> [[]] \<Longrightarrow>
   separate_loop delim True n 0 False at (joined delim as) = Some as"
proof (induction delim as arbitrary: n at rule: joined.induct)
  case (2 delim a)
  then obtain m where "n = Suc m" by (cases n) auto
  then show ?case using 2 by (cases m) (auto simp: scan_protected_end protect_Nil)
next
  case (3 delim a b as)
  then obtain m where "n = Suc m" by (cases n) auto
  then show ?case using 3 by (auto simp: scan_protected_delim)
qed simp

lemma joined_single: "length as = 1 \<Longrightarrow> joined delim as = protect delim (hd as)"
  by (cases as) auto

text \<open>Claim C9. Arguments of any characters, each with a backslash before its parentheses, quotes,
  backslashes and delimiters, and joined by the delimiter, are cut into exactly these arguments, as long as
  the array has a place more than there are arguments. The one list that cannot be written is that of a
  single empty argument.\<close>

theorem separate_args_joined:
  assumes "delim \<notin> {CHR ''('', CHR '')'', CHR 0x5C}" "as \<noteq> []" "as \<noteq> [[]]" "length as < arraylen"
  shows "tris_app_separate_args (Some (joined delim as)) delim arraylen = Some as"
  using assms separate_loop_joined [of delim as "arraylen - 1" False]
  by (simp add: tris_app_separate_args_def app_separate_args_def)

theorem separate_args_joined_witness:
  "tris_app_separate_args (Some (''Zap/1,'' @ [CHR 0x5C, CHR 0x22] @ ''30,'')) CHR '','' 4 = Some [''Zap/1'', CHR 0x22 # ''30'', []]"
  using separate_args_joined [of "CHR '',''" "[''Zap/1'', CHR 0x22 # ''30'', []]" 4] by simp

text \<open>An empty argument in quotes at the end of the string is counted twice, because after the quotes are
  removed the scan is still right behind the delimiter; and a backslash at the end is passed with the
  terminating zero when backslashes are kept.\<close>

lemma quoted_empty_counted_twice:
  "tris_app_separate_args (Some [CHR ''a'', CHR '','', CHR 0x22, CHR 0x22]) CHR '','' 5 = Some [''a'', [], []]"
  by (simp add: tris_app_separate_args_def app_separate_args_def numeral_eq_Suc)

lemma raw_backslash_runs_past_end:
  "app_separate_args (Some [CHR ''a'', CHR 0x5C]) CHR '','' False 5 = None"
  by (simp add: app_separate_args_def numeral_eq_Suc)

lemma separate_loop_length:
  "separate_loop delim rm n paren quote at s = Some as \<Longrightarrow> length as \<le> Suc n"
  by (induction n arbitrary: paren quote at s as) (fastforce split: if_splits option.splits)+

text \<open>Option letters, each with or without an argument.\<close>

definition write_option :: "char \<times> string option \<Rightarrow> string" where
  "write_option i = fst i # (case snd i of None \<Rightarrow> [] | Some a \<Rightarrow> ''('' @ a @ '')'')"

lemma write_option_simps [simp]:
  "write_option (c, None) = [c]"
  "write_option (c, Some a) = c # CHR ''('' # a @ '')''"
  by (simp_all add: write_option_def)

lemma parse_options64_items:
  assumes "\<And>c a. (c, a) \<in> set items \<Longrightarrow> c \<noteq> CHR ''('' \<and> opt_arg_index (options (code_of c mod 128)) \<le> length args
      \<and> (\<forall>x. a = Some x \<longrightarrow> CHR '')'' \<notin> set x)"
  shows "parse_options64 options flags args (concat (map write_option items)) =
    Some (0, foldl (\<lambda>f (c, a). f OR opt_flag (options (code_of c mod 128))) flags items,
      foldl (\<lambda>as (c, a). let l = opt_arg_index (options (code_of c mod 128)) in if l = 0 then as else as[l - 1 := a]) args items)"
  using assms
proof (induction items arbitrary: flags args)
  case (Cons i items)
  obtain c a where i: "i = (c, a)" by (cases i)
  have no_paren: "take 1 (concat (map write_option items)) \<noteq> ''(''"
    using Cons.prems [of "fst (hd items)" "snd (hd items)"] by (cases items) (auto simp: write_option_def)
  have put: "put_arg (opt_arg_index (options (code_of c mod 128))) a args =
      Some (let l = opt_arg_index (options (code_of c mod 128)) in if l = 0 then args else args[l - 1 := a])"
    using Cons.prems [of c a] i by (auto simp: put_arg_def Let_def)
  have next_args: "d \<noteq> CHR ''('' \<and>
      opt_arg_index (options (code_of d mod 128)) \<le>
        length (let l = opt_arg_index (options (code_of c mod 128)) in if l = 0 then args else args[l - 1 := a]) \<and>
      (\<forall>x. b = Some x \<longrightarrow> CHR '')'' \<notin> set x)" if "(d, b) \<in> set items" for d b
    using Cons.prems [of d b] that by (simp add: Let_def)
  show ?case
  proof (cases a)
    case None
    then show ?thesis using no_paren put None Cons.IH [OF next_args] i by (simp add: Let_def)
  next
    case (Some x)
    then have "CHR '')'' \<notin> set x" using Cons.prems i by auto
    then show ?thesis using put Some Cons.IH [OF next_args] i by (simp add: Let_def cut_at_first)
  qed
qed simp

end
