(* ===== verification/TextCodec.thy ===== *)
theory TextCodec
  imports CString
begin

text \<open>
  Text in \<open>main/utils.c\<close> and \<open>strings.h\<close>: base 64, the escapes of URIs, stripping, unescaping, quotes, and
  words. Bytes are words of 8 bits, characters those of a signed \<open>char\<close>. \<open>None\<close> is an access outside a
  buffer or a table.
\<close>

section \<open>Base 64\<close>

text \<open>The tables of \<open>base64_init\<close>; \<open>b2a\<close> is indexed by a signed character.\<close>

definition base64 :: string where
  "base64 = map char_of ([65..<91] @ [97..<123] @ [48..<58 :: nat]) @ ''+/''"

definition b2a :: "char \<Rightarrow> int" where
  "b2a c =
     (if isupper c then int (code_of c) - 65
      else if islower c then int (code_of c) - 97 + 26
      else if isdigit c then int (code_of c) - 48 + 52
      else if c = CHR ''+'' then 62
      else if c = CHR ''/'' then 63
      else - 1)"

text \<open>Decoding: the register and the number of bits in it, and the bytes written so far.\<close>

fun base64_decode_loop :: "int \<Rightarrow> u32 \<Rightarrow> nat \<Rightarrow> int \<Rightarrow> string \<Rightarrow> u8 list option" where
  "base64_decode_loop room byte bits cnt [] = Some []"
| "base64_decode_loop room byte bits cnt (c # cs) =
     (if c = CHR ''='' \<or> \<not> cnt < room then Some []
      else if 128 \<le> code_of c then None
      else
        (let byte = push_bit 6 byte OR (word_of_int (b2a c) AND 0x3f); bits = bits + 6
         in if 8 \<le> bits
            then map_option (Cons (ucast (drop_bit (bits - 8) byte AND 0xff)))
                   (base64_decode_loop room byte (bits - 8) (cnt + 1) cs)
            else base64_decode_loop room byte bits cnt cs))"

definition tris_base64decode :: "string \<Rightarrow> int \<Rightarrow> u8 list option" where
  "tris_base64decode src room = base64_decode_loop room 0 0 0 src"

record b64_state =
  b_out :: string
  b_col :: int
  b_byte :: u32
  b_bits :: nat

definition b64_digit :: "nat \<Rightarrow> u32 \<Rightarrow> char" where
  "b64_digit n byte = base64 ! unat (drop_bit n byte AND 0x3f)"

definition b_cnt :: "b64_state \<Rightarrow> int" where
  "b_cnt st = int (length (b_out st))"

definition base64_encode_step :: "bool \<Rightarrow> int \<Rightarrow> u8 \<Rightarrow> b64_state \<Rightarrow> b64_state" where
  "base64_encode_step linebreaks room x st =
     (let byte = push_bit 8 (b_byte st) OR ucast x; bits = b_bits st + 8;
          st = (if bits = 24 \<and> b_cnt st + 4 \<le> room
                then \<lparr>b_out = b_out st @ [b64_digit 18 byte, b64_digit 12 byte, b64_digit 6 byte, b64_digit 0 byte],
                      b_col = b_col st + 4, b_byte = 0, b_bits = 0\<rparr>
                else st\<lparr>b_byte := byte, b_bits := bits\<rparr>)
      in if linebreaks \<and> b_cnt st < room \<and> b_col st = 64
         then st\<lparr>b_out := b_out st @ [CHR 0x0A], b_col := 0\<rparr> else st)"

fun base64_encode_loop :: "bool \<Rightarrow> int \<Rightarrow> u8 list \<Rightarrow> b64_state \<Rightarrow> b64_state" where
  "base64_encode_loop linebreaks room [] st = st"
| "base64_encode_loop linebreaks room (x # xs) st =
     (if b_cnt st < room then base64_encode_loop linebreaks room xs (base64_encode_step linebreaks room x st) else st)"

text \<open>The bytes that are left over are padded.\<close>

definition base64_encode_rest :: "int \<Rightarrow> b64_state \<Rightarrow> string" where
  "base64_encode_rest room st =
     (let byte = push_bit (24 - b_bits st) (b_byte st)
      in if b_bits st \<noteq> 0 \<and> b_cnt st + 4 \<le> room
         then b_out st @ [b64_digit 18 byte, b64_digit 12 byte, if b_bits st = 16 then b64_digit 6 byte else CHR ''='', CHR ''='']
         else b_out st)"

text \<open>One byte of the buffer is kept for the terminating zero; without room for it the zero is written all
  the same.\<close>

definition tris_base64encode_full :: "u8 list \<Rightarrow> int \<Rightarrow> bool \<Rightarrow> string option" where
  "tris_base64encode_full src len linebreaks =
     (if len \<le> 0 then None
      else
        (let room = len - 1;
             st = base64_encode_loop linebreaks room src \<lparr>b_out = [], b_col = 0, b_byte = 0, b_bits = 0\<rparr>;
             out = base64_encode_rest room st
         in Some (out @ (if linebreaks \<and> int (length out) < room then [CHR 0x0A] else []))))"

definition tris_base64encode :: "u8 list \<Rightarrow> int \<Rightarrow> string option" where
  "tris_base64encode src len = tris_base64encode_full src len False"

section \<open>URIs\<close>

definition hex_digit :: "nat \<Rightarrow> char" where
  "hex_digit n = ''0123456789abcdef'' ! n"

text \<open>A character is signed, so that those from 128 on are below 32, too.\<close>

definition uri_escaped :: "bool \<Rightarrow> char \<Rightarrow> bool" where
  "uri_escaped doreserved c \<longleftrightarrow>
     code_of c < 32 \<or> 128 \<le> code_of c \<or> doreserved \<and> c \<in> set '';/?:@&=+$,# ''"

definition uri_char :: "bool \<Rightarrow> char \<Rightarrow> string" where
  "uri_char doreserved c =
     (if uri_escaped doreserved c
      then [CHR ''%'', hex_digit (code_of c div 16), hex_digit (code_of c mod 16)] else [c])"

text \<open>The copy is cut to the buffer, the expansion is not.\<close>

definition tris_uri_encode :: "string \<Rightarrow> nat \<Rightarrow> bool \<Rightarrow> string option" where
  "tris_uri_encode s buflen doreserved =
     (if buflen = 0 then None
      else if list_ex (uri_escaped doreserved) s
      then (let out = concat (map (uri_char doreserved) s) in if length out < buflen then Some out else None)
      else Some (take (buflen - 1) s))"

text \<open>\<open>sscanf(s, "%2x", tmp)\<close>: blanks are skipped and a sign takes a place.\<close>

definition scan_2x :: "string \<Rightarrow> int option" where
  "scan_2x s =
     (let s = dropWhile isspace s;
          neg = take 1 s = ''-'';
          signed = neg \<or> take 1 s = ''+'';
          ds = takeWhile (base_digit 16) (take (if signed then 1 else 2) (if signed then tl s else s))
      in if ds = [] then None else Some (if neg then - base_val 16 ds else base_val 16 ds))"

fun uri_decode_loop :: "string \<Rightarrow> string" where
  "uri_decode_loop [] = []"
| "uri_decode_loop [c] = [c]"
| "uri_decode_loop [c, d] = [c, d]"
| "uri_decode_loop (c # d # e # s) =
     (case (if c = CHR ''%'' then scan_2x (d # e # s) else None) of
        Some v \<Rightarrow> char_of (nat (v mod 256)) # uri_decode_loop s
      | None \<Rightarrow> c # uri_decode_loop (d # e # s))"

text \<open>What is read of the result ends at the first zero that was decoded.\<close>

definition tris_uri_decode :: "string \<Rightarrow> string" where
  "tris_uri_decode s = takeWhile (\<lambda>c. code_of c \<noteq> 0) (uri_decode_loop s)"

section \<open>Blanks, quotes and escapes\<close>

definition tris_skip_blanks :: "string \<Rightarrow> string" where
  "tris_skip_blanks s = dropWhile (\<lambda>c. code_of c < 33) s"

definition tris_skip_nonblanks :: "string \<Rightarrow> string" where
  "tris_skip_nonblanks s = dropWhile (\<lambda>c. 32 < code_of c) s"

definition tris_trim_blanks :: "string \<Rightarrow> string" where
  "tris_trim_blanks s = rev (dropWhile (\<lambda>c. code_of c < 33) (rev s))"

definition tris_strip :: "string \<Rightarrow> string" where
  "tris_strip s = tris_trim_blanks (tris_skip_blanks s)"

text \<open>The first character is looked up among the opening quotes, the last one compared with the closing
  quote of its place.\<close>

fun closing_quote :: "char \<Rightarrow> string \<Rightarrow> string \<Rightarrow> char option" where
  "closing_quote c (b # bs) (e # es) = (if c = b then Some e else closing_quote c bs es)"
| "closing_quote c _ _ = None"

definition tris_strip_quoted :: "string \<Rightarrow> string \<Rightarrow> string \<Rightarrow> string" where
  "tris_strip_quoted s beg_quotes end_quotes =
     (case tris_strip s of
        [] \<Rightarrow> []
      | c # cs \<Rightarrow>
          (case closing_quote c beg_quotes end_quotes of
             Some e \<Rightarrow> if last (c # cs) = e then butlast cs else c # cs
           | None \<Rightarrow> c # cs))"

function tris_unescape_semicolon :: "string \<Rightarrow> string" where
  "tris_unescape_semicolon s =
     (case cut_at CHR '';'' s of
        None \<Rightarrow> s
      | Some (pre, rest) \<Rightarrow>
          (if pre \<noteq> [] \<and> last pre = CHR 0x5C then butlast pre else pre) @ CHR '';'' # tris_unescape_semicolon rest)"
  by pat_completeness auto

termination
  by (relation "measure length") (auto dest!: cut_at_length)

declare tris_unescape_semicolon.simps [simp del]

definition unescaped :: "char \<Rightarrow> char" where
  "unescaped c =
     (if c = CHR ''b'' then CHR 0x08
      else if c = CHR ''f'' then CHR 0x0C
      else if c = CHR ''n'' then CHR 0x0A
      else if c = CHR ''r'' then CHR 0x0D
      else if c = CHR ''t'' then CHR 0x09
      else c)"

text \<open>A backslash at the end is kept, but then the character behind the terminating zero is read next.\<close>

fun unescape_loop :: "string \<Rightarrow> string option" where
  "unescape_loop [] = Some []"
| "unescape_loop [c] = (if c = CHR 0x5C then None else Some [c])"
| "unescape_loop (c # d # s) =
     (if c = CHR 0x5C then map_option (Cons (unescaped d)) (unescape_loop s)
      else map_option (Cons c) (unescape_loop (d # s)))"

definition tris_unescape_c :: "string option \<Rightarrow> string option option" where
  "tris_unescape_c src = (case src of None \<Rightarrow> Some None | Some s \<Rightarrow> map_option Some (unescape_loop s))"

fun quotes_loop :: "char \<Rightarrow> char \<Rightarrow> bool \<Rightarrow> bool \<Rightarrow> string \<Rightarrow> string" where
  "quotes_loop old replace_with in_escape in_quotes [] = []"
| "quotes_loop old replace_with in_escape in_quotes (c # cs) =
     (if in_escape then c # quotes_loop old replace_with False in_quotes cs
      else if c = CHR 0x5C then quotes_loop old replace_with True in_quotes cs
      else if c = CHR 0x27 then quotes_loop old replace_with in_escape (\<not> in_quotes) cs
      else (if in_quotes then c else if c = old then replace_with else c)
             # quotes_loop old replace_with in_escape in_quotes cs)"

definition tris_process_quotes_and_slashes :: "string \<Rightarrow> char \<Rightarrow> char \<Rightarrow> string" where
  "tris_process_quotes_and_slashes start old replace_with = quotes_loop old replace_with False False start"

section \<open>Words\<close>

text \<open>Words joined by blanks in a buffer: the characters as long as there is room, and the last of a full
  buffer gives way to the terminating zero. Without a buffer the zero is written before it.\<close>

fun join_loop :: "nat \<Rightarrow> bool \<Rightarrow> string list \<Rightarrow> string \<Rightarrow> string" where
  "join_loop len first [] out = out"
| "join_loop len first (w # ws) out =
     (if length out < len
      then (let out = (if first then out else out @ '' ''); out = out @ take (len - length out) w
            in join_loop len False ws out)
      else out)"

definition tris_join :: "nat \<Rightarrow> string list \<Rightarrow> string option" where
  "tris_join len w =
     (let out = join_loop len True w [] in if len = 0 then None else Some (if length out = len then butlast out else out))"

definition is_word :: "string list \<Rightarrow> string option \<Rightarrow> int" where
  "is_word ws s = (case s of None \<Rightarrow> 0 | Some x \<Rightarrow> if x \<noteq> [] \<and> list_ex (\<lambda>w. strcaseeq x w) ws then - 1 else 0)"

definition tris_true :: "string option \<Rightarrow> int" where
  "tris_true = is_word [''yes'', ''true'', ''y'', ''t'', ''1'', ''on'']"

definition tris_false :: "string option \<Rightarrow> int" where
  "tris_false = is_word [''no'', ''false'', ''n'', ''f'', ''0'', ''off'']"

section \<open>Base 64 is read back\<close>

fun base64_text :: "u8 list \<Rightarrow> string" where
  "base64_text [] = []"
| "base64_text [x] = (let byte = push_bit 16 (ucast x) in [b64_digit 18 byte, b64_digit 12 byte, CHR ''='', CHR ''=''])"
| "base64_text [x, y] =
     (let byte = push_bit 8 (push_bit 8 (ucast x) OR ucast y) in [b64_digit 18 byte, b64_digit 12 byte, b64_digit 6 byte, CHR ''=''])"
| "base64_text (x # y # z # xs) =
     (let byte = push_bit 8 (push_bit 8 (ucast x) OR ucast y) OR ucast z
      in [b64_digit 18 byte, b64_digit 12 byte, b64_digit 6 byte, b64_digit 0 byte] @ base64_text xs)"

lemma length_base64_text: "length (base64_text xs) = 4 * ((length xs + 2) div 3)"
proof (induction xs rule: base64_text.induct)
  case (4 x y z xs)
  have "(5 + n) div 3 = Suc ((2 + n) div 3)" for n :: nat by presburger
  then show ?case using 4 by (simp add: Let_def add.commute)
qed (simp_all add: Let_def)

lemma sextet: "unat (w AND 0x3f :: u32) < 64"
proof -
  have "w AND 0x3f \<le> 0x3f" by (rule word_and_le1)
  then show ?thesis by (simp add: word_le_nat_alt)
qed

lemma base64_eq: "base64 = ''ABCDEFGHIJKLMNOPQRSTUVWXYZabcdefghijklmnopqrstuvwxyz0123456789+/''"
  by code_simp

lemma base64_inverse:
  assumes "n < 64"
  shows "b2a (base64 ! n) = int n \<and> code_of (base64 ! n) < 128 \<and> base64 ! n \<noteq> CHR ''=''"
proof -
  have "list_all2 (\<lambda>n c. b2a c = int n \<and> code_of c < 128 \<and> c \<noteq> CHR ''='') [0..<64]
      ''ABCDEFGHIJKLMNOPQRSTUVWXYZabcdefghijklmnopqrstuvwxyz0123456789+/''" by code_simp
  from list_all2_nthD [OF this, of n] assms show ?thesis unfolding base64_eq by simp
qed

lemma b64_digit_facts:
  "code_of (b64_digit n w) < 128" "b64_digit n w \<noteq> CHR ''=''"
  "word_of_int (b2a (b64_digit n w)) AND 0x3f = drop_bit n w AND 0x3f"
  using base64_inverse [OF sextet [of "drop_bit n w"]] by (simp_all add: b64_digit_def and.assoc)

text \<open>A digit shifted into the register, and the byte taken off its top.\<close>

definition shift_in :: "nat \<Rightarrow> u32 \<Rightarrow> u32 \<Rightarrow> u32" where
  "shift_in n w byte = push_bit 6 byte OR (drop_bit n w AND 0x3f)"

definition top_byte :: "nat \<Rightarrow> u32 \<Rightarrow> u8" where
  "top_byte bits byte = ucast (drop_bit bits byte AND 0xff)"

lemma decode_digit:
  assumes "cnt < room"
  shows "base64_decode_loop room byte bits cnt (b64_digit n w # cs) =
    (if 2 \<le> bits
     then map_option (Cons (top_byte (bits - 2) (shift_in n w byte)))
       (base64_decode_loop room (shift_in n w byte) (bits - 2) (cnt + 1) cs)
     else base64_decode_loop room (shift_in n w byte) (bits + 6) cnt cs)"
  using assms b64_digit_facts [of n w] by (simp add: Let_def shift_in_def top_byte_def)

lemma decode_pad: "base64_decode_loop room byte bits cnt (CHR ''='' # cs) = Some []"
  by simp

declare base64_decode_loop.simps(2) [simp del]

text \<open>The register holds older bits, which have left the byte by the time it is written.\<close>

lemma u8_eqI:
  fixes v v' :: u8
  assumes "\<And>n. n \<in> {0,1,2,3,4,5,6,7} \<Longrightarrow> bit v n = bit v' n"
  shows "v = v'"
proof (rule bit_word_eqI)
  fix n :: nat
  assume "n < LENGTH(8)"
  then have "n = 0 \<or> n = 1 \<or> n = 2 \<or> n = 3 \<or> n = 4 \<or> n = 5 \<or> n = 6 \<or> n = 7" by simp arith
  then show "bit v n = bit v' n" using assms by auto
qed

lemma register_bits:
  fixes b :: u32 and x y z :: u8
  assumes w: "w = push_bit 8 (push_bit 8 (ucast x) OR ucast y) OR ucast z"
  shows "top_byte 4 (shift_in 12 w (shift_in 18 w b)) = x"
    "top_byte 2 (shift_in 6 w (shift_in 12 w (shift_in 18 w b))) = y"
    "top_byte 0 (shift_in 0 w (shift_in 6 w (shift_in 12 w (shift_in 18 w b)))) = z"
proof -
  have high [simp]: "\<not> bit v n" if "8 \<le> n" for v :: u8 and n
    using that by (simp add: impossible_bit)
  show "top_byte 4 (shift_in 12 w (shift_in 18 w b)) = x"
    by (rule u8_eqI, elim insertE emptyE; simp add: w top_byte_def shift_in_def bit_simps)
  show "top_byte 2 (shift_in 6 w (shift_in 12 w (shift_in 18 w b))) = y"
    by (rule u8_eqI, elim insertE emptyE; simp add: w top_byte_def shift_in_def bit_simps)
  show "top_byte 0 (shift_in 0 w (shift_in 6 w (shift_in 12 w (shift_in 18 w b)))) = z"
    by (rule u8_eqI, elim insertE emptyE; simp add: w top_byte_def shift_in_def bit_simps)
qed

lemma register_short:
  assumes "w = push_bit 16 (ucast x)"
  shows "top_byte 4 (shift_in 12 w (shift_in 18 w b)) = x"
  using register_bits(1) [of w x 0 0 b] assms by (simp add: push_bit_push_bit)

lemma register_medium:
  assumes "w = push_bit 8 (push_bit 8 (ucast x) OR ucast y)"
  shows "top_byte 4 (shift_in 12 w (shift_in 18 w b)) = x"
    "top_byte 2 (shift_in 6 w (shift_in 12 w (shift_in 18 w b))) = y"
  using register_bits(1,2) [of w x y 0 b] assms by simp_all

lemma decode_base64_text:
  "cnt + int (length xs) \<le> room \<Longrightarrow> base64_decode_loop room b 0 cnt (base64_text xs) = Some xs"
proof (induction xs arbitrary: b cnt rule: base64_text.induct)
  case (2 x)
  define w :: u32 where "w = push_bit 16 (ucast x)"
  have "base64_text [x] = [b64_digit 18 w, b64_digit 12 w, CHR ''='', CHR ''='']"
    by (simp add: Let_def w_def)
  then show ?case using 2 register_short [OF w_def] by (simp add: decode_digit decode_pad del: base64_text.simps)
next
  case (3 x y)
  define w :: u32 where "w = push_bit 8 (push_bit 8 (ucast x) OR ucast y)"
  have "base64_text [x, y] = [b64_digit 18 w, b64_digit 12 w, b64_digit 6 w, CHR ''='']"
    by (simp add: Let_def w_def)
  then show ?case using 3 register_medium [OF w_def] by (simp add: decode_digit decode_pad del: base64_text.simps)
next
  case (4 x y z xs)
  define w :: u32 where "w = push_bit 8 (push_bit 8 (ucast x) OR ucast y) OR ucast z"
  have "base64_text (x # y # z # xs) = [b64_digit 18 w, b64_digit 12 w, b64_digit 6 w, b64_digit 0 w] @ base64_text xs"
    by (simp add: Let_def w_def)
  then show ?case using 4 register_bits [OF w_def] by (simp add: decode_digit del: base64_text.simps)
qed simp

abbreviation fresh64 :: "string \<Rightarrow> int \<Rightarrow> b64_state" where
  "fresh64 out col \<equiv> \<lparr>b_out = out, b_col = col, b_byte = 0, b_bits = 0\<rparr>"

text \<open>Without line breaks and with enough room, groups of three bytes are written one after the other.\<close>

lemma encode_three:
  assumes "int (length out) + 4 \<le> room"
  shows "base64_encode_loop False room (x # y # z # xs) (fresh64 out col) =
    base64_encode_loop False room xs (fresh64 (out @ base64_text [x, y, z]) (col + 4))"
  using assms by (simp add: base64_encode_step_def b_cnt_def Let_def)

lemma encode_rest:
  assumes "int (length out) + int (length (base64_text xs)) \<le> room"
  shows "base64_encode_rest room (base64_encode_loop False room xs (fresh64 out col)) = out @ base64_text xs"
  using assms
proof (induction xs arbitrary: out col rule: base64_text.induct)
  case 1
  then show ?case by (simp add: base64_encode_rest_def Let_def)
next
  case (2 x)
  then show ?case by (simp add: base64_encode_rest_def base64_encode_step_def b_cnt_def Let_def)
next
  case (3 x y)
  then show ?case by (simp add: base64_encode_rest_def base64_encode_step_def b_cnt_def Let_def)
next
  case (4 x y z xs)
  have room: "int (length out) + 4 \<le> room" "int (length (out @ base64_text [x, y, z])) + int (length (base64_text xs)) \<le> room"
    using 4(2) by (simp_all add: Let_def)
  have "base64_text (x # y # z # xs) = base64_text [x, y, z] @ base64_text xs" by (simp add: Let_def)
  then show ?case unfolding encode_three [OF room(1)] using 4(1) [OF refl, of "out @ base64_text [x, y, z]" "col + 4"] room(2) by simp
qed

lemma encode_eq_text:
  assumes "int (4 * ((length xs + 2) div 3)) < len"
  shows "tris_base64encode xs len = Some (base64_text xs)"
  using assms encode_rest [of "[]" xs "len - 1" 0]
  by (simp add: tris_base64encode_def tris_base64encode_full_def length_base64_text)

text \<open>Bytes written in base 64 without line breaks into a buffer with room for all of them are read
  back as they were, by a reader with room for them; the text has four characters for each group of three
  bytes, whole or not.\<close>

theorem base64_roundtrip:
  assumes "int (4 * ((length xs + 2) div 3)) < len" "int (length xs) \<le> room"
  shows "\<exists>s. tris_base64encode xs len = Some s \<and> length s = 4 * ((length xs + 2) div 3) \<and> tris_base64decode s room = Some xs"
  using encode_eq_text [OF assms(1)] decode_base64_text [of 0 xs room 0] assms(2)
  by (simp add: length_base64_text tris_base64decode_def)

theorem base64_roundtrip_witness:
  "\<exists>s. tris_base64encode [222, 173, 190, 239, 1] 9 = Some s \<and> length s = 8 \<and> tris_base64decode s 5 = Some [222, 173, 190, 239, 1]"
  using base64_roundtrip [of "[222, 173, 190, 239, 1]" 9 5] by simp

text \<open>A character outside the alphabet, a line break among them, is read as the digit 63.\<close>

lemma line_break_decoded:
  "tris_base64decode (''QUJD'' @ CHR 0x0A # ''REVG'') 20 = Some [65, 66, 67, 253, 17, 21]"
  by code_simp

section \<open>URIs are read back\<close>

lemma hex_digit_facts:
  assumes "n < 16"
  shows "hex_val (hex_digit n) = Some (int n)" "\<not> isspace (hex_digit n)" "hex_digit n \<noteq> CHR ''-''" "hex_digit n \<noteq> CHR ''+''"
proof -
  have "list_all2 (\<lambda>n c. hex_val c = Some (int n) \<and> \<not> isspace c \<and> c \<noteq> CHR ''-'' \<and> c \<noteq> CHR ''+'') [0..<16] ''0123456789abcdef''"
    by code_simp
  from list_all2_nthD [OF this, of n] assms
  show "hex_val (hex_digit n) = Some (int n)" "\<not> isspace (hex_digit n)" "hex_digit n \<noteq> CHR ''-''" "hex_digit n \<noteq> CHR ''+''"
    by (simp_all add: hex_digit_def)
qed

lemma scan_escape: "scan_2x (hex_digit (code_of c div 16) # hex_digit (code_of c mod 16) # s) = Some (int (code_of c))"
proof -
  have n: "code_of c div 16 < 16" "code_of c mod 16 < 16" by (simp_all add: code_of_def div_less_iff_less_mult)
  then show ?thesis using hex_digit_facts [OF n(1)] hex_digit_facts [OF n(2)]
    by (simp add: scan_2x_def base_digit_def base_val_def numeral_2_eq_2) presburger
qed

lemma decode_char: "c \<noteq> CHR ''%'' \<Longrightarrow> uri_decode_loop (c # s) = c # uri_decode_loop s"
  by (cases "(c # s)" rule: uri_decode_loop.cases) simp_all

lemma decode_escape: "uri_decode_loop (CHR ''%'' # hex_digit (code_of c div 16) # hex_digit (code_of c mod 16) # s) = c # uri_decode_loop s"
  by (simp add: scan_escape) (simp add: code_of_def)

declare uri_decode_loop.simps(4) [simp del]

lemma decode_uri_chars: "CHR ''%'' \<notin> set s \<Longrightarrow> uri_decode_loop (concat (map (uri_char doreserved) s)) = s"
  by (induction s) (auto simp: uri_char_def decode_char decode_escape)

lemma uri_chars_plain: "\<not> list_ex (uri_escaped doreserved) s \<Longrightarrow> concat (map (uri_char doreserved) s) = s"
  by (induction s) (auto simp: uri_char_def)

text \<open>Text without a percent sign that is escaped for a URI is read back as it was, with the
  reserved characters escaped or not, when the buffer has room for the escaped text.\<close>

theorem uri_roundtrip:
  assumes "CHR ''%'' \<notin> set s" "list_all (\<lambda>c. code_of c \<noteq> 0) s"
    and "length (concat (map (uri_char doreserved) s)) < buflen"
  shows "map_option tris_uri_decode (tris_uri_encode s buflen doreserved) = Some s"
proof -
  have "tris_uri_encode s buflen doreserved = Some (concat (map (uri_char doreserved) s))"
    using assms(3) uri_chars_plain [of doreserved s] by (auto simp: tris_uri_encode_def Let_def)
  moreover have "takeWhile (\<lambda>c. code_of c \<noteq> 0) s = s" using assms(2) by (simp add: list_all_iff takeWhile_eq_all_conv)
  ultimately show ?thesis using decode_uri_chars [OF assms(1)] by (simp add: tris_uri_decode_def)
qed

theorem uri_roundtrip_witness:
  "map_option tris_uri_decode (tris_uri_encode (''a b;'' @ [char_of (233 :: nat)]) 13 True) = Some (''a b;'' @ [char_of (233 :: nat)])"
proof -
  have s: "list_all (\<lambda>c. code_of c \<noteq> 0) (''a b;'' @ [char_of (233 :: nat)])" "CHR ''%'' \<notin> set (''a b;'' @ [char_of (233 :: nat)])"
    "length (concat (map (uri_char True) (''a b;'' @ [char_of (233 :: nat)]))) = 11" by code_simp+
  show ?thesis using uri_roundtrip [OF s(2,1), of True 13] s(3) by simp
qed

text \<open>The percent sign itself is not escaped, so that text which holds one is read back as something else;
  blanks behind it are skipped and a sign is taken for a digit.\<close>

lemma percent_not_escaped:
  "tris_uri_encode ''100%25'' 20 True = Some ''100%25'' \<and> tris_uri_decode ''100%25'' = ''100%''"
  "tris_uri_decode ''%  41'' = ''A41''"
  by code_simp+

text \<open>The expansion is written beyond a buffer that has room for the text.\<close>

lemma uri_encode_overflow: "tris_uri_encode ''a b'' 4 True = None"
  by code_simp

section \<open>Blanks and words\<close>

lemma trim_append: "tris_trim_blanks u @ rev (takeWhile (\<lambda>c. code_of c < 33) (rev u)) = u"
  by (subst rev_is_rev_conv [symmetric]) (simp add: tris_trim_blanks_def)

lemma trim_last: "tris_trim_blanks u \<noteq> [] \<Longrightarrow> \<not> code_of (last (tris_trim_blanks u)) < 33"
  using hd_dropWhile [of "\<lambda>c. code_of c < 33" "rev u"] by (simp add: tris_trim_blanks_def last_rev)

lemma trim_same: "t \<noteq> [] \<Longrightarrow> \<not> code_of (last t) < 33 \<Longrightarrow> tris_trim_blanks t = t"
  by (cases t rule: rev_cases) (auto simp: tris_trim_blanks_def)

lemma skip_same: "t \<noteq> [] \<Longrightarrow> \<not> code_of (hd t) < 33 \<Longrightarrow> tris_skip_blanks t = t"
  by (cases t) (auto simp: tris_skip_blanks_def)

lemma strip_strip: "tris_strip (tris_strip s) = tris_strip s"
proof (cases "tris_strip s = []")
  case True
  have "tris_strip [] = []" by (simp add: tris_strip_def tris_skip_blanks_def tris_trim_blanks_def)
  then show ?thesis unfolding True .
next
  case False
  let ?u = "tris_skip_blanks s"
  obtain r where r: "?u = tris_trim_blanks ?u @ r" by (rule that [OF trim_append [symmetric]])
  have ne: "tris_trim_blanks ?u \<noteq> []" using False by (simp add: tris_strip_def)
  then have "hd (tris_trim_blanks ?u) = hd ?u" by (subst (2) r) simp
  moreover have "?u \<noteq> []" using ne by (subst r) simp
  ultimately have "\<not> code_of (hd (tris_strip s)) < 33"
    using hd_dropWhile [of "\<lambda>c. code_of c < 33" s] by (simp add: tris_strip_def tris_skip_blanks_def)
  then show ?thesis using False trim_last [of ?u] by (simp add: tris_strip_def skip_same trim_same)
qed

fun blank_joined :: "bool \<Rightarrow> string list \<Rightarrow> string" where
  "blank_joined first [] = []"
| "blank_joined first (w # ws) = (if first then w else CHR '' '' # w) @ blank_joined False ws"

lemma join_loop_take:
  "length out \<le> len \<Longrightarrow> join_loop len first ws out = take len (out @ blank_joined first ws)"
proof (induction ws arbitrary: out first)
  case (Cons w ws)
  then show ?case
  proof (cases "length out < len")
    case True
    then obtain k where k: "len = Suc (length out + k)" by (auto simp: less_iff_Suc_add)
    then show ?thesis using Cons.IH by (auto simp: Let_def min_def)
  qed (use Cons.prems in simp)
qed simp

text \<open>Words are joined by blanks and cut to the buffer.\<close>

lemma tris_join_cut: "0 < len \<Longrightarrow> tris_join len ws = Some (take (len - 1) (blank_joined True ws))"
  by (auto simp: tris_join_def Let_def join_loop_take butlast_conv_take min_def)

lemma unescape_c_past_end: "tris_unescape_c (Some [CHR ''a'', CHR 0x5C]) = None"
  by (simp add: tris_unescape_c_def)

text \<open>Quoting protects the character that is replaced.\<close>

lemma quotes_protect:
  assumes "CHR 0x27 \<notin> set s" "CHR 0x5C \<notin> set s"
  shows "tris_process_quotes_and_slashes (CHR 0x27 # s @ [CHR 0x27]) old r = s"
proof -
  have "quotes_loop old r False True (s @ [CHR 0x27]) = s" using assms by (induction s) auto
  then show ?thesis by (simp add: tris_process_quotes_and_slashes_def)
qed

end
