(* ===== verification/Iax2Ies.thy ===== *)
theory Iax2Ies
  imports Bytes
begin

text \<open>
  Information elements of the IAX2 protocol: \<open>channels/iax2-parser.c\<close>.

  A message is a block of bytes. The structure \<open>iax_ies\<close> has one member for each element code; here its
  pointers and numbers are maps from the codes, a pointer is an offset of the block, and the strings they
  point to are read from the block as it is after parsing. \<open>None\<close> as the result is an access outside a
  buffer. Allocation of variables succeeds; messages are left out.
\<close>

unbundle bit_operations_syntax

section \<open>Writing\<close>

definition IED_SIZE :: nat where "IED_SIZE = 1024"

text \<open>The bytes of \<open>iax_ie_data\<close> up to its position. The room is compared with the data, without the two
  bytes in front of them, and the length is stored in one byte.\<close>

definition iax_ie_append_raw :: "bytes \<Rightarrow> u8 \<Rightarrow> bytes \<Rightarrow> (int \<times> bytes) option" where
  "iax_ie_append_raw ied ie data =
     (if int (length data) > int IED_SIZE - int (length ied) then Some (- 1, ied)
      else if length ied + 2 + length data \<le> IED_SIZE
      then Some (0, ied @ ie # of_nat (length data) # data)
      else None)"

definition iax_ie_append_int :: "bytes \<Rightarrow> u8 \<Rightarrow> u32 \<Rightarrow> (int \<times> bytes) option" where
  "iax_ie_append_int ied ie x = iax_ie_append_raw ied ie (be32 x)"

definition iax_ie_append_short :: "bytes \<Rightarrow> u8 \<Rightarrow> u16 \<Rightarrow> (int \<times> bytes) option" where
  "iax_ie_append_short ied ie x = iax_ie_append_raw ied ie (be16 x)"

definition iax_ie_append_str :: "bytes \<Rightarrow> u8 \<Rightarrow> bytes \<Rightarrow> (int \<times> bytes) option" where
  "iax_ie_append_str ied ie str = iax_ie_append_raw ied ie str"

definition iax_ie_append_byte :: "bytes \<Rightarrow> u8 \<Rightarrow> u8 \<Rightarrow> (int \<times> bytes) option" where
  "iax_ie_append_byte ied ie dat = iax_ie_append_raw ied ie [dat]"

definition iax_ie_append :: "bytes \<Rightarrow> u8 \<Rightarrow> (int \<times> bytes) option" where
  "iax_ie_append ied ie = iax_ie_append_raw ied ie []"

text \<open>An address is 16 bytes.\<close>

definition iax_ie_append_addr :: "bytes \<Rightarrow> u8 \<Rightarrow> bytes \<Rightarrow> (int \<times> bytes) option" where
  "iax_ie_append_addr ied ie sin = iax_ie_append_raw ied ie (take 16 sin)"

section \<open>Parsing\<close>

datatype ie_kind =
    Ie_str | Ie_u32 | Ie_u16 | Ie_u8 | Ie_flag | Ie_raw | Ie_addr | Ie_provver | Ie_variable | Ie_osptoken | Ie_calltoken | Ie_unknown

text \<open>The cases of the parser's switch.\<close>

definition ie_kind :: "u8 \<Rightarrow> ie_kind" where
  "ie_kind c =
     (if c \<in> {1, 2, 3, 4, 5, 6, 7, 10, 13, 15, 16, 17, 22, 28, 32, 33, 45} then Ie_str
      else if c \<in> {8, 9, 27, 31, 35, 46, 47, 48, 50, 51} then Ie_u32
      else if c \<in> {11, 12, 14, 19, 20, 21, 24, 34, 40, 41, 43, 49} then Ie_u16
      else if c \<in> {23, 38, 39, 42} then Ie_u8
      else if c \<in> {25, 26} then Ie_flag
      else if c \<in> {36, 44} then Ie_raw
      else if c = 18 then Ie_addr
      else if c = 37 then Ie_provver
      else if c = 52 then Ie_variable
      else if c = 53 then Ie_osptoken
      else if c = 54 then Ie_calltoken
      else Ie_unknown)"

record iax_ies =
  ie_ptr :: "u8 \<Rightarrow> nat option"
  ie_num :: "u8 \<Rightarrow> int"
  ie_len :: "u8 \<Rightarrow> nat"
  provverpres :: bool
  calltoken :: bool
  ie_vars :: "(bytes \<times> bytes) list"
  osptoken :: "nat \<Rightarrow> (nat \<times> u32) option"

definition ies_start :: iax_ies where
  "ies_start = \<lparr>ie_ptr = (\<lambda>_. None), ie_num = (\<lambda>c. if c \<in> {24, 34, 38, 39, 40} then - 1 else if c = 41 then 1 else 0),
     ie_len = (\<lambda>_. 0), provverpres = False, calltoken = False, ie_vars = [], osptoken = (\<lambda>_. None)\<rparr>"

text \<open>A variable of a known name has its value extended; others go to the front.\<close>

fun add_variable :: "bytes \<Rightarrow> bytes \<Rightarrow> (bytes \<times> bytes) list \<Rightarrow> (bytes \<times> bytes) list option" where
  "add_variable name x [] = None"
| "add_variable name x ((n, y) # vs) =
     (if name = n then Some ((n, y @ x) # vs) else map_option (Cons (n, y)) (add_variable name x vs))"

definition put_variable :: "bytes \<Rightarrow> (bytes \<times> bytes) list \<Rightarrow> (bytes \<times> bytes) list" where
  "put_variable d vs =
     (let tmp = takeWhile (\<lambda>b. b \<noteq> 0) d; name = takeWhile (\<lambda>b. b \<noteq> 61) tmp; x = tl (dropWhile (\<lambda>b. b \<noteq> 61) tmp)
      in case add_variable name x vs of Some vs \<Rightarrow> vs | None \<Rightarrow> (name, x) # vs)"

text \<open>What \<open>tris_copy_string(dst, src, size)\<close> reads, which looks at the next byte of the source before the
  size: whether that stays within the bytes from \<open>src\<close> to the end of memory.\<close>

fun copy_string_in :: "bytes \<Rightarrow> nat \<Rightarrow> bool" where
  "copy_string_in [] n = False"
| "copy_string_in (b # bs) n = (if b = 0 \<or> n = 0 then True else copy_string_in bs (n - 1))"

text \<open>One element: \<open>off\<close> is the offset of its data, which are \<open>d\<close>. The index of an OSP token is read even
  when the element is empty, from the byte that follows. A variable is copied with one byte more than its
  length, which the copy's zero replaces, and the test for the end looks at yet another byte.\<close>

definition put_ie :: "bytes \<Rightarrow> nat \<Rightarrow> u8 \<Rightarrow> bytes \<Rightarrow> iax_ies \<Rightarrow> iax_ies option" where
  "put_ie buf off c d ies =
     (case ie_kind c of
        Ie_str \<Rightarrow> Some (ies\<lparr>ie_ptr := (ie_ptr ies)(c := Some off)\<rparr>)
      | Ie_addr \<Rightarrow> Some (ies\<lparr>ie_ptr := (ie_ptr ies)(c := Some off)\<rparr>)
      | Ie_raw \<Rightarrow> Some (ies\<lparr>ie_ptr := (ie_ptr ies)(c := Some off), ie_len := (ie_len ies)(c := length d)\<rparr>)
      | Ie_u32 \<Rightarrow> Some (if length d = 4 then ies\<lparr>ie_num := (ie_num ies)(c := uint (of_be32 d))\<rparr> else ies)
      | Ie_u16 \<Rightarrow> Some (if length d = 2 then ies\<lparr>ie_num := (ie_num ies)(c := uint (of_be16 d))\<rparr> else ies)
      | Ie_u8 \<Rightarrow> Some (if length d = 1 then ies\<lparr>ie_num := (ie_num ies)(c := uint (d ! 0))\<rparr> else ies)
      | Ie_flag \<Rightarrow> Some (ies\<lparr>ie_num := (ie_num ies)(c := 1)\<rparr>)
      | Ie_provver \<Rightarrow>
          Some (if length d = 4 then ies\<lparr>ie_num := (ie_num ies)(c := uint (of_be32 d)), provverpres := True\<rparr> else ies)
      | Ie_variable \<Rightarrow>
          (if copy_string_in (drop off buf) (length d + 1)
           then Some (ies\<lparr>ie_vars := put_variable d (ie_vars ies)\<rparr>) else None)
      | Ie_osptoken \<Rightarrow>
          (if off < length buf
           then Some (if buf ! off < 4
                      then ies\<lparr>osptoken := (osptoken ies)(unat (buf ! off) := Some (off + 1, of_nat (length d) - 1))\<rparr>
                      else ies)
           else None)
      | Ie_calltoken \<Rightarrow>
          Some ((if d = [] then ies else ies\<lparr>ie_ptr := (ie_ptr ies)(c := Some off)\<rparr>)\<lparr>calltoken := True\<rparr>)
      | Ie_unknown \<Rightarrow> Some ies)"

text \<open>The loop, with the offset and the number of bytes left. The code of each element is overwritten with a
  zero, which ends the string before it, and so is the byte behind the last one.\<close>

function parse_loop :: "bytes \<Rightarrow> nat \<Rightarrow> nat \<Rightarrow> iax_ies \<Rightarrow> (int \<times> iax_ies \<times> bytes) option" where
  "parse_loop buf off datalen ies =
     (if 2 \<le> datalen
      then if length buf \<le> off + 1 then None
           else (let c = buf ! off; len = unat (buf ! (off + 1))
                 in if datalen - 2 < len then Some (- 1, ies, buf)
                    else if length buf < off + 2 + len then None
                    else (case put_ie buf (off + 2) c (take len (drop (off + 2) buf)) ies of
                            None \<Rightarrow> None
                          | Some ies \<Rightarrow> parse_loop (buf[off := 0]) (off + 2 + len) (datalen - (len + 2)) ies))
      else if off < length buf then Some (if datalen = 0 then 0 else - 1, ies, buf[off := 0])
      else None)"
  by pat_completeness auto
termination
  by (relation "measure (\<lambda>(buf, off, datalen, ies). datalen)") auto

declare parse_loop.simps [simp del]

definition iax_parse_ies :: "bytes \<Rightarrow> nat \<Rightarrow> (int \<times> iax_ies \<times> bytes) option" where
  "iax_parse_ies buf datalen = parse_loop buf 0 datalen ies_start"

section \<open>Any message is parsed within its block\<close>

definition wire :: "(u8 \<times> bytes) list \<Rightarrow> bytes" where
  "wire es = concat (map (\<lambda>(c, d). c # of_nat (length d) # d) es)"

lemma wire_simps [simp]:
  "wire [] = []"
  "wire ((c, d) # es) = c # of_nat (length d) # d @ wire es"
  by (simp_all add: wire_def)

definition short_elements :: "(u8 \<times> bytes) list \<Rightarrow> bool" where
  "short_elements es \<longleftrightarrow> list_all (\<lambda>(c, d). length d < 256) es"

lemma copy_string_in_ok: "n < length bs \<or> (\<exists>k \<le> n. k < length bs \<and> bs ! k = 0) \<Longrightarrow> copy_string_in bs n"
proof (induction bs n rule: copy_string_in.induct)
  case (2 b bs n)
  show ?case
  proof (cases "b = 0 \<or> n = 0")
    case False
    have "n - 1 < length bs \<or> (\<exists>k \<le> n - 1. k < length bs \<and> bs ! k = 0)"
      using 2(2) False
    proof (elim disjE exE conjE)
      fix k
      assume "k \<le> n" "k < length (b # bs)" "(b # bs) ! k = 0"
      then show ?thesis using False by (cases k) auto
    qed auto
    then show ?thesis using 2(1) False by simp
  qed auto
qed auto

lemma put_ie_some:
  assumes "off + length d < length buf" "buf ! (off + length d) = 0 \<or> off + length d + 1 < length buf"
  shows "put_ie buf off c d ies \<noteq> None"
proof -
  have "copy_string_in (drop off buf) (length d + 1)"
  proof (rule copy_string_in_ok)
    show "length d + 1 < length (drop off buf) \<or>
        (\<exists>k \<le> length d + 1. k < length (drop off buf) \<and> drop off buf ! k = 0)"
      using assms by (cases "off + length d + 1 < length buf") (auto intro: exI [of _ "length d"])
  qed
  then show ?thesis using assms(1) by (simp add: put_ie_def split: ie_kind.split)
qed

lemma unat_length: "n < 256 \<Longrightarrow> unat (of_nat n :: u8) = n"
  by (simp add: unat_of_nat)

text \<open>The first element of a block of elements, and the rest.\<close>

lemma wire_step:
  assumes "2 \<le> n" "off + n \<le> length buf"
  shows "(\<exists>es. short_elements es \<and> take n (drop off buf) = wire es) \<longleftrightarrow>
    unat (buf ! (off + 1)) \<le> n - 2 \<and>
    (\<exists>es. short_elements es \<and>
      take (n - (unat (buf ! (off + 1)) + 2)) (drop (off + 2 + unat (buf ! (off + 1))) buf) = wire es)"
proof -
  let ?l = "unat (buf ! (off + 1))"
  obtain m where m: "n = Suc (Suc m)" using assms(1) by (metis Suc_le_D numeral_2_eq_2 Suc_le_mono)
  have head: "take n (drop off buf) = buf ! off # buf ! (off + 1) # take m (drop (off + 2) buf)"
    using assms(2) m by (simp add: Cons_nth_drop_Suc [symmetric])
  have l: "?l < 256" using unsigned_less [of "buf ! (off + 1)"] by simp
  show ?thesis
  proof
    assume "\<exists>es. short_elements es \<and> take n (drop off buf) = wire es"
    then obtain es where es: "short_elements es" "take n (drop off buf) = wire es" by blast
    then obtain c d es' where e: "es = (c, d) # es'" using head by (cases es) auto
    have w: "buf ! (off + 1) = of_nat (length d)" "take m (drop (off + 2) buf) = d @ wire es'" "length d < 256"
      using es head e by (auto simp: short_elements_def)
    then have ld: "?l = length d" by (simp add: unat_length)
    have "m = length (d @ wire es')" unfolding w(2) [symmetric] using assms(2) m by simp
    then have "length d \<le> m" by simp
    moreover have "drop (length d) (take m (drop (off + 2) buf)) = wire es'" using w(2) by simp
    then have "take (m - length d) (drop (off + 2 + length d) buf) = wire es'" by (simp add: drop_take add.commute)
    moreover have "short_elements es'" using es(1) e by (simp add: short_elements_def)
    ultimately show "?l \<le> n - 2 \<and> (\<exists>es. short_elements es \<and> take (n - (?l + 2)) (drop (off + 2 + ?l) buf) = wire es)"
      using m unfolding ld by auto
  next
    assume a: "?l \<le> n - 2 \<and> (\<exists>es. short_elements es \<and> take (n - (?l + 2)) (drop (off + 2 + ?l) buf) = wire es)"
    then obtain es where es: "short_elements es" "take (n - (?l + 2)) (drop (off + 2 + ?l) buf) = wire es" by blast
    let ?d = "take ?l (drop (off + 2) buf)"
    have le: "?l \<le> m" using a m by simp
    then have ld: "length ?d = ?l" using assms(2) m by simp
    have "take m (drop (off + 2) buf) = ?d @ take (m - ?l) (drop (off + 2 + ?l) buf)"
      using take_add [of ?l "m - ?l" "drop (off + 2) buf"] le by (simp add: add.commute)
    then have "take n (drop off buf) = wire ((buf ! off, ?d) # es)"
      using head es(2) m ld by simp
    moreover have "short_elements ((buf ! off, ?d) # es)" using es(1) ld l by (simp add: short_elements_def)
    ultimately show "\<exists>es. short_elements es \<and> take n (drop off buf) = wire es" by blast
  qed
qed

lemma parse_loop_total:
  assumes "off + datalen < length buf" "buf ! (off + datalen) = 0 \<or> off + datalen + 1 < length buf"
  shows "\<exists>r ies' buf'. parse_loop buf off datalen ies = Some (r, ies', buf') \<and> length buf' = length buf \<and>
    (\<forall>i. i < off \<or> off + datalen < i \<longrightarrow> buf' ! i = buf ! i) \<and>
    r = (if \<exists>es. short_elements es \<and> take datalen (drop off buf) = wire es then 0 else - 1)"
  using assms
proof (induction buf off datalen ies rule: parse_loop.induct)
  case (1 buf off datalen ies)
  note pr = 1(2,3)
  let ?l = "unat (buf ! (off + 1))"
  consider (last) "datalen < 2" | (long) "2 \<le> datalen" "datalen - 2 < ?l" | (elem) "2 \<le> datalen" "?l \<le> datalen - 2" by linarith
  then show ?case
  proof cases
    case last
    have "(\<exists>es. short_elements es \<and> take datalen (drop off buf) = wire es) \<longleftrightarrow> datalen = 0"
    proof
      assume "\<exists>es. short_elements es \<and> take datalen (drop off buf) = wire es"
      then obtain es where "take datalen (drop off buf) = wire es" by blast
      moreover have "length (take datalen (drop off buf)) = datalen" using pr(1) by simp
      ultimately have "length (wire es) < 2" using last by metis
      then have "es = []" by (cases es) auto
      then show "datalen = 0" using \<open>length (take datalen (drop off buf)) = datalen\<close> \<open>take datalen (drop off buf) = wire es\<close> by simp
    qed (auto simp: short_elements_def intro: exI [of _ "[]"])
    then show ?thesis using last pr(1) by (simp add: parse_loop.simps [of buf off datalen])
  next
    case long
    then show ?thesis using wire_step [of datalen off buf] pr(1) by (simp add: parse_loop.simps [of buf off datalen] Let_def)
  next
    case elem
    obtain ies' where put: "put_ie buf (off + 2) (buf ! off) (take ?l (drop (off + 2) buf)) ies = Some ies'"
    proof -
      have l: "length (take ?l (drop (off + 2) buf)) = ?l" using elem pr(1) by simp
      have "off + 2 + ?l < length buf" using elem pr(1) by simp
      moreover have "buf ! (off + 2 + ?l) = 0 \<or> off + 2 + ?l + 1 < length buf"
      proof (cases "?l = datalen - 2")
        case True
        then have "off + 2 + ?l = off + datalen" using elem(1) by simp
        show ?thesis unfolding \<open>off + 2 + ?l = off + datalen\<close> by (rule pr(2))
      qed (use elem pr(1) in linarith)
      ultimately have "put_ie buf (off + 2) (buf ! off) (take ?l (drop (off + 2) buf)) ies \<noteq> None"
        by (intro put_ie_some) (simp_all only: l)
      then show ?thesis using that by blast
    qed
    have room: "\<not> length buf < off + 2 + ?l" using elem pr(1) by linarith
    have step: "parse_loop buf off datalen ies = parse_loop (buf[off := 0]) (off + 2 + ?l) (datalen - (?l + 2)) ies'"
      using elem pr(1) put room by (simp add: parse_loop.simps [of buf off datalen] Let_def)
    have "\<exists>r ies'' buf'. parse_loop (buf[off := 0]) (off + 2 + ?l) (datalen - (?l + 2)) ies' = Some (r, ies'', buf') \<and>
        length buf' = length (buf[off := 0]) \<and>
        (\<forall>i. i < off + 2 + ?l \<or> off + 2 + ?l + (datalen - (?l + 2)) < i \<longrightarrow> buf' ! i = buf[off := 0] ! i) \<and>
        r = (if \<exists>es. short_elements es \<and> take (datalen - (?l + 2)) (drop (off + 2 + ?l) (buf[off := 0])) = wire es then 0 else - 1)"
    proof (rule 1(1) [OF elem(1) _ refl refl _ _ put])
      have e: "off + 2 + ?l + (datalen - (?l + 2)) = off + datalen" using elem by linarith
      show "off + 2 + ?l + (datalen - (?l + 2)) < length (buf[off := 0])" unfolding e using pr(1) by simp
      show "buf[off := 0] ! (off + 2 + ?l + (datalen - (?l + 2))) = 0 \<or>
          off + 2 + ?l + (datalen - (?l + 2)) + 1 < length (buf[off := 0])"
        unfolding e using pr(2) elem(1) by simp
    qed (use pr(1) elem in auto)
    then show ?thesis unfolding step using wire_step [of datalen off buf] elem pr(1) by (auto simp: nth_list_update)
  qed
qed

text \<open>Claim C22. Parsing a message that is followed in memory by a zero byte, or by two bytes of any value, always
  ends, reads no further than these, changes nothing but the message and the byte behind it, and accepts exactly
  the sequences of elements: a message that is cut off, inside an element or between its code and its length,
  is refused. (The byte behind the message is overwritten; the one after it is looked at when the message
  ends with a variable and the byte behind is not zero, see \<open>variable_reads_beyond\<close>.)\<close>

theorem parse_ies_total:
  assumes "datalen < length buf" "buf ! datalen = 0 \<or> datalen + 1 < length buf"
  shows "\<exists>r ies buf'. iax_parse_ies buf datalen = Some (r, ies, buf') \<and> length buf' = length buf \<and>
    drop (Suc datalen) buf' = drop (Suc datalen) buf \<and>
    (r = 0 \<longleftrightarrow> (\<exists>es. short_elements es \<and> take datalen buf = wire es)) \<and> (r \<noteq> 0 \<longrightarrow> r = - 1)"
proof -
  obtain r ies' buf' where p: "parse_loop buf 0 datalen ies_start = Some (r, ies', buf')" "length buf' = length buf"
    "\<forall>i. datalen < i \<longrightarrow> buf' ! i = buf ! i"
    "r = (if \<exists>es. short_elements es \<and> take datalen buf = wire es then 0 else - 1)"
    using parse_loop_total [of 0 datalen buf ies_start] assms by auto
  have "drop (Suc datalen) buf' = drop (Suc datalen) buf"
    using p(2,3) by (auto intro!: nth_equalityI)
  then show ?thesis using p by (auto simp: iax_parse_ies_def split: if_splits)
qed

theorem parse_ies_total_witness:
  "\<exists>ies buf'. iax_parse_ies [11, 2, 0, 2, 1, 1, 53, 77, 78] 7 = Some (0, ies, buf') \<and> drop 8 buf' = [78]"
proof -
  have "short_elements [(11, [0, 2]), (1, [53])] \<and> take 7 [11, 2, 0, 2, 1, 1, 53, 77, 78] = wire [(11, [0, 2]), (1, [53])]"
    by (simp add: short_elements_def)
  then show ?thesis using parse_ies_total [of 7 "[11, 2, 0, 2, 1, 1, 53, 77, 78]"] by auto
qed

section \<open>What is appended is parsed\<close>

text \<open>The effect of an element that holds what its code expects, and the block after parsing.\<close>

definition put_elem :: "nat \<Rightarrow> u8 \<Rightarrow> bytes \<Rightarrow> iax_ies \<Rightarrow> iax_ies" where
  "put_elem off c d ies = the (put_ie (replicate off 0 @ d @ [0]) off c d ies)"

fun put_elems :: "nat \<Rightarrow> (u8 \<times> bytes) list \<Rightarrow> iax_ies \<Rightarrow> iax_ies" where
  "put_elems off [] ies = ies"
| "put_elems off ((c, d) # es) ies = put_elems (off + 2 + length d) es (put_elem (off + 2) c d ies)"

definition ended :: "(u8 \<times> bytes) list \<Rightarrow> bytes" where
  "ended es = concat (map (\<lambda>(c, d). 0 # of_nat (length d) # d) es)"

lemma ended_simps [simp]:
  "ended [] = []"
  "ended ((c, d) # es) = 0 # of_nat (length d) # d @ ended es"
  by (simp_all add: ended_def)

lemma length_ended [simp]: "length (ended es) = length (wire es)"
  by (induction es) auto

lemma put_ie_elem:
  assumes "ie_kind c \<noteq> Ie_variable" "ie_kind c = Ie_osptoken \<longrightarrow> d \<noteq> []" "off = length pre"
  shows "put_ie (pre @ d @ post) off c d ies = Some (put_elem off c d ies)"
  using assms by (cases d) (auto simp: put_elem_def put_ie_def nth_append split: ie_kind.split)

lemma parse_wire:
  assumes "list_all (\<lambda>(c, d). length d < 256 \<and> ie_kind c \<noteq> Ie_variable \<and> (ie_kind c = Ie_osptoken \<longrightarrow> d \<noteq> [])) es"
  shows "parse_loop (pre @ wire es @ z # rest) (length pre) (length (wire es)) ies =
    Some (0, put_elems (length pre) es ies, pre @ ended es @ 0 # rest)"
  using assms
proof (induction es arbitrary: pre ies)
  case Nil
  then show ?case by (simp add: parse_loop.simps)
next
  case (Cons e es)
  obtain c d where e: "e = (c, d)" by (cases e)
  have d: "length d < 256" "ie_kind c \<noteq> Ie_variable" "ie_kind c = Ie_osptoken \<longrightarrow> d \<noteq> []" using Cons.prems e by auto
  let ?buf = "pre @ wire (e # es) @ z # rest"
  have buf: "?buf = (pre @ [c, of_nat (length d)]) @ d @ wire es @ z # rest" using e by simp
  have at: "?buf ! length pre = c" "unat (?buf ! (length pre + 1)) = length d"
    using e d(1) by (simp_all add: nth_append unat_length)
  have data: "take (length d) (drop (length pre + 2) ?buf) = d" unfolding buf by simp
  have put: "put_ie ?buf (length pre + 2) c d ies = Some (put_elem (length pre + 2) c d ies)"
    unfolding buf by (rule put_ie_elem) (use d in auto)
  have upd: "?buf[length pre := 0] = (pre @ 0 # of_nat (length d) # d) @ wire es @ z # rest"
    using e by (simp add: list_update_append)
  have "parse_loop ?buf (length pre) (length (wire (e # es))) ies =
      parse_loop (?buf[length pre := 0]) (length pre + 2 + length d) (length (wire es)) (put_elem (length pre + 2) c d ies)"
    by (subst parse_loop.simps) (use e d at data put in \<open>simp add: Let_def\<close>)
  also have "\<dots> = Some (0, put_elems (length pre + 2 + length d) es (put_elem (length pre + 2) c d ies),
      (pre @ 0 # of_nat (length d) # d) @ ended es @ 0 # rest)"
    unfolding upd using Cons.IH [of "pre @ 0 # of_nat (length d) # d" "put_elem (length pre + 2) c d ies"] Cons.prems by simp
  finally show ?case using e by simp
qed

lemma copy_string_in_ended: "copy_string_in (d @ [0]) (Suc (length d))"
  by (rule copy_string_in_ok) (auto intro: exI [of _ "length d"])

lemma put_elem_other:
  assumes "c \<noteq> c'"
  shows "ie_ptr (put_elem off c' d ies) c = ie_ptr ies c" "ie_num (put_elem off c' d ies) c = ie_num ies c"
  using assms copy_string_in_ended [of d] by (auto simp: put_elem_def put_ie_def split: ie_kind.split)

lemma put_elems_other:
  assumes "c \<notin> fst ` set es"
  shows "ie_ptr (put_elems off es ies) c = ie_ptr ies c \<and> ie_num (put_elems off es ies) c = ie_num ies c"
  using assms by (induction es arbitrary: off ies) (auto simp: put_elem_other)

lemma put_elems_append: "put_elems off (es @ fs) ies = put_elems (off + length (wire es)) fs (put_elems off es ies)"
  by (induction es arbitrary: off ies) (auto simp: add.assoc)

lemma ended_append: "ended (es @ fs) = ended es @ ended fs"
  by (induction es) auto

text \<open>Typed elements, and how the code appends them.\<close>

datatype ie_val = IStr bytes | IInt u32 | IShort u16 | IByte u8 | INone

definition ie_bytes :: "ie_val \<Rightarrow> bytes" where
  "ie_bytes v = (case v of IStr s \<Rightarrow> s | IInt w \<Rightarrow> be32 w | IShort w \<Rightarrow> be16 w | IByte b \<Rightarrow> [b] | INone \<Rightarrow> [])"

definition append_val :: "bytes \<Rightarrow> u8 \<Rightarrow> ie_val \<Rightarrow> (int \<times> bytes) option" where
  "append_val ied c v =
     (case v of
        IStr s \<Rightarrow> iax_ie_append_str ied c s
      | IInt w \<Rightarrow> iax_ie_append_int ied c w
      | IShort w \<Rightarrow> iax_ie_append_short ied c w
      | IByte b \<Rightarrow> iax_ie_append_byte ied c b
      | INone \<Rightarrow> iax_ie_append ied c)"

fun append_vals :: "bytes \<Rightarrow> (u8 \<times> ie_val) list \<Rightarrow> bytes option" where
  "append_vals ied [] = Some ied"
| "append_vals ied ((c, v) # vs) =
     (case append_val ied c v of None \<Rightarrow> None | Some (_, ied) \<Rightarrow> append_vals ied vs)"

definition val_ok :: "u8 \<Rightarrow> ie_val \<Rightarrow> bool" where
  "val_ok c v =
     (case v of
        IStr s \<Rightarrow> ie_kind c = Ie_str \<and> 0 \<notin> set s \<and> length s < 256
      | IInt w \<Rightarrow> ie_kind c = Ie_u32
      | IShort w \<Rightarrow> ie_kind c = Ie_u16
      | IByte b \<Rightarrow> ie_kind c = Ie_u8
      | INone \<Rightarrow> ie_kind c = Ie_flag)"

definition reads_back :: "iax_ies \<Rightarrow> bytes \<Rightarrow> u8 \<Rightarrow> ie_val \<Rightarrow> bool" where
  "reads_back ies buf c v =
     (case v of
        IStr s \<Rightarrow> Option.bind (ie_ptr ies c) (read_str buf) = Some s
      | IInt w \<Rightarrow> ie_num ies c = uint w
      | IShort w \<Rightarrow> ie_num ies c = uint w
      | IByte b \<Rightarrow> ie_num ies c = uint b
      | INone \<Rightarrow> ie_num ies c = 1)"

definition raw_vals :: "(u8 \<times> ie_val) list \<Rightarrow> (u8 \<times> bytes) list" where
  "raw_vals vs = map (\<lambda>(c, v). (c, ie_bytes v)) vs"

lemma append_val_wire:
  "length ied + 2 + length (ie_bytes v) \<le> IED_SIZE \<Longrightarrow>
   append_val ied c v = Some (0, ied @ c # of_nat (length (ie_bytes v)) # ie_bytes v)"
  by (cases v) (simp_all add: append_val_def ie_bytes_def iax_ie_append_str_def iax_ie_append_int_def iax_ie_append_short_def
      iax_ie_append_byte_def iax_ie_append_def iax_ie_append_raw_def)

lemma append_vals_wire:
  "length ied + length (wire (raw_vals vs)) \<le> IED_SIZE \<Longrightarrow> append_vals ied vs = Some (ied @ wire (raw_vals vs))"
proof (induction vs arbitrary: ied)
  case (Cons e vs)
  then show ?case by (cases e) (simp add: raw_vals_def append_val_wire)
qed (simp add: raw_vals_def)

lemma reads_elem:
  assumes "val_ok c v" "length buf = off" "c \<notin> fst ` set es"
  shows "reads_back (put_elems k es (put_elem off c (ie_bytes v) ies)) (buf @ ie_bytes v @ 0 # rest) c v"
  using assms(1,2) put_elems_other [OF assms(3), of k "put_elem off c (ie_bytes v) ies"]
  by (cases v) (auto simp: reads_back_def val_ok_def put_elem_def put_ie_def ie_bytes_def read_str_def takeWhile_tail
      of_be32_be32 of_be16_be16)

text \<open>Claim C21. Elements appended to an empty block are all there and read back from the parsed message:
  strings up to the zero that parsing puts behind them, numbers of each width, and flags. Each code is used
  once and with a value of its type, strings have no zero in them and fewer than 256 bytes, and with two
  bytes for each the elements fit the block.\<close>

theorem ies_roundtrip:
  assumes "distinct (map fst vs)" "list_all (\<lambda>(c, v). val_ok c v) vs"
    and "length (wire (raw_vals vs)) \<le> IED_SIZE"
  shows "\<exists>buf ies buf'. append_vals [] vs = Some buf \<and> length buf = length (wire (raw_vals vs)) \<and>
    iax_parse_ies (buf @ z # rest) (length buf) = Some (0, ies, buf') \<and> list_all (\<lambda>(c, v). reads_back ies buf' c v) vs"
proof -
  let ?es = "raw_vals vs"
  have ok: "list_all (\<lambda>(c, d). length d < 256 \<and> ie_kind c \<noteq> Ie_variable \<and> (ie_kind c = Ie_osptoken \<longrightarrow> d \<noteq> [])) ?es"
    using assms(2) by (auto simp: list_all_iff raw_vals_def val_ok_def ie_bytes_def split: ie_val.splits)
  have parse: "iax_parse_ies (wire ?es @ z # rest) (length (wire ?es)) = Some (0, put_elems 0 ?es ies_start, ended ?es @ 0 # rest)"
    using parse_wire [OF ok, of "[]" z rest ies_start] by (simp add: iax_parse_ies_def)
  have "reads_back (put_elems 0 ?es ies_start) (ended ?es @ 0 # rest) c v" if mem: "(c, v) \<in> set vs" for c v
  proof -
    obtain us ws where vs: "vs = us @ (c, v) # ws" using split_list [OF mem] by blast
    have es: "?es = raw_vals us @ (c, ie_bytes v) # raw_vals ws" by (simp add: vs raw_vals_def)
    have "fst ` set (raw_vals ws) = fst ` set ws" by (force simp: raw_vals_def)
    then have "c \<notin> fst ` set (raw_vals ws)" using assms(1) vs by simp
    moreover have "val_ok c v" using assms(2) mem by (auto simp: list_all_iff)
    moreover obtain t where "ended (raw_vals ws) @ 0 # rest = 0 # t" by (cases "raw_vals ws") auto
    ultimately show ?thesis unfolding es
      using reads_elem [of c v "ended (raw_vals us) @ [0, of_nat (length (ie_bytes v))]" "length (wire (raw_vals us)) + 2" "raw_vals ws"
          "length (wire (raw_vals us)) + 2 + length (ie_bytes v)" "put_elems 0 (raw_vals us) ies_start" t]
      by (simp add: put_elems_append ended_append)
  qed
  then have "list_all (\<lambda>(c, v). reads_back (put_elems 0 ?es ies_start) (ended ?es @ 0 # rest) c v) vs"
    by (auto simp: list_all_iff)
  moreover have "append_vals [] vs = Some (wire ?es)" using append_vals_wire [of "[]" vs] assms(3) by simp
  ultimately show ?thesis using parse by blast
qed

theorem ies_roundtrip_witness:
  "\<exists>buf ies buf'. append_vals [] [(11 :: u8, IShort 2), (1, IStr [53, 53]), (9, IInt 4), (25, INone)] = Some buf \<and>
    iax_parse_ies (buf @ [7]) (length buf) = Some (0, ies, buf') \<and> ie_num ies 11 = 2 \<and>
    Option.bind (ie_ptr ies 1) (read_str buf') = Some [53, 53] \<and> ie_num ies 9 = 4 \<and> ie_num ies 25 = 1"
proof -
  let ?vs = "[(11 :: u8, IShort 2), (1, IStr [53, 53]), (9, IInt 4), (25, INone)]"
  have "distinct (map fst ?vs)" "list_all (\<lambda>(c, v). val_ok c v) ?vs" "length (wire (raw_vals ?vs)) \<le> IED_SIZE"
    by (simp_all add: val_ok_def ie_kind_def raw_vals_def ie_bytes_def IED_SIZE_def)
  from ies_roundtrip [OF this, of 7 "[]"] show ?thesis by (auto simp: reads_back_def)
qed

text \<open>The two bytes in front of the data are not counted: an element whose data fills the room left is
  written beyond the block. A longer string than 255 bytes is stored with its length reduced, and the
  parser takes what is behind it for elements.\<close>

lemma append_overruns:
  "length ied \<le> IED_SIZE \<Longrightarrow> length d + length ied \<in> {IED_SIZE - 1, IED_SIZE} \<Longrightarrow> iax_ie_append_raw ied c d = None"
  by (auto simp: iax_ie_append_raw_def IED_SIZE_def)

lemma long_string_misparsed:
  "iax_ie_append_str [] 6 (replicate 256 65) = Some (0, 6 # 0 # replicate 256 65)"
  by (simp add: iax_ie_append_str_def iax_ie_append_raw_def IED_SIZE_def)

text \<open>A variable at the end of the message is read up to two bytes behind it: with one byte there that
  is not zero the copy leaves memory.\<close>

lemma variable_reads_beyond:
  "iax_parse_ies [52, 1, 65, 7] 3 = None"
  "map_option fst (iax_parse_ies [52, 1, 65, 0] 3) = Some 0" "map_option fst (iax_parse_ies [52, 1, 65, 7, 7] 3) = Some 0"
  by code_simp+

text \<open>An OSP token without data has a length of \<open>- 1\<close>, and takes its index from what follows it.\<close>

lemma empty_osptoken:
  "(case iax_parse_ies [53, 0, 0] 2 of Some (r, ies, buf) \<Rightarrow> r = 0 \<and> osptoken ies 0 = Some (3, - 1) | None \<Rightarrow> False)"
  by code_simp

end
