(* ===== verification/Iax2Call.thy ===== *)
theory Iax2Call
  imports Timeval
begin

text \<open>
  Calls of the IAX2 channel driver, \<open>channels/chan_iax2.c\<close>: subclasses on the wire, timestamps, and the
  sequence numbers that make full frames reliable.

  Of a call the model has the members that these operations use. Sequence numbers are bytes and timestamps
  words of 32 bits, as in the code; signed arithmetic on timestamps wraps around. Locks, encryption,
  messages and the content of frames are left out.
\<close>

unbundle bit_operations_syntax

section \<open>Subclasses\<close>

definition compress_subclass :: "u32 \<Rightarrow> u8" where
  "compress_subclass subclass =
     (if subclass <s 0x80 then ucast subclass
      else (case filter (bit subclass) [0..<31] of
              [] \<Rightarrow> - 1
            | [x] \<Rightarrow> of_nat x OR 0x80
            | _ \<Rightarrow> 0))"

definition uncompress_subclass :: "u8 \<Rightarrow> u32" where
  "uncompress_subclass csub =
     (if csub AND 0x80 \<noteq> 0
      then if csub = 0xff then - 1 else push_bit (unat (csub AND NOT 0x80 AND 0x1f)) 1
      else ucast csub)"

text \<open>The subclass of a video frame has a mark in its lowest bit, which travels beside the power.\<close>

definition video_csub :: "u32 \<Rightarrow> u8" where
  "video_csub subclass = compress_subclass (subclass AND NOT 1) OR push_bit 6 (ucast (subclass AND 1))"

definition video_subclass :: "u8 \<Rightarrow> u32" where
  "video_subclass csub = uncompress_subclass (csub AND NOT 0x40) OR ucast (drop_bit 6 csub AND 1)"

section \<open>Timestamps\<close>

text \<open>A mini frame carries the lower 16 bits of its timestamp, a video mini frame the lower 15; the receiver
  completes them from the last timestamp, and mends the result when the lower bits have gone round.\<close>

definition ts_shift :: "bool \<Rightarrow> nat" where
  "ts_shift video = (if video then 15 else 16)"

definition mini_ts :: "bool \<Rightarrow> u32 \<Rightarrow> u32" where
  "mini_ts video fts = fts AND mask (ts_shift video)"

definition completed_ts :: "bool \<Rightarrow> u32 \<Rightarrow> u32 \<Rightarrow> u32" where
  "completed_ts video prev wire = (prev AND NOT (mask (ts_shift video))) OR wire"

definition unwrap_timestamp :: "bool \<Rightarrow> u32 \<Rightarrow> u32 \<Rightarrow> u32" where
  "unwrap_timestamp video prev ts =
     (let lower_mask = mask (ts_shift video); upper_mask = NOT lower_mask; last_upper = prev AND upper_mask
      in if ts AND upper_mask = last_upper
         then (let x = ts - prev; threshold = (if video then 25000 else 50000)
               in if x <s - threshold then (last_upper + push_bit (ts_shift video) 1) OR (ts AND lower_mask)
                  else if threshold <s x then (last_upper - push_bit (ts_shift video) 1) OR (ts AND lower_mask)
                  else ts)
         else ts)"

text \<open>Whether a voice or a video frame may be sent as a mini frame.\<close>

definition send_mini_voice :: "bool \<Rightarrow> u32 \<Rightarrow> u32 \<Rightarrow> bool \<Rightarrow> bool" where
  "send_mini_voice trunk fts lastsent same_format \<longleftrightarrow>
     (trunk \<or> fts AND 0xFFFF0000 = lastsent AND 0xFFFF0000 \<or> fts AND 0xFFFF0000 = (lastsent + 0x10000) AND 0xFFFF0000) \<and>
     same_format"

definition send_mini_video :: "u32 \<Rightarrow> u32 \<Rightarrow> bool \<Rightarrow> bool" where
  "send_mini_video fts lastvsent same_format \<longleftrightarrow> fts AND 0xFFFF8000 = lastvsent AND 0xFFFF8000 \<and> same_format"

datatype frame_type = Voice | Video | Iax | Cng | Other

record call_clock =
  cc_offset :: timeval
  cc_rxcore :: timeval
  cc_lastsent :: u32
  cc_nextpred :: u32
  cc_notsilenttx :: bool

text \<open>Rounded down to 20 ms. The remainder of C has the sign of the microseconds.\<close>

definition rounded :: "timeval \<Rightarrow> timeval" where
  "rounded t = t\<lparr>tv_usec := tv_usec t - cmod (tv_usec t) 20000\<rparr>"

definition abs32 :: "u32 \<Rightarrow> u32" where
  "abs32 w = (if w <s 0 then - w else w)"

definition ms_since :: "timeval \<Rightarrow> timeval \<Rightarrow> u32" where
  "ms_since t start = (let ms = word_of_int (tris_tvdiff_ms t start) in if ms <s 0 then 0 else ms)"

text \<open>\<open>rate\<close> is the rate of the frame's format in samples per millisecond, \<open>now\<close> the clock. The remainder
  of \<open>ms\<close>, which is not negative, is taken by a positive number.\<close>

definition calc_timestamp ::
  "call_clock \<Rightarrow> u32 \<Rightarrow> frame_type \<Rightarrow> timeval \<Rightarrow> nat \<Rightarrow> nat \<Rightarrow> timeval \<Rightarrow> u32 \<times> call_clock" where
  "calc_timestamp p ts type delivery samples rate now =
     (let p = (if type = Cng then p\<lparr>cc_notsilenttx := False\<rparr> else p);
          p = (if tris_tvzero (cc_offset p) then p\<lparr>cc_offset := rounded now\<rparr> else p)
      in if ts \<noteq> 0 then (ts, p)
         else
           (let (ms, p) =
              (if type = Voice \<and> \<not> tris_tvzero delivery then (ms_since delivery (cc_offset p), p)
               else
                 (let ms = ms_since now (cc_offset p)
                  in if type = Voice
                     then
                       (if cc_notsilenttx p \<and> abs32 (ms - cc_nextpred p) \<le>s 160
                        then
                          (let adjust = ms - cc_nextpred p;
                               p = (if adjust <s 0
                                    then p\<lparr>cc_offset := tris_tvsub (cc_offset p) (tris_samp2tv (unat (abs32 adjust)) 10000)\<rparr>
                                    else if 0 <s adjust
                                    then p\<lparr>cc_offset := tris_tvadd (cc_offset p) (tris_samp2tv (unat adjust) 10000)\<rparr>
                                    else p);
                               p = (if cc_nextpred p = 0
                                    then p\<lparr>cc_nextpred := if ms \<le> cc_lastsent p then cc_lastsent p + 3 else ms\<rparr>
                                    else p)
                           in (cc_nextpred p, p))
                        else
                          (let frame = samples div rate;
                               diff = (if rate \<le> samples then unat ms mod frame else 0);
                               ms = (if diff \<noteq> 0 then ms + of_nat (frame - diff) else ms)
                           in (ms, p\<lparr>cc_nextpred := ms, cc_notsilenttx := True\<rparr>)))
                     else if type = Video then (if ms < cc_lastsent p then cc_lastsent p else ms, p)
                     else if type = Iax then (if ms \<le> cc_lastsent p then cc_lastsent p + 3 else ms, p)
                     else (if abs32 (ms - cc_lastsent p) \<le>s 160 then cc_lastsent p + 3 else ms, p)));
              p = p\<lparr>cc_lastsent := ms\<rparr>;
              p = (if type = Voice then p\<lparr>cc_nextpred := cc_nextpred p + of_nat (samples div rate)\<rparr> else p)
            in (ms, p)))"

definition calc_rxstamp :: "call_clock \<Rightarrow> u32 \<Rightarrow> timeval \<Rightarrow> u32 \<times> call_clock" where
  "calc_rxstamp p offset now =
     (let p = (if tris_tvzero (cc_rxcore p) then p\<lparr>cc_rxcore := tris_tvsub now (tris_samp2tv (unat offset) 1000)\<rparr> else p)
      in (word_of_int (tris_tvdiff_ms now (cc_rxcore p)), p))"

definition fix_peerts :: "call_clock \<Rightarrow> timeval \<Rightarrow> u32 \<Rightarrow> timeval \<Rightarrow> u32 \<times> call_clock" where
  "fix_peerts p rxtrunktime ts now =
     (let p = (if tris_tvzero (cc_rxcore p) then p\<lparr>cc_rxcore := rounded now\<rparr> else p)
      in (word_of_int (tris_tvdiff_ms rxtrunktime (cc_rxcore p)) + ts, p))"

section \<open>Which subclasses survive\<close>

lemma single_bit: "filter (bit (push_bit k 1 :: u32)) [0..<31] = (if k < 31 then [k] else [])"
proof -
  have "filter (bit (push_bit k 1 :: u32)) [0..<31] = filter (\<lambda>n. n = k) [0..<31]"
    by (rule filter_cong) (auto simp: bit_simps)
  moreover have "list_all (\<lambda>k. filter (\<lambda>n. n = k) [0..<31] = [k]) [0..<31]" by code_simp
  ultimately show ?thesis by (auto simp: list_all_iff filter_empty_conv)
qed

lemma power_roundtrip: "k < 31 \<Longrightarrow> uncompress_subclass (of_nat k OR 0x80) = push_bit k 1"
proof -
  have "list_all (\<lambda>k. uncompress_subclass (of_nat k OR 0x80) = push_bit k 1) [0..<31]" by code_simp
  then show "k < 31 \<Longrightarrow> uncompress_subclass (of_nat k OR 0x80) = push_bit k 1" by (simp add: list_all_iff)
qed

lemma bits_of_one_power:
  fixes s :: u32
  assumes "filter (bit s) [0..<31] = [x]" "\<not> bit s 31"
  shows "s = push_bit x 1" "x < 31"
proof -
  have x: "n < 31 \<and> bit s n \<longleftrightarrow> n = x" for n
    using arg_cong [OF assms(1), of set] by auto
  show "x < 31" using x by blast
  show "s = push_bit x 1"
  proof (rule bit_word_eqI)
    fix n assume "n < LENGTH(32)"
    then show "bit s n = bit (push_bit x 1 :: u32) n"
      using x [of n] x [of x] assms(2) by (cases "n = 31") (auto simp: bit_simps)
  qed
qed

text \<open>A subclass travels in one byte, and what the other side makes of it is the subclass itself
  exactly when it is below 128, a power of two up to the thirtieth, or - 1; every other subclass arrives as
  something else.\<close>

lemma compress_subclass_exact:
  "uncompress_subclass (compress_subclass s) = s \<longleftrightarrow> s = - 1 \<or> s < 128 \<or> (\<exists>k \<le> 30. s = push_bit k 1)"
proof -
  have pos: "\<not> bit (push_bit k 1 :: u32) 31" if "k \<le> 30" for k using that by (auto simp: bit_simps)
  have neg: "bit s 31 \<longleftrightarrow> sint s < 0" using bit_last_iff [of s] by simp
  have odd: "bit s 31 \<longleftrightarrow> odd (uint s div 2 ^ 31)"
    unfolding bit_iff_odd [of "uint s" 31, symmetric] by (simp add: bit_uint_iff)
  have uneg: "bit s 31 \<longleftrightarrow> 2 ^ 31 \<le> uint s"
  proof (cases "2 ^ 31 \<le> uint s")
    case True
    then have "uint s div 2 ^ 31 = 1" using uint_lt2p [of s] int_div_pos_eq [of "uint s" "2 ^ 31" 1 "uint s - 2 ^ 31"] by simp
    then show ?thesis using True unfolding odd by simp
  next
    case False
    then have "uint s div 2 ^ 31 = 0" by (simp add: div_pos_pos_trivial)
    then show ?thesis using False unfolding odd by simp
  qed
  have small_sless: "s <s 0x80 \<longleftrightarrow> sint s < 128" by (simp add: word_sless_alt)
  consider (small) "s < 128" | (negative) "bit s 31" | (large) "128 \<le> s" "\<not> bit s 31" by fastforce
  then show ?thesis
  proof cases
    case small
    have "list_all (\<lambda>n. uncompress_subclass (compress_subclass (of_nat n)) = of_nat n) [0..<128]" by code_simp
    moreover obtain n where "s = of_nat n" "n < 128"
      using small by (intro that [of "unat s"]) (simp_all add: word_less_nat_alt)
    ultimately have "uncompress_subclass (compress_subclass s) = s" by (simp add: list_all_iff)
    then show ?thesis using small by simp
  next
    case negative
    then have c: "compress_subclass s = ucast s" using neg small_sless by (simp add: compress_subclass_def)
    show ?thesis
    proof (cases "s = - 1")
      case True
      have "uncompress_subclass (compress_subclass (- 1)) = - 1" by code_simp
      then show ?thesis using True by metis
    next
      case False
      have "\<not> s < 128" using negative uneg by (simp add: word_less_alt)
      moreover have "uncompress_subclass (ucast s) \<noteq> s"
      proof
        assume u: "uncompress_subclass (ucast s) = s"
        show False
        proof (cases "(ucast s :: u8) AND 0x80 = 0 \<or> (ucast s :: u8) = 0xff")
          case True
          then show False using u negative False by (auto simp: uncompress_subclass_def bit_simps split: if_splits dest: arg_cong [of _ _ "\<lambda>w. bit w 31"])
        next
          case no: False
          let ?m = "unat ((ucast s :: u8) AND NOT 0x80 AND 0x1f)"
          have s: "s = push_bit ?m 1" using u no by (simp add: uncompress_subclass_def)
          then have "bit (push_bit ?m 1 :: u32) 31" using negative by metis
          then have "?m = 31" by (auto simp: bit_simps)
          then have "s = push_bit 31 1" using s by metis
          then show False using no by simp
        qed
      qed
      ultimately show ?thesis using False pos negative c by auto
    qed
  next
    case large
    then have "uint s < 2 ^ 31" using uneg by simp
    then have "\<not> s <s 0x80" unfolding small_sless using large
      by (simp add: word_le_def sint_uint signed_take_bit_eq_if_positive bit_uint_iff take_bit_int_eq_self)
    then have c: "compress_subclass s = (case filter (bit s) [0..<31] of [] \<Rightarrow> - 1 | [x] \<Rightarrow> of_nat x OR 0x80 | _ \<Rightarrow> 0)"
      by (simp add: compress_subclass_def)
    show ?thesis
    proof (cases "\<exists>x. filter (bit s) [0..<31] = [x]")
      case True
      then obtain x where x: "filter (bit s) [0..<31] = [x]" by blast
      then have "s = push_bit x 1" "x < 31" using bits_of_one_power large(2) by blast+
      then show ?thesis using c x power_roundtrip [of x] by (auto simp: less_Suc_eq_le [symmetric] simp del: push_bit_of_1)
    next
      case False
      have "filter (bit s) [0..<31] \<noteq> []"
      proof
        assume none: "filter (bit s) [0..<31] = []"
        have "s = 0"
        proof (rule bit_word_eqI)
          fix n assume "n < LENGTH(32)"
          then show "bit s n = bit 0 n" using none large(2) by (cases "n = 31") (auto simp: filter_empty_conv)
        qed
        then show False using large(1) by simp
      qed
      then have "compress_subclass s = 0" using c False by (auto split: list.splits)
      moreover have "uncompress_subclass 0 = 0" by (simp add: uncompress_subclass_def)
      moreover have "s \<noteq> push_bit k 1" if "k \<le> 30" for k using False single_bit [of k] that by (auto simp del: push_bit_of_1)
      ultimately show ?thesis using large by auto
    qed
  qed
qed

section \<open>Timestamps of mini frames\<close>

lemma or_low:
  fixes a b :: u32
  assumes "take_bit s a = 0"
  shows "a OR take_bit s b = a + take_bit s b"
proof -
  have "\<not> bit a n \<or> \<not> bit (take_bit s b) n" for n
    using arg_cong [OF assms, of "\<lambda>w. bit w n"] by (auto simp: bit_simps)
  then show ?thesis by (simp add: disjunctive_add)
qed

lemma sint_small: "- (2 ^ 31) \<le> d \<Longrightarrow> d < 2 ^ 31 \<Longrightarrow> sint (word_of_int d :: u32) = d"
  by (simp add: signed_of_int signed_take_bit_int_eq_self)

lemma unwrap_recovers_aux:
  fixes prev fts :: u32
  assumes "\<bar>d\<bar> < 2 ^ s - thr" "fts = prev + word_of_int d" "s = ts_shift video" "thr = (if video then 25000 else 50000)"
  shows "unwrap_timestamp video prev (completed_ts video prev (mini_ts video fts)) = fts"
proof -
  define L where "L = prev AND NOT (mask s)"
  define l where "l = take_bit s prev"
  define t where "t = take_bit s fts"
  have s: "s = 15 \<and> thr = 25000 \<or> s = 16 \<and> thr = 50000" using assms(3,4) by (auto simp: ts_shift_def)
  then have sz: "s \<le> 16" "s < 32" "(2::int) ^ s dvd 2 ^ 32" by (auto simp: dvd_def intro: exI [of _ "2 ^ 17"] exI [of _ "2 ^ 16"])
  have L0: "take_bit s L = 0" unfolding L_def by (rule bit_word_eqI) (auto simp: bit_simps)
  have L1: "take_bit s (L + push_bit s 1) = 0" "take_bit s (L - push_bit s 1) = 0"
  proof -
    have z: "take_bit s w = 0 \<longleftrightarrow> 2 ^ s dvd uint w" for w :: u32
    proof -
      have "take_bit s w = 0 \<longleftrightarrow> uint (take_bit s w) = 0" by (simp only: unsigned_eq_0_iff)
      moreover have "uint (take_bit s w) = uint w mod 2 ^ s" by (simp only: unsigned_take_bit_eq) (simp add: take_bit_eq_mod)
      ultimately show ?thesis by (simp add: dvd_eq_mod_eq_0)
    qed
    have "uint (push_bit s 1 :: u32) = 2 ^ s" using s by (auto simp: push_bit_eq_mult)
    then show "take_bit s (L + push_bit s 1) = 0" "take_bit s (L - push_bit s 1) = 0"
      using L0 sz(3) unfolding z by (simp_all add: uint_word_ariths dvd_mod)
  qed
  have prev: "prev = L + l"
    unfolding l_def or_low [OF L0, symmetric] unfolding L_def by (rule bit_word_eqI) (auto simp: bit_simps)
  have completed: "completed_ts video prev (mini_ts video fts) = L + t"
    unfolding t_def or_low [OF L0, symmetric]
    using assms(3) by (simp add: completed_ts_def mini_ts_def L_def take_bit_eq_mask)
  have masks: "(L + t) AND NOT (mask s) = L" "(L + t) AND mask s = t"
    unfolding t_def or_low [OF L0, symmetric] unfolding L_def by (rule bit_word_eqI; auto simp: bit_simps)+
  have lt: "uint l = uint prev mod 2 ^ s" "uint t = uint fts mod 2 ^ s"
    by (simp_all only: l_def t_def unsigned_take_bit_eq) (simp_all add: take_bit_eq_mod)
  have "uint fts = (uint prev + d) mod 2 ^ 32" by (simp add: assms(2) uint_word_ariths(1) uint_word_of_int mod_add_right_eq)
  then have "uint fts mod 2 ^ s = (uint prev + d) mod 2 ^ s" using sz(3) by (simp add: mod_mod_cancel)
  then have ut: "uint t = (uint l + d) mod 2 ^ s" using lt by (simp add: mod_add_left_eq)
  have l: "0 \<le> uint l" "uint l < 2 ^ s" using lt(1) by simp_all
  have N: "word_of_int (2 ^ s) = (push_bit s 1 :: u32)" by (simp add: push_bit_eq_mult)
  have t_word: "t = l + word_of_int e" if "uint t = uint l + e" for e
    using arg_cong [OF that, of "word_of_int :: int \<Rightarrow> u32"] by simp
  have jump: "(L + t) - prev = word_of_int e" if "t = l + word_of_int e" for e using that prev by simp
  define h :: u32 where "h = (if video then 25000 else 50000)"
  have eq: "unwrap_timestamp video prev (L + t) =
      (if L + t - prev <s - h then (L + push_bit s 1) OR t else if h <s L + t - prev then (L - push_bit s 1) OR t else L + t)"
    unfolding unwrap_timestamp_def Let_def assms(3) [symmetric] L_def [symmetric] masks h_def by simp
  have h: "sint h = thr" "sint (- h) = - thr" using assms(4) by (simp_all add: h_def)
  have fts: "fts = L + l + word_of_int d" using assms(2) unfolding prev .
  note or_t = or_low [OF L1(1), of fts, folded t_def] or_low [OF L1(2), of fts, folded t_def]
  consider (same) "0 \<le> uint l + d" "uint l + d < 2 ^ s" | (forward) "2 ^ s \<le> uint l + d" | (behind) "uint l + d < 0" by linarith
  then show ?thesis
  proof cases
    case same
    then have t: "t = l + word_of_int d" using ut t_word by simp
    have x: "sint (L + t - prev) = d" unfolding jump [OF t] using s assms(1) by (intro sint_small) auto
    have "unwrap_timestamp video prev (L + t) = L + t"
      unfolding eq word_sless_alt x h using s assms(1) by auto
    moreover have "L + t = fts" unfolding fts t by (simp add: add.assoc)
    ultimately show ?thesis using completed by metis
  next
    case forward
    have "(uint l + d) mod 2 ^ s = uint l + (d - 2 ^ s)"
      using forward l s assms(1) mod_pos_pos_trivial [of "uint l + (d - 2 ^ s)" "2 ^ s"] mod_diff_right_eq [of "uint l + d" "2 ^ s" "2 ^ s"]
      by (auto simp: algebra_simps)
    then have t: "t = l + word_of_int (d - 2 ^ s)" using ut t_word by simp
    have x: "sint (L + t - prev) = d - 2 ^ s" unfolding jump [OF t] using s assms(1) by (intro sint_small) auto
    have "unwrap_timestamp video prev (L + t) = L + push_bit s 1 + t"
      unfolding eq word_sless_alt x h or_t using s assms(1) by auto
    moreover have "L + push_bit s 1 + t = fts" unfolding fts t by (simp add: N [symmetric] algebra_simps del: push_bit_of_1)
    ultimately show ?thesis using completed by metis
  next
    case behind
    have "(uint l + d) mod 2 ^ s = uint l + (d + 2 ^ s)"
    proof -
      have "(uint l + (d + 2 ^ s)) mod 2 ^ s = uint l + (d + 2 ^ s)"
        by (rule mod_pos_pos_trivial) (use behind l s assms(1) in auto)
      then show ?thesis by (metis add.assoc mod_add_self2)
    qed
    then have t: "t = l + word_of_int (d + 2 ^ s)" using ut t_word by simp
    have x: "sint (L + t - prev) = d + 2 ^ s" unfolding jump [OF t] using s assms(1) by (intro sint_small) auto
    have "unwrap_timestamp video prev (L + t) = L - push_bit s 1 + t"
      unfolding eq word_sless_alt x h or_t using s assms(1) by auto
    moreover have "L - push_bit s 1 + t = fts" unfolding fts t by (simp add: N [symmetric] algebra_simps del: push_bit_of_1)
    ultimately show ?thesis using completed by metis
  qed
qed

text \<open>Claim C23. A voice frame whose timestamp lies less than 15536 ms from the last one that was received,
  before or after it, keeps its whole timestamp although a mini frame carries its lower 16 bits only, and so
  does a video frame within 7768 ms with 15 bits, also when the lower bits have gone round in between.\<close>

theorem unwrap_recovers:
  assumes "\<bar>d\<bar> < (if video then 7768 else 15536)" "fts = prev + word_of_int d"
  shows "unwrap_timestamp video prev (completed_ts video prev (mini_ts video fts)) = fts"
  using unwrap_recovers_aux [of d "ts_shift video" "if video then 25000 else 50000" fts prev video] assms
  by (auto simp: ts_shift_def split: if_splits)

theorem unwrap_recovers_witness:
  "unwrap_timestamp False 0x1FFF0 (completed_ts False 0x1FFF0 (mini_ts False 0x20010)) = 0x20010"
  using unwrap_recovers [of 32 False "0x20010" "0x1FFF0"] by simp

text \<open>Further away the frame is moved by a whole period: here by 65536 ms, 20 s after the last one.\<close>

lemma unwrap_far: "unwrap_timestamp False 0xFFF0 (completed_ts False 0xFFF0 (mini_ts False (0xFFF0 + 20000))) = 0xFFF0 + 20000 - 0x10000"
  by code_simp

section \<open>Full frames\<close>

text \<open>A frame of the queue of full frames that are to be acknowledged; a number of retries below zero means
  that it has been. Of a call: the next number to send, the first one not acknowledged, the next one
  expected, the last one acknowledged to the peer, and whether a channel owns it.\<close>

record qframe =
  q_callno :: nat
  q_oseqno :: u8
  q_retries :: int
  q_retrytime :: int
  q_final :: bool
  q_transfer :: bool

record seq_call =
  s_callno :: nat
  s_oseqno :: u8
  s_rseqno :: u8
  s_iseqno :: u8
  s_aseqno :: u8
  s_owner :: bool

text \<open>The commands that the sequence numbers treat apart.\<close>

definition IAX_COMMAND_ACK :: nat where "IAX_COMMAND_ACK = 4"
definition IAX_COMMAND_INVAL :: nat where "IAX_COMMAND_INVAL = 10"
definition IAX_COMMAND_VNAK :: nat where "IAX_COMMAND_VNAK = 18"
definition IAX_COMMAND_TXCNT :: nat where "IAX_COMMAND_TXCNT = 23"
definition IAX_COMMAND_TXACC :: nat where "IAX_COMMAND_TXACC = 24"
definition IAX_COMMAND_TXREADY :: nat where "IAX_COMMAND_TXREADY = 25"
definition IAX_COMMAND_TXREL :: nat where "IAX_COMMAND_TXREL = 26"
definition IAX_COMMAND_UNQUELCH :: nat where "IAX_COMMAND_UNQUELCH = 29"

definition transfer_commands :: "nat list" where
  "transfer_commands = [IAX_COMMAND_TXCNT, IAX_COMMAND_TXREADY, IAX_COMMAND_TXREL, IAX_COMMAND_UNQUELCH, IAX_COMMAND_TXACC]"

lemmas command_defs =
  IAX_COMMAND_ACK_def IAX_COMMAND_INVAL_def IAX_COMMAND_VNAK_def IAX_COMMAND_TXCNT_def IAX_COMMAND_TXACC_def
  IAX_COMMAND_TXREADY_def IAX_COMMAND_TXREL_def IAX_COMMAND_UNQUELCH_def transfer_commands_def

subsection \<open>Receiving\<close>

text \<open>What becomes of a frame by its number: it is processed, or an old one acknowledged once more, or the
  missing ones are asked for. The result is the next number expected. An out-of-order frame that is
  processed all the same, an acknowledgement among them, does not count.\<close>

datatype reaction = Process | Ack_again | Ask_again | Drop

definition check_sequence :: "bool \<Rightarrow> nat \<Rightarrow> u8 \<Rightarrow> u8 \<Rightarrow> reaction \<times> u8" where
  "check_sequence is_iax subclass iseqno oseqno =
     (if iseqno \<noteq> oseqno \<and> (iseqno \<noteq> 0 \<or> subclass \<notin> set transfer_commands \<or> \<not> is_iax)
      then (if subclass \<notin> set (IAX_COMMAND_ACK # IAX_COMMAND_INVAL # IAX_COMMAND_VNAK # transfer_commands) \<or> \<not> is_iax
            then (if iseqno - oseqno < 128
                  then (if \<not> is_iax \<or> subclass \<noteq> IAX_COMMAND_ACK \<and> subclass \<noteq> IAX_COMMAND_INVAL then Ack_again else Drop, iseqno)
                  else (Ask_again, iseqno))
            else (Process, iseqno))
      else (Process,
            if subclass \<notin> {IAX_COMMAND_ACK, IAX_COMMAND_INVAL, IAX_COMMAND_TXCNT, IAX_COMMAND_TXACC, IAX_COMMAND_VNAK} \<or> \<not> is_iax
            then iseqno + 1 else iseqno))"

lemma next_number:
  assumes "x \<noteq> y"
  shows "unat (y - (x + 1)) < unat (y - x :: u8)"
proof -
  have "0 < unat (y - x)" using assms by (simp add: unat_gt_0)
  then have "unat (y - x - 1) < unat (y - x)" using assms by (simp add: unat_minus_one)
  then show ?thesis by (simp add: diff_diff_eq)
qed

text \<open>The acknowledged numbers, one by one; the second result is whether one of their frames was the last of
  the call.\<close>

function ack_loop :: "nat \<Rightarrow> u8 \<Rightarrow> u8 \<Rightarrow> qframe list \<Rightarrow> bool \<Rightarrow> qframe list \<times> bool" where
  "ack_loop callno x iseqno queue final =
     (if x = iseqno then (queue, final)
      else ack_loop callno (x + 1) iseqno
        (map (\<lambda>f. if q_callno f = callno \<and> q_oseqno f = x then f\<lparr>q_retries := - 1\<rparr> else f) queue)
        (final \<or> list_ex (\<lambda>f. q_callno f = callno \<and> q_oseqno f = x \<and> q_final f) queue))"
  by pat_completeness auto
termination
  by (relation "measure (\<lambda>(callno, x, iseqno, queue, final). unat (iseqno - x))") (auto simp: next_number)

declare ack_loop.simps [simp del]

text \<open>The window of the numbers that can be acknowledged is tested with comparisons of bytes.\<close>

definition ack_in_window :: "u8 \<Rightarrow> u8 \<Rightarrow> u8 \<Rightarrow> bool" where
  "ack_in_window rseqno oseqno iseqno =
     (let x = (if oseqno \<le> rseqno \<or> rseqno \<le> iseqno \<and> iseqno < oseqno then iseqno else oseqno)
      in x \<noteq> oseqno \<or> oseqno = iseqno)"

text \<open>Acknowledgement by the number that a frame of the real peer expects next. Without an owner the call is
  destroyed when its last frame has been acknowledged: then there is none any more, and its frames are
  cancelled.\<close>

definition cancel_call :: "nat \<Rightarrow> qframe list \<Rightarrow> qframe list" where
  "cancel_call callno queue = map (\<lambda>f. if q_callno f = callno then f\<lparr>q_retries := - 1\<rparr> else f) queue"

definition implicit_ack :: "seq_call \<Rightarrow> u8 \<Rightarrow> qframe list \<Rightarrow> seq_call option \<times> qframe list" where
  "implicit_ack call iseqno queue =
     (if ack_in_window (s_rseqno call) (s_oseqno call) iseqno
      then (let (queue, final) = ack_loop (s_callno call) (s_rseqno call) iseqno queue False
            in if final \<and> \<not> s_owner call then (None, cancel_call (s_callno call) queue)
               else (Some (call\<lparr>s_rseqno := iseqno\<rparr>), queue))
      else (Some call, queue))"

text \<open>A full frame: its type and command, its two numbers, and whether it comes from the real peer and not
  from one that the call is being transferred to. The results are the reaction, the call and the queue.
  Frames that are not processed leave the queue alone.\<close>

definition receive_full :: "bool \<Rightarrow> nat \<Rightarrow> u8 \<Rightarrow> u8 \<Rightarrow> bool \<Rightarrow> seq_call \<Rightarrow> qframe list \<Rightarrow> reaction \<times> seq_call option \<times> qframe list" where
  "receive_full is_iax subclass oseqno iseqno from_peer call queue =
     (case check_sequence is_iax subclass (s_iseqno call) oseqno of
        (Process, next) \<Rightarrow>
          (let call = call\<lparr>s_iseqno := next\<rparr>
           in if from_peer \<and> (subclass \<noteq> IAX_COMMAND_INVAL \<or> \<not> is_iax)
              then (let (call, queue) = implicit_ack call iseqno queue
                    in (if call = None then Drop else Process, call, queue))
              else (if \<not> from_peer \<and> (\<not> is_iax \<or> subclass \<noteq> IAX_COMMAND_TXACC \<and> subclass \<noteq> IAX_COMMAND_TXCNT)
                    then Drop else Process, Some call, queue))
      | (r, next) \<Rightarrow> (r, Some call, queue))"

subsection \<open>Sending\<close>

definition MIN_RETRY_TIME :: int where "MIN_RETRY_TIME = 100"
definition MAX_RETRY_TIME :: int where "MAX_RETRY_TIME = 10000"

text \<open>A full frame gets the number it is to have, or the next one, and its header acknowledges what has been
  received, which only counts for the real peer. The frame comes with the number in that header.\<close>

definition number_full :: "seq_call \<Rightarrow> int \<Rightarrow> bool \<Rightarrow> bool \<Rightarrow> bool \<Rightarrow> int \<Rightarrow> qframe \<times> u8 \<times> seq_call" where
  "number_full call seqno transfer final is_ack pingtime =
     (let (o_num, call) = (if - 1 < seqno then (word_of_int seqno, call) else (s_oseqno call, call\<lparr>s_oseqno := s_oseqno call + 1\<rparr>));
          header = (if transfer then 0 else s_iseqno call);
          call = (if transfer then call else call\<lparr>s_aseqno := s_iseqno call\<rparr>);
          t = pingtime * 2; t = (if t < MIN_RETRY_TIME then MIN_RETRY_TIME else t);
          t = (if MAX_RETRY_TIME < t then MAX_RETRY_TIME else t)
      in (\<lparr>q_callno = s_callno call, q_oseqno = o_num, q_retries = (if is_ack then - 1 else 0), q_retrytime = t,
           q_final = final, q_transfer = transfer\<rparr>, header, call))"

definition iax2_transmit :: "qframe \<Rightarrow> qframe list \<Rightarrow> qframe list" where
  "iax2_transmit f queue = queue @ [f]"

text \<open>The network thread sends a queued frame for the first time; one that is not to be sent again leaves
  the queue.\<close>

definition first_send :: "qframe \<Rightarrow> qframe option" where
  "first_send f = (if q_retries f < 0 then None else Some (f\<lparr>q_retries := q_retries f + 1\<rparr>))"

text \<open>Each time its timer runs out a frame is sent again, or leaves the queue: when it has been acknowledged,
  when the call is gone, or when it has been sent too often, and then a transfer is rejected, or the call
  is destroyed or hung up.\<close>

datatype attempt = Sent_again | Done | Reject_transfer | Destroy | Timed_out

definition attempt_transmit :: "int \<Rightarrow> bool \<Rightarrow> qframe \<Rightarrow> attempt \<times> qframe option" where
  "attempt_transmit max_retries exists f =
     (if \<not> exists then (Done, None)
      else if q_retries f < 0 \<or> max_retries \<le> q_retries f
      then (if max_retries \<le> q_retries f
            then (if q_transfer f then Reject_transfer else if q_final f then Destroy else Timed_out)
            else Done, None)
      else
        (let t = q_retrytime f * 10; t = (if MAX_RETRY_TIME < t then MAX_RETRY_TIME else t);
             t = (if q_transfer f \<and> 1000 < t then 1000 else t)
         in (Sent_again, Some (f\<lparr>q_retries := q_retries f + 1, q_retrytime := t\<rparr>))))"

text \<open>The frames that are sent once more when the peer asks for those from \<open>last\<close> on.\<close>

definition vnak_retransmit :: "nat \<Rightarrow> bool \<Rightarrow> u8 \<Rightarrow> qframe list \<Rightarrow> qframe list" where
  "vnak_retransmit callno exists prev queue =
     filter (\<lambda>f. q_callno f = callno \<and> exists \<and> q_oseqno f - prev < 128 \<and> 0 \<le> q_retries f) queue"

text \<open>Frames of a call that is being worked on are put off, in the order of their numbers.\<close>

fun defer_full_frame :: "u8 \<Rightarrow> u8 list \<Rightarrow> u8 list" where
  "defer_full_frame x [] = [x]"
| "defer_full_frame x (y # ys) = (if x < y then x # y # ys else y # defer_full_frame x ys)"

section \<open>Acknowledgement\<close>

definition cancelled :: "nat \<Rightarrow> u8 \<Rightarrow> u8 \<Rightarrow> qframe \<Rightarrow> qframe" where
  "cancelled callno x iseqno f =
     (if q_callno f = callno \<and> q_oseqno f - x < iseqno - x then f\<lparr>q_retries := - 1\<rparr> else f)"

lemma list_ex_split: "(\<And>f. P f \<longleftrightarrow> Q f \<or> R (m f)) \<Longrightarrow> list_ex P xs \<longleftrightarrow> list_ex Q xs \<or> list_ex R (map m xs)"
  by (induction xs) auto

lemma minus_step:
  fixes x y z :: u8
  assumes "x \<noteq> y"
  shows "z - x < y - x \<longleftrightarrow> z = x \<or> z - (x + 1) < y - (x + 1)"
proof -
  have lt: "0 < y - x" using assms by (simp add: word_gt_0)
  have y: "unat (y - (x + 1)) = unat (y - x) - 1" using assms by (simp add: diff_diff_eq [symmetric] unat_minus_one)
  show ?thesis
  proof (cases "z = x")
    case False
    then have z: "unat (z - (x + 1)) = unat (z - x) - 1" "0 < unat (z - x)"
      by (simp_all add: diff_diff_eq [symmetric] unat_minus_one unat_gt_0)
    show ?thesis using False z y lt by (auto simp: word_less_nat_alt)
  qed (use lt in simp)
qed

text \<open>Walking through the numbers cancels the frames of the call from the first number up to the last.\<close>

lemma ack_loop_cancels:
  "ack_loop callno x iseqno queue final =
    (map (cancelled callno x iseqno) queue,
     final \<or> list_ex (\<lambda>f. q_callno f = callno \<and> q_oseqno f - x < iseqno - x \<and> q_final f) queue)"
proof (induction callno x iseqno queue final rule: ack_loop.induct)
  case (1 callno x iseqno queue final)
  show ?case
  proof (cases "x = iseqno")
    case True
    then show ?thesis by (subst ack_loop.simps) (simp add: cancelled_def list_ex_iff map_idI)
  next
    case False
    let ?mark = "\<lambda>f. if q_callno f = callno \<and> q_oseqno f = x then f\<lparr>q_retries := - 1\<rparr> else f"
    have one: "cancelled callno (x + 1) iseqno (?mark f) = cancelled callno x iseqno f" for f
      unfolding cancelled_def minus_step [OF False] by (cases "q_callno f = callno"; cases "q_oseqno f = x") simp_all
    have ends: "list_ex (\<lambda>f. q_callno f = callno \<and> q_oseqno f - x < iseqno - x \<and> q_final f) queue \<longleftrightarrow>
        list_ex (\<lambda>f. q_callno f = callno \<and> q_oseqno f = x \<and> q_final f) queue \<or>
        list_ex (\<lambda>f. q_callno f = callno \<and> q_oseqno f - (x + 1) < iseqno - (x + 1) \<and> q_final f) (map ?mark queue)"
      by (rule list_ex_split) (simp only: minus_step [OF False], auto)
    have "ack_loop callno x iseqno queue final = ack_loop callno (x + 1) iseqno (map ?mark queue)
        (final \<or> list_ex (\<lambda>f. q_callno f = callno \<and> q_oseqno f = x \<and> q_final f) queue)"
      using False by (subst ack_loop.simps) simp
    also have "\<dots> = (map (\<lambda>f. cancelled callno (x + 1) iseqno (?mark f)) queue,
        (final \<or> list_ex (\<lambda>f. q_callno f = callno \<and> q_oseqno f = x \<and> q_final f) queue) \<or>
        list_ex (\<lambda>f. q_callno f = callno \<and> q_oseqno f - (x + 1) < iseqno - (x + 1) \<and> q_final f) (map ?mark queue))"
      unfolding 1 [OF False] map_map comp_def ..
    finally show ?thesis unfolding ends one disj_assoc .
  qed
qed

lemma of_nat_diff_small: "a \<le> i \<Longrightarrow> i - a < 256 \<Longrightarrow> unat (of_nat i - of_nat a :: u8) = i - a"
  by (simp add: of_nat_diff [symmetric] unat_of_nat del: of_nat_diff)

lemma of_nat_differ: "a < i \<Longrightarrow> i - a < 256 \<Longrightarrow> (of_nat i :: u8) \<noteq> of_nat a"
  using of_nat_diff_small [of a i] by auto

lemma same_block:
  fixes a j n :: nat
  assumes "a \<le> j" "j < n" "n - a < 256" "a mod 256 < n mod 256"
  shows "a mod 256 \<le> j mod 256 \<and> j mod 256 < n mod 256"
proof -
  have e: "k = 256 * (k div 256) + k mod 256" for k :: nat by simp
  have "a div 256 \<le> j div 256" "j div 256 \<le> n div 256" using assms by (simp_all add: div_le_mono)
  moreover have "n div 256 \<le> a div 256"
  proof (rule ccontr)
    assume "\<not> n div 256 \<le> a div 256"
    then have "256 * (a div 256) + 256 \<le> 256 * (n div 256)" by simp
    then have "a + 256 \<le> n" using e [of a] e [of n] assms(4) by linarith
    then show False using assms(3) by simp
  qed
  ultimately have "j div 256 = a div 256" "n div 256 = a div 256" by simp_all
  then show ?thesis using e [of a] e [of j] e [of n] assms(1,2) by linarith
qed

lemma window_accepts:
  assumes "a \<le> j" "j \<le> n" "n - a < 256"
  shows "ack_in_window (of_nat a) (of_nat n) (of_nat j)"
proof (cases "j = n")
  case False
  have "(of_nat j :: u8) \<noteq> of_nat n" using of_nat_differ [of j n] assms False by fastforce
  moreover have "of_nat n \<le> (of_nat a :: u8) \<or> of_nat a \<le> (of_nat j :: u8) \<and> of_nat j < (of_nat n :: u8)"
    using same_block [of a j n] assms False by (auto simp: word_le_nat_alt word_less_nat_alt unat_of_nat)
  ultimately show ?thesis by (simp add: ack_in_window_def Let_def)
qed (simp add: ack_in_window_def Let_def)

text \<open>An old acknowledgement is refused as long as the window has not gone round.\<close>

lemma window_refuses:
  assumes "j < a" "a \<le> n" "n < j + 256" "(of_nat a :: u8) < of_nat n"
  shows "\<not> ack_in_window (of_nat a) (of_nat n) (of_nat j)"
proof -
  have e: "k = 256 * (k div 256) + k mod 256" for k :: nat by simp
  have an: "a mod 256 < n mod 256" using assms(4) by (simp add: word_less_nat_alt unat_of_nat)
  have "\<not> (a mod 256 \<le> j mod 256 \<and> j mod 256 < n mod 256)"
  proof
    assume j: "a mod 256 \<le> j mod 256 \<and> j mod 256 < n mod 256"
    have "\<not> a div 256 \<le> j div 256" using e [of a] e [of j] assms(1) j by linarith
    then have "256 * (j div 256) + 256 \<le> 256 * (a div 256)" by simp
    moreover have "256 * (a div 256) \<le> 256 * (n div 256)" using assms(2) by (simp add: div_le_mono)
    ultimately show False using e [of j] e [of n] assms(3) j by linarith
  qed
  then have "\<not> ((of_nat a :: u8) \<le> of_nat j \<and> (of_nat j :: u8) < of_nat n)"
    by (simp add: word_less_nat_alt word_le_nat_alt unat_of_nat)
  moreover have "(of_nat n :: u8) \<noteq> of_nat j" using assms(1-3) by (intro of_nat_differ) linarith+
  ultimately show ?thesis using assms(4) by (auto simp: ack_in_window_def Let_def not_le)
qed

text \<open>An acknowledgement of numbers that were sent cancels exactly those of them that were not acknowledged
  before.\<close>

lemma implicit_ack_exact:
  assumes "a \<le> j" "j \<le> n" "n - a < 256" "s_rseqno call = of_nat a" "s_oseqno call = of_nat n"
    and "list_all (\<lambda>f. \<not> q_final f) queue"
  shows "implicit_ack call (of_nat j) queue =
    (Some (call\<lparr>s_rseqno := of_nat j\<rparr>), map (cancelled (s_callno call) (of_nat a) (of_nat j)) queue)"
  using window_accepts [OF assms(1-3)] assms(4-6)
  by (auto simp: implicit_ack_def ack_loop_cancels list_ex_iff list_all_iff)

section \<open>A link of two peers\<close>

text \<open>One peer sends frames to the other over a network that loses, repeats and reorders them. Frames are
  counted from 0, but only the lower byte of the count travels. The state has the calls of both peers, the
  sender's queue, the counts of frames sent, of frames acknowledged to the sender and of frames the receiver
  has processed, which ones these were, and whether the sender has given up a frame.\<close>

record link =
  sender :: seq_call
  receiver :: seq_call
  queue :: "qframe list"
  sent :: nat
  acked :: nat
  taken :: nat
  log :: "nat list"
  failed :: bool

definition ordinary :: "bool \<Rightarrow> nat \<Rightarrow> bool" where
  "ordinary is_iax subclass \<longleftrightarrow>
     \<not> is_iax \<or> subclass \<notin> set (IAX_COMMAND_ACK # IAX_COMMAND_INVAL # IAX_COMMAND_VNAK # transfer_commands)"

text \<open>The steps: the sender sends a new frame, as long as fewer than 128 are not acknowledged; a copy of a
  frame less than 256 old arrives; an acknowledgement arrives that is not older than the last one, or
  is, while the bytes of the window have not gone round; a frame of the queue is sent for the first time or
  its timer runs out. What the frames of the receiver carry beside the acknowledgement is left open.\<close>

inductive link_step :: "link \<Rightarrow> link \<Rightarrow> bool" where
  send: "sent st - acked st < 128 \<Longrightarrow> number_full (sender st) (- 1) False False False pingtime = (f, header, call) \<Longrightarrow>
    link_step st (st\<lparr>sender := call, queue := iax2_transmit f (queue st), sent := sent st + 1\<rparr>)"
| arrive: "i < sent st \<Longrightarrow> taken st < i + 256 \<Longrightarrow> ordinary is_iax subclass \<Longrightarrow>
    check_sequence is_iax subclass (s_iseqno (receiver st)) (of_nat i) = (r, next) \<Longrightarrow>
    link_step st (st\<lparr>receiver := (receiver st)\<lparr>s_iseqno := next\<rparr>,
      taken := taken st + (if r = Process then 1 else 0),
      log := log st @ (if r = Process then [i] else [])\<rparr>)"
| acknowledge: "acked st \<le> j \<Longrightarrow> j \<le> taken st \<Longrightarrow> implicit_ack (sender st) (of_nat j) (queue st) = (Some call, q) \<Longrightarrow>
    link_step st (st\<lparr>sender := call, queue := q, acked := j\<rparr>)"
| late: "j < acked st \<Longrightarrow> sent st < j + 256 \<Longrightarrow> (of_nat (acked st) :: u8) < of_nat (sent st) \<Longrightarrow>
    implicit_ack (sender st) (of_nat j) (queue st) = (Some call, q) \<Longrightarrow>
    link_step st (st\<lparr>sender := call, queue := q\<rparr>)"
| first: "queue st = us @ f # vs \<Longrightarrow> first_send f = g \<Longrightarrow>
    link_step st (st\<lparr>queue := us @ (case g of None \<Rightarrow> [] | Some f \<Rightarrow> [f]) @ vs\<rparr>)"
| timer: "queue st = us @ f # vs \<Longrightarrow> attempt_transmit max_retries True f = (a, g) \<Longrightarrow>
    link_step st (st\<lparr>queue := us @ (case g of None \<Rightarrow> [] | Some f \<Rightarrow> [f]) @ vs, failed := failed st \<or> a = Timed_out\<rparr>)"

definition link_start :: "link \<Rightarrow> bool" where
  "link_start st \<longleftrightarrow>
     s_oseqno (sender st) = 0 \<and> s_rseqno (sender st) = 0 \<and> s_iseqno (receiver st) = 0 \<and> queue st = [] \<and>
     sent st = 0 \<and> acked st = 0 \<and> taken st = 0 \<and> log st = [] \<and> \<not> failed st"

inductive link_reach :: "link \<Rightarrow> bool" where
  start: "link_start st \<Longrightarrow> link_reach st"
| step: "link_reach st \<Longrightarrow> link_step st st' \<Longrightarrow> link_reach st'"

text \<open>A frame waits in the queue, not cancelled.\<close>

definition waiting :: "link \<Rightarrow> nat \<Rightarrow> bool" where
  "waiting st i \<longleftrightarrow>
     list_ex (\<lambda>f. q_callno f = s_callno (sender st) \<and> q_oseqno f = of_nat i \<and> 0 \<le> q_retries f) (queue st)"

lemma waiting_failed [simp]: "waiting (failed_update g st) i = waiting st i"
  by (simp add: waiting_def)

definition link_inv :: "link \<Rightarrow> bool" where
  "link_inv st \<longleftrightarrow>
     s_oseqno (sender st) = of_nat (sent st) \<and> s_rseqno (sender st) = of_nat (acked st) \<and>
     s_iseqno (receiver st) = of_nat (taken st) \<and> acked st \<le> taken st \<and> taken st \<le> sent st \<and>
     sent st - acked st \<le> 128 \<and> log st = [0..<taken st] \<and>
     list_all (\<lambda>f. \<not> q_final f \<and> \<not> q_transfer f) (queue st) \<and>
     (\<not> failed st \<longrightarrow> (\<forall>i. taken st \<le> i \<and> i < sent st \<longrightarrow> waiting st i))"

lemma start_inv: "link_start st \<Longrightarrow> link_inv st"
  by (simp add: link_start_def link_inv_def waiting_def)

lemma check_ordinary:
  assumes "ordinary is_iax subclass"
  shows "check_sequence is_iax subclass iseqno oseqno =
    (if iseqno = oseqno then (Process, iseqno + 1) else if iseqno - oseqno < 128 then (Ack_again, iseqno) else (Ask_again, iseqno))"
  using assms by (auto simp: check_sequence_def ordinary_def command_defs)

lemma send_inv:
  assumes "link_inv st" "sent st - acked st < 128" "number_full (sender st) (- 1) False False False pingtime = (f, header, call)"
  shows "link_inv (st\<lparr>sender := call, queue := iax2_transmit f (queue st), sent := sent st + 1\<rparr>)"
proof -
  have f: "q_callno f = s_callno (sender st)" "q_oseqno f = s_oseqno (sender st)" "q_retries f = 0" "\<not> q_final f" "\<not> q_transfer f"
    "s_oseqno call = s_oseqno (sender st) + 1" "s_rseqno call = s_rseqno (sender st)" "s_callno call = s_callno (sender st)"
    using assms(3) by (auto simp: number_full_def Let_def)
  show ?thesis using assms(1,2) f
    by (auto simp: link_inv_def waiting_def iax2_transmit_def less_Suc_eq)
qed

lemma arrive_inv:
  assumes "link_inv st" "i < sent st" "taken st < i + 256" "ordinary is_iax subclass"
    and "check_sequence is_iax subclass (s_iseqno (receiver st)) (of_nat i) = (r, nxt)"
  shows "link_inv (st\<lparr>receiver := (receiver st)\<lparr>s_iseqno := nxt\<rparr>,
      taken := taken st + (if r = Process then 1 else 0), log := log st @ (if r = Process then [i] else [])\<rparr>)"
proof (cases "i = taken st")
  case True
  then have "r = Process" "nxt = s_iseqno (receiver st) + 1"
    using assms(1,5) check_ordinary [OF assms(4)] by (auto simp: link_inv_def)
  then show ?thesis using assms(1,2) True by (auto simp: link_inv_def waiting_def)
next
  case False
  have "(of_nat (taken st) :: u8) \<noteq> of_nat i"
  proof (cases "i < taken st")
    case True
    then show ?thesis using of_nat_differ [of i "taken st"] assms(3) by simp
  next
    case less: False
    have "acked st \<le> taken st" "sent st - acked st \<le> 128" using assms(1) by (simp_all add: link_inv_def)
    then have "taken st < i" "i - taken st < 256" using less False assms(2) by linarith+
    then have "(of_nat i :: u8) \<noteq> of_nat (taken st)" by (rule of_nat_differ)
    then show ?thesis by metis
  qed
  then have "r \<noteq> Process" "nxt = s_iseqno (receiver st)"
    using assms(1,5) check_ordinary [OF assms(4)] by (auto simp: link_inv_def split: if_splits)
  then show ?thesis using assms(1) by (simp add: link_inv_def waiting_def)
qed

lemma acknowledge_inv:
  assumes "link_inv st" "acked st \<le> j" "j \<le> taken st" "implicit_ack (sender st) (of_nat j) (queue st) = (Some call, q)"
  shows "link_inv (st\<lparr>sender := call, queue := q, acked := j\<rparr>)"
proof -
  have "list_all (\<lambda>f. \<not> q_final f) (queue st)" using assms(1) by (simp add: link_inv_def list_all_iff)
  then have eq: "call = (sender st)\<lparr>s_rseqno := of_nat j\<rparr>"
    "q = map (cancelled (s_callno (sender st)) (of_nat (acked st)) (of_nat j)) (queue st)"
    using implicit_ack_exact [of "acked st" j "sent st" "sender st" "queue st"] assms by (auto simp: link_inv_def)
  have "waiting (st\<lparr>sender := call, queue := q, acked := j\<rparr>) i" if i: "taken st \<le> i" "i < sent st" "waiting st i" for i
  proof -
    have "sent st - acked st \<le> 128" using assms(1) by (simp add: link_inv_def)
    then have a: "acked st \<le> i" "i - acked st < 256" "j - acked st < 256" using assms(2,3) i by linarith+
    have "\<not> of_nat i - of_nat (acked st) < (of_nat j - of_nat (acked st) :: u8)"
      using of_nat_diff_small [OF a(1,2)] of_nat_diff_small [OF assms(2) a(3)] i(1) assms(3) by (simp add: word_less_nat_alt)
    then show ?thesis using i(3) by (fastforce simp: waiting_def eq list_ex_iff cancelled_def)
  qed
  moreover have "list_all (\<lambda>f. \<not> q_final f \<and> \<not> q_transfer f) q"
    using assms(1) by (auto simp: link_inv_def list_all_iff eq cancelled_def)
  ultimately show ?thesis using assms(1-3) eq(1) by (auto simp: link_inv_def)
qed

text \<open>A frame of the queue may be replaced by one with its number that is still to be sent, and may go when it
  was cancelled.\<close>

lemma requeue_inv:
  assumes "link_inv st" "queue st = us @ f # vs"
    and "\<And>h. g = Some h \<Longrightarrow> q_callno h = q_callno f \<and> q_oseqno h = q_oseqno f \<and> q_final h = q_final f \<and>
      q_transfer h = q_transfer f \<and> (0 \<le> q_retries f \<longrightarrow> 0 \<le> q_retries h)"
    and "g = None \<Longrightarrow> \<not> x \<Longrightarrow> q_retries f < 0"
  shows "link_inv (st\<lparr>queue := us @ (case g of None \<Rightarrow> [] | Some f \<Rightarrow> [f]) @ vs, failed := failed st \<or> x\<rparr>)"
proof -
  let ?st = "st\<lparr>queue := us @ (case g of None \<Rightarrow> [] | Some f \<Rightarrow> [f]) @ vs, failed := failed st \<or> x\<rparr>"
  have w: "waiting ?st i" if w: "waiting st i" "\<not> x" for i
  proof (cases g)
    case None
    then show ?thesis using w assms(2) assms(4) [OF None] by (auto simp: waiting_def)
  next
    case (Some h)
    then show ?thesis using w assms(2) assms(3) [OF Some] by (auto simp: waiting_def)
  qed
  have "list_all (\<lambda>f. \<not> q_final f \<and> \<not> q_transfer f) (us @ f # vs)"
    using assms(1) unfolding link_inv_def assms(2) by blast
  then have q: "list_all (\<lambda>f. \<not> q_final f \<and> \<not> q_transfer f) (queue ?st)"
  proof (cases g)
    case (Some h)
    with \<open>list_all _ (us @ f # vs)\<close> assms(3) [OF Some] show ?thesis by simp
  qed simp
  have "\<not> failed ?st \<longrightarrow> (\<forall>i. taken ?st \<le> i \<and> i < sent ?st \<longrightarrow> waiting ?st i)"
    using assms(1) w by (simp add: link_inv_def)
  with q show ?thesis using assms(1) unfolding link_inv_def by simp
qed

lemma step_inv: "link_step st st' \<Longrightarrow> link_inv st \<Longrightarrow> link_inv st'"
proof (induction rule: link_step.induct)
  case (send st pingtime f header call)
  show ?case by (rule send_inv [OF send(3,1,2)])
next
  case (arrive i st is_iax sc r nxt)
  show ?case by (rule arrive_inv [OF arrive(5,1-4)])
next
  case (acknowledge st j call q)
  show ?case by (rule acknowledge_inv [OF acknowledge(4,1-3)])
next
  case (late j st call q)
  then have "sent st < j + 256" "j < acked st" "acked st \<le> sent st" by (simp_all add: link_inv_def)
  with late have "\<not> ack_in_window (s_rseqno (sender st)) (s_oseqno (sender st)) (of_nat j)"
    using window_refuses [of j "acked st" "sent st"] \<open>acked st \<le> sent st\<close> by (simp add: link_inv_def)
  then have "st\<lparr>sender := call, queue := q\<rparr> = st" using late(4) by (cases st) (simp add: implicit_ack_def)
  then show ?case using late(5) by simp
next
  case (first st us f vs g)
  have "link_inv (st\<lparr>queue := us @ (case g of None \<Rightarrow> [] | Some f \<Rightarrow> [f]) @ vs, failed := failed st \<or> False\<rparr>)"
    by (rule requeue_inv) (use first in \<open>auto simp: first_send_def split: if_splits\<close>)
  then show ?case by simp
next
  case (timer st us f vs max_retries a g)
  have "\<not> q_final f \<and> \<not> q_transfer f" using timer by (simp add: link_inv_def)
  then show ?case
    by (intro requeue_inv) (use timer in \<open>auto simp: attempt_transmit_def Let_def split: if_splits\<close>)
qed

text \<open>Claim C20. Over a network that loses, repeats and reorders frames of the last 256, and loses
  acknowledgements or, as long as the bytes of the sender's window have not gone round, delivers them late,
  the receiver processes every frame once and in the order in which they were sent; and as long as the sender
  has given up none, every frame that the receiver has not processed waits in the queue to be sent again: no
  acknowledgement cancels it, although numbers of one byte go round. At most 128 frames are sent that are not
  acknowledged yet; the code itself does not limit their number.\<close>

theorem link_reliable:
  assumes "link_reach st"
  shows "log st = [0..<taken st] \<and> taken st \<le> sent st \<and>
    (\<not> failed st \<longrightarrow> (\<forall>i. taken st \<le> i \<and> i < sent st \<longrightarrow> waiting st i))"
proof -
  have "link_inv st" using assms by (induction rule: link_reach.induct) (auto intro: start_inv step_inv)
  then show ?thesis by (simp add: link_inv_def)
qed

text \<open>The first frame that the receiver has not processed can always arrive, and then is processed.\<close>

lemma link_progress:
  assumes "link_inv st" "taken st < sent st"
  shows "\<exists>st'. link_step st st' \<and> taken st' = Suc (taken st)"
proof -
  have "check_sequence False 0 (s_iseqno (receiver st)) (of_nat (taken st)) = (Process, s_iseqno (receiver st) + 1)"
    using assms(1) by (simp add: check_ordinary ordinary_def link_inv_def)
  from link_step.arrive [OF assms(2) _ _ this] show ?thesis by (fastforce simp: ordinary_def)
qed

definition idle_call :: seq_call where
  "idle_call = \<lparr>s_callno = 1, s_oseqno = 0, s_rseqno = 0, s_iseqno = 0, s_aseqno = 0, s_owner = True\<rparr>"

definition idle_link :: link where
  "idle_link = \<lparr>sender = idle_call, receiver = idle_call, queue = [], sent = 0, acked = 0, taken = 0, log = [], failed = False\<rparr>"

definition one_frame :: qframe where
  "one_frame = \<lparr>q_callno = 1, q_oseqno = 0, q_retries = 0, q_retrytime = 200, q_final = False, q_transfer = False\<rparr>"

lemma idle_link_reach: "link_reach idle_link"
  by (rule link_reach.start) (simp add: link_start_def idle_link_def idle_call_def)

lemma sent_one_reach: "link_reach (idle_link\<lparr>sender := idle_call\<lparr>s_oseqno := 1\<rparr>, queue := [one_frame], sent := 1\<rparr>)"
proof -
  have "number_full (sender idle_link) (- 1) False False False 100 = (one_frame, 0, idle_call\<lparr>s_oseqno := 1\<rparr>)"
    by (simp add: number_full_def idle_link_def idle_call_def one_frame_def MIN_RETRY_TIME_def MAX_RETRY_TIME_def)
  from link_reach.step [OF idle_link_reach link_step.send [OF _ this]] show ?thesis
    by (simp add: idle_link_def iax2_transmit_def)
qed

theorem link_reliable_witness:
  "\<exists>st. link_reach st \<and> taken st = 1 \<and> log st = [0..<1] \<and> sent st = 1 \<and> \<not> failed st"
proof -
  let ?st = "idle_link\<lparr>sender := idle_call\<lparr>s_oseqno := 1\<rparr>, queue := [one_frame], sent := 1\<rparr>"
  let ?st' = "?st\<lparr>receiver := idle_call\<lparr>s_iseqno := 1\<rparr>, taken := 1, log := [0]\<rparr>"
  have c: "check_sequence False 0 (s_iseqno (receiver ?st)) (of_nat 0) = (Process, 1)"
    by (simp add: check_ordinary ordinary_def idle_link_def idle_call_def)
  have "link_step ?st ?st'"
    using link_step.arrive [of 0 ?st False 0 Process 1, OF _ _ _ c] by (simp add: ordinary_def idle_link_def)
  then have r: "link_reach ?st'" by (rule link_reach.step [OF sent_one_reach])
  show ?thesis using link_reliable [OF r] r by (intro exI [of _ ?st']) (simp add: idle_link_def)
qed

text \<open>The test of the window does not hold outside these assumptions. When the window has gone round, an old
  acknowledgement passes it, cancels all frames that wait, and sets the window back; and with nothing to
  acknowledge, any number passes.\<close>

lemma stale_ack_cancels_all:
  "implicit_ack \<lparr>s_callno = 1, s_oseqno = 3, s_rseqno = 250, s_iseqno = 0, s_aseqno = 0, s_owner = True\<rparr> 249
     [one_frame\<lparr>q_oseqno := 251\<rparr>, one_frame\<lparr>q_oseqno := 2\<rparr>] =
   (Some \<lparr>s_callno = 1, s_oseqno = 3, s_rseqno = 249, s_iseqno = 0, s_aseqno = 0, s_owner = True\<rparr>,
     [one_frame\<lparr>q_oseqno := 251, q_retries := - 1\<rparr>, one_frame\<lparr>q_oseqno := 2, q_retries := - 1\<rparr>])"
  by (simp add: implicit_ack_def ack_in_window_def ack_loop_cancels cancelled_def one_frame_def word_less_nat_alt unsigned_minus_1_eq_mask mask_eq_exp_minus_1)

lemma idle_window_moves:
  "fst (implicit_ack (idle_call\<lparr>s_oseqno := 5, s_rseqno := 5\<rparr>) 77 []) = Some (idle_call\<lparr>s_oseqno := 5, s_rseqno := 77\<rparr>)"
  by (simp add: implicit_ack_def ack_in_window_def ack_loop_cancels idle_call_def)

text \<open>When the peer asks for the frames from one on, those are sent again that wait and follow it.\<close>

lemma vnak_sends_waiting:
  assumes "j \<le> i" "i < j + 128" "f \<in> set q" "q_callno f = callno" "q_oseqno f = of_nat i" "0 \<le> q_retries f"
  shows "f \<in> set (vnak_retransmit callno True (of_nat j) q)"
  using assms of_nat_diff_small [of j i] by (simp add: vnak_retransmit_def word_less_nat_alt)

text \<open>Frames that are put off are kept in the order of their bytes, which is not the order of sending when
  the numbers have gone round.\<close>

lemma defer_sorted: "sorted ys \<Longrightarrow> sorted (defer_full_frame x ys) \<and> mset (defer_full_frame x ys) = add_mset x (mset ys)"
proof -
  have "set (defer_full_frame x ys) = insert x (set ys)" for ys by (induction ys) auto
  then show "sorted ys \<Longrightarrow> sorted (defer_full_frame x ys) \<and> mset (defer_full_frame x ys) = add_mset x (mset ys)"
    by (induction ys) auto
qed

lemma defer_wrapped: "defer_full_frame 0 [255] = [0, 255]"
  by simp

text \<open>The protocol's own frames get ever greater timestamps.\<close>

lemma calc_timestamp_increases:
  assumes "calc_timestamp p 0 Iax delivery samples rate now = (ts, p')" "unat (cc_lastsent p) < 2 ^ 32 - 3"
  shows "cc_lastsent p < ts" "cc_lastsent p' = ts"
proof -
  have "cc_lastsent p < cc_lastsent p + 3"
    using assms(2) by (simp add: word_less_nat_alt unat_word_ariths)
  then show "cc_lastsent p < ts" "cc_lastsent p' = ts"
    using assms(1) by (auto simp: calc_timestamp_def Let_def not_le split: if_splits)
qed

end
