(* ===== verification/G711.thy ===== *)
theory G711
  imports Prelude
begin

text \<open>
  The companding of G.711: \<open>main/ulaw.c\<close> and \<open>main/alaw.c\<close> with the tables of \<open>ulaw.h\<close> and \<open>alaw.h\<close>, built
  without \<open>G711_NEW_ALGORITHM\<close>.

  Samples and bytes are integers; where the code stores into a \<open>short\<close> or an \<open>unsigned char\<close> the value is
  reduced to its width. Shifts to the right of negative numbers are arithmetic.
\<close>

unbundle bit_operations_syntax

definition to_short :: "int \<Rightarrow> int" where
  "to_short x = (x + 32768) mod 65536 - 32768"

definition to_uchar :: "int \<Rightarrow> int" where
  "to_uchar x = x mod 256"

definition sample_ok :: "int \<Rightarrow> bool" where
  "sample_ok x \<longleftrightarrow> - 32768 \<le> x \<and> x \<le> 32767"

section \<open>Mu-law\<close>

definition BIAS :: int where "BIAS = 0x84"
definition CLIP :: int where "CLIP = 32635"

definition exp_lut :: "int list" where
  "exp_lut = [0, 0, 1, 1] @ replicate 4 2 @ replicate 8 3 @ replicate 16 4 @ replicate 32 5 @ replicate 64 6 @ replicate 128 7"

definition linear2ulaw :: "int \<Rightarrow> int" where
  "linear2ulaw sample =
     (let sign = drop_bit 8 sample AND 0x80;
          sample = (if sign \<noteq> 0 then to_short (- sample) else sample);
          sample = (if CLIP < sample then CLIP else sample);
          sample = to_short (sample + BIAS);
          exponent = exp_lut ! nat (drop_bit 7 sample AND 0xFF);
          mantissa = drop_bit (nat (exponent + 3)) sample AND 0x0F
      in to_uchar (NOT (sign OR push_bit 4 exponent OR mantissa)))"

definition etab :: "int list" where
  "etab = [0, 132, 396, 924, 1980, 4092, 8316, 16764]"

definition mulaw_entry :: "int \<Rightarrow> int" where
  "mulaw_entry i =
     (let mu = 255 - i; e = (mu AND 0x70) div 16; f = mu AND 0x0f;
          y = to_short (f * push_bit (nat (e + 3)) 1); y = to_short (y + etab ! nat e)
      in if mu AND 0x80 \<noteq> 0 then to_short (- y) else y)"

text \<open>The tables that \<open>tris_ulaw_init\<close> fills, the second one with the code of the last sample of each four.\<close>

definition samples :: "int list" where
  "samples = [- 32768..32767]"

definition mulaw_table :: "int list" where
  "mulaw_table = map mulaw_entry [0..255]"

definition lin2mu_table :: "int list" where
  "lin2mu_table = foldl (\<lambda>t i. t[nat ((i mod 65536) div 4) := linear2ulaw i]) (replicate 16384 0) samples"

definition TRIS_MULAW :: "int \<Rightarrow> int" where
  "TRIS_MULAW a = mulaw_table ! nat a"

definition TRIS_LIN2MU :: "int \<Rightarrow> int" where
  "TRIS_LIN2MU a = lin2mu_table ! nat ((a mod 65536) div 4)"

section \<open>A-law\<close>

definition AMI_MASK :: int where "AMI_MASK = 0x55"

definition seg_end :: "int list" where
  "seg_end = [0xFF, 0x1FF, 0x3FF, 0x7FF, 0xFFF, 0x1FFF, 0x3FFF, 0x7FFF]"

definition linear2alaw :: "int \<Rightarrow> int" where
  "linear2alaw linear =
     (let (mask, pcm_val) = (if 0 \<le> linear then (AMI_MASK OR 0x80, linear) else (AMI_MASK, - linear));
          seg = length (takeWhile (\<lambda>e. \<not> pcm_val \<le> e) seg_end)
      in to_uchar ((push_bit 4 (int seg) OR (drop_bit (if seg \<noteq> 0 then seg + 3 else 4) pcm_val AND 0x0F)) XOR mask))"

definition alaw2linear :: "int \<Rightarrow> int" where
  "alaw2linear alaw =
     (let alaw = alaw XOR AMI_MASK; i = push_bit 4 (alaw AND 0x0F) + 8; seg = drop_bit 4 (alaw AND 0x70);
          i = (if seg \<noteq> 0 then push_bit (nat (seg - 1)) (i + 0x100) else i)
      in to_short (if alaw AND 0x80 \<noteq> 0 then i else - i))"

definition alaw_table :: "int list" where
  "alaw_table = map alaw2linear [0..255]"

definition lin2a_table :: "int list" where
  "lin2a_table = foldl (\<lambda>t i. t[nat ((i mod 65536) div 8) := linear2alaw i]) (replicate 8192 0) samples"

definition TRIS_ALAW :: "int \<Rightarrow> int" where
  "TRIS_ALAW a = alaw_table ! nat a"

definition TRIS_LIN2A :: "int \<Rightarrow> int" where
  "TRIS_LIN2A a = lin2a_table ! nat ((a mod 65536) div 8)"

lemmas g711_defs = to_short_def to_uchar_def BIAS_def CLIP_def etab_def mulaw_entry_def AMI_MASK_def seg_end_def

section \<open>The tables\<close>

text \<open>A table filled by a loop holds, at each index, the value of the last step that wrote there.\<close>

lemma fill_length [simp]: "length (foldl (\<lambda>t i. t[g i := h i]) t xs) = length t"
  by (induction xs arbitrary: t) auto

lemma fill_other: "\<forall>j \<in> set xs. g j \<noteq> k \<Longrightarrow> foldl (\<lambda>t i. t[g i := h i]) t xs ! k = t ! k"
  by (induction xs arbitrary: t) auto

lemma fill_last:
  assumes "\<forall>j \<in> set vs. g j \<noteq> g i" "g i < length t"
  shows "foldl (\<lambda>t i. t[g i := h i]) t (us @ i # vs) ! g i = h i"
  using assms by (simp add: fill_other)

lemma table_index:
  fixes d m :: int
  assumes "0 < d" "d * m = 32768" "sample_ok x"
  shows "(x mod 65536) div d = x div d + (if x < 0 then 2 * m else 0)" "- m \<le> x div d" "x div d < m"
proof -
  have m: "65536 = d * (2 * m)" using assms(2) by simp
  have "x mod 65536 = x + (if x < 0 then 65536 else 0)"
    using assms(3) mod_add_self2 [of x 65536] by (auto simp: sample_ok_def mod_pos_pos_trivial simp del: mod_add_self2)
  moreover have "(x + d * (2 * m)) div d = x div d + 2 * m" using assms(1) by simp
  ultimately show "(x mod 65536) div d = x div d + (if x < 0 then 2 * m else 0)" by (simp add: m)
  have "d * (- m) \<le> x" using assms(2,3) by (simp add: sample_ok_def)
  from zdiv_mono1 [OF this assms(1)] show "- m \<le> x div d"
    unfolding nonzero_mult_div_cancel_left [OF less_imp_neq [OF assms(1), symmetric]] .
  have "x div d * d \<le> x" using div_mult_mod_eq [of x d] pos_mod_sign [OF assms(1), of x] by linarith
  then have "x div d * d < m * d" using assms(2,3) by (simp add: sample_ok_def mult.commute)
  then show "x div d < m" using assms(1) by simp
qed

lemma fill_upto:
  fixes d m :: int
  assumes d: "0 < d" "d * m = 32768" and a: "sample_ok a" and t: "length t = nat (2 * m)"
  shows "foldl (\<lambda>t i. t[nat ((i mod 65536) div d) := h i]) t samples ! nat ((a mod 65536) div d) = h (d * (a div d) + (d - 1))"
proof -
  let ?g = "\<lambda>i. nat ((i mod 65536) div d)" and ?i = "d * (a div d) + (d - 1)"
  have q: "?i div d = a div d" using d(1) by simp
  note range = table_index(2,3) [OF d a]
  have "d * (- m) \<le> d * (a div d)" "d * (a div d) \<le> d * (m - 1)" using range d(1) by (intro mult_left_mono; simp)+
  then have i: "sample_ok ?i" using d by (simp add: sample_ok_def algebra_simps)
  have neg: "?i < 0 \<longleftrightarrow> a < 0"
    using pos_imp_zdiv_neg_iff [OF d(1), of a] pos_imp_zdiv_neg_iff [OF d(1), of ?i] unfolding q by blast
  have same: "?g a = ?g ?i" by (simp only: table_index(1) [OF d a] table_index(1) [OF d i] q neg)
  have later: "\<forall>j \<in> set [?i + 1..32767]. ?g j \<noteq> ?g ?i"
  proof
    fix j assume j: "j \<in> set [?i + 1..32767]"
    then have ok: "sample_ok j" using i by (simp add: sample_ok_def)
    have "d * (a div d + 1) \<le> j" using j by (simp add: algebra_simps)
    from zdiv_mono1 [OF this d(1)] have "a div d < j div d"
      unfolding nonzero_mult_div_cancel_left [OF less_imp_neq [OF d(1), symmetric]] by simp
    moreover have "?i < j" using j by simp
    ultimately have "(j mod 65536) div d \<noteq> (?i mod 65536) div d"
      unfolding table_index(1) [OF d ok] table_index(1) [OF d i] q using table_index(2,3) [OF d ok] range by auto
    moreover have "0 \<le> (j mod 65536) div d" "0 \<le> (?i mod 65536) div d" using d(1) by (simp_all add: pos_imp_zdiv_nonneg_iff)
    ultimately show "?g j \<noteq> ?g ?i" by (simp add: eq_nat_nat_iff)
  qed
  have len: "?g ?i < length t"
    unfolding same [symmetric] table_index(1) [OF d a] t using range d(1) by (auto simp: pos_imp_zdiv_neg_iff nat_less_iff)
  have split: "samples = [- 32768..?i - 1] @ ?i # [?i + 1..32767]"
    unfolding samples_def by (rule upto_split3) (use i in \<open>simp_all add: sample_ok_def\<close>)
  show ?thesis unfolding same split by (rule fill_last [OF later len])
qed

lemma TRIS_LIN2MU_eq: "sample_ok a \<Longrightarrow> TRIS_LIN2MU a = linear2ulaw (4 * (a div 4) + 3)"
  unfolding TRIS_LIN2MU_def lin2mu_table_def using fill_upto [of 4 8192 a "replicate 16384 0" linear2ulaw] by simp

lemma TRIS_LIN2A_eq: "sample_ok a \<Longrightarrow> TRIS_LIN2A a = linear2alaw (8 * (a div 8) + 7)"
  unfolding TRIS_LIN2A_def lin2a_table_def using fill_upto [of 8 4096 a "replicate 8192 0" linear2alaw] by simp

lemma byte_entries:
  assumes "0 \<le> b" "b \<le> 255"
  shows "TRIS_MULAW b = mulaw_entry b" "TRIS_ALAW b = alaw2linear b"
  using assms by (simp_all add: TRIS_MULAW_def TRIS_ALAW_def mulaw_table_def alaw_table_def nth_upto)

section \<open>Segments\<close>

text \<open>Facts about all bytes, or all segments with all steps, by evaluation.\<close>

lemma exp_lut_segment: "list_all (\<lambda>k. let e = exp_lut ! k in 0 \<le> e \<and> e \<le> 7 \<and> 2 ^ nat e \<le> k \<and> k < 2 ^ (nat e + 1)) [1..<256]"
  by code_simp

lemma mulaw_levels: "list_all (\<lambda>s. list_all (\<lambda>e. list_all (\<lambda>f.
    mulaw_entry (to_uchar (NOT (s OR push_bit 4 e OR f))) = (if s = 0 then 1 else - 1) * ((2 * f + 33) * 2 ^ (nat e + 2) - 132))
  [0..15]) [0..7]) [0, 128]"
  by code_simp

lemma alaw_levels: "list_all (\<lambda>(s, m). list_all (\<lambda>e. list_all (\<lambda>f.
    alaw2linear (to_uchar ((push_bit 4 (int e) OR f) XOR m)) = s * (if e = 0 then 16 * f + 8 else (2 * f + 33) * 2 ^ (e + 2)))
  [0..15]) [0..<8]) [(1, AMI_MASK OR 0x80), (- 1, AMI_MASK)]"
  by code_simp

lemma mulaw_bytes: "list_all (\<lambda>b. sample_ok (mulaw_entry b) \<and> linear2ulaw (4 * (mulaw_entry b div 4) + 3) = (if b = 127 then 255 else b)) [0..255]"
  by code_simp

lemma alaw_bytes: "list_all (\<lambda>b. sample_ok (alaw2linear b) \<and> linear2alaw (8 * (alaw2linear b div 8) + 7) = b) [0..255]"
  by code_simp

lemma sign_bytes: "list_all (\<lambda>s :: int. (s AND 0x80) = (if s < 0 then 0x80 else 0)) [- 128..127]"
  by code_simp

lemma to_short_id: "sample_ok x \<Longrightarrow> to_short x = x"
  by (simp add: to_short_def sample_ok_def)

lemma sign_bit: "sample_ok x \<Longrightarrow> drop_bit 8 x AND 0x80 = (if x < 0 then 0x80 else 0)"
proof -
  assume x: "sample_ok x"
  have "- 128 \<le> x div 256" "x div 256 < 128" using table_index(2,3) [of 256 128 x] x by simp_all
  then have "x div 256 \<le> 127" by simp
  with \<open>- 128 \<le> x div 256\<close> have "x div 256 \<in> set [- 128..127]" by (simp only: set_upto atLeastAtMost_iff)
  from bspec [OF sign_bytes [unfolded list_all_iff] this]
  have "x div 256 AND 0x80 = (if x div 256 < 0 then 0x80 else 0)" .
  then show ?thesis by (simp add: drop_bit_eq_div pos_imp_zdiv_neg_iff)
qed

lemma and_masks: "(x :: int) AND 0x0F = x mod 16" "(x :: int) AND 0xFF = x mod 256"
proof -
  have "x AND mask 4 = x mod 16" "x AND mask 8 = x mod 256" by (simp_all add: take_bit_eq_mask [symmetric] take_bit_eq_mod)
  then show "x AND 0x0F = x mod 16" "x AND 0xFF = x mod 256" by (simp_all add: mask_eq_exp_minus_1)
qed

text \<open>The step that a number lies in, between sixteen and thirty-two steps of its segment.\<close>

lemma step_bounds:
  fixes n :: int
  assumes "2 ^ (k + 4) \<le> n" "n < 2 ^ (k + 5)" "f = n div 2 ^ k mod 16"
  shows "0 \<le> f" "f \<le> 15" "(16 + f) * 2 ^ k \<le> n" "n < (17 + f) * 2 ^ k"
proof -
  have p: "(0 :: int) < 2 ^ k" by simp
  have "16 * 2 ^ k \<le> n" "n < 32 * 2 ^ k" using assms(1,2) by (simp_all add: power_add)
  moreover from this have "n div 2 ^ k * 2 ^ k < 32 * 2 ^ k" using div_mult_mod_eq [of n "2 ^ k"] pos_mod_sign [OF p, of n] by linarith
  ultimately have "16 \<le> n div 2 ^ k" "n div 2 ^ k < 32"
    using zdiv_mono1 [of "16 * 2 ^ k" n "2 ^ k"] p by simp_all
  moreover have "q mod 16 = q - 16" if "16 \<le> q" "q < 32" for q :: int using that by presburger
  ultimately have f: "f = n div 2 ^ k - 16" unfolding assms(3) by blast
  show "0 \<le> f" "f \<le> 15" unfolding assms(3) by (simp_all add: pos_mod_bound [of 16, simplified zless_imp_add1_zle])
  obtain q r where "n div 2 ^ k = q" and n: "n = q * 2 ^ k + r" "0 \<le> r" "r < 2 ^ k"
    using div_mult_mod_eq [of n "2 ^ k"] pos_mod_sign [OF p, of n] pos_mod_bound [OF p, of n] by metis
  then have q: "16 + f = q" "17 + f = q + 1" using f by simp_all
  show "(16 + f) * 2 ^ k \<le> n" "n < (17 + f) * 2 ^ k" unfolding q n(1) using n(2,3) by (simp_all add: distrib_right)
qed

definition clip :: "int \<Rightarrow> int" where
  "clip x = max (- CLIP) (min CLIP x)"

text \<open>A mu-law code decodes to the middle of the step that the sample's magnitude lies in.\<close>

lemma error_shift:
  fixes y :: int
  assumes "32 * \<bar>y - u\<bar> \<le> b" "\<bar>u - x\<bar> \<le> d"
  shows "32 * \<bar>y - x\<bar> \<le> b + 32 * d"
proof -
  have "\<bar>y - x\<bar> \<le> \<bar>y - u\<bar> + \<bar>u - x\<bar>" using abs_triangle_ineq [of "y - u" "u - x"] by simp
  moreover have "32 * p \<le> b + 32 * d" if "p \<le> q + r" "32 * q \<le> b" "r \<le> d" for p q r :: int using that by linarith
  ultimately show ?thesis using assms by blast
qed

lemma ulaw_error:
  assumes x: "- 32767 \<le> x" "x \<le> 32767"
  shows "32 * \<bar>mulaw_entry (linear2ulaw x) - clip x\<bar> \<le> \<bar>clip x\<bar> + BIAS" "0 \<le> linear2ulaw x" "linear2ulaw x \<le> 255"
proof -
  define m where "m = min \<bar>x\<bar> CLIP"
  define s :: int where "s = (if x < 0 then 0x80 else 0)"
  have m: "0 \<le> m" "m \<le> 32635" by (simp_all add: m_def CLIP_def)
  define k where "k = (m + BIAS) div 128"
  have k: "1 \<le> k" "k < 256" "k * 128 \<le> m + BIAS" "m + BIAS < (k + 1) * 128"
    using m by (simp_all add: k_def BIAS_def)
  have "nat k \<in> set [1..<256]" using k by (simp add: Suc_le_eq nat_less_iff)
  from bspec [OF exp_lut_segment [unfolded list_all_iff] this]
  obtain e where e: "exp_lut ! nat k = e" "0 \<le> e" "e \<le> 7" "2 ^ nat e \<le> k" "k < 2 ^ (nat e + 1)"
    using k by (auto simp: Let_def le_nat_iff nat_less_iff)
  define f where "f = (m + BIAS) div 2 ^ (nat e + 3) mod 16"
  have "2 ^ (nat e + 3 + 4) \<le> m + BIAS" "m + BIAS < 2 ^ (nat e + 3 + 5)"
    using e(4,5) k(3,4) by (simp_all add: power_add)
  note f = step_bounds [OF this f_def]
  have ne: "nat (e + 3) = nat e + 3" using e by (simp add: nat_add_distrib)
  have "linear2ulaw x = to_uchar (NOT (s OR push_bit 4 e OR f))"
  proof -
    have "(if s \<noteq> 0 then to_short (- x) else x) = \<bar>x\<bar>" using x by (auto simp: s_def to_short_id sample_ok_def)
    moreover have "(if CLIP < \<bar>x\<bar> then CLIP else \<bar>x\<bar>) = m" by (simp add: m_def)
    moreover have "to_short (m + BIAS) = m + BIAS" using m by (simp add: to_short_id sample_ok_def BIAS_def)
    moreover have "drop_bit 7 (m + BIAS) AND 0xFF = k" using k by (simp add: and_masks drop_bit_eq_div k_def)
    moreover have "drop_bit (nat (e + 3)) (m + BIAS) AND 0x0F = f" by (simp only: and_masks drop_bit_eq_div ne f_def)
    moreover have "drop_bit 8 x AND 0x80 = s" using sign_bit [of x] x by (simp add: sample_ok_def s_def)
    ultimately show ?thesis by (simp only: linear2ulaw_def Let_def e(1))
  qed
  moreover have "s \<in> set [0, 128]" "e \<in> set [0..7]" "f \<in> set [0..15]" using e f by (simp_all add: s_def del: upto.simps upto_rec_numeral)
  note bspec [OF bspec [OF bspec [OF mulaw_levels [unfolded list_all_iff] this(1)] this(2)] this(3)]
  moreover define lev where "lev = (2 * f + 33) * 2 ^ (nat e + 2) - 132"
  ultimately have dec: "mulaw_entry (linear2ulaw x) = (if x < 0 then - lev else lev)" by (simp add: s_def lev_def)
  have "\<bar>lev - m\<bar> \<le> 2 ^ (nat e + 2)" "16 * 2 ^ (nat e + 3) \<le> m + BIAS"
  proof -
    have p: "(2 :: int) ^ (nat e + 3) = 2 * 2 ^ (nat e + 2)" by (simp add: power_add)
    show "\<bar>lev - m\<bar> \<le> 2 ^ (nat e + 2)" using f(3,4) unfolding p lev_def BIAS_def by (simp add: algebra_simps)
    have "0 \<le> f * 2 ^ (nat e + 3)" using f(1) by simp
    then show "16 * 2 ^ (nat e + 3) \<le> m + BIAS" using f(3) by (simp add: algebra_simps)
  qed
  then have "32 * \<bar>lev - m\<bar> \<le> m + BIAS" by (simp add: power_add)
  moreover have "clip x = (if x < 0 then - m else m)" by (auto simp: clip_def m_def CLIP_def)
  ultimately show "32 * \<bar>mulaw_entry (linear2ulaw x) - clip x\<bar> \<le> \<bar>clip x\<bar> + BIAS" using m(1)
    by (cases "x < 0") (simp_all add: dec abs_minus_commute)
  show "0 \<le> linear2ulaw x" "linear2ulaw x \<le> 255" by (simp_all add: \<open>linear2ulaw x = _\<close> to_uchar_def)
qed

text \<open>So does an A-law code; below 256 the steps are 16 wide.\<close>

lemma alaw_segment:
  assumes "0 \<le> m" "m \<le> 32767"
  obtains seg where "seg = length (takeWhile (\<lambda>e. \<not> m \<le> e) seg_end)" "seg < 8" "seg = 0 \<Longrightarrow> m < 256"
    "seg \<noteq> 0 \<Longrightarrow> 2 ^ (seg + 7) \<le> m \<and> m < 2 ^ (seg + 8)"
proof -
  let ?seg = "length (takeWhile (\<lambda>e. \<not> m \<le> e) seg_end)"
  have "?seg < 8 \<and> (?seg = 0 \<longrightarrow> m < 256) \<and> (?seg \<noteq> 0 \<longrightarrow> 2 ^ (?seg + 7) \<le> m \<and> m < 2 ^ (?seg + 8))"
    using assms by (auto simp: seg_end_def)
  then show thesis by (intro that [OF refl]) auto
qed

lemma alaw_error:
  assumes x: "- 32767 \<le> x" "x \<le> 32767"
  shows "32 * \<bar>alaw2linear (linear2alaw x) - x\<bar> \<le> max 256 \<bar>x\<bar>" "0 \<le> linear2alaw x" "linear2alaw x \<le> 255"
proof -
  define m where "m = \<bar>x\<bar>"
  define s :: int where "s = (if 0 \<le> x then 1 else - 1)"
  define mask where "mask = (if 0 \<le> x then AMI_MASK OR 0x80 else AMI_MASK)"
  obtain seg where seg: "length (takeWhile (\<lambda>e. \<not> m \<le> e) seg_end) = seg" "seg < 8" "seg = 0 \<Longrightarrow> m < 256"
      "seg \<noteq> 0 \<Longrightarrow> 2 ^ (seg + 7) \<le> m \<and> m < 2 ^ (seg + 8)"
    by (rule alaw_segment [of m]) (use x in \<open>auto simp: m_def\<close>)
  define k where "k = (if seg \<noteq> 0 then seg + 3 else 4)"
  define f where "f = m div 2 ^ k mod 16"
  have code: "linear2alaw x = to_uchar ((push_bit 4 (int seg) OR f) XOR mask)"
  proof -
    have "(if 0 \<le> x then (AMI_MASK OR 0x80, x) else (AMI_MASK, - x)) = (mask, m)" by (simp add: mask_def m_def)
    moreover have "drop_bit k m AND 0x0F = f" by (simp only: and_masks drop_bit_eq_div f_def)
    ultimately show ?thesis by (simp only: linear2alaw_def Let_def prod.case seg(1) k_def)
  qed
  define lev where "lev = (if seg = 0 then 16 * f + 8 else (2 * f + 33) * 2 ^ (seg + 2))"
  have "(s, mask) \<in> set [(1, AMI_MASK OR 0x80), (- 1, AMI_MASK)]" "seg \<in> set [0..<8]" "f \<in> set [0..15]"
    using seg(2) by (simp_all add: s_def mask_def f_def del: upto.simps upto_rec_numeral)
  note bspec [OF bspec [OF bspec [OF alaw_levels [unfolded list_all_iff] this(1), unfolded prod.case] this(2)] this(3)]
  then have dec: "alaw2linear (linear2alaw x) = s * lev" by (simp only: code lev_def)
  have "32 * \<bar>lev - m\<bar> \<le> max 256 m"
  proof (cases "seg = 0")
    case True
    then have "f = m div 16" using seg(3) by (simp add: f_def k_def m_def)
    then show ?thesis using True seg(3) by (simp add: lev_def)
  next
    case False
    then have "2 ^ (k + 4) \<le> m" "m < 2 ^ (k + 5)" "k = seg + 3" using seg(4) by (simp_all add: k_def add.commute)
    note f = step_bounds [OF this(1,2) f_def, unfolded this(3)]
    have p: "(2 :: int) ^ (seg + 3) = 2 * 2 ^ (seg + 2)" by (simp add: power_add)
    have "\<bar>lev - m\<bar> \<le> 2 ^ (seg + 2)" using f(3,4) False unfolding p lev_def by (simp add: algebra_simps)
    moreover have "0 \<le> f * 2 ^ (seg + 3)" using f(1) by simp
    then have "32 * 2 ^ (seg + 2) \<le> m" using f(3) unfolding p by (simp add: algebra_simps)
    moreover have "32 * \<bar>lev - m\<bar> \<le> 32 * 2 ^ (seg + 2)" using calculation(1) by simp
    ultimately have "32 * \<bar>lev - m\<bar> \<le> m" by (meson order_trans)
    then show ?thesis by simp
  qed
  moreover have "\<bar>s * lev - x\<bar> = \<bar>lev - m\<bar>" using abs_minus_cancel [of "lev + x"] by (auto simp: s_def m_def)
  ultimately show "32 * \<bar>alaw2linear (linear2alaw x) - x\<bar> \<le> max 256 \<bar>x\<bar>"
    unfolding dec m_def by simp
  show "0 \<le> linear2alaw x" "linear2alaw x \<le> 255" by (simp_all add: code to_uchar_def)
qed

section \<open>Properties\<close>

text \<open>Claim C35. Every code of either law, decoded and encoded again, is the same code, but for mu-law's negative
  zero, which becomes the positive one: a call that is decoded on its way loses nothing more.\<close>

theorem g711_roundtrip:
  assumes "0 \<le> b" "b \<le> 255"
  shows "TRIS_LIN2A (TRIS_ALAW b) = b \<and> TRIS_LIN2MU (TRIS_MULAW b) = (if b = 127 then 255 else b)"
proof -
  have b: "b \<in> set [0..255]" using assms by (simp only: set_upto atLeastAtMost_iff)
  note a = bspec [OF alaw_bytes [unfolded list_all_iff] b] and mu = bspec [OF mulaw_bytes [unfolded list_all_iff] b]
  then show ?thesis by (simp add: byte_entries [OF assms] TRIS_LIN2A_eq TRIS_LIN2MU_eq)
qed

theorem g711_roundtrip_witness: "TRIS_LIN2A (TRIS_ALAW 5) = 5 \<and> TRIS_LIN2MU (TRIS_MULAW 200) = 200"
  using g711_roundtrip [of 5] g711_roundtrip [of 200] by simp

text \<open>Claim C36. A sample of 16 bits that is encoded and decoded again differs from itself by at most a
  thirty-second of its size and a few units, which come from the smallest step and from the samples that
  share an entry of the table; mu-law clips it at 32635 before.\<close>

theorem g711_error:
  assumes "sample_ok x"
  shows "32 * \<bar>TRIS_MULAW (TRIS_LIN2MU x) - clip x\<bar> \<le> \<bar>clip x\<bar> + 231 \<and>
    32 * \<bar>TRIS_ALAW (TRIS_LIN2A x) - x\<bar> \<le> max 256 \<bar>x\<bar> + 231"
proof -
  define u v where "u = 4 * (x div 4) + 3" and "v = 8 * (x div 8) + 7"
  have u: "x \<le> u" "u \<le> x + 3" "- 32767 \<le> u" "u \<le> 32767" and v: "x \<le> v" "v \<le> x + 7" "- 32767 \<le> v" "v \<le> 32767"
    using table_index(2,3) [OF _ _ assms, of 4 8192] table_index(2,3) [OF _ _ assms, of 8 4096]
    by (auto simp: u_def v_def)
  have cl: "\<bar>clip u - clip x\<bar> \<le> 3" "\<bar>clip u\<bar> \<le> \<bar>clip x\<bar> + 3" using u by (auto simp: clip_def CLIP_def)
  have av: "\<bar>v - x\<bar> \<le> 7" "max 256 \<bar>v\<bar> \<le> max 256 \<bar>x\<bar> + 7" using v by auto
  have "TRIS_MULAW (TRIS_LIN2MU x) = mulaw_entry (linear2ulaw u)" "TRIS_ALAW (TRIS_LIN2A x) = alaw2linear (linear2alaw v)"
    using ulaw_error(2,3) [OF u(3,4)] alaw_error(2,3) [OF v(3,4)]
    by (simp_all add: TRIS_LIN2MU_eq [OF assms] TRIS_LIN2A_eq [OF assms] u_def v_def byte_entries)
  moreover have "\<bar>clip u\<bar> + BIAS + 32 * 3 \<le> \<bar>clip x\<bar> + 231" using cl(2) by (simp add: BIAS_def)
  moreover have "max 256 \<bar>v\<bar> + 32 * 7 \<le> max 256 \<bar>x\<bar> + 231" using av(2) by simp
  ultimately show ?thesis
    using order_trans [OF error_shift [OF ulaw_error(1) [OF u(3,4)] cl(1)]] order_trans [OF error_shift [OF alaw_error(1) [OF v(3,4)] av(1)]]
    by metis
qed

theorem g711_error_witness:
  "32 * \<bar>TRIS_MULAW (TRIS_LIN2MU 1000) - 1000\<bar> \<le> 1231 \<and> 32 * \<bar>TRIS_ALAW (TRIS_LIN2A 1000) - 1000\<bar> \<le> 1231"
  using g711_error [of 1000] by (simp add: sample_ok_def clip_def CLIP_def)

text \<open>The least sample has no positive counterpart: mu-law takes it for a negative zero, A-law for a segment too
  many, which makes it positive. Only as another sample shares its entry do the tables not show it.\<close>

lemma least_sample: "mulaw_entry (linear2ulaw (- 32768)) = 0" "alaw2linear (linear2alaw (- 32768)) = 8"
  by code_simp+

end
