(* ===== verification/Spec2Isabelle.thy ===== *)
theory Spec2Isabelle
  imports Heap Hashtab Timeval Sched FixedJB JitterBuf AbstractJB Udptl PbxPattern PbxTiming Ao2Iterator TransChoice Smoother CodecLen Acl Event EventCache Devstate PbxHints PbxFind PbxVars AppArgs TextCodec Iax2Ies Iax2Call G711
begin

text \<open>
  A verification library for the core of the Trismedia media server, a derivative of Asterisk 1.6. It is
  written for readers who have the sources; paths are relative to \<open>src/\<close>, and a definition has the name of
  the C function it translates wherever there is one.

  \<^bold>\<open>The program.\<close> The server connects calls. Channel drivers (\<open>channels/\<close>) speak the protocols and
  exchange frames with the core (\<open>main/\<close>), which decides by the dialplan what happens to a call, translates
  between codecs, smooths the arrival of packets and tells the parts of the server of each other's states.
  The core's services are used by all drivers and applications, and these are what is modelled here:

  \<^item> containers: the heap, the hash table and reference-counted objects hold everything else;
  \<^item> time: the scheduler runs callbacks, out of a heap by time and a hash table by number;
  \<^item> media: jitter buffers, the T.38 transport, the smoother and the translation paths handle the frames of a
    call, and the preferences of codecs decide what formats it has;
  \<^item> dialplan: extensions match dialled digits, contexts hold and include them, time conditions switch
    includes, variables are substituted into what an extension runs, and applications parse their arguments;
  \<^item> events: drivers report the states of devices, which are collected, cached and delivered, and change the
    states of hints, of which watchers are told;
  \<^item> the wire format and the reliable delivery of the IAX2 protocol, as an example of a driver's protocol.

  \<^bold>\<open>Shared theories.\<close>

  \<^item> \<open>Prelude\<close>: C's integers as words, division that truncates, lists updated by index, the collections of
    lemmas, and the interfaces \<open>comparator\<close>, \<open>prio_queue\<close> and \<open>object_table\<close>.
  \<^item> \<open>CString\<close>: the functions of \<open>string.h\<close> and \<open>ctype.h\<close> that the code uses, in the C locale.
  \<^item> \<open>Bytes\<close>: blocks of bytes with numbers in network order, for \<open>Event\<close> and \<open>Iax2Ies\<close>.

  \<^bold>\<open>Containers and time.\<close>

  \<^item> \<open>Heap\<close> (\<open>main/heap.c\<close>): the array is a list, and the index that the code stores in an element is part of
    the state. Pushing, popping and removal keep the heap order, the bounds and those indices, and pop returns
    a greatest element.
  \<^item> \<open>Hashtab\<close> (\<open>main/hashtab.c\<close>): buckets are chains, with insertion, lookup, removal, resizing and traversal.
    Through any history the table is a set of keyed objects.
  \<^item> \<open>Timeval\<close> (\<open>main/utils.c\<close>, \<open>include/trismedia/time.h\<close>): times as seconds and microseconds.
  \<^item> \<open>Sched\<close> (\<open>main/sched.c\<close>): the heap and the table hold the same events in every reachable context, and a run
    of the queue ends and calls the callbacks of the events that are due, in order and with their data. A callback
    acts on the scheduler and on the rest of the program, which is a state of any type.
  \<^item> \<open>Astobj2\<close>, \<open>Ao2Container\<close>, \<open>Ao2Iterator\<close> (\<open>main/astobj2.c\<close>): an explicit heap of objects with counters. Dropping a
    reference may run a cascade of destructors; no freed object is touched and the counters stay exact. The
    search with all its flags, and iteration while links come and go. A link has its version, a word that wraps,
    and a name that stands for its address.

  \<^bold>\<open>Media.\<close>

  \<^item> \<open>FixedJB\<close> (\<open>main/fixedjitterbuf.c\<close>) and \<open>JitterBuf\<close> (\<open>main/jitterbuf.c\<close>): the two jitter buffers, with the
    order of the queue, the window of delays with its extreme values, and every return code. An assertion of
    the code that fails is a result of its own.
  \<^item> \<open>AbstractJB\<close> (\<open>main/abstract_jb.c\<close>): the buffer of a channel over either implementation; no frame leaks.
  \<^item> \<open>Udptl\<close> (\<open>main/udptl.c\<close>): encoding and decoding of packets, redundancy and forward error correction.
  \<^item> \<open>Translate\<close>, \<open>TransPath\<close>, \<open>TransChoice\<close> (\<open>main/translate.c\<close>): the matrix of cheapest paths, instances and frames
    through them, registration and the choice of a pair of formats.
  \<^item> \<open>Smoother\<close>, \<open>CodecPref\<close>, \<open>CodecLen\<close> (\<open>main/frame.c\<close>, and the choice of formats of \<open>main/channel.c\<close>): voice frames
    of a fixed size, preferences of codecs and the lines that configure them, lengths of coded frames.
  \<^item> \<open>G711\<close> (\<open>main/ulaw.c\<close>, \<open>main/alaw.c\<close>): the tables of both laws; what is lost by encoding, and that encoding what
    was decoded loses nothing more.

  \<^bold>\<open>Dialplan.\<close>

  \<^item> \<open>PbxPattern\<close> (\<open>main/pbx.c\<close>): matching and ordering of extensions, against patterns read into classes.
  \<^item> \<open>PbxTiming\<close>: the bitmaps of a time expression and their test.
  \<^item> \<open>PbxContext\<close> and \<open>PbxRemove\<close>: a context with its lists and hash tables; adding is an insertion in the map from
    names, caller numbers and priorities, removal takes out exactly what is named.
  \<^item> \<open>PbxFind\<close>: the search of \<open>pbx_find_extension\<close> through includes and switches, equal to reachability by valid
    includes.
  \<^item> \<open>PbxVars\<close> (also \<open>main/chanvars.c\<close>): lists of variables as maps, and substitution, which gives what the nested
    templates mean and stays within its buffer.
  \<^item> \<open>PbxHints\<close>: the states of hints and their watchers.
  \<^item> \<open>AppArgs\<close> (\<open>main/app.c\<close>): arguments and options. \<open>TextCodec\<close> (\<open>main/utils.c\<close>, \<open>strings.h\<close>): base 64, URI escapes,
    quotes.

  \<^bold>\<open>Events and access.\<close>

  \<^item> \<open>Event\<close> and \<open>EventCache\<close> (\<open>main/event.c\<close>): the bytes of an event, subscriptions, delivery, and the cache in a
    container of \<open>Astobj2\<close>. \<open>Devstate\<close> (\<open>main/devicestate.c\<close>): the states of devices over several servers.
  \<^item> \<open>Acl\<close> (\<open>main/acl.c\<close>): access lists; lists of deny rules as sets of addresses.

  \<^bold>\<open>IAX2.\<close>

  \<^item> \<open>Iax2Ies\<close> (\<open>channels/iax2-parser.c\<close>): information elements, written and parsed.
  \<^item> \<open>Iax2Call\<close> (\<open>channels/chan_iax2.c\<close>): subclasses, timestamps, and the sequence numbers of full frames. Two
    calls, the queue of the sender and a network that loses, repeats and reorders frames form a step relation;
    in every reachable state the receiver has processed a prefix of the frames, once each and in order.

  \<^bold>\<open>State, errors and loops.\<close> The state of a component is a record or an inductive step relation, returned updated by
  each operation. \<open>None\<close> is what C leaves undefined: an access outside an array, through \<open>NULL\<close> or to a freed
  object; return codes are values of their own. Loops are recursive functions with a measure. Those that may
  run forever are \<open>partial_function\<close>s, for which a theorem says when they return (among them \<open>fill_range\<close>, \<open>runq_loop\<close>,
  \<open>ao2_ref\<close>, \<open>deliver_loop\<close>, \<open>build_loop\<close>). Two functions have fuel. \<open>fixed_jb_put\<close> and \<open>fixed_jb_put_first\<close>
  call one another: fuel 2 is enough, since a put after a resynchronisation does not resynchronise again
  (\<open>fixed_jb_put_total\<close>). \<open>pbx_find_extension\<close> recurs through includes with a stack of 128 names, and 129 levels are
  enough, since each of them pushes a name (\<open>find_extension_returns\<close>). Machine integers keep their width where
  the code depends on it; the costs of paths are exact under the hypothesis \<open>costs_ok\<close>, that no sum of them that
  is compared exceeds 32 bits.

  \<^bold>\<open>Where the properties stop.\<close> The definitions follow the code also where it goes wrong, and a lemma beside a
  property shows what happens outside its hypotheses. Versions of containers: \<open>iteration_complete\<close> is about containers
  that have changed less than \<open>2 ^ 31\<close> times (\<open>wrapped_version_skipped\<close>). Memory: \<open>sched_reach_inv\<close> lets the
  allocation of events fail, but not that of the containers' arrays (\<open>push_failure_loses_heap\<close>), \<open>fixed_jb_put_total\<close>
  has a result for the write through \<open>NULL\<close>, and \<open>jb_put_deliver_no_leak\<close> needs the record of a frame
  (\<open>adaptive_put_leaks\<close>). Sequence numbers: \<open>udptl_redundancy_recovers\<close> is about the first 65536 packets
  (\<open>udptl_wrap_drops\<close>). Frames: the samples that \<open>smoother_stream\<close> has swapped are as many as the data has
  (\<open>odd_frame_stale_byte\<close>, \<open>swap_overrun\<close>); the smoother's pointer to the caller's frame is a copy of it in the
  model, so that a frame that is reused before it is read is not represented. Elements: a variable at the end of a message
  makes the parser look behind it (\<open>variable_reads_beyond\<close>). Events: \<open>handle_event_delivers\<close> is about
  subscriptions that can be compared with the event (\<open>absent_number_delivered\<close>), \<open>event_cache_last\<close> about devices
  of one server (\<open>servers_not_told_apart\<close>). Access lists: a permit rule denies (\<open>permit_rule_denies\<close>).
  Dialplan: a dash behind the last digit (\<open>extension_match_data_dash\<close>).

  \<^bold>\<open>Parameters.\<close> The clock and the local time, the results of allocation where they matter, floats, callbacks of
  codecs and destructors, dialplan functions and switches, the expression evaluator, name lookups and sockets
  are arguments of the definitions that use them.

  \<^bold>\<open>Interfaces.\<close> The lemmas of a client are proved once over its interface. \<open>comparator\<close> holds the laws of a
  comparison callback and gives a \<open>prio_queue\<close> by the heap; it is interpreted by the order on numbers and by
  the one of the scheduler. \<open>hash_key\<close> is a comparison with a hash function that agrees with it and gives an
  \<open>object_table\<close> by the hash table; it is interpreted by the table's own functions for numbers and by those of
  the scheduler. \<open>jb_provider\<close> is what the generic jitter buffer relies on, and is interpreted by both buffers.

  \<^bold>\<open>Not modelled.\<close> Locks and threads: an operation is a step, and the loops that call out of their lock are split
  there. Channel drivers other than the parts of IAX2 above, and of IAX2 registration, authentication,
  encryption, transfers and trunks; applications and dialplan functions; channels, bridging and features: they
  are sockets, devices and files around the core. Of the dialplan the pattern tree of the alternative search,
  the merging of contexts and the execution of priorities. RTP and signal processing, which are sockets and
  floats; configuration, databases and call records; the manager, the command line, HTTP, logging and the
  loader; codecs and file formats; vendored and generated code.
\<close>

end
